(* ===== verification/Prelude.thy ===== *)
theory Prelude
  imports Main "HOL-Library.Word" "HOL-Library.Monad_Syntax"
begin

unbundle bit_operations_syntax

section \<open>Prelude: machine words, byte strings and slices\<close>

text \<open>
  What every component of the development shares: names for Go's fixed-width integers, the
  big-endian and little-endian accessors of the standard package \<open>encoding/binary\<close>, reads and
  writes of a byte slice with Go's bounds checks, and the generic lemmas on lists, options and
  words the component proofs use.

  A read or a write out of range is a run-time panic in Go. Here such an operation returns
  \<open>None\<close>; a definition in the option monad therefore returns \<open>None\<close> exactly where the Go
  function panics, and "never panics" is a theorem about it.
\<close>

type_synonym byte = "8 word"
type_synonym u16 = "16 word"
type_synonym u32 = "32 word"
type_synonym u64 = "64 word"
type_synonym u128 = "128 word"
type_synonym bytes = "byte list"

named_theorems slice_simps \<open>evaluation of slice reads and writes that are in range\<close>
named_theorems codec \<open>round trips of the word/byte conversions\<close>

subsection \<open>Slices\<close>

text \<open>\<open>b[i]\<close>, \<open>b[i] = v\<close>, \<open>b[i:]\<close> and \<open>b[i:j]\<close> of a Go slice (whose capacity is its length).\<close>

definition rd :: "'a list \<Rightarrow> nat \<Rightarrow> 'a option" where
  "rd b i = (if i < length b then Some (b ! i) else None)"

definition wr :: "'a list \<Rightarrow> nat \<Rightarrow> 'a \<Rightarrow> 'a list option" where
  "wr b i v = (if i < length b then Some (b[i := v]) else None)"

definition slice_from :: "'a list \<Rightarrow> nat \<Rightarrow> 'a list option" where
  "slice_from b i = (if i \<le> length b then Some (drop i b) else None)"

definition slice :: "'a list \<Rightarrow> nat \<Rightarrow> nat \<Rightarrow> 'a list option" where
  "slice b i j = (if i \<le> j \<and> j \<le> length b then Some (take (j - i) (drop i b)) else None)"

text \<open>\<open>copy(b[i:], src)\<close> for a source that fits; what does not fit is cut off, as \<open>copy\<close> does.\<close>

definition copy_at :: "'a list \<Rightarrow> nat \<Rightarrow> 'a list \<Rightarrow> 'a list" where
  "copy_at b i src = take i b @ take (length b - i) src @ drop (i + length src) b"

lemma rd_Some [slice_simps]: "i < length b \<Longrightarrow> rd b i = Some (b ! i)"
  by (simp add: rd_def)

lemma wr_Some [slice_simps]: "i < length b \<Longrightarrow> wr b i v = Some (b[i := v])"
  by (simp add: wr_def)

lemma slice_from_Some [slice_simps]: "i \<le> length b \<Longrightarrow> slice_from b i = Some (drop i b)"
  by (simp add: slice_from_def)

lemma slice_Some [slice_simps]:
  "i \<le> j \<Longrightarrow> j \<le> length b \<Longrightarrow> slice b i j = Some (take (j - i) (drop i b))"
  by (simp add: slice_def)

lemma rd_eq_None: "rd b i = None \<longleftrightarrow> length b \<le> i"
  by (auto simp: rd_def)

lemma rd_eq_Some: "rd b i = Some v \<longleftrightarrow> i < length b \<and> b ! i = v"
  by (auto simp: rd_def)

lemma wr_length: "wr b i v = Some b' \<Longrightarrow> length b' = length b"
  by (auto simp: wr_def split: if_splits)

lemma copy_at_length [simp]: "i \<le> length b \<Longrightarrow> length (copy_at b i src) = length b"
  by (auto simp: copy_at_def min_def)

lemma copy_at_nth:
  assumes "i + length src \<le> length b" "k < length b"
  shows "copy_at b i src ! k = (if i \<le> k \<and> k < i + length src then src ! (k - i) else b ! k)"
  using assms by (auto simp: copy_at_def nth_append min_def)

lemma copy_at_code:
  "i + length src \<le> length b \<Longrightarrow> copy_at b i src = take i b @ src @ drop (i + length src) b"
  by (simp add: copy_at_def)

subsection \<open>Big-endian words\<close>

text \<open>
  \<open>binary.BigEndian.Uint16/32/64\<close> read a word from its bytes, most significant first, and
  \<open>PutUint16/32/64\<close> write one.
\<close>

definition be_word :: "bytes \<Rightarrow> 'a::len word" where
  "be_word bs = foldl (\<lambda>w b. push_bit 8 w OR ucast b) 0 bs"

definition be_bytes :: "nat \<Rightarrow> 'a::len word \<Rightarrow> bytes" where
  "be_bytes n w = map (\<lambda>i. ucast (drop_bit (8 * (n - 1 - i)) w)) [0..<n]"

lemma be_word_Nil [simp]: "be_word [] = 0"
  by (simp add: be_word_def)

lemma be_word_snoc: "be_word (bs @ [b]) = push_bit 8 (be_word bs) OR ucast b"
  by (simp add: be_word_def)

lemma length_be_bytes [simp]: "length (be_bytes n w) = n"
  by (simp add: be_bytes_def)

lemma be_bytes_nth: "i < n \<Longrightarrow> be_bytes n w ! i = ucast (drop_bit (8 * (n - 1 - i)) w)"
  by (simp add: be_bytes_def)

lemma bit_be_word:
  "bit (be_word bs :: 'a::len word) k \<longleftrightarrow>
     k < LENGTH('a) \<and> k div 8 < length bs \<and> bit (bs ! (length bs - 1 - k div 8)) (k mod 8)"
proof (induction bs arbitrary: k rule: rev_induct)
  case Nil
  then show ?case by simp
next
  case (snoc b bs)
  show ?case
  proof (cases "k < 8")
    case True
    then show ?thesis
      by (auto simp: be_word_snoc bit_simps)
  next
    case False
    then obtain j where k: "k = 8 + j" by (metis le_Suc_ex not_less)
    have "\<not> bit b k" using False by (auto dest: bit_imp_le_length)
    moreover have "(8 + j) div 8 = Suc (j div 8)" by simp
    ultimately show ?thesis using snoc.IH [of j] k
      by (auto simp: be_word_snoc bit_simps nth_append)
  qed
qed

lemma bit_be_bytes:
  "i < n \<Longrightarrow> bit (be_bytes n (w :: 'a::len word) ! i) k \<longleftrightarrow> k < 8 \<and> bit w (8 * (n - 1 - i) + k)"
  by (auto simp: be_bytes_nth bit_simps)

lemma be_word_be_bytes [codec, simp]:
  "LENGTH('a::len) = 8 * n \<Longrightarrow> be_word (be_bytes n (w :: 'a word)) = w"
proof (rule bit_word_eqI)
  fix k
  assume len: "LENGTH('a) = 8 * n" and k: "k < LENGTH('a)"
  then have kn: "k div 8 < n" by auto
  then have "8 * (n - 1 - (n - 1 - k div 8)) + k mod 8 = k" by auto
  with k kn len show "bit (be_word (be_bytes n w) :: 'a word) k \<longleftrightarrow> bit w k"
    by (simp add: bit_be_word bit_be_bytes)
qed

lemma be_bytes_be_word [codec, simp]:
  "length bs = n \<Longrightarrow> LENGTH('a::len) = 8 * n \<Longrightarrow> be_bytes n (be_word bs :: 'a word) = bs"
proof (rule nth_equalityI)
  fix i
  assume len: "length bs = n" "LENGTH('a) = 8 * n"
    and "i < length (be_bytes n (be_word bs :: 'a word))"
  then have i: "i < n" by simp
  show "be_bytes n (be_word bs :: 'a word) ! i = bs ! i"
  proof (rule bit_word_eqI)
    fix k assume "k < LENGTH(8)"
    then have k: "k < 8" by simp
    have "(8 * (n - Suc i) + k) div 8 = n - Suc i" "(8 * (n - Suc i) + k) mod 8 = k"
      using k by auto
    moreover have "8 * (n - Suc i) + k < 8 * n" using i k by auto
    moreover have "n - Suc (n - Suc i) = i" using i by simp
    ultimately show "bit (be_bytes n (be_word bs :: 'a word) ! i) k \<longleftrightarrow> bit (bs ! i) k"
      using i k len by (simp add: bit_be_bytes bit_be_word)
  qed
qed simp

text \<open>The two-byte case, which most header fields use.\<close>

definition be16 :: "byte \<Rightarrow> byte \<Rightarrow> u16" where
  "be16 hi lo = push_bit 8 (ucast hi) OR ucast lo"

definition be16_hi :: "u16 \<Rightarrow> byte" where
  "be16_hi w = ucast (drop_bit 8 w)"

definition be16_lo :: "u16 \<Rightarrow> byte" where
  "be16_lo w = ucast w"

lemma be16_hi_lo [codec, simp]: "be16 (be16_hi w) (be16_lo w) = w"
  by (rule bit_word_eqI) (auto simp: be16_def be16_hi_def be16_lo_def bit_simps)

lemma be16_hi_be16 [codec, simp]: "be16_hi (be16 h l) = h"
  by (rule bit_word_eqI) (auto simp: be16_def be16_hi_def bit_simps dest: bit_imp_le_length)

lemma be16_lo_be16 [codec, simp]: "be16_lo (be16 h l) = l"
  by (rule bit_word_eqI) (auto simp: be16_def be16_lo_def bit_simps)

lemma unat_be16: "unat (be16 h l) = 256 * unat h + unat l"
proof -
  have "push_bit 8 (ucast h :: u16) AND ucast l = 0"
    by (rule bit_word_eqI) (auto simp: bit_simps dest: bit_imp_le_length)
  then have "be16 h l = push_bit 8 (ucast h) + ucast l"
    by (simp add: be16_def disjunctive_add_eq_or)
  moreover have "unat h < 256" "unat l < 256"
    using unsigned_less [of h] unsigned_less [of l] by simp_all
  ultimately show ?thesis
    by (simp add: push_bit_eq_mult unat_word_ariths unsigned_ucast_eq unsigned_take_bit_eq take_bit_nat_eq_self)
qed

text \<open>\<open>binary.BigEndian.Uint16(b[i:i+2])\<close> and \<open>PutUint16(b[i:i+2], w)\<close>.\<close>

definition rd16 :: "bytes \<Rightarrow> nat \<Rightarrow> u16 option" where
  "rd16 b i = do { h \<leftarrow> rd b i; l \<leftarrow> rd b (i + 1); Some (be16 h l) }"

definition wr16 :: "bytes \<Rightarrow> nat \<Rightarrow> u16 \<Rightarrow> bytes option" where
  "wr16 b i w = do { b1 \<leftarrow> wr b i (be16_hi w); wr b1 (i + 1) (be16_lo w) }"

lemma rd16_Some [slice_simps]: "i + 1 < length b \<Longrightarrow> rd16 b i = Some (be16 (b ! i) (b ! (i + 1)))"
  by (simp add: rd16_def rd_def)

lemma wr16_Some [slice_simps]:
  "i + 1 < length b \<Longrightarrow> wr16 b i w = Some (b[i := be16_hi w, i + 1 := be16_lo w])"
  by (simp add: wr16_def wr_def)

subsection \<open>Generic list and option lemmas\<close>

lemma filter_False_map_of: "k \<notin> fst ` set xs \<Longrightarrow> map_of xs k = None"
  by (simp add: map_of_eq_None_iff)

lemma remove1_last_butlast: "xs \<noteq> [] \<Longrightarrow> distinct xs \<Longrightarrow> remove1 (last xs) xs = butlast xs"
proof (induction xs)
  case (Cons x xs)
  then show ?case by (cases xs) auto
qed simp

lemma find_distinct_map:
  "distinct (map f l) \<Longrightarrow> x \<in> set l \<Longrightarrow> find (\<lambda>y. f y = f x) l = Some x"
  by (induction l) (auto simp: image_iff)

end
