(* ===== verification/Netip.thy ===== *)
theory Netip
  imports Prelude
begin

unbundle bit_operations_syntax

section \<open>The standard package \<open>net/netip\<close>\<close>

text \<open>
  The part of Go's \<open>net/netip\<close> (Go 1.21, the version \<open>src/go.mod\<close> names) that the modelled
  packages call: addresses, address/port pairs and prefixes. An address is the zero value, an
  IPv4 address of 32 bits or an IPv6 address of 128 bits with a zone; a prefix carries the
  number of bits, or \<open>-1\<close> when it is invalid. A method that panics returns \<open>None\<close>.

  The lemmas give every operation a reading on the list of an address's bits, most significant
  first, which is the view the filter and the routing table need.
\<close>

subsection \<open>Addresses\<close>

datatype addr = AddrZero | V4 u32 | V6 u128 string

fun Is4 :: "addr \<Rightarrow> bool" where
  "Is4 (V4 _) = True"
| "Is4 _ = False"

fun Is6 :: "addr \<Rightarrow> bool" where
  "Is6 (V6 _ _) = True"
| "Is6 _ = False"

fun BitLen :: "addr \<Rightarrow> nat" where
  "BitLen AddrZero = 0"
| "BitLen (V4 _) = 32"
| "BitLen (V6 _ _) = 128"

fun hasZone :: "addr \<Rightarrow> bool" where
  "hasZone (V6 _ z) = (z \<noteq> [])"
| "hasZone _ = False"

fun withoutZone :: "addr \<Rightarrow> addr" where
  "withoutZone (V6 w _) = V6 w []"
| "withoutZone a = a"

definition Is4In6_word :: "u128 \<Rightarrow> bool" where
  "Is4In6_word w = (drop_bit 32 w = 0xffff)"

fun As4 :: "addr \<Rightarrow> bytes option" where
  "As4 AddrZero = None"
| "As4 (V4 w) = Some (be_bytes 4 w)"
| "As4 (V6 w _) = (if Is4In6_word w then Some (be_bytes 4 (ucast w :: u32)) else None)"

fun As16 :: "addr \<Rightarrow> bytes" where
  "As16 AddrZero = replicate 16 0"
| "As16 (V4 w) = replicate 10 0 @ [0xff, 0xff] @ be_bytes 4 w"
| "As16 (V6 w _) = be_bytes 16 w"

fun AsSlice :: "addr \<Rightarrow> bytes" where
  "AsSlice AddrZero = []"
| "AsSlice (V4 w) = be_bytes 4 w"
| "AsSlice (V6 w _) = be_bytes 16 w"

definition AddrFrom4 :: "bytes \<Rightarrow> addr" where
  "AddrFrom4 bs = V4 (be_word bs)"

definition AddrFrom16 :: "bytes \<Rightarrow> addr" where
  "AddrFrom16 bs = V6 (be_word bs) []"

text \<open>\<open>AddrFromSlice\<close> with its \<open>ok\<close> result: \<open>None\<close> is \<open>ok = false\<close>.\<close>

definition AddrFromSlice :: "bytes \<Rightarrow> addr option" where
  "AddrFromSlice bs =
     (if length bs = 4 then Some (AddrFrom4 bs)
      else if length bs = 16 then Some (AddrFrom16 bs) else None)"

fun IsMulticast :: "addr \<Rightarrow> bool" where
  "IsMulticast (V4 w) = (drop_bit 28 w = 0xe)"
| "IsMulticast (V6 w _) = (drop_bit 120 w = 0xff)"
| "IsMulticast AddrZero = False"

fun IsLinkLocalUnicast :: "addr \<Rightarrow> bool" where
  "IsLinkLocalUnicast (V4 w) = (drop_bit 16 w = 0xa9fe)"
| "IsLinkLocalUnicast (V6 w _) = (drop_bit 118 w = 0x3fa)"
| "IsLinkLocalUnicast AddrZero = False"

subsection \<open>Address and port\<close>

record addrport =
  ap_addr :: addr
  ap_port :: u16

definition AddrPortFrom :: "addr \<Rightarrow> u16 \<Rightarrow> addrport" where
  "AddrPortFrom a p = \<lparr>ap_addr = a, ap_port = p\<rparr>"

definition zeroAddrPort :: addrport where
  "zeroAddrPort = \<lparr>ap_addr = AddrZero, ap_port = 0\<rparr>"

subsection \<open>Prefixes\<close>

datatype prefix = Prefix (pfx_addr: addr) (pfx_bits: int)

definition zeroPrefix :: prefix where
  "zeroPrefix = Prefix AddrZero (-1)"

definition PrefixFrom :: "addr \<Rightarrow> int \<Rightarrow> prefix" where
  "PrefixFrom ip n =
     Prefix (withoutZone ip) (if ip \<noteq> AddrZero \<and> 0 \<le> n \<and> n \<le> int (BitLen ip) then n else -1)"

definition pfx_valid :: "prefix \<Rightarrow> bool" where
  "pfx_valid p = (0 \<le> pfx_bits p \<and> pfx_bits p \<le> int (BitLen (pfx_addr p)) \<and> pfx_addr p \<noteq> AddrZero)"

definition mask_hi :: "nat \<Rightarrow> 'a::len word" where
  "mask_hi n = NOT (mask (LENGTH('a) - n))"

fun Contains_bits :: "addr \<Rightarrow> nat \<Rightarrow> addr \<Rightarrow> bool" where
  "Contains_bits (V4 p) n (V4 w) = (drop_bit (32 - n) (w XOR p) = 0)"
| "Contains_bits (V6 p _) n (V6 w z) = (z = [] \<and> (w XOR p) AND mask_hi n = 0)"
| "Contains_bits _ _ _ = False"

definition Contains :: "prefix \<Rightarrow> addr \<Rightarrow> bool" where
  "Contains p ip = (pfx_valid p \<and> Contains_bits (pfx_addr p) (nat (pfx_bits p)) ip)"

text \<open>\<open>Addr.Prefix\<close>: \<open>None\<close> is the error return.\<close>

fun mask_addr :: "addr \<Rightarrow> nat \<Rightarrow> addr" where
  "mask_addr AddrZero n = AddrZero"
| "mask_addr (V4 w) n = V4 (w AND mask_hi n)"
| "mask_addr (V6 w z) n = V6 (w AND mask_hi n) []"

definition Addr_Prefix :: "addr \<Rightarrow> int \<Rightarrow> prefix option" where
  "Addr_Prefix ip b =
     (if b < 0 then None
      else if ip = AddrZero then Some zeroPrefix
      else if int (BitLen ip) < b then None
      else Some (PrefixFrom (mask_addr ip (nat b)) b))"

definition Masked :: "prefix \<Rightarrow> prefix" where
  "Masked p = (case Addr_Prefix (pfx_addr p) (pfx_bits p) of None \<Rightarrow> zeroPrefix | Some q \<Rightarrow> q)"

definition Overlaps :: "prefix \<Rightarrow> prefix \<Rightarrow> bool" where
  "Overlaps p q =
     (if \<not> pfx_valid p \<or> \<not> pfx_valid q then False
      else if p = q then True
      else if Is4 (pfx_addr p) \<noteq> Is4 (pfx_addr q) then False
      else let m = min (pfx_bits p) (pfx_bits q) in
        if m = 0 then True
        else mask_addr (pfx_addr p) (nat m) = mask_addr (pfx_addr q) (nat m))"

subsection \<open>The bits of an address\<close>

definition word_bits :: "'a::len word \<Rightarrow> bool list" where
  "word_bits w = map (\<lambda>i. bit w (LENGTH('a) - 1 - i)) [0..<LENGTH('a)]"

fun addr_bits :: "addr \<Rightarrow> bool list" where
  "addr_bits AddrZero = []"
| "addr_bits (V4 w) = word_bits w"
| "addr_bits (V6 w _) = word_bits w"

lemma length_word_bits [simp]: "length (word_bits (w :: 'a::len word)) = LENGTH('a)"
  by (simp add: word_bits_def)

lemma length_addr_bits [simp]: "length (addr_bits a) = BitLen a"
  by (cases a) simp_all

lemma word_bits_nth:
  "i < LENGTH('a) \<Longrightarrow> word_bits (w :: 'a::len word) ! i = bit w (LENGTH('a) - 1 - i)"
  by (simp add: word_bits_def)

lemma word_bits_inject [simp]: "word_bits v = word_bits w \<longleftrightarrow> v = (w :: 'a::len word)"
proof
  assume eq: "word_bits v = word_bits w"
  show "v = w"
  proof (rule bit_word_eqI)
    fix k assume k: "k < LENGTH('a)"
    have "word_bits v ! (LENGTH('a) - 1 - k) = word_bits w ! (LENGTH('a) - 1 - k)"
      using eq by simp
    with k show "bit v k \<longleftrightarrow> bit w k" by (simp add: word_bits_nth)
  qed
qed simp

text \<open>Equal leading bits, as a statement about single bits of the two words.\<close>

lemma take_word_bits_eq:
  assumes "n \<le> LENGTH('a::len)"
  shows "take n (word_bits (v :: 'a word)) = take n (word_bits (w :: 'a word)) \<longleftrightarrow>
    (\<forall>k. LENGTH('a) - n \<le> k \<and> k < LENGTH('a) \<longrightarrow> bit v k = bit w k)" (is "?L = ?R")
proof
  assume L: ?L
  show ?R
  proof (intro allI impI)
    fix k assume k: "LENGTH('a) - n \<le> k \<and> k < LENGTH('a)"
    then have "take n (word_bits v) ! (LENGTH('a) - 1 - k) = take n (word_bits w) ! (LENGTH('a) - 1 - k)"
      using L by simp
    moreover have "LENGTH('a) - 1 - k < n" "LENGTH('a) - 1 - (LENGTH('a) - 1 - k) = k"
      using k assms by auto
    moreover have "LENGTH('a) - 1 - k < LENGTH('a)" using k by auto
    ultimately show "bit v k = bit w k" using k by (simp add: word_bits_def)
  qed
next
  assume ?R
  with assms show ?L
    by (intro nth_equalityI) (auto simp: word_bits_nth)
qed

lemma drop_bit_xor_eq_0:
  assumes "n \<le> LENGTH('a::len)"
  shows "drop_bit (LENGTH('a) - n) (v XOR (w :: 'a word)) = 0 \<longleftrightarrow>
    take n (word_bits v) = take n (word_bits w)"
proof -
  have "drop_bit (LENGTH('a) - n) (v XOR w) = 0 \<longleftrightarrow>
      (\<forall>k. LENGTH('a) - n \<le> k \<and> k < LENGTH('a) \<longrightarrow> bit v k = bit w k)"
  proof
    assume L: "drop_bit (LENGTH('a) - n) (v XOR w) = 0"
    show "\<forall>k. LENGTH('a) - n \<le> k \<and> k < LENGTH('a) \<longrightarrow> bit v k = bit w k"
    proof (intro allI impI)
      fix k assume k: "LENGTH('a) - n \<le> k \<and> k < LENGTH('a)"
      have "\<not> bit (drop_bit (LENGTH('a) - n) (v XOR w)) (k - (LENGTH('a) - n))"
        using L by simp
      with k show "bit v k = bit w k" by (simp add: bit_simps)
    qed
  next
    assume R: "\<forall>k. LENGTH('a) - n \<le> k \<and> k < LENGTH('a) \<longrightarrow> bit v k = bit w k"
    show "drop_bit (LENGTH('a) - n) (v XOR w) = 0"
    proof (rule bit_word_eqI)
      fix k assume "k < LENGTH('a)"
      show "bit (drop_bit (LENGTH('a) - n) (v XOR w)) k \<longleftrightarrow> bit (0 :: 'a word) k"
        using R [rule_format, of "LENGTH('a) - n + k"]
        by (cases "LENGTH('a) - n + k < LENGTH('a)") (auto simp: bit_simps dest: bit_imp_le_length)
    qed
  qed
  then show ?thesis using take_word_bits_eq [OF assms, of v w] by blast
qed

lemma xor_and_mask_hi_eq_0:
  assumes "n \<le> LENGTH('a::len)"
  shows "(v XOR (w :: 'a word)) AND mask_hi n = 0 \<longleftrightarrow>
    take n (word_bits v) = take n (word_bits w)"
proof -
  have "(v XOR w) AND mask_hi n = 0 \<longleftrightarrow>
      (\<forall>k. LENGTH('a) - n \<le> k \<and> k < LENGTH('a) \<longrightarrow> bit v k = bit w k)"
    unfolding bit_eq_iff mask_hi_def by (auto simp: bit_simps dest: bit_imp_le_length)
  then show ?thesis using take_word_bits_eq [OF assms, of v w] by blast
qed

text \<open>
  \<open>Prefix.Contains\<close> on the bits: same family, no zone, and the first \<open>Bits()\<close> bits agree.
\<close>

lemma Contains_bits_iff:
  "n \<le> BitLen p \<Longrightarrow> Contains_bits p n ip \<longleftrightarrow>
     (p \<noteq> AddrZero \<and> Is4 p = Is4 ip \<and> Is6 p = Is6 ip \<and> \<not> hasZone ip \<and>
      take n (addr_bits ip) = take n (addr_bits p))"
  using drop_bit_xor_eq_0 [where 'a = 32, of n] xor_and_mask_hi_eq_0 [where 'a = 128, of n]
  by (cases p; cases ip) auto

lemma Contains_iff:
  "Contains p ip \<longleftrightarrow> pfx_valid p \<and> Is4 (pfx_addr p) = Is4 ip \<and> Is6 (pfx_addr p) = Is6 ip \<and>
     \<not> hasZone ip \<and> take (nat (pfx_bits p)) (addr_bits ip) = take (nat (pfx_bits p)) (addr_bits (pfx_addr p))"
  by (auto simp: Contains_def pfx_valid_def Contains_bits_iff)

lemma Contains_family: "Contains p ip \<Longrightarrow> Is4 (pfx_addr p) = Is4 ip \<and> Is6 (pfx_addr p) = Is6 ip"
  by (simp add: Contains_iff)

lemma Contains_mixed_family [simp]:
  "Contains (Prefix (V6 p z) n) (V4 w) = False" "Contains (Prefix (V4 q) n) (V6 v y) = False"
  by (simp_all add: Contains_def)

lemma not_Is4_Is6 [simp]: "Is4 a \<Longrightarrow> \<not> Is6 a" "Is6 a \<Longrightarrow> \<not> Is4 a"
  by (cases a; simp)+

subsection \<open>Round trips between addresses and bytes\<close>

lemma AddrFrom4_As4 [codec, simp]: "As4 (V4 w) = Some (be_bytes 4 w)" "AddrFrom4 (be_bytes 4 w) = V4 w"
  by (simp_all add: AddrFrom4_def)

lemma AddrFrom16_As16 [codec, simp]: "AddrFrom16 (be_bytes 16 w) = V6 w []"
  by (simp add: AddrFrom16_def)

lemma length_As16 [simp]: "length (As16 a) = 16"
  by (cases a) simp_all

lemma AddrFromSlice_AsSlice: "a \<noteq> AddrZero \<Longrightarrow> AddrFromSlice (AsSlice a) = Some (withoutZone a)"
  by (cases a) (simp_all add: AddrFromSlice_def)

end
