(* ===== verification/Stride_Table.thy ===== *)
theory Stride_Table
  imports Netip
begin

unbundle bit_operations_syntax

section \<open>Package \<open>net/art\<close>: one stride of the allotment routing table\<close>

text \<open>
  \<open>src/net/art/stride_table.go\<close>: an 8-bit routing table as a complete binary tree of 511 nodes in an
  array, node \<open>i\<close> having parent \<open>i >> 1\<close>. An entry is a pointer; the code compares pointers, never
  values, so an entry is a pair of the allocation's number and the value (\<open>None\<close> is nil).

  The abstraction \<open>routes\<close> reads off the array which prefixes have a route: the nodes whose pointer
  differs from their parent's. \<open>stride_wf\<close> is the invariant (a node below a non-nil node is non-nil,
  distinct routes have distinct pointers). The laws: \<open>insert\<close> and \<open>delete\<close> update \<open>routes\<close> at one
  prefix, keep the route counter exact, and \<open>get\<close> is the longest match over \<open>routes\<close>.
\<close>

type_synonym 'v ptr = "nat \<times> 'v"

datatype 'v stride = Stride (st_prefix: prefix) (st_entries: "'v ptr option list")
  (st_children: "'v stride option list") (st_routeRefs: u16) (st_childRefs: u16)

definition firstHostIndex :: nat where [simp]: "firstHostIndex = 256"
definition lastHostIndex :: nat where [simp]: "lastHostIndex = 511"
definition numChildren :: nat where [simp]: "numChildren = 256"

text \<open>A zero \<open>strideTable\<close> with the given prefix.\<close>

definition newStride :: "prefix \<Rightarrow> 'v stride" where
  "newStride p = Stride p (replicate (lastHostIndex + 1) None) (replicate numChildren None) 0 0"

subsection \<open>Indexes\<close>

text \<open>A shift by a negative count panics in Go: \<open>None\<close>.\<close>

definition prefixIndex :: "byte \<Rightarrow> int \<Rightarrow> nat option" where
  "prefixIndex addr prefixLen =
     (if prefixLen < 0 \<or> 8 < prefixLen then None
      else Some (drop_bit (nat (8 - prefixLen)) (unat addr) + push_bit (nat prefixLen) 1))"

definition parentIndex :: "nat \<Rightarrow> nat" where
  "parentIndex idx = drop_bit 1 idx"

definition hostIndex :: "byte \<Rightarrow> nat" where
  "hostIndex addr = unat addr + push_bit 8 1"

definition childPrefixOf :: "prefix \<Rightarrow> byte \<Rightarrow> prefix option" where
  "childPrefixOf parent stride =
     (let l = pfx_bits parent in
      if l mod 8 \<noteq> 0 then None
      else if int (BitLen (pfx_addr parent)) \<le> l then None
      else let off = nat (l div 8) in
        if Is4 (pfx_addr parent) then do {
          bs \<leftarrow> As4 (pfx_addr parent);
          bs' \<leftarrow> wr bs off stride;
          Some (PrefixFrom (AddrFrom4 bs') (l + 8)) }
        else do {
          bs' \<leftarrow> wr (As16 (pfx_addr parent)) off stride;
          Some (PrefixFrom (AddrFrom16 bs') (l + 8)) })"

subsection \<open>Children\<close>

definition getChild :: "'v stride \<Rightarrow> byte \<Rightarrow> 'v stride option" where
  "getChild t addr = st_children t ! unat addr"

fun deleteChild :: "'v stride \<Rightarrow> byte \<Rightarrow> 'v stride" where
  "deleteChild (Stride p es cs rr cr) addr =
     Stride p es (cs[unat addr := None]) rr (if cs ! unat addr \<noteq> None then cr - 1 else cr)"

fun setChild :: "'v stride \<Rightarrow> byte \<Rightarrow> 'v stride \<Rightarrow> 'v stride" where
  "setChild (Stride p es cs rr cr) addr child =
     Stride p es (cs[unat addr := Some child]) rr (if cs ! unat addr = None then cr + 1 else cr)"

definition findFirstChild :: "'v stride \<Rightarrow> 'v stride option" where
  "findFirstChild t = (case dropWhile (\<lambda>c. c = None) (st_children t) of [] \<Rightarrow> None | c # _ \<Rightarrow> c)"

text \<open>
  \<open>getOrCreateChild\<close> returns the child and whether it was created; the table with the child attached
  is returned too. \<open>None\<close> is a panic of \<open>childPrefixOf\<close>.
\<close>

definition getOrCreateChild :: "'v stride \<Rightarrow> byte \<Rightarrow> ('v stride \<times> bool \<times> 'v stride) option" where
  "getOrCreateChild t addr =
     (case st_children t ! unat addr of
        Some ret \<Rightarrow> Some (ret, False, t)
      | None \<Rightarrow> do {
          p \<leftarrow> childPrefixOf (st_prefix t) addr;
          let ret = newStride p;
          Some (ret, True, Stride (st_prefix t) (st_entries t) ((st_children t)[unat addr := Some ret])
                             (st_routeRefs t) (st_childRefs t + 1)) })"

subsection \<open>Routes\<close>

definition hasPrefixRootedAt :: "'e option list \<Rightarrow> nat \<Rightarrow> bool" where
  "hasPrefixRootedAt es idx =
     (let val = es ! idx in
      if val = None then False
      else let parentIdx = parentIndex idx in
        if parentIdx = 0 then True
        else if val \<noteq> es ! parentIdx then True
        else False)"

text \<open>
  \<open>allot\<close>, on the entry array. Index 0 is no node of the tree and is never passed (the recursion of
  the code would not leave it).
\<close>

function allot :: "'e option list \<Rightarrow> nat \<Rightarrow> 'e option \<Rightarrow> 'e option \<Rightarrow> 'e option list" where
  "allot es idx old new =
     (if es ! idx \<noteq> old \<or> idx = 0 then es
      else let es1 = es[idx := new] in
        if firstHostIndex \<le> idx then es1
        else let left = push_bit 1 idx;
                 es2 = allot es1 left old new;
                 right = left + 1
             in allot es2 right old new)"
  by pat_completeness auto

termination allot
  by (relation "measure (\<lambda>(es, idx, _). 512 - idx)") (auto simp: push_bit_eq_mult mult.commute)

declare allot.simps [simp del]

text \<open>\<open>p\<close> is the number of the fresh allocation \<open>new(T)\<close>.\<close>

definition stride_insert :: "'v stride \<Rightarrow> byte \<Rightarrow> int \<Rightarrow> nat \<Rightarrow> 'v \<Rightarrow> 'v stride option" where
  "stride_insert t addr prefixLen p val = do {
     idx \<leftarrow> prefixIndex addr prefixLen;
     let es = st_entries t;
     let rr = (if \<not> hasPrefixRootedAt es idx then st_routeRefs t + 1 else st_routeRefs t);
     let old = es ! idx;
     Some (Stride (st_prefix t) (allot es idx old (Some (p, val))) (st_children t) rr (st_childRefs t)) }"

definition stride_delete :: "'v stride \<Rightarrow> byte \<Rightarrow> int \<Rightarrow> (bool \<times> 'v stride) option" where
  "stride_delete t addr prefixLen = do {
     idx \<leftarrow> prefixIndex addr prefixLen;
     let es = st_entries t;
     if \<not> hasPrefixRootedAt es idx then Some (False, t)
     else do {
       let val = es ! idx;
       let parentVal = (if parentIndex idx \<noteq> 0 then es ! parentIndex idx else None);
       Some (True, Stride (st_prefix t) (allot es idx val parentVal) (st_children t)
                     (st_routeRefs t - 1) (st_childRefs t)) } }"

definition stride_get :: "'v stride \<Rightarrow> byte \<Rightarrow> 'v option" where
  "stride_get t addr = map_option snd (st_entries t ! hostIndex addr)"

definition getValAndChild :: "'v stride \<Rightarrow> byte \<Rightarrow> 'v option \<times> 'v stride option" where
  "getValAndChild t addr =
     (map_option snd (st_entries t ! hostIndex addr), st_children t ! unat addr)"

subsection \<open>Ancestors in the tree\<close>

definition anc :: "nat \<Rightarrow> nat \<Rightarrow> bool" where
  "anc k i \<longleftrightarrow> 0 < k \<and> (\<exists>n. i div 2 ^ n = k)"

lemma anc_refl [simp]: "0 < i \<Longrightarrow> anc i i"
  by (auto simp: anc_def intro: exI [of _ 0])

lemma anc_pos: "anc k i \<Longrightarrow> 0 < k \<and> k \<le> i"
  by (auto simp: anc_def)

lemma anc_step: "anc k i \<longleftrightarrow> 0 < k \<and> (i = k \<or> anc k (i div 2))"
proof
  assume "anc k i"
  then obtain n where k: "0 < k" "i div 2 ^ n = k" by (auto simp: anc_def)
  then show "0 < k \<and> (i = k \<or> anc k (i div 2))"
    by (cases n) (auto simp: anc_def div_mult2_eq [symmetric] intro: exI)
next
  assume a: "0 < k \<and> (i = k \<or> anc k (i div 2))"
  show "anc k i"
  proof (cases "i = k")
    case False
    with a obtain n where "0 < k" "i div 2 div 2 ^ n = k" by (auto simp: anc_def)
    then have "i div 2 ^ Suc n = k" by (simp add: div_mult2_eq [symmetric])
    with \<open>0 < k\<close> show ?thesis unfolding anc_def by blast
  qed (use a in simp)
qed

lemma anc_trans: "anc a b \<Longrightarrow> anc b c \<Longrightarrow> anc a c"
proof -
  assume "anc a b" "anc b c"
  then obtain m n where a: "0 < a" "b div 2 ^ m = a" "c div 2 ^ n = b" by (auto simp: anc_def)
  then have "c div 2 ^ (n + m) = a" by (simp add: power_add div_mult2_eq)
  with a(1) show "anc a c" unfolding anc_def by blast
qed

lemma anc_children: "0 < k \<Longrightarrow> anc k i \<longleftrightarrow> i = k \<or> anc (2 * k) i \<or> anc (2 * k + 1) i"
proof (induction i rule: less_induct)
  case (less i)
  show ?case
  proof (cases "i = 0 \<or> i = k")
    case True
    then show ?thesis using less.prems anc_pos by (cases "i = 0") (auto dest: anc_pos)
  next
    case False
    then have i: "i div 2 < i" "0 < i" "i \<noteq> k" by simp_all
    have "anc k i \<longleftrightarrow> anc k (i div 2)" using less.prems i by (subst anc_step) auto
    also have "\<dots> \<longleftrightarrow> i div 2 = k \<or> anc (2 * k) (i div 2) \<or> anc (2 * k + 1) (i div 2)"
      using less.IH [OF i(1)] less.prems by blast
    also have "\<dots> \<longleftrightarrow> anc (2 * k) i \<or> anc (2 * k + 1) i"
    proof -
      have "i div 2 = k \<longleftrightarrow> i = 2 * k \<or> i = 2 * k + 1" by auto
      then show ?thesis using less.prems anc_step [of "2 * k" i] anc_step [of "2 * k + 1" i] by auto
    qed
    finally show ?thesis using i by simp
  qed
qed

lemma anc_siblings_disjoint: "anc (2 * k) i \<Longrightarrow> anc (2 * k + 1) i \<Longrightarrow> False"
proof (induction i rule: less_induct)
  case (less i)
  from less.prems have i: "0 < i" by (auto dest: anc_pos)
  show ?case
  proof (cases "i = 2 * k \<or> i = 2 * k + 1")
    case True
    then show ?thesis
    proof
      assume "i = 2 * k"
      with less.prems(2) show False by (auto dest: anc_pos)
    next
      assume e: "i = 2 * k + 1"
      with less.prems(1) have "anc (2 * k) k" using anc_step [of "2 * k" i] by auto
      then show False by (auto dest: anc_pos)
    qed
  next
    case False
    then have "anc (2 * k) (i div 2)" "anc (2 * k + 1) (i div 2)"
      using less.prems anc_step [of "2 * k" i] anc_step [of "2 * k + 1" i] by auto
    with less.IH [of "i div 2"] i show False by simp
  qed
qed

subsection \<open>What \<open>allot\<close> changes\<close>

text \<open>All nodes from \<open>i\<close> down to \<open>j\<close> hold \<open>old\<close>.\<close>

definition all_old :: "'e option list \<Rightarrow> nat \<Rightarrow> 'e option \<Rightarrow> nat \<Rightarrow> bool" where
  "all_old es i old j \<longleftrightarrow> (\<forall>k. anc i k \<and> anc k j \<longrightarrow> es ! k = old)"

lemma all_old_cong: "(\<And>k. anc i k \<Longrightarrow> es ! k = es' ! k) \<Longrightarrow> all_old es i old j = all_old es' i old j"
  by (auto simp: all_old_def)

lemma all_old_root: "0 < i \<Longrightarrow> anc i j \<Longrightarrow> all_old es i old j \<Longrightarrow> es ! i = old"
  by (simp add: all_old_def)

lemma anc_antisym: "anc i k \<Longrightarrow> anc k i \<Longrightarrow> k = i"
  using anc_pos [of i k] anc_pos [of k i] by simp

lemma all_old_self: "es ! i = old \<Longrightarrow> all_old es i old i"
  by (auto simp: all_old_def dest: anc_antisym)

lemma all_old_step:
  assumes "0 < i" "anc c j" "c = 2 * i \<or> c = 2 * i + 1"
  shows "all_old es i old j \<longleftrightarrow> es ! i = old \<and> all_old es c old j"
proof -
  have c: "anc i c" using assms(1,3) anc_children [of i c] by auto
  have "(anc i k \<and> anc k j) \<longleftrightarrow> (k = i \<or> anc c k \<and> anc k j)" for k
  proof
    assume k: "anc i k \<and> anc k j"
    then have "k = i \<or> anc (2 * i) k \<or> anc (2 * i + 1) k" using anc_children [OF assms(1)] by blast
    moreover have "anc c' k \<Longrightarrow> c' = 2 * i \<or> c' = 2 * i + 1 \<Longrightarrow> c' = c" for c'
      using anc_trans [of c' k j] k assms(2,3) anc_siblings_disjoint [of i j] by auto
    ultimately show "k = i \<or> anc c k \<and> anc k j" using k by blast
  next
    assume "k = i \<or> anc c k \<and> anc k j"
    then show "anc i k \<and> anc k j" using assms(1,2) c anc_trans by auto
  qed
  then show ?thesis unfolding all_old_def by auto
qed

lemma length_allot [simp]: "length (allot es idx old new) = length es"
proof (induction es idx old new rule: allot.induct)
  case (1 es idx old new)
  then show ?case by (subst allot.simps) (simp add: Let_def)
qed

lemma allot_leaf: "256 \<le> i \<Longrightarrow> j \<le> 511 \<Longrightarrow> anc i j \<Longrightarrow> j = i"
  by (subst (asm) anc_step) (auto dest: anc_pos)

lemma allot_nth:
  assumes "length es = 512" "0 < idx" "idx \<le> 511" "j \<le> 511"
  shows "allot es idx old new ! j = (if anc idx j \<and> all_old es idx old j then new else es ! j)"
  using assms
proof (induction es idx old new arbitrary: j rule: allot.induct)
  case (1 es idx old new)
  show ?case
  proof (cases "es ! idx = old")
    case False
    then show ?thesis using 1(4) by (subst allot.simps) (auto dest: all_old_root)
  next
    case old: True
    let ?e1 = "es[idx := new]"
    show ?thesis
    proof (cases "256 \<le> idx")
      case True
      have "anc idx j \<Longrightarrow> j = idx" using allot_leaf [OF True 1(6)] .
      moreover have "all_old es idx old idx" using old by (rule all_old_self)
      moreover have "allot es idx old new = ?e1" using True old 1(4) by (subst allot.simps) simp
      ultimately show ?thesis using 1(3-5) by (cases "j = idx") auto
    next
      case False
      let ?e2 = "allot ?e1 (2 * idx) old new"
      have a: "allot es idx old new = allot ?e2 (2 * idx + 1) old new"
        using old False 1(4) by (subst allot.simps) (simp add: Let_def push_bit_eq_mult mult.commute)
      have e2: "?e2 ! k = (if anc (2 * idx) k \<and> all_old ?e1 (2 * idx) old k then new else ?e1 ! k)" if "k \<le> 511" for k
        using 1(1) [of ?e1 "2 * idx"] old False 1(3-5) that by (simp add: push_bit_eq_mult mult.commute)
      have e3: "allot es idx old new ! j =
          (if anc (2 * idx + 1) j \<and> all_old ?e2 (2 * idx + 1) old j then new else ?e2 ! j)"
        unfolding a using 1(2) [of ?e1 "2 * idx" ?e2 "2 * idx + 1"] old False 1(3-6) by (simp add: push_bit_eq_mult mult.commute)
      have idx1: "?e1 ! k = es ! k" if "anc (2 * idx) k \<or> anc (2 * idx + 1) k" for k
        using that 1(4) by (auto dest!: anc_pos simp: nth_list_update)
      have l: "all_old ?e1 (2 * idx) old j = all_old es (2 * idx) old j"
        by (rule all_old_cong) (simp add: idx1)
      have r: "all_old ?e2 (2 * idx + 1) old j = all_old es (2 * idx + 1) old j" if "j \<le> 511"
        unfolding all_old_def
      proof (intro all_cong1 imp_cong refl)
        fix k assume k: "anc (2 * idx + 1) k \<and> anc k j"
        then have "k \<le> 511" "\<not> anc (2 * idx) k" using that anc_pos [of k j] anc_siblings_disjoint [of idx k] by auto
        then show "(?e2 ! k = old) = (es ! k = old)" using k by (simp add: e2 idx1)
      qed
      consider (self) "j = idx" | (left) "anc (2 * idx) j" | (right) "anc (2 * idx + 1) j"
        | (out) "\<not> anc idx j" using anc_children [OF 1(4), of j] by blast
      then show ?thesis
      proof cases
        case self
        have "\<not> anc (2 * idx) idx" "\<not> anc (2 * idx + 1) idx" using 1(4) by (auto dest: anc_pos)
        moreover have "all_old es idx old idx" using old by (rule all_old_self)
        ultimately show ?thesis using self e2 [of idx] e3 1(3-5) by simp
      next
        case left
        then have "\<not> anc (2 * idx + 1) j" "anc idx j" using anc_siblings_disjoint anc_children [OF 1(4), of j] by auto
        then show ?thesis using left e2 [OF 1(6)] e3 l idx1 all_old_step [OF 1(4) left, of es old] old by simp
      next
        case right
        then have "\<not> anc (2 * idx) j" "anc idx j" using anc_siblings_disjoint anc_children [OF 1(4), of j] by auto
        then show ?thesis using right e2 [OF 1(6)] e3 r [OF 1(6)] idx1 all_old_step [OF 1(4) right, of es old] old by simp
      next
        case out
        then have "\<not> anc (2 * idx) j" "\<not> anc (2 * idx + 1) j" "j \<noteq> idx"
          using anc_children [OF 1(4), of j] by auto
        then show ?thesis using out e2 [OF 1(6)] e3 by simp
      qed
    qed
  qed
qed

subsection \<open>The routes of an entry array\<close>

definition node :: "nat \<Rightarrow> bool" where
  "node i \<longleftrightarrow> 0 < i \<and> i \<le> 511"

definition routes :: "'e option list \<Rightarrow> nat \<Rightarrow> 'e option" where
  "routes es i = (if node i \<and> hasPrefixRootedAt es i then es ! i else None)"

definition entries_wf :: "'e option list \<Rightarrow> bool" where
  "entries_wf es \<longleftrightarrow> length es = 512 \<and>
     (\<forall>k. 2 \<le> k \<and> k \<le> 511 \<and> es ! k = None \<longrightarrow> es ! (k div 2) = None) \<and>
     (\<forall>i j. node i \<and> node j \<and> hasPrefixRootedAt es i \<and> hasPrefixRootedAt es j \<and> es ! i = es ! j \<longrightarrow> i = j)"

text \<open>Longest match: the route of the node itself, else of its nearest ancestor that has one.\<close>

function longest :: "(nat \<Rightarrow> 'e option) \<Rightarrow> nat \<Rightarrow> 'e option" where
  "longest r i = (if i = 0 then None else case r i of Some v \<Rightarrow> Some v | None \<Rightarrow> longest r (i div 2))"
  by pat_completeness auto
termination by (relation "measure snd") auto

declare longest.simps [simp del]

lemma parentIndex_div [simp]: "parentIndex i = i div 2"
  by (simp add: parentIndex_def drop_bit_eq_div)

lemma hasPrefixRootedAt_iff:
  "hasPrefixRootedAt es i \<longleftrightarrow> es ! i \<noteq> None \<and> (i div 2 = 0 \<or> es ! i \<noteq> es ! (i div 2))"
  by (auto simp: hasPrefixRootedAt_def Let_def)

lemma routes_None: "node i \<Longrightarrow> routes es i = None \<longleftrightarrow> \<not> hasPrefixRootedAt es i"
  by (auto simp: routes_def hasPrefixRootedAt_iff)

lemma entries_longest:
  assumes "entries_wf es" "node i"
  shows "es ! i = longest (routes es) i"
  using assms(2)
proof (induction i rule: less_induct)
  case (less i)
  show ?case
  proof (cases "hasPrefixRootedAt es i")
    case True
    then have "routes es i = es ! i" using less.prems by (simp add: routes_def)
    then show ?thesis using True less.prems
      by (subst longest.simps) (auto simp: node_def hasPrefixRootedAt_iff split: option.split)
  next
    case False
    then have r: "routes es i = None" using less.prems routes_None by blast
    show ?thesis
    proof (cases "i = 1")
      case True
      then have "es ! i = None" using False by (simp add: hasPrefixRootedAt_iff)
      moreover have "longest (routes es) i = None"
        using r True by (simp add: longest.simps [of _ "Suc 0"] longest.simps [of _ 0])
      ultimately show ?thesis by simp
    next
      case i: False
      then have i2: "node (i div 2)" "i div 2 < i" "2 \<le> i" using less.prems by (auto simp: node_def)
      have "es ! i = es ! (i div 2)"
      proof (cases "es ! i")
        case None
        have "i \<le> 511" using less.prems by (simp add: node_def)
        then have "es ! (i div 2) = None" using None i2(3) assms(1) unfolding entries_wf_def by blast
        with None show ?thesis by simp
      next
        case (Some v)
        have "i div 2 \<noteq> 0" using i2(1) by (simp add: node_def)
        then show ?thesis using False Some by (simp add: hasPrefixRootedAt_iff)
      qed
      then show ?thesis using less.IH [OF i2(2,1)] r less.prems by (subst longest.simps) (simp add: node_def)
    qed
  qed
qed

lemma all_old_parent:
  assumes "anc i (k div 2)" "all_old es i old k"
  shows "all_old es i old (k div 2)"
proof -
  have "anc j (k div 2) \<Longrightarrow> anc j k" for j using anc_step [of j k] anc_pos [of j "k div 2"] by blast
  then show ?thesis using assms(2) by (auto simp: all_old_def)
qed

lemma all_old_child:
  assumes "all_old es i old (k div 2)" "es ! k = old"
  shows "all_old es i old k"
  unfolding all_old_def
proof (intro allI impI)
  fix j assume j: "anc i j \<and> anc j k"
  then have "j = k \<or> anc j (k div 2)" using anc_step [of j k] by auto
  then show "es ! j = old" using assms j by (auto simp: all_old_def)
qed

text \<open>The nodes an allotment at \<open>idx\<close> changes.\<close>

definition allotted :: "'e option list \<Rightarrow> nat \<Rightarrow> nat \<Rightarrow> bool" where
  "allotted es idx j \<longleftrightarrow> anc idx j \<and> all_old es idx (es ! idx) j"

lemma allotted_self: "node idx \<Longrightarrow> allotted es idx idx"
  by (simp add: allotted_def all_old_self node_def)

lemma allotted_val: "allotted es idx j \<Longrightarrow> es ! j = es ! idx"
proof -
  assume "allotted es idx j"
  then have a: "anc idx j" "all_old es idx (es ! idx) j" by (simp_all add: allotted_def)
  have "anc j j" using anc_pos [OF a(1)] by simp
  with a show ?thesis unfolding all_old_def by blast
qed

lemma allotted_up:
  assumes "allotted es idx k" "k \<noteq> idx"
  shows "allotted es idx (k div 2)" "2 \<le> k"
proof -
  have p: "anc idx (k div 2)" using assms anc_step [of idx k] by (auto simp: allotted_def)
  then show "allotted es idx (k div 2)" using assms all_old_parent by (auto simp: allotted_def)
  show "2 \<le> k" using anc_pos [OF p] by linarith
qed

lemma allotted_down:
  assumes "allotted es idx (k div 2)" "es ! k = es ! idx"
  shows "allotted es idx k"
  using assms all_old_child [of es idx "es ! idx" k] anc_step [of idx k] anc_pos [of idx "k div 2"]
  by (auto simp: allotted_def)

lemma allotted_anc: "allotted es idx (k div 2) \<Longrightarrow> anc idx k \<and> 2 \<le> k"
  using anc_step [of idx k] anc_pos [of idx "k div 2"] by (auto simp: allotted_def)

lemma allot_eq:
  assumes "length es = 512" "node idx" "j \<le> 511"
  shows "allot es idx (es ! idx) new ! j = (if allotted es idx j then new else es ! j)"
  using allot_nth [of es idx j "es ! idx" new] assms by (simp add: node_def allotted_def)

text \<open>
  The effect of an allotment on the routes: nothing but the allotted node changes, provided the new
  pointer is not one of a route below it.
\<close>

lemma allot_routes:
  assumes wf: "entries_wf es" and idx: "node idx"
    and new: "\<And>k. node k \<Longrightarrow> k \<noteq> idx \<Longrightarrow> anc idx k \<Longrightarrow> hasPrefixRootedAt es k \<Longrightarrow> es ! k \<noteq> new"
    and k: "node k" "k \<noteq> idx"
  shows "hasPrefixRootedAt (allot es idx (es ! idx) new) k = hasPrefixRootedAt es k \<and>
    (hasPrefixRootedAt es k \<longrightarrow> allot es idx (es ! idx) new ! k = es ! k)"
proof -
  have len: "length es = 512" using wf by (simp add: entries_wf_def)
  have kk: "k \<le> 511" "k div 2 \<le> 511" using k(1) by (auto simp: node_def)
  note e = allot_eq [OF len idx kk(1), of new] allot_eq [OF len idx kk(2), of new]
  show ?thesis
  proof (cases "allotted es idx k")
    case True
    note u = allotted_up [OF True k(2)]
    have "es ! k = es ! (k div 2)" using allotted_val [OF True] allotted_val [OF u(1)] by simp
    moreover have "k div 2 \<noteq> 0" using u(2) by simp
    ultimately show ?thesis using True u(1) e by (simp add: hasPrefixRootedAt_iff)
  next
    case False
    show ?thesis
    proof (cases "allotted es idx (k div 2)")
      case True
      note a = allotted_anc [OF True]
      have d: "es ! k \<noteq> es ! (k div 2)" using allotted_down [OF True] allotted_val [OF True] False by metis
      then have nn: "es ! k \<noteq> None" using wf a kk by (auto simp: entries_wf_def)
      then have h: "hasPrefixRootedAt es k" using d by (simp add: hasPrefixRootedAt_iff)
      have "es ! k \<noteq> new" by (rule new [OF k _ h]) (use a in simp)
      then show ?thesis using True False e nn h by (simp add: hasPrefixRootedAt_iff)
    next
      case False2: False
      then show ?thesis using False e by (simp add: hasPrefixRootedAt_iff)
    qed
  qed
qed

lemma allot_none_closed:
  assumes wf: "entries_wf es" and idx: "node idx"
    and none: "new = None \<Longrightarrow> 2 \<le> idx \<Longrightarrow> es ! (idx div 2) = None"
    and k: "2 \<le> k" "k \<le> 511" "allot es idx (es ! idx) new ! k = None"
  shows "allot es idx (es ! idx) new ! (k div 2) = None"
proof -
  have len: "length es = 512" using wf by (simp add: entries_wf_def)
  have k2: "k div 2 \<le> 511" using k(2) by simp
  note e = allot_eq [OF len idx k(2), of new] allot_eq [OF len idx k2, of new]
  show ?thesis
  proof (cases "allotted es idx k")
    case True
    show ?thesis
    proof (cases "k = idx")
      case True2: True
      have "\<not> anc idx (idx div 2)" using idx by (auto simp: node_def dest: anc_pos)
      then have "\<not> allotted es idx (k div 2)" using True2 by (simp add: allotted_def)
      moreover have "new = None" using True e(1) k(3) by simp
      ultimately show ?thesis using True2 none k(1) e(2) by simp
    next
      case False
      then show ?thesis using True allotted_up [OF True False] e k(3) by simp
    qed
  next
    case False
    then have n: "es ! k = None" using e(1) k(3) by simp
    then have n2: "es ! (k div 2) = None" using wf k by (auto simp: entries_wf_def)
    have "\<not> allotted es idx (k div 2)"
      using allotted_down [of es idx k] allotted_val [of es idx "k div 2"] n n2 False by metis
    then show ?thesis using e(2) n2 by simp
  qed
qed

lemma allot_wf:
  assumes wf: "entries_wf es" and idx: "node idx"
    and new: "\<And>k. node k \<Longrightarrow> k \<noteq> idx \<Longrightarrow> anc idx k \<Longrightarrow> hasPrefixRootedAt es k \<Longrightarrow> es ! k \<noteq> new"
    and root: "hasPrefixRootedAt (allot es idx (es ! idx) new) idx \<Longrightarrow> new \<notin> set es"
    and none: "new = None \<Longrightarrow> 2 \<le> idx \<Longrightarrow> es ! (idx div 2) = None"
  shows "entries_wf (allot es idx (es ! idx) new)"
proof -
  let ?e = "allot es idx (es ! idx) new"
  have len: "length es = 512" using wf by (simp add: entries_wf_def)
  have old: "hasPrefixRootedAt es k \<and> ?e ! k = es ! k" if "node k" "k \<noteq> idx" "hasPrefixRootedAt ?e k" for k
    using allot_routes [OF wf idx new that(1,2)] that(3) by blast
  have at_idx: "?e ! idx = new"
    using allot_eq [OF len idx, of idx new] allotted_self [OF idx, of es] idx by (simp add: node_def)
  have sep: "es ! k \<noteq> new" if "node k" "hasPrefixRootedAt ?e idx" for k
    using root [OF that(2)] that(1) len nth_mem [of k es] by (auto simp: node_def)
  have inj: "i = j" if ij: "node i" "node j" "hasPrefixRootedAt ?e i" "hasPrefixRootedAt ?e j" "?e ! i = ?e ! j" for i j
  proof (cases "i = idx")
    case True
    then show ?thesis using old [of j] sep [of j] ij at_idx by (cases "j = idx") auto
  next
    case i: False
    show ?thesis
    proof (cases "j = idx")
      case True
      then show ?thesis using old [of i] sep [of i] ij at_idx i by auto
    next
      case False
      have "es ! i = es ! j" using old [of i] old [of j] ij i False by simp
      then show ?thesis using old [of i] old [of j] ij i False wf unfolding entries_wf_def by blast
    qed
  qed
  show ?thesis unfolding entries_wf_def
    using len inj allot_none_closed [OF wf idx none] by auto
qed

subsection \<open>Insertion, deletion and lookup\<close>

lemma routes_eqI:
  assumes "\<And>k. node k \<Longrightarrow> k \<noteq> idx \<Longrightarrow> hasPrefixRootedAt e' k = hasPrefixRootedAt es k \<and>
      (hasPrefixRootedAt es k \<longrightarrow> e' ! k = es ! k)"
    and "routes e' idx = v" "node idx"
  shows "routes e' = (routes es)(idx := v)"
proof
  fix k
  show "routes e' k = ((routes es)(idx := v)) k"
    using assms(1) [of k] assms(2) by (cases "k = idx") (auto simp: routes_def)
qed

lemma node_half: "node i \<Longrightarrow> i div 2 \<le> 511"
  by (auto simp: node_def)

lemma allot_parent:
  assumes "length es = 512" "node idx"
  shows "allot es idx (es ! idx) new ! (idx div 2) = es ! (idx div 2)"
proof -
  have "\<not> allotted es idx (idx div 2)" using assms(2) by (auto simp: allotted_def node_def dest: anc_pos)
  then show ?thesis using allot_eq [OF assms node_half [OF assms(2)], of new] by simp
qed

lemma insert_routes:
  assumes wf: "entries_wf es" and idx: "node idx" and fresh: "Some p \<notin> set es"
  shows "entries_wf (allot es idx (es ! idx) (Some p))"
    and "routes (allot es idx (es ! idx) (Some p)) = (routes es)(idx \<mapsto> p)"
proof -
  let ?e = "allot es idx (es ! idx) (Some p)"
  have len: "length es = 512" using wf by (simp add: entries_wf_def)
  have new: "es ! k \<noteq> Some p" if "node k" for k
  proof -
    have "k < length es" using that len by (simp add: node_def)
    then have "es ! k \<in> set es" by (rule nth_mem)
    then show ?thesis using fresh by auto
  qed
  show "entries_wf ?e" by (rule allot_wf [OF wf idx]) (use new fresh in auto)
  have at_idx: "?e ! idx = Some p"
    using allot_eq [OF len idx, of idx "Some p"] allotted_self [OF idx, of es] idx by (simp add: node_def)
  have "?e ! (idx div 2) = es ! (idx div 2)" by (rule allot_parent [OF len idx])
  then have "routes ?e idx = Some p"
    using at_idx new [of "idx div 2"] node_half [OF idx] idx
    by (auto simp: routes_def hasPrefixRootedAt_iff node_def)
  then show "routes ?e = (routes es)(idx \<mapsto> p)"
    using allot_routes [OF wf idx, of "Some p"] new idx by (intro routes_eqI) blast+
qed

lemma root_ptr_unique:
  assumes wf: "entries_wf es" "node i" "node k" "hasPrefixRootedAt es k" "es ! i = es ! k"
  shows "anc k i"
  using assms(2,5)
proof (induction i rule: less_induct)
  case (less i)
  show ?case
  proof (cases "hasPrefixRootedAt es i")
    case True
    then have "i = k" using wf(1,3,4) less.prems unfolding entries_wf_def by blast
    then show ?thesis using less.prems by (simp add: node_def)
  next
    case False
    have "es ! k \<noteq> None" using wf(4) by (simp add: hasPrefixRootedAt_iff)
    then have "i div 2 \<noteq> 0" "es ! (i div 2) = es ! k" using False less.prems by (auto simp: hasPrefixRootedAt_iff)
    moreover have "node (i div 2)" using less.prems(1) node_half [OF less.prems(1)] calculation(1) by (simp add: node_def)
    ultimately have "anc k (i div 2)" using less.IH [of "i div 2"] less.prems by (simp add: node_def)
    then show ?thesis using anc_step [of k i] anc_pos [of k "i div 2"] by blast
  qed
qed

lemma delete_routes:
  assumes wf: "entries_wf es" and idx: "node idx" and root: "hasPrefixRootedAt es idx"
    and pv: "pv = (if idx div 2 \<noteq> 0 then es ! (idx div 2) else None)"
  shows "entries_wf (allot es idx (es ! idx) pv)"
    and "routes (allot es idx (es ! idx) pv) = (routes es)(idx := None)"
proof -
  let ?e = "allot es idx (es ! idx) pv"
  have len: "length es = 512" using wf by (simp add: entries_wf_def)
  have new: "es ! k \<noteq> pv" if k: "node k" "k \<noteq> idx" "anc idx k" "hasPrefixRootedAt es k" for k
  proof
    assume e: "es ! k = pv"
    have "es ! k \<noteq> None" using k(4) by (simp add: hasPrefixRootedAt_iff)
    then have d: "idx div 2 \<noteq> 0" "es ! (idx div 2) = es ! k" using e pv by (auto split: if_splits)
    then have "node (idx div 2)" using idx by (auto simp: node_def)
    from root_ptr_unique [OF wf this k(1,4) d(2)] have "anc k (idx div 2)" .
    then have "k \<le> idx div 2" using anc_pos by blast
    moreover have "idx \<le> k" using anc_pos [OF k(3)] by blast
    ultimately show False using idx by (auto simp: node_def)
  qed
  have at_idx: "?e ! idx = pv"
    using allot_eq [OF len idx, of idx pv] allotted_self [OF idx, of es] idx by (simp add: node_def)
  have "?e ! (idx div 2) = es ! (idx div 2)" by (rule allot_parent [OF len idx])
  then have nr: "\<not> hasPrefixRootedAt ?e idx"
    using at_idx pv by (auto simp: hasPrefixRootedAt_iff split: if_splits)
  show "entries_wf ?e"
    by (rule allot_wf [OF wf idx new]) (use nr pv in \<open>auto split: if_splits\<close>)
  show "routes ?e = (routes es)(idx := None)"
    using allot_routes [OF wf idx new] nr idx by (intro routes_eqI) (auto simp: routes_None)
qed

subsection \<open>What a routing table promises\<close>

text \<open>
  The interface of a routing table: routes are stored under keys (prefixes; keys with the same
  \<open>norm\<close> are the same prefix), a lookup returns the value of the first candidate of the address,
  most specific first, that has a route. \<open>fresh t p\<close>: the allocation \<open>p\<close> is not yet used in \<open>t\<close>.
\<close>

definition first_some :: "'e option list \<Rightarrow> 'e option" where
  "first_some xs = (case dropWhile (\<lambda>x. x = None) xs of [] \<Rightarrow> None | x # _ \<Rightarrow> x)"

lemma first_some_simps [simp]: "first_some [] = None"
  "first_some (x # xs) = (case x of None \<Rightarrow> first_some xs | Some v \<Rightarrow> Some v)"
  by (auto simp: first_some_def split: option.split)

lemma first_some_None: "first_some xs = None \<longleftrightarrow> (\<forall>x\<in>set xs. x = None)"
  by (induction xs) (auto split: option.split)

locale route_table =
  fixes ins :: "'t \<Rightarrow> 'k \<Rightarrow> nat \<Rightarrow> 'v \<Rightarrow> 't option"
    and del :: "'t \<Rightarrow> 'k \<Rightarrow> (bool \<times> 't) option"
    and look :: "'t \<Rightarrow> 'a \<Rightarrow> 'v option"
    and abs :: "'t \<Rightarrow> 'k \<Rightarrow> 'v option"
    and inv :: "'t \<Rightarrow> bool"
    and fresh :: "'t \<Rightarrow> nat \<Rightarrow> bool"
    and valid :: "'k \<Rightarrow> bool"
    and norm :: "'k \<Rightarrow> 'i"
    and cands :: "'a \<Rightarrow> 'k list"
  assumes ins_law: "inv t \<Longrightarrow> valid k \<Longrightarrow> fresh t p \<Longrightarrow>
      \<exists>t'. ins t k p v = Some t' \<and> inv t' \<and>
        (\<forall>k'. valid k' \<longrightarrow> abs t' k' = (if norm k' = norm k then Some v else abs t k'))"
    and del_law: "inv t \<Longrightarrow> valid k \<Longrightarrow>
      \<exists>t'. del t k = Some (abs t k \<noteq> None, t') \<and> inv t' \<and>
        (\<forall>k'. valid k' \<longrightarrow> abs t' k' = (if norm k' = norm k then None else abs t k'))"
    and look_law: "inv t \<Longrightarrow> look t a = first_some (map (abs t) (cands a))"
    and cands_valid: "k \<in> set (cands a) \<Longrightarrow> valid k"
    and abs_norm: "valid k \<Longrightarrow> valid k' \<Longrightarrow> norm k = norm k' \<Longrightarrow> abs t k = abs t k'"
begin

lemma look_cong: "inv t \<Longrightarrow> inv t' \<Longrightarrow> (\<And>k. valid k \<Longrightarrow> abs t k = abs t' k) \<Longrightarrow> look t a = look t' a"
  using cands_valid [of _ a] by (simp add: look_law cong: map_cong)

text \<open>A host route wins over everything else; a miss means that no candidate has a route.\<close>

lemma look_host:
  assumes "inv t" "cands a = k # ks" "fresh t p" "ins t k p v = Some t'"
  shows "look t' a = Some v"
proof -
  have "valid k" using cands_valid [of k a] assms(2) by simp
  then have "inv t'" "abs t' k = Some v" using ins_law [OF assms(1) _ assms(3), of k v] assms(4) by auto
  then show ?thesis using look_law assms(2) by simp
qed

lemma look_miss: "inv t \<Longrightarrow> look t a = None \<longleftrightarrow> (\<forall>k\<in>set (cands a). abs t k = None)"
  by (auto simp: look_law first_some_None)

text \<open>Deleting a route just inserted restores every lookup.\<close>

lemma look_insert_delete:
  assumes "inv t" "valid k" "fresh t p" "abs t k = None" "ins t k p v = Some t1" "del t1 k = Some (b, t2)"
  shows "b \<and> inv t2 \<and> look t2 a = look t a"
proof -
  have 1: "inv t1" "\<And>k'. valid k' \<Longrightarrow> abs t1 k' = (if norm k' = norm k then Some v else abs t k')"
    using ins_law [OF assms(1-3), of v] assms(5) by auto
  have 2: "b = (abs t1 k \<noteq> None)" "inv t2"
      "\<And>k'. valid k' \<Longrightarrow> abs t2 k' = (if norm k' = norm k then None else abs t1 k')"
    using del_law [OF 1(1) assms(2)] assms(6) by auto
  have "abs t2 k' = abs t k'" if "valid k'" for k'
    using 1(2) [OF that] 2(3) [OF that] abs_norm [OF that assms(2), of t] assms(4) by auto
  then show ?thesis using 2(1,2) 1(2) [OF assms(2)] look_cong [OF 2(2) assms(1)] by simp
qed

text \<open>The order in which two different prefixes are inserted does not matter to a lookup.\<close>

lemma look_insert_commute:
  assumes "inv t" "valid k" "valid l" "norm k \<noteq> norm l" "fresh t p" "fresh t q"
    and "ins t k p v = Some t1" "fresh t1 q" "ins t1 l q w = Some t2"
    and "ins t l q w = Some t3" "fresh t3 p" "ins t3 k p v = Some t4"
  shows "look t2 a = look t4 a"
proof -
  have 1: "inv t1" "\<And>k'. valid k' \<Longrightarrow> abs t1 k' = (if norm k' = norm k then Some v else abs t k')"
    using ins_law [OF assms(1,2,5), of v] assms(7) by auto
  have 2: "inv t2" "\<And>k'. valid k' \<Longrightarrow> abs t2 k' = (if norm k' = norm l then Some w else abs t1 k')"
    using ins_law [OF 1(1) assms(3,8), of w] assms(9) by auto
  have 3: "inv t3" "\<And>k'. valid k' \<Longrightarrow> abs t3 k' = (if norm k' = norm l then Some w else abs t k')"
    using ins_law [OF assms(1,3,6), of w] assms(10) by auto
  have 4: "inv t4" "\<And>k'. valid k' \<Longrightarrow> abs t4 k' = (if norm k' = norm k then Some v else abs t3 k')"
    using ins_law [OF 3(1) assms(2,11), of v] assms(12) by auto
  have "abs t2 k' = abs t4 k'" if "valid k'" for k'
    using 1(2) 2(2) 3(2) 4(2) that assms(4) by auto
  then show ?thesis by (rule look_cong [OF 2(1) 4(1)])
qed

end

subsection \<open>The stride table keeps the promise\<close>

definition idx_of :: "byte \<times> int \<Rightarrow> nat" where
  "idx_of k = (256 + unat (fst k)) div 2 ^ nat (8 - snd k)"

definition key_ok :: "byte \<times> int \<Rightarrow> bool" where
  "key_ok k \<longleftrightarrow> 0 \<le> snd k \<and> snd k \<le> 8"

lemma prefixIndex_eq:
  assumes "key_ok k"
  shows "prefixIndex (fst k) (snd k) = Some (idx_of k)" "node (idx_of k)"
proof -
  obtain n where n1: "snd k = int n" using assms zero_le_imp_eq_int [of "snd k"] by (auto simp: key_ok_def)
  then have n: "snd k = int n" "n \<le> 8" using assms by (simp_all add: key_ok_def)
  have e: "(2 :: nat) ^ 8 = 2 ^ n * 2 ^ (8 - n)" using n by (simp flip: power_add)
  have "(2 ^ n * 2 ^ (8 - n) + unat (fst k)) div 2 ^ (8 - n) = 2 ^ n + unat (fst k) div 2 ^ (8 - n)"
    by (rule div_mult_self3) simp
  then have c: "(256 + unat (fst k)) div 2 ^ (8 - n) = 2 ^ n + unat (fst k) div 2 ^ (8 - n)"
    unfolding e [symmetric] by simp
  have nat: "nat (8 - snd k) = 8 - n" using n by simp
  with c show "prefixIndex (fst k) (snd k) = Some (idx_of k)"
    using assms n by (simp add: prefixIndex_def idx_of_def key_ok_def drop_bit_eq_div push_bit_eq_mult)
  have u: "unat (fst k) < 256" using unsigned_less [of "fst k"] by simp
  have "idx_of k = 2 ^ n + unat (fst k) div 2 ^ (8 - n)"
    unfolding idx_of_def nat by (rule c)
  then have "0 < idx_of k" by simp
  moreover have "idx_of k \<le> 256 + unat (fst k)" unfolding idx_of_def by simp
  ultimately show "node (idx_of k)" using u by (simp add: node_def)
qed

definition route_set :: "'e option list \<Rightarrow> nat set" where
  "route_set es = {i. routes es i \<noteq> None}"

lemma route_set_finite: "finite (route_set es)" "card (route_set es) \<le> 511"
proof -
  have sub: "route_set es \<subseteq> {1..511}" by (auto simp: route_set_def routes_def node_def split: if_splits)
  then show "finite (route_set es)" using finite_subset by blast
  show "card (route_set es) \<le> 511" using card_mono [OF _ sub] by simp
qed

text \<open>The invariant: the array is well-formed and \<open>routeRefs\<close> counts its routes.\<close>

definition stride_wf :: "'v stride \<Rightarrow> bool" where
  "stride_wf t \<longleftrightarrow> entries_wf (st_entries t) \<and> length (st_children t) = 256 \<and>
     unat (st_routeRefs t) = card (route_set (st_entries t))"

definition stride_fresh :: "'v stride \<Rightarrow> nat \<Rightarrow> bool" where
  "stride_fresh t p \<longleftrightarrow> (\<forall>v. Some (p, v) \<notin> set (st_entries t))"

definition stride_abs :: "'v stride \<Rightarrow> byte \<times> int \<Rightarrow> 'v option" where
  "stride_abs t k = map_option snd (routes (st_entries t) (idx_of k))"

text \<open>The prefixes that contain a host, most specific first.\<close>

definition host_cands :: "byte \<Rightarrow> (byte \<times> int) list" where
  "host_cands a = map (\<lambda>n. (a, 8 - int n)) [0..<9]"

lemma newStride_wf: "stride_wf (newStride p :: 'v stride)"
proof -
  let ?e = "replicate 512 None :: 'v ptr option list"
  have "routes ?e = (\<lambda>_. None)" by (rule ext) (simp add: routes_def hasPrefixRootedAt_iff node_def)
  moreover have "entries_wf ?e"
    unfolding entries_wf_def by (auto simp: hasPrefixRootedAt_iff node_def)
  ultimately show ?thesis by (simp add: stride_wf_def newStride_def route_set_def)
qed

lemma u16_inc: "unat r \<le> 511 \<Longrightarrow> unat (r + 1 :: u16) = unat r + 1"
  by (simp add: unat_word_ariths)

lemma u16_dec: "0 < unat r \<Longrightarrow> unat (r - 1 :: u16) = unat r - 1"
proof -
  assume "0 < unat r"
  then have "1 \<le> r" by (simp add: word_le_nat_alt)
  then show ?thesis by (simp add: unat_sub)
qed

lemma stride_insert_law:
  assumes "stride_wf t" "key_ok k" "stride_fresh t p"
  shows "\<exists>t'. stride_insert t (fst k) (snd k) p v = Some t' \<and> stride_wf t' \<and>
    st_prefix t' = st_prefix t \<and> st_children t' = st_children t \<and> st_childRefs t' = st_childRefs t \<and>
    routes (st_entries t') = (routes (st_entries t))(idx_of k \<mapsto> (p, v))"
proof -
  let ?es = "st_entries t" and ?i = "idx_of k"
  have wf: "entries_wf ?es" using assms(1) by (simp add: stride_wf_def)
  note i = prefixIndex_eq [OF assms(2)]
  note r = insert_routes [OF wf i(2), of "(p, v)"]
  have f: "Some (p, v) \<notin> set ?es" using assms(3) by (simp add: stride_fresh_def)
  let ?e = "allot ?es ?i (?es ! ?i) (Some (p, v))"
  have rs: "route_set ?e = insert ?i (route_set ?es)" using r(2) [OF f] by (auto simp: route_set_def)
  have "hasPrefixRootedAt ?es ?i \<longleftrightarrow> ?i \<in> route_set ?es"
    using routes_None [OF i(2), of ?es] by (simp only: route_set_def mem_Collect_eq not_not)
  then have "unat (if \<not> hasPrefixRootedAt ?es ?i then st_routeRefs t + 1 else st_routeRefs t) = card (route_set ?e)"
    using assms(1) route_set_finite [of ?es] rs u16_inc [of "st_routeRefs t"] by (auto simp: stride_wf_def insert_absorb)
  then show ?thesis using assms(1) i(1) r f by (simp add: stride_insert_def stride_wf_def Let_def)
qed

lemma stride_delete_law:
  assumes "stride_wf t" "key_ok k"
  shows "\<exists>t'. stride_delete t (fst k) (snd k) = Some (routes (st_entries t) (idx_of k) \<noteq> None, t') \<and> stride_wf t' \<and>
    st_prefix t' = st_prefix t \<and> st_children t' = st_children t \<and> st_childRefs t' = st_childRefs t \<and>
    routes (st_entries t') = (routes (st_entries t))(idx_of k := None)"
proof -
  let ?es = "st_entries t" and ?i = "idx_of k"
  have wf: "entries_wf ?es" using assms(1) by (simp add: stride_wf_def)
  note i = prefixIndex_eq [OF assms(2)]
  show ?thesis
  proof (cases "hasPrefixRootedAt ?es ?i")
    case False
    then have n: "routes ?es ?i = None" using i(2) routes_None by blast
    then have "(routes ?es)(?i := None) = routes ?es" by auto
    then show ?thesis using False i(1) n assms(1) by (auto simp: stride_delete_def)
  next
    case True
    then have n: "routes ?es ?i \<noteq> None" using i(2) routes_None by blast
    define pv where "pv = (if ?i div 2 \<noteq> 0 then ?es ! (?i div 2) else None)"
    note r = delete_routes [OF wf i(2) True pv_def]
    let ?e = "allot ?es ?i (?es ! ?i) pv"
    have rs: "route_set ?e = route_set ?es - {?i}" using r(2) by (auto simp: route_set_def)
    have "?i \<in> route_set ?es" using n by (simp add: route_set_def)
    then have c: "0 < card (route_set ?es)" using route_set_finite(1) card_gt_0_iff by blast
    then have "unat (st_routeRefs t - 1) = card (route_set ?e)"
      using assms(1) rs u16_dec [of "st_routeRefs t"] route_set_finite(1) [of ?es] \<open>?i \<in> route_set ?es\<close>
      by (simp add: stride_wf_def)
    moreover have "stride_delete t (fst k) (snd k) =
        Some (True, Stride (st_prefix t) ?e (st_children t) (st_routeRefs t - 1) (st_childRefs t))"
      using True i(1) by (simp add: stride_delete_def Let_def pv_def)
    ultimately show ?thesis using n assms(1) r by (simp add: stride_wf_def)
  qed
qed

lemma longest_unroll:
  "i div 2 ^ n = 0 \<Longrightarrow> (\<And>k. k < n \<Longrightarrow> i div 2 ^ k \<noteq> 0) \<Longrightarrow>
     longest r i = first_some (map (\<lambda>k. r (i div 2 ^ k)) [0..<n])"
proof (induction n arbitrary: i)
  case (Suc n)
  have i: "i \<noteq> 0" using Suc.prems(2) [of 0] by simp
  have "longest r (i div 2) = first_some (map (\<lambda>k. r (i div 2 div 2 ^ k)) [0..<n])"
  proof (rule Suc.IH)
    show "i div 2 div 2 ^ n = 0" using Suc.prems(1) by (simp flip: div_mult2_eq)
    show "i div 2 div 2 ^ k \<noteq> 0" if "k < n" for k
      using Suc.prems(2) [of "Suc k"] that by (simp flip: div_mult2_eq)
  qed
  also have "map (\<lambda>k. r (i div 2 div 2 ^ k)) [0..<n] = map (\<lambda>k. r (i div 2 ^ k)) (map Suc [0..<n])"
    by (simp flip: div_mult2_eq)
  finally have "longest r (i div 2) = first_some (map (\<lambda>k. r (i div 2 ^ k)) (map Suc [0..<n]))" .
  moreover have "[0..<Suc n] = 0 # map Suc [0..<n]" by (simp add: map_Suc_upt upt_conv_Cons)
  ultimately show ?case using i by (subst longest.simps) (simp split: option.split)
qed (simp add: longest.simps)

lemma host_longest: "longest r (256 + unat (a :: byte)) = first_some (map (\<lambda>k. r (idx_of k)) (host_cands a))"
proof -
  have u: "unat a < 256" using unsigned_less [of a] by simp
  have "longest r (256 + unat a) = first_some (map (\<lambda>k. r ((256 + unat a) div 2 ^ k)) [0..<9])"
  proof (rule longest_unroll)
    show "(256 + unat a) div 2 ^ 9 = 0" using u by simp
    fix k :: nat assume "k < 9"
    then have "(2 :: nat) ^ k \<le> 2 ^ 8" by (intro power_increasing) simp_all
    then show "(256 + unat a) div 2 ^ k \<noteq> 0" by (simp add: div_eq_0_iff)
  qed
  then show ?thesis by (simp add: host_cands_def idx_of_def comp_def)
qed

lemma first_some_map: "first_some (map (\<lambda>x. map_option f (g x)) xs) = map_option f (first_some (map g xs))"
  by (induction xs) (simp_all split: option.split)

lemma stride_get_law:
  assumes "stride_wf t"
  shows "stride_get t a = first_some (map (stride_abs t) (host_cands a))"
proof -
  let ?es = "st_entries t"
  have wf: "entries_wf ?es" using assms by (simp add: stride_wf_def)
  have u: "unat a < 256" using unsigned_less [of a] by simp
  then have n: "node (256 + unat a)" by (simp add: node_def)
  have "?es ! hostIndex a = longest (routes ?es) (256 + unat a)"
    using entries_longest [OF wf n] by (simp add: hostIndex_def push_bit_eq_mult add.commute)
  then show ?thesis by (simp add: stride_get_def host_longest stride_abs_def [abs_def] first_some_map)
qed

interpretation stride: route_table "\<lambda>t k p v. stride_insert t (fst k) (snd k) p v"
  "\<lambda>t k. stride_delete t (fst k) (snd k)" stride_get stride_abs stride_wf stride_fresh key_ok idx_of host_cands
proof
  fix t :: "'a stride" and k :: "byte \<times> int" and p v
  assume a: "stride_wf t" "key_ok k" "stride_fresh t p"
  show "\<exists>t'. stride_insert t (fst k) (snd k) p v = Some t' \<and> stride_wf t' \<and>
      (\<forall>k'. key_ok k' \<longrightarrow> stride_abs t' k' = (if idx_of k' = idx_of k then Some v else stride_abs t k'))"
    using stride_insert_law [OF a, of v] by (auto simp: stride_abs_def)
next
  fix t :: "'a stride" and k :: "byte \<times> int"
  assume a: "stride_wf t" "key_ok k"
  show "\<exists>t'. stride_delete t (fst k) (snd k) = Some (stride_abs t k \<noteq> None, t') \<and> stride_wf t' \<and>
      (\<forall>k'. key_ok k' \<longrightarrow> stride_abs t' k' = (if idx_of k' = idx_of k then None else stride_abs t k'))"
    using stride_delete_law [OF a] by (auto simp: stride_abs_def)
qed (auto simp: stride_get_law host_cands_def key_ok_def stride_abs_def)

text \<open>
  Lookup in one stride is the longest prefix match: on a table that satisfies the invariant, the entry read
  by \<open>get\<close> is the value of the most specific of the nine prefixes of the address that has a route,
  and there is no entry if none has one.
\<close>

theorem stride_get_longest:
  assumes "stride_wf t"
  shows "stride_get t a = first_some (map (\<lambda>n. map_option snd (routes (st_entries t) (idx_of (a, 8 - int n)))) [0..<9])"
  using stride.look_law [OF assms, of a] by (simp add: host_cands_def stride_abs_def comp_def)

theorem stride_get_longest_witness:
  "stride_get (newStride zeroPrefix :: nat stride) 7 =
     first_some (map (\<lambda>n. map_option snd (routes (st_entries (newStride zeroPrefix :: nat stride)) (idx_of (7, 8 - int n)))) [0..<9])"
  by (rule stride_get_longest [OF newStride_wf])

text \<open>
  Insertion into one stride: with a fresh allocation, \<open>insert\<close> of a prefix of length 0 to 8 never panics, keeps
  the invariant (the route counter included), sets the route of exactly that prefix and leaves all
  other routes, the children and the prefix of the table as they are.
\<close>

theorem stride_insert_exact:
  assumes "stride_wf t" "0 \<le> n" "n \<le> 8" "stride_fresh t p"
  shows "\<exists>t'. stride_insert t a n p v = Some t' \<and> stride_wf t' \<and>
    st_prefix t' = st_prefix t \<and> st_children t' = st_children t \<and> st_childRefs t' = st_childRefs t \<and>
    routes (st_entries t') = (routes (st_entries t))(idx_of (a, n) \<mapsto> (p, v))"
  using stride_insert_law [of t "(a, n)" p v] assms by (simp add: key_ok_def)

theorem stride_insert_exact_witness:
  "\<exists>t'. stride_insert (newStride zeroPrefix) 0x80 1 0 (5 :: nat) = Some t' \<and> stride_wf t' \<and>
     routes (st_entries t') (idx_of (0x80, 1)) = Some (0, 5)"
proof -
  have "stride_fresh (newStride zeroPrefix :: nat stride) 0" by (simp add: stride_fresh_def newStride_def)
  from stride_insert_exact [OF newStride_wf _ _ this, of 1 "0x80" 5] show ?thesis by auto
qed

text \<open>
  Deletion from one stride: \<open>delete\<close> reports whether the prefix had a route, keeps the invariant, and removes
  exactly that route; the addresses it covered fall back to the next less specific route.
\<close>

theorem stride_delete_exact:
  assumes "stride_wf t" "0 \<le> n" "n \<le> 8"
  shows "\<exists>t'. stride_delete t a n = Some (routes (st_entries t) (idx_of (a, n)) \<noteq> None, t') \<and> stride_wf t' \<and>
    st_prefix t' = st_prefix t \<and> st_children t' = st_children t \<and> st_childRefs t' = st_childRefs t \<and>
    routes (st_entries t') = (routes (st_entries t))(idx_of (a, n) := None)"
  using stride_delete_law [of t "(a, n)"] assms by (simp add: key_ok_def)

theorem stride_delete_exact_witness:
  "\<exists>t'. stride_delete (newStride zeroPrefix :: nat stride) 0x80 1 =
      Some (routes (st_entries (newStride zeroPrefix :: nat stride)) (idx_of (0x80, 1)) \<noteq> None, t') \<and> stride_wf t'"
  using stride_delete_exact [of "newStride zeroPrefix :: nat stride" 1 "0x80"] newStride_wf by auto

end
