(* ===== verification/Art_Table.thy ===== *)
theory Art_Table
  imports Stride_Table "HOL-Library.Signed_Division"
begin

unbundle bit_operations_syntax

section \<open>Package \<open>net/art\<close>: the multi-level routing table\<close>

text \<open>
  \<open>src/net/art/table.go\<close>: the routing table for IPv4 and IPv6, a tree of stride tables with path
  compression. Every stride table has one parent, so the tree is a value and an update in place is
  the replacement of a child; the loops that walk down and change the tree are recursions that put
  the changed child back. The array of tables \<open>Delete\<close> keeps on its way down is the list \<open>stack\<close>.
  \<open>None\<close> is a panic. Go's integer division truncates, as \<open>sdiv\<close> does. The counter \<open>t_next\<close> numbers the allocations of \<open>new(T)\<close>.
\<close>

subsection \<open>Helpers\<close>

lemma sdiv8 [simp]: "int n sdiv 8 = int (n div 8)"
  by (cases n) (simp_all add: signed_divide_int_def zdiv_int)

text \<open>\<open>bits.LeadingZeros32\<close> and \<open>bits.LeadingZeros64\<close>.\<close>

definition LeadingZeros :: "'a::len word \<Rightarrow> nat" where
  "LeadingZeros w = length (takeWhile Not (word_bits w))"

definition ipv4AsUint :: "addr \<Rightarrow> u32 option" where
  "ipv4AsUint ip = map_option be_word (As4 ip)"

definition ipv6AsUint :: "addr \<Rightarrow> u64 \<times> u64" where
  "ipv6AsUint ip = (be_word (take 8 (As16 ip)), be_word (drop 8 (As16 ip)))"

definition commonBits :: "addr \<Rightarrow> addr \<Rightarrow> int \<Rightarrow> int option" where
  "commonBits a b maxBits =
     (if Is4 a \<noteq> Is4 b then None
      else do {
        common \<leftarrow> (if Is4 a then do {
            aNum \<leftarrow> ipv4AsUint a;
            bNum \<leftarrow> ipv4AsUint b;
            Some (int (LeadingZeros (aNum XOR bNum))) }
          else
            (let (aNumHi, aNumLo) = ipv6AsUint a;
                 (bNumHi, bNumLo) = ipv6AsUint b;
                 common = LeadingZeros (aNumHi XOR bNumHi)
             in Some (int (if common = 64 then common + LeadingZeros (aNumLo XOR bNumLo) else common))));
        Some (if common > maxBits then maxBits else common) })"

definition prefixStrictlyContains :: "prefix \<Rightarrow> prefix \<Rightarrow> bool" where
  "prefixStrictlyContains parent child = (Overlaps parent child \<and> pfx_bits parent < pfx_bits child)"

definition computePrefixSplit :: "prefix \<Rightarrow> prefix \<Rightarrow> (prefix \<times> byte \<times> byte) option" where
  "computePrefixSplit a0 b0 =
     (let a = Masked a0; b = Masked b0 in
      if pfx_bits a = 0 \<or> pfx_bits b = 0 then None
      else if Is4 (pfx_addr a) \<noteq> Is4 (pfx_addr b) then None
      else do {
        let minPrefixLen = (if pfx_bits b < pfx_bits a then pfx_bits b else pfx_bits a);
        common \<leftarrow> commonBits (pfx_addr a) (pfx_addr b) minPrefixLen;
        let common = (if common = minPrefixLen then common - 1 else common);
        let commonStrides = common sdiv 8;
        lastCommon \<leftarrow> Addr_Prefix (pfx_addr a) (commonStrides * 8);
        (aStride, bStride) \<leftarrow> (if Is4 (pfx_addr a) then do {
            as \<leftarrow> As4 (pfx_addr a);
            bs \<leftarrow> As4 (pfx_addr b);
            x \<leftarrow> rd as (nat commonStrides);
            y \<leftarrow> rd bs (nat commonStrides);
            Some (x, y) }
          else do {
            x \<leftarrow> rd (As16 (pfx_addr a)) (nat commonStrides);
            y \<leftarrow> rd (As16 (pfx_addr b)) (nat commonStrides);
            Some (x, y) });
        Some (lastCommon, aStride, bStride) })"

subsection \<open>The table\<close>

record 'v Table =
  t_v4 :: "'v stride"
  t_v6 :: "'v stride"
  t_inited :: bool
  t_next :: nat

definition zeroTable :: "'v Table" where
  "zeroTable = \<lparr>t_v4 = newStride zeroPrefix, t_v6 = newStride zeroPrefix, t_inited = False, t_next = 0\<rparr>"

fun setPrefix :: "prefix \<Rightarrow> 'v stride \<Rightarrow> 'v stride" where
  "setPrefix p (Stride _ es cs rr cr) = Stride p es cs rr cr"

definition Table_init :: "'v Table \<Rightarrow> 'v Table" where
  "Table_init t =
     (if t_inited t then t
      else t\<lparr>t_v4 := setPrefix (PrefixFrom (V4 0) 0) (t_v4 t),
             t_v6 := setPrefix (PrefixFrom (V6 0 []) 0) (t_v6 t), t_inited := True\<rparr>)"

definition tableForAddr :: "'v Table \<Rightarrow> addr \<Rightarrow> 'v stride" where
  "tableForAddr t a = (if Is6 a then t_v6 t else t_v4 t)"

definition setTableForAddr :: "'v Table \<Rightarrow> addr \<Rightarrow> 'v stride \<Rightarrow> 'v Table" where
  "setTableForAddr t a st = (if Is6 a then t\<lparr>t_v6 := st\<rparr> else t\<lparr>t_v4 := st\<rparr>)"

subsection \<open>Lookup\<close>

lemma size_child:
  "st_children st ! i = Some c \<Longrightarrow> i < length (st_children st) \<Longrightarrow> size c < size st"
proof (cases st)
  case (Stride p es cs rr cr)
  assume "st_children st ! i = Some c" "i < length (st_children st)"
  then have "Some c \<in> set cs" using Stride nth_mem by fastforce
  then have "size_option size (Some c) \<le> size_list (size_option size) cs" by (rule size_list_estimation') simp
  then show ?thesis using Stride by simp
qed

text \<open>
  The walk down: the prefix of every table visited that has a route for the address, with the route.
  A child of an array of fewer than 256 is not looked for (the array has 256).
\<close>

function findLeaf :: "'v stride \<Rightarrow> bytes \<Rightarrow> nat \<Rightarrow> (prefix \<times> 'v) list option" where
  "findLeaf st bs i = do {
     b \<leftarrow> rd bs i;
     let (rt, child) = getValAndChild st b;
     rest \<leftarrow> (case child of
         None \<Rightarrow> Some []
       | Some c \<Rightarrow> if unat b < length (st_children st) then findLeaf c bs (nat (pfx_bits (st_prefix c) sdiv 8)) else None);
     Some ((case rt of None \<Rightarrow> [] | Some v \<Rightarrow> [(st_prefix st, v)]) @ rest) }"
  by pat_completeness auto

termination findLeaf
  by (relation "measure (\<lambda>(st, _). size st)") (auto simp: getValAndChild_def size_child)

declare findLeaf.simps [simp del]

text \<open>The walk back: the last recorded route whose table's prefix contains the address.\<close>

fun walkBack :: "(prefix \<times> 'v) list \<Rightarrow> addr \<Rightarrow> 'v option" where
  "walkBack [] a = None"
| "walkBack ((p, v) # ms) a = (if Contains p a then Some v else walkBack ms a)"

definition Table_Get :: "'v Table \<Rightarrow> addr \<Rightarrow> ('v option \<times> 'v Table) option" where
  "Table_Get t0 a = do {
     let t = Table_init t0;
     let st = tableForAddr t a;
     let raw = As16 a;
     let bs = (if Is4 a then drop 12 raw else raw);
     strideMatch \<leftarrow> findLeaf st bs 0;
     Some (walkBack (rev strideMatch) a, t) }"

subsection \<open>Insertion\<close>

text \<open>The child at \<open>b\<close> is changed in place.\<close>

fun replaceChild :: "'v stride \<Rightarrow> byte \<Rightarrow> 'v stride option \<Rightarrow> 'v stride" where
  "replaceChild (Stride p es cs rr cr) b c = Stride p es (cs[unat b := c]) rr cr"

text \<open>A new child with the compressed prefix \<open>fsp\<close> receives the last bits of the prefix.\<close>

definition insertNewChild :: "'v stride \<Rightarrow> byte \<Rightarrow> 'v stride \<Rightarrow> prefix \<Rightarrow> byte \<Rightarrow> int \<Rightarrow> nat \<Rightarrow> 'v \<Rightarrow> 'v stride option" where
  "insertNewChild st b child fsp fb finalBits p val = do {
     child' \<leftarrow> stride_insert (setPrefix fsp child) fb finalBits p val;
     Some (replaceChild st b (Some child')) }"

function insertLoop ::
    "'v stride \<Rightarrow> prefix \<Rightarrow> bytes \<Rightarrow> prefix \<Rightarrow> nat \<Rightarrow> int \<Rightarrow> nat \<Rightarrow> 'v \<Rightarrow> nat \<Rightarrow> int \<Rightarrow> 'v stride option" where
  "insertLoop st pfx bs fsp finalByteIdx finalBits p val byteIdx numBits =
     (if numBits \<le> 8 then do {
        fb \<leftarrow> rd bs finalByteIdx;
        stride_insert st fb finalBits p val }
      else do {
        b \<leftarrow> rd bs byteIdx;
        fb \<leftarrow> rd bs finalByteIdx;
        (case st_children st ! unat b of
           None \<Rightarrow> do {
             (child, _, st1) \<leftarrow> getOrCreateChild st b;
             insertNewChild st1 b child fsp fb finalBits p val }
         | Some child \<Rightarrow>
             if \<not> prefixStrictlyContains (st_prefix child) pfx then do {
               (ip, addrOfExisting, addrOfNew) \<leftarrow> computePrefixSplit (st_prefix child) pfx;
               let inter = setChild (newStride ip) addrOfExisting child;
               if pfx_bits pfx - pfx_bits ip \<le> 8 then do {
                 inter' \<leftarrow> stride_insert inter fb finalBits p val;
                 Some (setChild st b inter') }
               else do {
                 (child2, created, inter1) \<leftarrow> getOrCreateChild inter addrOfNew;
                 if \<not> created then None
                 else do {
                   inter' \<leftarrow> insertNewChild inter1 addrOfNew child2 fsp fb finalBits p val;
                   Some (setChild st b inter') } } }
             else if unat b < length (st_children st) then do {
               child' \<leftarrow> insertLoop child pfx bs fsp finalByteIdx finalBits p val
                          (nat (pfx_bits (st_prefix child) sdiv 8)) (pfx_bits pfx - pfx_bits (st_prefix child));
               Some (replaceChild st b (Some child')) }
             else None) })"
  by pat_completeness auto

termination insertLoop
  by (relation "measure (\<lambda>(st, _). size st)") (auto simp: size_child)

declare insertLoop.simps [simp del]

definition Table_Insert :: "'v Table \<Rightarrow> prefix \<Rightarrow> 'v \<Rightarrow> 'v Table option" where
  "Table_Insert t0 pfx0 val = do {
     let t = Table_init t0;
     let pfx = Masked pfx0;
     let st = tableForAddr t (pfx_addr pfx);
     let p = t_next t;
     st' \<leftarrow> (if pfx_bits pfx = 0 then stride_insert st 0 0 p val
       else do {
         let finalByteIdx = (pfx_bits pfx - 1) sdiv 8;
         let finalBits = pfx_bits pfx - finalByteIdx * 8;
         finalStridePrefix \<leftarrow> Addr_Prefix (pfx_addr pfx) (finalByteIdx * 8);
         insertLoop st pfx (AsSlice (pfx_addr pfx)) finalStridePrefix (nat finalByteIdx) finalBits p val
           0 (pfx_bits pfx) });
     Some ((setTableForAddr t (pfx_addr pfx) st')\<lparr>t_next := p + 1\<rparr>) }"

subsection \<open>Deletion\<close>

text \<open>
  The walk down. The result is \<open>Some None\<close> when a table on the way is missing, else the table
  reached, the byte index and the number of bits left, and the stack of tables above it with the
  index each was left by. The arrays of the code hold 16 tables and 15 indexes.
\<close>

function deleteWalk :: "'v stride \<Rightarrow> prefix \<Rightarrow> bytes \<Rightarrow> nat \<Rightarrow> int \<Rightarrow> ('v stride \<times> byte) list \<Rightarrow>
    ('v stride \<times> nat \<times> int \<times> ('v stride \<times> byte) list) option option" where
  "deleteWalk st pfx bs byteIdx numBits stack =
     (if numBits > 8 then do {
        b \<leftarrow> rd bs byteIdx;
        (case getChild st b of
           None \<Rightarrow> Some None
         | Some child \<Rightarrow>
             if length stack \<ge> 15 \<or> \<not> unat b < length (st_children st) then None
             else deleteWalk child pfx bs (nat (pfx_bits (st_prefix child) sdiv 8))
                    (pfx_bits pfx - pfx_bits (st_prefix child)) ((st, b) # stack)) }
      else Some (Some (st, byteIdx, numBits, stack)))"
  by pat_completeness auto

termination deleteWalk
  by (relation "measure (\<lambda>(st, _). size st)") (auto simp: size_child getChild_def)

declare deleteWalk.simps [simp del]

text \<open>Putting a changed table back under the tables above it.\<close>

fun zipUp :: "'v stride \<Rightarrow> ('v stride \<times> byte) list \<Rightarrow> 'v stride" where
  "zipUp cur [] = cur"
| "zipUp cur ((parent, b) # stack) = zipUp (replaceChild parent b (Some cur)) stack"

text \<open>The cleanup loop: empty tables are removed, a table with one child and no route is bypassed.\<close>

fun cleanup :: "'v stride \<Rightarrow> ('v stride \<times> byte) list \<Rightarrow> 'v stride" where
  "cleanup cur [] = cur"
| "cleanup cur ((parent, b) # stack) =
     (if st_routeRefs cur > 0 then zipUp cur ((parent, b) # stack)
      else if st_childRefs cur = 0 then cleanup (deleteChild parent b) stack
      else if st_childRefs cur = 1 then zipUp (replaceChild parent b (findFirstChild cur)) stack
      else zipUp cur ((parent, b) # stack))"

definition Table_Delete :: "'v Table \<Rightarrow> prefix \<Rightarrow> 'v Table option" where
  "Table_Delete t0 pfx0 = do {
     let t = Table_init t0;
     let pfx = Masked pfx0;
     let st = tableForAddr t (pfx_addr pfx);
     st' \<leftarrow> (if pfx_bits pfx = 0 then map_option snd (stride_delete st 0 0)
       else do {
         let bs = AsSlice (pfx_addr pfx);
         r \<leftarrow> deleteWalk st pfx bs 0 (pfx_bits pfx) [];
         (case r of
            None \<Rightarrow> Some st
          | Some (leaf, byteIdx, numBits, stack) \<Rightarrow>
              if \<not> prefixStrictlyContains (st_prefix leaf) pfx then Some st
              else do {
                b \<leftarrow> rd bs byteIdx;
                (existed, leaf') \<leftarrow> stride_delete leaf b numBits;
                if \<not> existed then Some st else Some (cleanup leaf' stack) }) });
     Some (setTableForAddr t (pfx_addr pfx) st') }"

end
