(* ===== verification/Art_Bits.thy ===== *)
theory Art_Bits
  imports Art_Table "HOL-Library.Sublist"
begin

unbundle bit_operations_syntax

section \<open>Routing keys as bit lists\<close>

text \<open>
  The view under which the routing table is verified: a prefix is the list of its leading bits
  (\<open>pfx_key\<close>), an address the list of all its bits. \<open>Contains\<close> and \<open>prefixStrictlyContains\<close> become
  the prefix order on lists, a byte of an address eight consecutive bits, a node of a stride table
  the list of at most eight bits that leads to it, and \<open>computePrefixSplit\<close> cuts at the last stride
  boundary before two keys part.
\<close>

subsection \<open>Bytes and nodes\<close>

definition byte_of :: "bool list \<Rightarrow> byte" where
  "byte_of l = horner_sum of_bool 2 (rev l)"

lemma byte_of_word_bits [simp]: "byte_of (word_bits b) = b"
proof (rule bit_word_eqI)
  fix k assume "k < LENGTH(8)"
  then show "bit (byte_of (word_bits b)) k \<longleftrightarrow> bit b k"
    by (simp add: byte_of_def bit_horner_sum_bit_word_iff rev_nth word_bits_nth)
qed

lemma word_bits_byte_of [simp]: "length l = 8 \<Longrightarrow> word_bits (byte_of l) = l"
  by (rule nth_equalityI) (auto simp: word_bits_nth byte_of_def bit_horner_sum_bit_word_iff rev_nth)

definition bits_idx :: "bool list \<Rightarrow> nat" where
  "bits_idx l = foldl (\<lambda>i b. 2 * i + of_bool b) 1 l"

lemma bits_idx_Nil [simp]: "bits_idx [] = 1"
  by (simp add: bits_idx_def)

lemma bits_idx_snoc [simp]: "bits_idx (l @ [b]) = 2 * bits_idx l + of_bool b"
  by (simp add: bits_idx_def)

lemma bits_idx_pos: "0 < bits_idx l"
  by (induction l rule: rev_induct) simp_all

lemma bits_idx_inject [simp]: "bits_idx l = bits_idx m \<longleftrightarrow> l = m"
proof
  show "bits_idx l = bits_idx m \<Longrightarrow> l = m"
  proof (induction l arbitrary: m rule: rev_induct)
    case Nil
    then show ?case using bits_idx_pos [of "butlast m"] by (cases m rule: rev_cases) auto
  next
    case (snoc b l)
    show ?case
    proof (cases m rule: rev_cases)
      case Nil
      then show ?thesis using snoc.prems bits_idx_pos [of l] by simp
    next
      case (snoc m' c)
      then have eq: "2 * bits_idx l + of_bool b = 2 * bits_idx m' + of_bool c" using snoc.prems by simp
      then have "b = c" by (cases b; cases c; simp; presburger)
      then show ?thesis using eq snoc snoc.IH [of m'] by simp
    qed
  qed
qed simp

lemma bits_idx_eq: "bits_idx l = 2 ^ length l + horner_sum of_bool 2 (rev l)"
  by (induction l rule: rev_induct) (simp_all add: of_bool_def)

lemma bits_idx_word: "bits_idx (word_bits (b :: byte)) = 256 + unat b"
proof -
  have "unat b = horner_sum of_bool 2 (rev (word_bits b))"
  proof (rule bit_eqI)
    fix n
    show "bit (unat b) n \<longleftrightarrow> bit (horner_sum of_bool 2 (rev (word_bits b)) :: nat) n"
      by (cases "n < 8") (auto simp: bit_horner_sum_bit_iff rev_nth word_bits_nth bit_unsigned_iff dest: bit_imp_le_length)
  qed
  then show ?thesis by (simp add: bits_idx_eq)
qed

lemma bits_idx_take: "n \<le> length l \<Longrightarrow> bits_idx (take n l) = bits_idx l div 2 ^ (length l - n)"
proof (induction l rule: rev_induct)
  case (snoc b l)
  show ?case
  proof (cases "n = length (l @ [b])")
    case False
    then have "n \<le> length l" "length (l @ [b]) - n = Suc (length l - n)" using snoc.prems by auto
    then show ?thesis using snoc.IH by (simp add: div_mult2_eq)
  qed simp
qed simp

lemma idx_of_bits:
  assumes "n \<le> 8"
  shows "idx_of (b, int n) = bits_idx (take n (word_bits b))"
proof -
  have "nat (8 - int n) = 8 - n" using assms by simp
  then show ?thesis using assms bits_idx_take [of n "word_bits b"] by (simp add: idx_of_def bits_idx_word)
qed

text \<open>The routes of one stride, by the bits that lead to the node.\<close>

definition stride_rt :: "'v stride \<Rightarrow> bool list \<Rightarrow> 'v option" where
  "stride_rt t l = map_option snd (routes (st_entries t) (bits_idx l))"

lemma stride_abs_rt: "n \<le> 8 \<Longrightarrow> stride_abs t (b, int n) = stride_rt t (take n (word_bits b))"
  by (simp add: stride_abs_def stride_rt_def idx_of_bits)

lemma stride_get_rt:
  assumes "stride_wf t"
  shows "stride_get t b = first_some (map (\<lambda>n. stride_rt t (take (8 - n) (word_bits b))) [0..<9])"
proof -
  have "map (stride_abs t) (host_cands b) = map (\<lambda>n. stride_rt t (take (8 - n) (word_bits b))) [0..<9]"
    unfolding host_cands_def map_map comp_def
    by (rule map_cong) (auto simp: of_nat_diff stride_abs_rt [symmetric])
  then show ?thesis by (simp only: stride_get_law [OF assms])
qed

subsection \<open>Addresses\<close>

text \<open>The addresses of a table's family, which is given by its number of bits.\<close>

definition addr_ok :: "nat \<Rightarrow> addr \<Rightarrow> bool" where
  "addr_ok W a \<longleftrightarrow> a \<noteq> AddrZero \<and> BitLen a = W \<and> \<not> hasZone a"

lemma addr_ok_cases:
  assumes "addr_ok W a"
  obtains w where "a = V4 w" "W = 32" | w where "a = V6 w []" "W = 128"
  using assms by (cases a) (auto simp: addr_ok_def)

lemma addr_bits_inject: "addr_ok W a \<Longrightarrow> addr_ok W b \<Longrightarrow> addr_bits a = addr_bits b \<longleftrightarrow> a = b"
  by (elim addr_ok_cases) auto

lemma word_bits_mask:
  "n \<le> LENGTH('a::len) \<Longrightarrow> word_bits ((w :: 'a word) AND mask_hi n) = take n (word_bits w) @ replicate (LENGTH('a) - n) False"
  by (rule nth_equalityI) (auto simp: word_bits_nth mask_hi_def bit_simps nth_append)

lemma mask_addr_bits:
  "addr_ok W a \<Longrightarrow> n \<le> W \<Longrightarrow> addr_bits (mask_addr a n) = take n (addr_bits a) @ replicate (W - n) False"
  by (elim addr_ok_cases) (simp_all add: word_bits_mask)

lemma mask_addr_ok: "addr_ok W a \<Longrightarrow> addr_ok W (mask_addr a n)"
  by (elim addr_ok_cases) (simp_all add: addr_ok_def)

text \<open>The bytes of an address.\<close>

lemma be_bytes_bits:
  assumes "LENGTH('a::len) = 8 * n" "i < n"
  shows "word_bits (be_bytes n (w :: 'a word) ! i) = take 8 (drop (8 * i) (word_bits w))"
proof (rule nth_equalityI)
  fix j assume "j < length (word_bits (be_bytes n w ! i))"
  then have j: "j < 8" by simp
  have "8 * (n - 1 - i) + (7 - j) = 8 * n - 1 - (8 * i + j)" using assms(2) j by (simp add: diff_mult_distrib2)
  then show "word_bits (be_bytes n w ! i) ! j = take 8 (drop (8 * i) (word_bits w)) ! j"
    using assms j by (auto simp: word_bits_nth bit_be_bytes)
qed (use assms in auto)

lemma AsSlice_bits:
  assumes "addr_ok W a" "8 * i < W"
  shows "i < length (AsSlice a)" "word_bits (AsSlice a ! i) = take 8 (drop (8 * i) (addr_bits a))"
  using assms by (auto elim!: addr_ok_cases simp: be_bytes_bits)

lemma As16_AsSlice: "addr_ok W a \<Longrightarrow> (if Is4 a then drop 12 (As16 a) else As16 a) = AsSlice a"
  by (elim addr_ok_cases) simp_all

subsection \<open>Prefixes\<close>

definition pfx_key :: "prefix \<Rightarrow> bool list" where
  "pfx_key p = take (nat (pfx_bits p)) (addr_bits (pfx_addr p))"

text \<open>A masked prefix of the family: its address is its key followed by zeros.\<close>

definition pfx_ok :: "nat \<Rightarrow> prefix \<Rightarrow> bool" where
  "pfx_ok W p \<longleftrightarrow> addr_ok W (pfx_addr p) \<and> 0 \<le> pfx_bits p \<and> pfx_bits p \<le> int W \<and>
     addr_bits (pfx_addr p) = pfx_key p @ replicate (W - nat (pfx_bits p)) False"

lemma addr_ok_len: "addr_ok W a \<Longrightarrow> length (addr_bits a) = W"
  by (simp add: addr_ok_def)

lemma pfx_ok_len:
  assumes "pfx_ok W p"
  shows "length (pfx_key p) = nat (pfx_bits p)" "pfx_bits p = int (length (pfx_key p))" "length (pfx_key p) \<le> W"
  using assms addr_ok_len [of W "pfx_addr p"] by (auto simp: pfx_ok_def pfx_key_def)

lemma pfx_ok_bits: "pfx_ok W p \<Longrightarrow> addr_bits (pfx_addr p) = pfx_key p @ replicate (W - length (pfx_key p)) False"
  using pfx_ok_len(1) [of W p] by (simp add: pfx_ok_def)

lemma pfx_ok_inject: "pfx_ok W p \<Longrightarrow> pfx_ok W q \<Longrightarrow> pfx_key p = pfx_key q \<Longrightarrow> p = q"
proof -
  assume ok: "pfx_ok W p" "pfx_ok W q" and eq: "pfx_key p = pfx_key q"
  have "addr_bits (pfx_addr p) = addr_bits (pfx_addr q)" using ok [THEN pfx_ok_bits] eq by simp
  moreover have "addr_ok W (pfx_addr p)" "addr_ok W (pfx_addr q)" using ok by (simp_all add: pfx_ok_def)
  ultimately have "pfx_addr p = pfx_addr q" by (simp add: addr_bits_inject)
  moreover have "pfx_bits p = pfx_bits q" using ok [THEN pfx_ok_len(2)] eq by simp
  ultimately show ?thesis by (simp add: prefix.expand)
qed

lemma pfx_ok_valid: "pfx_ok W p \<Longrightarrow> pfx_valid p"
  by (simp add: pfx_ok_def pfx_valid_def addr_ok_def)

lemma prefix_take_eq: "Sublist.prefix l m \<longleftrightarrow> length l \<le> length m \<and> take (length l) m = l"
  by (metis append_eq_conv_conj prefix_def prefix_length_le take_is_prefix)

lemma Contains_key:
  assumes "pfx_ok W p" "addr_ok W a"
  shows "Contains p a \<longleftrightarrow> Sublist.prefix (pfx_key p) (addr_bits a)"
proof -
  have "addr_ok W (pfx_addr p)" using assms(1) by (simp add: pfx_ok_def)
  then have "Is4 (pfx_addr p) = Is4 a" "Is6 (pfx_addr p) = Is6 a" "\<not> hasZone a"
    using assms(2) by (auto elim!: addr_ok_cases)
  then show ?thesis
    using pfx_ok_valid [OF assms(1)] pfx_ok_len(1,3) [OF assms(1)] addr_ok_len [OF assms(2)]
    by (simp add: Contains_iff prefix_take_eq) (simp add: pfx_key_def)
qed

lemma Contains_zone: "hasZone a \<or> a = AddrZero \<Longrightarrow> \<not> Contains p a"
  by (cases a; cases "pfx_addr p") (auto simp: Contains_def)

lemma mask_addr_eq:
  assumes "addr_ok W a" "addr_ok W b" "n \<le> W"
  shows "mask_addr a n = mask_addr b n \<longleftrightarrow> take n (addr_bits a) = take n (addr_bits b)"
  unfolding addr_bits_inject [OF mask_addr_ok [OF assms(1)] mask_addr_ok [OF assms(2)], symmetric]
    mask_addr_bits [OF assms(1,3)] mask_addr_bits [OF assms(2,3)] by simp

lemma strictlyContains_key:
  assumes "pfx_ok W p" "pfx_ok W q"
  shows "prefixStrictlyContains p q \<longleftrightarrow> strict_prefix (pfx_key p) (pfx_key q)"
proof -
  have a: "addr_ok W (pfx_addr p)" "addr_ok W (pfx_addr q)" using assms by (simp_all add: pfx_ok_def)
  then have fam: "Is4 (pfx_addr p) = Is4 (pfx_addr q)" by (auto elim!: addr_ok_cases)
  note len = pfx_ok_len(2,3) [OF assms(1)] pfx_ok_len(2,3) [OF assms(2)]
  show ?thesis
  proof (cases "pfx_bits p < pfx_bits q")
    case True
    then have n: "min (pfx_bits p) (pfx_bits q) = pfx_bits p" "nat (pfx_bits p) \<le> W" "p \<noteq> q" using len by auto
    have v: "pfx_valid p" "pfx_valid q" using assms by (blast intro: pfx_ok_valid)+
    have "Overlaps p q \<longleftrightarrow> pfx_bits p = 0 \<or> mask_addr (pfx_addr p) (nat (pfx_bits p)) = mask_addr (pfx_addr q) (nat (pfx_bits p))"
      unfolding Overlaps_def Let_def n(1) using n(3) v fam by simp
    also have "\<dots> \<longleftrightarrow> take (length (pfx_key p)) (addr_bits (pfx_addr p)) = take (length (pfx_key p)) (addr_bits (pfx_addr q))"
      unfolding mask_addr_eq [OF a n(2)] pfx_ok_len(1) [OF assms(1)] by auto
    also have "\<dots> \<longleftrightarrow> Sublist.prefix (pfx_key p) (pfx_key q)"
      using True len pfx_ok_bits [OF assms(1)] pfx_ok_bits [OF assms(2)] by (auto simp: prefix_take_eq)
    finally show ?thesis using True len by (auto simp: prefixStrictlyContains_def strict_prefix_def)
  next
    case False
    then show ?thesis using len prefix_length_less [of "pfx_key p" "pfx_key q"] by (auto simp: prefixStrictlyContains_def)
  qed
qed

lemma Addr_Prefix_key:
  assumes "addr_ok W a" "n \<le> W"
  shows "\<exists>q. Addr_Prefix a (int n) = Some q \<and> pfx_ok W q \<and> pfx_key q = take n (addr_bits a)"
proof -
  let ?q = "Prefix (mask_addr a n) (int n)"
  have m: "addr_ok W (mask_addr a n)" by (rule mask_addr_ok [OF assms(1)])
  then have "withoutZone (mask_addr a n) = mask_addr a n" "mask_addr a n \<noteq> AddrZero" "BitLen (mask_addr a n) = W"
    by (auto elim!: addr_ok_cases)
  then have "Addr_Prefix a (int n) = Some ?q"
    using assms by (auto simp: Addr_Prefix_def PrefixFrom_def addr_ok_def)
  moreover have k: "pfx_key ?q = take n (addr_bits a)"
    using assms addr_ok_len [OF assms(1)] by (simp add: pfx_key_def mask_addr_bits)
  moreover have "pfx_ok W ?q" using m k assms by (simp add: pfx_ok_def mask_addr_bits)
  ultimately show ?thesis by blast
qed

lemma Addr_Prefix_zone: "Addr_Prefix a n = Addr_Prefix (withoutZone a) n"
  by (cases a) (auto simp: Addr_Prefix_def)

lemma Masked_key:
  assumes "pfx_valid p"
  shows "pfx_ok (BitLen (pfx_addr p)) (Masked p)" "pfx_key (Masked p) = pfx_key p"
    "Is6 (pfx_addr (Masked p)) = Is6 (pfx_addr p)"
proof -
  let ?a = "withoutZone (pfx_addr p)" and ?W = "BitLen (pfx_addr p)"
  have a: "addr_ok ?W ?a" "addr_bits ?a = addr_bits (pfx_addr p)"
    using assms by (cases "pfx_addr p"; auto simp: pfx_valid_def addr_ok_def)+
  have n: "nat (pfx_bits p) \<le> ?W" "int (nat (pfx_bits p)) = pfx_bits p" using assms by (auto simp: pfx_valid_def)
  obtain q where q: "Addr_Prefix (pfx_addr p) (pfx_bits p) = Some q" "pfx_ok ?W q" "pfx_key q = pfx_key p"
    using Addr_Prefix_key [OF a(1) n(1)] n(2) a(2) Addr_Prefix_zone [of "pfx_addr p"] by (auto simp: pfx_key_def)
  then show "pfx_ok ?W (Masked p)" "pfx_key (Masked p) = pfx_key p" by (simp_all add: Masked_def)
  then have "BitLen (pfx_addr (Masked p)) = ?W" by (simp add: pfx_ok_def addr_ok_def)
  then show "Is6 (pfx_addr (Masked p)) = Is6 (pfx_addr p)" by (cases "pfx_addr (Masked p)"; cases "pfx_addr p") auto
qed

subsection \<open>Where two keys part\<close>

abbreviation lcp :: "bool list \<Rightarrow> bool list \<Rightarrow> nat" where
  "lcp xs ys \<equiv> length (longest_common_prefix xs ys)"

lemma word_bits_xor: "word_bits (v XOR (w :: 'a::len word)) = map2 (\<noteq>) (word_bits v) (word_bits w)"
  by (rule nth_equalityI) (auto simp: word_bits_nth bit_simps)

lemma takeWhile_lcp: "length xs = length ys \<Longrightarrow> length (takeWhile Not (map2 (\<noteq>) xs ys)) = lcp xs ys"
  by (induction xs ys rule: list_induct2) auto

lemma LeadingZeros_lcp: "LeadingZeros (v XOR (w :: 'a::len word)) = lcp (word_bits v) (word_bits w)"
  unfolding LeadingZeros_def word_bits_xor by (rule takeWhile_lcp) simp

lemma lcp_le: "lcp xs ys \<le> length xs"
  by (simp add: longest_common_prefix_prefix1 prefix_length_le)

lemma lcp_append:
  "length xs = length ys \<Longrightarrow>
     lcp (xs @ xs') (ys @ ys') = (if lcp xs ys = length xs then length xs + lcp xs' ys' else lcp xs ys)"
  by (induction xs ys rule: list_induct2) auto

lemma word_bits_via_bytes:
  assumes "LENGTH('a::len) = 8 * n" "i < 8 * n"
  shows "word_bits (w :: 'a word) ! i = word_bits (be_bytes n w ! (i div 8)) ! (i mod 8)"
proof -
  have "i div 8 < n" using assms(2) by auto
  moreover have "8 * (i div 8) + i mod 8 = i" by simp
  ultimately show ?thesis using assms by (simp add: be_bytes_bits)
qed

lemma be_word_half:
  fixes w :: u128
  shows "word_bits (be_word (take 8 (be_bytes 16 w)) :: u64) = take 64 (word_bits w)"
    "word_bits (be_word (drop 8 (be_bytes 16 w)) :: u64) = drop 64 (word_bits w)"
proof -
  have "(64 + i) div 8 = 8 + i div 8" "(64 + i) mod 8 = i mod 8" for i :: nat by presburger+
  note via = this word_bits_via_bytes [where 'a = 64 and n = 8] word_bits_via_bytes [where 'a = 128 and n = 16]
  show "word_bits (be_word (take 8 (be_bytes 16 w)) :: u64) = take 64 (word_bits w)"
    by (rule nth_equalityI) (simp_all add: via)
  show "word_bits (be_word (drop 8 (be_bytes 16 w)) :: u64) = drop 64 (word_bits w)"
    by (rule nth_equalityI) (simp_all add: via)
qed

lemma commonBits_lcp:
  assumes "addr_ok W a" "addr_ok W b"
  shows "commonBits a b (int m) = Some (int (min m (lcp (addr_bits a) (addr_bits b))))"
proof -
  have "lcp (word_bits v) (word_bits w) =
      (let c = lcp (take 64 (word_bits v)) (take 64 (word_bits w))
       in if c = 64 then c + lcp (drop 64 (word_bits v)) (drop 64 (word_bits w)) else c)" for v w :: u128
    using lcp_append [of "take 64 (word_bits v)" "take 64 (word_bits w)" "drop 64 (word_bits v)" "drop 64 (word_bits w)"]
    by (simp add: Let_def)
  then show ?thesis using assms
    by (auto elim!: addr_ok_cases simp: commonBits_def ipv4AsUint_def ipv6AsUint_def LeadingZeros_lcp be_word_half Let_def)
qed

lemma lcp_cut: "min (min (length xs) (length ys)) (lcp (xs @ us) (ys @ vs)) = lcp xs ys"
proof (induction xs arbitrary: ys)
  case (Cons x xs)
  then show ?case using Cons.IH by (cases ys) auto
qed simp

lemma Masked_ok: "pfx_ok W p \<Longrightarrow> Masked p = p"
proof -
  assume ok: "pfx_ok W p"
  then have "BitLen (pfx_addr p) = W" by (simp add: pfx_ok_def addr_ok_def)
  then show ?thesis using Masked_key [OF pfx_ok_valid [OF ok]] ok by (auto intro: pfx_ok_inject)
qed

text \<open>The stride boundary before the bit at which two keys part, or before the last bit of the shorter one.\<close>

definition split_at :: "bool list \<Rightarrow> bool list \<Rightarrow> nat" where
  "split_at xs ys = (let c = lcp xs ys; m = min (length xs) (length ys) in (if c = m then m - 1 else c) div 8)"

lemma computePrefixSplit_key:
  assumes p: "pfx_ok W p" "pfx_key p \<noteq> []" and q: "pfx_ok W q" "pfx_key q \<noteq> []"
  defines "d \<equiv> split_at (pfx_key p) (pfx_key q)"
  shows "\<exists>ip x y. computePrefixSplit p q = Some (ip, x, y) \<and> pfx_ok W ip \<and> pfx_key ip = take (8 * d) (pfx_key p) \<and>
    word_bits x = take 8 (drop (8 * d) (addr_bits (pfx_addr p))) \<and> word_bits y = take 8 (drop (8 * d) (addr_bits (pfx_addr q)))"
proof -
  let ?a = "pfx_addr p" and ?b = "pfx_addr q"
  have a: "addr_ok W ?a" "addr_ok W ?b" using p q by (simp_all add: pfx_ok_def)
  then have fam: "Is4 ?a = Is4 ?b" by (auto elim!: addr_ok_cases)
  note len = pfx_ok_len(2,3) [OF p(1)] pfx_ok_len(2,3) [OF q(1)]
  define m where "m = min (length (pfx_key p)) (length (pfx_key q))"
  define c where "c = lcp (pfx_key p) (pfx_key q)"
  have "0 < m" using p(2) q(2) by (simp add: m_def)
  have common: "commonBits ?a ?b (int m) = Some (int c)"
    using commonBits_lcp [OF a, of m] lcp_cut [of "pfx_key p" "pfx_key q"]
    by (simp add: pfx_ok_bits [OF p(1)] pfx_ok_bits [OF q(1)] m_def c_def)
  have d: "d = (if c = m then m - 1 else c) div 8" by (simp add: d_def split_at_def m_def c_def Let_def)
  have d_sdiv: "(if int c = int m then int c - 1 else int c) sdiv 8 = int d"
  proof -
    have one: "int m - 1 = int (m - 1)" using \<open>0 < m\<close> by simp
    have "(int m - 1) sdiv 8 = int ((m - 1) div 8)" unfolding one by (rule sdiv8)
    then show ?thesis by (cases "c = m") (simp_all add: d)
  qed
  have "c \<le> m"
    by (simp add: m_def c_def longest_common_prefix_prefix1 longest_common_prefix_prefix2 prefix_length_le)
  then have "8 * d < m" using \<open>0 < m\<close> unfolding d by (auto split: if_splits)
  then have dW: "8 * d < W" "8 * d < length (pfx_key p)" using len by (auto simp: m_def)
  obtain ip where ip: "Addr_Prefix ?a (int d * 8) = Some ip" "pfx_ok W ip" "pfx_key ip = take (8 * d) (addr_bits ?a)"
    using Addr_Prefix_key [OF a(1), of "8 * d"] dW by (auto simp: mult.commute)
  have "pfx_key ip = take (8 * d) (pfx_key p)" using ip(3) dW by (simp add: pfx_ok_bits [OF p(1)])
  moreover have "computePrefixSplit p q = Some (ip, AsSlice ?a ! d, AsSlice ?b ! d)"
  proof -
    have "(if pfx_bits q < pfx_bits p then pfx_bits q else pfx_bits p) = int m" using len by (auto simp: m_def)
    moreover have "pfx_bits p \<noteq> 0" "pfx_bits q \<noteq> 0" using len p(2) q(2) by auto
    moreover have "d < length (AsSlice ?a)" "d < length (AsSlice ?b)" using AsSlice_bits(1) a dW(1) by blast+
    ultimately show ?thesis
      using common d_sdiv ip(1) fam a
      by (auto elim!: addr_ok_cases simp: computePrefixSplit_def Masked_ok [OF p(1)] Masked_ok [OF q(1)] Let_def rd_def)
  qed
  ultimately show ?thesis using AsSlice_bits(2) [OF a(1) dW(1)] AsSlice_bits(2) [OF a(2) dW(1)] ip(2) by blast
qed

subsection \<open>The bits of a byte string\<close>

lemma word_bits_be_word:
  assumes "LENGTH('a::len) = 8 * length bs" "i < 8 * length bs"
  shows "word_bits (be_word bs :: 'a word) ! i = word_bits (bs ! (i div 8)) ! (i mod 8)"
  using word_bits_via_bytes [of "length bs" i "be_word bs :: 'a word"] assms by simp

definition bbits :: "bytes \<Rightarrow> bool list" where
  "bbits bs = concat (map word_bits bs)"

lemma length_bbits [simp]: "length (bbits bs) = 8 * length bs"
  by (induction bs) (simp_all add: bbits_def)

lemma bbits_nth: "i < 8 * length bs \<Longrightarrow> bbits bs ! i = word_bits (bs ! (i div 8)) ! (i mod 8)"
proof (induction bs arbitrary: i)
  case (Cons b bs)
  show ?case
  proof (cases "i < 8")
    case False
    then obtain j where j: "i = 8 + j" by (metis le_Suc_ex not_less)
    then have "bbits bs ! j = word_bits (bs ! (j div 8)) ! (j mod 8)" using Cons by simp
    moreover have "(8 + j) div 8 = Suc (j div 8)" by simp
    ultimately show ?thesis using j by (simp add: bbits_def nth_append)
  qed (simp add: bbits_def nth_append)
qed simp

lemma bbits_be_word: "LENGTH('a::len) = 8 * length bs \<Longrightarrow> word_bits (be_word bs :: 'a word) = bbits bs"
  by (rule nth_equalityI) (simp_all add: word_bits_be_word bbits_nth)

end
