(* ===== verification/Art_Tree.thy ===== *)
theory Art_Tree
  imports Art_Bits
begin

section \<open>The tree of stride tables\<close>

text \<open>
  The invariant of the tree (\<open>tree\<close>), the routes it holds by their keys (\<open>tree_rt\<close>), and the proof
  that the walks of \<open>Get\<close>, \<open>Insert\<close> and \<open>Delete\<close> compute longest match, update and removal on these
  routes. \<open>W\<close> is the number of bits of an address (32 or 128).
\<close>

subsection \<open>Children\<close>

definition st_kid :: "'v stride \<Rightarrow> byte \<Rightarrow> 'v stride option" where
  "st_kid st b = (if unat b < length (st_children st) then st_children st ! unat b else None)"

definition st_kids :: "'v stride \<Rightarrow> byte set" where
  "st_kids st = {b. st_kid st b \<noteq> None}"

abbreviation st_key :: "'v stride \<Rightarrow> bool list" where
  "st_key st \<equiv> pfx_key (st_prefix st)"

lemma st_kid_size: "st_kid st b = Some c \<Longrightarrow> size c < size st"
  by (auto simp: st_kid_def intro: size_child split: if_splits)

lemma byte_lt [simp]: "unat (b :: byte) < 256"
  using unsigned_less [of b] by simp

lemma st_kid_256: "length (st_children st) = 256 \<Longrightarrow> st_kid st b = st_children st ! unat b"
  by (simp add: st_kid_def)

lemma st_kids_card: "card (st_kids st) \<le> 256"
proof -
  have "card (st_kids st) \<le> card (UNIV :: byte set)" by (rule card_mono) simp_all
  then show ?thesis by (simp add: card_word)
qed

subsection \<open>The routes of a tree\<close>

function tree_rt :: "'v stride \<Rightarrow> bool list \<Rightarrow> 'v option" where
  "tree_rt st k =
     (let r = drop (length (st_key st)) k in
      if \<not> Sublist.prefix (st_key st) k then None
      else if length r \<le> 8 then stride_rt st r
      else case st_kid st (byte_of (take 8 r)) of None \<Rightarrow> None | Some c \<Rightarrow> tree_rt c k)"
  by pat_completeness auto

termination tree_rt
  by (relation "measure (\<lambda>(st, _). size st)") (auto simp: st_kid_size)

declare tree_rt.simps [simp del]

lemma tree_rt_off: "\<not> Sublist.prefix (st_key st) k \<Longrightarrow> tree_rt st k = None"
  by (subst tree_rt.simps) simp

lemma tree_rt_here: "length r \<le> 8 \<Longrightarrow> tree_rt st (st_key st @ r) = stride_rt st r"
  by (subst tree_rt.simps) simp

lemma tree_rt_below:
  "r \<noteq> [] \<Longrightarrow> tree_rt st (st_key st @ word_bits (b :: byte) @ r) =
     (case st_kid st b of None \<Rightarrow> None | Some c \<Rightarrow> tree_rt c (st_key st @ word_bits b @ r))"
  by (subst tree_rt.simps) (simp add: Let_def)

text \<open>A key is off the table, in the table, or below one of its children.\<close>

lemma key_cases [case_names off here below]:
  obtains "\<not> Sublist.prefix (st_key st) k"
  | r where "k = st_key st @ r" "length r \<le> 8"
  | b r where "k = st_key st @ word_bits (b :: byte) @ r" "r \<noteq> []"
proof (cases "Sublist.prefix (st_key st) k")
  case True
  then obtain r where r: "k = st_key st @ r" by (auto simp: prefix_def)
  show ?thesis
  proof (cases "length r \<le> 8")
    case False
    then have "r = word_bits (byte_of (take 8 r)) @ drop 8 r" "drop 8 r \<noteq> []" by simp_all
    then show ?thesis using r that(3) by metis
  qed (use r that(2) in blast)
qed (use that(1) in blast)

subsection \<open>The invariant\<close>

text \<open>
  One table: the stride invariant, a stride-aligned masked prefix of the family, a counter of children
  that is exact, and only allocations before \<open>N\<close>. Below the root the node of the empty bit list is
  not used.
\<close>

definition node_ok :: "nat \<Rightarrow> nat \<Rightarrow> bool \<Rightarrow> 'v stride \<Rightarrow> bool" where
  "node_ok W N root st \<longleftrightarrow> stride_wf st \<and> pfx_ok W (st_prefix st) \<and> 8 dvd length (st_key st) \<and> length (st_key st) < W \<and>
     unat (st_childRefs st) = card (st_kids st) \<and> (\<forall>q v. Some (q, v) \<in> set (st_entries st) \<longrightarrow> q < N) \<and>
     (if root then st_key st = [] else stride_rt st [] = None)"

text \<open>A table that path compression would not remove.\<close>

definition useful :: "'v stride \<Rightarrow> bool" where
  "useful st \<longleftrightarrow> 0 < unat (st_routeRefs st) \<or> 2 \<le> card (st_kids st)"

inductive tree :: "nat \<Rightarrow> nat \<Rightarrow> bool \<Rightarrow> 'v stride \<Rightarrow> bool" for W N where
  treeI: "node_ok W N root st \<Longrightarrow> root \<or> useful st \<Longrightarrow>
    (\<And>b c. st_kid st b = Some c \<Longrightarrow> tree W N False c) \<Longrightarrow>
    (\<And>b c. st_kid st b = Some c \<Longrightarrow> Sublist.prefix (st_key st @ word_bits b) (st_key c)) \<Longrightarrow> tree W N root st"

inductive_cases tree_elim: "tree W N root st"

lemma tree_node: "tree W N root st \<Longrightarrow> node_ok W N root st"
  by (erule tree_elim)

lemma tree_useful: "tree W N False st \<Longrightarrow> useful st"
  by (erule tree_elim) simp

lemma tree_kid:
  "tree W N root st \<Longrightarrow> st_kid st b = Some c \<Longrightarrow> tree W N False c"
  "tree W N root st \<Longrightarrow> st_kid st b = Some c \<Longrightarrow> Sublist.prefix (st_key st @ word_bits b) (st_key c)"
  by (auto elim: tree_elim)

lemma node_okD:
  assumes "node_ok W N root st"
  shows "stride_wf st" "pfx_ok W (st_prefix st)" "8 dvd length (st_key st)" "length (st_key st) < W"
    "length (st_children st) = 256" "pfx_bits (st_prefix st) = int (length (st_key st))"
proof -
  show "stride_wf st" "8 dvd length (st_key st)" "length (st_key st) < W" and p: "pfx_ok W (st_prefix st)"
    using assms unfolding node_ok_def by blast+
  then show "length (st_children st) = 256" by (simp add: stride_wf_def)
  show "pfx_bits (st_prefix st) = int (length (st_key st))" by (rule pfx_ok_len(2) [OF p])
qed

lemma tree_grow: "tree W N root st \<Longrightarrow> N \<le> M \<Longrightarrow> tree W M root st"
proof (induction rule: tree.induct)
  case (treeI root st)
  have "node_ok W M root st"
    using treeI.hyps(1) treeI.prems unfolding node_ok_def by (metis order_less_le_trans)
  then show ?case by (rule tree.treeI) (use treeI in blast)+
qed

subsection \<open>Lookup is longest match\<close>

definition lpm :: "(bool list \<Rightarrow> 'v option) \<Rightarrow> bool list \<Rightarrow> 'v option" where
  "lpm f A = first_some (map (\<lambda>n. f (take n A)) (rev [0..<Suc (length A)]))"

lemma first_some_append: "first_some (xs @ ys) = (case first_some xs of None \<Rightarrow> first_some ys | Some v \<Rightarrow> Some v)"
  by (induction xs) (auto split: option.splits)

lemma first_some_all_None: "(\<And>x. x \<in> set xs \<Longrightarrow> f x = None) \<Longrightarrow> first_some (map f xs) = None"
  by (simp add: first_some_None)

lemma walkBack_append: "walkBack (xs @ ys) a = (case walkBack xs a of None \<Rightarrow> walkBack ys a | Some v \<Rightarrow> Some v)"
  by (induction xs a rule: walkBack.induct) auto

lemma node_width:
  assumes "node_ok W N root st"
  shows "8 dvd W" "length (st_key st) + 8 \<le> W"
proof -
  have "addr_ok W (pfx_addr (st_prefix st))" using assms by (simp add: node_ok_def pfx_ok_def)
  then show "8 dvd W" by (elim addr_ok_cases) simp_all
  then show "length (st_key st) + 8 \<le> W" using node_okD(3,4) [OF assms] by (auto elim!: dvdE)
qed

text \<open>The candidates of an address: below the table, in the table, above it.\<close>

lemma lpm_split:
  assumes "length A = W" "P + 8 \<le> W"
  shows "lpm f A = first_some (map (\<lambda>n. f (take n A)) (rev [P + 9..<Suc W])
    @ map (\<lambda>n. f (take (P + (8 - n)) A)) [0..<9] @ map (\<lambda>n. f (take n A)) (rev [0..<P]))"
proof -
  obtain k where k: "Suc W = P + 9 + k" using assms(2) by (metis add_Suc add_Suc_right le_iff_add eval_nat_numeral(3))
  have "[0..<Suc W] = [0..<P] @ [P..<P + 9] @ [P + 9..<Suc W]"
    unfolding k using upt_add_eq_append [of 0 "P + 9" k] upt_add_eq_append [of 0 P 9] by simp
  moreover have "rev [P..<P + 9] = map (\<lambda>n. P + (8 - n)) [0..<9]"
    by (rule nth_equalityI) (simp_all add: rev_nth)
  ultimately show ?thesis using assms(1) by (simp add: lpm_def comp_def)
qed

lemma lpm_kid:
  assumes c: "node_ok W N False c" and A: "length A = W" and P: "P + 8 \<le> length (st_key c)"
  shows "lpm (tree_rt c) A = first_some (map (\<lambda>n. tree_rt c (take n A)) (rev [P + 9..<Suc W]))"
proof -
  have *: "tree_rt c (take n A) = None" if "n \<le> P + 8" for n
  proof (cases "Sublist.prefix (st_key c) (take n A)")
    case True
    then have "length (st_key c) \<le> n" using prefix_length_le by fastforce
    then have "n = length (st_key c)" using that P by simp
    then have "take n A = st_key c @ []" using True by (simp add: prefix_take_eq)
    then show ?thesis using tree_rt_here [of "[]" c] c by (simp add: node_ok_def)
  qed (rule tree_rt_off)
  have "P + 8 \<le> W" using P node_okD(4) [OF c] by simp
  have "first_some (map (\<lambda>n. tree_rt c (take (P + (8 - n)) A)) [0..<9]) = None"
    "first_some (map (\<lambda>n. tree_rt c (take n A)) (rev [0..<P])) = None"
    by (rule first_some_all_None; simp add: *)+
  then show ?thesis
    unfolding lpm_split [OF A \<open>P + 8 \<le> W\<close>] by (simp add: first_some_append split: option.split)
qed

lemma findLeaf_step:
  assumes "node_ok W N root st" "W \<le> 8 * length bs"
  defines "i \<equiv> length (st_key st) div 8"
  shows "findLeaf st bs i = do {
     rest \<leftarrow> (case st_kid st (bs ! i) of None \<Rightarrow> Some []
       | Some c \<Rightarrow> findLeaf c bs (nat (pfx_bits (st_prefix c) sdiv 8)));
     Some ((case stride_get st (bs ! i) of None \<Rightarrow> [] | Some v \<Rightarrow> [(st_prefix st, v)]) @ rest) }"
proof -
  have "i < length bs" using node_okD(3,4) [OF assms(1)] assms(2) by (auto simp: i_def elim!: dvdE)
  then show ?thesis using node_okD(5) [OF assms(1)]
    by (subst findLeaf.simps)
      (cases "st_children st ! unat (bs ! i)"; simp add: rd_def getValAndChild_def stride_get_def st_kid_256 comp_def)
qed

lemma kid_index: "tree W N root st \<Longrightarrow> st_kid st b = Some c \<Longrightarrow> nat (pfx_bits (st_prefix c) sdiv 8) = length (st_key c) div 8"
  by (drule (1) tree_kid(1)) (simp add: node_okD(6) [OF tree_node])

lemma findLeaf_total:
  "tree W N root st \<Longrightarrow> W \<le> 8 * length bs \<Longrightarrow> \<exists>ms. findLeaf st bs (length (st_key st) div 8) = Some ms"
proof (induction rule: tree.induct)
  case (treeI root st)
  have t: "tree W N root st" by (rule tree.treeI) (use treeI in blast)+
  let ?b = "bs ! (length (st_key st) div 8)"
  show ?case
    using treeI.IH [OF _ treeI.prems, of ?b] kid_index [OF t, of ?b] findLeaf_step [OF treeI.hyps(1) treeI.prems]
    by (cases "st_kid st ?b") auto
qed

lemma lpm_off: "\<not> Sublist.prefix (st_key st) A \<Longrightarrow> lpm (tree_rt st) A = None"
  unfolding lpm_def by (rule first_some_all_None) (meson prefix_order.trans take_is_prefix tree_rt_off)

text \<open>The candidates in the table itself are the nine prefixes of the byte the walk reads.\<close>

lemma lpm_here:
  assumes st: "node_ok W N root st" and A: "length A = W" "Sublist.prefix (st_key st) A"
    and b: "word_bits (b :: byte) = take 8 (drop (length (st_key st)) A)"
    and below: "\<And>n. length (st_key st) + 8 < n \<Longrightarrow> n \<le> W \<Longrightarrow> tree_rt st (take n A) = f (take n A)"
  shows "lpm (tree_rt st) A =
    (case first_some (map (\<lambda>n. f (take n A)) (rev [length (st_key st) + 9..<Suc W])) of
       Some v \<Rightarrow> Some v | None \<Rightarrow> stride_get st b)"
proof -
  let ?P = "length (st_key st)"
  note W = node_width [OF st]
  have 1: "map (\<lambda>n. tree_rt st (take n A)) (rev [?P + 9..<Suc W]) = map (\<lambda>n. f (take n A)) (rev [?P + 9..<Suc W])"
    by (rule map_cong) (auto intro: below)
  have here: "tree_rt st (take (?P + (8 - n)) A) = stride_rt st (take (8 - n) (word_bits b))" for n
  proof -
    have "take (?P + (8 - n)) A = st_key st @ take (8 - n) (word_bits b)"
      using A(2) unfolding b by (auto simp: take_add prefix_take_eq min_def)
    then show ?thesis using tree_rt_here [of "take (8 - n) (word_bits b)" st] by simp
  qed
  have 3: "first_some (map (\<lambda>n. tree_rt st (take n A)) (rev [0..<?P])) = None"
    by (rule first_some_all_None) (auto intro!: tree_rt_off dest: prefix_length_le)
  show ?thesis
    unfolding lpm_split [OF A(1) W(2)] 1 here first_some_append 3 stride_get_rt [OF node_okD(1) [OF st]]
    by (simp split: option.split)
qed

lemma key_byte:
  assumes "node_ok W N root st" "addr_ok W a"
  shows "word_bits (AsSlice a ! (length (st_key st) div 8)) = take 8 (drop (length (st_key st)) (addr_bits a))"
  using AsSlice_bits(2) [OF assms(2), of "length (st_key st) div 8"] node_okD(3,4) [OF assms(1)] by simp

lemma take_below:
  assumes "Sublist.prefix P A" "word_bits (b :: byte) = take 8 (drop (length P) A)" "length P + 8 < n" "n \<le> length A"
  shows "\<exists>r. take n A = P @ word_bits b @ r \<and> r \<noteq> []"
proof -
  obtain r where r: "A = P @ r" using assms(1) by (auto simp: prefix_def)
  then have "take n A = P @ word_bits b @ take (n - length P - 8) (drop 8 r)"
    using assms(2,3) take_add [of 8 "n - length P - 8" r] by simp
  moreover have "take (n - length P - 8) (drop 8 r) \<noteq> []" using assms(3,4) r by simp
  ultimately show ?thesis by blast
qed

lemma lpm_step:
  assumes t: "tree W N root st" and a: "addr_ok W a" and P: "Sublist.prefix (st_key st) (addr_bits a)"
  defines "b \<equiv> AsSlice a ! (length (st_key st) div 8)"
  shows "lpm (tree_rt st) (addr_bits a) =
    (case (case st_kid st b of None \<Rightarrow> None | Some c \<Rightarrow> lpm (tree_rt c) (addr_bits a)) of
       Some v \<Rightarrow> Some v | None \<Rightarrow> stride_get st b)"
proof -
  let ?A = "addr_bits a" and ?P = "length (st_key st)"
  let ?f = "\<lambda>k. case st_kid st b of None \<Rightarrow> None | Some c \<Rightarrow> tree_rt c k"
  note st = tree_node [OF t] and A = addr_ok_len [OF a]
  have b: "word_bits b = take 8 (drop ?P ?A)" unfolding b_def by (rule key_byte [OF st a])
  have below: "tree_rt st (take n ?A) = ?f (take n ?A)" if "?P + 8 < n" "n \<le> W" for n
  proof -
    have "n \<le> length ?A" using that(2) A by simp
    from take_below [OF P b that(1) this]
    obtain r where r: "take n ?A = st_key st @ word_bits b @ r" "r \<noteq> []" by blast
    show ?thesis unfolding r(1) by (rule tree_rt_below [OF r(2)])
  qed
  have "first_some (map (\<lambda>n. ?f (take n ?A)) (rev [?P + 9..<Suc W])) =
      (case st_kid st b of None \<Rightarrow> None | Some c \<Rightarrow> lpm (tree_rt c) ?A)"
  proof (cases "st_kid st b")
    case None
    then show ?thesis by (simp add: first_some_all_None)
  next
    case (Some c)
    have "?P + 8 \<le> length (st_key c)" using tree_kid(2) [OF t Some] prefix_length_le by fastforce
    then show ?thesis using lpm_kid [OF tree_node [OF tree_kid(1) [OF t Some]] A] Some by simp
  qed
  then show ?thesis using lpm_here [OF st A P b below] by simp
qed

lemma findLeaf_lpm:
  "tree W N root st \<Longrightarrow> addr_ok W a \<Longrightarrow> findLeaf st (AsSlice a) (length (st_key st) div 8) = Some ms \<Longrightarrow>
     walkBack (rev ms) a = lpm (tree_rt st) (addr_bits a)"
proof (induction arbitrary: ms rule: tree.induct)
  case (treeI root st)
  have t: "tree W N root st" by (rule tree.treeI) (use treeI in blast)+
  let ?b = "AsSlice a ! (length (st_key st) div 8)"
  let ?here = "case stride_get st ?b of None \<Rightarrow> [] | Some v \<Rightarrow> [(st_prefix st, v)]"
  have w: "W \<le> 8 * length (AsSlice a)" using treeI.prems(1) by (auto elim!: addr_ok_cases)
  obtain rest where ms: "ms = ?here @ rest" and rest: "st_kid st ?b = None \<Longrightarrow> rest = []"
    "\<And>c. st_kid st ?b = Some c \<Longrightarrow> findLeaf c (AsSlice a) (length (st_key c) div 8) = Some rest"
    using treeI.prems(2) findLeaf_step [OF treeI.hyps(1) w] kid_index [OF t, of ?b]
    by (cases "st_kid st ?b") (auto simp: bind_eq_Some_conv)
  have IH: "walkBack (rev rest) a = (case st_kid st ?b of None \<Rightarrow> None | Some c \<Rightarrow> lpm (tree_rt c) (addr_bits a))"
    using rest treeI.IH [OF _ treeI.prems(1)] by (cases "st_kid st ?b") simp_all
  have con: "Contains (st_prefix st) a \<longleftrightarrow> Sublist.prefix (st_key st) (addr_bits a)"
    by (rule Contains_key [OF node_okD(2) [OF treeI.hyps(1)] treeI.prems(1)])
  show ?case
  proof (cases "Sublist.prefix (st_key st) (addr_bits a)")
    case True
    then show ?thesis unfolding lpm_step [OF t treeI.prems(1) True] ms
      by (simp add: walkBack_append IH con split: option.split)
  next
    case False
    have "lpm (tree_rt c) (addr_bits a) = None" if "st_kid st ?b = Some c" for c
      using tree_kid(2) [OF t that] False by (intro lpm_off) (meson append_prefixD prefix_order.trans)
    then show ?thesis unfolding lpm_off [OF False] ms
      using False by (simp add: walkBack_append IH con split: option.split)
  qed
qed

subsection \<open>Changing one child\<close>

text \<open>The invariant without the requirement that the table itself is not redundant.\<close>

definition tree0 :: "nat \<Rightarrow> nat \<Rightarrow> bool \<Rightarrow> 'v stride \<Rightarrow> bool" where
  "tree0 W N root st \<longleftrightarrow> node_ok W N root st \<and>
     (\<forall>b c. st_kid st b = Some c \<longrightarrow> tree W N False c \<and> Sublist.prefix (st_key st @ word_bits b) (st_key c))"

lemma tree_iff: "tree W N root st \<longleftrightarrow> tree0 W N root st \<and> (root \<or> useful st)"
  by (auto simp: tree0_def intro: tree.treeI elim: tree_elim)

text \<open>\<open>st'\<close> differs from \<open>st\<close> in the child at \<open>b\<close>, which is now \<open>x\<close>.\<close>

definition kid_upd :: "'v stride \<Rightarrow> byte \<Rightarrow> 'v stride option \<Rightarrow> 'v stride \<Rightarrow> bool" where
  "kid_upd st b x st' \<longleftrightarrow> st_prefix st' = st_prefix st \<and> st_entries st' = st_entries st \<and>
     st_routeRefs st' = st_routeRefs st \<and> length (st_children st') = length (st_children st) \<and>
     st_kid st' = (st_kid st)(b := x) \<and> unat (st_childRefs st') = card (st_kids st')"

lemma st_kid_upd:
  "length cs = 256 \<Longrightarrow> st_kid (Stride p es (cs[unat b := x]) rr cr) = (st_kid (Stride p' es' cs rr' cr'))(b := x)"
  by (rule ext) (auto simp: st_kid_def nth_list_update dest: unsigned_word_eqI)

lemma kids_upd:
  "st_kid st' = (st_kid st)(b := x) \<Longrightarrow> st_kids st' = (if x = None then st_kids st - {b} else insert b (st_kids st))"
  by (auto simp: st_kids_def)

lemma kid_upds:
  assumes "node_ok W N root st"
  shows "kid_upd st b (Some c) (setChild st b c)" "kid_upd st b None (deleteChild st b)"
    "st_kid st b \<noteq> None \<Longrightarrow> kid_upd st b (Some c) (replaceChild st b (Some c))"
proof -
  obtain p es cs rr cr where st: "st = Stride p es cs rr cr" by (cases st)
  have len: "length cs = 256" using node_okD(5) [OF assms] st by simp
  have cr: "unat cr = card (st_kids st)" using assms st by (simp add: node_ok_def)
  have kid: "st_kid st b = cs ! unat b" using len st by (simp add: st_kid_256)
  have mem: "b \<in> st_kids st \<longleftrightarrow> cs ! unat b \<noteq> None" using kid by (simp add: st_kids_def)
  have fin: "finite (st_kids st)" "card (st_kids st) \<le> 511" using st_kids_card [of st] by simp_all
  note upd = st_kid_upd [OF len, of _ _ b _ _ _ p es rr cr, folded st]
  note ks = kids_upd [OF upd]
  have inc: "unat (if cs ! unat b = None then cr + 1 else cr) = card (insert b (st_kids st))"
    using mem cr fin u16_inc [of cr] by (auto simp: insert_absorb)
  have dec: "unat (if cs ! unat b \<noteq> None then cr - 1 else cr) = card (st_kids st - {b})"
  proof (cases "b \<in> st_kids st")
    case True
    then have "0 < unat cr" using cr fin(1) card_gt_0_iff by fastforce
    then show ?thesis using True mem cr fin u16_dec [of cr] by simp
  qed (use mem cr in simp)
  show "kid_upd st b (Some c) (setChild st b c)"
    using st inc by (simp add: kid_upd_def upd ks)
  show "kid_upd st b None (deleteChild st b)"
    using st dec by (simp add: kid_upd_def upd ks)
  show "kid_upd st b (Some c) (replaceChild st b (Some c))" if "st_kid st b \<noteq> None"
    using st that mem kid cr by (simp add: kid_upd_def upd ks insert_absorb)
qed

lemma tree0_upd:
  assumes "tree0 W N root st" "N \<le> M" "kid_upd st b x st'"
    and "\<And>c. x = Some c \<Longrightarrow> tree W M False c \<and> Sublist.prefix (st_key st @ word_bits b) (st_key c)"
  shows "tree0 W M root st'"
proof -
  have "node_ok W M root st'"
    using assms(1-3) node_okD(5) [of W N root st]
    by (auto simp: tree0_def kid_upd_def node_ok_def stride_wf_def stride_rt_def intro: order_less_le_trans)
  then show ?thesis using assms tree_grow by (fastforce simp: tree0_def kid_upd_def split: if_splits)
qed

lemma tree_rt_upd:
  assumes "kid_upd st b x st'"
  shows "tree_rt st' k = (if \<exists>r. k = st_key st @ word_bits b @ r \<and> r \<noteq> []
    then case x of None \<Rightarrow> None | Some c \<Rightarrow> tree_rt c k else tree_rt st k)"
proof -
  have s: "st_prefix st' = st_prefix st" "stride_rt st' = stride_rt st" "st_kid st' = (st_kid st)(b := x)"
    using assms by (auto simp: kid_upd_def stride_rt_def fun_eq_iff)
  show ?thesis
  proof (cases rule: key_cases [of st k])
    case off
    then show ?thesis using tree_rt_off [of st k] tree_rt_off [of st' k] s(1) by auto
  next
    case (here r)
    then have "\<nexists>r'. k = st_key st @ word_bits b @ r' \<and> r' \<noteq> []" by auto
    then show ?thesis using tree_rt_here [OF here(2), of st] tree_rt_here [OF here(2), of st'] here(1) s by auto
  next
    case (below b' r)
    have "(\<exists>r'. k = st_key st @ word_bits b @ r' \<and> r' \<noteq> []) \<longleftrightarrow> b' = b" using below by auto
    moreover have "tree_rt st' k = (case (if b' = b then x else st_kid st b') of None \<Rightarrow> None | Some c \<Rightarrow> tree_rt c k)"
      using tree_rt_below [OF below(2), of st' b'] unfolding s below(1) by simp
    ultimately show ?thesis using tree_rt_below [OF below(2), of st b', folded below(1)] by simp
  qed
qed

end
