(* ===== verification/Art_Update.thy ===== *)
theory Art_Update
  imports Art_Tree
begin

section \<open>Insertion and deletion in the tree of stride tables\<close>

text \<open>
  \<open>insertLoop\<close> changes the routes of the tree at one key; the path-compression cases (new leaf, new
  intermediate table) are the cases of the proof. \<open>deleteWalk\<close> and \<open>cleanup\<close> remove one key, and the
  cleanup keeps every table below the root useful.
\<close>

subsection \<open>One stride\<close>

lemma allot_set: "set (allot es i old new) \<subseteq> insert new (set es)"
proof (induction es i old new rule: allot.induct)
  case (1 es idx old new)
  have e1: "set (es[idx := new]) \<subseteq> insert new (set es)" by (rule set_update_subset_insert)
  show ?case
  proof (cases "es ! idx \<noteq> old \<or> idx = 0 \<or> firstHostIndex \<le> idx")
    case True
    then show ?thesis using e1 by (subst allot.simps) (auto simp: Let_def)
  next
    case False
    then have c: "\<not> (es ! idx \<noteq> old \<or> idx = 0)" "\<not> firstHostIndex \<le> idx" by simp_all
    from "1.IH"(1) [OF c(1) refl c(2) refl] "1.IH"(2) [OF c(1) refl c(2) refl refl refl] e1 c
    show ?thesis by (subst allot.simps) (simp only: Let_def if_False, blast)
  qed
qed

lemma stride_ins_rt:
  assumes st: "node_ok W N root st" and n: "n \<le> 8" "n = 0 \<Longrightarrow> root"
  shows "\<exists>st'. stride_insert st b (int n) N v = Some st' \<and> node_ok W (Suc N) root st' \<and>
    0 < unat (st_routeRefs st') \<and> st_prefix st' = st_prefix st \<and> st_children st' = st_children st \<and>
    stride_rt st' = (stride_rt st)(take n (word_bits b) \<mapsto> v)"
proof -
  let ?k = "(b, int n)"
  have fresh: "stride_fresh st N" using st by (auto simp: node_ok_def stride_fresh_def)
  have key: "key_ok ?k" using n by (simp add: key_ok_def)
  obtain st' where s: "stride_insert st b (int n) N v = Some st'" "stride_wf st'"
      "st_prefix st' = st_prefix st" "st_children st' = st_children st" "st_childRefs st' = st_childRefs st"
      "routes (st_entries st') = (routes (st_entries st))(idx_of ?k \<mapsto> (N, v))"
    using stride_insert_law [OF node_okD(1) [OF st] key fresh, of v] by auto
  have rt: "stride_rt st' = (stride_rt st)(take n (word_bits b) \<mapsto> v)"
    using n s(6) by (auto simp: stride_rt_def fun_eq_iff idx_of_bits)
  have "idx_of ?k \<in> route_set (st_entries st')" using s(6) by (simp add: route_set_def)
  then have refs: "0 < unat (st_routeRefs st')"
    using s(2) route_set_finite(1) card_gt_0_iff by (fastforce simp: stride_wf_def)
  have "st_entries st' = allot (st_entries st) (idx_of ?k) (st_entries st ! idx_of ?k) (Some (N, v))"
    using s(1) prefixIndex_eq(1) [OF key] by (auto simp: stride_insert_def Let_def)
  then have "set (st_entries st') \<subseteq> insert (Some (N, v)) (set (st_entries st))" by (simp add: allot_set)
  then have below: "q < Suc N" if "Some (q, w) \<in> set (st_entries st')" for q w
    using that st by (fastforce simp: node_ok_def)
  have "st_kids st' = st_kids st" using s(4) by (simp add: st_kids_def st_kid_def)
  moreover have "root \<or> stride_rt st' [] = stride_rt st []"
  proof (cases "n = 0")
    case False
    then have "take n (word_bits b) \<noteq> []" using length_word_bits [of b] by (cases "word_bits b") auto
    then show ?thesis using rt by simp
  qed (use n(2) in simp)
  ultimately have "node_ok W (Suc N) root st'"
    using st s(2-5) below unfolding node_ok_def by auto
  then show ?thesis using s rt refs by blast
qed

lemma tree_rt_entries:
  assumes "st_prefix st' = st_prefix st" "st_kid st' = st_kid st" "stride_rt st' = (stride_rt st)(r := x)" "length r \<le> 8"
  shows "tree_rt st' = (tree_rt st)(st_key st @ r := x)"
proof
  fix k
  show "tree_rt st' k = ((tree_rt st)(st_key st @ r := x)) k"
  proof (cases rule: key_cases [of st k])
    case off
    then show ?thesis using tree_rt_off [of st k] tree_rt_off [of st' k] assms(1) by auto
  next
    case (here r')
    then show ?thesis using tree_rt_here [OF here(2), of st] tree_rt_here [OF here(2), of st'] assms by simp
  next
    case (below b' r')
    have "length r < length (word_bits b' @ r')" using below(2) assms(4) by (cases r') auto
    then have "k \<noteq> st_key st @ r" unfolding below(1) by (metis less_irrefl same_append_eq)
    moreover have "tree_rt st' k = tree_rt st k"
      using tree_rt_below [OF below(2), of st b', folded below(1)]
        tree_rt_below [OF below(2), of st' b', unfolded assms(1), folded below(1)] assms(2) by simp
    ultimately show ?thesis by simp
  qed
qed

lemma stride_ins_tree:
  assumes st: "tree0 W N root st" and n: "n \<le> 8" "n = 0 \<Longrightarrow> root"
  shows "\<exists>st'. stride_insert st b (int n) N v = Some st' \<and> tree W (Suc N) root st' \<and> st_prefix st' = st_prefix st \<and>
    tree_rt st' = (tree_rt st)(st_key st @ take n (word_bits b) \<mapsto> v)"
proof -
  obtain st' where s: "stride_insert st b (int n) N v = Some st'" "node_ok W (Suc N) root st'"
      "0 < unat (st_routeRefs st')" "st_prefix st' = st_prefix st" "st_children st' = st_children st"
      "stride_rt st' = (stride_rt st)(take n (word_bits b) \<mapsto> v)"
    using stride_ins_rt [of W N root st n b v] st n by (auto simp: tree0_def)
  have kid: "st_kid st' = st_kid st" using s(5) by (simp add: st_kid_def fun_eq_iff)
  have "tree0 W (Suc N) root st'" using st s(2,4) kid tree_grow [of W N False _ "Suc N"] unfolding tree0_def by force
  then have "tree W (Suc N) root st'" using s(3) by (simp add: tree_iff useful_def)
  moreover have "tree_rt st' = (tree_rt st)(st_key st @ take n (word_bits b) \<mapsto> v)"
    by (rule tree_rt_entries [OF s(4) kid s(6)]) simp
  ultimately show ?thesis using s(1,4) by blast
qed

subsection \<open>New tables\<close>

lemma newStride_rt: "stride_rt (newStride p) l = None"
proof -
  have "routes (replicate 512 None :: 'a ptr option list) i = None" for i
    by (simp add: routes_def hasPrefixRootedAt_iff node_def)
  then show ?thesis by (simp add: stride_rt_def newStride_def)
qed

lemma newStride_kid [simp]: "st_kid (newStride p) b = None"
  by (simp add: st_kid_def newStride_def)

lemma setPrefix_newStride [simp]: "setPrefix p (newStride q) = newStride p"
  by (simp add: newStride_def)

lemma newStride_prefix [simp]: "st_prefix (newStride p) = p"
  by (simp add: newStride_def)

lemma newStride_tree0:
  assumes "pfx_ok W p" "8 dvd length (pfx_key p)" "length (pfx_key p) < W"
  shows "tree0 W N False (newStride p :: 'v stride)"
proof -
  have "st_kids (newStride p :: 'v stride) = {}" by (simp add: st_kids_def)
  moreover have "st_entries (newStride p :: 'v stride) = replicate 512 None" "st_childRefs (newStride p :: 'v stride) = 0"
    by (simp_all add: newStride_def)
  ultimately show ?thesis using assms by (simp add: tree0_def node_ok_def newStride_wf newStride_rt)
qed

lemma newStride_tree_rt: "tree_rt (newStride p :: 'v stride) k = None"
proof (cases rule: key_cases [of "newStride p :: 'v stride" k])
  case (here r)
  then show ?thesis using tree_rt_here [OF here(2), of "newStride p :: 'v stride"] by (simp add: newStride_rt)
next
  case (below b r)
  then show ?thesis using tree_rt_below [OF below(2), of "newStride p :: 'v stride" b] by simp
qed (rule tree_rt_off)

text \<open>The parts of the key of a prefix that is being inserted.\<close>

lemma key_parts:
  assumes pfx: "pfx_ok W pfx" and K: "pfx_key pfx \<noteq> []"
  defines "i \<equiv> (length (pfx_key pfx) - 1) div 8"
  shows "8 * i < length (pfx_key pfx)" "length (pfx_key pfx) - 8 * i \<le> 8" "i < length (AsSlice (pfx_addr pfx))"
    "take (8 * i) (pfx_key pfx) @ take (length (pfx_key pfx) - 8 * i) (word_bits (AsSlice (pfx_addr pfx) ! i)) = pfx_key pfx"
proof -
  let ?K = "pfx_key pfx" and ?a = "pfx_addr pfx"
  have "0 < length ?K" using K by simp
  then show 1: "8 * i < length ?K" and 2: "length ?K - 8 * i \<le> 8" unfolding i_def by presburger+
  have a: "addr_ok W ?a" using pfx by (simp add: pfx_ok_def)
  have w: "8 * i < W" using 1 pfx_ok_len(3) [OF pfx] by simp
  show "i < length (AsSlice ?a)" by (rule AsSlice_bits(1) [OF a w])
  have "take (length ?K - 8 * i) (take 8 (drop (8 * i) (addr_bits ?a))) = drop (8 * i) ?K"
    using 1 2 by (simp add: pfx_ok_bits [OF pfx] min_def)
  then show "take (8 * i) ?K @ take (length ?K - 8 * i) (word_bits (AsSlice ?a ! i)) = ?K"
    by (simp add: AsSlice_bits(2) [OF a w])
qed

lemma new_leaf:
  assumes pfx: "pfx_ok W pfx" "pfx_key pfx \<noteq> []" and fsp: "pfx_ok W fsp" "pfx_key fsp = take (8 * i) (pfx_key pfx)"
    and i: "i = (length (pfx_key pfx) - 1) div 8"
  shows "\<exists>c. stride_insert (setPrefix fsp (newStride q)) (AsSlice (pfx_addr pfx) ! i) (int (length (pfx_key pfx) - 8 * i)) N v = Some c \<and>
    tree W (Suc N) False c \<and> st_key c = pfx_key fsp \<and> tree_rt c = [pfx_key pfx \<mapsto> v]"
proof -
  note parts = key_parts [OF pfx, folded i]
  have len: "length (pfx_key fsp) = 8 * i" using fsp(2) parts(1) by simp
  then have "tree0 W N False (newStride fsp :: 'a stride)"
    using fsp(1) parts(1) pfx_ok_len(3) [OF pfx(1)] by (intro newStride_tree0) simp_all
  moreover have "length (pfx_key pfx) - 8 * i \<noteq> 0" using parts(1) by simp
  ultimately obtain c where "stride_insert (newStride fsp) (AsSlice (pfx_addr pfx) ! i) (int (length (pfx_key pfx) - 8 * i)) N v = Some c"
    "tree W (Suc N) False c" "st_prefix c = fsp"
    "tree_rt c = (tree_rt (newStride fsp))(pfx_key fsp @ take (length (pfx_key pfx) - 8 * i) (word_bits (AsSlice (pfx_addr pfx) ! i)) \<mapsto> v)"
    using stride_ins_tree [of W N False "newStride fsp" "length (pfx_key pfx) - 8 * i" "AsSlice (pfx_addr pfx) ! i" v] parts(2) by auto
  then show ?thesis using parts(4) fsp(2) newStride_tree_rt [of fsp] by (auto simp: fun_eq_iff)
qed

lemma childPrefixOf_Some:
  assumes "node_ok W N root st"
  shows "\<exists>q. childPrefixOf (st_prefix st) b = Some q"
proof -
  have "addr_ok W (pfx_addr (st_prefix st))" using assms by (simp add: node_ok_def pfx_ok_def)
  moreover have "pfx_bits (st_prefix st) mod 8 = 0" "pfx_bits (st_prefix st) < int W"
    "nat (pfx_bits (st_prefix st) div 8) < W div 8"
    using node_okD(3,4,6) [OF assms] node_width(1) [OF assms] by (auto elim!: dvdE)
  ultimately show ?thesis by (elim addr_ok_cases) (simp_all add: childPrefixOf_def Let_def wr_def)
qed

lemma getOrCreateChild_new:
  assumes "node_ok W N root st" "st_kid st b = None"
  shows "\<exists>q. getOrCreateChild st b = Some (newStride q, True, setChild st b (newStride q))"
proof -
  obtain p es cs rr cr where st: "st = Stride p es cs rr cr" by (cases st)
  obtain q where "childPrefixOf (st_prefix st) b = Some q" using childPrefixOf_Some [OF assms(1)] by blast
  then show ?thesis using assms(2) node_okD(5) [OF assms(1)] st by (auto simp: getOrCreateChild_def st_kid_256 Let_def)
qed

lemma replace_setChild: "replaceChild (setChild st b c) b (Some c') = setChild st b c'"
  by (cases st) simp

subsection \<open>Where the paths part\<close>

lemma lcp_take: "take (lcp xs ys) xs = take (lcp xs ys) ys"
  by (induction xs ys rule: longest_common_prefix.induct) auto

lemma lcp_nth: "lcp xs ys < length xs \<Longrightarrow> lcp xs ys < length ys \<Longrightarrow> xs ! lcp xs ys \<noteq> ys ! lcp xs ys"
  by (induction xs ys rule: longest_common_prefix.induct) auto

lemma lcp_ge: "Sublist.prefix R xs \<Longrightarrow> Sublist.prefix R ys \<Longrightarrow> length R \<le> lcp xs ys"
  by (rule prefix_length_le [OF longest_common_prefix_max_prefix])

lemma split_facts:
  assumes R: "Sublist.prefix R Q" "Sublist.prefix R K" "8 dvd length R" "length R < length K"
    and Q: "\<not> strict_prefix Q K"
  defines "d \<equiv> split_at Q K"
  shows "length R \<le> 8 * d" "8 * d < length K" "8 * d < length Q" "take (8 * d) Q = take (8 * d) K"
    "8 * d + 8 < length K \<Longrightarrow> take 8 (drop (8 * d) Q) \<noteq> take 8 (drop (8 * d) K)"
proof -
  define c where "c = lcp Q K"
  define e where "e = (if c = min (length Q) (length K) then min (length Q) (length K) - 1 else c)"
  have d: "d = e div 8" by (simp add: d_def split_at_def e_def c_def Let_def)
  have eq: "take c Q = take c K" unfolding c_def by (rule lcp_take)
  have cle: "c \<le> length Q" "c \<le> length K" unfolding c_def
    by (simp_all add: longest_common_prefix_prefix1 longest_common_prefix_prefix2 prefix_length_le)
  have "c \<noteq> length Q \<or> length K \<le> length Q"
    using eq cle Q by (auto simp: strict_prefix_def prefix_take_eq)
  then have case1: "length K \<le> length Q" if "c = min (length Q) (length K)" using that by linarith
  have e1: "e = length K - 1" if "c = min (length Q) (length K)" using case1 [OF that] that by (simp add: e_def min_def)
  have e2: "e = c" "c < length Q" "c < length K" if "c \<noteq> min (length Q) (length K)"
    using that cle by (simp_all add: e_def min_def split: if_splits)
  have "length R \<le> c" unfolding c_def by (rule lcp_ge [OF R(1,2)])
  then have "length R \<le> e" using R(4) e1 e2(1) by (cases "c = min (length Q) (length K)") linarith+
  then show "length R \<le> 8 * d" using R(3) unfolding d by (auto elim!: dvdE)
  have ec: "e \<le> c" "e < length K" "e < length Q" using R(4) case1 cle e1 e2
    by (cases "c = min (length Q) (length K)"; linarith)+
  moreover have "8 * d \<le> e" unfolding d by simp
  ultimately show "8 * d < length K" "8 * d < length Q" by simp_all
  have "take (8 * d) (take c Q) = take (8 * d) (take c K)" using eq by simp
  then show "take (8 * d) Q = take (8 * d) K" using \<open>8 * d \<le> e\<close> ec(1) by (simp add: min_def split: if_splits)
  show "take 8 (drop (8 * d) Q) \<noteq> take 8 (drop (8 * d) K)" if "8 * d + 8 < length K"
  proof
    assume same: "take 8 (drop (8 * d) Q) = take 8 (drop (8 * d) K)"
    have "e < 8 * d + 8" unfolding d by presburger
    then have "c \<noteq> min (length Q) (length K)" using that e1 by linarith
    note e = e2 [OF this]
    then have "Q ! c \<noteq> K ! c" unfolding c_def using lcp_nth by blast
    moreover have "take 8 (drop (8 * d) Q) ! (c - 8 * d) = Q ! c" "take 8 (drop (8 * d) K) ! (c - 8 * d) = K ! c"
      using e \<open>e < 8 * d + 8\<close> \<open>8 * d \<le> e\<close> by simp_all
    ultimately show False using same by simp
  qed
qed

lemma tree_rt_slot:
  assumes "tree W N False c" "Sublist.prefix R (st_key c)" "\<nexists>r. k = R @ r \<and> r \<noteq> []"
  shows "tree_rt c k = None"
proof (cases "Sublist.prefix (st_key c) k")
  case True
  then have "k = st_key c" using assms(2,3) by (auto simp: prefix_def)
  then show ?thesis using tree_rt_here [of "[]" c] tree_node [OF assms(1)] by (simp add: node_ok_def)
qed (rule tree_rt_off)

text \<open>Changing the route of one key below the child at \<open>b\<close>.\<close>

lemma kid_rt_upd:
  assumes "kid_upd st b (Some c') st'" "K = st_key st @ word_bits b @ r" "r \<noteq> []"
    and "tree_rt c' = (case st_kid st b of None \<Rightarrow> \<lambda>_. None | Some c \<Rightarrow> tree_rt c)(K := x)"
  shows "tree_rt st' = (tree_rt st)(K := x)"
proof
  fix k
  show "tree_rt st' k = ((tree_rt st)(K := x)) k"
  proof (cases "\<exists>r. k = st_key st @ word_bits b @ r \<and> r \<noteq> []")
    case True
    then obtain r' where r': "k = st_key st @ word_bits b @ r'" "r' \<noteq> []" by blast
    have "tree_rt st k = (case st_kid st b of None \<Rightarrow> None | Some c \<Rightarrow> tree_rt c k)"
      using tree_rt_below [OF r'(2), of st b, folded r'(1)] .
    then show ?thesis using tree_rt_upd [OF assms(1), of k] True assms(4) by (cases "st_kid st b") auto
  next
    case False
    then have "k \<noteq> K" using assms(2,3) by blast
    then show ?thesis using tree_rt_upd [OF assms(1), of k] False by simp
  qed
qed

subsection \<open>Insertion\<close>

text \<open>What \<open>Insert\<close> computes before its loop: the index of the last byte, the bits left for it, the prefix of the last stride.\<close>

definition insert_args :: "nat \<Rightarrow> prefix \<Rightarrow> nat \<Rightarrow> prefix \<Rightarrow> bool" where
  "insert_args W pfx i fsp \<longleftrightarrow> pfx_ok W pfx \<and> pfx_key pfx \<noteq> [] \<and> i = (length (pfx_key pfx) - 1) div 8 \<and>
     pfx_ok W fsp \<and> pfx_key fsp = take (8 * i) (pfx_key pfx)"

abbreviation last_byte :: "prefix \<Rightarrow> nat \<Rightarrow> byte" where
  "last_byte pfx i \<equiv> AsSlice (pfx_addr pfx) ! i"

abbreviation last_bits :: "prefix \<Rightarrow> nat \<Rightarrow> int" where
  "last_bits pfx i \<equiv> int (length (pfx_key pfx) - 8 * i)"

lemma last_stride:
  assumes "8 dvd m" "m < l" "l \<le> m + 8"
  shows "8 * ((l - 1) div 8) = (m :: nat)"
  using assms by (auto elim!: dvdE)

lemma last_stride_ge: "8 dvd m \<Longrightarrow> m < l \<Longrightarrow> m \<le> 8 * ((l - 1) div 8)" for m l :: nat
  by (auto elim!: dvdE)

lemma insert_here:
  assumes st: "tree0 W N root st" and args: "insert_args W pfx i fsp"
    and K: "Sublist.prefix (st_key st) (pfx_key pfx)" "length (st_key st) < length (pfx_key pfx)"
      "length (pfx_key pfx) \<le> length (st_key st) + 8"
  shows "\<exists>st'. stride_insert st (last_byte pfx i) (last_bits pfx i) N v = Some st' \<and> tree W (Suc N) root st' \<and>
    st_prefix st' = st_prefix st \<and> tree_rt st' = (tree_rt st)(pfx_key pfx \<mapsto> v)"
proof -
  have node: "node_ok W N root st" using st by (simp add: tree0_def)
  have i: "8 * i = length (st_key st)"
    using last_stride [OF node_okD(3) [OF node] K(2,3)] args by (simp add: insert_args_def)
  have parts: "take (8 * i) (pfx_key pfx) @ take (length (pfx_key pfx) - 8 * i) (word_bits (last_byte pfx i)) = pfx_key pfx"
    using key_parts(4) [of W pfx] args by (auto simp: insert_args_def)
  have "take (8 * i) (pfx_key pfx) = st_key st" using K(1) i by (simp add: prefix_take_eq)
  then show ?thesis
    using stride_ins_tree [OF st, of "length (pfx_key pfx) - 8 * i" "last_byte pfx i" v] K i parts by simp
qed

lemma insert_new_child:
  assumes st: "tree0 W N root st" and args: "insert_args W pfx i fsp" and kid: "st_kid st b = None"
    and K: "pfx_key pfx = st_key st @ word_bits b @ r" "r \<noteq> []"
  shows "\<exists>child created st1 st'. getOrCreateChild st b = Some (child, created, st1) \<and> created \<and>
    insertNewChild st1 b child fsp (last_byte pfx i) (last_bits pfx i) N v = Some st' \<and> tree0 W (Suc N) root st' \<and>
    st_prefix st' = st_prefix st \<and> st_routeRefs st' = st_routeRefs st \<and> st_kids st' = insert b (st_kids st) \<and>
    tree_rt st' = (tree_rt st)(pfx_key pfx \<mapsto> v)"
proof -
  let ?K = "pfx_key pfx"
  have node: "node_ok W N root st" using st by (simp add: tree0_def)
  obtain q where q: "getOrCreateChild st b = Some (newStride q, True, setChild st b (newStride q))"
    using getOrCreateChild_new [OF node kid] by blast
  have pfx: "pfx_ok W pfx" "?K \<noteq> []" "i = (length ?K - 1) div 8" "pfx_ok W fsp" "pfx_key fsp = take (8 * i) ?K"
    using args by (simp_all add: insert_args_def)
  obtain c where c: "stride_insert (setPrefix fsp (newStride q)) (last_byte pfx i) (last_bits pfx i) N v = Some c"
      "tree W (Suc N) False c" "st_key c = pfx_key fsp" "tree_rt c = [?K \<mapsto> v]"
    using new_leaf [OF pfx(1,2,4,5,3), of q N v] by blast
  have "length (st_key st) + 8 \<le> 8 * i"
    unfolding pfx(3) by (rule last_stride_ge) (use node_okD(3) [OF node] K in auto)
  then have fsp: "Sublist.prefix (st_key st @ word_bits b) (st_key c)"
    using c(3) pfx(5) K(1) by (auto simp: prefix_take_eq)
  let ?st' = "setChild st b c"
  have upd: "kid_upd st b (Some c) ?st'" by (rule kid_upds(1) [OF node])
  have "insertNewChild (setChild st b (newStride q)) b (newStride q) fsp (last_byte pfx i) (last_bits pfx i) N v = Some ?st'"
    using c(1) by (simp add: insertNewChild_def replace_setChild)
  moreover have "tree0 W (Suc N) root ?st'" by (rule tree0_upd [OF st _ upd]) (use c(2) fsp in auto)
  moreover have "tree_rt ?st' = (tree_rt st)(?K \<mapsto> v)" by (rule kid_rt_upd [OF upd K]) (use kid c(4) in simp)
  moreover have "st_prefix ?st' = st_prefix st" "st_routeRefs ?st' = st_routeRefs st" "st_kids ?st' = insert b (st_kids st)"
    using upd kids_upd [of ?st' st b "Some c"] by (simp_all add: kid_upd_def)
  ultimately show ?thesis using q by blast
qed

text \<open>A new table between a child and its parent: the routes are those of the child.\<close>

lemma intermediate:
  assumes c: "tree W N False c" and ip: "pfx_ok W ip" "pfx_key ip = take (8 * d) (st_key c)" "8 * d < length (st_key c)"
    and x: "word_bits x = take 8 (drop (8 * d) (addr_bits (pfx_addr (st_prefix c))))"
  defines "mid \<equiv> setChild (newStride ip) x c"
  shows "tree0 W N False mid" "st_prefix mid = ip" "st_kids mid = {x}" "st_kid mid = [x \<mapsto> c]" "tree_rt mid = tree_rt c"
    "word_bits x = take 8 (drop (8 * d) (st_key c))"
proof -
  let ?new = "newStride ip :: 'a stride"
  note node = tree_node [OF c]
  have len: "length (pfx_key ip) = 8 * d" "8 * d + 8 \<le> length (st_key c)"
    using ip(2,3) node_okD(3) [OF node] by (auto elim!: dvdE)
  have new: "tree0 W N False ?new"
    using len node_okD(4) [OF node] by (intro newStride_tree0 [OF ip(1)]) simp_all
  then have "node_ok W N False ?new" by (simp add: tree0_def)
  from kid_upds(1) [OF this] have upd: "kid_upd ?new x (Some c) mid" unfolding mid_def .
  show wx: "word_bits x = take 8 (drop (8 * d) (st_key c))"
    using x len(2) by (simp add: pfx_ok_bits [OF node_okD(2) [OF node]])
  have "pfx_key ip @ word_bits x = take (8 * d + 8) (st_key c)" unfolding wx ip(2) by (simp add: take_add)
  then have slot: "Sublist.prefix (pfx_key ip @ word_bits x) (st_key c)" by (simp add: take_is_prefix)
  show "tree0 W N False mid" by (rule tree0_upd [OF new _ upd]) (use c slot in auto)
  show "st_prefix mid = ip" using upd by (simp add: kid_upd_def)
  show kid: "st_kid mid = [x \<mapsto> c]" using upd by (auto simp: kid_upd_def)
  show "st_kids mid = {x}" using kid by (auto simp: st_kids_def)
  show "tree_rt mid = tree_rt c"
  proof
    fix k
    show "tree_rt mid k = tree_rt c k"
      using tree_rt_upd [OF upd, of k] tree_rt_slot [OF c slot, of k] newStride_tree_rt [of ip k]
      by (auto split: if_splits)
  qed
qed

lemma insert_split:
  assumes c: "tree W N False c" and args: "insert_args W pfx i fsp"
    and R: "Sublist.prefix R (st_key c)" "Sublist.prefix R (pfx_key pfx)" "8 dvd length R" "length R < length (pfx_key pfx)"
    and Q: "\<not> strict_prefix (st_key c) (pfx_key pfx)"
  shows "\<exists>ip x y inter'. computePrefixSplit (st_prefix c) pfx = Some (ip, x, y) \<and>
    (if pfx_bits pfx - pfx_bits ip \<le> 8 then stride_insert (setChild (newStride ip) x c) (last_byte pfx i) (last_bits pfx i) N v = Some inter'
     else \<exists>child created inter1. getOrCreateChild (setChild (newStride ip) x c) y = Some (child, created, inter1) \<and> created \<and>
       insertNewChild inter1 y child fsp (last_byte pfx i) (last_bits pfx i) N v = Some inter') \<and>
    tree W (Suc N) False inter' \<and> Sublist.prefix R (st_key inter') \<and> tree_rt inter' = (tree_rt c)(pfx_key pfx \<mapsto> v)"
proof -
  let ?K = "pfx_key pfx" and ?Q = "st_key c"
  define d where "d = split_at ?Q ?K"
  note sf = split_facts [OF R Q, folded d_def]
  have pfx: "pfx_ok W pfx" "?K \<noteq> []" using args by (simp_all add: insert_args_def)
  have "?Q \<noteq> []" using sf(3) by auto
  from computePrefixSplit_key [OF node_okD(2) [OF tree_node [OF c]] this pfx, folded d_def]
  obtain ip x y where s: "computePrefixSplit (st_prefix c) pfx = Some (ip, x, y)" "pfx_ok W ip" "pfx_key ip = take (8 * d) ?Q"
    "word_bits x = take 8 (drop (8 * d) (addr_bits (pfx_addr (st_prefix c))))"
    "word_bits y = take 8 (drop (8 * d) (addr_bits (pfx_addr pfx)))" by blast
  let ?inter = "setChild (newStride ip) x c"
  note inter = intermediate [OF c s(2,3) sf(3) s(4)]
  have len: "length (pfx_key ip) = 8 * d" using s(3) sf(3) by simp
  have ipK: "pfx_key ip = take (8 * d) ?K" using s(3) sf(4) by simp
  have bits: "pfx_bits pfx - pfx_bits ip \<le> 8 \<longleftrightarrow> length ?K \<le> 8 * d + 8"
    using pfx_ok_len(2) [OF pfx(1)] pfx_ok_len(2) [OF s(2)] len by auto
  have R': "Sublist.prefix R (pfx_key ip)" using R(2) sf(1,2) ipK by (auto simp: prefix_take_eq min_def)
  show ?thesis
  proof (cases "length ?K \<le> 8 * d + 8")
    case True
    have "Sublist.prefix (st_key ?inter) ?K" using inter(2) ipK by (simp add: take_is_prefix)
    then obtain inter' where "stride_insert ?inter (last_byte pfx i) (last_bits pfx i) N v = Some inter'"
        "tree W (Suc N) False inter'" "st_prefix inter' = ip" "tree_rt inter' = (tree_rt c)(?K \<mapsto> v)"
      using insert_here [OF inter(1) args, of v] sf(2) len True inter(2,5) by auto
    then show ?thesis using s(1) R' bits True by auto
  next
    case False
    have wy: "word_bits y = take 8 (drop (8 * d) ?K)" using s(5) False by (simp add: pfx_ok_bits [OF pfx(1)])
    have "x \<noteq> y" using sf(5) False inter(6) wy by auto
    have K: "?K = st_key ?inter @ word_bits y @ drop (8 * d + 8) ?K"
      using append_take_drop_id [of "8 * d + 8" ?K] unfolding inter(2) ipK wy by (simp add: take_add)
    have "st_kid ?inter y = None" using inter(4) \<open>x \<noteq> y\<close> by simp
    from insert_new_child [OF inter(1) args this K, of v] False
    obtain child created inter1 inter' where n: "getOrCreateChild ?inter y = Some (child, created, inter1)" "created"
        "insertNewChild inter1 y child fsp (last_byte pfx i) (last_bits pfx i) N v = Some inter'"
        "tree0 W (Suc N) False inter'" "st_prefix inter' = st_prefix ?inter" "st_kids inter' = insert y (st_kids ?inter)"
        "tree_rt inter' = (tree_rt ?inter)(?K \<mapsto> v)" by auto
    have "card (st_kids inter') = 2" using n(6) inter(3) \<open>x \<noteq> y\<close> by simp
    then have "tree W (Suc N) False inter'" using n(4) by (simp add: tree_iff useful_def)
    then show ?thesis using s(1) R' bits False n inter(2,5) by auto
  qed
qed

lemma tree_upd:
  assumes "tree W N root st" "N \<le> M" "kid_upd st b (Some c) st'" "tree W M False c"
    and "Sublist.prefix (st_key st @ word_bits b) (st_key c)"
  shows "tree W M root st'"
proof -
  have "st_kids st \<subseteq> st_kids st'" using assms(3) by (auto simp: kid_upd_def kids_upd [where x = "Some c"])
  then have "card (st_kids st) \<le> card (st_kids st')" by (rule card_mono [rotated]) simp
  then have "useful st \<Longrightarrow> useful st'" using assms(3) by (auto simp: useful_def kid_upd_def)
  then show ?thesis using assms tree0_upd [of W N root st M b "Some c" st'] by (auto simp: tree_iff)
qed

text \<open>The reads of one round of the loop, and where the key goes on when it does not end in this table.\<close>

lemma insert_round:
  assumes node: "node_ok W N root st" and args: "insert_args W pfx i fsp" and P: "strict_prefix (st_key st) (pfx_key pfx)"
  defines "bs \<equiv> AsSlice (pfx_addr pfx)"
  defines "b \<equiv> bs ! (length (st_key st) div 8)"
  shows "rd bs i = Some (last_byte pfx i)" "rd bs (length (st_key st) div 8) = Some b"
    "pfx_bits pfx - pfx_bits (st_prefix st) \<le> 8 \<longleftrightarrow> length (pfx_key pfx) \<le> length (st_key st) + 8"
    "\<not> length (pfx_key pfx) \<le> length (st_key st) + 8 \<Longrightarrow> \<exists>r. pfx_key pfx = st_key st @ word_bits b @ r \<and> r \<noteq> []"
proof -
  let ?K = "pfx_key pfx" and ?P = "length (st_key st)"
  have pfx: "pfx_ok W pfx" "?K \<noteq> []" "i = (length ?K - 1) div 8" using args by (simp_all add: insert_args_def)
  then have a: "addr_ok W (pfx_addr pfx)" by (simp add: pfx_ok_def)
  show "rd bs i = Some (last_byte pfx i)" using key_parts(3) [OF pfx(1,2)] pfx(3) by (simp add: rd_def bs_def)
  show "rd bs (?P div 8) = Some b"
    using AsSlice_bits(1) [OF a, of "?P div 8"] node_okD(3,4) [OF node] by (simp add: rd_def bs_def b_def)
  show "pfx_bits pfx - pfx_bits (st_prefix st) \<le> 8 \<longleftrightarrow> length ?K \<le> ?P + 8"
    using pfx_ok_len(2) [OF pfx(1)] node_okD(6) [OF node] by auto
  show "\<exists>r. ?K = st_key st @ word_bits b @ r \<and> r \<noteq> []" if "\<not> length ?K \<le> ?P + 8"
  proof (rule exI [of _ "drop (?P + 8) ?K"], rule conjI)
    have "word_bits b = take 8 (drop ?P ?K)"
      using key_byte [OF node a] that by (simp add: pfx_ok_bits [OF pfx(1)] b_def bs_def)
    moreover have "take ?P ?K = st_key st" using P by (simp add: prefix_take_eq strict_prefix_def)
    ultimately have "st_key st @ word_bits b = take (?P + 8) ?K" by (simp add: take_add)
    then show "?K = st_key st @ word_bits b @ drop (?P + 8) ?K" by (metis append.assoc append_take_drop_id)
  qed (use that in simp)
qed

text \<open>The result of a loop: the tree with one route changed.\<close>

definition route_set_to :: "nat \<Rightarrow> nat \<Rightarrow> bool \<Rightarrow> 'v stride \<Rightarrow> bool list \<Rightarrow> 'v option \<Rightarrow> 'v stride option \<Rightarrow> bool" where
  "route_set_to W M root st K x res \<longleftrightarrow>
     (\<exists>st'. res = Some st' \<and> tree W M root st' \<and> st_prefix st' = st_prefix st \<and> tree_rt st' = (tree_rt st)(K := x))"

lemma route_set_to_kid:
  assumes t: "tree W N root st" "N \<le> M" and kid: "st_kid st b = Some c" and K: "K = st_key st @ word_bits b @ r" "r \<noteq> []"
    and upd: "kid_upd st b (Some c') st'" and c': "tree W M False c'" "Sublist.prefix (st_key st @ word_bits b) (st_key c')"
      "tree_rt c' = (tree_rt c)(K := x)"
  shows "route_set_to W M root st K x (Some st')"
proof -
  have "tree W M root st'" by (rule tree_upd [OF t upd c'(1,2)])
  moreover have "tree_rt st' = (tree_rt st)(K := x)" by (rule kid_rt_upd [OF upd K]) (simp add: kid c'(3))
  ultimately show ?thesis using upd by (simp add: route_set_to_def kid_upd_def)
qed

abbreviation insert_at :: "'v stride \<Rightarrow> prefix \<Rightarrow> nat \<Rightarrow> prefix \<Rightarrow> nat \<Rightarrow> 'v \<Rightarrow> 'v stride option" where
  "insert_at st pfx i fsp N v \<equiv> insertLoop st pfx (AsSlice (pfx_addr pfx)) fsp i (last_bits pfx i) N v
     (length (st_key st) div 8) (pfx_bits pfx - pfx_bits (st_prefix st))"

lemmas insert_at_step = insertLoop.simps [of st pfx "AsSlice (pfx_addr pfx)" fsp i "last_bits pfx i" N v
  "length (st_key st) div 8" "pfx_bits pfx - pfx_bits (st_prefix st)"] for st pfx fsp i N v

lemma insert_at_new:
  assumes t: "tree W N root st" and args: "insert_args W pfx i fsp" and P: "strict_prefix (st_key st) (pfx_key pfx)"
    and K: "\<not> length (pfx_key pfx) \<le> length (st_key st) + 8"
    and kid: "st_kid st (AsSlice (pfx_addr pfx) ! (length (st_key st) div 8)) = None"
  shows "route_set_to W (Suc N) root st (pfx_key pfx) (Some v) (insert_at st pfx i fsp N v)"
proof -
  let ?b = "AsSlice (pfx_addr pfx) ! (length (st_key st) div 8)"
  note rnd = insert_round [OF tree_node [OF t] args P]
  obtain r where r: "pfx_key pfx = st_key st @ word_bits ?b @ r" "r \<noteq> []" using rnd(4) [OF K] by blast
  from insert_new_child [of W N root st, OF _ args kid r, of v] t
  obtain child created st1 st' where "getOrCreateChild st ?b = Some (child, created, st1)"
      "insertNewChild st1 ?b child fsp (last_byte pfx i) (last_bits pfx i) N v = Some st'"
      "tree0 W (Suc N) root st'" "st_prefix st' = st_prefix st" "st_routeRefs st' = st_routeRefs st"
      "st_kids st' = insert ?b (st_kids st)" "tree_rt st' = (tree_rt st)(pfx_key pfx \<mapsto> v)" by (auto simp: tree_iff)
  moreover have "card (st_kids st) \<le> card (insert ?b (st_kids st))" by (rule card_mono) auto
  ultimately show ?thesis using t kid K rnd(1-3) node_okD(5) [OF tree_node [OF t]]
    by (subst insert_at_step) (auto simp: tree_iff useful_def route_set_to_def st_kid_256)
qed

lemma insert_at_wrong_turn:
  assumes t: "tree W N root st" and args: "insert_args W pfx i fsp" and P: "strict_prefix (st_key st) (pfx_key pfx)"
    and K: "\<not> length (pfx_key pfx) \<le> length (st_key st) + 8"
    and kid: "st_kid st (AsSlice (pfx_addr pfx) ! (length (st_key st) div 8)) = Some c"
    and off: "\<not> strict_prefix (st_key c) (pfx_key pfx)"
  shows "route_set_to W (Suc N) root st (pfx_key pfx) (Some v) (insert_at st pfx i fsp N v)"
proof -
  let ?b = "AsSlice (pfx_addr pfx) ! (length (st_key st) div 8)" and ?K = "pfx_key pfx"
  note node = tree_node [OF t]
  note rnd = insert_round [OF node args P] and c = tree_kid [OF t kid]
  obtain r where r: "?K = st_key st @ word_bits ?b @ r" "r \<noteq> []" using rnd(4) [OF K] by blast
  have "?K = (st_key st @ word_bits ?b) @ r" using r(1) by simp
  then have R: "Sublist.prefix (st_key st @ word_bits ?b) ?K" by (rule prefixI)
  have R8: "8 dvd length (st_key st @ word_bits ?b)" "length (st_key st @ word_bits ?b) < length ?K"
    using node_okD(3) [OF node] K by simp_all
  have no: "\<not> prefixStrictlyContains (st_prefix c) pfx"
    using off args by (simp add: insert_args_def strictlyContains_key [OF node_okD(2) [OF tree_node [OF c(1)]]])
  from insert_split [OF c(1) args c(2) R R8 off, of v]
  obtain ip x y inter' where i: "computePrefixSplit (st_prefix c) pfx = Some (ip, x, y)"
    "if pfx_bits pfx - pfx_bits ip \<le> 8 then stride_insert (setChild (newStride ip) x c) (last_byte pfx i) (last_bits pfx i) N v = Some inter'
     else \<exists>child created inter1. getOrCreateChild (setChild (newStride ip) x c) y = Some (child, created, inter1) \<and> created \<and>
       insertNewChild inter1 y child fsp (last_byte pfx i) (last_bits pfx i) N v = Some inter'"
    "tree W (Suc N) False inter'" "Sublist.prefix (st_key st @ word_bits ?b) (st_key inter')"
    "tree_rt inter' = (tree_rt c)(?K \<mapsto> v)" by blast
  have "insert_at st pfx i fsp N v = Some (setChild st ?b inter')"
    using kid K rnd(1-3) node_okD(5) [OF node] no i(1,2)
    by (subst insert_at_step) (auto simp: st_kid_256 Let_def split: if_splits)
  moreover have "route_set_to W (Suc N) root st ?K (Some v) (Some (setChild st ?b inter'))"
    by (rule route_set_to_kid [OF t _ kid r kid_upds(1) [OF node] i(3,4,5)]) simp
  ultimately show ?thesis by simp
qed

lemma insert_at_tree:
  "tree W N root st \<Longrightarrow> insert_args W pfx i fsp \<Longrightarrow> strict_prefix (st_key st) (pfx_key pfx) \<Longrightarrow>
     route_set_to W (Suc N) root st (pfx_key pfx) (Some v) (insert_at st pfx i fsp N v)"
proof (induction rule: tree.induct)
  case (treeI root st)
  let ?b = "AsSlice (pfx_addr pfx) ! (length (st_key st) div 8)" and ?K = "pfx_key pfx"
  have t: "tree W N root st" by (rule tree.treeI) (use treeI in blast)+
  note node = treeI.hyps(1) and args = treeI.prems(1)
  note rnd = insert_round [OF node treeI.prems]
  consider (here) "length ?K \<le> length (st_key st) + 8" | (new) "\<not> length ?K \<le> length (st_key st) + 8" "st_kid st ?b = None"
    | (off) c where "\<not> length ?K \<le> length (st_key st) + 8" "st_kid st ?b = Some c" "\<not> strict_prefix (st_key c) ?K"
    | (on) c where "\<not> length ?K \<le> length (st_key st) + 8" "st_kid st ?b = Some c" "strict_prefix (st_key c) ?K"
    by (cases "st_kid st ?b") blast+
  then show ?case
  proof cases
    case here
    then show ?thesis
      using insert_here [of W N root st pfx i fsp v] t treeI.prems rnd(1-3) prefix_length_less [OF treeI.prems(2)]
      by (subst insert_at_step) (auto simp: tree_iff route_set_to_def strict_prefix_def)
  next
    case new
    then show ?thesis by (rule insert_at_new [OF t treeI.prems])
  next
    case off
    then show ?thesis by (rule insert_at_wrong_turn [OF t treeI.prems])
  next
    case on
    note c = tree_kid [OF t on(2)]
    obtain r where r: "?K = st_key st @ word_bits ?b @ r" "r \<noteq> []" using rnd(4) [OF on(1)] by blast
    have yes: "prefixStrictlyContains (st_prefix c) pfx"
      using on(3) args by (simp add: insert_args_def strictlyContains_key [OF node_okD(2) [OF tree_node [OF c(1)]]])
    obtain c' where c': "insert_at c pfx i fsp N v = Some c'" "tree W (Suc N) False c'" "st_prefix c' = st_prefix c"
        "tree_rt c' = (tree_rt c)(?K \<mapsto> v)"
      using treeI.IH [OF on(2) args on(3)] by (auto simp: route_set_to_def)
    have "insert_at st pfx i fsp N v = Some (replaceChild st ?b (Some c'))"
      using on rnd(1-3) node_okD(5) [OF node] yes c'(1) kid_index [OF t on(2)]
      by (subst insert_at_step) (simp add: st_kid_256)
    moreover have "route_set_to W (Suc N) root st ?K (Some v) (Some (replaceChild st ?b (Some c')))"
      by (rule route_set_to_kid [OF t _ on(2) r kid_upds(3) [OF node] c'(2) _ c'(4)]) (use on(2) c(2) c'(3) in simp_all)
    ultimately show ?thesis by simp
  qed
qed

subsection \<open>Deletion from one table\<close>

lemma stride_del_rt:
  assumes st: "node_ok W N root st" and n: "n \<le> 8"
  shows "\<exists>st'. stride_delete st b (int n) = Some (stride_rt st (take n (word_bits b)) \<noteq> None, st') \<and> node_ok W N root st' \<and>
    st_prefix st' = st_prefix st \<and> st_children st' = st_children st \<and>
    stride_rt st' = (stride_rt st)(take n (word_bits b) := None)"
proof -
  let ?k = "(b, int n)" and ?es = "st_entries st"
  have key: "key_ok ?k" using n by (simp add: key_ok_def)
  obtain st' where s: "stride_delete st b (int n) = Some (routes ?es (idx_of ?k) \<noteq> None, st')" "stride_wf st'"
      "st_prefix st' = st_prefix st" "st_children st' = st_children st" "st_childRefs st' = st_childRefs st"
      "routes (st_entries st') = (routes ?es)(idx_of ?k := None)"
    using stride_delete_law [OF node_okD(1) [OF st] key] by auto
  have rt: "stride_rt st' = (stride_rt st)(take n (word_bits b) := None)"
    using n s(6) by (auto simp: stride_rt_def fun_eq_iff idx_of_bits)
  have i: "idx_of ?k < length ?es" using prefixIndex_eq(2) [OF key] node_okD(1) [OF st]
    by (simp add: node_def stride_wf_def entries_wf_def)
  have "set (st_entries st') \<subseteq> insert None (set ?es)"
  proof -
    have "st_entries st' = ?es \<or> (\<exists>pv. st_entries st' = allot ?es (idx_of ?k) (?es ! idx_of ?k) pv \<and> (pv = None \<or> pv \<in> set ?es))"
      using s(1) prefixIndex_eq(1) [OF key] i by (auto simp: stride_delete_def Let_def split: if_splits)
    then show ?thesis by (auto dest: subsetD [OF allot_set])
  qed
  then have "q < N" if "Some (q, w) \<in> set (st_entries st')" for q w using that st by (auto simp: node_ok_def)
  moreover have "st_kids st' = st_kids st" using s(4) by (simp add: st_kids_def st_kid_def)
  moreover have "stride_rt st [] = None \<Longrightarrow> stride_rt st' [] = None" using rt by simp
  ultimately have "node_ok W N root st'" using st s(2-5) by (auto simp: node_ok_def)
  moreover have "routes ?es (idx_of ?k) \<noteq> None \<longleftrightarrow> stride_rt st (take n (word_bits b)) \<noteq> None"
    using n by (simp add: stride_rt_def idx_of_bits)
  ultimately show ?thesis using s(1,3,4) rt by auto
qed

lemma tree_del_here:
  assumes st: "tree0 W N root st" and K: "K = st_key st @ take n (word_bits b)" "n \<le> 8"
  shows "\<exists>st'. stride_delete st b (int n) = Some (tree_rt st K \<noteq> None, st') \<and> tree0 W N root st' \<and>
    st_prefix st' = st_prefix st \<and> tree_rt st' = (tree_rt st)(K := None)"
proof -
  obtain st' where s: "stride_delete st b (int n) = Some (stride_rt st (take n (word_bits b)) \<noteq> None, st')"
      "node_ok W N root st'" "st_prefix st' = st_prefix st" "st_children st' = st_children st"
      "stride_rt st' = (stride_rt st)(take n (word_bits b) := None)"
    using stride_del_rt [of W N root st n b] st K(2) by (auto simp: tree0_def)
  have kid: "st_kid st' = st_kid st" using s(4) by (simp add: st_kid_def fun_eq_iff)
  have "tree0 W N root st'" using st s(2,3) kid by (simp add: tree0_def)
  moreover have "tree_rt st' = (tree_rt st)(K := None)" unfolding K(1) by (rule tree_rt_entries [OF s(3) kid s(5)]) simp
  moreover have "tree_rt st K = stride_rt st (take n (word_bits b))" unfolding K(1) by (rule tree_rt_here) simp
  ultimately show ?thesis using s(1,3) by auto
qed

end
