(* ===== verification/Art_Delete.thy ===== *)
theory Art_Delete
  imports Art_Update
begin

section \<open>Deletion in the tree of stride tables\<close>

text \<open>
  The walk down of \<open>Delete\<close> finds the table that would hold the route and keeps the tables above it on
  a stack (\<open>spine\<close>); the cleanup on the way back removes tables that became redundant and changes no
  other route.
\<close>

subsection \<open>The tables above\<close>

fun spine :: "nat \<Rightarrow> nat \<Rightarrow> ('v stride \<times> byte) list \<Rightarrow> 'v stride \<Rightarrow> bool" where
  "spine W N [] st = tree W N True st"
| "spine W N ((par, b) # stack) st = (st_kid par b = Some st \<and> spine W N stack par)"

lemma spine_tree: "spine W N stack st \<Longrightarrow> tree W N (stack = []) st"
  by (induction W N stack st rule: spine.induct) (auto intro: tree_kid(1))

lemma spine_depth: "spine W N stack st \<Longrightarrow> 8 * length stack \<le> length (st_key st)"
proof (induction W N stack st rule: spine.induct)
  case (2 W N par b stack st)
  have "Sublist.prefix (st_key par @ word_bits b) (st_key st)"
    using 2 spine_tree [of W N stack par] tree_kid(2) by auto
  then have "length (st_key par) + 8 \<le> length (st_key st)" using prefix_length_le by fastforce
  then show ?case using 2 by simp
qed simp

lemma replace_same: "st_kid st b = Some c \<Longrightarrow> replaceChild st b (Some c) = st"
  by (cases st) (auto simp: st_kid_def split: if_splits, metis list_update_id)

lemma zipUp_spine: "spine W N ((par, b) # stack) st \<Longrightarrow> zipUp st ((par, b) # stack) = zipUp par stack"
  by (simp add: replace_same)

text \<open>A key below a table of the spine continues at the byte by which its parent was left.\<close>

lemma spine_key:
  assumes "spine W N ((par, b) # stack) st" "strict_prefix (st_key st) K"
  shows "\<exists>r. K = st_key par @ word_bits b @ r \<and> r \<noteq> []" "strict_prefix (st_key par) K"
    "Sublist.prefix (st_key par @ word_bits b) (st_key st)"
proof -
  show p: "Sublist.prefix (st_key par @ word_bits b) (st_key st)"
    using assms(1) spine_tree [of W N stack par] tree_kid(2) by auto
  then have sp: "strict_prefix (st_key par @ word_bits b) K" using assms(2) by (rule prefix_order.le_less_trans)
  then show "\<exists>r. K = st_key par @ word_bits b @ r \<and> r \<noteq> []" by (auto simp: strict_prefix_def prefix_def)
  have "word_bits b \<noteq> []" using length_word_bits [of b] by (cases "word_bits b") simp_all
  then have "strict_prefix (st_key par) (st_key par @ word_bits b)" by (simp add: strict_prefix_def)
  then show "strict_prefix (st_key par) K" using sp by (rule prefix_order.less_trans)
qed

lemma zipUp_ok:
  "spine W N stack st \<Longrightarrow> tree W N (stack = []) c \<Longrightarrow> tree_rt c = (tree_rt st)(K := x) \<Longrightarrow>
   strict_prefix (st_key st) K \<Longrightarrow> (stack = [] \<Longrightarrow> st_prefix c = st_prefix st) \<Longrightarrow>
   (\<And>par b stk. stack = (par, b) # stk \<Longrightarrow> Sublist.prefix (st_key par @ word_bits b) (st_key c)) \<Longrightarrow>
   route_set_to W N True (zipUp st stack) K x (Some (zipUp c stack))"
proof (induction stack arbitrary: st c)
  case Nil
  then show ?case by (auto simp: route_set_to_def)
next
  case (Cons f stack)
  obtain par b where f: "f = (par, b)" by (cases f)
  have kid: "st_kid par b = Some st" and sp: "spine W N stack par" using Cons.prems(1) f by simp_all
  have par: "tree W N (stack = []) par" by (rule spine_tree [OF sp])
  note key = spine_key [OF Cons.prems(1) [unfolded f] Cons.prems(4)]
  obtain r where r: "K = st_key par @ word_bits b @ r" "r \<noteq> []" using key(1) by blast
  have upd: "kid_upd par b (Some c) (replaceChild par b (Some c))"
    by (rule kid_upds(3) [OF tree_node [OF par]]) (simp add: kid)
  have "tree W N False c" using Cons.prems(2) by simp
  from route_set_to_kid [OF par _ kid r upd this _ Cons.prems(3)] Cons.prems(6) f
  have "route_set_to W N (stack = []) par K x (Some (replaceChild par b (Some c)))" by simp
  then have p': "tree W N (stack = []) (replaceChild par b (Some c))" "st_prefix (replaceChild par b (Some c)) = st_prefix par"
      "tree_rt (replaceChild par b (Some c)) = (tree_rt par)(K := x)" by (simp_all add: route_set_to_def)
  have "route_set_to W N True (zipUp par stack) K x (Some (zipUp (replaceChild par b (Some c)) stack))"
    by (rule Cons.IH [OF sp p'(1,3) key(2) p'(2)]) (use sp spine_key(3) [OF _ key(2)] p'(2) in auto)
  then show ?case using zipUp_spine [OF Cons.prems(1) [unfolded f]] f by simp
qed

subsection \<open>Cleaning up\<close>

lemma no_routes:
  assumes "node_ok W N root st" "st_routeRefs st = 0"
  shows "stride_rt st l = None"
proof -
  have "route_set (st_entries st) = {}"
    using assms route_set_finite(1) [of "st_entries st"] by (simp add: node_ok_def stride_wf_def)
  then have "bits_idx l \<notin> route_set (st_entries st)" by simp
  then show ?thesis by (cases "routes (st_entries st) (bits_idx l)") (simp_all add: stride_rt_def route_set_def)
qed

lemma findFirstChild_kid: "findFirstChild st = Some c \<Longrightarrow> length (st_children st) = 256 \<Longrightarrow> \<exists>b. st_kid st b = Some c"
proof -
  assume f: "findFirstChild st = Some c" and len: "length (st_children st) = 256"
  have "Some c \<in> set (dropWhile (\<lambda>c. c = None) (st_children st))"
    using f by (auto simp: findFirstChild_def split: list.splits)
  then have "Some c \<in> set (st_children st)" by (rule set_dropWhileD)
  then obtain i where i: "i < 256" "st_children st ! i = Some c" using len by (auto simp: in_set_conv_nth)
  then have "st_kid st (of_nat i) = Some c" using len by (simp add: st_kid_256 unsigned_of_nat take_bit_nat_eq_self)
  then show ?thesis by blast
qed

lemma findFirstChild_None: "findFirstChild st = None \<Longrightarrow> st_kid st b = None"
proof -
  assume "findFirstChild st = None"
  then have "first_some (st_children st) = None" by (simp add: findFirstChild_def first_some_def)
  then show ?thesis by (auto simp: st_kid_def first_some_None)
qed

text \<open>A table without routes that has one child holds the routes of the child.\<close>

lemma single_kid:
  assumes st: "tree0 W N False st" and refs: "st_routeRefs st = 0" "st_childRefs st = 1"
  shows "\<exists>c b. findFirstChild st = Some c \<and> st_kid st b = Some c \<and> tree W N False c \<and>
    Sublist.prefix (st_key st @ word_bits b) (st_key c) \<and> tree_rt c = tree_rt st"
proof -
  have node: "node_ok W N False st" using st by (simp add: tree0_def)
  have "card (st_kids st) = 1" using node refs(2) by (simp add: node_ok_def)
  then obtain b where b: "st_kids st = {b}" by (auto simp: card_1_singleton_iff)
  then obtain c0 where "st_kid st b = Some c0" by (auto simp: st_kids_def)
  then obtain c where c: "findFirstChild st = Some c" using findFirstChild_None [of st b] by (cases "findFirstChild st") auto
  obtain b' where b': "st_kid st b' = Some c" using findFirstChild_kid [OF c node_okD(5) [OF node]] by blast
  then have "b' \<in> st_kids st" by (simp add: st_kids_def)
  then have kid: "st_kid st b = Some c" using b b' by auto
  then have t: "tree W N False c" "Sublist.prefix (st_key st @ word_bits b) (st_key c)" using st by (auto simp: tree0_def)
  have "tree_rt st k = tree_rt c k" for k
  proof (cases rule: key_cases [of st k])
    case off
    have "Sublist.prefix (st_key st) (st_key c)" by (rule append_prefixD [OF t(2)])
    then have "\<not> Sublist.prefix (st_key c) k" using off prefix_order.trans by blast
    then show ?thesis using off by (simp add: tree_rt_off)
  next
    case (here r)
    then have "\<nexists>r'. k = (st_key st @ word_bits b) @ r' \<and> r' \<noteq> []" by auto
    then show ?thesis
      using here tree_rt_here [OF here(2), of st] no_routes [OF node refs(1)] tree_rt_slot [OF t] by simp
  next
    case (below b' r)
    show ?thesis
    proof (cases "b' = b")
      case True
      then show ?thesis using tree_rt_below [OF below(2), of st b', folded below(1)] kid by simp
    next
      case False
      then have "st_kid st b' = None" using b by (auto simp: st_kids_def)
      moreover have "\<nexists>r'. k = (st_key st @ word_bits b) @ r' \<and> r' \<noteq> []" using False below(1) by auto
      ultimately show ?thesis
        using tree_rt_below [OF below(2), of st b', folded below(1)] tree_rt_slot [OF t, of k] by simp
    qed
  qed
  then show ?thesis using c kid t by (auto simp: fun_eq_iff)
qed

lemma empty_rt:
  assumes node: "node_ok W N root st" and refs: "st_routeRefs st = 0" "st_childRefs st = 0"
  shows "tree_rt st k = None"
proof -
  have "st_kids st = {}" using node refs(2) by (simp add: node_ok_def)
  then have kid: "st_kid st b = None" for b by (auto simp: st_kids_def)
  show ?thesis
  proof (cases rule: key_cases [of st k])
    case (here r)
    then show ?thesis using tree_rt_here [OF here(2), of st] no_routes [OF node refs(1)] by simp
  next
    case (below b r)
    then show ?thesis using tree_rt_below [OF below(2), of st b] kid by simp
  qed (rule tree_rt_off)
qed

lemma u16_pos: "0 < (w :: u16) \<longleftrightarrow> 0 < unat w"
  by (simp add: word_less_nat_alt)

lemma useful_iff:
  assumes "node_ok W N root st"
  shows "useful st \<longleftrightarrow> 0 < st_routeRefs st \<or> st_childRefs st \<noteq> 0 \<and> st_childRefs st \<noteq> 1"
proof -
  have "card (st_kids st) = unat (st_childRefs st)" using assms by (simp add: node_ok_def)
  moreover have "st_childRefs st = 0 \<longleftrightarrow> unat (st_childRefs st) = 0" "st_childRefs st = 1 \<longleftrightarrow> unat (st_childRefs st) = 1"
    by (simp_all add: word_unat_eq_iff)
  ultimately show ?thesis unfolding useful_def u16_pos by linarith
qed

text \<open>Removing the child leaves the routes of the parent that are not below it.\<close>

lemma deleteChild_rt:
  assumes kid: "st_kid par b = Some st" and upd: "kid_upd par b None par'" and rt: "\<And>k. k \<noteq> K \<Longrightarrow> tree_rt st k = None"
    and K: "K = st_key par @ word_bits b @ r" "r \<noteq> []"
  shows "tree_rt par' = (tree_rt par)(K := None)"
proof
  fix k
  show "tree_rt par' k = ((tree_rt par)(K := None)) k"
  proof (cases "\<exists>r. k = st_key par @ word_bits b @ r \<and> r \<noteq> []")
    case True
    then have "tree_rt par k = tree_rt st k" using tree_rt_below [of _ par b] kid by auto
    then show ?thesis using True tree_rt_upd [OF upd, of k] rt by auto
  next
    case False
    then have "k \<noteq> K" using K by blast
    then show ?thesis using False tree_rt_upd [OF upd, of k] by auto
  qed
qed

lemma cleanup_ok:
  "spine W N stack st \<Longrightarrow> tree0 W N (stack = []) cur \<Longrightarrow> st_prefix cur = st_prefix st \<Longrightarrow>
   tree_rt cur = (tree_rt st)(K := None) \<Longrightarrow> strict_prefix (st_key st) K \<Longrightarrow>
   route_set_to W N True (zipUp st stack) K None (Some (cleanup cur stack))"
proof (induction stack arbitrary: st cur)
  case Nil
  then show ?case by (auto simp: route_set_to_def tree_iff)
next
  case (Cons f stack)
  obtain par b where f: "f = (par, b)" by (cases f)
  note sp = Cons.prems(1) [unfolded f] and K = Cons.prems(5)
  have kid: "st_kid par b = Some st" and sp': "spine W N stack par" using sp by simp_all
  note par = spine_tree [OF sp'] and key = spine_key [OF sp K]
  have cur: "tree0 W N False cur" "node_ok W N False cur" using Cons.prems(2) by (simp_all add: tree0_def)
  consider (keep) "useful cur" | (drop) "st_routeRefs cur = 0" "st_childRefs cur = 0"
    | (compact) "st_routeRefs cur = 0" "st_childRefs cur = 1"
    unfolding useful_iff [OF cur(2)] using u16_pos [of "st_routeRefs cur"] by (auto simp: unat_gt_0)
  then show ?case
  proof cases
    case keep
    then have c: "cleanup cur ((par, b) # stack) = zipUp cur ((par, b) # stack)" by (auto simp: useful_iff [OF cur(2)])
    have "tree W N ((par, b) # stack = []) cur" using cur(1) keep by (simp add: tree_iff)
    from zipUp_ok [OF sp this Cons.prems(4) K] show ?thesis unfolding f c using key(3) Cons.prems(3) by simp
  next
    case drop
    have "tree_rt st k = None" if "k \<noteq> K" for k
      using empty_rt [OF cur(2) drop, of k] Cons.prems(4) that by (simp add: fun_eq_iff split: if_splits)
    then have rt: "tree_rt (deleteChild par b) = (tree_rt par)(K := None)"
      using key(1) deleteChild_rt [OF kid kid_upds(2) [OF tree_node [OF par]]] by blast
    have "tree0 W N (stack = []) (deleteChild par b)"
      using par by (intro tree0_upd [OF _ order_refl kid_upds(2) [OF tree_node [OF par]]]) (simp_all add: tree_iff)
    moreover have "st_prefix (deleteChild par b) = st_prefix par" by (cases par) simp
    ultimately have "route_set_to W N True (zipUp par stack) K None (Some (cleanup (deleteChild par b) stack))"
      using Cons.IH [OF sp' _ _ rt key(2)] by simp
    then show ?thesis using zipUp_spine [OF sp] f drop by simp
  next
    case compact
    obtain c and x :: byte where c: "findFirstChild cur = Some c" "tree W N False c"
        "Sublist.prefix (st_key cur @ word_bits x) (st_key c)" "tree_rt c = tree_rt cur"
      using single_kid [OF cur(1) compact] by blast
    have cl: "cleanup cur ((par, b) # stack) = zipUp c ((par, b) # stack)" using compact c(1) by simp
    have "Sublist.prefix (st_key cur) (st_key c)" using c(3) by (rule append_prefixD)
    then have "Sublist.prefix (st_key par @ word_bits b) (st_key c)"
      using key(3) Cons.prems(3) prefix_order.trans by metis
    then show ?thesis unfolding f cl
      using zipUp_ok [OF sp _ trans [OF c(4) Cons.prems(4)] K] c(2) by simp
  qed
qed

subsection \<open>The walk down\<close>

lemma deleteWalk_ok:
  assumes pfx: "pfx_ok W pfx"
  shows "spine W N stack st \<Longrightarrow>
    \<exists>r. deleteWalk st pfx (AsSlice (pfx_addr pfx)) (length (st_key st) div 8) (pfx_bits pfx - pfx_bits (st_prefix st)) stack = Some r \<and>
      (case r of
         None \<Rightarrow> tree_rt st (pfx_key pfx) = None
       | Some (leaf, i, nb, stack') \<Rightarrow> spine W N stack' leaf \<and> zipUp leaf stack' = zipUp st stack \<and>
           tree_rt leaf (pfx_key pfx) = tree_rt st (pfx_key pfx) \<and> i = length (st_key leaf) div 8 \<and>
           nb = pfx_bits pfx - pfx_bits (st_prefix leaf) \<and> nb \<le> 8)"
proof (induction "size st" arbitrary: st stack rule: less_induct)
  case less
  let ?bs = "AsSlice (pfx_addr pfx)" and ?P = "length (st_key st)" and ?K = "pfx_key pfx"
  let ?b = "?bs ! (?P div 8)"
  note t = spine_tree [OF less.prems]
  note node = tree_node [OF t]
  note step = deleteWalk.simps [of st pfx ?bs "?P div 8" "pfx_bits pfx - pfx_bits (st_prefix st)" stack]
  have a: "addr_ok W (pfx_addr pfx)" using pfx by (simp add: pfx_ok_def)
  have nb: "pfx_bits pfx - pfx_bits (st_prefix st) = int (length ?K) - int ?P"
    using pfx_ok_len(2) [OF pfx] node_okD(6) [OF node] by simp
  have rb: "rd ?bs (?P div 8) = Some ?b"
    using AsSlice_bits(1) [OF a, of "?P div 8"] node_okD(3,4) [OF node] by (simp add: rd_def)
  have len: "length (st_children st) = 256" by (rule node_okD(5) [OF node])
  show ?case
  proof (cases "pfx_bits pfx - pfx_bits (st_prefix st) > 8")
    case False
    then show ?thesis using less.prems by (subst step) simp
  next
    case True
    then have long: "?P + 8 < length ?K" using nb by simp
    have wb: "word_bits ?b = take 8 (drop ?P ?K)" using key_byte [OF node a] long by (simp add: pfx_ok_bits [OF pfx])
    have K: "\<exists>r. ?K = st_key st @ word_bits ?b @ r \<and> r \<noteq> []" if "Sublist.prefix (st_key st) ?K"
      using take_below [OF that wb long] by simp
    show ?thesis
    proof (cases "st_kid st ?b")
      case None
      then have "tree_rt st ?K = None" using K tree_rt_off [of st ?K] tree_rt_below [of _ st ?b] by fastforce
      then show ?thesis using None True rb len by (subst step) (simp add: st_kid_256 getChild_def)
    next
      case (Some c)
      note c = tree_kid [OF t Some]
      have sp: "spine W N ((st, ?b) # stack) c" using Some less.prems by simp
      have "8 * Suc (length stack) < W" using spine_depth [OF sp] node_okD(4) [OF tree_node [OF c(1)]] by simp
      moreover have "W \<le> 128" using a by (auto elim: addr_ok_cases)
      ultimately have depth: "length stack < 15" by simp
      have "tree_rt c ?K = tree_rt st ?K"
      proof (cases "Sublist.prefix (st_key st) ?K")
        case True
        then show ?thesis using K tree_rt_below [of _ st ?b] Some by fastforce
      next
        case False
        then have "\<not> Sublist.prefix (st_key c) ?K" using c(2) append_prefixD prefix_order.trans by metis
        then show ?thesis using False by (simp add: tree_rt_off)
      qed
      moreover have "zipUp c ((st, ?b) # stack) = zipUp st stack" by (rule zipUp_spine [OF sp])
      moreover have "deleteWalk st pfx ?bs (?P div 8) (pfx_bits pfx - pfx_bits (st_prefix st)) stack =
          deleteWalk c pfx ?bs (length (st_key c) div 8) (pfx_bits pfx - pfx_bits (st_prefix c)) ((st, ?b) # stack)"
        using True rb len Some depth kid_index [OF t Some] by (subst step) (simp add: st_kid_256 getChild_def)
      ultimately show ?thesis using less.hyps [OF st_kid_size [OF Some] sp] by (simp only:)
    qed
  qed
qed

subsection \<open>Deletion from the tree\<close>

text \<open>The table reached by the walk holds the key in its own nodes.\<close>

lemma leaf_key:
  assumes leaf: "node_ok W N root leaf" and pfx: "pfx_ok W pfx" and K: "strict_prefix (st_key leaf) (pfx_key pfx)"
    and n: "pfx_bits pfx - pfx_bits (st_prefix leaf) \<le> 8"
  defines "b \<equiv> AsSlice (pfx_addr pfx) ! (length (st_key leaf) div 8)"
  shows "rd (AsSlice (pfx_addr pfx)) (length (st_key leaf) div 8) = Some b"
    "\<exists>n \<le> 8. pfx_bits pfx - pfx_bits (st_prefix leaf) = int n \<and> pfx_key pfx = st_key leaf @ take n (word_bits b)"
proof -
  let ?K = "pfx_key pfx" and ?P = "length (st_key leaf)"
  have a: "addr_ok W (pfx_addr pfx)" using pfx by (simp add: pfx_ok_def)
  show "rd (AsSlice (pfx_addr pfx)) (?P div 8) = Some b"
    using AsSlice_bits(1) [OF a, of "?P div 8"] node_okD(3,4) [OF leaf] by (simp add: rd_def b_def)
  have len: "?P < length ?K" by (rule prefix_length_less [OF K])
  have nb: "pfx_bits pfx - pfx_bits (st_prefix leaf) = int (length ?K - ?P)"
    using pfx_ok_len(2) [OF pfx] node_okD(6) [OF leaf] len by simp
  have le: "length ?K - ?P \<le> 8" using n nb by simp
  have "take (length ?K - ?P) (word_bits b) = drop ?P ?K"
    using key_byte [OF leaf a] le len by (simp add: b_def pfx_ok_bits [OF pfx] min_def)
  moreover have "take ?P ?K = st_key leaf" using K by (simp add: strict_prefix_def prefix_take_eq)
  ultimately have "?K = st_key leaf @ take (length ?K - ?P) (word_bits b)" by (metis append_take_drop_id)
  then show "\<exists>n \<le> 8. pfx_bits pfx - pfx_bits (st_prefix leaf) = int n \<and> ?K = st_key leaf @ take n (word_bits b)"
    using nb le by blast
qed

definition delete_at :: "'v stride \<Rightarrow> prefix \<Rightarrow> 'v stride option" where
  "delete_at st pfx = do {
     r \<leftarrow> deleteWalk st pfx (AsSlice (pfx_addr pfx)) 0 (pfx_bits pfx) [];
     (case r of
        None \<Rightarrow> Some st
      | Some (leaf, byteIdx, numBits, stack) \<Rightarrow>
          if \<not> prefixStrictlyContains (st_prefix leaf) pfx then Some st
          else do {
            b \<leftarrow> rd (AsSlice (pfx_addr pfx)) byteIdx;
            (existed, leaf') \<leftarrow> stride_delete leaf b numBits;
            if \<not> existed then Some st else Some (cleanup leaf' stack) }) }"

lemma delete_at_tree:
  assumes st: "tree W N True st" and pfx: "pfx_ok W pfx" and K: "pfx_key pfx \<noteq> []"
  shows "route_set_to W N True st (pfx_key pfx) None (delete_at st pfx)"
proof -
  let ?K = "pfx_key pfx" and ?bs = "AsSlice (pfx_addr pfx)"
  have root: "st_key st = []" "pfx_bits (st_prefix st) = 0"
    using tree_node [OF st] node_okD(6) [OF tree_node [OF st]] by (simp_all add: node_ok_def)
  have same: "route_set_to W N True st ?K None (Some st)" if "tree_rt st ?K = None"
    using st that by (auto simp: route_set_to_def fun_eq_iff)
  obtain r where w: "deleteWalk st pfx ?bs 0 (pfx_bits pfx) [] = Some r"
    and none: "r = None \<Longrightarrow> tree_rt st ?K = None"
    and some: "\<And>leaf i nb stack. r = Some (leaf, i, nb, stack) \<Longrightarrow> spine W N stack leaf \<and> zipUp leaf stack = st \<and>
      tree_rt leaf ?K = tree_rt st ?K \<and> i = length (st_key leaf) div 8 \<and> nb = pfx_bits pfx - pfx_bits (st_prefix leaf) \<and> nb \<le> 8"
    using deleteWalk_ok [OF pfx, of N "[]" st] st root by (fastforce split: option.splits)
  show ?thesis
  proof (cases r)
    case None
    then show ?thesis using w none same by (simp add: delete_at_def)
  next
    case (Some x)
    obtain leaf i nb stack where x: "x = (leaf, i, nb, stack)" by (cases x)
    note l = some [OF Some [unfolded x]]
    note leaf = spine_tree [OF conjunct1 [OF l]]
    note node = tree_node [OF leaf]
    show ?thesis
    proof (cases "strict_prefix (st_key leaf) ?K")
      case False
      have "tree_rt leaf ?K = None"
      proof (cases "st_key leaf = ?K")
        case True
        then have "stride_rt leaf [] = None" using node K by (auto simp: node_ok_def split: if_splits)
        then show ?thesis using tree_rt_here [of "[]" leaf] True by simp
      next
        case no: False
        then show ?thesis using False by (intro tree_rt_off) (auto simp: strict_prefix_def)
      qed
      then show ?thesis
        using False w Some x same l strictlyContains_key [OF node_okD(2) [OF node] pfx] by (simp add: delete_at_def)
    next
      case True
      note key = leaf_key [OF node pfx True]
      obtain n where n: "n \<le> 8" "nb = int n" "?K = st_key leaf @ take n (word_bits (?bs ! i))" using key(2) l by auto
      obtain leaf' where d: "stride_delete leaf (?bs ! i) (int n) = Some (tree_rt leaf ?K \<noteq> None, leaf')"
          "tree0 W N (stack = []) leaf'" "st_prefix leaf' = st_prefix leaf" "tree_rt leaf' = (tree_rt leaf)(?K := None)"
        using tree_del_here [OF _ n(3,1), of W N "stack = []"] leaf by (auto simp: tree_iff)
      have res: "delete_at st pfx = (if tree_rt leaf ?K = None then Some st else Some (cleanup leaf' stack))"
        using w Some x l True key(1) d(1) n(2) strictlyContains_key [OF node_okD(2) [OF node] pfx] by (simp add: delete_at_def)
      have "route_set_to W N True (zipUp leaf stack) ?K None (Some (cleanup leaf' stack))"
        using l by (intro cleanup_ok [OF _ d(2-4) True]) simp
      then show ?thesis unfolding res using l same by auto
    qed
  qed
qed

end
