(* ===== verification/Art_Routes.thy ===== *)
theory Art_Routes
  imports Art_Delete
begin

section \<open>The routing table as a map from prefixes to values\<close>

text \<open>
  The two trees of a \<open>Table\<close> together: \<open>Table_routes\<close> is the map from prefixes to values a table
  stands for. The table keeps the contract \<open>route_table\<close> of a single stride, now for all prefixes of
  both families.
\<close>

subsection \<open>Invariant and abstraction\<close>

definition table_wf :: "'v Table \<Rightarrow> bool" where
  "table_wf t \<longleftrightarrow> tree 32 (t_next t) True (t_v4 (Table_init t)) \<and> tree 128 (t_next t) True (t_v6 (Table_init t))"

definition Table_routes :: "'v Table \<Rightarrow> prefix \<Rightarrow> 'v option" where
  "Table_routes t p = tree_rt (tableForAddr (Table_init t) (pfx_addr p)) (pfx_key p)"

definition pfx_id :: "prefix \<Rightarrow> bool \<times> bool list" where
  "pfx_id p = (Is6 (pfx_addr p), pfx_key p)"

text \<open>The prefixes that contain an address, most specific first; an address with a zone is in none.\<close>

definition pfx_cands :: "addr \<Rightarrow> prefix list" where
  "pfx_cands a = (if a = AddrZero \<or> hasZone a then [] else map (\<lambda>n. Prefix a (int n)) (rev [0..<Suc (BitLen a)]))"

lemma Table_init_idem [simp]: "Table_init (Table_init t) = Table_init t" "t_next (Table_init t) = t_next t"
  "t_inited (Table_init t)"
  by (simp_all add: Table_init_def)

lemma root_tree:
  assumes "addr_ok W a" "addr_bits a = replicate W False"
  shows "tree W 0 True (newStride (PrefixFrom a 0) :: 'v stride)"
proof -
  have p: "pfx_ok W (PrefixFrom a 0)" "pfx_key (PrefixFrom a 0) = []" "0 < W"
    using assms by (cases rule: addr_ok_cases [OF assms(1)]; simp add: pfx_ok_def PrefixFrom_def pfx_key_def addr_ok_def)+
  then have "node_ok W 0 False (newStride (PrefixFrom a 0) :: 'v stride)"
    using newStride_tree0 [of W "PrefixFrom a 0" 0] by (simp add: tree0_def)
  then have "node_ok W 0 True (newStride (PrefixFrom a 0) :: 'v stride)" using p(2) by (simp add: node_ok_def)
  then show ?thesis by (rule tree.treeI) simp_all
qed

lemma word_bits_0: "word_bits (0 :: 'a::len word) = replicate LENGTH('a) False"
  by (rule nth_equalityI) (simp_all add: word_bits_nth)

lemma zeroTable_wf: "table_wf (zeroTable :: 'v Table)"
  using root_tree [of 32 "V4 0"] root_tree [of 128 "V6 0 []"]
  by (simp add: table_wf_def zeroTable_def Table_init_def addr_ok_def word_bits_0)

lemma zeroTable_routes: "Table_routes zeroTable p = None"
  by (simp add: Table_routes_def zeroTable_def Table_init_def tableForAddr_def newStride_tree_rt)

lemma table_tree:
  assumes "table_wf t" "a \<noteq> AddrZero"
  shows "tree (BitLen a) (t_next t) True (tableForAddr (Table_init t) a)"
  using assms by (cases a) (simp_all add: table_wf_def tableForAddr_def)

lemma tree_root_key: "tree W N True st \<Longrightarrow> st_key st = []"
  by (drule tree_node) (simp add: node_ok_def)

subsection \<open>Lookup\<close>

lemma walkBack_none: "(\<And>p. \<not> Contains p a) \<Longrightarrow> walkBack ms a = None"
  by (induction ms a rule: walkBack.induct) auto

lemma Table_Get_ok:
  assumes "table_wf t"
  shows "Table_Get t a = Some (first_some (map (Table_routes t) (pfx_cands a)), Table_init t)"
proof -
  let ?t = "Table_init t"
  let ?bs = "if Is4 a then drop 12 (As16 a) else As16 a" and ?st = "tableForAddr ?t a"
  have "\<exists>W. W \<le> 8 * length ?bs \<and> tree W (t_next t) True ?st"
    by (rule exI [of _ "if Is6 a then 128 else 32"]) (use assms in \<open>cases a; simp add: table_wf_def tableForAddr_def\<close>)
  then obtain W ms where W: "tree W (t_next t) True ?st" and ms: "findLeaf ?st ?bs 0 = Some ms"
    using findLeaf_total [of _ "t_next t" True ?st ?bs] tree_root_key [of _ "t_next t" ?st] by fastforce
  have "walkBack (rev ms) a = first_some (map (Table_routes t) (pfx_cands a))"
  proof (cases "a = AddrZero \<or> hasZone a")
    case True
    then have "\<not> Contains p a" for p by (intro Contains_zone) blast
    then show ?thesis using True walkBack_none [of a "rev ms"] by (auto simp: pfx_cands_def)
  next
    case False
    then have a: "addr_ok (BitLen a) a" by (simp add: addr_ok_def)
    have t: "tree (BitLen a) (t_next t) True ?st" by (rule table_tree [OF assms]) (use False in simp)
    have "walkBack (rev ms) a = lpm (tree_rt ?st) (addr_bits a)"
      using findLeaf_lpm [OF t a] ms As16_AsSlice [OF a] tree_root_key [OF t] by simp
    moreover have "map (Table_routes t) (pfx_cands a) = map (\<lambda>n. tree_rt ?st (take n (addr_bits a))) (rev [0..<Suc (BitLen a)])"
      using False by (simp add: pfx_cands_def Table_routes_def pfx_key_def comp_def)
    ultimately show ?thesis by (simp only: lpm_def length_addr_bits)
  qed
  then show ?thesis using ms by (simp add: Table_Get_def Let_def)
qed

subsection \<open>Insertion and deletion\<close>

lemma setTable_tables:
  "tableForAddr (setTableForAddr t a st) b = (if Is6 a = Is6 b then st else tableForAddr t b)"
  "Table_init (setTableForAddr (Table_init t) a st) = setTableForAddr (Table_init t) a st"
  "t_next (setTableForAddr t a st) = t_next t" "t_inited (setTableForAddr t a st) = t_inited t"
  "tableForAddr (t\<lparr>t_next := n\<rparr>) b = tableForAddr t b"
  by (simp_all add: tableForAddr_def setTableForAddr_def Table_init_def)

text \<open>A table with one tree changed at one key.\<close>

lemma table_set_route:
  assumes t: "table_wf t" and p: "pfx_valid p" and a: "a = pfx_addr (Masked p)" and N: "t_next t \<le> N"
    and r: "route_set_to (BitLen (pfx_addr p)) N True (tableForAddr (Table_init t) a) (pfx_key p) x (Some st')"
  defines "t' \<equiv> (setTableForAddr (Table_init t) a st')\<lparr>t_next := N\<rparr>"
  shows "table_wf t'" "Table_routes t' q = (if pfx_id q = pfx_id p then x else Table_routes t q)"
proof -
  have fam: "Is6 a = Is6 (pfx_addr p)" "pfx_addr p \<noteq> AddrZero" using Masked_key(3) [OF p] p a by (simp_all add: pfx_valid_def)
  have init: "Table_init t' = t'" "t_next t' = N" by (simp_all add: t'_def setTable_tables Table_init_def)
  have new: "tree (BitLen (pfx_addr p)) N True st'" "tree_rt st' = (tree_rt (tableForAddr (Table_init t) a))(pfx_key p := x)"
    using r by (simp_all add: route_set_to_def)
  have old: "tree 32 N True (t_v4 (Table_init t))" "tree 128 N True (t_v6 (Table_init t))"
    using t N tree_grow by (auto simp: table_wf_def)
  have "t_v4 t' = (if Is6 a then t_v4 (Table_init t) else st')" "t_v6 t' = (if Is6 a then st' else t_v6 (Table_init t))"
    by (simp_all add: t'_def setTableForAddr_def)
  moreover have "BitLen (pfx_addr p) = (if Is6 a then 128 else 32)" using fam by (cases "pfx_addr p") simp_all
  ultimately show "table_wf t'" using old new(1) init unfolding table_wf_def by (auto split: if_splits)
  have "tableForAddr t' b = (if Is6 a = Is6 b then st' else tableForAddr (Table_init t) b)" for b
    by (simp add: t'_def setTable_tables)
  then show "Table_routes t' q = (if pfx_id q = pfx_id p then x else Table_routes t q)"
    using init(1) new(2) fam(1) tableForAddr_def [of "Table_init t"]
    by (cases "Is6 (pfx_addr q) = Is6 (pfx_addr p)") (simp_all add: Table_routes_def pfx_id_def)
qed

text \<open>\<open>Insert\<close> with the numbers it computes written as natural numbers.\<close>

lemma Table_Insert_eq:
  fixes t :: "'v Table" and p :: prefix
  defines "m \<equiv> Masked p" and "st \<equiv> tableForAddr (Table_init t) (pfx_addr (Masked p))" and "N \<equiv> t_next t"
  assumes m: "pfx_ok W m" and st: "st_key st = []" "pfx_bits (st_prefix st) = 0"
  defines "i \<equiv> (length (pfx_key m) - 1) div 8"
  shows "Table_Insert t p v = do {
    st' \<leftarrow> (if pfx_key m = [] then stride_insert st 0 0 N v
      else do { fsp \<leftarrow> Addr_Prefix (pfx_addr m) (int (8 * i)); insert_at st m i fsp N v });
    Some ((setTableForAddr (Table_init t) (pfx_addr m) st')\<lparr>t_next := N + 1\<rparr>) }"
proof (cases "pfx_key m = []")
  case True
  then show ?thesis using pfx_ok_len(2) [OF m] by (simp add: Table_Insert_def m_def st_def N_def Let_def)
next
  case False
  let ?L = "length (pfx_key m)"
  have bits: "pfx_bits m = int ?L" by (rule pfx_ok_len(2) [OF m])
  have one: "int ?L - 1 = int (?L - 1)" using False by (cases "pfx_key m") simp_all
  have idx: "(pfx_bits m - 1) sdiv 8 = int i" unfolding bits one sdiv8 i_def ..
  have "8 * i \<le> ?L" unfolding i_def by presburger
  then have last: "pfx_bits m - int i * 8 = int (?L - 8 * i)" unfolding bits by (simp add: of_nat_diff)
  have "pfx_bits m \<noteq> 0" using False bits by simp
  moreover have "tableForAddr (Table_init t) (pfx_addr m) = st" by (simp add: st_def m_def)
  ultimately show ?thesis using False idx last st
    by (simp add: Table_Insert_def m_def [symmetric] N_def [symmetric] Let_def mult.commute)
qed

lemma Table_Insert_ok:
  assumes t: "table_wf t" and p: "pfx_valid p"
  shows "\<exists>t'. Table_Insert t p v = Some t' \<and> table_wf t' \<and>
    (\<forall>q. Table_routes t' q = (if pfx_id q = pfx_id p then Some v else Table_routes t q))"
proof -
  let ?m = "Masked p" and ?W = "BitLen (pfx_addr p)" and ?N = "t_next t"
  let ?st = "tableForAddr (Table_init t) (pfx_addr ?m)" and ?K = "pfx_key (Masked p)"
  let ?i = "(length ?K - 1) div 8"
  note m = Masked_key [OF p]
  have a: "addr_ok ?W (pfx_addr ?m)" using m(1) by (simp add: pfx_ok_def)
  then have st: "tree ?W ?N True ?st" using table_tree [OF t, of "pfx_addr ?m"] by (simp add: addr_ok_def)
  note root = tree_root_key [OF st]
  have root0: "pfx_bits (st_prefix ?st) = 0" using node_okD(6) [OF tree_node [OF st]] root by simp
  let ?res = "if ?K = [] then stride_insert ?st 0 0 ?N v
    else do { fsp \<leftarrow> Addr_Prefix (pfx_addr ?m) (int (8 * ?i)); insert_at ?st ?m ?i fsp ?N v }"
  have r: "route_set_to ?W (Suc ?N) True ?st ?K (Some v) ?res"
  proof (cases "?K = []")
    case True
    then show ?thesis using stride_ins_tree [of ?W ?N True ?st 0 0 v] st root
      by (simp add: route_set_to_def tree_iff)
  next
    case False
    have i: "8 * ?i < length ?K" by (rule key_parts(1) [OF m(1) False])
    then have "8 * ?i \<le> ?W" using pfx_ok_len(3) [OF m(1)] by simp
    then obtain fsp where fsp: "Addr_Prefix (pfx_addr ?m) (int (8 * ?i)) = Some fsp" "pfx_ok ?W fsp"
        "pfx_key fsp = take (8 * ?i) (addr_bits (pfx_addr ?m))"
      using Addr_Prefix_key [OF a] by blast
    then have "insert_args ?W ?m ?i fsp" using m(1) False i pfx_ok_bits [OF m(1)] by (simp add: insert_args_def)
    moreover have "strict_prefix (st_key ?st) ?K" using root False by (simp add: strict_prefix_def)
    ultimately show ?thesis using insert_at_tree [OF st, of ?m ?i fsp v] fsp(1) False by simp
  qed
  then obtain st' where st': "?res = Some st'" by (auto simp: route_set_to_def)
  let ?t' = "(setTableForAddr (Table_init t) (pfx_addr ?m) st')\<lparr>t_next := Suc ?N\<rparr>"
  have "Table_Insert t p v = Some ?t'" unfolding Table_Insert_eq [OF m(1) root root0] st' by simp
  moreover have "route_set_to ?W (Suc ?N) True ?st (pfx_key p) (Some v) (Some st')" using r [unfolded st'] unfolding m(2) .
  ultimately show ?thesis using table_set_route [OF t p refl le_SucI [OF order_refl]] by blast
qed

lemma Table_Delete_ok:
  assumes t: "table_wf t" and p: "pfx_valid p"
  shows "\<exists>t'. Table_Delete t p = Some t' \<and> table_wf t' \<and>
    (\<forall>q. Table_routes t' q = (if pfx_id q = pfx_id p then None else Table_routes t q))"
proof -
  let ?m = "Masked p" and ?W = "BitLen (pfx_addr p)" and ?N = "t_next t"
  let ?st = "tableForAddr (Table_init t) (pfx_addr ?m)" and ?K = "pfx_key (Masked p)" and ?bs = "AsSlice (pfx_addr ?m)"
  note m = Masked_key [OF p]
  have a: "addr_ok ?W (pfx_addr ?m)" using m(1) by (simp add: pfx_ok_def)
  then have st: "tree ?W ?N True ?st" using table_tree [OF t, of "pfx_addr ?m"] by (simp add: addr_ok_def)
  note root = tree_root_key [OF st]
  have bits: "pfx_bits ?m = 0 \<longleftrightarrow> ?K = []" using pfx_ok_len(2) [OF m(1)] by simp
  let ?res = "if pfx_bits ?m = 0 then map_option snd (stride_delete ?st 0 0) else delete_at ?st ?m"
  have r: "route_set_to ?W ?N True ?st ?K None ?res"
  proof (cases "?K = []")
    case True
    then show ?thesis using tree_del_here [of ?W ?N True ?st "[]" 0 0] st root bits
      by (auto simp: route_set_to_def tree_iff)
  next
    case False
    then show ?thesis using delete_at_tree [OF st m(1)] bits by simp
  qed
  then obtain st' where st': "?res = Some st'" by (auto simp: route_set_to_def)
  let ?t' = "setTableForAddr (Table_init t) (pfx_addr ?m) st'"
  have eq: "Table_Delete t p = do { st' \<leftarrow> ?res; Some (setTableForAddr (Table_init t) (pfx_addr ?m) st') }"
    by (simp add: Table_Delete_def delete_at_def Let_def)
  have "Table_Delete t p = Some ?t'" unfolding eq st' by simp
  moreover have "?t'\<lparr>t_next := ?N\<rparr> = ?t'" by (simp add: setTableForAddr_def)
  moreover have "route_set_to ?W ?N True ?st (pfx_key p) None (Some st')" using r [unfolded st'] unfolding m(2) .
  ultimately show ?thesis using table_set_route [OF t p refl order_refl, of None st'] by auto
qed

subsection \<open>The contract\<close>

lemma pfx_cands_valid: "k \<in> set (pfx_cands a) \<Longrightarrow> pfx_valid k"
  by (cases a) (auto simp: pfx_cands_def pfx_valid_def split: if_splits)

interpretation table: route_table "\<lambda>t k p v. Table_Insert t k v"
  "\<lambda>t k. map_option (Pair (Table_routes t k \<noteq> None)) (Table_Delete t k)" "\<lambda>t a. fst (the (Table_Get t a))"
  Table_routes table_wf "\<lambda>t p. p = t_next t" pfx_valid pfx_id pfx_cands
proof
  fix t :: "'a Table" and k p v
  assume a: "table_wf t" "pfx_valid k"
  show "\<exists>t'. Table_Insert t k v = Some t' \<and> table_wf t' \<and>
      (\<forall>k'. pfx_valid k' \<longrightarrow> Table_routes t' k' = (if pfx_id k' = pfx_id k then Some v else Table_routes t k'))"
    using Table_Insert_ok [OF a, of v] by blast
  show "\<exists>t'. map_option (Pair (Table_routes t k \<noteq> None)) (Table_Delete t k) = Some (Table_routes t k \<noteq> None, t') \<and> table_wf t' \<and>
      (\<forall>k'. pfx_valid k' \<longrightarrow> Table_routes t' k' = (if pfx_id k' = pfx_id k then None else Table_routes t k'))"
    using Table_Delete_ok [OF a] by auto
next
  fix t :: "'a Table" and k k'
  assume "pfx_id k = pfx_id k'"
  then show "Table_routes t k = Table_routes t k'" by (simp add: pfx_id_def Table_routes_def tableForAddr_def)
qed (simp_all add: Table_Get_ok pfx_cands_valid)

text \<open>
  C14. Lookup. On a routing table that satisfies the invariant, \<open>Get\<close> never panics, and it returns the value of
  the most specific prefix containing the address that has a route; there is none for the zero
  address and for an address with a zone.
\<close>

theorem Table_Get_longest:
  assumes "table_wf t"
  shows "map_option fst (Table_Get t a) = Some (first_some (map (Table_routes t) (pfx_cands a)))"
  by (simp add: Table_Get_ok [OF assms])

theorem Table_Get_longest_witness:
  "map_option fst (Table_Get (zeroTable :: nat Table) (V4 7)) = Some (first_some (map (Table_routes zeroTable) (pfx_cands (V4 7))))"
  by (rule Table_Get_longest [OF zeroTable_wf])

text \<open>
  C15. Insertion. \<open>Insert\<close> of a valid prefix never panics, keeps the invariant of the tree (path compression
  included) and changes the route of exactly that prefix, whatever bits are set behind its length.
\<close>

theorem Table_Insert_exact:
  assumes "table_wf t" "pfx_valid p"
  shows "\<exists>t'. Table_Insert t p v = Some t' \<and> table_wf t' \<and>
    (\<forall>q. Table_routes t' q = (if pfx_id q = pfx_id p then Some v else Table_routes t q))"
  by (rule Table_Insert_ok [OF assms])

theorem Table_Insert_exact_witness:
  "\<exists>t'. Table_Insert (zeroTable :: nat Table) (Prefix (V4 0x0a000001) 8) 5 = Some t' \<and> table_wf t' \<and>
    Table_routes t' (Prefix (V4 0x0a000000) 8) = Some 5 \<and> Table_routes t' (Prefix (V6 0 []) 8) = None"
proof -
  let ?p = "Prefix (V4 0x0a000001) 8"
  have "pfx_key (Prefix (V4 0x0a000000) 8) = pfx_key ?p"
    by code_simp
  then show ?thesis using Table_Insert_exact [OF zeroTable_wf, of ?p "5 :: nat"] zeroTable_routes
    by (auto simp: pfx_valid_def pfx_id_def)
qed

text \<open>
  C16. Deletion. \<open>Delete\<close> of a valid prefix never panics, keeps the invariant (in particular every table below
  the two roots still has a route or two children: nothing is leaked) and removes exactly the route of that prefix.
\<close>

theorem Table_Delete_exact:
  assumes "table_wf t" "pfx_valid p"
  shows "\<exists>t'. Table_Delete t p = Some t' \<and> table_wf t' \<and>
    (\<forall>q. Table_routes t' q = (if pfx_id q = pfx_id p then None else Table_routes t q))"
  by (rule Table_Delete_ok [OF assms])

theorem Table_Delete_exact_witness:
  "\<exists>t t'. Table_Insert (zeroTable :: nat Table) (Prefix (V4 0x0a000001) 9) 5 = Some t \<and> Table_Delete t (Prefix (V4 0x0a000001) 9) = Some t' \<and>
    Table_routes t (Prefix (V4 0x0a000001) 9) = Some 5 \<and> Table_routes t' (Prefix (V4 0x0a000001) 9) = None"
proof -
  let ?p = "Prefix (V4 0x0a000001) 9"
  have v: "pfx_valid ?p" by (simp add: pfx_valid_def)
  obtain t where t: "Table_Insert (zeroTable :: nat Table) ?p 5 = Some t" "table_wf t" "Table_routes t ?p = Some 5"
    using Table_Insert_ok [OF zeroTable_wf v, of "5 :: nat"] by auto
  then show ?thesis using Table_Delete_exact [OF t(2) v] by auto
qed

end
