(* ===== verification/Allowed_Ips.thy ===== *)
theory Allowed_Ips
  imports Art_Routes
begin

unbundle bit_operations_syntax

section \<open>Package \<open>tempfork/device\<close>: the trie of allowed addresses\<close>

text \<open>
  \<open>src/tempfork/device/allowedips.go\<close> (with \<open>peer.go\<close>): a path-compressed binary trie from prefixes to
  peers. A node is a value here, where the code has pointers to it from its parent and from the list of
  its peer; such a list holds the node's address bits and length, which name it. The fields \<open>bitAtByte\<close>
  and \<open>bitAtShift\<close> are functions of \<open>cidr\<close> and are computed where they are used. A run-time panic is
  \<open>None\<close>. A peer is its key: \<open>NewPeer\<close> makes one for every key.
\<close>

subsection \<open>Nodes\<close>

datatype 'p trieEntry =
    NilEntry
  | Entry (te_peer: "'p option") (te_child0: "'p trieEntry") (te_child1: "'p trieEntry") (te_cidr: byte) (te_bits: bytes)

text \<open>\<open>binary.BigEndian.Uint32\<close> and \<open>Uint64\<close> of the start of a slice.\<close>

definition BE_Uint :: "nat \<Rightarrow> bytes \<Rightarrow> 'a::len word option" where
  "BE_Uint n bs = (if length bs < n then None else Some (be_word (take n bs)))"

definition ip_commonBits :: "bytes \<Rightarrow> bytes \<Rightarrow> byte option" where
  "ip_commonBits ip1 ip2 =
     (if length ip1 = 4 then do {
        a \<leftarrow> BE_Uint 4 ip1;
        b \<leftarrow> BE_Uint 4 ip2;
        Some (word_of_nat (LeadingZeros (a XOR b :: u32))) }
      else if length ip1 = 16 then do {
        a \<leftarrow> BE_Uint 8 ip1;
        b \<leftarrow> BE_Uint 8 ip2;
        if a XOR b \<noteq> (0 :: u64) then Some (word_of_nat (LeadingZeros (a XOR b)))
        else do {
          s1 \<leftarrow> slice_from ip1 8;
          s2 \<leftarrow> slice_from ip2 8;
          a \<leftarrow> BE_Uint 8 s1;
          b \<leftarrow> BE_Uint 8 s2;
          Some (64 + word_of_nat (LeadingZeros (a XOR b :: u64))) } }
      else None)"

text \<open>The bit of an address that a node of length \<open>cidr\<close> branches on.\<close>

definition choose_bit :: "byte \<Rightarrow> bytes \<Rightarrow> bool option" where
  "choose_bit cidr ip = do {
     x \<leftarrow> rd ip (unat (cidr div 8));
     Some (drop_bit (unat (7 - cidr mod 8)) x AND 1 = 1) }"

text \<open>\<open>net.CIDRMask\<close> for a mask of \<open>n\<close> bytes; it is nil, here empty, when it has more ones than bits.\<close>

definition CIDRMask :: "nat \<Rightarrow> nat \<Rightarrow> bytes" where
  "CIDRMask ones n = (if ones > 8 * n then [] else map (\<lambda>i. NOT (drop_bit (ones - 8 * i) 0xff)) [0..<n])"

definition maskSelf :: "byte \<Rightarrow> bytes \<Rightarrow> bytes" where
  "maskSelf cidr bits = (let mask = CIDRMask (unat cidr) (length bits) in
     map2 (AND) (take (length mask) bits) mask @ drop (length mask) bits)"

definition child :: "'p trieEntry \<Rightarrow> bool \<Rightarrow> 'p trieEntry" where
  "child t b = (case t of NilEntry \<Rightarrow> NilEntry | Entry _ l r _ _ \<Rightarrow> if b then r else l)"

fun set_child :: "'p trieEntry \<Rightarrow> bool \<Rightarrow> 'p trieEntry \<Rightarrow> 'p trieEntry" where
  "set_child NilEntry b c = NilEntry"
| "set_child (Entry p l r k bs) b c = (if b then Entry p l c k bs else Entry p c r k bs)"

subsection \<open>Insertion\<close>

text \<open>
  The end of \<open>insert\<close>, from \<open>common := commonBits(down.bits, ip)\<close>: the node \<open>down\<close> is replaced by the
  new node above it, or by a node without a peer above both. The address of the new node has been masked
  in place, so that \<open>ip\<close> is its \<open>bits\<close>.
\<close>

definition splice :: "'p trieEntry \<Rightarrow> bytes \<Rightarrow> byte \<Rightarrow> 'p \<Rightarrow> 'p trieEntry option" where
  "splice down ip cidr0 peer = do {
     let newNode = Entry (Some peer) NilEntry NilEntry cidr0 ip;
     common \<leftarrow> ip_commonBits (te_bits down) ip;
     let cidr = (if common < cidr0 then common else cidr0);
     if cidr0 = cidr then do {
       bit \<leftarrow> choose_bit cidr0 (te_bits down);
       Some (set_child newNode bit down) }
     else do {
       let node = Entry None NilEntry NilEntry cidr (maskSelf cidr ip);
       bit \<leftarrow> choose_bit cidr (te_bits down);
       let node = set_child node bit down;
       bit \<leftarrow> choose_bit cidr ip;
       Some (set_child node bit newNode) } }"

text \<open>
  \<open>insert\<close> as a recursion along the loop of \<open>nodePlacement\<close>. Beside the new trie it returns the peer whose
  list loses the node (that of an exact match) and the bits of the node that gets the peer.
\<close>

fun trie_insert :: "'p trieEntry \<Rightarrow> bytes \<Rightarrow> byte \<Rightarrow> 'p \<Rightarrow> ('p option \<times> bytes \<times> 'p trieEntry) option" where
  "trie_insert NilEntry ip cidr peer =
     Some (None, maskSelf cidr ip, Entry (Some peer) NilEntry NilEntry cidr (maskSelf cidr ip))"
| "trie_insert (Entry p l r k bs) ip cidr peer = do {
     below \<leftarrow> (if k \<le> cidr then do { c \<leftarrow> ip_commonBits bs ip; Some (c \<ge> k) } else Some False);
     if below then
       (if k = cidr then Some (p, bs, Entry (Some peer) l r k bs)
        else do {
          bit \<leftarrow> choose_bit k ip;
          if bit then do { (old, nb, r') \<leftarrow> trie_insert r ip cidr peer; Some (old, nb, Entry p l r' k bs) }
          else do { (old, nb, l') \<leftarrow> trie_insert l ip cidr peer; Some (old, nb, Entry p l' r k bs) } })
     else do {
       t \<leftarrow> splice (Entry p l r k bs) (maskSelf cidr ip) cidr peer;
       Some (None, maskSelf cidr ip, t) } }"

subsection \<open>Lookup\<close>

fun trie_lookup :: "'p trieEntry \<Rightarrow> bytes \<Rightarrow> 'p option \<Rightarrow> 'p option option" where
  "trie_lookup NilEntry ip found = Some found"
| "trie_lookup (Entry p l r k bs) ip found = do {
     c \<leftarrow> ip_commonBits bs ip;
     if \<not> c \<ge> k then Some found
     else do {
       let found = (if p \<noteq> None then p else found);
       if k div 8 = word_of_nat (length ip) then Some found
       else do {
         bit \<leftarrow> choose_bit k ip;
         if bit then trie_lookup r ip found else trie_lookup l ip found } } }"

subsection \<open>Removal\<close>

text \<open>
  The body of the loop of \<open>RemoveByPeer\<close> for one node, found by its bits and length on the way down
  (the code has a pointer to it, so that \<open>None\<close> for a missing node has no counterpart). The result
  \<open>True\<close> says that the node was a leaf; a parent without a peer is then replaced by its other child.
\<close>

fun unlink :: "byte \<Rightarrow> bytes \<Rightarrow> 'p trieEntry \<Rightarrow> (bool \<times> 'p trieEntry) option" where
  "unlink cidr bits NilEntry = None"
| "unlink cidr bits (Entry p l r k bs) =
     (if k = cidr \<and> bs = bits then
        (if l \<noteq> NilEntry \<and> r \<noteq> NilEntry then Some (False, Entry None l r k bs)
         else let c = (if l = NilEntry then r else l) in Some (c = NilEntry, c))
      else do {
        bit \<leftarrow> choose_bit k bits;
        if bit then do {
          (leaf, r') \<leftarrow> unlink cidr bits r;
          Some (False, if leaf \<and> p = None then l else Entry p l r' k bs) }
        else do {
          (leaf, l') \<leftarrow> unlink cidr bits l;
          Some (False, if leaf \<and> p = None then r else Entry p l' r k bs) } })"

subsection \<open>The table\<close>

text \<open>The two roots, and the lists \<open>trieEntries\<close> of the peers: family, length and bits of each node.\<close>

record 'p AllowedIPs =
  IPv4 :: "'p trieEntry"
  IPv6 :: "'p trieEntry"
  trieEntries :: "'p \<Rightarrow> (bool \<times> byte \<times> bytes) list"

definition newAllowedIPs :: "'p AllowedIPs" where
  "newAllowedIPs = \<lparr>IPv4 = NilEntry, IPv6 = NilEntry, trieEntries = (\<lambda>_. [])\<rparr>"

definition root :: "'p AllowedIPs \<Rightarrow> bool \<Rightarrow> 'p trieEntry" where
  "root t v6 = (if v6 then IPv6 t else IPv4 t)"

definition set_root :: "'p AllowedIPs \<Rightarrow> bool \<Rightarrow> 'p trieEntry \<Rightarrow> 'p AllowedIPs" where
  "set_root t v6 n = (if v6 then t\<lparr>IPv6 := n\<rparr> else t\<lparr>IPv4 := n\<rparr>)"

text \<open>\<open>removeFromPeerEntries\<close> for the old peer of a node, if it has one, and \<open>addToPeerEntries\<close> for the new one.\<close>

definition move_entry :: "'p option \<Rightarrow> 'p \<Rightarrow> bool \<times> byte \<times> bytes \<Rightarrow> 'p AllowedIPs \<Rightarrow> 'p AllowedIPs" where
  "move_entry old peer e t =
     (let es = trieEntries t;
          es = (case old of None \<Rightarrow> es | Some q \<Rightarrow> es(q := remove1 e (es q)))
      in t\<lparr>trieEntries := es(peer := es peer @ [e])\<rparr>)"

definition insert_family :: "bool \<Rightarrow> bytes \<Rightarrow> byte \<Rightarrow> 'p \<Rightarrow> 'p AllowedIPs \<Rightarrow> 'p AllowedIPs option" where
  "insert_family v6 ip cidr peer t = do {
     (old, nb, n) \<leftarrow> trie_insert (root t v6) ip cidr peer;
     Some (move_entry old peer (v6, cidr, nb) (set_root t v6 n)) }"

definition AllowedIPs_Insert :: "'p AllowedIPs \<Rightarrow> prefix \<Rightarrow> 'p \<Rightarrow> 'p AllowedIPs option" where
  "AllowedIPs_Insert t pfx peer =
     (if Is6 (pfx_addr pfx) then insert_family True (As16 (pfx_addr pfx)) (word_of_int (pfx_bits pfx)) peer t
      else if Is4 (pfx_addr pfx) then do {
        ip \<leftarrow> As4 (pfx_addr pfx);
        insert_family False ip (word_of_int (pfx_bits pfx)) peer t }
      else None)"

definition AllowedIPs_Lookup :: "'p AllowedIPs \<Rightarrow> bytes \<Rightarrow> 'p option option" where
  "AllowedIPs_Lookup t ip =
     (if length ip = 16 then trie_lookup (IPv6 t) ip None
      else if length ip = 4 then trie_lookup (IPv4 t) ip None
      else None)"

fun remove_loop :: "'p \<Rightarrow> (bool \<times> byte \<times> bytes) list \<Rightarrow> 'p AllowedIPs \<Rightarrow> 'p AllowedIPs option" where
  "remove_loop peer [] t = Some t"
| "remove_loop peer ((v6, cidr, bits) # es) t = do {
     let t = t\<lparr>trieEntries := (trieEntries t)(peer := remove1 (v6, cidr, bits) (trieEntries t peer))\<rparr>;
     (leaf, n) \<leftarrow> unlink cidr bits (root t v6);
     remove_loop peer es (set_root t v6 n) }"

definition RemoveByPeer :: "'p AllowedIPs \<Rightarrow> 'p \<Rightarrow> 'p AllowedIPs option" where
  "RemoveByPeer t peer = remove_loop peer (trieEntries t peer) t"

text \<open>\<open>EntriesForPeer\<close>: the prefixes handed to the callback until it returns false, here the list of all.\<close>

definition EntriesForPeer :: "'p AllowedIPs \<Rightarrow> 'p \<Rightarrow> prefix list" where
  "EntriesForPeer t peer = map (\<lambda>(v6, cidr, bits).
     PrefixFrom (case AddrFromSlice bits of None \<Rightarrow> AddrZero | Some a \<Rightarrow> a) (int (unat cidr))) (trieEntries t peer)"

subsection \<open>Bits\<close>

definition fam :: "nat \<Rightarrow> bytes \<Rightarrow> bool" where
  "fam W bs \<longleftrightarrow> (W = 32 \<or> W = 128) \<and> 8 * length bs = W"

lemma fam_bbits: "fam W bs \<Longrightarrow> length (bbits bs) = W"
  by (simp add: fam_def)

lemma fam_W: "fam W bs \<Longrightarrow> W \<le> 128"
  by (auto simp: fam_def)

lemma LeadingZeros_be: "LENGTH('a::len) = 8 * length a \<Longrightarrow> length a = length b \<Longrightarrow>
    LeadingZeros (be_word a XOR be_word b :: 'a word) = lcp (bbits a) (bbits b)"
  by (simp add: LeadingZeros_lcp bbits_be_word)

lemma bbits_append: "bbits (xs @ ys) = bbits xs @ bbits ys"
  by (simp add: bbits_def)

lemma lcp_self: "length xs = length ys \<Longrightarrow> lcp xs ys = length xs \<longleftrightarrow> xs = ys"
  by (induction xs ys rule: list_induct2) auto

lemma ip_commonBits_lcp:
  assumes "fam W a" "fam W b"
  shows "ip_commonBits a b = Some (word_of_nat (lcp (bbits a) (bbits b)))"
proof (cases "W = 32")
  case True
  then have "length a = 4" "length b = 4" using assms by (simp_all add: fam_def)
  then show ?thesis using LeadingZeros_be [where 'a = 32, of a b] by (simp add: ip_commonBits_def BE_Uint_def)
next
  case False
  then have l: "length a = 16" "length b = 16" using assms by (simp_all add: fam_def)
  let ?x = "be_word (take 8 a) XOR be_word (take 8 b) :: u64"
  have h: "LeadingZeros ?x = lcp (bbits (take 8 a)) (bbits (take 8 b))"
    "LeadingZeros (be_word (drop 8 a) XOR be_word (drop 8 b) :: u64) = lcp (bbits (drop 8 a)) (bbits (drop 8 b))"
    using l LeadingZeros_be [where 'a = 64, of "take 8 a" "take 8 b"] LeadingZeros_be [where 'a = 64, of "drop 8 a" "drop 8 b"] by simp_all
  have z: "?x = 0 \<longleftrightarrow> lcp (bbits (take 8 a)) (bbits (take 8 b)) = 64"
  proof -
    have "?x = 0 \<longleftrightarrow> (be_word (take 8 a) :: u64) = be_word (take 8 b)" by (auto simp: bit_eq_iff bit_simps)
    also have "\<dots> \<longleftrightarrow> bbits (take 8 a) = bbits (take 8 b)"
      using bbits_be_word [where 'a = 64, of "take 8 a"] bbits_be_word [where 'a = 64, of "take 8 b"] l
        word_bits_inject [of "be_word (take 8 a) :: u64" "be_word (take 8 b)"] by simp
    finally show ?thesis using lcp_self [of "bbits (take 8 a)" "bbits (take 8 b)"] l by simp
  qed
  have "lcp (bbits a) (bbits b) = (if lcp (bbits (take 8 a)) (bbits (take 8 b)) = 64
      then 64 + lcp (bbits (drop 8 a)) (bbits (drop 8 b)) else lcp (bbits (take 8 a)) (bbits (take 8 b)))"
    using lcp_append [of "bbits (take 8 a)" "bbits (take 8 b)" "bbits (drop 8 a)" "bbits (drop 8 b)"] l
    by (simp flip: bbits_append)
  then show ?thesis using l h z by (simp add: ip_commonBits_def BE_Uint_def slice_from_def)
qed

lemma choose_bit_nth: "unat c < 8 * length ip \<Longrightarrow> choose_bit c ip = Some (bbits ip ! unat c)"
proof -
  assume c: "unat c < 8 * length ip"
  have d: "unat (c div 8) = unat c div 8" "unat (c mod 8) = unat c mod 8" by (simp_all add: unat_div_distrib unat_mod_distrib)
  have "c mod 8 \<le> 7" using d(2) by (simp add: word_le_nat_alt)
  then have s: "unat (7 - c mod 8) = 7 - unat c mod 8" by (simp add: unat_sub d(2))
  have b: "drop_bit n x AND 1 = 1 \<longleftrightarrow> bit x n" for n and x :: byte
    unfolding and_one_eq bit_iff_odd_drop_bit odd_iff_mod_2_eq_one ..
  have "bbits ip ! unat c = bit (ip ! (unat c div 8)) (7 - unat c mod 8)" using c by (simp add: bbits_nth word_bits_nth)
  moreover have "unat c div 8 < length ip" using c by auto
  ultimately show ?thesis by (simp add: choose_bit_def d(1) s rd_def b)
qed

lemma bbits_maskSelf:
  assumes "unat c \<le> 8 * length bs"
  shows "bbits (maskSelf c bs) = take (unat c) (bbits bs) @ replicate (8 * length bs - unat c) False" "length (maskSelf c bs) = length bs"
proof -
  have m: "maskSelf c bs = map (\<lambda>i. bs ! i AND NOT (drop_bit (unat c - 8 * i) 0xff)) [0..<length bs]"
    using assms by (auto simp: maskSelf_def CIDRMask_def Let_def intro!: nth_equalityI)
  then show l: "length (maskSelf c bs) = length bs" by simp
  show "bbits (maskSelf c bs) = take (unat c) (bbits bs) @ replicate (8 * length bs - unat c) False"
  proof (rule nth_equalityI)
    fix i assume "i < length (bbits (maskSelf c bs))"
    then have i: "i < 8 * length bs" "i div 8 < length bs" using l by auto
    have ff: "bit (0xff :: byte) n \<longleftrightarrow> n < 8" for n
    proof -
      have e: "(0xff :: byte) = -1" by simp
      show ?thesis unfolding e by (simp only: bit_minus_1_iff possible_bit_word) simp
    qed
    have "bbits (maskSelf c bs) ! i = (bbits bs ! i \<and> i < unat c)"
    proof -
      have n: "maskSelf c bs ! (i div 8) = bs ! (i div 8) AND NOT (drop_bit (unat c - 8 * (i div 8)) 0xff)" using m i by simp
      have "unat c - 8 * (i div 8) + (7 - i mod 8) < 8 \<longleftrightarrow> \<not> i < unat c" by presburger
      then have "bit (maskSelf c bs ! (i div 8)) (7 - i mod 8) = (bit (bs ! (i div 8)) (7 - i mod 8) \<and> i < unat c)"
        unfolding n by (simp only: bit_and_iff bit_not_iff bit_drop_bit_eq comp_apply ff possible_bit_word) auto
      then show ?thesis using i l by (simp add: bbits_nth word_bits_nth)
    qed
    then show "bbits (maskSelf c bs) ! i = (take (unat c) (bbits bs) @ replicate (8 * length bs - unat c) False) ! i"
      using i assms by (auto simp: nth_append)
  qed (use assms l in simp)
qed

end
