(* ===== verification/Allowed_Routes.thy ===== *)
theory Allowed_Routes
  imports Allowed_Ips
begin

section \<open>The trie of allowed addresses as a map from prefixes to peers\<close>

text \<open>
  The invariant of the trie and the map from bit strings to peers it stands for: \<open>lookup\<close> is longest
  match on this map, \<open>insert\<close> and the body of \<open>RemoveByPeer\<close> change it at one key, and the lists of the
  peers name exactly the nodes that carry them.
\<close>

subsection \<open>Invariant and routes of a trie\<close>

definition ekey :: "byte \<Rightarrow> bytes \<Rightarrow> bool list" where
  "ekey k bs = take (unat k) (bbits bs)"

text \<open>The bits of a node are masked; a node without a peer has two children.\<close>

definition node_fits :: "nat \<Rightarrow> byte \<Rightarrow> bytes \<Rightarrow> bool" where
  "node_fits W k bs \<longleftrightarrow> fam W bs \<and> unat k \<le> W \<and> bbits bs = ekey k bs @ replicate (W - unat k) False"

fun trie_ok :: "nat \<Rightarrow> bool list \<Rightarrow> 'p trieEntry \<Rightarrow> bool" where
  "trie_ok W pre NilEntry = True"
| "trie_ok W pre (Entry p l r k bs) \<longleftrightarrow> node_fits W k bs \<and> Sublist.prefix pre (ekey k bs) \<and>
     trie_ok W (ekey k bs @ [False]) l \<and> trie_ok W (ekey k bs @ [True]) r \<and>
     (p = None \<longrightarrow> l \<noteq> NilEntry \<and> r \<noteq> NilEntry)"

fun rt :: "'p trieEntry \<Rightarrow> bool list \<Rightarrow> 'p option" where
  "rt NilEntry q = None"
| "rt (Entry p l r k bs) q =
     (if q = ekey k bs then p
      else if Sublist.prefix (ekey k bs) q then (if q ! unat k then rt r q else rt l q)
      else None)"

lemma node_fitsD:
  assumes "node_fits W k bs"
  shows "length (ekey k bs) = unat k" "length (bbits bs) = W" "unat k \<le> W" "fam W bs"
    "bbits bs = ekey k bs @ replicate (W - unat k) False" "Sublist.prefix (ekey k bs) (bbits bs)"
  using assms by (auto simp: node_fits_def ekey_def take_is_prefix dest: fam_bbits)

lemma trie_ok_weaken: "trie_ok W pre t \<Longrightarrow> Sublist.prefix pre' pre \<Longrightarrow> trie_ok W pre' t"
  by (cases t) (auto intro: prefix_order.trans)

lemma rt_Some: "trie_ok W pre t \<Longrightarrow> rt t q = Some v \<Longrightarrow> Sublist.prefix pre q \<and> length q \<le> W"
proof (induction t arbitrary: pre)
  case (Entry p l r k bs)
  have e: "length (ekey k bs) \<le> W" "Sublist.prefix pre (ekey k bs)" using Entry.prems node_fitsD by auto
  show ?case
  proof (cases "q = ekey k bs")
    case False
    then have "Sublist.prefix (ekey k bs) q" "length q \<le> W"
      using Entry by (auto split: if_splits)
    then show ?thesis using e by (blast intro: prefix_order.trans)
  qed (use e in simp)
qed simp

lemma rt_off: "trie_ok W pre t \<Longrightarrow> \<not> Sublist.prefix pre q \<Longrightarrow> rt t q = None"
  using rt_Some by (metis option.exhaust)

lemma rt_node: "trie_ok W pre t \<Longrightarrow> rt t K = Some p \<Longrightarrow> \<exists>c bs. node_fits W c bs \<and> ekey c bs = K"
  by (induction t arbitrary: pre) (auto split: if_splits)

lemma take_prefix_take: "k \<le> length A \<Longrightarrow> Sublist.prefix (take k A) (take n A) \<longleftrightarrow> k \<le> n"
proof
  show "k \<le> n" if "k \<le> length A" "Sublist.prefix (take k A) (take n A)" using prefix_length_le [OF that(2)] that(1) by simp
  show "Sublist.prefix (take k A) (take n A)" if "k \<le> n"
    using that take_is_prefix [of k "take n A"] by (simp add: min_absorb1)
qed

lemma rt_Entry_off: "\<not> Sublist.prefix (ekey k bs) q \<Longrightarrow> rt (Entry p l r k bs) q = None"
  by auto

lemma bbits_inject: "length a = length b \<Longrightarrow> bbits a = bbits b \<Longrightarrow> a = b"
  by (induction a b rule: list_induct2) (auto simp: bbits_def word_bits_inject)

lemma node_fits_inject: "node_fits W k a \<Longrightarrow> node_fits W k b \<Longrightarrow> ekey k a = ekey k b \<Longrightarrow> a = b"
  by (rule bbits_inject) (auto simp: node_fits_def fam_def)

lemma maskSelf_fits:
  assumes "fam W ip" "unat c \<le> W"
  shows "node_fits W c (maskSelf c ip)" "ekey c (maskSelf c ip) = take (unat c) (bbits ip)"
proof -
  have "8 * length ip = W" using assms(1) by (simp add: fam_def)
  then show "ekey c (maskSelf c ip) = take (unat c) (bbits ip)"
    using assms bbits_maskSelf(1) [of c ip] by (simp add: ekey_def)
  then show "node_fits W c (maskSelf c ip)"
    using assms bbits_maskSelf [of c ip] \<open>8 * length ip = W\<close> by (auto simp: node_fits_def fam_def)
qed

text \<open>The guard \<open>commonBits(node.bits, ip) >= node.cidr\<close>.\<close>

lemma lcp_ge_iff: "n \<le> length xs \<Longrightarrow> n \<le> lcp xs ys \<longleftrightarrow> Sublist.prefix (take n xs) ys"
proof
  assume n: "n \<le> length xs"
  show "Sublist.prefix (take n xs) ys" if "n \<le> lcp xs ys"
  proof -
    obtain zs where "xs = longest_common_prefix xs ys @ zs" using longest_common_prefix_prefix1 by (metis prefix_def)
    then have "take n xs = take n (longest_common_prefix xs ys)" using that by (metis append.right_neutral diff_is_0_eq take0 take_append)
    then show ?thesis using longest_common_prefix_prefix2 [of xs ys] take_is_prefix prefix_order.trans by metis
  qed
  show "n \<le> lcp xs ys" if "Sublist.prefix (take n xs) ys"
    using lcp_ge [OF take_is_prefix that] n by simp
qed

lemma unat_lcp: "fam W a \<Longrightarrow> unat (word_of_nat (lcp (bbits a) xs) :: byte) = lcp (bbits a) xs"
  using lcp_le [of "bbits a" xs] fam_bbits [of W a] fam_W [of W a] by (simp add: unat_of_nat)

lemma ip_commonBits_guard:
  assumes "node_fits W k bs" "fam W ip"
  shows "\<exists>c. ip_commonBits bs ip = Some c \<and> (c \<ge> k \<longleftrightarrow> Sublist.prefix (ekey k bs) (bbits ip))"
proof -
  note f = node_fitsD [OF assms(1)]
  have "k \<le> word_of_nat (lcp (bbits bs) (bbits ip)) \<longleftrightarrow> unat k \<le> lcp (bbits bs) (bbits ip)"
    by (simp add: word_le_nat_alt unat_lcp [OF f(4)])
  also have "\<dots> \<longleftrightarrow> Sublist.prefix (ekey k bs) (bbits ip)"
    unfolding ekey_def by (rule lcp_ge_iff) (simp only: f(2,3))
  finally show ?thesis using ip_commonBits_lcp [OF f(4) assms(2)] by blast
qed

lemma choose_bit_fits: "fam W ip \<Longrightarrow> unat k < W \<Longrightarrow> choose_bit k ip = Some (bbits ip ! unat k)"
  by (rule choose_bit_nth) (simp add: fam_def)

subsection \<open>Lookup\<close>

lemma lpm_over:
  assumes m: "m \<le> length A"
    and g: "\<And>n. n \<le> m \<Longrightarrow> g (take n A) = None"
    and f: "\<And>n. n \<le> length A \<Longrightarrow> f (take n A) = (if n = m then p else g (take n A))"
  shows "lpm f A = (case lpm g A of None \<Rightarrow> p | Some v \<Rightarrow> Some v)"
proof -
  obtain k where k: "Suc (length A) = m + (1 + k)" using m by (metis add_Suc_right le_Suc_ex plus_1_eq_Suc)
  have s: "rev [0..<Suc (length A)] = rev [m + 1..<Suc (length A)] @ [m] @ rev [0..<m]"
    unfolding k using upt_add_eq_append [of 0 m "1 + k"] upt_conv_Cons [of m "m + (1 + k)"] by (simp del: upt_Suc)
  have lo: "map (\<lambda>n. f (take n A)) (rev [0..<m]) = map (\<lambda>n. None) (rev [0..<m])" using f g m by simp
  have hi: "map (\<lambda>n. f (take n A)) (rev [m + 1..<Suc (length A)]) = map (\<lambda>n. g (take n A)) (rev [m + 1..<Suc (length A)])"
    using f [of "length A"] by (intro map_cong) (auto simp: f)
  have "first_some (map (\<lambda>n. None) (rev [0..<m])) = (None :: 'a option)" by (rule first_some_all_None) simp
  moreover have "first_some (map (\<lambda>n. g (take n A)) (m # rev [0..<m])) = None" by (rule first_some_all_None) (use g in auto)
  moreover have "f (take m A) = p" using f [OF m] by simp
  ultimately show ?thesis
    unfolding lpm_def s map_append first_some_append lo hi by (auto simp del: upt_Suc split: option.splits)
qed

lemma trie_lookup_lpm:
  assumes "trie_ok W pre t" "fam W ip"
  shows "trie_lookup t ip found = Some (case lpm (rt t) (bbits ip) of None \<Rightarrow> found | Some v \<Rightarrow> Some v)"
  using assms(1)
proof (induction t arbitrary: pre found)
  case NilEntry
  have "lpm (rt (NilEntry :: 'a trieEntry)) (bbits ip) = None" unfolding lpm_def by (rule first_some_all_None) simp
  then show ?case by (simp del: rt.simps)
next
  case (Entry p l r k bs)
  let ?A = "bbits ip" and ?e = "ekey k bs"
  have fits: "node_fits W k bs" using Entry.prems by simp
  note f = node_fitsD [OF fits]
  have A: "length ?A = W" by (rule fam_bbits [OF assms(2)])
  obtain c where c: "ip_commonBits bs ip = Some c" "c \<ge> k \<longleftrightarrow> Sublist.prefix ?e ?A"
    using ip_commonBits_guard [OF fits assms(2)] by blast
  show ?case
  proof (cases "Sublist.prefix ?e ?A")
    case False
    then have "\<not> Sublist.prefix ?e (take n ?A)" for n using take_is_prefix prefix_order.trans by blast
    then have "rt (Entry p l r k bs) (take n ?A) = None" for n by (rule rt_Entry_off)
    then have "lpm (rt (Entry p l r k bs)) ?A = None" unfolding lpm_def by (intro first_some_all_None)
    then show ?thesis using False c by (simp del: rt.simps)
  next
    case True
    then have e: "take (unat k) ?A = ?e" using f(1) by (metis append_eq_conv_conj prefix_def)
    define ch where "ch = (if unat k < W \<and> ?A ! unat k then r else l)"
    have ch: "trie_ok W (?e @ [unat k < W \<and> ?A ! unat k]) ch" using Entry.prems by (auto simp: ch_def)
    have low: "rt ch (take n ?A) = None" if "n \<le> unat k" for n
      using that A f(1) by (intro rt_off [OF ch]) (auto dest: prefix_length_le)
    have "rt (Entry p l r k bs) (take n ?A) = (if n = unat k then p else rt ch (take n ?A))" if n: "n \<le> W" for n
    proof -
      have "Sublist.prefix ?e (take n ?A) \<longleftrightarrow> unat k \<le> n"
        unfolding e [symmetric] by (rule take_prefix_take) (use A f(3) in simp)
      moreover have "take n ?A = ?e \<longleftrightarrow> n = unat k" using e A n f(1) by (metis length_take min.absorb2)
      ultimately show ?thesis using low n A by (auto simp: ch_def)
    qed
    then have lpm: "lpm (rt (Entry p l r k bs)) ?A = (case lpm (rt ch) ?A of None \<Rightarrow> p | Some v \<Rightarrow> Some v)"
      using f(3) A low by (intro lpm_over [where m = "unat k"]) auto
    show ?thesis
    proof (cases "k div 8 = word_of_nat (length ip)")
      case stop: True
      then have "unat k div 8 = length ip" using assms(2) by (auto simp: fam_def word_unat_eq_iff unat_div_distrib)
      then have "unat k = W" using assms(2) f(3) by (auto simp: fam_def)
      moreover have "rt ch (take n ?A) = None" for n
        using \<open>unat k = W\<close> A f(1) by (intro rt_off [OF ch]) (auto dest: prefix_length_le)
      then have "lpm (rt ch) ?A = None" unfolding lpm_def by (intro first_some_all_None) auto
      ultimately show ?thesis using stop True c lpm by (auto simp del: rt.simps split: option.splits)
    next
      case go: False
      have "unat k \<noteq> W"
      proof
        assume "unat k = W"
        then have "unat k div 8 = length ip" using assms(2) by (auto simp: fam_def)
        then show False using go assms(2) by (auto simp: fam_def word_unat_eq_iff unat_div_distrib)
      qed
      then have kW: "unat k < W" using f(3) by simp
      note bit = choose_bit_fits [OF assms(2) kW]
      have "trie_lookup (Entry p l r k bs) ip found = trie_lookup ch ip (if p \<noteq> None then p else found)"
        using True c go bit kW by (simp add: ch_def)
      also have "\<dots> = Some (case lpm (rt ch) ?A of None \<Rightarrow> (if p \<noteq> None then p else found) | Some v \<Rightarrow> Some v)"
        using Entry.IH Entry.prems by (auto simp: ch_def)
      finally show ?thesis unfolding lpm by (auto split: option.splits)
    qed
  qed
qed

subsection \<open>Insertion\<close>

definition route_at :: "nat \<Rightarrow> bool list \<Rightarrow> 'p trieEntry \<Rightarrow> bool list \<Rightarrow> 'p option \<Rightarrow> 'p trieEntry \<Rightarrow> bool" where
  "route_at W pre t K x t' \<longleftrightarrow> trie_ok W pre t' \<and> rt t' = (rt t)(K := x)"

lemma prefix_drop_nth: "Sublist.prefix (take n xs @ [b]) q \<Longrightarrow> n \<le> length xs \<Longrightarrow> Sublist.prefix (take n xs) q \<and> q \<noteq> take n xs \<and> q ! n = b"
  by (auto simp: prefix_def nth_append)

text \<open>A node above another one.\<close>

lemma route_above:
  assumes K: "node_fits W c ip" "Sublist.prefix pre (ekey c ip)" and t: "trie_ok W pre' t" "t \<noteq> NilEntry"
    and b: "pre' = ekey c ip @ [b]"
  shows "route_at W pre t (ekey c ip) (Some p) (set_child (Entry (Some p) NilEntry NilEntry c ip) b t)"
proof -
  have "rt (set_child (Entry (Some p) NilEntry NilEntry c ip) b t) q = ((rt t)(ekey c ip := Some p)) q" for q
  proof (cases "Sublist.prefix pre' q")
    case True
    then have "Sublist.prefix (ekey c ip) q" "q \<noteq> ekey c ip" "q ! unat c = b"
      using node_fitsD(1) [OF K(1)] b by (auto simp: prefix_def nth_append)
    then show ?thesis by (cases b) auto
  next
    case False
    then show ?thesis using rt_off [OF t(1)] by (cases b) auto
  qed
  then show ?thesis using K t(1) b by (cases b) (auto simp: route_at_def)
qed

text \<open>A node without a peer above two others.\<close>

lemma route_fork:
  assumes N: "node_fits W n ip" "Sublist.prefix pre (ekey n ip)"
    and t: "trie_ok W (ekey n ip @ [b]) t" "t \<noteq> NilEntry"
    and new: "node_fits W c ip'" "Sublist.prefix (ekey n ip @ [\<not> b]) (ekey c ip')"
  shows "route_at W pre t (ekey c ip') (Some p)
    (set_child (set_child (Entry None NilEntry NilEntry n ip) b t) (\<not> b) (Entry (Some p) NilEntry NilEntry c ip'))" (is "route_at _ _ _ _ _ ?t'")
proof -
  let ?E = "ekey n ip" and ?K = "ekey c ip'"
  note len = node_fitsD(1) [OF N(1)]
  have "rt ?t' q = ((rt t)(?K := Some p)) q" for q
  proof (cases "Sublist.prefix (?E @ [b]) q")
    case True
    then have "Sublist.prefix ?E q" "q \<noteq> ?E" "q ! unat n = b" using len by (auto simp: prefix_def nth_append)
    moreover have "q \<noteq> ?K" using new(2) \<open>q ! unat n = b\<close> len by (auto simp: prefix_def nth_append)
    ultimately show ?thesis by (cases b) auto
  next
    case False
    have "rt t q = None" by (rule rt_off [OF t(1) False])
    moreover have "Sublist.prefix ?E ?K" "?K \<noteq> ?E" "?K ! unat n = (\<not> b)" using new(2) len by (auto simp: prefix_def nth_append)
    ultimately show ?thesis by (cases b) auto
  qed
  then show ?thesis using N t new by (cases b) (auto simp: route_at_def)
qed

lemma fits_nth: "node_fits W k bs \<Longrightarrow> n < unat k \<Longrightarrow> bbits bs ! n = ekey k bs ! n"
  by (simp add: ekey_def)

lemma take_nth_prefix: "n < length xs \<Longrightarrow> Sublist.prefix (take n xs @ [xs ! n]) xs"
  by (metis take_Suc_conv_app_nth take_is_prefix)

lemma splice_route:
  assumes t: "trie_ok W pre (Entry p l r k bs)" and ip: "node_fits W c ip" "Sublist.prefix pre (ekey c ip)"
    and off: "\<not> (k \<le> c \<and> Sublist.prefix (ekey k bs) (ekey c ip))"
  shows "\<exists>t'. splice (Entry p l r k bs) ip c peer = Some t' \<and>
    route_at W pre (Entry p l r k bs) (ekey c ip) (Some peer) t' \<and> t' \<noteq> NilEntry"
proof -
  let ?t = "Entry p l r k bs" and ?K = "ekey c ip" and ?e = "ekey k bs" and ?A = "bbits ip" and ?B = "bbits bs"
  have fits: "node_fits W k bs" and pre: "Sublist.prefix pre ?e" using t by simp_all
  note f = node_fitsD [OF fits] and g = node_fitsD [OF ip(1)]
  define m where "m = lcp ?B ?A"
  have common: "ip_commonBits bs ip = Some (word_of_nat m)" unfolding m_def by (rule ip_commonBits_lcp [OF f(4) g(4)])
  have um: "unat (word_of_nat m :: byte) = m" unfolding m_def by (rule unat_lcp [OF f(4)])
  have short: "Sublist.prefix ?e ?K" if "unat k \<le> m" "k \<le> c"
  proof -
    have "Sublist.prefix ?e ?A" using that(1) lcp_ge_iff [of "unat k" ?B ?A] f(2,3) by (simp add: m_def ekey_def)
    then show ?thesis using that(2) f(1) g(1,6) prefix_length_prefix [of ?e ?A ?K] by (simp add: word_le_nat_alt)
  qed
  show ?thesis
  proof (cases "word_of_nat m < c")
    case False
    then have cm: "unat c \<le> m" using um by (simp add: word_less_nat_alt)
    have ck: "unat c < unat k"
    proof (rule ccontr)
      assume "\<not> unat c < unat k"
      then have "unat k \<le> m" "k \<le> c" using cm by (simp_all add: word_le_nat_alt)
      then show False using short off by simp
    qed
    have "take (unat c) ?B = take (unat c) ?A"
      using arg_cong [OF lcp_take [of ?B ?A], of "take (unat c)"] cm by (simp add: m_def [symmetric] min_absorb1)
    then have K: "take (unat c) ?e = ?K" using ck by (simp add: ekey_def min_absorb1)
    have bit: "choose_bit c bs = Some (?e ! unat c)"
      using choose_bit_fits [OF f(4)] fits_nth [OF fits ck] ck f(3) by simp
    have "trie_ok W (?K @ [?e ! unat c]) ?t" using t take_nth_prefix [of "unat c" ?e] ck f(1) K by simp
    then have "route_at W pre ?t ?K (Some peer) (set_child (Entry (Some peer) NilEntry NilEntry c ip) (?e ! unat c) ?t)"
      by (rule route_above [OF ip _ _ refl]) simp
    moreover have "splice ?t ip c peer = Some (set_child (Entry (Some peer) NilEntry NilEntry c ip) (?e ! unat c) ?t)"
      using common False bit by (simp add: splice_def)
    ultimately show ?thesis by (cases "?e ! unat c") auto
  next
    case True
    let ?n = "word_of_nat m :: byte"
    have mc: "m < unat c" using True um by (simp add: word_less_nat_alt)
    have mk: "m < unat k"
    proof (rule ccontr)
      assume "\<not> m < unat k"
      then have "unat k \<le> m" "k \<le> c" using mc by (simp_all add: word_le_nat_alt)
      then show False using short off by simp
    qed
    have "fam W (maskSelf ?n ip)" using maskSelf_fits(1) [OF g(4), of ?n] um mc g(3) by (simp add: node_fits_def)
    have N: "node_fits W ?n (maskSelf ?n ip)" "ekey ?n (maskSelf ?n ip) = take m ?A"
      using maskSelf_fits [OF g(4), of ?n] um mc g(3) by simp_all
    have nth: "?A ! m = ?K ! m" "?B ! m = ?e ! m" using fits_nth [OF ip(1) mc] fits_nth [OF fits mk] .
    have eq: "take m ?A = take m ?K" "take m ?A = take m ?e"
      using lcp_take [of ?B ?A] mc mk by (simp_all add: ekey_def m_def [symmetric] min_absorb1)
    have "m < length ?A" "m < length ?B" using mc g(2,3) f(2) by simp_all
    then have ne: "?K ! m = (\<not> ?e ! m)" using lcp_nth [of ?B ?A] nth by (auto simp: m_def)
    have "length pre \<le> m" unfolding m_def
      by (rule lcp_ge) (use pre ip(2) f(6) g(6) prefix_order.trans in blast)+
    moreover have "Sublist.prefix pre ?A" by (rule prefix_order.trans [OF ip(2) g(6)])
    ultimately have "Sublist.prefix pre (take m ?A)"
      using \<open>m < length ?A\<close> by (auto simp: prefix_def)
    moreover have "trie_ok W (take m ?A @ [?e ! m]) ?t" using t take_nth_prefix [of m ?e] mk f(1) eq(2) by simp
    moreover have "Sublist.prefix (take m ?A @ [\<not> ?e ! m]) ?K" using take_nth_prefix [of m ?K] mc g(1) eq(1) ne by simp
    ultimately have "route_at W pre ?t ?K (Some peer) (set_child (set_child (Entry None NilEntry NilEntry ?n (maskSelf ?n ip)) (?e ! m) ?t)
        (\<not> ?e ! m) (Entry (Some peer) NilEntry NilEntry c ip))"
      using route_fork [OF N(1), of pre "?e ! m" ?t c ip peer] ip(1) N(2) by (simp only: simp_thms trieEntry.distinct)
    moreover have "choose_bit ?n bs = Some (?e ! m)" "choose_bit ?n ip = Some (\<not> ?e ! m)"
      using choose_bit_fits [OF f(4), of ?n] choose_bit_fits [OF g(4), of ?n] um mc g(3) nth ne by simp_all
    ultimately show ?thesis using common True by (cases "?e ! m") (auto simp: splice_def Let_def)
  qed
qed

text \<open>A change in one child.\<close>

lemma route_child:
  assumes t: "trie_ok W pre (Entry p l r k bs)" and K: "Sublist.prefix (ekey k bs @ [b]) K"
    and c: "route_at W (ekey k bs @ [b]) (child (Entry p l r k bs) b) K x c'" "p = None \<Longrightarrow> c' \<noteq> NilEntry"
  shows "route_at W pre (Entry p l r k bs) K x (set_child (Entry p l r k bs) b c')"
proof -
  have "length (ekey k bs) = unat k" using t node_fitsD by auto
  then have "K \<noteq> ekey k bs" "Sublist.prefix (ekey k bs) K" "K ! unat k = b" using K by (auto simp: prefix_def nth_append)
  then have "rt (set_child (Entry p l r k bs) b c') = (rt (Entry p l r k bs))(K := x)"
    using c(1) by (intro ext) (cases b; auto simp: route_at_def child_def)
  then show ?thesis using t c by (cases b) (auto simp: route_at_def)
qed

lemma trie_ok_child: "trie_ok W pre (Entry p l r k bs) \<Longrightarrow> trie_ok W (ekey k bs @ [b]) (child (Entry p l r k bs) b)"
  by (simp add: child_def)

lemma rt_child: "Sublist.prefix (ekey k bs @ [b]) K \<Longrightarrow> length (ekey k bs) = unat k \<Longrightarrow>
    rt (Entry p l r k bs) K = rt (child (Entry p l r k bs) b) K"
  by (auto simp: prefix_def nth_append child_def)

lemma rt_union:
  assumes "trie_ok W pre (Entry p l r k bs)"
  shows "rt (Entry p l r k bs) q = (if q = ekey k bs then p
    else case rt (child (Entry p l r k bs) b) q of None \<Rightarrow> rt (child (Entry p l r k bs) (\<not> b)) q | Some v \<Rightarrow> Some v)"
proof -
  have len: "length (ekey k bs) = unat k" using assms node_fitsD by auto
  have ch: "rt (child (Entry p l r k bs) c) q = (if Sublist.prefix (ekey k bs) q \<and> q \<noteq> ekey k bs \<and> q ! unat k = c
      then rt (Entry p l r k bs) q else None)" for c
  proof (cases "Sublist.prefix (ekey k bs @ [c]) q")
    case True
    then show ?thesis using rt_child [OF True len, of p l r] len by (auto simp: prefix_def nth_append)
  next
    case False
    then have "\<not> (Sublist.prefix (ekey k bs) q \<and> q \<noteq> ekey k bs \<and> q ! unat k = c)"
      using len by (auto simp: prefix_def nth_append neq_Nil_conv)
    then show ?thesis using rt_off [OF trie_ok_child [OF assms] False] by auto
  qed
  show ?thesis using ch [of b] ch [of "\<not> b"] rt_Entry_off [of k bs q p l r] by (cases "q = ekey k bs") (auto split: option.splits)
qed

lemma rt_child_key: "trie_ok W pre (Entry p l r k bs) \<Longrightarrow> rt (child (Entry p l r k bs) b) (ekey k bs) = None"
  by (rule rt_off [OF trie_ok_child]) (auto dest: prefix_length_le)

text \<open>\<open>insert\<close> with the two branches of the walk in one.\<close>

lemma trie_insert_step:
  "trie_insert (Entry p l r k bs) ip cidr peer = do {
     below \<leftarrow> (if k \<le> cidr then do { c \<leftarrow> ip_commonBits bs ip; Some (c \<ge> k) } else Some False);
     if below then
       (if k = cidr then Some (p, bs, Entry (Some peer) l r k bs)
        else do {
          bit \<leftarrow> choose_bit k ip;
          (old, nb, c') \<leftarrow> trie_insert (child (Entry p l r k bs) bit) ip cidr peer;
          Some (old, nb, set_child (Entry p l r k bs) bit c') })
     else do {
       t \<leftarrow> splice (Entry p l r k bs) (maskSelf cidr ip) cidr peer;
       Some (None, maskSelf cidr ip, t) } }"
  by (cases "ip_commonBits bs ip"; cases "choose_bit k ip"; cases "the (choose_bit k ip)") (auto simp: child_def)

lemma trie_insert_route:
  assumes "trie_ok W pre t" and ip: "fam W ip" "unat c \<le> W" and "Sublist.prefix pre K"
    and K: "K = take (unat c) (bbits ip)"
  shows "\<exists>t'. trie_insert t ip c peer = Some (rt t K, maskSelf c ip, t') \<and> route_at W pre t K (Some peer) t' \<and> t' \<noteq> NilEntry"
  using assms(1,4)
proof (induction t arbitrary: pre)
  case NilEntry
  note m = maskSelf_fits [OF ip]
  have "rt (Entry (Some peer) NilEntry NilEntry c (maskSelf c ip)) = (rt NilEntry)(K := Some peer)"
    using m K by (intro ext) simp
  then show ?case using m K NilEntry by (auto simp: route_at_def)
next
  case (Entry p l r k bs)
  let ?t = "Entry p l r k bs" and ?e = "ekey k bs" and ?A = "bbits ip"
  have fits: "node_fits W k bs" using Entry.prems by simp
  note f = node_fitsD [OF fits] and m = maskSelf_fits [OF ip]
  have A: "length ?A = W" by (rule fam_bbits [OF ip(1)])
  then have lenK: "length K = unat c" using K ip(2) by simp
  have KA: "Sublist.prefix K ?A" using K take_is_prefix by blast
  obtain d where d: "ip_commonBits bs ip = Some d" "d \<ge> k \<longleftrightarrow> Sublist.prefix ?e ?A"
    using ip_commonBits_guard [OF fits ip(1)] by blast
  have eK: "Sublist.prefix ?e K \<longleftrightarrow> Sublist.prefix ?e ?A" if "k \<le> c"
    using KA prefix_length_prefix [OF _ KA, of ?e] that f(1) lenK by (auto simp: word_le_nat_alt intro: prefix_order.trans)
  show ?case
  proof (cases "k \<le> c \<and> Sublist.prefix ?e ?A")
    case False
    have "rt ?t K = None"
    proof (rule rt_Entry_off)
      show "\<not> Sublist.prefix ?e K"
      proof
        assume e: "Sublist.prefix ?e K"
        then have "k \<le> c" using prefix_length_le f(1) lenK by (fastforce simp: word_le_nat_alt)
        then show False using False eK e by blast
      qed
    qed
    moreover have "trie_insert ?t ip c peer = do { t \<leftarrow> splice ?t (maskSelf c ip) c peer; Some (None, maskSelf c ip, t) }"
      using False d by (auto simp del: trie_insert.simps simp: trie_insert_step)
    ultimately show ?thesis
      using splice_route [OF Entry.prems(1) m(1), of peer] m(2) K Entry.prems(2) False eK by auto
  next
    case True
    show ?thesis
    proof (cases "k = c")
      case same: True
      have "K = ?e" using True eK lenK f(1) same by (metis append_eq_conv_conj prefix_def take_all order_refl)
      then have bs: "bs = maskSelf c ip" using node_fits_inject [of W c bs "maskSelf c ip"] fits same m K by simp
      have "rt (Entry (Some peer) l r k bs) = (rt ?t)(K := Some peer)" using \<open>K = ?e\<close> by (intro ext) simp
      moreover have "trie_insert ?t ip c peer = Some (p, bs, Entry (Some peer) l r k bs)" using True same d by simp
      ultimately show ?thesis using Entry.prems \<open>K = ?e\<close> bs by (auto simp: route_at_def)
    next
      case False
      then have kc: "unat k < unat c" using True by (metis order_le_less word_less_nat_alt)
      define b where "b = ?A ! unat k"
      have bit: "choose_bit k ip = Some b" unfolding b_def using choose_bit_fits [OF ip(1)] kc ip(2) by simp
      have "take (unat k) K = ?e" using True eK f(1) by (metis append_eq_conv_conj prefix_def)
      moreover have "K ! unat k = b" using K kc by (simp add: b_def)
      ultimately have pK: "Sublist.prefix (?e @ [b]) K" using take_nth_prefix [of "unat k" K] lenK kc by simp
      have "\<exists>t'. trie_insert (child ?t b) ip c peer = Some (rt (child ?t b) K, maskSelf c ip, t') \<and>
          route_at W (?e @ [b]) (child ?t b) K (Some peer) t' \<and> t' \<noteq> NilEntry"
        using Entry.IH Entry.prems(1) pK by (cases b) (auto simp: child_def)
      then obtain t' where t': "trie_insert (child ?t b) ip c peer = Some (rt (child ?t b) K, maskSelf c ip, t')"
          "route_at W (?e @ [b]) (child ?t b) K (Some peer) t'" "t' \<noteq> NilEntry" by blast
      have "trie_insert ?t ip c peer = Some (rt (child ?t b) K, maskSelf c ip, set_child ?t b t')"
        using True False d bit t'(1) by (simp add: trie_insert_step del: trie_insert.simps)
      moreover have "set_child ?t b t' \<noteq> NilEntry" by (cases b) simp_all
      ultimately show ?thesis
        using route_child [OF Entry.prems(1) pK t'(2)] t'(3) rt_child [OF pK f(1), of p l r] by auto
    qed
  qed
qed

subsection \<open>Removal\<close>

lemma unlink_step:
  "unlink cidr bits (Entry p l r k bs) =
     (if k = cidr \<and> bs = bits then
        (if l \<noteq> NilEntry \<and> r \<noteq> NilEntry then Some (False, Entry None l r k bs)
         else let c = (if l = NilEntry then r else l) in Some (c = NilEntry, c))
      else do {
        b \<leftarrow> choose_bit k bits;
        (leaf, c') \<leftarrow> unlink cidr bits (child (Entry p l r k bs) b);
        Some (False, if leaf \<and> p = None then child (Entry p l r k bs) (\<not> b) else set_child (Entry p l r k bs) b c') })"
  by (cases "choose_bit k bits"; cases "the (choose_bit k bits)") (auto simp: child_def Let_def cong: if_cong)

lemma unlink_route:
  assumes "trie_ok W pre t" "node_fits W c bits" "rt t (ekey c bits) \<noteq> None"
  shows "\<exists>leaf t'. unlink c bits t = Some (leaf, t') \<and> route_at W pre t (ekey c bits) None t' \<and> (leaf \<longleftrightarrow> t' = NilEntry)"
  using assms(1,3)
proof (induction t arbitrary: pre)
  case (Entry p l r k bs)
  let ?t = "Entry p l r k bs" and ?e = "ekey k bs" and ?K = "ekey c bits"
  have fits: "node_fits W k bs" and pre: "Sublist.prefix pre ?e" using Entry.prems by simp_all
  note f = node_fitsD [OF fits] and g = node_fitsD [OF assms(2)]
  show ?case
  proof (cases "k = c \<and> bs = bits")
    case True
    then have "rt (Entry None l r k bs) = (rt ?t)(?K := None)" by (intro ext) simp
    moreover have "rt (child ?t b) = (rt ?t)(?K := None)" if "child ?t (\<not> b) = NilEntry" for b
      using rt_union [OF Entry.prems(1), of _ b] rt_child_key [OF Entry.prems(1)] that True
      by (intro ext) (auto simp del: rt.simps(2) split: option.splits)
    note one = this [of True] this [of False]
    ultimately show ?thesis
      using True Entry.prems(1) pre f(1) one trie_ok_weaken [of W "?e @ [True]" r pre] trie_ok_weaken [of W "?e @ [False]" l pre]
      by (auto simp: route_at_def child_def Let_def)
  next
    case False
    have "?K \<noteq> ?e" using False node_fits_inject [OF fits, of bits] assms(2) f(1) g(1) by (metis word_unat_eq_iff)
    moreover have "Sublist.prefix ?e ?K" using Entry.prems(2) by (auto split: if_splits)
    ultimately have kc: "unat k < unat c" and tk: "take (unat k) ?K = ?e"
      using f(1) g(1) by (metis append_eq_conv_conj length_take min.absorb4 not_le_imp_less prefix_def take_all)+
    define b where "b = ?K ! unat k"
    have bit: "choose_bit k bits = Some b"
      using choose_bit_fits [OF g(4)] fits_nth [OF assms(2) kc] kc g(3) by (simp add: b_def)
    have pK: "Sublist.prefix (?e @ [b]) ?K" using take_nth_prefix [of "unat k" ?K] tk kc g(1) by (simp add: b_def)
    note rc = rt_child [OF pK f(1), of p l r]
    have "\<exists>leaf t'. unlink c bits (child ?t b) = Some (leaf, t') \<and> route_at W (?e @ [b]) (child ?t b) ?K None t' \<and> (leaf \<longleftrightarrow> t' = NilEntry)"
      using Entry.IH Entry.prems rc trie_ok_child [OF Entry.prems(1), of b] by (cases b) (simp_all add: child_def)
    then obtain leaf t' where t': "unlink c bits (child ?t b) = Some (leaf, t')"
        "route_at W (?e @ [b]) (child ?t b) ?K None t'" "leaf \<longleftrightarrow> t' = NilEntry" by blast
    have u: "unlink c bits ?t = Some (False, if leaf \<and> p = None then child ?t (\<not> b) else set_child ?t b t')"
      using False bit t'(1) by (auto simp add: unlink_step simp del: unlink.simps)
    show ?thesis
    proof (cases "leaf \<and> p = None")
      case lift: True
      have ok: "trie_ok W (?e @ [\<not> b]) (child ?t (\<not> b))" by (rule trie_ok_child [OF Entry.prems(1)])
      have "rt (child ?t b) q = None" if "q \<noteq> ?K" for q
        using t'(2,3) lift that by (metis fun_upd_other route_at_def rt.simps(1))
      then have "rt ?t q = rt (child ?t (\<not> b)) q" if "q \<noteq> ?K" for q
        using rt_union [OF Entry.prems(1), of q b] rt_child_key [OF Entry.prems(1)] lift that by auto
      moreover have "rt (child ?t (\<not> b)) ?K = None" by (rule rt_off [OF ok]) (use pK in \<open>auto simp: prefix_def\<close>)
      ultimately have "rt (child ?t (\<not> b)) = (rt ?t)(?K := None)" by (intro ext) (simp del: rt.simps)
      moreover have "child ?t (\<not> b) \<noteq> NilEntry" using lift Entry.prems(1) by (cases b) (auto simp: child_def)
      ultimately show ?thesis using u lift trie_ok_weaken [OF ok, of pre] pre by (auto simp: route_at_def)
    next
      case keep: False
      then have "p = None \<Longrightarrow> t' \<noteq> NilEntry" using t'(3) by blast
      then have "route_at W pre ?t ?K None (set_child ?t b t')" by (rule route_child [OF Entry.prems(1) pK t'(2)])
      moreover have "set_child ?t b t' \<noteq> NilEntry" by (cases b) simp_all
      ultimately show ?thesis using u keep by auto
    qed
  qed
qed simp

subsection \<open>The table\<close>

definition wid :: "bool \<Rightarrow> nat" where
  "wid v6 = (if v6 then 128 else 32)"

text \<open>Both tries are well formed, and the list of a peer names, without duplicates, the nodes that carry it.\<close>

definition listed :: "'p AllowedIPs \<Rightarrow> 'p \<Rightarrow> bool \<times> byte \<times> bytes \<Rightarrow> bool" where
  "listed t p = (\<lambda>(v6, c, bs). node_fits (wid v6) c bs \<and> rt (root t v6) (ekey c bs) = Some p)"

definition aips_ok :: "'p AllowedIPs \<Rightarrow> bool" where
  "aips_ok t \<longleftrightarrow> (\<forall>v6. trie_ok (wid v6) [] (root t v6)) \<and>
     (\<forall>p. distinct (trieEntries t p) \<and> (\<forall>e. e \<in> set (trieEntries t p) \<longleftrightarrow> listed t p e))"

definition aroutes :: "'p AllowedIPs \<Rightarrow> prefix \<Rightarrow> 'p option" where
  "aroutes t p = rt (root t (Is6 (pfx_addr p))) (pfx_key p)"

lemma root_set [simp]: "root (set_root t v6 n) f = (if f = v6 then n else root t f)"
  "root (t\<lparr>trieEntries := es\<rparr>) f = root t f" "trieEntries (set_root t v6 n) = trieEntries t"
  by (simp_all add: root_def set_root_def)

lemma newAllowedIPs_ok: "aips_ok newAllowedIPs" "aroutes newAllowedIPs p = None"
  by (simp_all add: aips_ok_def listed_def aroutes_def newAllowedIPs_def root_def split: prod.splits)

lemma move_entry_simps [simp]:
  "root (move_entry old peer e t) f = root t f"
  "trieEntries (move_entry old peer e t) q =
     (let l = (if old = Some q then remove1 e (trieEntries t q) else trieEntries t q) in if q = peer then l @ [e] else l)"
  by (auto simp: move_entry_def Let_def split: option.splits)

text \<open>Setting one route in a table whose lists are updated accordingly.\<close>

lemma aips_ok_set:
  assumes t: "aips_ok t" and fits: "node_fits (wid v6) c nb" and n: "route_at (wid v6) [] (root t v6) (ekey c nb) x n"
    and es: "\<And>p. distinct (es p) \<and> set (es p) =
      (if x = Some p then insert (v6, c, nb) (set (trieEntries t p)) else set (trieEntries t p) - {(v6, c, nb)})"
  shows "aips_ok (set_root (t\<lparr>trieEntries := es\<rparr>) v6 n)"
proof -
  have "listed (set_root (t\<lparr>trieEntries := es\<rparr>) v6 n) p (f, d, bs) \<longleftrightarrow>
      (if (f, d, bs) = (v6, c, nb) then x = Some p else listed t p (f, d, bs))" for p f d bs
  proof (cases "f = v6 \<and> node_fits (wid v6) d bs \<and> ekey d bs = ekey c nb")
    case True
    then have "unat d = unat c" using node_fitsD(1) [OF fits] node_fitsD(1) [of "wid v6" d bs] by simp
    then have "d = c" by (simp add: word_unat_eq_iff)
    then have "bs = nb" using True fits node_fits_inject by blast
    then show ?thesis using True \<open>d = c\<close> n by (simp add: listed_def route_at_def)
  next
    case False
    then have "(f, d, bs) \<noteq> (v6, c, nb)" using fits by auto
    then show ?thesis using False n by (auto simp: listed_def route_at_def)
  qed
  then show ?thesis using t n es by (auto simp: aips_ok_def route_at_def split: if_splits)
qed

lemma insert_family_ok:
  assumes t: "aips_ok t" and ip: "fam (wid v6) ip" "unat c \<le> wid v6"
  shows "\<exists>t'. insert_family v6 ip c peer t = Some t' \<and> aips_ok t' \<and>
    (\<forall>f K. rt (root t' f) K = (if f = v6 \<and> K = take (unat c) (bbits ip) then Some peer else rt (root t f) K))"
proof -
  let ?K = "take (unat c) (bbits ip)" and ?nb = "maskSelf c ip"
  note m = maskSelf_fits [OF ip]
  have ok: "trie_ok (wid v6) [] (root t v6)" using t by (simp add: aips_ok_def)
  obtain n where n: "trie_insert (root t v6) ip c peer = Some (rt (root t v6) ?K, ?nb, n)"
      "route_at (wid v6) [] (root t v6) ?K (Some peer) n"
    using trie_insert_route [OF ok ip, of ?K peer] by auto
  let ?t' = "move_entry (rt (root t v6) ?K) peer (v6, c, ?nb) (set_root t v6 n)"
  have d: "distinct (trieEntries t p)" and mem: "(v6, c, ?nb) \<in> set (trieEntries t p) \<longleftrightarrow> rt (root t v6) ?K = Some p" for p
    using t m by (auto simp: aips_ok_def listed_def)
  have "?t' = set_root (t\<lparr>trieEntries := trieEntries ?t'\<rparr>) v6 n" by (simp add: move_entry_def set_root_def Let_def)
  moreover have "aips_ok (set_root (t\<lparr>trieEntries := trieEntries ?t'\<rparr>) v6 n)"
    by (rule aips_ok_set [OF t m(1)]) (use n(2) m(2) d mem in \<open>auto simp: Let_def\<close>)
  ultimately have "aips_ok ?t'" by simp
  moreover have "insert_family v6 ip c peer t = Some ?t'" by (simp add: insert_family_def n(1))
  moreover have "rt (root ?t' f) K = (if f = v6 \<and> K = ?K then Some peer else rt (root t f) K)" for f K
    using n(2) by (simp add: route_at_def)
  ultimately show ?thesis by blast
qed

lemma remove_loop_ok:
  assumes "aips_ok t" "trieEntries t peer = es"
  shows "\<exists>t'. remove_loop peer es t = Some t' \<and> aips_ok t' \<and>
    (\<forall>f K. rt (root t' f) K = (if rt (root t f) K = Some peer then None else rt (root t f) K))"
  using assms
proof (induction es arbitrary: t)
  case Nil
  have "rt (root t f) K \<noteq> Some peer" for f K
  proof
    assume r: "rt (root t f) K = Some peer"
    have ok: "trie_ok (wid f) [] (root t f)" using Nil by (simp add: aips_ok_def)
    obtain c bs where "node_fits (wid f) c bs" "ekey c bs = K" using rt_node [OF ok r] by blast
    then have "listed t peer (f, c, bs)" using r by (simp add: listed_def)
    then have "(f, c, bs) \<in> set (trieEntries t peer)" using Nil.prems(1) by (simp add: aips_ok_def)
    then show False using Nil by simp
  qed
  then show ?case using Nil by auto
next
  case (Cons e es)
  obtain v6 c bs where e: "e = (v6, c, bs)" by (cases e)
  let ?es = "(trieEntries t)(peer := es)"
  have "listed t peer e" and d: "distinct (e # es)" using Cons.prems unfolding aips_ok_def by (metis list.set_intros(1))+
  then have l: "node_fits (wid v6) c bs" "rt (root t v6) (ekey c bs) = Some peer" using e by (simp_all add: listed_def)
  have ok: "trie_ok (wid v6) [] (root t v6)" using Cons.prems by (simp add: aips_ok_def)
  obtain leaf n where n: "unlink c bs (root t v6) = Some (leaf, n)" "route_at (wid v6) [] (root t v6) (ekey c bs) None n"
    using unlink_route [OF ok l(1)] l(2) by auto
  let ?t = "set_root (t\<lparr>trieEntries := ?es\<rparr>) v6 n"
  have other: "e \<notin> set (trieEntries t p)" if "p \<noteq> peer" for p
    using Cons.prems(1) l e that by (auto simp: aips_ok_def listed_def)
  have "aips_ok ?t"
    by (rule aips_ok_set [OF Cons.prems(1) l(1) n(2)]) (use Cons.prems d e other in \<open>auto simp: aips_ok_def\<close>)
  then obtain t' where t': "remove_loop peer es ?t = Some t'" "aips_ok t'"
      "\<And>f K. rt (root t' f) K = (if rt (root ?t f) K = Some peer then None else rt (root ?t f) K)"
    using Cons.IH [of ?t] by auto
  have "remove_loop peer (e # es) t = Some t'"
    using n(1) t'(1) Cons.prems(2) e by (simp add: Let_def)
  moreover have "rt (root t' f) K = (if rt (root t f) K = Some peer then None else rt (root t f) K)" for f K
    using t'(3) [of f K] n(2) l(2) by (auto simp: route_at_def)
  ultimately show ?case using t'(2) by blast
qed

subsection \<open>Prefixes and addresses\<close>

lemma bbits_be_bytes: "LENGTH('a::len) = 8 * n \<Longrightarrow> bbits (be_bytes n (w :: 'a word)) = word_bits w"
  using bbits_be_word [where 'a = 'a, of "be_bytes n w"] by simp

lemma bbits_Nil: "bbits [] = []"
  by (simp add: bbits_def)

lemma bbits_AsSlice: "bbits (AsSlice a) = addr_bits a"
  by (cases a) (simp_all add: bbits_be_bytes bbits_Nil)

lemma fam_AsSlice: "a \<noteq> AddrZero \<Longrightarrow> fam (wid (Is6 a)) (AsSlice a)"
  by (cases a) (simp_all add: fam_def wid_def)

lemma Insert_family:
  "pfx_valid p \<Longrightarrow> AllowedIPs_Insert t p peer =
     insert_family (Is6 (pfx_addr p)) (AsSlice (pfx_addr p)) (word_of_int (pfx_bits p)) peer t"
  by (cases "pfx_addr p") (auto simp: pfx_valid_def AllowedIPs_Insert_def)

lemma pfx_bits_unat: "pfx_valid p \<Longrightarrow> unat (word_of_int (pfx_bits p) :: byte) = nat (pfx_bits p) \<and> nat (pfx_bits p) \<le> wid (Is6 (pfx_addr p))"
  by (cases "pfx_addr p") (auto simp: pfx_valid_def wid_def unat_eq_nat_uint uint_word_of_int)

lemma AllowedIPs_Insert_ok:
  assumes "aips_ok t" "pfx_valid p"
  shows "\<exists>t'. AllowedIPs_Insert t p peer = Some t' \<and> aips_ok t' \<and>
    (\<forall>q. aroutes t' q = (if pfx_id q = pfx_id p then Some peer else aroutes t q))"
proof -
  note n = pfx_bits_unat [OF assms(2)]
  have "pfx_addr p \<noteq> AddrZero" using assms(2) by (simp add: pfx_valid_def)
  from insert_family_ok [OF assms(1) fam_AsSlice [OF this], of "word_of_int (pfx_bits p)" peer]
  show ?thesis using n
    by (auto simp: Insert_family [OF assms(2)] aroutes_def bbits_AsSlice pfx_id_def pfx_key_def)
qed

lemma RemoveByPeer_ok:
  assumes "aips_ok t"
  shows "\<exists>t'. RemoveByPeer t peer = Some t' \<and> aips_ok t' \<and>
    (\<forall>q. aroutes t' q = (if aroutes t q = Some peer then None else aroutes t q))"
  using remove_loop_ok [OF assms refl, of peer] by (auto simp: RemoveByPeer_def aroutes_def)

text \<open>The slice of an address has no zone.\<close>

definition trie_cands :: "addr \<Rightarrow> prefix list" where
  "trie_cands a = pfx_cands (withoutZone a)"

lemma AllowedIPs_Lookup_ok:
  assumes t: "aips_ok t" and a: "a \<noteq> AddrZero"
  shows "AllowedIPs_Lookup t (AsSlice a) = Some (first_some (map (aroutes t) (trie_cands a)))"
proof -
  let ?n = "root t (Is6 a)"
  have "AllowedIPs_Lookup t (AsSlice a) = trie_lookup ?n (AsSlice a) None"
    using a by (cases a) (simp_all add: AllowedIPs_Lookup_def root_def)
  also have "\<dots> = Some (lpm (rt ?n) (addr_bits a))"
    using trie_lookup_lpm [of "wid (Is6 a)" "[]" ?n "AsSlice a" None] t fam_AsSlice [OF a]
    by (simp add: aips_ok_def bbits_AsSlice split: option.splits)
  also have "lpm (rt ?n) (addr_bits a) = first_some (map (aroutes t) (trie_cands a))"
    using a by (cases a) (simp_all add: lpm_def trie_cands_def pfx_cands_def aroutes_def pfx_key_def comp_def del: upt_Suc)
  finally show ?thesis .
qed

lemma trie_cands_valid: "k \<in> set (trie_cands a) \<Longrightarrow> pfx_valid k"
  unfolding trie_cands_def by (rule pfx_cands_valid)

lemma first_some_in: "first_some (map f xs) = Some v \<Longrightarrow> \<exists>x\<in>set xs. f x = Some v"
  by (induction xs) (auto split: option.splits)

subsection \<open>The contract of a table of peers\<close>

text \<open>
  What the builder of a routing table needs of the trie: an insertion changes one route, a removal drops
  the routes of one peer, and a lookup returns the most specific route of an address.
\<close>

locale peer_table =
  fixes ins :: "'t \<Rightarrow> 'k \<Rightarrow> 'p \<Rightarrow> 't option"
    and drop_peer :: "'t \<Rightarrow> 'p \<Rightarrow> 't option"
    and look :: "'t \<Rightarrow> 'a \<Rightarrow> 'p option option"
    and abs :: "'t \<Rightarrow> 'k \<Rightarrow> 'p option"
    and inv :: "'t \<Rightarrow> bool"
    and valid :: "'k \<Rightarrow> bool"
    and norm :: "'k \<Rightarrow> 'i"
    and defined :: "'a \<Rightarrow> bool"
    and cands :: "'a \<Rightarrow> 'k list"
  assumes ins_law: "inv t \<Longrightarrow> valid k \<Longrightarrow>
      \<exists>t'. ins t k p = Some t' \<and> inv t' \<and> (\<forall>q. abs t' q = (if norm q = norm k then Some p else abs t q))"
    and drop_law: "inv t \<Longrightarrow>
      \<exists>t'. drop_peer t p = Some t' \<and> inv t' \<and> (\<forall>q. abs t' q = (if abs t q = Some p then None else abs t q))"
    and look_law: "inv t \<Longrightarrow> defined a \<Longrightarrow> look t a = Some (first_some (map (abs t) (cands a)))"
begin

primrec ins_all :: "'k list \<Rightarrow> 'p \<Rightarrow> 't \<Rightarrow> 't option" where
  "ins_all [] p t = Some t"
| "ins_all (k # ks) p t = do { t \<leftarrow> ins t k p; ins_all ks p t }"

lemma ins_all_ok: "inv t \<Longrightarrow> (\<And>k. k \<in> set ks \<Longrightarrow> valid k) \<Longrightarrow>
    \<exists>t'. ins_all ks p t = Some t' \<and> inv t' \<and> (\<forall>q. abs t' q = (if norm q \<in> norm ` set ks then Some p else abs t q))"
proof (induction ks arbitrary: t)
  case (Cons k ks)
  obtain u where u: "ins t k p = Some u" "inv u" "\<And>q. abs u q = (if norm q = norm k then Some p else abs t q)"
    using ins_law [OF Cons.prems(1), of k p] Cons.prems(2) by auto
  then show ?case using Cons.IH [OF u(2)] Cons.prems(2) by auto
qed simp

text \<open>Replacing the routes of a peer leaves it exactly the new ones.\<close>

lemma replace_ok:
  assumes "inv t" "\<And>k. k \<in> set ks \<Longrightarrow> valid k"
  shows "\<exists>t'. do { t \<leftarrow> drop_peer t p; ins_all ks p t } = Some t' \<and> inv t' \<and>
    (\<forall>q. abs t' q = (if norm q \<in> norm ` set ks then Some p else if abs t q = Some p then None else abs t q))"
proof -
  obtain u where u: "drop_peer t p = Some u" "inv u" "\<And>q. abs u q = (if abs t q = Some p then None else abs t q)"
    using drop_law [OF assms(1)] by blast
  then show ?thesis using ins_all_ok [OF u(2), of ks p] assms(2) by auto
qed

text \<open>A peer is found only where it has a route that contains the address.\<close>

lemma look_owner: "inv t \<Longrightarrow> defined a \<Longrightarrow> look t a = Some (Some p) \<Longrightarrow> \<exists>k\<in>set (cands a). abs t k = Some p"
  using look_law [of t a] first_some_in [of "abs t" "cands a" p] by simp

end

interpretation aips: peer_table AllowedIPs_Insert RemoveByPeer "\<lambda>t a. AllowedIPs_Lookup t (AsSlice a)"
  aroutes aips_ok pfx_valid pfx_id "\<lambda>a. a \<noteq> AddrZero" trie_cands
  by unfold_locales (rule AllowedIPs_Insert_ok RemoveByPeer_ok AllowedIPs_Lookup_ok; assumption)+

subsection \<open>The entries of a peer\<close>

definition entry_prefix :: "bool \<times> byte \<times> bytes \<Rightarrow> prefix" where
  "entry_prefix = (\<lambda>(v6, cidr, bits).
     PrefixFrom (case AddrFromSlice bits of None \<Rightarrow> AddrZero | Some a \<Rightarrow> a) (int (unat cidr)))"

lemma entry_prefix_fits:
  assumes "node_fits (wid v6) c bs"
  shows "pfx_ok (wid v6) (entry_prefix (v6, c, bs))" "pfx_key (entry_prefix (v6, c, bs)) = ekey c bs"
    "Is6 (pfx_addr (entry_prefix (v6, c, bs))) = v6"
proof -
  note f = node_fitsD [OF assms]
  have len: "length bs = (if v6 then 16 else 4)" using f(4) by (auto simp: fam_def wid_def)
  obtain a where a: "AddrFromSlice bs = Some a" "AsSlice a = bs" "Is6 a = v6" "a \<noteq> AddrZero" "\<not> hasZone a"
  proof (cases v6)
    case True
    then show ?thesis using that [of "V6 (be_word bs) []"] len by (simp add: AddrFromSlice_def AddrFrom16_def)
  next
    case False
    then show ?thesis using that [of "V4 (be_word bs)"] len by (simp add: AddrFromSlice_def AddrFrom4_def)
  qed
  have L: "BitLen a = wid v6" "withoutZone a = a" "addr_bits a = bbits bs"
    using a bbits_AsSlice [of a] by (cases a; simp add: wid_def)+
  then have e: "entry_prefix (v6, c, bs) = Prefix a (int (unat c))"
    using a f(3) by (simp add: entry_prefix_def PrefixFrom_def del: of_nat_unat)
  then show k: "pfx_key (entry_prefix (v6, c, bs)) = ekey c bs" by (simp add: pfx_key_def ekey_def L)
  show "Is6 (pfx_addr (entry_prefix (v6, c, bs))) = v6" using e a by simp
  show "pfx_ok (wid v6) (entry_prefix (v6, c, bs))"
    unfolding pfx_ok_def k using e a L f by (simp add: addr_ok_def del: of_nat_unat)
qed

lemma EntriesForPeer_entry: "EntriesForPeer t p = map entry_prefix (trieEntries t p)"
  by (simp add: EntriesForPeer_def entry_prefix_def)

lemma EntriesForPeer_routes:
  assumes "aips_ok t"
  shows "q \<in> set (EntriesForPeer t p) \<longleftrightarrow> pfx_ok (BitLen (pfx_addr q)) q \<and> aroutes t q = Some p"
proof
  assume "q \<in> set (EntriesForPeer t p)"
  then obtain v6 c bs where e: "listed t p (v6, c, bs)" "q = entry_prefix (v6, c, bs)"
    using assms by (auto simp: EntriesForPeer_entry aips_ok_def)
  note f = entry_prefix_fits [of v6 c bs, folded e(2)]
  have "node_fits (wid v6) c bs" using e(1) by (simp add: listed_def)
  note f = f [OF this]
  have "BitLen (pfx_addr q) = wid v6" using f(1) by (simp add: pfx_ok_def addr_ok_def)
  then show "pfx_ok (BitLen (pfx_addr q)) q \<and> aroutes t q = Some p"
    using f e(1) by (simp add: aroutes_def listed_def)
next
  assume q: "pfx_ok (BitLen (pfx_addr q)) q \<and> aroutes t q = Some p"
  let ?f = "Is6 (pfx_addr q)"
  have "pfx_addr q \<noteq> AddrZero" using q by (simp add: pfx_ok_def addr_ok_def)
  then have W: "BitLen (pfx_addr q) = wid ?f" by (cases "pfx_addr q") (simp_all add: wid_def)
  have r: "rt (root t ?f) (pfx_key q) = Some p" using q by (simp add: aroutes_def)
  have "trie_ok (wid ?f) [] (root t ?f)" using assms by (simp add: aips_ok_def)
  then obtain c bs where n: "node_fits (wid ?f) c bs" "ekey c bs = pfx_key q" using rt_node [OF _ r] by blast
  then have "listed t p (?f, c, bs)" using r by (simp add: listed_def)
  then have "entry_prefix (?f, c, bs) \<in> set (EntriesForPeer t p)" using assms by (simp add: aips_ok_def EntriesForPeer_entry)
  moreover have "entry_prefix (?f, c, bs) = q"
    using pfx_ok_inject [OF entry_prefix_fits(1) [OF n(1)], of q] entry_prefix_fits(2) [OF n(1)] n(2) q W by simp
  ultimately show "q \<in> set (EntriesForPeer t p)" by simp
qed

subsection \<open>Histories\<close>

datatype 'p aop = OpInsert prefix 'p | OpRemove 'p

fun aips_run :: "'p aop list \<Rightarrow> 'p AllowedIPs \<Rightarrow> 'p AllowedIPs option" where
  "aips_run [] t = Some t"
| "aips_run (OpInsert p peer # ops) t = do { t \<leftarrow> AllowedIPs_Insert t p peer; aips_run ops t }"
| "aips_run (OpRemove peer # ops) t = do { t \<leftarrow> RemoveByPeer t peer; aips_run ops t }"

text \<open>The reference: a map from prefixes to peers.\<close>

fun map_run :: "'p aop list \<Rightarrow> (prefix \<Rightarrow> 'p option) \<Rightarrow> prefix \<Rightarrow> 'p option" where
  "map_run [] m = m"
| "map_run (OpInsert p peer # ops) m = map_run ops (\<lambda>q. if pfx_id q = pfx_id p then Some peer else m q)"
| "map_run (OpRemove peer # ops) m = map_run ops (\<lambda>q. if m q = Some peer then None else m q)"

fun aop_valid :: "'p aop \<Rightarrow> bool" where
  "aop_valid (OpInsert p peer) = pfx_valid p"
| "aop_valid (OpRemove peer) = True"

lemma aips_run_ok: "aips_ok t \<Longrightarrow> list_all aop_valid ops \<Longrightarrow>
    \<exists>t'. aips_run ops t = Some t' \<and> aips_ok t' \<and> aroutes t' = map_run ops (aroutes t)"
proof (induction ops t rule: aips_run.induct)
  case (2 p peer ops t)
  obtain u where u: "AllowedIPs_Insert t p peer = Some u" "aips_ok u"
      "\<forall>q. aroutes u q = (if pfx_id q = pfx_id p then Some peer else aroutes t q)"
    using AllowedIPs_Insert_ok [OF 2(2), of p peer] 2(3) by auto
  then have "aroutes u = (\<lambda>q. if pfx_id q = pfx_id p then Some peer else aroutes t q)" by (intro ext) simp
  then show ?case using 2(1) [OF u(1,2)] 2(3) u(1) by simp
next
  case (3 peer ops t)
  obtain u where u: "RemoveByPeer t peer = Some u" "aips_ok u"
      "\<forall>q. aroutes u q = (if aroutes t q = Some peer then None else aroutes t q)"
    using RemoveByPeer_ok [OF 3(2), of peer] by auto
  then have "aroutes u = (\<lambda>q. if aroutes t q = Some peer then None else aroutes t q)" by (intro ext) simp
  then show ?case using 3(1) [OF u(1,2)] 3(3) u(1) by simp
qed simp

text \<open>
  C33. Refinement. From the empty table, any sequence of insertions of valid prefixes and removals of peers runs
  without a panic, and a lookup of any address afterwards returns what longest match returns in a map from
  prefixes to peers under the same operations; an address with a zone is looked up as without it.
\<close>

theorem AllowedIPs_refines_map:
  assumes "list_all aop_valid ops" "a \<noteq> AddrZero"
  shows "do { t \<leftarrow> aips_run ops newAllowedIPs; AllowedIPs_Lookup t (AsSlice a) } =
    Some (first_some (map (map_run ops (\<lambda>_. None)) (pfx_cands (withoutZone a))))"
proof -
  have e: "aroutes newAllowedIPs = (\<lambda>_. None)" by (intro ext) (rule newAllowedIPs_ok)
  obtain t where "aips_run ops newAllowedIPs = Some t" "aips_ok t" "aroutes t = map_run ops (\<lambda>_. None)"
    using aips_run_ok [OF newAllowedIPs_ok(1) assms(1)] unfolding e by blast
  then show ?thesis using AllowedIPs_Lookup_ok [OF _ assms(2), of t] by (simp add: trie_cands_def)
qed

theorem AllowedIPs_refines_map_witness:
  "do { t \<leftarrow> aips_run [OpInsert (Prefix (V4 0x0a000000) 8) (1::nat), OpInsert (Prefix (V4 0x0a010000) 16) 2, OpRemove 1] newAllowedIPs;
     AllowedIPs_Lookup t (AsSlice (V4 0x0a020304)) } =
   Some (first_some (map (map_run [OpInsert (Prefix (V4 0x0a000000) 8) 1, OpInsert (Prefix (V4 0x0a010000) 16) 2, OpRemove 1] (\<lambda>_. None))
     (pfx_cands (withoutZone (V4 0x0a020304)))))"
  by (rule AllowedIPs_refines_map) (simp_all add: pfx_valid_def)

text \<open>
  C34. Invariant. Whatever sequence of insertions of valid prefixes and removals of peers has run, the prefixes
  \<open>EntriesForPeer\<close> hands out for a peer are, in masked form and without duplicates, exactly those routed to
  it: the per-peer lists never drift from the trie.
\<close>

theorem EntriesForPeer_exact:
  assumes "list_all aop_valid ops"
  shows "\<exists>t. aips_run ops newAllowedIPs = Some t \<and> distinct (EntriesForPeer t p) \<and>
    set (EntriesForPeer t p) = {q. pfx_ok (BitLen (pfx_addr q)) q \<and> map_run ops (\<lambda>_. None) q = Some p}"
proof -
  have e: "aroutes newAllowedIPs = (\<lambda>_. None)" by (intro ext) (rule newAllowedIPs_ok)
  obtain t where t: "aips_run ops newAllowedIPs = Some t" "aips_ok t" "aroutes t = map_run ops (\<lambda>_. None)"
    using aips_run_ok [OF newAllowedIPs_ok(1) assms(1)] unfolding e by blast
  have "inj_on entry_prefix (set (trieEntries t p))"
  proof (rule inj_onI)
    fix x y assume "x \<in> set (trieEntries t p)" "y \<in> set (trieEntries t p)" and eq: "entry_prefix x = entry_prefix y"
    then have l: "listed t p x" "listed t p y" using t(2) unfolding aips_ok_def by blast+
    obtain f c bs g d cs where xy: "x = (f, c, bs)" "y = (g, d, cs)" by (cases x, cases y)
    then have n: "node_fits (wid f) c bs" "node_fits (wid g) d cs" using l by (simp_all add: listed_def)
    have fg: "f = g" using entry_prefix_fits(3) [OF n(1)] entry_prefix_fits(3) [OF n(2)] eq xy by simp
    have k: "ekey c bs = ekey d cs" using entry_prefix_fits(2) [OF n(1)] entry_prefix_fits(2) [OF n(2)] eq xy by simp
    have "unat c = unat d" using node_fitsD(1) [OF n(1)] node_fitsD(1) [OF n(2)] k by simp
    then have "c = d" by (simp add: word_unat_eq_iff)
    then show "x = y" using node_fits_inject [of "wid g" d bs cs] n k fg xy by simp
  qed
  then have "distinct (EntriesForPeer t p)" using t(2) by (simp add: EntriesForPeer_entry distinct_map aips_ok_def)
  moreover have "set (EntriesForPeer t p) = {q. pfx_ok (BitLen (pfx_addr q)) q \<and> map_run ops (\<lambda>_. None) q = Some p}"
    using EntriesForPeer_routes [OF t(2), of _ p] t(3) by auto
  ultimately show ?thesis using t(1) by blast
qed

theorem EntriesForPeer_exact_witness:
  "\<exists>t. aips_run [OpInsert (Prefix (V4 0x0a000001) 8) (1::nat)] newAllowedIPs = Some t \<and>
    Prefix (V4 0x0a000000) 8 \<in> set (EntriesForPeer t 1) \<and> Prefix (V4 0x0a000001) 8 \<notin> set (EntriesForPeer t 1)"
proof -
  let ?ops = "[OpInsert (Prefix (V4 0x0a000001) 8) (1::nat)]"
  have k: "pfx_key (Prefix (V4 0x0a000000) 8) = pfx_key (Prefix (V4 0x0a000001) 8)" by code_simp
  have ok: "pfx_ok 32 (Prefix (V4 0x0a000000) 8)" "\<not> pfx_ok 32 (Prefix (V4 0x0a000001) 8)" by code_simp+
  obtain t where t: "aips_run ?ops newAllowedIPs = Some t"
      "set (EntriesForPeer t 1) = {q. pfx_ok (BitLen (pfx_addr q)) q \<and> map_run ?ops (\<lambda>_. None) q = Some 1}"
    using EntriesForPeer_exact [of ?ops 1] by (auto simp: pfx_valid_def)
  have "Prefix (V4 0x0a000000) 8 \<in> set (EntriesForPeer t 1)" "Prefix (V4 0x0a000001) 8 \<notin> set (EntriesForPeer t 1)"
    unfolding t(2) using ok k by (simp_all add: pfx_id_def)
  then show ?thesis using t(1) by blast
qed

end
