(* ===== verification/Tstun_Table.thy ===== *)
theory Tstun_Table
  imports Allowed_Routes
begin

section \<open>Package \<open>net/tstun/table\<close>: from addresses to peers\<close>

text \<open>
  \<open>src/net/tstun/table/table.go\<close>. The builder keeps the peers it has seen and a trie that is nil until the
  first prefix is inserted (\<open>None\<close>); a method of the trie called on nil locks a mutex at a nil address,
  which is a run-time panic, the result \<open>None\<close> of an operation.
\<close>

record 'k RoutingTableBuilder =
  peers :: "'k set"
  prefixTrie :: "'k AllowedIPs option"

definition zeroBuilder :: "'k RoutingTableBuilder" where
  "zeroBuilder = \<lparr>peers = {}, prefixTrie = None\<rparr>"

definition builder_Remove :: "'k RoutingTableBuilder \<Rightarrow> 'k \<Rightarrow> 'k RoutingTableBuilder option" where
  "builder_Remove t peer =
     (if peer \<notin> peers t then Some t
      else do {
        pt \<leftarrow> prefixTrie t;
        pt \<leftarrow> RemoveByPeer pt peer;
        Some (t\<lparr>prefixTrie := Some pt, peers := peers t - {peer}\<rparr>) })"

fun insert_loop :: "prefix list \<Rightarrow> 'k \<Rightarrow> 'k AllowedIPs \<Rightarrow> 'k AllowedIPs option" where
  "insert_loop [] p t = Some t"
| "insert_loop (pfx # pfxs) p t = do { t \<leftarrow> AllowedIPs_Insert t pfx p; insert_loop pfxs p t }"

definition InsertOrReplace :: "'k RoutingTableBuilder \<Rightarrow> 'k \<Rightarrow> prefix list \<Rightarrow> 'k RoutingTableBuilder option" where
  "InsertOrReplace t peer pfxs = do {
     t \<leftarrow> (if peer \<notin> peers t then Some (t\<lparr>peers := insert peer (peers t)\<rparr>)
          else do {
            pt \<leftarrow> prefixTrie t;
            pt \<leftarrow> RemoveByPeer pt peer;
            Some (t\<lparr>prefixTrie := Some pt\<rparr>) });
     if pfxs = [] then Some t
     else do {
       let pt = (case prefixTrie t of None \<Rightarrow> newAllowedIPs | Some pt \<Rightarrow> pt);
       pt \<leftarrow> insert_loop pfxs peer pt;
       Some (t\<lparr>prefixTrie := Some pt\<rparr>) } }"

text \<open>The routing table is the trie of the builder, possibly nil; the second component is the builder afterwards.\<close>

type_synonym 'k RoutingTable = "'k AllowedIPs option"

definition Build :: "'k RoutingTableBuilder \<Rightarrow> 'k RoutingTable \<times> 'k RoutingTableBuilder" where
  "Build t = (prefixTrie t, t\<lparr>prefixTrie := None, peers := {}\<rparr>)"

text \<open>The outer option of the table is the receiver, which may be nil; \<open>Some None\<close> is the result \<open>ok = false\<close>.\<close>

definition RoutingTable_Lookup :: "'k RoutingTable option \<Rightarrow> addr \<Rightarrow> 'k option option" where
  "RoutingTable_Lookup t ip = (case t of None \<Rightarrow> Some None
     | Some pt \<Rightarrow> do { pt \<leftarrow> pt; AllowedIPs_Lookup pt (AsSlice ip) })"

subsection \<open>Invariant and routes\<close>

definition broutes :: "'k RoutingTableBuilder \<Rightarrow> prefix \<Rightarrow> 'k option" where
  "broutes b q = (case prefixTrie b of None \<Rightarrow> None | Some t \<Rightarrow> aroutes t q)"

definition builder_ok :: "'k RoutingTableBuilder \<Rightarrow> bool" where
  "builder_ok b \<longleftrightarrow> (\<forall>t. prefixTrie b = Some t \<longrightarrow> aips_ok t) \<and> (\<forall>q k. broutes b q = Some k \<longrightarrow> k \<in> peers b)"

lemma zeroBuilder_ok: "builder_ok zeroBuilder" "broutes zeroBuilder q = None"
  by (simp_all add: builder_ok_def zeroBuilder_def broutes_def)

lemma insert_loop_all: "insert_loop pfxs p t = aips.ins_all pfxs p t"
  by (induction pfxs arbitrary: t) (simp_all cong: bind_option_cong)

text \<open>The builder with the routes of a peer removed from its trie.\<close>

lemma drop_routes:
  assumes b: "builder_ok b" and t: "prefixTrie b = Some t" and P: "insert k (peers b) - {k} \<subseteq> P"
  obtains u where "RemoveByPeer t k = Some u" "builder_ok (b\<lparr>prefixTrie := Some u, peers := P\<rparr>)"
    "broutes (b\<lparr>prefixTrie := Some u, peers := P\<rparr>) = (\<lambda>q. if broutes b q = Some k then None else broutes b q)"
proof -
  have "aips_ok t" using b t by (simp add: builder_ok_def)
  then obtain u where u: "RemoveByPeer t k = Some u" "aips_ok u" "\<forall>q. aroutes u q = (if aroutes t q = Some k then None else aroutes t q)"
    using RemoveByPeer_ok [of t k] by metis
  have r: "broutes (b\<lparr>prefixTrie := Some u, peers := P\<rparr>) = (\<lambda>q. if broutes b q = Some k then None else broutes b q)"
    using u(3) t by (intro ext) (simp add: broutes_def)
  have "k' \<in> P" if "broutes b q = Some k'" "k' \<noteq> k" for q k' using b P that by (auto simp: builder_ok_def)
  then have "builder_ok (b\<lparr>prefixTrie := Some u, peers := P\<rparr>)" unfolding builder_ok_def r using u(2) by auto
  then show ?thesis using that u(1) r by blast
qed

lemma InsertOrReplace_ok:
  assumes b: "builder_ok b" and v: "\<forall>p\<in>set pfxs. pfx_valid p" and live: "k \<in> peers b \<longrightarrow> prefixTrie b \<noteq> None"
  shows "\<exists>b'. InsertOrReplace b k pfxs = Some b' \<and> builder_ok b' \<and> peers b' = insert k (peers b) \<and>
    (prefixTrie b' = None \<longleftrightarrow> prefixTrie b = None \<and> pfxs = []) \<and>
    (\<forall>q. broutes b' q = (if pfx_id q \<in> pfx_id ` set pfxs then Some k else if broutes b q = Some k then None else broutes b q))"
proof -
  define b1 where "b1 = (if k \<notin> peers b then Some (b\<lparr>peers := insert k (peers b)\<rparr>)
    else do { pt \<leftarrow> prefixTrie b; pt \<leftarrow> RemoveByPeer pt k; Some (b\<lparr>prefixTrie := Some pt\<rparr>) })"
  have "\<exists>c. b1 = Some c \<and> builder_ok c \<and> peers c = insert k (peers b) \<and> (prefixTrie c = None \<longleftrightarrow> prefixTrie b = None) \<and>
      (\<forall>q. broutes c q = (if broutes b q = Some k then None else broutes b q))"
  proof (cases "k \<in> peers b")
    case True
    then obtain t where t: "prefixTrie b = Some t" using live by blast
    obtain u where u: "RemoveByPeer t k = Some u" "builder_ok (b\<lparr>prefixTrie := Some u, peers := peers b\<rparr>)"
        "broutes (b\<lparr>prefixTrie := Some u, peers := peers b\<rparr>) = (\<lambda>q. if broutes b q = Some k then None else broutes b q)"
      by (rule drop_routes [OF b t, of k "peers b"]) auto
    have "b\<lparr>prefixTrie := Some u, peers := peers b\<rparr> = b\<lparr>prefixTrie := Some u\<rparr>" by simp
    then show ?thesis using t True u by (simp add: b1_def insert_absorb)
  next
    case False
    then have n: "broutes b q \<noteq> Some k" for q using b by (auto simp: builder_ok_def)
    have "broutes (b\<lparr>peers := insert k (peers b)\<rparr>) = broutes b" by (intro ext) (simp add: broutes_def)
    then show ?thesis using b False n by (simp add: b1_def builder_ok_def)
  qed
  then obtain c where c: "b1 = Some c" "builder_ok c" "peers c = insert k (peers b)" "prefixTrie c = None \<longleftrightarrow> prefixTrie b = None"
      "\<forall>q. broutes c q = (if broutes b q = Some k then None else broutes b q)" by metis
  have ins: "InsertOrReplace b k pfxs = (if pfxs = [] then Some c
      else do { pt \<leftarrow> insert_loop pfxs k (case prefixTrie c of None \<Rightarrow> newAllowedIPs | Some pt \<Rightarrow> pt); Some (c\<lparr>prefixTrie := Some pt\<rparr>) })"
    unfolding InsertOrReplace_def b1_def [symmetric] c(1) by simp
  show ?thesis
  proof (cases "pfxs = []")
    case False
    let ?t = "case prefixTrie c of None \<Rightarrow> newAllowedIPs | Some pt \<Rightarrow> pt"
    have t: "aips_ok ?t" "aroutes ?t q = broutes c q" for q
      using c(2) newAllowedIPs_ok by (auto simp: builder_ok_def broutes_def split: option.splits)
    obtain u where u: "insert_loop pfxs k ?t = Some u" "aips_ok u"
        "\<forall>q. aroutes u q = (if pfx_id q \<in> pfx_id ` set pfxs then Some k else aroutes ?t q)"
      using aips.ins_all_ok [OF t(1), of pfxs k] v unfolding insert_loop_all by blast
    let ?b = "c\<lparr>prefixTrie := Some u\<rparr>"
    have r: "broutes ?b = (\<lambda>q. if pfx_id q \<in> pfx_id ` set pfxs then Some k else broutes c q)"
      using u(3) t(2) by (intro ext) (simp add: broutes_def)
    have "k' \<in> peers c" if "broutes c q = Some k'" for q k' using c(2) that by (auto simp: builder_ok_def)
    then have "builder_ok ?b" unfolding builder_ok_def r using u(2) c(3) by auto
    moreover have "InsertOrReplace b k pfxs = Some ?b" using ins u(1) False by simp
    ultimately show ?thesis using False c(3,5) r by auto
  qed (use ins c in auto)
qed

lemma builder_Remove_ok:
  assumes "builder_ok b" "k \<in> peers b \<Longrightarrow> prefixTrie b \<noteq> None"
  shows "\<exists>b'. builder_Remove b k = Some b' \<and> builder_ok b' \<and> peers b' = peers b - {k} \<and>
    (\<forall>q. broutes b' q = (if broutes b q = Some k then None else broutes b q))"
proof (cases "k \<in> peers b")
  case True
  then obtain t where t: "prefixTrie b = Some t" using assms(2) by blast
  show ?thesis
    by (rule drop_routes [OF assms(1) t, of k "peers b - {k}"]) (use t True in \<open>auto simp: builder_Remove_def\<close>)
next
  case False
  then have "broutes b q \<noteq> Some k" for q using assms(1) by (auto simp: builder_ok_def)
  then show ?thesis using False assms(1) by (auto simp: builder_Remove_def)
qed

lemma Build_Lookup:
  assumes "builder_ok b" "prefixTrie b \<noteq> None" "a \<noteq> AddrZero"
  shows "RoutingTable_Lookup (Some (fst (Build b))) a = Some (first_some (map (broutes b) (trie_cands a)))"
proof -
  obtain t where t: "prefixTrie b = Some t" "aips_ok t" using assms by (auto simp: builder_ok_def)
  then have "broutes b = aroutes t" by (intro ext) (simp add: broutes_def)
  then show ?thesis using t AllowedIPs_Lookup_ok [OF t(2) assms(3)] by (simp add: RoutingTable_Lookup_def Build_def)
qed

subsection \<open>A nil trie\<close>

text \<open>
  A peer that was added without prefixes, before any prefix was inserted, can neither be added again nor
  removed, and the table built from such peers panics on every lookup.
\<close>

theorem builder_nil_trie:
  assumes "InsertOrReplace zeroBuilder k [] = Some b"
  shows "InsertOrReplace b k pfxs = None" "builder_Remove b k = None" "RoutingTable_Lookup (Some (fst (Build b))) a = None"
  using assms by (auto simp: InsertOrReplace_def builder_Remove_def RoutingTable_Lookup_def Build_def zeroBuilder_def)

theorem builder_nil_trie_witness:
  "\<exists>b. InsertOrReplace zeroBuilder (7::nat) [] = Some b \<and> RoutingTable_Lookup (Some (fst (Build b))) (V4 1) = None"
proof -
  obtain b where b: "InsertOrReplace zeroBuilder (7::nat) [] = Some b" by (simp add: InsertOrReplace_def zeroBuilder_def)
  then show ?thesis using builder_nil_trie(3) [OF b, of "V4 1"] by blast
qed

end
