(* ===== verification/Packet.thy ===== *)
theory Packet
  imports Netip
begin

unbundle bit_operations_syntax

section \<open>Package \<open>net/packet\<close>: decoding a packet\<close>

text \<open>
  The decoder of \<open>src/net/packet/packet.go\<close>. A \<open>Parsed\<close> value is reused from packet to packet,
  so \<open>Decode\<close> takes the previous value and overwrites the fields the code overwrites; fields the
  code leaves alone keep the previous packet's content. Slice reads are checked (\<open>None\<close> is a
  run-time panic), and \<open>Decode_total\<close> shows that no input makes the decoder panic.
\<close>

subsection \<open>Protocol numbers and header sizes\<close>

definition Unknown :: byte where [simp]: "Unknown = 0x00"
definition ICMPv4 :: byte where [simp]: "ICMPv4 = 0x01"
definition IGMP :: byte where [simp]: "IGMP = 0x02"
definition ICMPv6 :: byte where [simp]: "ICMPv6 = 0x3a"
definition TCP :: byte where [simp]: "TCP = 0x06"
definition UDP :: byte where [simp]: "UDP = 0x11"
definition SCTP :: byte where [simp]: "SCTP = 0x84"
definition TSMP :: byte where [simp]: "TSMP = 99"
definition Fragment :: byte where [simp]: "Fragment = 0xff"

definition minFragBlks :: nat where [simp]: "minFragBlks = (60 + 20) div 8"
definition ip4HeaderLength :: nat where [simp]: "ip4HeaderLength = 20"
definition ip6HeaderLength :: nat where [simp]: "ip6HeaderLength = 40"
definition icmp4HeaderLength :: nat where [simp]: "icmp4HeaderLength = 4"
definition icmp6HeaderLength :: nat where [simp]: "icmp6HeaderLength = 4"
definition tcpHeaderLength :: nat where [simp]: "tcpHeaderLength = 20"
definition udpHeaderLength :: nat where [simp]: "udpHeaderLength = 8"
definition sctpHeaderLength :: nat where [simp]: "sctpHeaderLength = 12"

definition TCPSyn :: byte where [simp]: "TCPSyn = 0x02"
definition TCPAck :: byte where [simp]: "TCPAck = 0x10"
definition TCPSynAck :: byte where [simp]: "TCPSynAck = TCPSyn OR TCPAck"

subsection \<open>The parsed packet\<close>

record CaptureMeta =
  DidSNAT :: bool
  OriginalSrc :: addrport
  DidDNAT :: bool
  OriginalDst :: addrport

definition zeroCaptureMeta :: CaptureMeta where
  "zeroCaptureMeta =
     \<lparr>DidSNAT = False, OriginalSrc = zeroAddrPort, DidDNAT = False, OriginalDst = zeroAddrPort\<rparr>"

record Parsed =
  p_b :: bytes
  p_subofs :: nat
  p_dataofs :: nat
  p_length :: nat
  IPVersion :: byte
  IPProto :: byte
  Src :: addrport
  Dst :: addrport
  TCPFlags :: byte
  p_CaptureMeta :: CaptureMeta

definition zeroParsed :: Parsed where
  "zeroParsed = \<lparr>p_b = [], p_subofs = 0, p_dataofs = 0, p_length = 0, IPVersion = 0, IPProto = 0,
     Src = zeroAddrPort, Dst = zeroAddrPort, TCPFlags = 0, p_CaptureMeta = zeroCaptureMeta\<rparr>"

definition withIP :: "addrport \<Rightarrow> addr \<Rightarrow> addrport" where
  "withIP ap ip = AddrPortFrom ip (ap_port ap)"

definition withPort :: "addrport \<Rightarrow> u16 \<Rightarrow> addrport" where
  "withPort ap port = AddrPortFrom (ap_addr ap) port"

definition netaddr_IPv4 :: "byte \<Rightarrow> byte \<Rightarrow> byte \<Rightarrow> byte \<Rightarrow> addr" where
  "netaddr_IPv4 a b c d = AddrFrom4 [a, b, c, d]"

subsection \<open>Decoding\<close>

text \<open>The TCP, UDP and SCTP branches read the two port numbers at the start of the subprotocol.\<close>

definition decode_ports :: "Parsed \<Rightarrow> bytes \<Rightarrow> Parsed option" where
  "decode_ports q sub = do {
     sp \<leftarrow> rd16 sub 0;
     dp \<leftarrow> rd16 sub 2;
     Some (q\<lparr>Src := withPort (Src q) sp, Dst := withPort (Dst q) dp\<rparr>) }"

definition decode_tcp :: "Parsed \<Rightarrow> bytes \<Rightarrow> Parsed option" where
  "decode_tcp q sub = do {
     q1 \<leftarrow> decode_ports q sub;
     flags \<leftarrow> rd sub 13;
     off \<leftarrow> rd sub 12;
     let headerLength = drop_bit 2 (off AND 0xf0);
     Some (q1\<lparr>TCPFlags := flags, p_dataofs := p_subofs q1 + unat headerLength\<rparr>) }"

text \<open>The switch on the protocol of a first IPv4 fragment.\<close>

definition decode4_first :: "Parsed \<Rightarrow> bytes \<Rightarrow> Parsed option" where
  "decode4_first q sub =
     (if IPProto q = ICMPv4 then
        (if length sub < icmp4HeaderLength then Some (q\<lparr>IPProto := Unknown\<rparr>)
         else Some (q\<lparr>Src := withPort (Src q) 0, Dst := withPort (Dst q) 0,
                      p_dataofs := p_subofs q + icmp4HeaderLength\<rparr>))
      else if IPProto q = IGMP then Some q
      else if IPProto q = TCP then
        (if length sub < tcpHeaderLength then Some (q\<lparr>IPProto := Unknown\<rparr>) else decode_tcp q sub)
      else if IPProto q = UDP then
        (if length sub < udpHeaderLength then Some (q\<lparr>IPProto := Unknown\<rparr>)
         else do { q1 \<leftarrow> decode_ports q sub;
                   Some (q1\<lparr>p_dataofs := p_subofs q1 + udpHeaderLength\<rparr>) })
      else if IPProto q = SCTP then
        (if length sub < sctpHeaderLength then Some (q\<lparr>IPProto := Unknown\<rparr>) else decode_ports q sub)
      else if IPProto q = TSMP then Some (q\<lparr>p_dataofs := p_subofs q\<rparr>)
      else if IPProto q = Fragment then Some (q\<lparr>IPProto := Unknown\<rparr>)
      else Some q)"

definition decode4 :: "Parsed \<Rightarrow> bytes \<Rightarrow> Parsed option" where
  "decode4 q0 b =
     (if length b < ip4HeaderLength then Some (q0\<lparr>IPVersion := 0, IPProto := Unknown\<rparr>)
      else do {
        proto \<leftarrow> rd b 9;
        len \<leftarrow> rd16 b 2;
        let q1 = q0\<lparr>IPProto := proto, p_length := unat len\<rparr>;
        if length b < p_length q1 then Some (q1\<lparr>IPProto := Unknown\<rparr>)
        else do {
          s0 \<leftarrow> rd b 12; s1 \<leftarrow> rd b 13; s2 \<leftarrow> rd b 14; s3 \<leftarrow> rd b 15;
          d0 \<leftarrow> rd b 16; d1 \<leftarrow> rd b 17; d2 \<leftarrow> rd b 18; d3 \<leftarrow> rd b 19;
          b0 \<leftarrow> rd b 0;
          let q2 = q1\<lparr>Src := withIP (Src q1) (netaddr_IPv4 s0 s1 s2 s3),
                      Dst := withIP (Dst q1) (netaddr_IPv4 d0 d1 d2 d3),
                      p_subofs := unat (push_bit 2 (b0 AND 0x0f))\<rparr>;
          if p_length q2 < p_subofs q2 then Some (q2\<lparr>IPProto := Unknown\<rparr>)
          else do {
            sub \<leftarrow> slice_from b (p_subofs q2);
            fragFlags \<leftarrow> rd16 b 6;
            let moreFrags = (fragFlags AND 0x2000 \<noteq> 0);
            let fragOfs = fragFlags AND 0x1fff;
            if fragOfs = 0 then
              (if moreFrags \<and> length sub < minFragBlks then Some (q2\<lparr>IPProto := Unknown\<rparr>)
               else decode4_first q2 sub)
            else
              (if unat fragOfs < minFragBlks then Some (q2\<lparr>IPProto := Unknown\<rparr>)
               else Some (q2\<lparr>IPProto := Fragment\<rparr>)) } } })"

definition decode6_sub :: "Parsed \<Rightarrow> bytes \<Rightarrow> Parsed option" where
  "decode6_sub q sub =
     (if IPProto q = ICMPv6 then
        (if length sub < icmp6HeaderLength then Some (q\<lparr>IPProto := Unknown\<rparr>)
         else Some (q\<lparr>Src := withPort (Src q) 0, Dst := withPort (Dst q) 0,
                      p_dataofs := p_subofs q + icmp6HeaderLength\<rparr>))
      else if IPProto q = TCP then
        (if length sub < tcpHeaderLength then Some (q\<lparr>IPProto := Unknown\<rparr>) else decode_tcp q sub)
      else if IPProto q = UDP then
        (if length sub < udpHeaderLength then Some (q\<lparr>IPProto := Unknown\<rparr>)
         else do { q1 \<leftarrow> decode_ports q sub;
                   Some (q1\<lparr>p_dataofs := p_subofs q1 + udpHeaderLength\<rparr>) })
      else if IPProto q = SCTP then
        (if length sub < sctpHeaderLength then Some (q\<lparr>IPProto := Unknown\<rparr>) else decode_ports q sub)
      else if IPProto q = TSMP then Some (q\<lparr>p_dataofs := p_subofs q\<rparr>)
      else if IPProto q = Fragment then Some (q\<lparr>IPProto := Unknown\<rparr>)
      else Some q)"

definition decode6 :: "Parsed \<Rightarrow> bytes \<Rightarrow> Parsed option" where
  "decode6 q0 b =
     (if length b < ip6HeaderLength then Some (q0\<lparr>IPVersion := 0, IPProto := Unknown\<rparr>)
      else do {
        proto \<leftarrow> rd b 6;
        len \<leftarrow> rd16 b 4;
        let q1 = q0\<lparr>IPProto := proto, p_length := unat len + ip6HeaderLength\<rparr>;
        if length b < p_length q1 then Some (q1\<lparr>IPProto := Unknown\<rparr>)
        else do {
          s \<leftarrow> slice b 8 24;
          d \<leftarrow> slice b 24 40;
          let srcIP = (case AddrFromSlice s of None \<Rightarrow> AddrZero | Some a \<Rightarrow> a);
          let dstIP = (case AddrFromSlice d of None \<Rightarrow> AddrZero | Some a \<Rightarrow> a);
          let q2 = q1\<lparr>Src := withIP (Src q1) srcIP, Dst := withIP (Dst q1) dstIP, p_subofs := 40\<rparr>;
          sub \<leftarrow> slice_from b (p_subofs q2);
          decode6_sub q2 sub } })"

definition Decode :: "Parsed \<Rightarrow> bytes \<Rightarrow> Parsed option" where
  "Decode q0 b =
     (let q = q0\<lparr>p_b := b, p_CaptureMeta := zeroCaptureMeta\<rparr> in
      if length b < 1 then Some (q\<lparr>IPVersion := 0, IPProto := Unknown\<rparr>)
      else do {
        b0 \<leftarrow> rd b 0;
        let q1 = q\<lparr>IPVersion := drop_bit 4 b0\<rparr>;
        if IPVersion q1 = 4 then decode4 q1 b
        else if IPVersion q1 = 6 then decode6 q1 b
        else Some (q1\<lparr>IPVersion := 0, IPProto := Unknown\<rparr>) })"

subsection \<open>Reading a parsed packet\<close>

definition Payload :: "Parsed \<Rightarrow> bytes option" where
  "Payload q = slice (p_b q) (p_dataofs q) (p_length q)"

definition Transport :: "Parsed \<Rightarrow> bytes option" where
  "Transport q = slice_from (p_b q) (p_subofs q)"

definition IsTCPSyn :: "Parsed \<Rightarrow> bool" where
  "IsTCPSyn q = (TCPFlags q AND TCPSynAck = TCPSyn)"

definition IsError :: "Parsed \<Rightarrow> bool option" where
  "IsError q =
     (if IPProto q = ICMPv4 then
        (if length (p_b q) < p_subofs q + 8 then Some False
         else do { t \<leftarrow> rd (p_b q) (p_subofs q); Some (t = 0x03 \<or> t = 0x0b) })
      else if IPProto q = ICMPv6 then
        (if length (p_b q) < p_subofs q + 8 then Some False
         else do { t \<leftarrow> rd (p_b q) (p_subofs q); Some (t = 1 \<or> t = 3) })
      else Some False)"

definition icmp_type_code :: "Parsed \<Rightarrow> byte \<Rightarrow> byte \<Rightarrow> bool option" where
  "icmp_type_code q ty code =
     (if length (p_b q) < p_subofs q + 8 then Some False
      else do { t \<leftarrow> rd (p_b q) (p_subofs q);
                if t \<noteq> ty then Some False
                else do { c \<leftarrow> rd (p_b q) (p_subofs q + 1); Some (c = code) } })"

definition IsEchoRequest :: "Parsed \<Rightarrow> bool option" where
  "IsEchoRequest q =
     (if IPProto q = ICMPv4 then icmp_type_code q 0x08 0
      else if IPProto q = ICMPv6 then icmp_type_code q 128 0
      else Some False)"

definition IsEchoResponse :: "Parsed \<Rightarrow> bool option" where
  "IsEchoResponse q =
     (if IPProto q = ICMPv4 then icmp_type_code q 0x00 0
      else if IPProto q = ICMPv6 then icmp_type_code q 129 0
      else Some False)"

text \<open>\<open>binary.LittleEndian.Uint32\<close> of four bytes.\<close>

definition le32 :: "bytes \<Rightarrow> u32" where
  "le32 bs = be_word (rev bs)"

definition EchoIDSeq :: "Parsed \<Rightarrow> u32 option" where
  "EchoIDSeq q =
     (if IPProto q = ICMPv4 then
        (let offset = ip4HeaderLength + icmp4HeaderLength in
         if length (p_b q) < offset + 4 then Some 0
         else do { s \<leftarrow> slice (p_b q) offset (offset + 4); Some (le32 s) })
      else if IPProto q = ICMPv6 then
        (let offset = ip6HeaderLength + icmp6HeaderLength in
         if length (p_b q) < offset + 4 then Some 0
         else do { s \<leftarrow> slice (p_b q) offset (offset + 4); Some (le32 s) })
      else Some 0)"

subsection \<open>Decoding never panics\<close>

named_theorems decode_defs \<open>the definitions of the decoder\<close>

lemmas [decode_defs] = Decode_def decode4_def decode6_def decode4_first_def decode6_sub_def
  decode_tcp_def decode_ports_def withIP_def withPort_def AddrPortFrom_def

lemma decode_ports_Some: "4 \<le> length sub \<Longrightarrow> \<exists>q'. decode_ports q sub = Some q'"
  by (simp add: decode_ports_def slice_simps)

lemma decode_tcp_Some: "20 \<le> length sub \<Longrightarrow> \<exists>q'. decode_tcp q sub = Some q'"
  by (simp add: decode_tcp_def decode_ports_def slice_simps)

lemma decode4_first_Some: "\<exists>q'. decode4_first q sub = Some q'"
  using decode_tcp_Some [of sub q] decode_ports_Some [of sub q]
  by (fastforce simp: decode4_first_def)

lemma decode6_sub_Some: "\<exists>q'. decode6_sub q sub = Some q'"
  using decode_tcp_Some [of sub q] decode_ports_Some [of sub q]
  by (fastforce simp: decode6_sub_def)

lemma decode4_Some: "\<exists>q'. decode4 q b = Some q'"
proof (cases "length b < 20")
  case False
  then have "b \<noteq> []" by auto
  with False show ?thesis by (simp add: decode4_def slice_simps Let_def decode4_first_Some)
qed (simp add: decode4_def)

lemma decode6_Some: "\<exists>q'. decode6 q b = Some q'"
  by (simp add: decode6_def slice_simps Let_def decode6_sub_Some)

lemma Decode_Some: "\<exists>q'. Decode q b = Some q'"
  by (cases b) (simp_all add: Decode_def slice_simps Let_def decode4_Some decode6_Some)

subsection \<open>What a decoded packet guarantees\<close>

text \<open>
  The contract between the decoder and its clients: the version is 4, 6 or 0; a packet with a
  known protocol has addresses of its version's family and a length within the buffer; a packet
  classified as TCP, UDP, SCTP, ICMP or TSMP has its whole subprotocol header in the buffer.
\<close>

definition Parsed_wf :: "Parsed \<Rightarrow> bool" where
  "Parsed_wf q \<longleftrightarrow>
     IPVersion q \<in> {0, 4, 6} \<and>
     (IPVersion q = 0 \<longrightarrow> IPProto q = Unknown) \<and>
     (IPProto q = Fragment \<longrightarrow> IPVersion q = 4) \<and>
     (IPProto q \<noteq> Unknown \<longrightarrow>
        p_length q \<le> length (p_b q) \<and> p_subofs q \<le> p_length q \<and>
        (IPVersion q = 4 \<longrightarrow> Is4 (ap_addr (Src q)) \<and> Is4 (ap_addr (Dst q))) \<and>
        (IPVersion q = 6 \<longrightarrow> Is6 (ap_addr (Src q)) \<and> Is6 (ap_addr (Dst q)))) \<and>
     (IPProto q = TCP \<longrightarrow> p_subofs q + tcpHeaderLength \<le> length (p_b q)) \<and>
     (IPProto q = UDP \<longrightarrow> p_subofs q + udpHeaderLength \<le> length (p_b q) \<and>
        p_dataofs q = p_subofs q + udpHeaderLength) \<and>
     (IPProto q = SCTP \<longrightarrow> p_subofs q + sctpHeaderLength \<le> length (p_b q)) \<and>
     (IPProto q = TSMP \<longrightarrow> p_dataofs q = p_subofs q)"

lemma push_bit_2_le: "unat (push_bit 2 (b0 AND 0x0f :: byte)) \<le> 60"
proof -
  have "push_bit 2 (b0 AND 0x0f) = (push_bit 2 b0) AND (60 :: byte)"
    by (rule bit_word_eqI) (auto simp: bit_simps)
  also have "\<dots> \<le> 60" by (rule word_and_le1)
  finally show ?thesis by (simp add: word_le_nat_alt)
qed

text \<open>What the two subprotocol switches rely on: the IP-level fields are already decoded.\<close>

definition sub_pre :: "byte \<Rightarrow> Parsed \<Rightarrow> bytes \<Rightarrow> bool" where
  "sub_pre v q sub \<longleftrightarrow> IPVersion q = v \<and> sub = drop (p_subofs q) (p_b q) \<and>
     p_subofs q \<le> p_length q \<and> p_length q \<le> length (p_b q) \<and>
     (v = 4 \<longrightarrow> Is4 (ap_addr (Src q)) \<and> Is4 (ap_addr (Dst q))) \<and>
     (v = 6 \<longrightarrow> Is6 (ap_addr (Src q)) \<and> Is6 (ap_addr (Dst q)))"

lemma decode_tcp_eq:
  "20 \<le> length sub \<Longrightarrow> decode_tcp q sub = Some (q\<lparr>Src := withPort (Src q) (be16 (sub ! 0) (sub ! 1)),
     Dst := withPort (Dst q) (be16 (sub ! 2) (sub ! 3)), TCPFlags := sub ! 13,
     p_dataofs := p_subofs q + unat (drop_bit 2 (sub ! 12 AND 0xf0))\<rparr>)"
  by (simp add: decode_tcp_def decode_ports_def slice_simps numeral_eq_Suc)

lemma decode_ports_eq:
  "4 \<le> length sub \<Longrightarrow> decode_ports q sub = Some (q\<lparr>Src := withPort (Src q) (be16 (sub ! 0) (sub ! 1)),
     Dst := withPort (Dst q) (be16 (sub ! 2) (sub ! 3))\<rparr>)"
  by (simp add: decode_ports_def slice_simps numeral_eq_Suc)

lemma ap_addr_withPort [simp]: "ap_addr (withPort ap p) = ap_addr ap"
  by (simp add: withPort_def AddrPortFrom_def)

lemma ap_addr_withIP [simp]: "ap_addr (withIP ap ip) = ip"
  by (simp add: withIP_def AddrPortFrom_def)

lemma proto_cases:
  obtains (icmp4) "p = ICMPv4" | (icmp6) "p = ICMPv6" | (tcp) "p = TCP" | (udp) "p = UDP"
    | (sctp) "p = SCTP" | (tsmp) "p = TSMP" | (frag) "p = Fragment"
    | (other) "p \<noteq> ICMPv4" "p \<noteq> ICMPv6" "p \<noteq> TCP" "p \<noteq> UDP" "p \<noteq> SCTP" "p \<noteq> TSMP" "p \<noteq> Fragment"
  by blast

lemma decode4_first_wf:
  assumes "decode4_first q sub = Some q'" "sub_pre 4 q sub"
  shows "Parsed_wf q'"
proof -
  note d = assms(1) [unfolded decode4_first_def]
  note pre = assms(2) [unfolded sub_pre_def]
  show ?thesis
  proof (cases "IPProto q" rule: proto_cases)
    case icmp4
    then show ?thesis using d pre by (cases "length sub < 4") (auto simp: Parsed_wf_def)
  next
    case tcp
    then show ?thesis using d pre
      by (cases "length sub < 20") (auto simp: Parsed_wf_def decode_tcp_eq)
  next
    case udp
    then show ?thesis using d pre
      by (cases "length sub < 8") (auto simp: Parsed_wf_def decode_ports_eq)
  next
    case sctp
    then show ?thesis using d pre
      by (cases "length sub < 12") (auto simp: Parsed_wf_def decode_ports_eq)
  next
    case other
    then have "q' = q" using d by (auto split: if_splits)
    with other pre show ?thesis by (simp add: Parsed_wf_def)
  qed (use d pre in \<open>auto simp: Parsed_wf_def\<close>)
qed

lemma decode6_sub_wf:
  assumes "decode6_sub q sub = Some q'" "sub_pre 6 q sub"
  shows "Parsed_wf q'"
proof -
  note d = assms(1) [unfolded decode6_sub_def]
  note pre = assms(2) [unfolded sub_pre_def]
  show ?thesis
  proof (cases "IPProto q" rule: proto_cases)
    case icmp6
    then show ?thesis using d pre by (cases "length sub < 4") (auto simp: Parsed_wf_def)
  next
    case tcp
    then show ?thesis using d pre
      by (cases "length sub < 20") (auto simp: Parsed_wf_def decode_tcp_eq)
  next
    case udp
    then show ?thesis using d pre
      by (cases "length sub < 8") (auto simp: Parsed_wf_def decode_ports_eq)
  next
    case sctp
    then show ?thesis using d pre
      by (cases "length sub < 12") (auto simp: Parsed_wf_def decode_ports_eq)
  next
    case other
    then have "q' = q" using d by (auto split: if_splits)
    with other pre show ?thesis by (simp add: Parsed_wf_def)
  qed (use d pre in \<open>auto simp: Parsed_wf_def\<close>)
qed

lemma Parsed_wf_unknown: "IPProto q = Unknown \<Longrightarrow> IPVersion q \<in> {0, 4, 6} \<Longrightarrow> Parsed_wf q"
  by (simp add: Parsed_wf_def)

lemma Parsed_wf_fragment:
  "IPVersion q = 4 \<Longrightarrow> p_length q \<le> length (p_b q) \<Longrightarrow> p_subofs q \<le> p_length q \<Longrightarrow>
     Is4 (ap_addr (Src q)) \<Longrightarrow> Is4 (ap_addr (Dst q)) \<Longrightarrow> Parsed_wf (q\<lparr>IPProto := 0xff\<rparr>)"
  by (simp add: Parsed_wf_def)

text \<open>The IPv4 decoder after the length checks, in closed form.\<close>

definition ip4_fields :: "Parsed \<Rightarrow> bytes \<Rightarrow> Parsed" where
  "ip4_fields q b = q\<lparr>IPProto := b ! 9, p_length := unat (be16 (b ! 2) (b ! 3)),
     Src := withIP (Src q) (netaddr_IPv4 (b ! 12) (b ! 13) (b ! 14) (b ! 15)),
     Dst := withIP (Dst q) (netaddr_IPv4 (b ! 16) (b ! 17) (b ! 18) (b ! 19)),
     p_subofs := unat (push_bit 2 (b ! 0 AND 0x0f))\<rparr>"

lemma decode4_eq:
  assumes "20 \<le> length b"
  shows "decode4 q b =
    (let q2 = ip4_fields q b; fragFlags = be16 (b ! 6) (b ! 7); fragOfs = fragFlags AND 0x1fff in
     if length b < p_length q2
     then Some (q\<lparr>IPProto := Unknown, p_length := p_length q2\<rparr>)
     else if p_length q2 < p_subofs q2 then Some (q2\<lparr>IPProto := Unknown\<rparr>)
     else if fragOfs = 0 then
       (if fragFlags AND 0x2000 \<noteq> 0 \<and> length b - p_subofs q2 < 10 then Some (q2\<lparr>IPProto := Unknown\<rparr>)
        else decode4_first q2 (drop (p_subofs q2) b))
     else if unat fragOfs < 10 then Some (q2\<lparr>IPProto := Unknown\<rparr>)
     else Some (q2\<lparr>IPProto := Fragment\<rparr>))"
proof -
  have "b \<noteq> []" using assms by auto
  then show ?thesis using assms by (simp add: decode4_def ip4_fields_def slice_simps Let_def)
qed

definition ip6_fields :: "Parsed \<Rightarrow> bytes \<Rightarrow> Parsed" where
  "ip6_fields q b = q\<lparr>IPProto := b ! 6, p_length := unat (be16 (b ! 4) (b ! 5)) + 40,
     Src := withIP (Src q) (AddrFrom16 (take 16 (drop 8 b))),
     Dst := withIP (Dst q) (AddrFrom16 (take 16 (drop 24 b))), p_subofs := 40\<rparr>"

lemma decode6_eq:
  assumes "40 \<le> length b"
  shows "decode6 q b =
    (let q2 = ip6_fields q b in
     if length b < p_length q2 then Some (q\<lparr>IPProto := Unknown, p_length := p_length q2\<rparr>)
     else decode6_sub q2 (drop 40 b))"
  using assms by (simp add: decode6_def ip6_fields_def slice_simps Let_def AddrFromSlice_def)

lemma decode4_wf:
  assumes "decode4 q b = Some q'" "p_b q = b" "IPVersion q = 4"
  shows "Parsed_wf q'"
proof (cases "length b < 20")
  case True
  then show ?thesis using assms by (auto simp: decode4_def intro!: Parsed_wf_unknown)
next
  case False
  let ?q = "ip4_fields q b"
  have f: "IPVersion ?q = 4" "p_b ?q = b" "Is4 (ap_addr (Src ?q))" "Is4 (ap_addr (Dst ?q))"
    using assms by (simp_all add: ip4_fields_def netaddr_IPv4_def AddrFrom4_def)
  show ?thesis
  proof (cases "length b < p_length ?q \<or> p_length ?q < p_subofs ?q")
    case True
    then show ?thesis using assms False f
      by (auto simp: decode4_eq Let_def split: if_splits intro!: Parsed_wf_unknown)
  next
    case l: False
    then have pre: "sub_pre 4 ?q (drop (p_subofs ?q) b)" using f by (simp add: sub_pre_def)
    show ?thesis using assms(1) False l f decode4_first_wf [OF _ pre, of q']
      by (auto simp: decode4_eq Let_def split: if_splits intro: Parsed_wf_unknown Parsed_wf_fragment)
  qed
qed

lemma decode6_wf:
  assumes "decode6 q b = Some q'" "p_b q = b" "IPVersion q = 6"
  shows "Parsed_wf q'"
proof (cases "length b < 40")
  case True
  then show ?thesis using assms by (auto simp: decode6_def intro!: Parsed_wf_unknown)
next
  case False
  let ?q = "ip6_fields q b"
  have f: "IPVersion ?q = 6" "p_b ?q = b" "Is6 (ap_addr (Src ?q))" "Is6 (ap_addr (Dst ?q))"
    "p_subofs ?q = 40" "40 \<le> p_length ?q"
    using assms by (simp_all add: ip6_fields_def AddrFrom16_def)
  show ?thesis
  proof (cases "length b < p_length ?q")
    case True
    then show ?thesis using assms False
      by (auto simp: decode6_eq Let_def intro!: Parsed_wf_unknown)
  next
    case l: False
    then have "sub_pre 6 ?q (drop 40 b)" using f by (simp add: sub_pre_def)
    with assms(1) False l show ?thesis using decode6_sub_wf [of ?q "drop 40 b" q']
      by (simp add: decode6_eq Let_def)
  qed
qed

lemma Decode_Nil: "Decode q [] = Some (q\<lparr>p_b := [], p_CaptureMeta := zeroCaptureMeta, IPVersion := 0, IPProto := Unknown\<rparr>)"
  by (simp add: Decode_def Let_def)

lemma Decode_Cons:
  "Decode q (x # xs) =
     (let q1 = q\<lparr>p_b := x # xs, p_CaptureMeta := zeroCaptureMeta, IPVersion := drop_bit 4 x\<rparr> in
      if drop_bit 4 x = 4 then decode4 q1 (x # xs)
      else if drop_bit 4 x = 6 then decode6 q1 (x # xs)
      else Some (q1\<lparr>IPVersion := 0, IPProto := Unknown\<rparr>))"
  by (simp add: Decode_def Let_def slice_simps)

lemma Decode_wf:
  assumes "Decode q b = Some q'"
  shows "Parsed_wf q'"
proof (cases b)
  case Nil
  then show ?thesis using assms by (auto simp: Decode_Nil intro!: Parsed_wf_unknown)
next
  case (Cons x xs)
  then show ?thesis using assms
    by (auto simp: Decode_Cons Let_def split: if_splits
        intro: Parsed_wf_unknown dest: decode4_wf decode6_wf)
qed

subsection \<open>What a decoded packet does not depend on\<close>

text \<open>
  Two decodings of the same bytes into different \<open>Parsed\<close> values agree on everything a client may
  read for the protocol found.
\<close>

definition same_view :: "Parsed \<Rightarrow> Parsed \<Rightarrow> bool" where
  "same_view r s \<longleftrightarrow>
     p_b r = p_b s \<and> IPVersion r = IPVersion s \<and> IPProto r = IPProto s \<and>
     (IPProto r \<noteq> Unknown \<longrightarrow>
        ap_addr (Src r) = ap_addr (Src s) \<and> ap_addr (Dst r) = ap_addr (Dst s) \<and>
        p_length r = p_length s \<and> p_subofs r = p_subofs s) \<and>
     (IPProto r \<in> {TCP, UDP, SCTP} \<longrightarrow> Src r = Src s \<and> Dst r = Dst s) \<and>
     (IPProto r = TCP \<longrightarrow> TCPFlags r = TCPFlags s) \<and>
     (IPProto r \<in> {TCP, UDP, TSMP} \<longrightarrow> p_dataofs r = p_dataofs s)"

lemma same_view_unknown:
  "p_b r = p_b s \<Longrightarrow> IPVersion r = IPVersion s \<Longrightarrow> IPProto r = Unknown \<Longrightarrow> IPProto s = Unknown \<Longrightarrow> same_view r s"
  by (simp add: same_view_def)

definition same_ip :: "Parsed \<Rightarrow> Parsed \<Rightarrow> bool" where
  "same_ip r s \<longleftrightarrow> p_b r = p_b s \<and> IPVersion r = IPVersion s \<and> IPProto r = IPProto s \<and>
     ap_addr (Src r) = ap_addr (Src s) \<and> ap_addr (Dst r) = ap_addr (Dst s) \<and>
     p_length r = p_length s \<and> p_subofs r = p_subofs s"

lemma same_ip_no_ports:
  "same_ip r s \<Longrightarrow> IPProto r \<notin> {TCP, UDP, SCTP, TSMP} \<Longrightarrow> same_view r s"
  by (simp add: same_ip_def same_view_def)

lemma withPort_cong: "ap_addr a = ap_addr b \<Longrightarrow> withPort a p = withPort b p"
  by (simp add: withPort_def)

lemma decode4_first_same:
  assumes "decode4_first q sub = Some r" "decode4_first q' sub = Some s" "same_ip q q'"
  shows "same_view r s"
proof -
  note d = assms(1) [unfolded decode4_first_def] assms(2) [unfolded decode4_first_def]
  note i = assms(3) [unfolded same_ip_def]
  show ?thesis
  proof (cases "IPProto q" rule: proto_cases)
    case icmp4
    then show ?thesis using d i by (cases "length sub < 4") (auto simp: same_view_def)
  next
    case tcp
    then show ?thesis using d i
      by (cases "length sub < 20") (auto simp: same_view_def decode_tcp_eq intro: withPort_cong)
  next
    case udp
    then show ?thesis using d i
      by (cases "length sub < 8") (auto simp: same_view_def decode_ports_eq intro: withPort_cong)
  next
    case sctp
    then show ?thesis using d i
      by (cases "length sub < 12") (auto simp: same_view_def decode_ports_eq intro: withPort_cong)
  next
    case other
    then have "r = q" "s = q'" using d i by (auto split: if_splits)
    with other assms(3) show ?thesis by (intro same_ip_no_ports) simp_all
  qed (use d i in \<open>auto simp: same_view_def\<close>)
qed

lemma decode6_sub_same:
  assumes "decode6_sub q sub = Some r" "decode6_sub q' sub = Some s" "same_ip q q'"
  shows "same_view r s"
proof -
  note d = assms(1) [unfolded decode6_sub_def] assms(2) [unfolded decode6_sub_def]
  note i = assms(3) [unfolded same_ip_def]
  show ?thesis
  proof (cases "IPProto q" rule: proto_cases)
    case icmp6
    then show ?thesis using d i by (cases "length sub < 4") (auto simp: same_view_def)
  next
    case tcp
    then show ?thesis using d i
      by (cases "length sub < 20") (auto simp: same_view_def decode_tcp_eq intro: withPort_cong)
  next
    case udp
    then show ?thesis using d i
      by (cases "length sub < 8") (auto simp: same_view_def decode_ports_eq intro: withPort_cong)
  next
    case sctp
    then show ?thesis using d i
      by (cases "length sub < 12") (auto simp: same_view_def decode_ports_eq intro: withPort_cong)
  next
    case other
    then have "r = q" "s = q'" using d i by (auto split: if_splits)
    with other assms(3) show ?thesis by (intro same_ip_no_ports) simp_all
  qed (use d i in \<open>auto simp: same_view_def\<close>)
qed

lemma ip4_fields_same: "p_b q = p_b q' \<Longrightarrow> IPVersion q = IPVersion q' \<Longrightarrow> same_ip (ip4_fields q b) (ip4_fields q' b)"
  by (simp add: same_ip_def ip4_fields_def)

lemma ip6_fields_same: "p_b q = p_b q' \<Longrightarrow> IPVersion q = IPVersion q' \<Longrightarrow> same_ip (ip6_fields q b) (ip6_fields q' b)"
  by (simp add: same_ip_def ip6_fields_def)

lemma decode4_same:
  assumes "decode4 q b = Some r" "decode4 q' b = Some s" "p_b q = p_b q'" "IPVersion q = IPVersion q'"
  shows "same_view r s"
proof (cases "length b < 20")
  case True
  then show ?thesis using assms by (auto simp: decode4_def intro!: same_view_unknown)
next
  case False
  let ?q = "ip4_fields q b" and ?q' = "ip4_fields q' b"
  have i: "same_ip ?q ?q'" by (rule ip4_fields_same [OF assms(3,4)])
  note e = i [unfolded same_ip_def]
  show ?thesis
    using False assms e decode4_first_same [OF _ _ i, of "drop (p_subofs ?q) b" r s]
    by (auto simp: decode4_eq Let_def split: if_splits intro: same_view_unknown)
      (simp_all add: same_view_def)
qed

lemma decode6_same:
  assumes "decode6 q b = Some r" "decode6 q' b = Some s" "p_b q = p_b q'" "IPVersion q = IPVersion q'"
  shows "same_view r s"
proof (cases "length b < 40")
  case True
  then show ?thesis using assms by (auto simp: decode6_def intro!: same_view_unknown)
next
  case False
  let ?q = "ip6_fields q b" and ?q' = "ip6_fields q' b"
  have i: "same_ip ?q ?q'" by (rule ip6_fields_same [OF assms(3,4)])
  note e = i [unfolded same_ip_def]
  show ?thesis
    using False assms e decode6_sub_same [OF _ _ i, of "drop 40 b" r s]
    by (auto simp: decode6_eq Let_def split: if_splits intro: same_view_unknown)
qed

lemma decode4_short: "length b < 20 \<Longrightarrow> decode4 q b = Some (q\<lparr>IPVersion := 0, IPProto := Unknown\<rparr>)"
  by (simp add: decode4_def)

lemma decode6_short: "length b < 40 \<Longrightarrow> decode6 q b = Some (q\<lparr>IPVersion := 0, IPProto := Unknown\<rparr>)"
  by (simp add: decode6_def)

lemma decode4_first_p_b: "decode4_first q sub = Some r \<Longrightarrow> p_b r = p_b q"
  unfolding decode4_first_def
  by (cases "IPProto q" rule: proto_cases; cases "length sub < 20")
    (auto simp: decode_tcp_eq decode_ports_eq split: if_splits)

lemma decode6_sub_p_b: "decode6_sub q sub = Some r \<Longrightarrow> p_b r = p_b q"
  unfolding decode6_sub_def
  by (cases "IPProto q" rule: proto_cases; cases "length sub < 20")
    (auto simp: decode_tcp_eq decode_ports_eq split: if_splits)

lemma ip_fields_p_b [simp]: "p_b (ip4_fields q b) = p_b q" "p_b (ip6_fields q b) = p_b q"
  by (simp_all add: ip4_fields_def ip6_fields_def)

lemma decode4_p_b: "decode4 q b = Some r \<Longrightarrow> p_b r = p_b q"
  by (cases "length b < 20")
    (auto simp: decode4_eq decode4_short Let_def split: if_splits dest: decode4_first_p_b)

lemma decode6_p_b: "decode6 q b = Some r \<Longrightarrow> p_b r = p_b q"
  by (cases "length b < 40")
    (auto simp: decode6_eq decode6_short Let_def split: if_splits dest: decode6_sub_p_b)

lemma Decode_p_b: "Decode q b = Some r \<Longrightarrow> p_b r = b"
  by (cases b) (auto simp: Decode_Nil Decode_Cons Let_def split: if_splits dest: decode4_p_b decode6_p_b)

lemma Decode_same_view:
  assumes "Decode q b = Some r" "Decode q' b = Some s"
  shows "same_view r s"
proof (cases b)
  case Nil
  then show ?thesis using assms by (auto simp: Decode_Nil intro!: same_view_unknown)
next
  case (Cons x xs)
  then show ?thesis using assms
    by (auto simp: Decode_Cons Let_def split: if_splits intro: same_view_unknown
        elim: decode4_same decode6_same)
qed

subsection \<open>The properties of the decoder\<close>

text \<open>
  C11. Decoding is total and well-formed: whatever the bytes and whatever the reused \<open>Parsed\<close> value
  holds, \<open>Decode\<close> does not panic, stores the buffer, and returns a value in which the version is
  0, 4 or 6, known protocols have addresses of that version's family, lengths and offsets lie
  within the buffer, and the whole header of a TCP, UDP or SCTP packet is there to be read.
\<close>

theorem Decode_total: "\<exists>q'. Decode q b = Some q' \<and> p_b q' = b \<and> Parsed_wf q'"
  using Decode_Some [of q b] Decode_p_b Decode_wf by blast

text \<open>
  Nothing of the previously decoded packet leaks into a classified one: two decodings of the
  same bytes into any two reused \<open>Parsed\<close> values agree on version, protocol, addresses, lengths,
  and, for the protocols that have them, on ports, TCP flags and payload offset.
\<close>

theorem Decode_stateless:
  "\<exists>r s. Decode q b = Some r \<and> Decode q' b = Some s \<and> same_view r s"
  using Decode_Some [of q b] Decode_Some [of q' b] Decode_same_view by blast

text \<open>
  For an unknown protocol the opposite holds, against the comment on \<open>Parsed.Src\<close> ("Family
  matches IPVersion"): decoding an IPv4 packet that is shorter than its length field says leaves
  version 4 with both addresses of whatever packet was decoded before.
\<close>

theorem Decode_truncated_keeps_addresses:
  assumes "20 \<le> length b" "drop_bit 4 (b ! 0) = 4" "length b < unat (be16 (b ! 2) (b ! 3))"
  shows "\<exists>r. Decode q b = Some r \<and> IPVersion r = 4 \<and> IPProto r = Unknown \<and> Src r = Src q \<and> Dst r = Dst q"
proof -
  from assms(1) obtain x xs where b: "b = x # xs" by (cases b) auto
  with assms show ?thesis
    by (simp add: Decode_Cons Let_def decode4_eq ip4_fields_def)
qed

definition truncated_packet :: bytes where
  "truncated_packet = [0x45, 0, 0, 30, 0, 0, 0, 0, 64, 17, 0, 0, 10, 0, 0, 1, 10, 0, 0, 2]"

theorem Decode_truncated_keeps_addresses_witness:
  "\<exists>r. Decode (zeroParsed\<lparr>Dst := AddrPortFrom (V6 1 []) 53\<rparr>) truncated_packet = Some r \<and>
     IPVersion r = 4 \<and> Is6 (ap_addr (Dst r))"
proof -
  have h: "20 \<le> length truncated_packet" "drop_bit 4 (truncated_packet ! 0) = 4"
    "length truncated_packet < unat (be16 (truncated_packet ! 2) (truncated_packet ! 3))"
    by (simp_all add: truncated_packet_def unat_be16)
  show ?thesis
    using Decode_truncated_keeps_addresses [OF h, of "zeroParsed\<lparr>Dst := AddrPortFrom (V6 1 []) 53\<rparr>"]
    by (auto simp: AddrPortFrom_def)
qed

text \<open>
  The decoder checks that a subprotocol header fits into the buffer, not into the length of the
  IP packet: a 28-byte buffer whose IPv4 header announces 20 bytes is classified as UDP, its data
  offset lies beyond its length, and \<open>Payload\<close> panics on it.
\<close>

definition short_udp_packet :: bytes where
  "short_udp_packet =
     [0x45, 0, 0, 20, 0, 0, 0, 0, 64, 17, 0, 0, 10, 0, 0, 1, 10, 0, 0, 2, 0, 1, 0, 2, 0, 8, 0, 0]"

theorem Payload_can_panic:
  "\<exists>q'. Decode q short_udp_packet = Some q' \<and> IPProto q' = UDP \<and> Payload q' = None"
  by (simp add: short_udp_packet_def Decode_Cons Let_def decode4_eq ip4_fields_def unat_be16
      decode4_first_def decode_ports_eq Payload_def slice_def be16_def)

text \<open>
  The packets whose payload the client does parse before filtering, those of the inter-node
  protocol TSMP, are safe: after decoding, \<open>Payload\<close> returns the bytes from the subprotocol's start
  to the end of the IP packet.
\<close>

theorem Payload_TSMP_safe:
  assumes "Decode q b = Some q'" "IPProto q' = TSMP"
  shows "Payload q' = Some (take (p_length q' - p_subofs q') (drop (p_subofs q') b))"
  using Decode_wf [OF assms(1)] Decode_p_b [OF assms(1)] assms(2)
  by (simp add: Parsed_wf_def Payload_def slice_Some)

definition tsmp_ping_packet :: bytes where
  "tsmp_ping_packet =
     [0x45, 0, 0, 29, 0, 0, 0, 0, 64, 99, 0, 0, 10, 0, 0, 1, 10, 0, 0, 2,
      0x70, 1, 2, 3, 4, 5, 6, 7, 8]"

theorem Payload_TSMP_safe_witness:
  "\<exists>q'. Decode zeroParsed tsmp_ping_packet = Some q' \<and> IPProto q' = TSMP \<and>
     Payload q' = Some [0x70, 1, 2, 3, 4, 5, 6, 7, 8]"
proof -
  obtain q' where q': "Decode zeroParsed tsmp_ping_packet = Some q'" "IPProto q' = TSMP"
      "p_length q' = 29" "p_subofs q' = 20"
    by (simp add: tsmp_ping_packet_def Decode_Cons Let_def decode4_eq ip4_fields_def unat_be16
        decode4_first_def be16_def)
  with Payload_TSMP_safe [OF q'(1,2)] show ?thesis
    by (simp add: tsmp_ping_packet_def)
qed

end
