(* ===== verification/Tsaddr.thy ===== *)
theory Tsaddr
  imports Packet Art_Bits
begin

unbundle bit_operations_syntax

section \<open>Package \<open>net/tsaddr\<close>: the addresses of the network\<close>

text \<open>
  \<open>src/net/tsaddr/tsaddr.go\<close>: the ranges that addresses are assigned from, the embeddings of IPv4 into
  IPv6 and the test functions on sets of prefixes. The ranges are parsed once from constant strings by
  \<open>mustPrefix\<close>; here they are the prefixes these strings denote. \<open>SortPrefixes\<close>, whose order is a third
  party's, is left out.
\<close>

subsection \<open>Ranges\<close>

definition ChromeOSVMRange :: prefix where "ChromeOSVMRange = Prefix (V4 0x64735c00) 23"
definition CGNATRange :: prefix where "CGNATRange = Prefix (V4 0x64400000) 10"
definition TailscaleServiceIP :: addr where "TailscaleServiceIP = netaddr_IPv4 100 100 100 100"
definition TailscaleServiceIPv6 :: addr where
  "TailscaleServiceIPv6 = pfx_addr (Prefix (V6 0xfd7a115ca1e000000000000000000053 []) 128)"
definition TailscaleULARange :: prefix where
  "TailscaleULARange = Prefix (V6 0xfd7a115ca1e000000000000000000000 []) 48"
definition TailscaleViaRange :: prefix where
  "TailscaleViaRange = Prefix (V6 0xfd7a115ca1e00b1a0000000000000000 []) 64"
definition Tailscale4To6Range :: prefix where
  "Tailscale4To6Range = Prefix (V6 0xfd7a115ca1e0ab124843cd9662000000 []) 104"
definition TailscaleEphemeral6Range :: prefix where
  "TailscaleEphemeral6Range = Prefix (V6 0xfd7a115ca1e0efe30000000000000000 []) 64"

definition IsTailscaleIP :: "addr \<Rightarrow> bool" where
  "IsTailscaleIP ip =
     (if Is4 ip then Contains CGNATRange ip \<and> \<not> Contains ChromeOSVMRange ip
      else Contains TailscaleULARange ip)"

subsection \<open>IPv4 inside IPv6\<close>

definition Tailscale4To6Placeholder :: addr where
  "Tailscale4To6Placeholder = pfx_addr Tailscale4To6Range"

text \<open>A run-time panic (\<open>As4\<close>) is \<open>None\<close>.\<close>

definition Tailscale4To6 :: "addr \<Rightarrow> addr option" where
  "Tailscale4To6 ipv4 =
     (if \<not> Is4 ipv4 \<or> \<not> IsTailscaleIP ipv4 then Some AddrZero
      else do {
        v4 \<leftarrow> As4 ipv4;
        Some (AddrFrom16 (copy_at (As16 (pfx_addr Tailscale4To6Range)) 13 (drop 1 v4))) })"

definition Tailscale6to4 :: "addr \<Rightarrow> addr \<times> bool" where
  "Tailscale6to4 ipv6 =
     (if \<not> Is6 ipv6 \<or> \<not> Contains Tailscale4To6Range ipv6 then (AddrZero, False)
      else let v6 = As16 ipv6 in (AddrFrom4 [100, v6 ! 13, v6 ! 14, v6 ! 15], True))"

definition IsViaPrefix :: "prefix \<Rightarrow> bool" where
  "IsViaPrefix p = Contains TailscaleViaRange (pfx_addr p)"

definition UnmapVia :: "addr \<Rightarrow> addr" where
  "UnmapVia ip = (if Contains TailscaleViaRange ip then AddrFrom4 (take 4 (drop 12 (As16 ip))) else ip)"

text \<open>The error return is \<open>Inl\<close>.\<close>

definition MapVia :: "u32 \<Rightarrow> prefix \<Rightarrow> (string + prefix) option" where
  "MapVia siteID v4 =
     (if \<not> Is4 (pfx_addr v4) then Some (Inl ''want IPv4 CIDR with a site ID'')
      else
        let a = copy_at (replicate 16 0) 0 (take 8 (As16 (pfx_addr TailscaleViaRange)));
            a = copy_at a 8 (be_bytes 4 siteID)
        in do {
          ip4a \<leftarrow> As4 (pfx_addr v4);
          Some (Inr (PrefixFrom (AddrFrom16 (copy_at a 12 ip4a)) (pfx_bits v4 + 64 + 32))) })"

subsection \<open>Sets of prefixes\<close>

definition IsSingleIP :: "prefix \<Rightarrow> bool" where
  "IsSingleIP p = (pfx_valid p \<and> pfx_bits p = int (BitLen (pfx_addr p)))"

definition FalseContainsIPFunc :: "addr \<Rightarrow> bool" where
  "FalseContainsIPFunc ip = False"

fun PrefixesContainsIP :: "prefix list \<Rightarrow> addr \<Rightarrow> bool" where
  "PrefixesContainsIP [] ip = False"
| "PrefixesContainsIP (r # ipp) ip = (if Contains r ip then True else PrefixesContainsIP ipp ip)"

text \<open>The function that is returned, applied to an address; the loop of the slow case is that of \<open>PrefixesContainsIP\<close>.\<close>

definition NewContainsIPFunc :: "prefix list \<Rightarrow> addr \<Rightarrow> bool" where
  "NewContainsIPFunc addrs =
     (if length addrs = 0 then (\<lambda>ip. False)
      else if list_ex (\<lambda>p. \<not> IsSingleIP p) addrs then (\<lambda>ip. PrefixesContainsIP addrs ip)
      else if length addrs = 1 then let a = addrs ! 0 in (\<lambda>ip. ip = pfx_addr a)
      else if length addrs = 2 then let a = addrs ! 0; b = addrs ! 1 in (\<lambda>ip. ip = pfx_addr a \<or> ip = pfx_addr b)
      else let m = foldl (\<lambda>m p. m(pfx_addr p \<mapsto> True)) Map.empty addrs in (\<lambda>ip. case m ip of Some v \<Rightarrow> v | None \<Rightarrow> False))"

definition PrefixIs4 :: "prefix \<Rightarrow> bool" where "PrefixIs4 p = Is4 (pfx_addr p)"
definition PrefixIs6 :: "prefix \<Rightarrow> bool" where "PrefixIs6 p = Is6 (pfx_addr p)"

definition AllIPv4 :: prefix where "AllIPv4 = Prefix (V4 0) 0"
definition AllIPv6 :: prefix where "AllIPv6 = Prefix (V6 0 []) 0"
definition ExitRoutes :: "prefix list" where "ExitRoutes = [AllIPv4, AllIPv6]"

fun exit_loop :: "prefix list \<Rightarrow> bool \<Rightarrow> bool \<Rightarrow> bool" where
  "exit_loop [] v4 v6 = (v4 \<and> v6)"
| "exit_loop (r # rr) v4 v6 =
     (if r = AllIPv4 then exit_loop rr True v6 else if r = AllIPv6 then exit_loop rr v4 True else exit_loop rr v4 v6)"

definition ContainsExitRoutes :: "prefix list \<Rightarrow> bool" where
  "ContainsExitRoutes rr = exit_loop rr False False"

fun ContainsNonExitSubnetRoutes :: "prefix list \<Rightarrow> bool" where
  "ContainsNonExitSubnetRoutes [] = False"
| "ContainsNonExitSubnetRoutes (r # rr) = (if pfx_bits r \<noteq> 0 then True else ContainsNonExitSubnetRoutes rr)"

fun FilterPrefixesCopy :: "prefix list \<Rightarrow> (prefix \<Rightarrow> bool) \<Rightarrow> prefix list" where
  "FilterPrefixesCopy [] f = []"
| "FilterPrefixesCopy (v # vs) f = (if f v then v # FilterPrefixesCopy vs f else FilterPrefixesCopy vs f)"

subsection \<open>What the test functions decide\<close>

lemma PrefixesContainsIP_iff [simp]: "PrefixesContainsIP ipp ip \<longleftrightarrow> (\<exists>p\<in>set ipp. Contains p ip)"
  by (induction ipp) auto

lemma exit_loop_iff: "exit_loop rr v4 v6 \<longleftrightarrow> (v4 \<or> AllIPv4 \<in> set rr) \<and> (v6 \<or> AllIPv6 \<in> set rr)"
  by (induction rr arbitrary: v4 v6) (auto simp: AllIPv4_def AllIPv6_def)

lemma ContainsExitRoutes_iff: "ContainsExitRoutes rr \<longleftrightarrow> set ExitRoutes \<subseteq> set rr"
  by (simp add: ContainsExitRoutes_def exit_loop_iff ExitRoutes_def)

lemma FilterPrefixesCopy_filter: "FilterPrefixesCopy vs f = filter f vs"
  by (induction vs) auto

lemma single_contains:
  assumes "IsSingleIP p" "\<not> hasZone (pfx_addr p)"
  shows "Contains p ip \<longleftrightarrow> ip = pfx_addr p"
  using assms by (cases "pfx_addr p"; cases ip) (auto simp: IsSingleIP_def Contains_iff)

lemma foldl_true: "foldl (\<lambda>m p. m(f p \<mapsto> True)) m ps x = (if x \<in> f ` set ps then Some True else m x)"
  by (induction ps arbitrary: m) auto

lemma length_2_list: "length xs = 2 \<Longrightarrow> xs = [xs ! 0, xs ! 1]"
  by (auto simp: numeral_eq_Suc length_Suc_conv)

text \<open>
  Whatever path \<open>NewContainsIPFunc\<close> chooses for a list of prefixes without zones, the function it returns tells
  exactly whether one of the prefixes contains the address.
\<close>

theorem NewContainsIPFunc_spec:
  assumes "\<forall>p\<in>set addrs. \<not> hasZone (pfx_addr p)"
  shows "NewContainsIPFunc addrs ip \<longleftrightarrow> (\<exists>p\<in>set addrs. Contains p ip)"
proof (cases "\<forall>p\<in>set addrs. IsSingleIP p")
  case True
  then have c: "(\<exists>p\<in>set addrs. Contains p ip) \<longleftrightarrow> ip \<in> pfx_addr ` set addrs" using assms single_contains by auto
  consider "length addrs = 0" | "length addrs = 1" | "length addrs = 2" | "length addrs > 2" by linarith
  then show ?thesis
  proof cases
    case 2
    then obtain a where "addrs = [a]" by (auto simp: length_Suc_conv)
    then show ?thesis using True c by (simp add: NewContainsIPFunc_def list_ex_iff)
  next
    case 3
    then obtain a b where "addrs = [a, b]" using length_2_list by metis
    then show ?thesis using True c by (simp add: NewContainsIPFunc_def list_ex_iff)
  qed (use True c in \<open>auto simp: NewContainsIPFunc_def list_ex_iff foldl_true Let_def\<close>)
next
  case False
  then show ?thesis by (auto simp: NewContainsIPFunc_def list_ex_iff)
qed

theorem NewContainsIPFunc_spec_witness:
  "NewContainsIPFunc [Prefix (V4 1) 32, Prefix (V4 2) 32, Prefix (V4 3) 32] (V4 2)"
  using NewContainsIPFunc_spec [of "[Prefix (V4 1) 32, Prefix (V4 2) 32, Prefix (V4 3) 32]" "V4 2"]
  by (simp add: Contains_def pfx_valid_def)

subsection \<open>Bits of composed addresses\<close>

lemma word_bits_append:
  assumes "LENGTH('a::len) = 8 * length xs" "LENGTH('b::len) = 8 * length ys" "LENGTH('c::len) = 8 * (length xs + length ys)"
  shows "word_bits (be_word (xs @ ys) :: 'c word) = word_bits (be_word xs :: 'a word) @ word_bits (be_word ys :: 'b word)"
proof (rule nth_equalityI)
  fix i assume "i < length (word_bits (be_word (xs @ ys) :: 'c word))"
  then have i: "i < 8 * (length xs + length ys)" using assms by simp
  have c: "word_bits (be_word (xs @ ys) :: 'c word) ! i = word_bits ((xs @ ys) ! (i div 8)) ! (i mod 8)"
    using word_bits_be_word [where 'a = 'c, of "xs @ ys" i] assms(3) i by simp
  show "word_bits (be_word (xs @ ys) :: 'c word) ! i = (word_bits (be_word xs :: 'a word) @ word_bits (be_word ys :: 'b word)) ! i"
  proof (cases "i < 8 * length xs")
    case True
    then show ?thesis using c assms(1) word_bits_be_word [where 'a = 'a, of xs i] by (simp add: nth_append less_mult_imp_div_less mult.commute)
  next
    case False
    then obtain j where j: "i = 8 * length xs + j" by (metis le_Suc_ex not_le)
    then have "i div 8 = length xs + j div 8" "i mod 8 = j mod 8" by simp_all
    then show ?thesis using c i j assms(1,2) word_bits_be_word [where 'a = 'b, of ys j] by (simp add: nth_append)
  qed
qed (use assms in simp)

subsection \<open>The embeddings\<close>

definition via_bytes :: bytes where
  "via_bytes = take 8 (As16 (pfx_addr TailscaleViaRange))"

lemma via_bytes_len [simp]: "length via_bytes = 8"
  by (simp add: via_bytes_def)

definition via_addr :: "u32 \<Rightarrow> u32 \<Rightarrow> addr" where
  "via_addr s w = AddrFrom16 (via_bytes @ be_bytes 4 s @ be_bytes 4 w)"

lemma MapVia_eq: "MapVia s (Prefix (V4 w) n) = Some (Inr (PrefixFrom (via_addr s w) (n + 96)))"
  by (simp add: MapVia_def via_addr_def copy_at_def Let_def add.commute [of n] flip: via_bytes_def)

lemma via_addr_bits: "addr_bits (via_addr s w) = word_bits (be_word via_bytes :: u64) @ word_bits s @ word_bits w"
proof -
  have "addr_bits (via_addr s w) = word_bits (be_word (via_bytes @ be_bytes 4 s @ be_bytes 4 w) :: u128)"
    by (simp add: via_addr_def AddrFrom16_def)
  also have "\<dots> = word_bits (be_word via_bytes :: u64) @ word_bits (be_word (be_bytes 4 s @ be_bytes 4 w) :: u64)"
    by (rule word_bits_append) simp_all
  also have "word_bits (be_word (be_bytes 4 s @ be_bytes 4 w) :: u64) = word_bits (be_word (be_bytes 4 s) :: u32) @ word_bits (be_word (be_bytes 4 w) :: u32)"
    by (rule word_bits_append) simp_all
  finally show ?thesis by simp
qed

lemma via_addr_is6 [simp]: "Is6 (via_addr s w)" "\<not> hasZone (via_addr s w)" "BitLen (via_addr s w) = 128" "via_addr s w \<noteq> AddrZero"
  "withoutZone (via_addr s w) = via_addr s w" "\<not> Is4 (via_addr s w)"
  by (simp_all add: via_addr_def AddrFrom16_def)

lemma via_range_bits: "take 64 (addr_bits (pfx_addr TailscaleViaRange)) = word_bits (be_word via_bytes :: u64)"
proof -
  have "As16 (pfx_addr TailscaleViaRange) = via_bytes @ drop 8 (As16 (pfx_addr TailscaleViaRange))" by (simp add: via_bytes_def)
  moreover have "addr_bits (pfx_addr TailscaleViaRange) = word_bits (be_word (As16 (pfx_addr TailscaleViaRange)) :: u128)"
    by (simp add: TailscaleViaRange_def)
  ultimately show ?thesis
    using word_bits_append [where 'a = 64 and 'b = 64 and 'c = 128, of via_bytes "drop 8 (As16 (pfx_addr TailscaleViaRange))"] by simp
qed

lemma via_in_range: "Contains TailscaleViaRange (via_addr s w)"
proof -
  have "pfx_valid TailscaleViaRange" "Is6 (pfx_addr TailscaleViaRange)" "nat (pfx_bits TailscaleViaRange) = 64"
    by (simp_all add: TailscaleViaRange_def pfx_valid_def)
  then show ?thesis using via_range_bits by (simp add: Contains_iff via_addr_bits)
qed

text \<open>
  The IPv6 routes for IPv4 networks at numbered sites. \<open>MapVia\<close> maps every IPv4 prefix to a prefix in the via
  range; the address it gives to an IPv4 host at a site lies in the prefix it gives to a network at a
  site exactly if the sites are the same and the host is in the network; and \<open>UnmapVia\<close> gives the host
  address back.
\<close>

theorem MapVia_exact:
  assumes "0 \<le> n" "n \<le> 32"
  shows "\<exists>net host. MapVia s (Prefix (V4 w) n) = Some (Inr net) \<and> MapVia s' (Prefix (V4 x) 32) = Some (Inr host) \<and>
    IsViaPrefix net \<and> (Contains net (pfx_addr host) \<longleftrightarrow> s = s' \<and> Contains (Prefix (V4 w) n) (V4 x)) \<and>
    UnmapVia (pfx_addr host) = V4 x"
proof -
  let ?net = "PrefixFrom (via_addr s w) (n + 96)" and ?host = "PrefixFrom (via_addr s' x) (32 + 96)"
  have h: "pfx_addr ?host = via_addr s' x" "pfx_addr ?net = via_addr s w" "pfx_bits ?net = n + 96" "pfx_valid ?net"
    using assms by (simp_all add: PrefixFrom_def pfx_valid_def)
  have nn: "nat (n + 96) = 96 + nat n" using assms by simp
  have "Contains ?net (via_addr s' x) \<longleftrightarrow>
      take (96 + nat n) (addr_bits (via_addr s' x)) = take (96 + nat n) (addr_bits (via_addr s w))"
    using h by (simp add: Contains_iff nn)
  also have "\<dots> \<longleftrightarrow> s' = s \<and> take (nat n) (word_bits x) = take (nat n) (word_bits w)"
    unfolding via_addr_bits by simp
  also have "take (nat n) (word_bits x) = take (nat n) (word_bits w) \<longleftrightarrow> Contains (Prefix (V4 w) n) (V4 x)"
    using assms by (simp add: Contains_iff pfx_valid_def)
  finally have c: "Contains ?net (via_addr s' x) \<longleftrightarrow> s = s' \<and> Contains (Prefix (V4 w) n) (V4 x)" by auto
  have "UnmapVia (via_addr s' x) = V4 x"
    using via_in_range [of s' x] by (simp add: UnmapVia_def) (simp add: via_addr_def AddrFrom16_def AddrFrom4_def)
  then show ?thesis using c h via_in_range MapVia_eq [of s w n] MapVia_eq [of s' x 32] by (auto simp: IsViaPrefix_def)
qed

theorem MapVia_exact_witness:
  "\<exists>net host. MapVia 7 (Prefix (V4 0x0a010000) 16) = Some (Inr net) \<and> MapVia 7 (Prefix (V4 0x0a010203) 32) = Some (Inr host) \<and>
     Contains net (pfx_addr host) \<and> UnmapVia (pfx_addr host) = V4 0x0a010203"
  using MapVia_exact [of 16 7 "0x0a010000" 7 "0x0a010203"] by (auto simp: Contains_def pfx_valid_def)

text \<open>The embedding of the network's own IPv4 addresses.\<close>

lemma cgnat_first_byte:
  assumes "Contains CGNATRange (V4 w)"
  shows "be_bytes 4 w ! 0 = 100"
proof -
  have "take 10 (word_bits w) = take 10 (word_bits (0x64400000 :: u32))"
    using assms by (simp add: Contains_iff CGNATRange_def)
  then have "take 8 (take 10 (word_bits w)) = take 8 (take 10 (word_bits (0x64400000 :: u32)))" by (rule arg_cong)
  then have "take 8 (word_bits w) = take 8 (word_bits (0x64400000 :: u32))" by simp
  then have "word_bits (be_bytes 4 w ! 0) = word_bits (be_bytes 4 (0x64400000 :: u32) ! 0)"
    using be_bytes_bits [of 4 0 w] be_bytes_bits [of 4 0 "0x64400000 :: u32"] by simp
  moreover have "be_bytes 4 (0x64400000 :: u32) ! 0 = 100" by code_simp
  ultimately show ?thesis by simp
qed

text \<open>
  Every IPv4 address of the network is mapped by \<open>Tailscale4To6\<close> to an IPv6 address in the range reserved for
  these, from which \<open>Tailscale6to4\<close> recovers it.
\<close>

theorem Tailscale4To6_roundtrip:
  assumes "Is4 a" "IsTailscaleIP a"
  shows "\<exists>v6. Tailscale4To6 a = Some v6 \<and> Is6 v6 \<and> IsTailscaleIP v6 \<and> Tailscale6to4 v6 = (a, True)"
proof -
  obtain w where a: "a = V4 w" using assms(1) by (cases a) auto
  have c: "be_bytes 4 w ! 0 = 100" using assms(2) a by (intro cgnat_first_byte) (simp add: IsTailscaleIP_def)
  obtain b1 b2 b3 where b: "be_bytes 4 w = [100, b1, b2, b3]"
  proof -
    have "length (be_bytes 4 w) = 4" by simp
    then show ?thesis using that c by (auto simp: numeral_eq_Suc length_Suc_conv simp del: length_be_bytes)
  qed
  let ?R = "As16 (pfx_addr Tailscale4To6Range)"
  let ?b = "take 13 ?R @ [b1, b2, b3]" and ?v = "AddrFrom16 (take 13 (As16 (pfx_addr Tailscale4To6Range)) @ [b1, b2, b3])"
  have e: "Tailscale4To6 a = Some ?v" using assms a b by (simp add: Tailscale4To6_def copy_at_def)
  have bits: "addr_bits ?v = word_bits (be_word (take 13 ?R) :: 104 word) @ word_bits (be_word [b1, b2, b3] :: 24 word)"
    using word_bits_append [where 'a = 104 and 'b = 24 and 'c = 128, of "take 13 ?R" "[b1, b2, b3]"] by (simp add: AddrFrom16_def)
  have rbits: "addr_bits (pfx_addr Tailscale4To6Range) = word_bits (be_word (take 13 ?R) :: 104 word) @ word_bits (be_word (drop 13 ?R) :: 24 word)"
    using word_bits_append [where 'a = 104 and 'b = 24 and 'c = 128, of "take 13 ?R" "drop 13 ?R"]
    by (simp add: Tailscale4To6Range_def)
  have v: "pfx_valid Tailscale4To6Range" "Is6 (pfx_addr Tailscale4To6Range)" "\<not> Is4 (pfx_addr Tailscale4To6Range)" "nat (pfx_bits Tailscale4To6Range) = 104"
    "Is6 ?v" "\<not> Is4 ?v" "\<not> hasZone ?v" by (simp_all add: Tailscale4To6Range_def pfx_valid_def AddrFrom16_def)
  have in4: "Contains Tailscale4To6Range ?v" using v bits rbits by (simp add: Contains_iff)
  have "Contains TailscaleULARange ?v"
  proof -
    have "take 48 (addr_bits ?v) = take 48 (addr_bits (pfx_addr Tailscale4To6Range))" unfolding bits rbits by simp
    moreover have "take 48 (addr_bits (pfx_addr Tailscale4To6Range)) = take 48 (addr_bits (pfx_addr TailscaleULARange))" by code_simp
    moreover have "pfx_valid TailscaleULARange" "Is6 (pfx_addr TailscaleULARange)" "nat (pfx_bits TailscaleULARange) = 48"
      by (simp_all add: TailscaleULARange_def pfx_valid_def)
    ultimately show ?thesis using v by (simp add: Contains_iff)
  qed
  then have "IsTailscaleIP ?v" using v by (simp add: IsTailscaleIP_def)
  moreover have "As16 ?v = ?b" by (simp add: AddrFrom16_def)
  then have "Tailscale6to4 ?v = (AddrFrom4 (be_bytes 4 w), True)"
    using in4 v b by (simp add: Tailscale6to4_def Let_def nth_append)
  ultimately show ?thesis using e v a by auto
qed

theorem Tailscale4To6_roundtrip_witness:
  "\<exists>v6. Tailscale4To6 (V4 0x64656667) = Some v6 \<and> Tailscale6to4 v6 = (V4 0x64656667, True)"
proof -
  have "IsTailscaleIP (V4 0x64656667)" by code_simp
  then show ?thesis using Tailscale4To6_roundtrip [of "V4 0x64656667"] by auto
qed

end
