(* ===== verification/Checksum.thy ===== *)
theory Checksum
  imports Prelude
begin

unbundle bit_operations_syntax

section \<open>The Internet checksum of \<open>net/packet\<close>\<close>

text \<open>
  \<open>ip4Checksum\<close> (\<open>src/net/packet/ip4.go\<close>) and the routines \<open>checksumBytes\<close>,
  \<open>checksumCombine\<close> of \<open>src/net/packet/icmp6.go\<close>, with the accumulator kept at its 32 bits. The
  reference is the one's complement sum as arithmetic on natural numbers: \<open>sum16_nat\<close> adds the
  big-endian 16-bit words (an odd last byte is padded) and \<open>fold_nat\<close> reduces modulo \<open>65535\<close> with
  representatives \<open>1..65535\<close>.
\<close>

subsection \<open>The loops\<close>

fun sum16 :: "u32 \<Rightarrow> bytes \<Rightarrow> u32" where
  "sum16 ac [] = ac"
| "sum16 ac [x] = ac + push_bit 8 (ucast x)"
| "sum16 ac (x # y # r) = sum16 (ac + ucast (be16 x y)) r"

function fold16 :: "u32 \<Rightarrow> u32" where
  "fold16 ac = (if drop_bit 16 ac > 0 then fold16 (drop_bit 16 ac + (ac AND 0xffff)) else ac)"
  by pat_completeness auto

text \<open>One round of the carry loop on natural numbers.\<close>

lemma unat_and_ffff: "unat (ac AND (0xffff :: u32)) = unat ac mod 65536"
proof -
  have "ac AND 0xffff = take_bit 16 ac" by (simp add: take_bit_eq_mask mask_eq_exp_minus_1)
  then show ?thesis by (simp add: take_bit_eq_mod unat_mod_distrib)
qed

lemma unat_drop_bit_16: "unat (drop_bit 16 ac :: u32) = unat ac div 65536"
  by (simp add: unat_div_distrib drop_bit_eq_div)

lemma unat_less_u32: "unat (ac :: u32) < 4294967296"
  using unsigned_less [of ac] by simp

lemma unat_fold_step: "unat (drop_bit 16 ac + (ac AND 0xffff) :: u32) = unat ac div 65536 + unat ac mod 65536"
proof -
  have "unat ac div 65536 + unat ac mod 65536 \<le> unat ac"
    using div_mult_mod_eq [of "unat ac" 65536] by linarith
  then have "unat ac div 65536 + unat ac mod 65536 < 4294967296"
    using unat_less_u32 [of ac] by linarith
  then show ?thesis
    by (simp add: unat_word_ariths unat_and_ffff unat_drop_bit_16)
qed

lemma drop_bit_16_pos: "drop_bit 16 (ac :: u32) > 0 \<longleftrightarrow> 65536 \<le> unat ac"
proof -
  have "drop_bit 16 ac > 0 \<longleftrightarrow> 0 < unat (drop_bit 16 ac)" by (simp add: word_less_nat_alt)
  then show ?thesis by (simp add: unat_drop_bit_16 div_greater_zero_iff)
qed

termination fold16
proof (relation "measure unat")
  fix ac :: u32
  assume "drop_bit 16 ac > 0"
  then have "65536 \<le> unat ac" by (simp add: drop_bit_16_pos)
  moreover have "unat ac = 65536 * (unat ac div 65536) + unat ac mod 65536" by simp
  moreover have "0 < unat ac div 65536" using calculation(1) by (simp add: div_greater_zero_iff)
  ultimately have "unat ac div 65536 + unat ac mod 65536 < unat ac" by linarith
  then show "(drop_bit 16 ac + (ac AND 0xffff), ac) \<in> measure unat"
    by (simp add: unat_fold_step)
qed simp

declare fold16.simps [simp del]

definition ip4Checksum :: "bytes \<Rightarrow> u16" where
  "ip4Checksum b = ucast (NOT (fold16 (sum16 0 b)))"

definition checksumCombine :: "u16 \<Rightarrow> u16 \<Rightarrow> u16" where
  "checksumCombine a b = (let v = (ucast a + ucast b :: u32) in ucast (v + drop_bit 16 v))"

text \<open>
  \<open>checksumBytes\<close>: an odd buffer contributes its first byte as a low byte and the rest from
  there; the second parity test of the code then never succeeds, and is kept.
\<close>

fun sum_pairs :: "u32 \<Rightarrow> bytes \<Rightarrow> u32" where
  "sum_pairs v (x # y # r) = sum_pairs (v + (push_bit 8 (ucast x) + ucast y)) r"
| "sum_pairs v _ = v"

definition checksumBytes :: "bytes \<Rightarrow> u16 \<Rightarrow> u16" where
  "checksumBytes buf0 initial =
     (let v0 = ucast initial :: u32;
          (v1, buf) = (case buf0 of x # r \<Rightarrow> if odd (length buf0) then (v0 + ucast x, r) else (v0, buf0)
                       | [] \<Rightarrow> (v0, buf0));
          n = (if odd (length buf) then length buf - 1 else length buf);
          v2 = (if odd (length buf) then v1 + push_bit 8 (ucast (buf ! n)) else v1);
          v = sum_pairs v2 (take n buf)
      in checksumCombine (ucast v) (ucast (drop_bit 16 v)))"

subsection \<open>The reference: one's complement arithmetic\<close>

fun sum16_nat :: "bytes \<Rightarrow> nat" where
  "sum16_nat [] = 0"
| "sum16_nat [x] = 256 * unat x"
| "sum16_nat (x # y # r) = 256 * unat x + unat y + sum16_nat r"

definition fold_nat :: "nat \<Rightarrow> nat" where
  "fold_nat n = (if n = 0 then 0 else (n - 1) mod 65535 + 1)"

lemma fold_nat_small: "n < 65536 \<Longrightarrow> fold_nat n = n"
  by (simp add: fold_nat_def)

lemma fold_nat_le: "fold_nat n \<le> 65535"
proof -
  have "(n - 1) mod 65535 < 65535" by simp
  then show ?thesis unfolding fold_nat_def by (simp del: mod_less_divisor)
qed

lemma fold_nat_eq_0 [simp]: "fold_nat n = 0 \<longleftrightarrow> n = 0"
  by (simp add: fold_nat_def)

lemma fold_nat_mod: "fold_nat n mod 65535 = n mod 65535"
proof (cases n)
  case (Suc m)
  then show ?thesis by (simp add: fold_nat_def mod_Suc_eq)
qed (simp add: fold_nat_def)

lemma fold_nat_unique: "m \<le> 65535 \<Longrightarrow> m mod 65535 = n mod 65535 \<Longrightarrow> (m = 0 \<longleftrightarrow> n = 0) \<Longrightarrow> m = fold_nat n"
  using fold_nat_le [of n] fold_nat_mod [of n] fold_nat_eq_0 [of n]
  by (cases "m = 65535"; cases "fold_nat n = 65535") (auto simp: fold_nat_def mod_less)

lemma unat_fold16: "unat (fold16 ac) = fold_nat (unat ac)"
proof (induction ac rule: fold16.induct)
  case (1 ac)
  show ?case
  proof (cases "65536 \<le> unat ac")
    case True
    let ?n = "unat ac div 65536 + unat ac mod 65536"
    have "unat ac = 65536 * (unat ac div 65536) + unat ac mod 65536" by simp
    then have "unat ac = ?n + 65535 * (unat ac div 65536)" by linarith
    then have "?n mod 65535 = unat ac mod 65535" by (metis mod_mult_self2)
    moreover have "?n \<noteq> 0" using True by auto
    ultimately have "fold_nat ?n = fold_nat (unat ac)"
      using True by (intro fold_nat_unique) (simp_all add: fold_nat_le fold_nat_mod)
    with 1 True show ?thesis
      by (subst fold16.simps) (simp add: drop_bit_16_pos unat_fold_step)
  next
    case False
    then show ?thesis by (subst fold16.simps) (simp add: drop_bit_16_pos fold_nat_small)
  qed
qed

text \<open>No overflow: the 32-bit accumulator holds the exact sum of any IP packet.\<close>

lemma unat_byte: "unat (x :: byte) < 256"
  using unsigned_less [of x] by simp

lemma unat_u16: "unat (x :: u16) < 65536"
  using unsigned_less [of x] by simp

lemma unat_ucast_byte: "unat (ucast (x :: byte) :: u32) = unat x"
  using unat_byte [of x] by (simp add: unsigned_ucast_eq take_bit_nat_eq_self)

lemma unat_ucast_u16: "unat (ucast (x :: u16) :: u32) = unat x"
proof -
  have "unat x < 65536" using unsigned_less [of x] by simp
  then show ?thesis by (simp add: unsigned_ucast_eq take_bit_nat_eq_self)
qed

lemma sum16_nat_le: "sum16_nat b \<le> 65535 * ((length b + 1) div 2)"
proof (induction b rule: sum16_nat.induct)
  case (2 x)
  then show ?case using unat_byte [of x] by simp
next
  case (3 x y r)
  then show ?case using unat_byte [of x] unat_byte [of y] by simp
qed simp

lemma sum16_nat_bound: "length b \<le> 65535 \<Longrightarrow> sum16_nat b \<le> 2147450880"
proof -
  assume "length b \<le> 65535"
  then have "(length b + 1) div 2 \<le> 32768" by simp
  then have "65535 * ((length b + 1) div 2) \<le> 65535 * 32768" by (rule mult_le_mono2)
  with sum16_nat_le [of b] show ?thesis by linarith
qed

lemma unat_plus_u32: "unat a + unat b < 4294967296 \<Longrightarrow> unat (a + b :: u32) = unat a + unat b"
  by (simp add: unat_word_ariths)

lemma unat_push_8: "unat (push_bit 8 (ucast (x :: byte)) :: u32) = 256 * unat x"
  using unat_byte [of x] by (simp add: push_bit_eq_mult unat_word_ariths unat_ucast_byte)

lemma unat_sum16: "unat ac + sum16_nat b < 4294967296 \<Longrightarrow> unat (sum16 ac b) = unat ac + sum16_nat b"
proof (induction ac b rule: sum16.induct)
  case (2 ac x)
  then show ?case by (simp add: unat_plus_u32 unat_push_8)
next
  case (3 ac x y r)
  have "unat (ac + ucast (be16 x y)) = unat ac + (256 * unat x + unat y)"
    using 3 by (subst unat_plus_u32) (simp_all add: unat_ucast_u16 unat_be16)
  with 3 show ?case by simp
qed simp

lemma unat_not_low: "unat f \<le> 65535 \<Longrightarrow> unat (ucast (NOT (f :: u32)) :: u16) = 65535 - unat f"
proof -
  assume f: "unat f \<le> 65535"
  have "unat (ucast (NOT f) :: u16) = unat (NOT f) mod 65536"
    by (simp add: unsigned_ucast_eq unsigned_take_bit_eq take_bit_eq_mod)
  moreover have "unat (NOT f) = 4294967295 - unat f"
  proof -
    have "unat (NOT f + f) = unat (- 1 :: u32)" by (simp add: not_eq_complement)
    moreover have "unat (- 1 :: u32) = 4294967295"
      by (simp add: unsigned_minus_1_eq_mask mask_eq_exp_minus_1)
    ultimately have "(unat (NOT f) + unat f) mod 4294967296 = 4294967295"
      by (simp add: unat_word_ariths)
    moreover have "unat (NOT f) + unat f < 2 * 4294967296 - 1"
      using unat_less_u32 [of "NOT f"] f by linarith
    ultimately show ?thesis
      by (cases "unat (NOT f) + unat f < 4294967296") (simp_all add: le_mod_geq)
  qed
  moreover have "4294967295 - unat f = (65535 - unat f) + 65535 * 65536" using f by simp
  ultimately have "unat (ucast (NOT f) :: u16) = ((65535 - unat f) + 65535 * 65536) mod 65536"
    by (simp only:)
  also have "\<dots> = (65535 - unat f) mod 65536" by (rule mod_mult_self1)
  finally show ?thesis by simp
qed

lemma unat_ip4Checksum:
  "length b \<le> 65535 \<Longrightarrow> unat (ip4Checksum b) = 65535 - fold_nat (sum16_nat b)"
  using sum16_nat_bound [of b] unat_not_low [of "fold16 (sum16 0 b)"] fold_nat_le [of "sum16_nat b"]
  by (simp add: ip4Checksum_def unat_fold16 unat_sum16)

lemma sum16_nat_append: "even (length xs) \<Longrightarrow> sum16_nat (xs @ ys) = sum16_nat xs + sum16_nat ys"
  by (induction xs rule: sum16_nat.induct) auto

lemma fold_nat_complement: "fold_nat (n + (65535 - fold_nat n)) = 65535"
proof -
  have "(n + (65535 - fold_nat n)) mod 65535 = (fold_nat n + (65535 - fold_nat n)) mod 65535"
    by (metis fold_nat_mod mod_add_left_eq)
  also have "\<dots> = 0" using fold_nat_le [of n] by simp
  finally have "65535 mod 65535 = (n + (65535 - fold_nat n)) mod 65535" by simp
  moreover have "n + (65535 - fold_nat n) \<noteq> 0" by (cases "n = 0") (simp_all add: fold_nat_def)
  ultimately have "65535 = fold_nat (n + (65535 - fold_nat n))"
    by (intro fold_nat_unique) simp_all
  then show ?thesis by simp
qed

text \<open>
  The receiver's check: storing the checksum of a buffer into two zero bytes at an even offset
  makes the checksum of the whole buffer zero.
\<close>

lemma ip4Checksum_verifies:
  assumes "even (length xs)" "length (xs @ [0, 0] @ ys) \<le> 65535"
    and "c = ip4Checksum (xs @ [0, 0] @ ys)"
  shows "ip4Checksum (xs @ [be16_hi c, be16_lo c] @ ys) = 0"
proof -
  let ?n = "sum16_nat xs + sum16_nat ys"
  have "256 * unat (be16_hi c) + unat (be16_lo c) = unat c"
    using unat_be16 [of "be16_hi c" "be16_lo c"] by simp
  moreover have "unat c = 65535 - fold_nat ?n"
    using assms by (simp add: unat_ip4Checksum sum16_nat_append)
  ultimately have "sum16_nat (xs @ [be16_hi c, be16_lo c] @ ys) = ?n + (65535 - fold_nat ?n)"
    using assms(1) by (simp add: sum16_nat_append)
  then have "unat (ip4Checksum (xs @ [be16_hi c, be16_lo c] @ ys)) = 0"
    using assms(2) by (subst unat_ip4Checksum) (simp_all add: fold_nat_complement)
  then show ?thesis by (simp only: unsigned_eq_0_iff)
qed

subsection \<open>\<open>checksumBytes\<close> against the reference\<close>

lemma unat_checksumCombine: "unat (checksumCombine a b) = fold_nat (unat a + unat b)"
proof -
  let ?v = "ucast a + ucast b :: u32"
  have ab: "unat a < 65536" "unat b < 65536"
    using unsigned_less [of a] unsigned_less [of b] by simp_all
  then have v: "unat ?v = unat a + unat b"
    by (simp add: unat_plus_u32 unat_ucast_u16)
  have "unat ?v + unat ?v div 65536 < 4294967296" using v ab by linarith
  then have "unat (?v + drop_bit 16 ?v) = unat ?v + unat ?v div 65536"
    by (simp add: unat_plus_u32 unat_drop_bit_16)
  then have "unat (checksumCombine a b) = (unat ?v + unat ?v div 65536) mod 65536"
    by (simp add: checksumCombine_def Let_def unsigned_ucast_eq unsigned_take_bit_eq take_bit_eq_mod)
  also have "\<dots> = fold_nat (unat a + unat b)"
  proof (cases "unat a + unat b < 65536")
    case True
    then show ?thesis using v by (simp add: fold_nat_small)
  next
    case False
    then have d: "(unat a + unat b) div 65536 = 1" using ab by simp
    have "unat a + unat b + 1 = (unat a + unat b - 65535) + 65536" using False by simp
    then have "(unat a + unat b + 1) mod 65536 = unat a + unat b - 65535"
      using ab False by (simp add: mod_if)
    moreover have "fold_nat (unat a + unat b) = unat a + unat b - 65535"
    proof -
      have "fold_nat (unat a + unat b) = (unat a + unat b - 1) mod 65535 + 1"
        using False by (auto simp: fold_nat_def)
      also have "unat a + unat b - 1 = (unat a + unat b - 65536) + 65535" using False by simp
      also have "\<dots> mod 65535 = unat a + unat b - 65536" using ab by simp
      finally show ?thesis using False by simp
    qed
    ultimately show ?thesis using v d by simp
  qed
  finally show ?thesis .
qed

lemma unat_low_high: "unat (ucast (v :: u32) :: u16) = unat v mod 65536"
  "unat (ucast (drop_bit 16 (v :: u32)) :: u16) = unat v div 65536"
proof -
  have "unat v div 65536 < 65536" using unat_less_u32 [of v] by linarith
  then show "unat (ucast (v :: u32) :: u16) = unat v mod 65536"
    "unat (ucast (drop_bit 16 (v :: u32)) :: u16) = unat v div 65536"
    by (simp_all add: unsigned_ucast_eq take_bit_eq_mod unat_drop_bit_16)
qed

lemma fold_nat_div_mod: "fold_nat (n mod 65536 + n div 65536) = fold_nat n"
proof (cases "n = 0")
  case False
  have "n = 65536 * (n div 65536) + n mod 65536" by simp
  then have "n = (n mod 65536 + n div 65536) + 65535 * (n div 65536)" by linarith
  then have "(n mod 65536 + n div 65536) mod 65535 = n mod 65535" by (metis mod_mult_self2)
  moreover have "n mod 65536 + n div 65536 \<noteq> 0" using False by (metis add_is_0 div_mult_mod_eq mult_0)
  ultimately show ?thesis
    using False by (intro fold_nat_unique) (simp_all add: fold_nat_le fold_nat_mod)
qed simp

lemma unat_sum_pairs:
  "even (length b) \<Longrightarrow> unat v + sum16_nat b < 4294967296 \<Longrightarrow> unat (sum_pairs v b) = unat v + sum16_nat b"
proof (induction v b rule: sum_pairs.induct)
  case (1 v x y r)
  have "unat (push_bit 8 (ucast x) + ucast y :: u32) = 256 * unat x + unat y"
    using unat_byte [of x] unat_byte [of y]
    by (subst unat_plus_u32) (simp_all add: unat_push_8 unat_ucast_byte)
  then have "unat (v + (push_bit 8 (ucast x) + ucast y)) = unat v + (256 * unat x + unat y)"
    using 1 by (subst unat_plus_u32) simp_all
  with 1 show ?case by simp
qed auto

lemma unat_checksumBytes:
  assumes "even (length b)" "length b \<le> 65535"
  shows "unat (checksumBytes b i) = fold_nat (unat i + sum16_nat b)"
proof -
  have "unat i < 65536" using unsigned_less [of i] by simp
  then have "unat (ucast i :: u32) + sum16_nat b < 4294967296"
    using sum16_nat_bound [OF assms(2)] by (simp add: unat_ucast_u16)
  then have v: "unat (sum_pairs (ucast i) b) = unat i + sum16_nat b"
    using unat_sum_pairs [OF assms(1), of "ucast i"] by (simp add: unat_ucast_u16)
  have "checksumBytes b i =
      checksumCombine (ucast (sum_pairs (ucast i) b)) (ucast (drop_bit 16 (sum_pairs (ucast i) b)))"
    using assms(1) by (auto simp: checksumBytes_def Let_def split: list.split)
  then show ?thesis
    by (simp only: unat_checksumCombine unat_low_high(2)) (simp add: unat_low_high(1) v fold_nat_div_mod)
qed

text \<open>
  On a buffer of even length (at most 65535 bytes) \<open>checksumBytes\<close> followed by the complement is
  the same Internet checksum as \<open>ip4Checksum\<close>: the two independent implementations in the package
  agree there.
\<close>

theorem checksumBytes_agrees:
  assumes "even (length b)" "length b \<le> 65535"
  shows "NOT (checksumBytes b 0) = ip4Checksum b"
proof -
  have "unat (checksumBytes b 0) = fold_nat (sum16_nat b)"
    using unat_checksumBytes [OF assms, of 0] by simp
  moreover have "unat (ip4Checksum b) = 65535 - fold_nat (sum16_nat b)"
    using assms(2) by (rule unat_ip4Checksum)
  ultimately have "unat (ip4Checksum b) + unat (checksumBytes b 0) = 65535"
    using fold_nat_le [of "sum16_nat b"] by simp
  then have "unat (ip4Checksum b + checksumBytes b 0) = unat (- 1 :: u16)"
    by (simp add: unat_word_ariths unsigned_minus_1_eq_mask mask_eq_exp_minus_1)
  then have "ip4Checksum b + checksumBytes b 0 = - 1" by (simp only: word_unat_eq_iff)
  then have "ip4Checksum b = - 1 - checksumBytes b 0" by (simp only: eq_diff_eq)
  then show ?thesis by (simp only: not_eq_complement) simp
qed

theorem checksumBytes_agrees_witness: "NOT (checksumBytes [0x45, 0, 0, 1] 0) = ip4Checksum [0x45, 0, 0, 1]"
  by (rule checksumBytes_agrees) simp_all

text \<open>
  On a buffer of odd length the two disagree: RFC 1071 pads the last byte, \<open>checksumBytes\<close> takes
  the first byte alone, as the low half of a word. One byte is enough to see it.
\<close>

theorem checksumBytes_odd_differs:
  "\<exists>b. odd (length b) \<and> NOT (checksumBytes b 0) \<noteq> ip4Checksum b"
proof (intro exI conjI)
  show "NOT (checksumBytes [1] 0) \<noteq> ip4Checksum [1]"
    by code_simp
qed simp

end
