(* ===== verification/Packet_Headers.thy ===== *)
theory Packet_Headers
  imports Packet Checksum
begin

unbundle bit_operations_syntax

section \<open>Package \<open>net/packet\<close>: writing headers\<close>

text \<open>
  The header types of \<open>src/net/packet/{header,ip4,ip6,icmp4,icmp6,udp4,udp6}.go\<close> with their
  \<open>Len\<close>, \<open>Marshal\<close>, \<open>ToResponse\<close> and \<open>WriteChecksum\<close> methods, and \<open>Generate\<close>.

  \<open>Marshal\<close> writes into a caller's buffer and returns an error. Every error return precedes the
  first write, so the result is \<open>Inl e\<close> (buffer untouched) or \<open>Inr buf'\<close>; \<open>None\<close> is a panic. Where
  the code drops the error of a nested call, \<open>ignore_err\<close> keeps the buffer as it was.

  The locale \<open>header\<close> is the contract of the interface type \<open>Header\<close>; it is interpreted for every
  header type. The closed forms (\<open>ip4_hdr\<close>, \<open>udp4_hdr\<close>, ...) say which bytes are written, and from
  them follow the checksum theorems and the round trips through \<open>Decode\<close>.
\<close>

datatype herr = errSmallBuffer | errLargePacket | errWrongFamily | errBogusSrc

type_synonym marshal_res = "(herr + bytes) option"

definition maxPacketLength :: nat where [simp]: "maxPacketLength = 65535"

definition ignore_err :: "bytes \<Rightarrow> marshal_res \<Rightarrow> bytes option" where
  "ignore_err b r = (case r of None \<Rightarrow> None | Some (Inl _) \<Rightarrow> Some b | Some (Inr b') \<Rightarrow> Some b')"

definition u16_of_nat :: "nat \<Rightarrow> u16" where
  "u16_of_nat n = of_nat n"

subsection \<open>IPv4\<close>

record IP4Header =
  ip4_IPProto :: byte
  ip4_IPID :: u16
  ip4_Src :: addr
  ip4_Dst :: addr

definition IP4Header_Len :: "IP4Header \<Rightarrow> nat" where
  "IP4Header_Len h = ip4HeaderLength"

definition IP4Header_Marshal :: "IP4Header \<Rightarrow> bytes \<Rightarrow> marshal_res" where
  "IP4Header_Marshal h buf =
     (if length buf < IP4Header_Len h then Some (Inl errSmallBuffer)
      else if length buf > maxPacketLength then Some (Inl errLargePacket)
      else if \<not> Is4 (ip4_Src h) \<or> \<not> Is4 (ip4_Dst h) then Some (Inl errWrongFamily)
      else do {
        b \<leftarrow> wr buf 0 (0x40 OR word_of_nat (drop_bit 2 (IP4Header_Len h)));
        b \<leftarrow> wr b 1 0;
        b \<leftarrow> wr16 b 2 (u16_of_nat (length buf));
        b \<leftarrow> wr16 b 4 (ip4_IPID h);
        b \<leftarrow> wr16 b 6 0;
        b \<leftarrow> wr b 8 64;
        b \<leftarrow> wr b 9 (ip4_IPProto h);
        b \<leftarrow> wr16 b 10 0;
        src \<leftarrow> As4 (ip4_Src h);
        dst \<leftarrow> As4 (ip4_Dst h);
        let b = copy_at b 12 src;
        let b = copy_at b 16 dst;
        hdr \<leftarrow> slice b 0 20;
        b \<leftarrow> wr16 b 10 (ip4Checksum hdr);
        Some (Inr b) })"

definition IP4Header_ToResponse :: "IP4Header \<Rightarrow> IP4Header" where
  "IP4Header_ToResponse h = h\<lparr>ip4_Src := ip4_Dst h, ip4_Dst := ip4_Src h, ip4_IPID := NOT (ip4_IPID h)\<rparr>"

definition ip4PseudoHeaderOffset :: nat where [simp]: "ip4PseudoHeaderOffset = 8"

definition IP4Header_marshalPseudo :: "IP4Header \<Rightarrow> bytes \<Rightarrow> marshal_res" where
  "IP4Header_marshalPseudo h buf =
     (if length buf < IP4Header_Len h then Some (Inl errSmallBuffer)
      else if length buf > maxPacketLength then Some (Inl errLargePacket)
      else do {
        let len = length buf - IP4Header_Len h;
        src \<leftarrow> As4 (ip4_Src h);
        dst \<leftarrow> As4 (ip4_Dst h);
        let b = copy_at buf 8 src;
        let b = copy_at b 12 dst;
        b \<leftarrow> wr b 16 0;
        b \<leftarrow> wr b 17 (ip4_IPProto h);
        b \<leftarrow> wr16 b 18 (u16_of_nat len);
        Some (Inr b) })"

subsection \<open>IPv6\<close>

record IP6Header =
  ip6_IPProto :: byte
  ip6_IPID :: u32
  ip6_Src :: addr
  ip6_Dst :: addr

definition IP6Header_Len :: "IP6Header \<Rightarrow> nat" where
  "IP6Header_Len h = ip6HeaderLength"

definition IP6Header_Marshal :: "IP6Header \<Rightarrow> bytes \<Rightarrow> marshal_res" where
  "IP6Header_Marshal h buf =
     (if length buf < IP6Header_Len h then Some (Inl errSmallBuffer)
      else if length buf > maxPacketLength then Some (Inl errLargePacket)
      else do {
        let b = copy_at buf 0 (be_bytes 4 (ip6_IPID h AND 0x000FFFFF));
        b \<leftarrow> wr b 0 0x60;
        b \<leftarrow> wr16 b 4 (u16_of_nat (length buf - ip6HeaderLength));
        b \<leftarrow> wr b 6 (ip6_IPProto h);
        b \<leftarrow> wr b 7 64;
        let b = copy_at b 8 (As16 (ip6_Src h));
        let b = copy_at b 24 (As16 (ip6_Dst h));
        Some (Inr b) })"

definition IP6Header_ToResponse :: "IP6Header \<Rightarrow> IP6Header" where
  "IP6Header_ToResponse h =
     h\<lparr>ip6_Src := ip6_Dst h, ip6_Dst := ip6_Src h, ip6_IPID := NOT (ip6_IPID h) AND 0x000FFFFF\<rparr>"

definition IP6Header_marshalPseudo :: "IP6Header \<Rightarrow> bytes \<Rightarrow> byte \<Rightarrow> marshal_res" where
  "IP6Header_marshalPseudo h buf proto =
     (if length buf < IP6Header_Len h then Some (Inl errSmallBuffer)
      else if length buf > maxPacketLength then Some (Inl errLargePacket)
      else do {
        let b = copy_at buf 0 (As16 (ip6_Src h));
        let b = copy_at b 16 (As16 (ip6_Dst h));
        let b = copy_at b 32 (be_bytes 4 (word_of_nat (length buf - IP6Header_Len h) :: u32));
        b \<leftarrow> wr b 36 0;
        b \<leftarrow> wr b 37 0;
        b \<leftarrow> wr b 38 0;
        b \<leftarrow> wr b 39 proto;
        Some (Inr b) })"

subsection \<open>ICMP\<close>

record ICMP4Header =
  icmp4_IP :: IP4Header
  icmp4_Type :: byte
  icmp4_Code :: byte

definition ICMP4Header_Len :: "ICMP4Header \<Rightarrow> nat" where
  "ICMP4Header_Len h = IP4Header_Len (icmp4_IP h) + icmp4HeaderLength"

definition ICMP4Header_Marshal :: "ICMP4Header \<Rightarrow> bytes \<Rightarrow> marshal_res" where
  "ICMP4Header_Marshal h buf =
     (if length buf < ICMP4Header_Len h then Some (Inl errSmallBuffer)
      else if length buf > maxPacketLength then Some (Inl errLargePacket)
      else do {
        let ip = (icmp4_IP h)\<lparr>ip4_IPProto := ICMPv4\<rparr>;
        b \<leftarrow> wr buf 20 (icmp4_Type h);
        b \<leftarrow> wr b 21 (icmp4_Code h);
        b \<leftarrow> ignore_err b (IP4Header_Marshal ip b);
        b \<leftarrow> wr16 b 22 (ip4Checksum b);
        Some (Inr b) })"

definition ICMP4Header_ToResponse :: "ICMP4Header \<Rightarrow> ICMP4Header" where
  "ICMP4Header_ToResponse h =
     h\<lparr>icmp4_Type := 0x00, icmp4_Code := 0, icmp4_IP := IP4Header_ToResponse (icmp4_IP h)\<rparr>"

record ICMP6Header =
  icmp6_IP :: IP6Header
  icmp6_Type :: byte
  icmp6_Code :: byte

definition ICMP6Header_Len :: "ICMP6Header \<Rightarrow> nat" where
  "ICMP6Header_Len h = IP6Header_Len (icmp6_IP h) + icmp6HeaderLength"

definition ICMP6Header_Marshal :: "ICMP6Header \<Rightarrow> bytes \<Rightarrow> marshal_res" where
  "ICMP6Header_Marshal h buf =
     (if length buf < ICMP6Header_Len h then Some (Inl errSmallBuffer)
      else if length buf > maxPacketLength then Some (Inl errLargePacket)
      else do {
        let ip = (icmp6_IP h)\<lparr>ip6_IPProto := ICMPv6\<rparr>;
        b \<leftarrow> ignore_err buf (IP6Header_Marshal ip buf);
        b \<leftarrow> wr b 40 (icmp6_Type h);
        b \<leftarrow> wr b 41 (icmp6_Code h);
        b \<leftarrow> wr b 42 0;
        b \<leftarrow> wr b 43 0;
        Some (Inr b) })"

definition ICMP6Header_ToResponse :: "ICMP6Header \<Rightarrow> ICMP6Header" where
  "ICMP6Header_ToResponse h =
     h\<lparr>icmp6_Type := 129, icmp6_Code := 0, icmp6_IP := IP6Header_ToResponse (icmp6_IP h)\<rparr>"

text \<open>The header copy \<open>hdrz\<close> is a four byte array: a shorter header is padded with zeros.\<close>

definition icmp6Checksum :: "bytes \<Rightarrow> bytes \<Rightarrow> bytes \<Rightarrow> bytes \<Rightarrow> u16" where
  "icmp6Checksum header src dst payload =
     (let xsum = checksumBytes src 0;
          xsum = checksumBytes dst xsum;
          xsum = checksumBytes (be_bytes 4 (word_of_nat (length header + length payload) :: u32)) xsum;
          xsum = checksumBytes [0, 0, 0, ICMPv6] xsum;
          xsum = checksumBytes payload xsum;
          hdrz = copy_at (replicate icmp6HeaderLength 0) 0 header;
          hdrz = hdrz[2 := 0, 3 := 0]
      in NOT (checksumBytes hdrz xsum))"

definition ICMP6Header_WriteChecksum :: "ICMP6Header \<Rightarrow> bytes \<Rightarrow> bytes option" where
  "ICMP6Header_WriteChecksum h p = do {
     let payOff = ip6HeaderLength + icmp6HeaderLength;
     hdr \<leftarrow> slice p ip6HeaderLength payOff;
     payload \<leftarrow> slice_from p payOff;
     let xsum = icmp6Checksum hdr (As16 (ip6_Src (icmp6_IP h))) (As16 (ip6_Dst (icmp6_IP h))) payload;
     wr16 p (ip6HeaderLength + 2) xsum }"

subsection \<open>UDP\<close>

record UDP4Header =
  udp4_IP :: IP4Header
  udp4_SrcPort :: u16
  udp4_DstPort :: u16

definition UDP4Header_Len :: "UDP4Header \<Rightarrow> nat" where
  "UDP4Header_Len h = IP4Header_Len (udp4_IP h) + udpHeaderLength"

definition UDP4Header_Marshal :: "UDP4Header \<Rightarrow> bytes \<Rightarrow> marshal_res" where
  "UDP4Header_Marshal h buf =
     (if length buf < UDP4Header_Len h then Some (Inl errSmallBuffer)
      else if length buf > maxPacketLength then Some (Inl errLargePacket)
      else do {
        let ip = (udp4_IP h)\<lparr>ip4_IPProto := UDP\<rparr>;
        let len = length buf - IP4Header_Len ip;
        b \<leftarrow> wr16 buf 20 (udp4_SrcPort h);
        b \<leftarrow> wr16 b 22 (udp4_DstPort h);
        b \<leftarrow> wr16 b 24 (u16_of_nat len);
        b \<leftarrow> wr16 b 26 0;
        b \<leftarrow> ignore_err b (IP4Header_marshalPseudo ip b);
        ps \<leftarrow> slice_from b ip4PseudoHeaderOffset;
        b \<leftarrow> wr16 b 26 (ip4Checksum ps);
        b \<leftarrow> ignore_err b (IP4Header_Marshal ip b);
        Some (Inr b) })"

definition UDP4Header_ToResponse :: "UDP4Header \<Rightarrow> UDP4Header" where
  "UDP4Header_ToResponse h =
     h\<lparr>udp4_SrcPort := udp4_DstPort h, udp4_DstPort := udp4_SrcPort h,
       udp4_IP := IP4Header_ToResponse (udp4_IP h)\<rparr>"

record UDP6Header =
  udp6_IP :: IP6Header
  udp6_SrcPort :: u16
  udp6_DstPort :: u16

definition UDP6Header_Len :: "UDP6Header \<Rightarrow> nat" where
  "UDP6Header_Len h = IP6Header_Len (udp6_IP h) + udpHeaderLength"

definition UDP6Header_Marshal :: "UDP6Header \<Rightarrow> bytes \<Rightarrow> marshal_res" where
  "UDP6Header_Marshal h buf =
     (if length buf < UDP6Header_Len h then Some (Inl errSmallBuffer)
      else if length buf > maxPacketLength then Some (Inl errLargePacket)
      else do {
        let ip = (udp6_IP h)\<lparr>ip6_IPProto := UDP\<rparr>;
        let len = length buf - IP6Header_Len ip;
        b \<leftarrow> wr16 buf 40 (udp6_SrcPort h);
        b \<leftarrow> wr16 b 42 (udp6_DstPort h);
        b \<leftarrow> wr16 b 44 (u16_of_nat len);
        b \<leftarrow> wr16 b 46 0;
        b \<leftarrow> ignore_err b (IP6Header_marshalPseudo ip b UDP);
        b \<leftarrow> wr16 b 46 (ip4Checksum b);
        b \<leftarrow> ignore_err b (IP6Header_Marshal ip b);
        Some (Inr b) })"

definition UDP6Header_ToResponse :: "UDP6Header \<Rightarrow> UDP6Header" where
  "UDP6Header_ToResponse h =
     h\<lparr>udp6_SrcPort := udp6_DstPort h, udp6_DstPort := udp6_SrcPort h,
       udp6_IP := IP6Header_ToResponse (udp6_IP h)\<rparr>"

subsection \<open>The interface \<open>Header\<close> and \<open>Generate\<close>\<close>

text \<open>
  The header types that implement the interface, with the dynamic dispatch of its methods;
  only \<open>ICMP6Header\<close> also implements \<open>HeaderChecksummer\<close>.
\<close>

datatype Header = H_IP4 IP4Header | H_IP6 IP6Header | H_ICMP4 ICMP4Header | H_ICMP6 ICMP6Header
  | H_UDP4 UDP4Header | H_UDP6 UDP6Header

fun Header_Len :: "Header \<Rightarrow> nat" where
  "Header_Len (H_IP4 h) = IP4Header_Len h"
| "Header_Len (H_IP6 h) = IP6Header_Len h"
| "Header_Len (H_ICMP4 h) = ICMP4Header_Len h"
| "Header_Len (H_ICMP6 h) = ICMP6Header_Len h"
| "Header_Len (H_UDP4 h) = UDP4Header_Len h"
| "Header_Len (H_UDP6 h) = UDP6Header_Len h"

fun Header_Marshal :: "Header \<Rightarrow> bytes \<Rightarrow> marshal_res" where
  "Header_Marshal (H_IP4 h) = IP4Header_Marshal h"
| "Header_Marshal (H_IP6 h) = IP6Header_Marshal h"
| "Header_Marshal (H_ICMP4 h) = ICMP4Header_Marshal h"
| "Header_Marshal (H_ICMP6 h) = ICMP6Header_Marshal h"
| "Header_Marshal (H_UDP4 h) = UDP4Header_Marshal h"
| "Header_Marshal (H_UDP6 h) = UDP6Header_Marshal h"

definition Generate :: "Header \<Rightarrow> bytes \<Rightarrow> bytes option" where
  "Generate h payload = do {
     let hlen = Header_Len h;
     let buf = replicate (hlen + length payload) 0;
     let buf = copy_at buf hlen payload;
     buf \<leftarrow> ignore_err buf (Header_Marshal h buf);
     (case h of H_ICMP6 hc \<Rightarrow> ICMP6Header_WriteChecksum hc buf | _ \<Rightarrow> Some buf) }"

subsection \<open>Closed forms of the marshalled headers\<close>

named_theorems header_len \<open>header lengths as numerals\<close>

lemmas [header_len] = IP4Header_Len_def IP6Header_Len_def ICMP4Header_Len_def ICMP6Header_Len_def
  UDP4Header_Len_def UDP6Header_Len_def

lemma list_update_Cons_numeral [simp]: "(x # xs)[numeral v := y] = x # xs[pred_numeral v := y]"
  by (simp add: numeral_eq_Suc)

lemma buffer_split: "n \<le> length b \<Longrightarrow> \<exists>h r. b = h @ r \<and> length h = n"
  by (rule exI [of _ "take n b"], rule exI [of _ "drop n b"]) simp

definition as4 :: "addr \<Rightarrow> bytes" where
  "as4 a = (case a of V4 w \<Rightarrow> be_bytes 4 w | _ \<Rightarrow> [])"

lemma As4_as4: "Is4 a \<Longrightarrow> As4 a = Some (as4 a)" "Is4 a \<Longrightarrow> length (as4 a) = 4"
  by (cases a; simp add: as4_def)+

text \<open>The 20 bytes of an IPv4 header with a given total length and checksum field.\<close>

definition ip4_hdr_with :: "u16 \<Rightarrow> IP4Header \<Rightarrow> nat \<Rightarrow> bytes" where
  "ip4_hdr_with c h n = [0x45, 0, be16_hi (u16_of_nat n), be16_lo (u16_of_nat n),
     be16_hi (ip4_IPID h), be16_lo (ip4_IPID h), 0, 0, 64, ip4_IPProto h, be16_hi c, be16_lo c]
     @ as4 (ip4_Src h) @ as4 (ip4_Dst h)"

definition ip4_hdr :: "IP4Header \<Rightarrow> nat \<Rightarrow> bytes" where
  "ip4_hdr h n = ip4_hdr_with (ip4Checksum (ip4_hdr_with 0 h n)) h n"

definition ip4_ok :: "IP4Header \<Rightarrow> bool" where
  "ip4_ok h \<longleftrightarrow> Is4 (ip4_Src h) \<and> Is4 (ip4_Dst h)"

lemma length_ip4_hdr: "ip4_ok h \<Longrightarrow> length (ip4_hdr_with c h n) = 20" "ip4_ok h \<Longrightarrow> length (ip4_hdr h n) = 20"
  by (simp_all add: ip4_hdr_def ip4_hdr_with_def ip4_ok_def As4_as4)

lemma be16_zero [simp]: "be16_hi 0 = 0" "be16_lo 0 = 0" "be16 0 0 = 0"
  by (simp_all add: be16_hi_def be16_lo_def be16_def)

lemma ihl_byte: "(0x40 OR word_of_nat (drop_bit 2 20) :: byte) = 0x45"
  by (simp add: drop_bit_eq_div)

lemma IP4Header_Marshal_eq:
  assumes "ip4_ok h" "20 \<le> length b" "length b \<le> 65535"
  shows "IP4Header_Marshal h b = Some (Inr (ip4_hdr h (length b) @ drop 20 b))"
proof -
  obtain x r where b: "b = x @ r" and x: "length x = 20" using buffer_split [OF assms(2)] by blast
  from x obtain x0 x1 x2 x3 x4 x5 x6 x7 x8 x9 xa xb y where x': "x = x0 # x1 # x2 # x3 # x4 # x5 # x6 # x7 # x8 # x9 # xa # xb # y"
    and y: "length y = 8"
    by (auto simp: numeral_eq_Suc length_Suc_conv)
  have a: "Is4 (ip4_Src h)" "Is4 (ip4_Dst h)" using assms(1) by (simp_all add: ip4_ok_def)
  show ?thesis
    using assms(2,3) a y unfolding b x'
    by (simp add: IP4Header_Marshal_def header_len slice_simps ihl_byte As4_as4 copy_at_code
        ip4_hdr_def ip4_hdr_with_def)
qed

text \<open>The pseudo header is written over bytes 8 to 19 of the buffer.\<close>

definition pseudo4 :: "IP4Header \<Rightarrow> nat \<Rightarrow> bytes" where
  "pseudo4 h len = as4 (ip4_Src h) @ as4 (ip4_Dst h) @
     [0, ip4_IPProto h, be16_hi (u16_of_nat len), be16_lo (u16_of_nat len)]"

lemma IP4Header_marshalPseudo_eq:
  assumes "ip4_ok h" "20 \<le> length b" "length b \<le> 65535"
  shows "IP4Header_marshalPseudo h b = Some (Inr (take 8 b @ pseudo4 h (length b - 20) @ drop 20 b))"
proof -
  obtain x r where b: "b = x @ r" and x: "length x = 20" using buffer_split [OF assms(2)] by blast
  obtain x1 x2 where x': "x = x1 @ x2" and x1: "length x1 = 8" using buffer_split [of 8 x] x by auto
  with x have "length x2 = 12" by simp
  then obtain y z0 z1 z2 z3 where x2: "x2 = y @ [z0, z1, z2, z3]" and y: "length y = 8"
    using buffer_split [of 8 x2] by (fastforce simp: numeral_eq_Suc length_Suc_conv)
  have a: "Is4 (ip4_Src h)" "Is4 (ip4_Dst h)" using assms(1) by (simp_all add: ip4_ok_def)
  show ?thesis
    using assms(2,3) a y x1 unfolding b x' x2
    by (simp add: IP4Header_marshalPseudo_def header_len slice_simps As4_as4 copy_at_code pseudo4_def
        list_update_append Let_def)
qed

lemma ignore_err_Inr [simp]: "ignore_err b (Some (Inr b')) = Some b'"
  "ignore_err b (Some (Inl e)) = Some b" "ignore_err b None = None"
  by (simp_all add: ignore_err_def)

definition udp_bytes :: "u16 \<Rightarrow> u16 \<Rightarrow> nat \<Rightarrow> u16 \<Rightarrow> bytes" where
  "udp_bytes sp dp len c = [be16_hi sp, be16_lo sp, be16_hi dp, be16_lo dp,
     be16_hi (u16_of_nat len), be16_lo (u16_of_nat len), be16_hi c, be16_lo c]"

lemma length_udp_bytes [simp]: "length (udp_bytes sp dp len c) = 8"
  by (simp add: udp_bytes_def)

definition udp4_ip :: "UDP4Header \<Rightarrow> IP4Header" where
  "udp4_ip h = (udp4_IP h)\<lparr>ip4_IPProto := UDP\<rparr>"

text \<open>The checksum of a UDP datagram over IPv4, from its payload.\<close>

definition udp4_sum :: "UDP4Header \<Rightarrow> bytes \<Rightarrow> u16" where
  "udp4_sum h pl = ip4Checksum (pseudo4 (udp4_ip h) (8 + length pl) @
     udp_bytes (udp4_SrcPort h) (udp4_DstPort h) (8 + length pl) 0 @ pl)"

definition udp4_hdr :: "UDP4Header \<Rightarrow> bytes \<Rightarrow> bytes" where
  "udp4_hdr h pl = ip4_hdr (udp4_ip h) (28 + length pl) @
     udp_bytes (udp4_SrcPort h) (udp4_DstPort h) (8 + length pl) (udp4_sum h pl)"

lemma length_pseudo4: "ip4_ok h \<Longrightarrow> length (pseudo4 h n) = 12"
  by (simp add: pseudo4_def ip4_ok_def As4_as4)

lemma UDP4Header_Marshal_eq:
  assumes "ip4_ok (udp4_IP h)" "28 \<le> length b" "length b \<le> 65535"
  shows "UDP4Header_Marshal h b = Some (Inr (udp4_hdr h (drop 28 b) @ drop 28 b))"
proof -
  obtain x pl where b: "b = x @ pl" and x: "length x = 28" using buffer_split [OF assms(2)] by blast
  obtain x1 x2 where x': "x = x1 @ x2" and x1: "length x1 = 20" using buffer_split [of 20 x] x by auto
  with x have "length x2 = 8" by simp
  then obtain z0 z1 z2 z3 z4 z5 z6 z7 where x2: "x2 = [z0, z1, z2, z3, z4, z5, z6, z7]"
    by (auto simp: numeral_eq_Suc length_Suc_conv)
  have ok: "ip4_ok (udp4_ip h)" using assms(1) by (simp add: ip4_ok_def udp4_ip_def)
  let ?u = "udp_bytes (udp4_SrcPort h) (udp4_DstPort h) (8 + length pl)"
  have n: "28 + length pl \<le> 65535" using assms(3) b x by simp
  have e1: "UDP4Header_Marshal h b = do {
        b \<leftarrow> ignore_err (x1 @ ?u 0 @ pl) (IP4Header_marshalPseudo (udp4_ip h) (x1 @ ?u 0 @ pl));
        ps \<leftarrow> slice_from b 8;
        b \<leftarrow> wr16 b 26 (ip4Checksum ps);
        b \<leftarrow> ignore_err b (IP4Header_Marshal (udp4_ip h) b);
        Some (Inr b) }"
    using x1 n unfolding b x' x2
    by (simp add: UDP4Header_Marshal_def header_len slice_simps list_update_append udp_bytes_def
        udp4_ip_def Let_def)
  have e2: "IP4Header_marshalPseudo (udp4_ip h) (x1 @ ?u 0 @ pl) =
      Some (Inr (take 8 x1 @ pseudo4 (udp4_ip h) (8 + length pl) @ ?u 0 @ pl))"
    using IP4Header_marshalPseudo_eq [OF ok, of "x1 @ ?u 0 @ pl"] x1 n by simp
  have e3: "slice_from (take 8 x1 @ pseudo4 (udp4_ip h) (8 + length pl) @ ?u 0 @ pl) 8 =
      Some (pseudo4 (udp4_ip h) (8 + length pl) @ ?u 0 @ pl)"
    using x1 by (simp add: slice_simps)
  have e4: "wr16 (take 8 x1 @ pseudo4 (udp4_ip h) (8 + length pl) @ ?u 0 @ pl) 26 c =
      Some (take 8 x1 @ pseudo4 (udp4_ip h) (8 + length pl) @ ?u c @ pl)" for c
    using x1 length_pseudo4 [OF ok] by (simp add: slice_simps list_update_append udp_bytes_def)
  have e5: "IP4Header_Marshal (udp4_ip h) (take 8 x1 @ pseudo4 (udp4_ip h) (8 + length pl) @ ?u c @ pl) =
      Some (Inr (ip4_hdr (udp4_ip h) (28 + length pl) @ ?u c @ pl))" for c
    using IP4Header_Marshal_eq [OF ok, of "take 8 x1 @ pseudo4 (udp4_ip h) (8 + length pl) @ ?u c @ pl"]
      x1 n length_pseudo4 [OF ok] by simp
  have d: "drop 28 b = pl" using b x by simp
  show ?thesis unfolding e1 e2 d by (simp add: e3 e4 e5 udp4_hdr_def udp4_sum_def)
qed

text \<open>The 40 bytes of an IPv6 header; the flow label is the low 20 bits of the IPID.\<close>

definition ip6_hdr :: "IP6Header \<Rightarrow> nat \<Rightarrow> bytes" where
  "ip6_hdr h len = 0x60 # tl (be_bytes 4 (ip6_IPID h AND 0x000FFFFF)) @
     [be16_hi (u16_of_nat len), be16_lo (u16_of_nat len), ip6_IPProto h, 64]
     @ As16 (ip6_Src h) @ As16 (ip6_Dst h)"

lemma length_ip6_hdr [simp]: "length (ip6_hdr h n) = 40"
  by (simp add: ip6_hdr_def)

lemma IP6Header_Marshal_eq:
  assumes "40 \<le> length b" "length b \<le> 65535"
  shows "IP6Header_Marshal h b = Some (Inr (ip6_hdr h (length b - 40) @ drop 40 b))"
proof -
  obtain x r where b: "b = x @ r" and x: "length x = 40" using buffer_split [OF assms(1)] by blast
  obtain x1 y where x': "x = x1 @ y" and x1: "length x1 = 8" and y: "length y = 32"
    using buffer_split [of 8 x] x by fastforce
  obtain x0 x1' x2 x3 x4 x5 x6 x7 where x1': "x1 = [x0, x1', x2, x3, x4, x5, x6, x7]"
    using x1 by (auto simp: numeral_eq_Suc length_Suc_conv)
  have "length (be_bytes 4 (ip6_IPID h AND 0x000FFFFF)) = 4" by simp
  then obtain f0 f1 f2 f3 where f: "be_bytes 4 (ip6_IPID h AND 0x000FFFFF) = [f0, f1, f2, f3]"
    by (auto simp: numeral_eq_Suc length_Suc_conv simp del: length_be_bytes)
  show ?thesis
    using assms y unfolding b x' x1'
    by (simp add: IP6Header_Marshal_def header_len slice_simps f copy_at_code ip6_hdr_def)
qed

definition pseudo6 :: "IP6Header \<Rightarrow> nat \<Rightarrow> byte \<Rightarrow> bytes" where
  "pseudo6 h len proto = As16 (ip6_Src h) @ As16 (ip6_Dst h) @
     be_bytes 4 (word_of_nat len :: u32) @ [0, 0, 0, proto]"

lemma length_pseudo6 [simp]: "length (pseudo6 h n p) = 40"
  by (simp add: pseudo6_def)

lemma IP6Header_marshalPseudo_eq:
  assumes "40 \<le> length b" "length b \<le> 65535"
  shows "IP6Header_marshalPseudo h b p = Some (Inr (pseudo6 h (length b - 40) p @ drop 40 b))"
proof -
  obtain x r where b: "b = x @ r" and x: "length x = 40" using buffer_split [OF assms(1)] by blast
  obtain x1 y where x': "x = x1 @ y" and x1: "length x1 = 36" and y: "length y = 4"
    using buffer_split [of 36 x] x by fastforce
  obtain y0 y1 y2 y3 where y': "y = [y0, y1, y2, y3]"
    using y by (auto simp: numeral_eq_Suc length_Suc_conv)
  show ?thesis
    using assms x1 unfolding b x' y'
    by (simp add: IP6Header_marshalPseudo_def header_len slice_simps copy_at_code pseudo6_def
        list_update_append Let_def)
qed

definition udp6_ip :: "UDP6Header \<Rightarrow> IP6Header" where
  "udp6_ip h = (udp6_IP h)\<lparr>ip6_IPProto := UDP\<rparr>"

definition udp6_sum :: "UDP6Header \<Rightarrow> bytes \<Rightarrow> u16" where
  "udp6_sum h pl = ip4Checksum (pseudo6 (udp6_ip h) (8 + length pl) UDP @
     udp_bytes (udp6_SrcPort h) (udp6_DstPort h) (8 + length pl) 0 @ pl)"

definition udp6_hdr :: "UDP6Header \<Rightarrow> bytes \<Rightarrow> bytes" where
  "udp6_hdr h pl = ip6_hdr (udp6_ip h) (8 + length pl) @
     udp_bytes (udp6_SrcPort h) (udp6_DstPort h) (8 + length pl) (udp6_sum h pl)"

lemma UDP6Header_Marshal_eq:
  assumes "48 \<le> length b" "length b \<le> 65535"
  shows "UDP6Header_Marshal h b = Some (Inr (udp6_hdr h (drop 48 b) @ drop 48 b))"
proof -
  obtain x pl where b: "b = x @ pl" and x: "length x = 48" using buffer_split [OF assms(1)] by blast
  obtain x1 x2 where x': "x = x1 @ x2" and x1: "length x1 = 40" using buffer_split [of 40 x] x by auto
  with x have "length x2 = 8" by simp
  then obtain z0 z1 z2 z3 z4 z5 z6 z7 where x2: "x2 = [z0, z1, z2, z3, z4, z5, z6, z7]"
    by (auto simp: numeral_eq_Suc length_Suc_conv)
  let ?u = "udp_bytes (udp6_SrcPort h) (udp6_DstPort h) (8 + length pl)"
  let ?p = "pseudo6 (udp6_ip h) (8 + length pl) UDP"
  have n: "48 + length pl \<le> 65535" using assms(2) b x by simp
  have e1: "UDP6Header_Marshal h b = do {
        b \<leftarrow> ignore_err (x1 @ ?u 0 @ pl) (IP6Header_marshalPseudo (udp6_ip h) (x1 @ ?u 0 @ pl) UDP);
        b \<leftarrow> wr16 b 46 (ip4Checksum b);
        b \<leftarrow> ignore_err b (IP6Header_Marshal (udp6_ip h) b);
        Some (Inr b) }"
    using x1 n unfolding b x' x2
    by (simp add: UDP6Header_Marshal_def header_len slice_simps list_update_append udp_bytes_def
        udp6_ip_def Let_def)
  have e2: "IP6Header_marshalPseudo (udp6_ip h) (x1 @ ?u 0 @ pl) UDP = Some (Inr (?p @ ?u 0 @ pl))"
    using IP6Header_marshalPseudo_eq [of "x1 @ ?u 0 @ pl" "udp6_ip h" UDP] x1 n by simp
  have e4: "wr16 (?p @ ?u 0 @ pl) 46 c = Some (?p @ ?u c @ pl)" for c
    by (simp add: slice_simps list_update_append udp_bytes_def)
  have e5: "IP6Header_Marshal (udp6_ip h) (?p @ ?u c @ pl) =
      Some (Inr (ip6_hdr (udp6_ip h) (8 + length pl) @ ?u c @ pl))" for c
    using IP6Header_Marshal_eq [of "?p @ ?u c @ pl" "udp6_ip h"] n by simp
  have d: "drop 48 b = pl" using b x by simp
  show ?thesis unfolding e1 e2 d by (simp add: e4 [simplified] e5 [simplified] udp6_hdr_def udp6_sum_def)
qed

definition icmp4_ip :: "ICMP4Header \<Rightarrow> IP4Header" where
  "icmp4_ip h = (icmp4_IP h)\<lparr>ip4_IPProto := ICMPv4\<rparr>"

text \<open>
  The ICMP checksum as the code computes it, over the IP header and the old content \<open>y, z\<close> of the
  checksum field.
\<close>

definition icmp4_sum :: "ICMP4Header \<Rightarrow> byte \<Rightarrow> byte \<Rightarrow> bytes \<Rightarrow> u16" where
  "icmp4_sum h y z pl =
     ip4Checksum (ip4_hdr (icmp4_ip h) (24 + length pl) @ [icmp4_Type h, icmp4_Code h, y, z] @ pl)"

definition icmp4_hdr :: "ICMP4Header \<Rightarrow> byte \<Rightarrow> byte \<Rightarrow> bytes \<Rightarrow> bytes" where
  "icmp4_hdr h y z pl = ip4_hdr (icmp4_ip h) (24 + length pl) @
     [icmp4_Type h, icmp4_Code h, be16_hi (icmp4_sum h y z pl), be16_lo (icmp4_sum h y z pl)]"

lemma ICMP4Header_Marshal_eq:
  assumes "ip4_ok (icmp4_IP h)" "24 \<le> length b" "length b \<le> 65535"
  shows "ICMP4Header_Marshal h b = Some (Inr (icmp4_hdr h (b ! 22) (b ! 23) (drop 24 b) @ drop 24 b))"
proof -
  obtain x pl where b: "b = x @ pl" and x: "length x = 24" using buffer_split [OF assms(2)] by blast
  obtain x1 x2 where x': "x = x1 @ x2" and x1: "length x1 = 20" using buffer_split [of 20 x] x by auto
  with x have "length x2 = 4" by simp
  then obtain z0 z1 z2 z3 where x2: "x2 = [z0, z1, z2, z3]"
    by (auto simp: numeral_eq_Suc length_Suc_conv)
  let ?u = "[icmp4_Type h, icmp4_Code h, z2, z3]"
  have n: "24 + length pl \<le> 65535" using assms(3) b x by simp
  have ok: "ip4_ok (icmp4_ip h)" using assms(1) by (simp add: ip4_ok_def icmp4_ip_def)
  have e1: "ICMP4Header_Marshal h b = do {
        b \<leftarrow> ignore_err (x1 @ ?u @ pl) (IP4Header_Marshal (icmp4_ip h) (x1 @ ?u @ pl));
        b \<leftarrow> wr16 b 22 (ip4Checksum b);
        Some (Inr b) }"
    using x1 n unfolding b x' x2
    by (simp add: ICMP4Header_Marshal_def header_len slice_simps list_update_append icmp4_ip_def Let_def)
  have e2: "IP4Header_Marshal (icmp4_ip h) (x1 @ ?u @ pl) =
      Some (Inr (ip4_hdr (icmp4_ip h) (24 + length pl) @ ?u @ pl))"
    using IP4Header_Marshal_eq [OF ok, of "x1 @ ?u @ pl"] x1 n by simp
  have "b ! 22 = z2" "b ! 23 = z3" "drop 24 b = pl"
    using x1 unfolding b x' x2 by (simp_all add: nth_append)
  then show ?thesis unfolding e1 e2 using length_ip4_hdr(2) [OF ok]
    by (simp add: slice_simps list_update_append icmp4_hdr_def icmp4_sum_def)
qed

definition icmp6_ip :: "ICMP6Header \<Rightarrow> IP6Header" where
  "icmp6_ip h = (icmp6_IP h)\<lparr>ip6_IPProto := ICMPv6\<rparr>"

definition icmp6_hdr :: "ICMP6Header \<Rightarrow> nat \<Rightarrow> bytes" where
  "icmp6_hdr h n = ip6_hdr (icmp6_ip h) (4 + n) @ [icmp6_Type h, icmp6_Code h, 0, 0]"

lemma ICMP6Header_Marshal_eq:
  assumes "44 \<le> length b" "length b \<le> 65535"
  shows "ICMP6Header_Marshal h b = Some (Inr (icmp6_hdr h (length b - 44) @ drop 44 b))"
proof -
  obtain x pl where b: "b = x @ pl" and x: "length x = 44" using buffer_split [OF assms(1)] by blast
  obtain x1 x2 where x': "x = x1 @ x2" and x1: "length x1 = 40" using buffer_split [of 40 x] x by auto
  with x have "length x2 = 4" by simp
  then obtain z0 z1 z2 z3 where x2: "x2 = [z0, z1, z2, z3]"
    by (auto simp: numeral_eq_Suc length_Suc_conv)
  have n: "44 + length pl \<le> 65535" using assms(2) b x by simp
  have "IP6Header_Marshal (icmp6_ip h) b = Some (Inr (ip6_hdr (icmp6_ip h) (4 + length pl) @ x2 @ pl))"
    using IP6Header_Marshal_eq [of b "icmp6_ip h"] x1 n unfolding b x' x2 by simp
  then show ?thesis using x1 n unfolding b x' x2
    by (simp add: ICMP6Header_Marshal_def header_len slice_simps list_update_append icmp6_ip_def Let_def
        icmp6_hdr_def)
qed

subsection \<open>The contract of the interface\<close>

text \<open>
  What the doc comment of \<open>Header\<close> promises: a buffer that is too short or too long is refused,
  any other is filled, and the bytes after the first \<open>Len()\<close> are the payload and stay. \<open>hok\<close> are
  the headers a caller may pass (addresses of the right family).
\<close>

locale header =
  fixes hlen :: "'h \<Rightarrow> nat" and marshal :: "'h \<Rightarrow> bytes \<Rightarrow> marshal_res" and hok :: "'h \<Rightarrow> bool"
  assumes small: "length b < hlen h \<Longrightarrow> marshal h b = Some (Inl errSmallBuffer)"
    and large: "hlen h \<le> length b \<Longrightarrow> 65535 < length b \<Longrightarrow> marshal h b = Some (Inl errLargePacket)"
    and fits: "hok h \<Longrightarrow> hlen h \<le> length b \<Longrightarrow> length b \<le> 65535 \<Longrightarrow>
      \<exists>hd. length hd = hlen h \<and> marshal h b = Some (Inr (hd @ drop (hlen h) b))"
begin

lemma no_panic: "hok h \<Longrightarrow> marshal h b \<noteq> None"
  using small [of b h] large [of h b] fits [of h b]
  by (cases "length b < hlen h"; cases "65535 < length b") auto

lemma ok_iff: "hok h \<Longrightarrow> (\<exists>b'. marshal h b = Some (Inr b')) \<longleftrightarrow> hlen h \<le> length b \<and> length b \<le> 65535"
  using small [of b h] large [of h b] fits [of h b]
  by (cases "length b < hlen h"; cases "65535 < length b") auto

lemma keeps_payload:
  assumes "hok h" "marshal h b = Some (Inr b')"
  shows "length b' = length b" "drop (hlen h) b' = drop (hlen h) b"
proof -
  have "hlen h \<le> length b" "length b \<le> 65535" using ok_iff [OF assms(1), of b] assms(2) by auto
  with fits [OF assms(1), of b] assms(2) show "length b' = length b" "drop (hlen h) b' = drop (hlen h) b"
    by auto
qed

lemma marshal_fresh:
  assumes "hok h" "hlen h + length pl \<le> 65535"
  shows "\<exists>hd. length hd = hlen h \<and> marshal h (copy_at (replicate (hlen h + length pl) 0) (hlen h) pl) = Some (Inr (hd @ pl))"
  using fits [OF assms(1), of "copy_at (replicate (hlen h + length pl) 0) (hlen h) pl"] assms(2)
  by (simp add: copy_at_code)

end

interpretation ip4: header IP4Header_Len IP4Header_Marshal ip4_ok
  by unfold_locales (auto simp: IP4Header_Marshal_eq length_ip4_hdr IP4Header_Len_def, simp_all add: IP4Header_Marshal_def IP4Header_Len_def)

interpretation ip6: header IP6Header_Len IP6Header_Marshal "\<lambda>_. True"
  by unfold_locales (auto simp: IP6Header_Marshal_eq IP6Header_Len_def, simp_all add: IP6Header_Marshal_def IP6Header_Len_def)

lemma length_udp4_hdr: "ip4_ok (udp4_IP h) \<Longrightarrow> length (udp4_hdr h pl) = 28"
  using length_ip4_hdr(2) [of "udp4_ip h"] by (simp add: udp4_hdr_def ip4_ok_def udp4_ip_def)

lemma length_udp6_hdr [simp]: "length (udp6_hdr h pl) = 48"
  by (simp add: udp6_hdr_def)

lemma length_icmp4_hdr: "ip4_ok (icmp4_IP h) \<Longrightarrow> length (icmp4_hdr h y z pl) = 24"
  using length_ip4_hdr(2) [of "icmp4_ip h"] by (simp add: icmp4_hdr_def ip4_ok_def icmp4_ip_def)

lemma length_icmp6_hdr [simp]: "length (icmp6_hdr h n) = 44"
  by (simp add: icmp6_hdr_def)

interpretation udp4: header UDP4Header_Len UDP4Header_Marshal "\<lambda>h. ip4_ok (udp4_IP h)"
  by unfold_locales (auto simp: UDP4Header_Marshal_eq length_udp4_hdr header_len, simp_all add: UDP4Header_Marshal_def header_len)

interpretation udp6: header UDP6Header_Len UDP6Header_Marshal "\<lambda>_. True"
  by unfold_locales (auto simp: UDP6Header_Marshal_eq header_len, simp_all add: UDP6Header_Marshal_def header_len)

interpretation icmp4: header ICMP4Header_Len ICMP4Header_Marshal "\<lambda>h. ip4_ok (icmp4_IP h)"
  by unfold_locales (auto simp: ICMP4Header_Marshal_eq length_icmp4_hdr header_len, simp_all add: ICMP4Header_Marshal_def header_len)

interpretation icmp6: header ICMP6Header_Len ICMP6Header_Marshal "\<lambda>_. True"
  by unfold_locales (auto simp: ICMP6Header_Marshal_eq header_len, simp_all add: ICMP6Header_Marshal_def header_len)

text \<open>The dispatching methods satisfy the contract because every implementation does.\<close>

fun header_ok :: "Header \<Rightarrow> bool" where
  "header_ok (H_IP4 h) = ip4_ok h"
| "header_ok (H_ICMP4 h) = ip4_ok (icmp4_IP h)"
| "header_ok (H_UDP4 h) = ip4_ok (udp4_IP h)"
| "header_ok _ = True"

interpretation hdr: header Header_Len Header_Marshal header_ok
proof
  fix b :: bytes and h
  show "length b < Header_Len h \<Longrightarrow> Header_Marshal h b = Some (Inl errSmallBuffer)"
    by (cases h) (simp_all add: ip4.small ip6.small udp4.small udp6.small icmp4.small icmp6.small)
  show "Header_Len h \<le> length b \<Longrightarrow> 65535 < length b \<Longrightarrow> Header_Marshal h b = Some (Inl errLargePacket)"
    by (cases h) (simp_all add: ip4.large ip6.large udp4.large udp6.large icmp4.large icmp6.large)
  show "header_ok h \<Longrightarrow> Header_Len h \<le> length b \<Longrightarrow> length b \<le> 65535 \<Longrightarrow>
      \<exists>hd. length hd = Header_Len h \<and> Header_Marshal h b = Some (Inr (hd @ drop (Header_Len h) b))"
    by (cases h) (simp_all add: ip4.fits ip6.fits udp4.fits udp6.fits icmp4.fits icmp6.fits)
qed

text \<open>
  Every header type keeps the contract of the interface \<open>Header\<close>: with addresses of the right
  family, \<open>Marshal\<close> never panics, succeeds exactly on buffers of \<open>Len()\<close> to 65535 bytes, and leaves the
  payload bytes after the first \<open>Len()\<close> as they are.
\<close>

theorem Marshal_contract:
  assumes "header_ok h"
  shows "Header_Marshal h b \<noteq> None \<and>
    ((\<exists>b'. Header_Marshal h b = Some (Inr b')) \<longleftrightarrow> Header_Len h \<le> length b \<and> length b \<le> maxPacketLength) \<and>
    (\<forall>b'. Header_Marshal h b = Some (Inr b') \<longrightarrow>
      length b' = length b \<and> drop (Header_Len h) b' = drop (Header_Len h) b)"
  using hdr.no_panic [OF assms] hdr.ok_iff [OF assms] hdr.keeps_payload [OF assms] by simp

theorem Marshal_contract_witness:
  "Header_Marshal (H_IP6 \<lparr>ip6_IPProto = 17, ip6_IPID = 0, ip6_Src = V6 1 [], ip6_Dst = V6 2 []\<rparr>) (replicate 48 0) \<noteq> None"
  by (rule Marshal_contract [THEN conjunct1]) simp

text \<open>
  The family check of \<open>IP4Header.Marshal\<close> is lost in the headers built on it: \<open>ICMP4Header.Marshal\<close>
  with an IPv6 source reports success without having written an IP header, and \<open>UDP4Header.Marshal\<close>
  panics in \<open>marshalPseudo\<close> before the check is reached.
\<close>

theorem wrong_family_not_reported:
  assumes "\<not> Is4 (ip4_Src h)" "As4 (ip4_Src h) = None" "28 \<le> length b" "length b \<le> maxPacketLength"
  shows "IP4Header_Marshal h b = Some (Inl errWrongFamily) \<and>
    (\<exists>b'. ICMP4Header_Marshal \<lparr>icmp4_IP = h, icmp4_Type = t, icmp4_Code = c\<rparr> b = Some (Inr b') \<and>
           take 20 b' = take 20 b) \<and>
    UDP4Header_Marshal \<lparr>udp4_IP = h, udp4_SrcPort = sp, udp4_DstPort = dp\<rparr> b = None"
proof (intro conjI)
  show "IP4Header_Marshal h b = Some (Inl errWrongFamily)"
    using assms by (simp add: IP4Header_Marshal_def header_len)
  show "\<exists>b'. ICMP4Header_Marshal \<lparr>icmp4_IP = h, icmp4_Type = t, icmp4_Code = c\<rparr> b = Some (Inr b') \<and>
      take 20 b' = take 20 b"
    using assms by (simp add: ICMP4Header_Marshal_def IP4Header_Marshal_def header_len slice_simps Let_def)
  show "UDP4Header_Marshal \<lparr>udp4_IP = h, udp4_SrcPort = sp, udp4_DstPort = dp\<rparr> b = None"
    using assms by (simp add: UDP4Header_Marshal_def IP4Header_marshalPseudo_def header_len slice_simps Let_def)
qed

theorem wrong_family_not_reported_witness:
  "UDP4Header_Marshal \<lparr>udp4_IP = \<lparr>ip4_IPProto = 0, ip4_IPID = 0, ip4_Src = V6 1 [], ip4_Dst = V4 2\<rparr>,
     udp4_SrcPort = 1, udp4_DstPort = 2\<rparr> (replicate 28 0) = None"
  by (rule wrong_family_not_reported [THEN conjunct2, THEN conjunct2]) (simp_all add: Is4In6_word_def)

subsection \<open>Checksums\<close>

text \<open>A buffer with a checksum slot at an even offset verifies once the slot is filled.\<close>

lemma checksum_slot:
  assumes "\<And>c. f c = xs @ [be16_hi c, be16_lo c] @ ys" "even (length xs)" "length xs + length ys \<le> 65533"
  shows "ip4Checksum (f (ip4Checksum (f 0))) = 0"
  using ip4Checksum_verifies [of xs ys "ip4Checksum (f 0)"] assms by simp

lemma ip4_hdr_checksum: "ip4_ok h \<Longrightarrow> ip4Checksum (ip4_hdr h n) = 0"
  unfolding ip4_hdr_def
  by (rule checksum_slot [of "\<lambda>c. ip4_hdr_with c h n" "take 10 (ip4_hdr_with 0 h n)" "drop 12 (ip4_hdr_with 0 h n)"])
    (simp_all add: length_ip4_hdr, simp add: ip4_hdr_with_def)

lemma udp4_checksum:
  assumes "ip4_ok (udp4_IP h)" "28 + length pl \<le> 65535"
  shows "ip4Checksum (pseudo4 (udp4_ip h) (8 + length pl) @
    udp_bytes (udp4_SrcPort h) (udp4_DstPort h) (8 + length pl) (udp4_sum h pl) @ pl) = 0"
proof -
  have ok: "ip4_ok (udp4_ip h)" using assms(1) by (simp add: ip4_ok_def udp4_ip_def)
  show ?thesis unfolding udp4_sum_def
    by (rule checksum_slot [of "\<lambda>c. pseudo4 (udp4_ip h) (8 + length pl) @
          udp_bytes (udp4_SrcPort h) (udp4_DstPort h) (8 + length pl) c @ pl"
        "pseudo4 (udp4_ip h) (8 + length pl) @ take 6 (udp_bytes (udp4_SrcPort h) (udp4_DstPort h) (8 + length pl) 0)" pl])
      (use assms(2) in \<open>simp_all add: length_pseudo4 [OF ok] udp_bytes_def\<close>)
qed

lemma udp6_checksum:
  assumes "48 + length pl \<le> 65535"
  shows "ip4Checksum (pseudo6 (udp6_ip h) (8 + length pl) UDP @
    udp_bytes (udp6_SrcPort h) (udp6_DstPort h) (8 + length pl) (udp6_sum h pl) @ pl) = 0"
  unfolding udp6_sum_def
  by (rule checksum_slot [of "\<lambda>c. pseudo6 (udp6_ip h) (8 + length pl) UDP @
        udp_bytes (udp6_SrcPort h) (udp6_DstPort h) (8 + length pl) c @ pl"
      "pseudo6 (udp6_ip h) (8 + length pl) UDP @ take 6 (udp_bytes (udp6_SrcPort h) (udp6_DstPort h) (8 + length pl) 0)" pl])
    (use assms in \<open>simp_all add: udp_bytes_def\<close>)

text \<open>
  The ICMPv4 checksum is taken over the IP header too. A correct IP header sums to minus zero, so
  only a message of zero bytes can tell the difference.
\<close>

lemma unat_0_byte: "unat (x :: byte) = 0 \<longleftrightarrow> x = 0"
  by (simp only: unsigned_eq_0_iff)

lemma sum16_nat_eq_0: "sum16_nat b = 0 \<longleftrightarrow> set b \<subseteq> {0}"
  by (induction b rule: sum16_nat.induct) (auto simp: unat_0_byte)

lemma fold_nat_eq_ffff: "ip4Checksum b = 0 \<Longrightarrow> length b \<le> 65535 \<Longrightarrow> fold_nat (sum16_nat b) = 65535"
  using unat_ip4Checksum [of b] fold_nat_le [of "sum16_nat b"] by simp

lemma fold_nat_add_ffff:
  assumes "fold_nat a = 65535"
  shows "fold_nat (a + b) = (if b = 0 then 65535 else fold_nat b)"
proof (cases "b = 0")
  case False
  have "fold_nat a mod 65535 = a mod 65535" by (rule fold_nat_mod)
  then have "a mod 65535 = 0" using assms by simp
  then have "(a + b) mod 65535 = b mod 65535" by (metis add_0 mod_add_left_eq)
  then have "fold_nat b mod 65535 = (a + b) mod 65535" by (simp add: fold_nat_mod)
  then show ?thesis using False fold_nat_unique [of "fold_nat b" "a + b"] fold_nat_le [of b] by simp
qed (simp add: assms)

lemma icmp4_sum_eq:
  assumes "ip4_ok (icmp4_IP h)" "24 + length pl \<le> 65535"
  shows "icmp4_sum h 0 0 pl =
    (if set (icmp4_Type h # icmp4_Code h # pl) \<subseteq> {0} then 0
     else ip4Checksum ([icmp4_Type h, icmp4_Code h, 0, 0] @ pl))"
proof -
  let ?m = "[icmp4_Type h, icmp4_Code h, 0, 0] @ pl"
  let ?ip = "ip4_hdr (icmp4_ip h) (24 + length pl)"
  have ok: "ip4_ok (icmp4_ip h)" using assms(1) by (simp add: ip4_ok_def icmp4_ip_def)
  have f: "fold_nat (sum16_nat ?ip) = 65535"
    using fold_nat_eq_ffff [OF ip4_hdr_checksum [OF ok]] length_ip4_hdr(2) [OF ok] by simp
  have "unat (icmp4_sum h 0 0 pl) = 65535 - fold_nat (sum16_nat (?ip @ ?m))"
    using unat_ip4Checksum [of "?ip @ ?m"] length_ip4_hdr(2) [OF ok] assms(2) by (simp add: icmp4_sum_def)
  also have "sum16_nat (?ip @ ?m) = sum16_nat ?ip + sum16_nat ?m"
    by (rule sum16_nat_append) (simp add: length_ip4_hdr(2) [OF ok])
  finally have u: "unat (icmp4_sum h 0 0 pl) =
      65535 - (if sum16_nat ?m = 0 then 65535 else fold_nat (sum16_nat ?m))"
    by (simp only: fold_nat_add_ffff [OF f])
  show ?thesis
  proof (cases "sum16_nat ?m = 0")
    case True
    then have "set ?m \<subseteq> {0}" by (simp only: sum16_nat_eq_0)
    moreover have "icmp4_sum h 0 0 pl = 0" using u True by (simp add: word_unat_eq_iff)
    ultimately show ?thesis by simp
  next
    case False
    then have "\<not> set ?m \<subseteq> {0}" unfolding sum16_nat_eq_0 .
    moreover have "unat (icmp4_sum h 0 0 pl) = unat (ip4Checksum ?m)"
    proof -
      have "length ?m \<le> 65535" using assms(2) by simp
      from unat_ip4Checksum [OF this] u show ?thesis by (simp only: False if_False)
    qed
    then have "icmp4_sum h 0 0 pl = ip4Checksum ?m" by (simp only: word_unat_eq_iff)
    ultimately show ?thesis by auto
  qed
qed

text \<open>ICMPv6: the chain of partial sums is the checksum of the pseudo header and the message.\<close>

lemma fold_nat_add: "fold_nat (fold_nat a + b) = fold_nat (a + b)"
proof (rule fold_nat_unique)
  show "fold_nat (fold_nat a + b) mod 65535 = (a + b) mod 65535"
    by (metis fold_nat_mod mod_add_left_eq)
qed (simp_all add: fold_nat_le)

lemma unat_complement: "unat (NOT (w :: u16)) = 65535 - unat w"
proof -
  have "unat w \<le> 65535" using unat_u16 [of w] by simp
  then have "unat (ucast w :: u32) \<le> 65535" by (simp add: unat_ucast_u16)
  from unat_not_low [OF this] have "unat (ucast (NOT (ucast w :: u32)) :: u16) = 65535 - unat w"
    by (simp add: unat_ucast_u16)
  moreover have "(ucast (NOT (ucast w :: u32)) :: u16) = NOT w"
    by (rule bit_word_eqI) (auto simp: bit_simps)
  ultimately show ?thesis by simp
qed

lemma checksumBytes_step:
  "unat i = fold_nat a \<Longrightarrow> even (length b) \<Longrightarrow> length b \<le> 65535 \<Longrightarrow> unat (checksumBytes b i) = fold_nat (a + sum16_nat b)"
  by (simp add: unat_checksumBytes fold_nat_add)

definition icmp6_pseudo :: "bytes \<Rightarrow> bytes \<Rightarrow> nat \<Rightarrow> bytes" where
  "icmp6_pseudo src dst n = src @ dst @ be_bytes 4 (word_of_nat n :: u32) @ [0, 0, 0, ICMPv6]"

lemma icmp6Checksum_eq:
  assumes "length src = 16" "length dst = 16" "even (length pl)" "44 + length pl \<le> 65535"
  shows "icmp6Checksum [t, c, y, z] src dst pl =
    ip4Checksum (icmp6_pseudo src dst (4 + length pl) @ [t, c, 0, 0] @ pl)"
proof -
  let ?l = "be_bytes 4 (word_of_nat (4 + length pl) :: u32)"
  have l: "length ?l = 4" "even (length ?l)" by simp_all
  have h: "copy_at (replicate icmp6HeaderLength 0) 0 [t, c, y, z] = [t, c, y, z]"
    by (simp add: copy_at_code)
  define x1 x2 x3 x4 x5 where x: "x1 = checksumBytes src 0" "x2 = checksumBytes dst x1"
    "x3 = checksumBytes ?l x2" "x4 = checksumBytes [0, 0, 0, ICMPv6] x3" "x5 = checksumBytes pl x4"
  have "unat x1 = fold_nat (0 + sum16_nat src)" unfolding x by (rule checksumBytes_step) (use assms in simp_all)
  then have "unat x2 = fold_nat (0 + sum16_nat src + sum16_nat dst)"
    unfolding x(2) by (rule checksumBytes_step) (use assms in simp_all)
  then have "unat x3 = fold_nat (0 + sum16_nat src + sum16_nat dst + sum16_nat ?l)"
    unfolding x(3) by (rule checksumBytes_step) simp_all
  then have "unat x4 = fold_nat (0 + sum16_nat src + sum16_nat dst + sum16_nat ?l + sum16_nat [0, 0, 0, ICMPv6])"
    unfolding x(4) by (rule checksumBytes_step) simp_all
  then have "unat x5 = fold_nat (0 + sum16_nat src + sum16_nat dst + sum16_nat ?l + sum16_nat [0, 0, 0, ICMPv6] + sum16_nat pl)"
    unfolding x(5) by (rule checksumBytes_step) (use assms in simp_all)
  then have "unat (checksumBytes [t, c, 0, 0] x5) = fold_nat (0 + sum16_nat src + sum16_nat dst + sum16_nat ?l
      + sum16_nat [0, 0, 0, ICMPv6] + sum16_nat pl + sum16_nat [t, c, 0, 0])"
    by (rule checksumBytes_step) simp_all
  then have "unat (icmp6Checksum [t, c, y, z] src dst pl) = 65535 - fold_nat (sum16_nat src + sum16_nat dst
      + sum16_nat ?l + sum16_nat [0, 0, 0, ICMPv6] + sum16_nat pl + sum16_nat [t, c, 0, 0])"
    by (simp add: icmp6Checksum_def Let_def h x unat_complement copy_at_code del: sum16_nat.simps)
  moreover have "sum16_nat (icmp6_pseudo src dst (4 + length pl) @ [t, c, 0, 0] @ pl) =
      sum16_nat src + sum16_nat dst + sum16_nat ?l + sum16_nat [0, 0, 0, ICMPv6] + sum16_nat pl + sum16_nat [t, c, 0, 0]"
    using assms l by (simp add: icmp6_pseudo_def sum16_nat_append)
  ultimately have "unat (icmp6Checksum [t, c, y, z] src dst pl) =
      unat (ip4Checksum (icmp6_pseudo src dst (4 + length pl) @ [t, c, 0, 0] @ pl))"
    using assms l by (subst unat_ip4Checksum) (simp_all add: icmp6_pseudo_def)
  then show ?thesis by (simp only: word_unat_eq_iff)
qed

subsection \<open>Decoding what was written\<close>

lemma addr4_bytes:
  assumes "Is4 a"
  obtains x0 x1 x2 x3 where "as4 a = [x0, x1, x2, x3]" "netaddr_IPv4 x0 x1 x2 x3 = a"
proof -
  from assms obtain w where a: "a = V4 w" by (cases a) auto
  have "length (be_bytes 4 w) = 4" by simp
  then obtain x0 x1 x2 x3 where x: "be_bytes 4 w = [x0, x1, x2, x3]"
    by (auto simp: numeral_eq_Suc length_Suc_conv simp del: length_be_bytes)
  have "be_word (be_bytes 4 w) = w" by simp
  then have "netaddr_IPv4 x0 x1 x2 x3 = a" using a x by (simp add: netaddr_IPv4_def AddrFrom4_def)
  with that a x show ?thesis by (simp add: as4_def)
qed

lemma u16_of_nat_length: "n \<le> 65535 \<Longrightarrow> unat (u16_of_nat n) = n"
  by (simp add: u16_of_nat_def unat_of_nat)

definition parsed4 :: "Parsed \<Rightarrow> IP4Header \<Rightarrow> bytes \<Rightarrow> Parsed" where
  "parsed4 q h r = q\<lparr>p_b := ip4_hdr h (20 + length r) @ r, p_CaptureMeta := zeroCaptureMeta,
     IPVersion := 4, IPProto := ip4_IPProto h, p_length := 20 + length r,
     Src := withIP (Src q) (ip4_Src h), Dst := withIP (Dst q) (ip4_Dst h), p_subofs := 20\<rparr>"

lemma Decode_ip4_hdr:
  assumes "ip4_ok h" "20 + length r \<le> 65535"
  shows "Decode q (ip4_hdr h (20 + length r) @ r) = decode4_first (parsed4 q h r) r"
proof -
  let ?b = "ip4_hdr h (20 + length r) @ r"
  obtain s0 s1 s2 s3 where s: "as4 (ip4_Src h) = [s0, s1, s2, s3]" "netaddr_IPv4 s0 s1 s2 s3 = ip4_Src h"
    using assms(1) addr4_bytes unfolding ip4_ok_def by blast
  obtain d0 d1 d2 d3 where d: "as4 (ip4_Dst h) = [d0, d1, d2, d3]" "netaddr_IPv4 d0 d1 d2 d3 = ip4_Dst h"
    using assms(1) addr4_bytes unfolding ip4_ok_def by blast
  have v: "(drop_bit 4 0x45 :: byte) = 4" "unat (push_bit 2 (0x45 AND 0x0f :: byte)) = 20"
    by (simp_all add: drop_bit_eq_div push_bit_eq_mult)
  obtain rest where b: "?b = 0x45 # rest" by (simp add: ip4_hdr_def ip4_hdr_with_def)
  have len: "length ?b = 20 + length r" using length_ip4_hdr(2) [OF assms(1)] by simp
  let ?q = "q\<lparr>p_b := ?b, p_CaptureMeta := zeroCaptureMeta, IPVersion := 4\<rparr>"
  have f: "ip4_fields ?q ?b = parsed4 q h r" and ff: "be16 (?b ! 6) (?b ! 7) = 0"
    using assms(2) s d v
    by (simp_all add: ip4_fields_def parsed4_def ip4_hdr_def ip4_hdr_with_def u16_of_nat_length)
  have "Decode q ?b = decode4 ?q ?b"
    unfolding b by (simp add: Decode_def rd_def v(1))
  also have "\<dots> = decode4_first (parsed4 q h r) (drop 20 ?b)"
    using len by (subst decode4_eq) (simp_all add: Let_def f ff, simp_all add: parsed4_def)
  finally show ?thesis using length_ip4_hdr(2) [OF assms(1)] by simp
qed

definition addr16 :: "addr \<Rightarrow> addr" where
  "addr16 a = AddrFrom16 (As16 a)"

lemma addr16_id: "Is6 a \<Longrightarrow> \<not> hasZone a \<Longrightarrow> addr16 a = a"
  by (cases a) (simp_all add: addr16_def AddrFrom16_def)

definition parsed6 :: "Parsed \<Rightarrow> IP6Header \<Rightarrow> bytes \<Rightarrow> Parsed" where
  "parsed6 q h r = q\<lparr>p_b := ip6_hdr h (length r) @ r, p_CaptureMeta := zeroCaptureMeta,
     IPVersion := 6, IPProto := ip6_IPProto h, p_length := length r + 40,
     Src := withIP (Src q) (addr16 (ip6_Src h)), Dst := withIP (Dst q) (addr16 (ip6_Dst h)), p_subofs := 40\<rparr>"

lemma Decode_ip6_hdr:
  assumes "40 + length r \<le> 65535"
  shows "Decode q (ip6_hdr h (length r) @ r) = decode6_sub (parsed6 q h r) r"
proof -
  let ?b = "ip6_hdr h (length r) @ r"
  have "length (be_bytes 4 (ip6_IPID h AND 0x000FFFFF)) = 4" by simp
  then obtain f0 f1 f2 f3 where f: "be_bytes 4 (ip6_IPID h AND 0x000FFFFF) = [f0, f1, f2, f3]"
    by (auto simp: numeral_eq_Suc length_Suc_conv simp del: length_be_bytes)
  have v: "(drop_bit 4 0x60 :: byte) = 6" by (simp add: drop_bit_eq_div)
  obtain rest where b: "?b = 0x60 # rest" by (simp add: ip6_hdr_def)
  let ?q = "q\<lparr>p_b := ?b, p_CaptureMeta := zeroCaptureMeta, IPVersion := 6\<rparr>"
  have q: "ip6_fields ?q ?b = parsed6 q h r"
    using assms by (simp add: ip6_fields_def parsed6_def ip6_hdr_def f u16_of_nat_length addr16_def)
  have "Decode q ?b = decode6 ?q ?b" unfolding b by (simp add: Decode_def rd_def v)
  also have "\<dots> = decode6_sub (parsed6 q h r) (drop 40 ?b)"
    by (subst decode6_eq) (simp_all add: Let_def q, simp add: parsed6_def)
  finally show ?thesis by simp
qed

lemma Generate_udp4: "ip4_ok (udp4_IP h) \<Longrightarrow> 28 + length pl \<le> 65535 \<Longrightarrow>
    Generate (H_UDP4 h) pl = Some (udp4_hdr h pl @ pl)"
  by (simp add: Generate_def header_len copy_at_code UDP4Header_Marshal_eq Let_def)

lemma Generate_udp6: "48 + length pl \<le> 65535 \<Longrightarrow> Generate (H_UDP6 h) pl = Some (udp6_hdr h pl @ pl)"
  by (simp add: Generate_def header_len copy_at_code UDP6Header_Marshal_eq Let_def)

lemma Generate_icmp4: "ip4_ok (icmp4_IP h) \<Longrightarrow> 24 + length pl \<le> 65535 \<Longrightarrow>
    Generate (H_ICMP4 h) pl = Some (icmp4_hdr h 0 0 pl @ pl)"
  by (simp add: Generate_def header_len copy_at_code ICMP4Header_Marshal_eq Let_def nth_append)

text \<open>
  Round trip of UDP over IPv4: decoding what \<open>Generate\<close> produced for a \<open>UDP4Header\<close> and a payload
  gives back the addresses, ports and payload, and both the header checksum and the UDP checksum
  (over the pseudo header) verify at the receiver.
\<close>

theorem UDP4_roundtrip:
  assumes "Is4 (ip4_Src (udp4_IP h))" "Is4 (ip4_Dst (udp4_IP h))" "28 + length pl \<le> maxPacketLength"
  shows "\<exists>b q'. Generate (H_UDP4 h) pl = Some b \<and> Decode q b = Some q' \<and>
    IPVersion q' = 4 \<and> IPProto q' = UDP \<and>
    Src q' = AddrPortFrom (ip4_Src (udp4_IP h)) (udp4_SrcPort h) \<and>
    Dst q' = AddrPortFrom (ip4_Dst (udp4_IP h)) (udp4_DstPort h) \<and>
    Payload q' = Some pl \<and>
    ip4Checksum (take 20 b) = 0 \<and>
    ip4Checksum (pseudo4 (udp4_ip h) (8 + length pl) @ drop 20 b) = 0"
proof -
  have ok: "ip4_ok (udp4_IP h)" "ip4_ok (udp4_ip h)"
    using assms by (simp_all add: ip4_ok_def udp4_ip_def)
  let ?u = "udp_bytes (udp4_SrcPort h) (udp4_DstPort h) (8 + length pl) (udp4_sum h pl)"
  let ?b = "ip4_hdr (udp4_ip h) (20 + length (?u @ pl)) @ ?u @ pl"
  have n: "28 + length pl \<le> 65535" using assms(3) by simp
  have g: "Generate (H_UDP4 h) pl = Some ?b"
    using Generate_udp4 [OF ok(1) n] by (simp add: udp4_hdr_def)
  have len: "length (ip4_hdr (udp4_ip h) m) = 20" for m by (rule length_ip4_hdr(2) [OF ok(2)])
  have d: "Decode q ?b = decode4_first (parsed4 q (udp4_ip h) (?u @ pl)) (?u @ pl)"
    by (rule Decode_ip4_hdr [OF ok(2)]) (use n in simp)
  then have "\<exists>q'. Decode q ?b = Some q' \<and> IPVersion q' = 4 \<and> IPProto q' = UDP \<and>
      Src q' = AddrPortFrom (ip4_Src (udp4_IP h)) (udp4_SrcPort h) \<and>
      Dst q' = AddrPortFrom (ip4_Dst (udp4_IP h)) (udp4_DstPort h) \<and> Payload q' = Some pl"
    using n len
    by (simp add: decode4_first_def parsed4_def udp4_ip_def decode_ports_eq withPort_def withIP_def
        AddrPortFrom_def Payload_def slice_simps) (simp add: udp_bytes_def)
  moreover have "ip4Checksum (take 20 ?b) = 0" by (simp add: len ip4_hdr_checksum ok)
  moreover have "ip4Checksum (pseudo4 (udp4_ip h) (8 + length pl) @ drop 20 ?b) = 0"
    using udp4_checksum [OF ok(1) n] by (simp add: len)
  ultimately show ?thesis using g by blast
qed

definition sample_udp4 :: UDP4Header where
  "sample_udp4 = \<lparr>udp4_IP = \<lparr>ip4_IPProto = 0, ip4_IPID = 7, ip4_Src = V4 0x64650102, ip4_Dst = V4 0x64650103\<rparr>,
     udp4_SrcPort = 53, udp4_DstPort = 4000\<rparr>"

theorem UDP4_roundtrip_witness:
  "\<exists>b q'. Generate (H_UDP4 sample_udp4) [1, 2, 3] = Some b \<and> Decode zeroParsed b = Some q' \<and>
     Payload q' = Some [1, 2, 3]"
  using UDP4_roundtrip [of sample_udp4 "[1, 2, 3]" zeroParsed] by (auto simp: sample_udp4_def)

text \<open>
  Round trip of UDP over IPv6: with zoneless IPv6 addresses, decoding what \<open>Generate\<close> produced for a
  \<open>UDP6Header\<close> gives back addresses, ports and payload, and the UDP checksum verifies.
\<close>

theorem UDP6_roundtrip:
  assumes "Is6 (ip6_Src (udp6_IP h))" "Is6 (ip6_Dst (udp6_IP h))"
    and "\<not> hasZone (ip6_Src (udp6_IP h))" "\<not> hasZone (ip6_Dst (udp6_IP h))"
    and "48 + length pl \<le> maxPacketLength"
  shows "\<exists>b q'. Generate (H_UDP6 h) pl = Some b \<and> Decode q b = Some q' \<and>
    IPVersion q' = 6 \<and> IPProto q' = UDP \<and>
    Src q' = AddrPortFrom (ip6_Src (udp6_IP h)) (udp6_SrcPort h) \<and>
    Dst q' = AddrPortFrom (ip6_Dst (udp6_IP h)) (udp6_DstPort h) \<and>
    Payload q' = Some pl \<and>
    ip4Checksum (pseudo6 (udp6_ip h) (8 + length pl) UDP @ drop 40 b) = 0"
proof -
  let ?u = "udp_bytes (udp6_SrcPort h) (udp6_DstPort h) (8 + length pl) (udp6_sum h pl)"
  let ?b = "ip6_hdr (udp6_ip h) (length (?u @ pl)) @ ?u @ pl"
  have n: "48 + length pl \<le> 65535" using assms(5) by simp
  have g: "Generate (H_UDP6 h) pl = Some ?b"
    using Generate_udp6 [OF n] by (simp add: udp6_hdr_def)
  have d: "Decode q ?b = decode6_sub (parsed6 q (udp6_ip h) (?u @ pl)) (?u @ pl)"
    by (rule Decode_ip6_hdr) (use n in simp)
  then have "\<exists>q'. Decode q ?b = Some q' \<and> IPVersion q' = 6 \<and> IPProto q' = UDP \<and>
      Src q' = AddrPortFrom (ip6_Src (udp6_IP h)) (udp6_SrcPort h) \<and>
      Dst q' = AddrPortFrom (ip6_Dst (udp6_IP h)) (udp6_DstPort h) \<and> Payload q' = Some pl"
    using n assms(1-4)
    by (simp add: decode6_sub_def parsed6_def udp6_ip_def addr16_id decode_ports_eq withPort_def withIP_def
        AddrPortFrom_def Payload_def slice_simps) (simp add: udp_bytes_def)
  moreover have "ip4Checksum (pseudo6 (udp6_ip h) (8 + length pl) UDP @ drop 40 ?b) = 0"
    using udp6_checksum [OF n] by simp
  ultimately show ?thesis using g by blast
qed

definition sample_udp6 :: UDP6Header where
  "sample_udp6 = \<lparr>udp6_IP = \<lparr>ip6_IPProto = 0, ip6_IPID = 7, ip6_Src = V6 0xfd7a115ca1e0 [], ip6_Dst = V6 1 []\<rparr>,
     udp6_SrcPort = 53, udp6_DstPort = 4000\<rparr>"

theorem UDP6_roundtrip_witness:
  "\<exists>b q'. Generate (H_UDP6 sample_udp6) [1, 2, 3] = Some b \<and> Decode zeroParsed b = Some q' \<and>
     Payload q' = Some [1, 2, 3]"
  using UDP6_roundtrip [of sample_udp6 "[1, 2, 3]" zeroParsed] by (auto simp: sample_udp6_def)

text \<open>
  ICMP over IPv4: what \<open>Generate\<close> produces decodes to the message, and the checksum it carries,
  although computed over the IP header as well, is the checksum of the ICMP message alone - except
  for a message of zero bytes only, which gets \<open>0\<close> in place of \<open>0xffff\<close> and fails the receiver's check.
\<close>

theorem ICMP4_generate:
  assumes "Is4 (ip4_Src (icmp4_IP h))" "Is4 (ip4_Dst (icmp4_IP h))" "24 + length pl \<le> maxPacketLength"
  shows "\<exists>b q'. Generate (H_ICMP4 h) pl = Some b \<and> Decode q b = Some q' \<and>
    IPProto q' = ICMPv4 \<and> Src q' = AddrPortFrom (ip4_Src (icmp4_IP h)) 0 \<and>
    Dst q' = AddrPortFrom (ip4_Dst (icmp4_IP h)) 0 \<and> Payload q' = Some pl \<and>
    rd16 b 22 = Some (if set (icmp4_Type h # icmp4_Code h # pl) \<subseteq> {0} then 0
                      else ip4Checksum ([icmp4_Type h, icmp4_Code h, 0, 0] @ pl))"
proof -
  have ok: "ip4_ok (icmp4_IP h)" "ip4_ok (icmp4_ip h)"
    using assms by (simp_all add: ip4_ok_def icmp4_ip_def)
  let ?c = "icmp4_sum h 0 0 pl"
  let ?u = "[icmp4_Type h, icmp4_Code h, be16_hi ?c, be16_lo ?c]"
  let ?b = "ip4_hdr (icmp4_ip h) (20 + length (?u @ pl)) @ ?u @ pl"
  have n: "24 + length pl \<le> 65535" using assms(3) by simp
  have g: "Generate (H_ICMP4 h) pl = Some ?b"
    using Generate_icmp4 [OF ok(1) n] by (simp add: icmp4_hdr_def)
  have len: "length (ip4_hdr (icmp4_ip h) m) = 20" for m by (rule length_ip4_hdr(2) [OF ok(2)])
  have "Decode q ?b = decode4_first (parsed4 q (icmp4_ip h) (?u @ pl)) (?u @ pl)"
    by (rule Decode_ip4_hdr [OF ok(2)]) (use n in simp)
  then have "\<exists>q'. Decode q ?b = Some q' \<and> IPProto q' = ICMPv4 \<and>
      Src q' = AddrPortFrom (ip4_Src (icmp4_IP h)) 0 \<and>
      Dst q' = AddrPortFrom (ip4_Dst (icmp4_IP h)) 0 \<and> Payload q' = Some pl"
    using n len
    by (simp add: decode4_first_def parsed4_def icmp4_ip_def withPort_def withIP_def
        AddrPortFrom_def Payload_def slice_simps)
  moreover have "rd16 ?b 22 = Some ?c" by (simp add: rd16_def rd_def nth_append len)
  ultimately show ?thesis using g icmp4_sum_eq [OF ok(1) n] by force
qed

definition sample_icmp4 :: ICMP4Header where
  "sample_icmp4 = \<lparr>icmp4_IP = \<lparr>ip4_IPProto = 0, ip4_IPID = 7, ip4_Src = V4 0x64650102, ip4_Dst = V4 0x64650103\<rparr>,
     icmp4_Type = 0, icmp4_Code = 0\<rparr>"

theorem ICMP4_generate_witness: "\<exists>b. Generate (H_ICMP4 sample_icmp4) [0, 0, 0, 0] = Some b \<and> rd16 b 22 = Some 0"
  using ICMP4_generate [of sample_icmp4 "[0, 0, 0, 0]" zeroParsed] by (auto simp: sample_icmp4_def)

lemma Generate_icmp6:
  assumes "44 + length pl \<le> 65535"
  shows "Generate (H_ICMP6 h) pl = Some (
    (let c = icmp6Checksum [icmp6_Type h, icmp6_Code h, 0, 0] (As16 (ip6_Src (icmp6_IP h))) (As16 (ip6_Dst (icmp6_IP h))) pl in
     ip6_hdr (icmp6_ip h) (4 + length pl) @ [icmp6_Type h, icmp6_Code h, be16_hi c, be16_lo c] @ pl))"
  using assms
  by (simp add: Generate_def header_len copy_at_code ICMP6Header_Marshal_eq Let_def
      ICMP6Header_WriteChecksum_def slice_simps icmp6_hdr_def list_update_append)

text \<open>
  ICMP over IPv6 with a payload of even length: what \<open>Generate\<close> produces carries the checksum of the
  pseudo header and the message, so the receiver's verification gives zero.
\<close>

theorem ICMP6_checksum_even:
  assumes "even (length pl)" "44 + length pl \<le> maxPacketLength"
  shows "\<exists>b. Generate (H_ICMP6 h) pl = Some b \<and>
    ip4Checksum (icmp6_pseudo (As16 (ip6_Src (icmp6_IP h))) (As16 (ip6_Dst (icmp6_IP h))) (4 + length pl) @ drop 40 b) = 0"
proof -
  let ?p = "icmp6_pseudo (As16 (ip6_Src (icmp6_IP h))) (As16 (ip6_Dst (icmp6_IP h))) (4 + length pl)"
  let ?f = "\<lambda>c. ?p @ [icmp6_Type h, icmp6_Code h, be16_hi c, be16_lo c] @ pl"
  have n: "44 + length pl \<le> 65535" using assms(2) by simp
  have "ip4Checksum (?f (ip4Checksum (?f 0))) = 0"
    by (rule checksum_slot [of _ "?p @ [icmp6_Type h, icmp6_Code h]" pl])
      (use n in \<open>simp_all add: icmp6_pseudo_def\<close>)
  then show ?thesis
    unfolding Generate_icmp6 [OF n] icmp6Checksum_eq [OF length_As16 length_As16 assms(1) n]
    by (simp add: Let_def)
qed

definition sample_icmp6 :: ICMP6Header where
  "sample_icmp6 = \<lparr>icmp6_IP = \<lparr>ip6_IPProto = 0, ip6_IPID = 7, ip6_Src = V6 0 [], ip6_Dst = V6 0 []\<rparr>,
     icmp6_Type = 129, icmp6_Code = 0\<rparr>"

theorem ICMP6_checksum_even_witness:
  "\<exists>b. Generate (H_ICMP6 sample_icmp6) [1, 2] = Some b \<and>
    ip4Checksum (icmp6_pseudo (As16 (ip6_Src (icmp6_IP sample_icmp6))) (As16 (ip6_Dst (icmp6_IP sample_icmp6)))
      (4 + length [1 :: byte, 2]) @ drop 40 b) = 0"
  by (rule ICMP6_checksum_even) simp_all

end
