(* ===== verification/Packet_Nat.thy ===== *)
theory Packet_Nat
  imports Packet_Headers
begin

unbundle bit_operations_syntax

section \<open>Package \<open>net/packet/checksum\<close>: rewriting addresses\<close>

text \<open>
  \<open>src/net/packet/checksum/checksum.go\<close>: the source or the destination address of a packet is replaced
  in its buffer and the checksums are updated by the difference, as RFC 1624 describes. The buffer is
  part of the parsed packet, and an in-place change of a slice of it is an update of \<open>p_b\<close>; a run-time
  panic is \<open>None\<close>. The IPv6 checksums are left to gVisor, a parameter here.
\<close>

subsection \<open>The incremental update\<close>

text \<open>The loop over the 16-bit words of the old and the new value.\<close>

fun incr_sum :: "u32 \<Rightarrow> bytes \<Rightarrow> bytes \<Rightarrow> u32" where
  "incr_sum cPrime (o1 # o2 # old) (n1 # n2 # new) =
     (let mNot = ucast (NOT (be16 o1 o2)); mPrime = ucast (be16 n1 n2)
      in incr_sum (cPrime + (mPrime + mNot)) old new)"
| "incr_sum cPrime _ _ = cPrime"

text \<open>
  The slice \<open>oldSum\<close> is the two bytes at \<open>i\<close> of the buffer. The loop that adds the carries is the one
  of \<open>ip4Checksum\<close>.
\<close>

definition updateV4Checksum :: "bytes \<Rightarrow> nat \<Rightarrow> bytes \<Rightarrow> bytes \<Rightarrow> bytes option" where
  "updateV4Checksum b i old new =
     (if length old \<noteq> length new then None
      else if length old mod 2 \<noteq> 0 then None
      else do {
        hc \<leftarrow> rd16 b i;
        let cPrime = incr_sum (ucast (NOT hc)) old new;
        wr16 b i (NOT (ucast (fold16 cPrime))) })"

subsection \<open>Packets\<close>

text \<open>
  What the code uses of gVisor's packages \<open>tcpip\<close> and \<open>header\<close>: the minimal header sizes, the
  conversion of an address, and the in-place update of the checksum of a transport header for a change
  of an address of the pseudo header.
\<close>

record gvisor =
  UDPMinimumSize :: nat
  TCPMinimumSize :: nat
  ICMPv6MinimumSize :: nat
  AddrFrom16Slice :: "bytes \<Rightarrow> bytes option"
  ICMPv6_UpdateChecksum :: "bytes \<Rightarrow> bytes \<Rightarrow> bytes \<Rightarrow> bytes"
  UDP_UpdateChecksum :: "bytes \<Rightarrow> bytes \<Rightarrow> bytes \<Rightarrow> bool \<Rightarrow> bytes"
  TCP_UpdateChecksum :: "bytes \<Rightarrow> bytes \<Rightarrow> bytes \<Rightarrow> bool \<Rightarrow> bytes"

definition DCCP :: byte where [simp]: "DCCP = 0x21"
definition GRE :: byte where [simp]: "GRE = 0x2f"

definition updateV4PacketChecksums :: "'z gvisor_scheme \<Rightarrow> Parsed \<Rightarrow> addr \<Rightarrow> addr \<Rightarrow> Parsed option" where
  "updateV4PacketChecksums G p old new =
     (if length (p_b p) < 12 then Some p
      else do {
        o4 \<leftarrow> As4 old;
        n4 \<leftarrow> As4 new;
        b \<leftarrow> updateV4Checksum (p_b p) 10 o4 n4;
        let p = p\<lparr>p_b := b\<rparr>;
        tr \<leftarrow> Transport p;
        if IPProto p = UDP \<or> IPProto p = DCCP then
          (if length tr < UDPMinimumSize G then Some p
           else do { tr' \<leftarrow> updateV4Checksum tr 6 o4 n4; Some (p\<lparr>p_b := copy_at b (p_subofs p) tr'\<rparr>) })
        else if IPProto p = TCP then
          (if length tr < TCPMinimumSize G then Some p
           else do { tr' \<leftarrow> updateV4Checksum tr 16 o4 n4; Some (p\<lparr>p_b := copy_at b (p_subofs p) tr'\<rparr>) })
        else if IPProto p = GRE then
          (if length tr < 6 then Some p
           else do {
             t0 \<leftarrow> rd tr 0;
             if t0 = 1 then do { tr' \<leftarrow> updateV4Checksum tr 4 o4 n4; Some (p\<lparr>p_b := copy_at b (p_subofs p) tr'\<rparr>) }
             else Some p })
        else Some p })"

definition updateV6PacketChecksums :: "'z gvisor_scheme \<Rightarrow> Parsed \<Rightarrow> addr \<Rightarrow> addr \<Rightarrow> Parsed option" where
  "updateV6PacketChecksums G p old new =
     (if length (p_b p) < 40 then Some p
      else do {
        o6 \<leftarrow> AddrFrom16Slice G (AsSlice old);
        n6 \<leftarrow> AddrFrom16Slice G (AsSlice new);
        tr \<leftarrow> Transport p;
        Some (if IPProto p = ICMPv6 then
            (if length tr < ICMPv6MinimumSize G then p
             else p\<lparr>p_b := copy_at (p_b p) (p_subofs p) (ICMPv6_UpdateChecksum G tr o6 n6)\<rparr>)
          else if IPProto p = UDP \<or> IPProto p = DCCP then
            (if length tr < UDPMinimumSize G then p
             else p\<lparr>p_b := copy_at (p_b p) (p_subofs p) (UDP_UpdateChecksum G tr o6 n6 True)\<rparr>)
          else if IPProto p = TCP then
            (if length tr < TCPMinimumSize G then p
             else p\<lparr>p_b := copy_at (p_b p) (p_subofs p) (TCP_UpdateChecksum G tr o6 n6 True)\<rparr>)
          else p) })"

text \<open>\<open>copy(b[i:j], v)\<close>, which panics when the slice is out of range and copies at most \<open>j - i\<close> bytes.\<close>

definition copy_slice :: "bytes \<Rightarrow> nat \<Rightarrow> nat \<Rightarrow> bytes \<Rightarrow> bytes option" where
  "copy_slice b i j v = (if i \<le> j \<and> j \<le> length b then Some (copy_at b i (take (j - i) v)) else None)"

definition UpdateSrcAddr :: "'z gvisor_scheme \<Rightarrow> Parsed \<Rightarrow> addr \<Rightarrow> Parsed option" where
  "UpdateSrcAddr G q src =
     (if Is6 src \<and> IPVersion q \<noteq> 6 then None
      else if Is4 src \<and> IPVersion q \<noteq> 4 then None
      else
        let old = ap_addr (Src q);
            q1 = q\<lparr>p_CaptureMeta := (p_CaptureMeta q)\<lparr>DidSNAT := True, OriginalSrc := Src q\<rparr>,
                   Src := AddrPortFrom src (ap_port (Src q))\<rparr>
        in if Is6 src then do {
             b \<leftarrow> copy_slice (p_b q1) 8 24 (As16 src);
             updateV6PacketChecksums G (q1\<lparr>p_b := b\<rparr>) old src }
           else do {
             v4 \<leftarrow> As4 src;
             b \<leftarrow> copy_slice (p_b q1) 12 16 v4;
             updateV4PacketChecksums G (q1\<lparr>p_b := b\<rparr>) old src })"

definition UpdateDstAddr :: "'z gvisor_scheme \<Rightarrow> Parsed \<Rightarrow> addr \<Rightarrow> Parsed option" where
  "UpdateDstAddr G q dst =
     (if Is6 dst \<and> IPVersion q \<noteq> 6 then None
      else if Is4 dst \<and> IPVersion q \<noteq> 4 then None
      else
        let old = ap_addr (Dst q);
            q1 = q\<lparr>p_CaptureMeta := (p_CaptureMeta q)\<lparr>DidDNAT := True, OriginalDst := Dst q\<rparr>,
                   Dst := AddrPortFrom dst (ap_port (Dst q))\<rparr>
        in if Is6 dst then do {
             b \<leftarrow> copy_slice (p_b q1) 24 36 (As16 dst);
             updateV6PacketChecksums G (q1\<lparr>p_b := b\<rparr>) old dst }
           else do {
             v4 \<leftarrow> As4 dst;
             b \<leftarrow> copy_slice (p_b q1) 16 20 v4;
             updateV4PacketChecksums G (q1\<lparr>p_b := b\<rparr>) old dst })"

subsection \<open>The arithmetic of RFC 1624\<close>

lemma unat_incr_sum:
  "length old = length new \<Longrightarrow> even (length old) \<Longrightarrow> unat c + 131070 * (length old div 2) < 4294967296 \<Longrightarrow>
     unat (incr_sum c old new) + sum16_nat old = unat c + sum16_nat new + 65535 * (length old div 2)"
proof (induction c old new rule: incr_sum.induct)
  case (1 c o1 o2 old n1 n2 new)
  let ?m = "ucast (be16 n1 n2) + ucast (NOT (be16 o1 o2)) :: u32"
  have o: "unat (be16 o1 o2) \<le> 65535" using unat_u16 [of "be16 o1 o2"] by simp
  have n: "unat (be16 n1 n2) \<le> 65535" using unat_u16 [of "be16 n1 n2"] by simp
  have m: "unat ?m = unat (be16 n1 n2) + (65535 - unat (be16 o1 o2))"
    using o n by (subst unat_plus_u32) (simp_all add: unat_ucast_u16 unat_complement)
  have cm: "unat (c + ?m) = unat c + unat ?m"
    using 1(4) o n m by (intro unat_plus_u32) (simp only: list.size, simp)
  have "unat (c + ?m) + 131070 * (length old div 2) < 4294967296"
    using 1(4) o n unfolding cm m by simp
  then have "unat (incr_sum (c + ?m) old new) + sum16_nat old = unat (c + ?m) + sum16_nat new + 65535 * (length old div 2)"
    using 1(1) [OF refl refl] 1(2,3) by simp
  then show ?case using o by (simp add: cm m unat_be16 [symmetric] Let_def)
qed (auto)

definition rfc1624 :: "u16 \<Rightarrow> bytes \<Rightarrow> bytes \<Rightarrow> u16" where
  "rfc1624 hc old new = NOT (ucast (fold16 (incr_sum (ucast (NOT hc)) old new)))"

lemma unat_rfc1624: "unat (rfc1624 hc old new) = 65535 - fold_nat (unat (incr_sum (ucast (NOT hc)) old new))"
proof -
  let ?f = "fold16 (incr_sum (ucast (NOT hc)) old new)"
  have "unat ?f = fold_nat (unat (incr_sum (ucast (NOT hc)) old new))" by (rule unat_fold16)
  moreover have "unat (ucast ?f :: u16) = unat ?f mod 65536" by (rule unat_low_high(1))
  ultimately show ?thesis using fold_nat_le [of "unat (incr_sum (ucast (NOT hc)) old new)"]
    by (simp add: rfc1624_def unat_complement)
qed

text \<open>The sum of the words does not change modulo \<open>65535\<close>.\<close>

lemma rfc1624_sum:
  assumes "length old = length new" "even (length old)" "length old \<le> 1000"
  shows "(sum16_nat new + unat (rfc1624 hc old new)) mod 65535 = (sum16_nat old + unat hc) mod 65535"
proof -
  let ?c = "ucast (NOT hc) :: u32"
  define k where "k = length old div 2"
  define n where "n = unat (incr_sum (ucast (NOT hc)) old new)"
  have hc: "unat hc \<le> 65535" using unat_u16 [of hc] by simp
  have c: "unat ?c = 65535 - unat hc" by (simp add: unat_ucast_u16 unat_complement)
  have "unat ?c + 131070 * k < 4294967296" using assms(3) c by (simp add: k_def)
  then have n: "n + sum16_nat old + unat hc = sum16_nat new + 65535 * (k + 1)"
    using unat_incr_sum [OF assms(1,2), of ?c] hc c unfolding n_def k_def by simp
  have gen: "x + y + z = u + 65535 * (v + 1) \<Longrightarrow> int (y + z) = int u + 65535 * (int v + 1) - int x" for x y z u v :: nat
    using arg_cong [of "x + y + z" "u + 65535 * (v + 1)" int] by (simp add: algebra_simps)
  have r: "unat (rfc1624 hc old new) + fold_nat n = 65535" unfolding n_def unat_rfc1624 using fold_nat_le by simp
  have f: "int (fold_nat n) mod 65535 = int n mod 65535" using fold_nat_mod [of n] by (metis of_nat_mod of_nat_numeral)
  have "int (sum16_nat new + unat (rfc1624 hc old new)) = int (sum16_nat new) + 65535 - int (fold_nat n)"
    using r by linarith
  moreover have "int (sum16_nat old + unat hc) = int (sum16_nat new) + 65535 * (int k + 1) - int n"
    by (rule gen [OF n])
  moreover have "(int (sum16_nat new) + 65535 - int (fold_nat n)) mod 65535 = (int (sum16_nat new) + 65535 * (int k + 1) - int n) mod 65535"
    by (rule mod_diff_cong [OF _ f]) (simp only: mod_add_self2 mod_mult_self2)
  ultimately have "int (sum16_nat new + unat (rfc1624 hc old new)) mod 65535 = int (sum16_nat old + unat hc) mod 65535"
    by (simp only:)
  then have "int ((sum16_nat new + unat (rfc1624 hc old new)) mod 65535) = int ((sum16_nat old + unat hc) mod 65535)"
    by (simp only: of_nat_mod of_nat_numeral)
  then show ?thesis by (simp only: of_nat_eq_iff)
qed

lemma updateV4Checksum_append:
  assumes "length old = length new" "even (length old)" "i = length xs"
  shows "updateV4Checksum (xs @ h # l # ys) i old new =
    Some (xs @ be16_hi (rfc1624 (be16 h l) old new) # be16_lo (rfc1624 (be16 h l) old new) # ys)"
  using assms by (simp add: updateV4Checksum_def rfc1624_def slice_simps nth_append Let_def list_update_append even_iff_mod_2_eq_zero)

lemma ip4Checksum_zero_iff: "length b \<le> 65535 \<Longrightarrow> ip4Checksum b = 0 \<longleftrightarrow> sum16_nat b mod 65535 = 0 \<and> sum16_nat b \<noteq> 0"
proof -
  assume l: "length b \<le> 65535"
  have "ip4Checksum b = 0 \<longleftrightarrow> fold_nat (sum16_nat b) = 65535"
    using unat_ip4Checksum [OF l] fold_nat_le [of "sum16_nat b"] by (simp add: word_unat_eq_iff)
  also have "\<dots> \<longleftrightarrow> sum16_nat b mod 65535 = 0 \<and> sum16_nat b \<noteq> 0"
  proof
    assume f: "fold_nat (sum16_nat b) = 65535"
    then show "sum16_nat b mod 65535 = 0 \<and> sum16_nat b \<noteq> 0"
      using fold_nat_mod [of "sum16_nat b"] fold_nat_eq_0 [of "sum16_nat b"] by (metis mod_self zero_neq_numeral)
  qed (use fold_nat_unique [of 65535 "sum16_nat b"] in simp)
  finally show ?thesis .
qed

text \<open>
  A region of a packet that holds an address and a checksum over it, both at even offsets, in either
  order: the update keeps the checksum right. A byte that is not zero elsewhere excludes the sum zero.
\<close>

lemma rfc1624_keeps_valid:
  assumes valid: "ip4Checksum r = 0" and len: "length r \<le> 65535" "length r' \<le> 65535"
    and old: "length old = length new" "even (length old)" "length old \<le> 1000"
    and sums: "sum16_nat r = S + sum16_nat old + unat hc" "sum16_nat r' = S + sum16_nat new + unat (rfc1624 hc old new)"
    and nz: "S \<noteq> 0"
  shows "ip4Checksum r' = 0"
proof -
  have "(S + (sum16_nat new + unat (rfc1624 hc old new))) mod 65535 = (S + (sum16_nat old + unat hc)) mod 65535"
    by (rule mod_add_cong [OF refl rfc1624_sum [OF old]])
  then have "sum16_nat r' mod 65535 = sum16_nat r mod 65535" unfolding sums by (simp add: add.assoc)
  then show ?thesis using valid nz ip4Checksum_zero_iff [OF len(1)] ip4Checksum_zero_iff [OF len(2)] sums by simp
qed

subsection \<open>Decoded TCP and UDP packets\<close>

text \<open>When the decoder classifies a buffer as TCP or UDP over IPv4, and what it then returns.\<close>

definition ihl :: "bytes \<Rightarrow> nat" where
  "ihl b = unat (push_bit 2 (b ! 0 AND 0x0f))"

definition totlen :: "bytes \<Rightarrow> nat" where
  "totlen b = unat (be16 (b ! 2) (b ! 3))"

definition l4_cond :: "bytes \<Rightarrow> bool" where
  "l4_cond b \<longleftrightarrow> 20 \<le> length b \<and> drop_bit 4 (b ! 0) = 4 \<and> (b ! 9 = TCP \<or> b ! 9 = UDP) \<and>
     totlen b \<le> length b \<and> ihl b \<le> totlen b \<and> be16 (b ! 6) (b ! 7) AND 0x1fff = 0 \<and>
     (be16 (b ! 6) (b ! 7) AND 0x2000 \<noteq> 0 \<longrightarrow> 10 \<le> length b - ihl b) \<and>
     (if b ! 9 = TCP then 20 else 8) \<le> length b - ihl b"

definition l4_packet :: "Parsed \<Rightarrow> bytes \<Rightarrow> Parsed" where
  "l4_packet q0 b =
     (let q = q0\<lparr>p_b := b, p_CaptureMeta := zeroCaptureMeta, IPVersion := 4, IPProto := b ! 9, p_length := totlen b,
        Src := AddrPortFrom (netaddr_IPv4 (b ! 12) (b ! 13) (b ! 14) (b ! 15)) (be16 (b ! ihl b) (b ! (ihl b + 1))),
        Dst := AddrPortFrom (netaddr_IPv4 (b ! 16) (b ! 17) (b ! 18) (b ! 19)) (be16 (b ! (ihl b + 2)) (b ! (ihl b + 3))),
        p_subofs := ihl b\<rparr>
      in if b ! 9 = TCP then q\<lparr>TCPFlags := b ! (ihl b + 13), p_dataofs := ihl b + unat (drop_bit 2 (b ! (ihl b + 12) AND 0xf0))\<rparr>
         else q\<lparr>p_dataofs := ihl b + 8\<rparr>)"

lemma decode4_first_proto:
  assumes "decode4_first q sub = Some r" "IPProto r = TCP \<or> IPProto r = UDP"
  shows "IPProto q = IPProto r \<and> (if IPProto r = TCP then 20 else 8) \<le> length sub"
proof -
  note d = assms(1) [unfolded decode4_first_def]
  show ?thesis
  proof (cases "IPProto q" rule: proto_cases)
    case tcp
    then show ?thesis using d assms(2) by (cases "length sub < 20") (auto simp: decode_tcp_eq)
  next
    case udp
    then show ?thesis using d assms(2) by (cases "length sub < 8") (auto simp: decode_ports_eq)
  next
    case sctp
    then show ?thesis using d assms(2) by (cases "length sub < 12") (auto simp: decode_ports_eq)
  next
    case other
    then have "r = q" using d by (auto split: if_splits)
    with other assms(2) show ?thesis by simp
  qed (use d assms(2) in \<open>auto split: if_splits\<close>)
qed

lemma decode6_sub_keeps: "decode6_sub q sub = Some r \<Longrightarrow> IPVersion r = IPVersion q \<and> p_subofs r = p_subofs q"
proof -
  assume "decode6_sub q sub = Some r"
  note d = this [unfolded decode6_sub_def]
  show ?thesis
  proof (cases "IPProto q" rule: proto_cases)
    case tcp
    then show ?thesis using d by (cases "length sub < 20") (auto simp: decode_tcp_eq)
  next
    case udp
    then show ?thesis using d by (cases "length sub < 8") (auto simp: decode_ports_eq)
  next
    case sctp
    then show ?thesis using d by (cases "length sub < 12") (auto simp: decode_ports_eq)
  qed (use d in \<open>auto split: if_splits\<close>)
qed

lemma decode6_version: "decode6 q b = Some r \<Longrightarrow> IPVersion r = IPVersion q \<or> IPProto r = Unknown"
  by (cases "length b < 40") (auto simp: decode6_eq decode6_short ip6_fields_def Let_def split: if_splits dest: decode6_sub_keeps)

lemma withIP_withPort: "withPort (withIP x a) p = AddrPortFrom a p"
  by (simp add: withPort_def withIP_def AddrPortFrom_def)

lemma ip4_fields_l4:
  "ip4_fields q b = q\<lparr>IPProto := b ! 9, p_length := totlen b,
     Src := withIP (Src q) (netaddr_IPv4 (b ! 12) (b ! 13) (b ! 14) (b ! 15)),
     Dst := withIP (Dst q) (netaddr_IPv4 (b ! 16) (b ! 17) (b ! 18) (b ! 19)), p_subofs := ihl b\<rparr>"
  unfolding ip4_fields_def totlen_def ihl_def ..

lemma decode4_first_l4:
  assumes "b ! 9 = TCP \<or> b ! 9 = UDP" "(if b ! 9 = TCP then 20 else 8) \<le> length b - ihl b" "ihl b \<le> length b"
  shows "decode4_first (ip4_fields (q0\<lparr>p_b := b, p_CaptureMeta := zeroCaptureMeta, IPVersion := 4\<rparr>) b) (drop (ihl b) b) = Some (l4_packet q0 b)"
  using assms(1)
proof
  assume p: "b ! 9 = TCP"
  then have "20 \<le> length (drop (ihl b) b)" using assms by simp
  then show ?thesis using p
    by (simp add: decode4_first_def ip4_fields_l4 decode_tcp_eq l4_packet_def Let_def withIP_withPort)
next
  assume p: "b ! 9 = UDP"
  then have "8 \<le> length (drop (ihl b) b)" using assms by simp
  then show ?thesis using p
    by (simp add: decode4_first_def ip4_fields_l4 decode_ports_eq l4_packet_def Let_def withIP_withPort)
qed

lemma Decode_l4: "l4_cond b \<Longrightarrow> Decode q0 b = Some (l4_packet q0 b)"
proof -
  assume c: "l4_cond b"
  then obtain x xs where b: "b = x # xs" by (cases b) (auto simp: l4_cond_def)
  let ?q = "q0\<lparr>p_b := b, p_CaptureMeta := zeroCaptureMeta, IPVersion := 4\<rparr>"
  have f: "p_length (ip4_fields ?q b) = totlen b" "p_subofs (ip4_fields ?q b) = ihl b"
    by (simp_all add: ip4_fields_def totlen_def ihl_def)
  have "Decode q0 b = decode4 ?q b" using c unfolding b by (simp add: Decode_Cons Let_def l4_cond_def)
  also have "\<dots> = decode4_first (ip4_fields ?q b) (drop (ihl b) b)"
    using c by (subst decode4_eq) (auto simp: l4_cond_def Let_def f)
  finally show ?thesis using c decode4_first_l4 [of b q0] by (simp add: l4_cond_def)
qed

lemma Decode_l4D:
  assumes "Decode q0 b = Some q" "IPVersion q = 4" "IPProto q = TCP \<or> IPProto q = UDP"
  shows "l4_cond b \<and> q = l4_packet q0 b"
proof -
  obtain x xs where b: "b = x # xs" using assms(1,3) by (cases b) (auto simp: Decode_Nil)
  let ?q = "q0\<lparr>p_b := b, p_CaptureMeta := zeroCaptureMeta, IPVersion := 4\<rparr>"
  have x: "drop_bit 4 x = 4" using assms unfolding b by (auto simp: Decode_Cons Let_def split: if_splits dest: decode6_version)
  have d: "decode4 ?q b = Some q" using assms(1) x unfolding b by (simp add: Decode_Cons Let_def)
  have l: "20 \<le> length b" using d assms(3) by (auto simp: decode4_def split: if_splits)
  have f: "p_length (ip4_fields ?q b) = totlen b" "p_subofs (ip4_fields ?q b) = ihl b" "IPProto (ip4_fields ?q b) = b ! 9"
    by (simp_all add: ip4_fields_def totlen_def ihl_def)
  have c: "totlen b \<le> length b" "ihl b \<le> totlen b" "be16 (b ! 6) (b ! 7) AND 0x1fff = 0"
    "be16 (b ! 6) (b ! 7) AND 0x2000 \<noteq> 0 \<longrightarrow> 10 \<le> length b - ihl b"
    "decode4_first (ip4_fields ?q b) (drop (ihl b) b) = Some q"
    using d assms(3) l by (auto simp: decode4_eq Let_def f split: if_splits)
  have "b ! 9 = IPProto q \<and> (if IPProto q = TCP then 20 else 8) \<le> length b - ihl b"
    using decode4_first_proto [OF c(5)] assms(3) f(3) by simp
  then have "l4_cond b" using c(1-4) l x assms(3) unfolding l4_cond_def by (simp add: b)
  then show ?thesis using assms(1) Decode_l4 by simp
qed

subsection \<open>The checksums of a packet\<close>

text \<open>
  The checksum of the IPv4 header, and that of a TCP or UDP segment with its pseudo header, as a
  receiver checks them. A segment ends at the total length.
\<close>

definition hdr_valid :: "bytes \<Rightarrow> bool" where
  "hdr_valid b \<longleftrightarrow> ip4Checksum (take (ihl b) b) = 0"

definition segment :: "bytes \<Rightarrow> bytes" where
  "segment b = take (totlen b - ihl b) (drop (ihl b) b)"

definition l4_valid :: "bytes \<Rightarrow> bool" where
  "l4_valid b \<longleftrightarrow> (let n = u16_of_nat (length (segment b)) in
     ip4Checksum (take 8 (drop 12 b) @ [0, b ! 9, be16_hi n, be16_lo n] @ segment b) = 0)"

text \<open>The fields of a packet: the start of the header, its checksum, the addresses, options, and the segment with its checksum.\<close>

definition fields4 :: "bytes \<Rightarrow> u16 \<Rightarrow> bytes \<Rightarrow> bytes \<Rightarrow> bytes \<Rightarrow> bytes \<Rightarrow> u16 \<Rightarrow> bytes \<Rightarrow> bytes" where
  "fields4 P hc S D Opts T1 tc T2 = P @ be16_hi hc # be16_lo hc # S @ D @ Opts @ T1 @ be16_hi tc # be16_lo tc # T2"

abbreviation tc_ofs :: "byte \<Rightarrow> nat" where
  "tc_ofs proto \<equiv> (if proto = TCP then 16 else 6)"

definition ok_fields4 :: "bytes \<Rightarrow> bytes \<Rightarrow> bytes \<Rightarrow> bytes \<Rightarrow> bytes \<Rightarrow> bytes \<Rightarrow> bool" where
  "ok_fields4 P S D Opts T1 T2 \<longleftrightarrow> length P = 10 \<and> length S = 4 \<and> length D = 4 \<and> length Opts + 20 = ihl P \<and>
     length T1 = tc_ofs (P ! 9) \<and> drop_bit 4 (P ! 0) = 4 \<and> (P ! 9 = TCP \<or> P ! 9 = UDP) \<and>
     totlen P \<le> ihl P + length T1 + 2 + length T2 \<and> ihl P + length T1 + 2 \<le> totlen P"

lemma two_bytes: "length xs = 2 \<Longrightarrow> \<exists>w. xs = [be16_hi w, be16_lo w]"
proof -
  assume "length xs = 2"
  then obtain h l where "xs = [h, l]" by (auto simp: numeral_eq_Suc length_Suc_conv)
  then show ?thesis by (intro exI [of _ "be16 h l"]) simp
qed

lemma fields4_exist:
  assumes "l4_cond b" "20 \<le> ihl b" "ihl b + tc_ofs (b ! 9) + 2 \<le> totlen b"
  shows "\<exists>P hc S D Opts T1 tc T2. b = fields4 P hc S D Opts T1 tc T2 \<and> ok_fields4 P S D Opts T1 T2"
proof -
  let ?k = "tc_ofs (b ! 9)"
  have l: "ihl b + ?k + 2 \<le> length b" using assms by (auto simp: l4_cond_def)
  define P where "P = take 10 b"
  define T2 where "T2 = drop (ihl b + ?k + 2) b"
  obtain C where C: "take 2 (drop 10 b) = [be16_hi C, be16_lo C]" using two_bytes [of "take 2 (drop 10 b)"] l assms(2) by auto
  obtain tc where tc: "take 2 (drop (ihl b + ?k) b) = [be16_hi tc, be16_lo tc]"
    using two_bytes [of "take 2 (drop (ihl b + ?k) b)"] l by auto
  have step: "drop i b = take n (drop i b) @ drop (i + n) b" for i n
    by (metis add.commute append_take_drop_id drop_drop)
  have "b = P @ drop 10 b" by (simp add: P_def)
  also have "drop 10 b = be16_hi C # be16_lo C # drop 12 b" using step [of 10 2] C by simp
  also have "drop 12 b = take 4 (drop 12 b) @ drop 16 b" using step [of 12 4] by simp
  also have "drop 16 b = take 4 (drop 16 b) @ drop 20 b" using step [of 16 4] by simp
  also have "drop 20 b = take (ihl b - 20) (drop 20 b) @ drop (ihl b) b" using step [of 20 "ihl b - 20"] assms(2) by simp
  also have "drop (ihl b) b = take ?k (drop (ihl b) b) @ drop (ihl b + ?k) b" by (rule step)
  also have "drop (ihl b + ?k) b = be16_hi tc # be16_lo tc # T2" using step [of "ihl b + ?k" 2] tc by (simp add: T2_def)
  finally have b: "b = fields4 P C (take 4 (drop 12 b)) (take 4 (drop 16 b)) (take (ihl b - 20) (drop 20 b)) (take ?k (drop (ihl b) b)) tc T2"
    unfolding fields4_def by simp
  have P: "ihl P = ihl b" "totlen P = totlen b" "P ! 9 = b ! 9" "P ! 0 = b ! 0" by (simp_all add: P_def ihl_def totlen_def)
  have "ok_fields4 P (take 4 (drop 12 b)) (take 4 (drop 16 b)) (take (ihl b - 20) (drop 20 b)) (take ?k (drop (ihl b) b)) T2"
    unfolding ok_fields4_def P using l assms by (auto simp: P_def T2_def l4_cond_def)
  then show ?thesis using b by blast
qed

lemma fields4_hdr:
  assumes "ok_fields4 P S D Opts T1 T2" "length S' = 4" "length D' = 4"
  shows "take (ihl P) (fields4 P hc S' D' Opts T1 tc T2) = P @ be16_hi hc # be16_lo hc # S' @ D' @ Opts"
    "drop (ihl P) (fields4 P hc S' D' Opts T1 tc T2) = T1 @ be16_hi tc # be16_lo tc # T2"
    "length (fields4 P hc S' D' Opts T1 tc T2) = ihl P + length T1 + 2 + length T2"
proof -
  let ?h = "P @ be16_hi hc # be16_lo hc # S' @ D' @ Opts"
  have "fields4 P hc S' D' Opts T1 tc T2 = ?h @ T1 @ be16_hi tc # be16_lo tc # T2" by (simp add: fields4_def)
  moreover have "ihl P = length ?h" using assms by (auto simp: ok_fields4_def)
  ultimately show "take (ihl P) (fields4 P hc S' D' Opts T1 tc T2) = ?h"
    "drop (ihl P) (fields4 P hc S' D' Opts T1 tc T2) = T1 @ be16_hi tc # be16_lo tc # T2"
    "length (fields4 P hc S' D' Opts T1 tc T2) = ihl P + length T1 + 2 + length T2" by simp_all
qed

lemma copy_at_suffix: "length tr = length (drop n b) \<Longrightarrow> n \<le> length b \<Longrightarrow> copy_at b n tr = take n b @ tr"
  by (simp add: copy_at_def)

lemma update4_fields:
  assumes ok: "ok_fields4 P S D Opts T1 T2" and len: "length S' = 4" "length D' = 4"
    and p: "p_b p = fields4 P hc S' D' Opts T1 tc T2" "IPProto p = P ! 9" "p_subofs p = ihl P"
    and a: "As4 old = Some o4" "As4 new = Some n4" "length o4 = 4" "length n4 = 4"
    and G: "UDPMinimumSize G = 8" "TCPMinimumSize G = 20" "(if P ! 9 = TCP then 20 else 8) \<le> length T1 + 2 + length T2"
  shows "updateV4PacketChecksums G p old new =
    Some (p\<lparr>p_b := fields4 P (rfc1624 hc o4 n4) S' D' Opts T1 (rfc1624 tc o4 n4) T2\<rparr>)"
proof -
  let ?b = "fields4 P (rfc1624 hc o4 n4) S' D' Opts T1 tc T2"
  let ?t = "\<lambda>tc. T1 @ be16_hi tc # be16_lo tc # T2"
  have P: "length P = 10" "length T1 = tc_ofs (P ! 9)" "P ! 9 = TCP \<or> P ! 9 = UDP" using ok by (auto simp: ok_fields4_def)
  note f = fields4_hdr [OF ok len]
  have u: "updateV4Checksum (p_b p) 10 o4 n4 = Some ?b"
    unfolding p fields4_def using updateV4Checksum_append [of o4 n4 10 P] a P by simp
  have t: "updateV4Checksum (?t tc) (tc_ofs (P ! 9)) o4 n4 = Some (?t (rfc1624 tc o4 n4))"
    using updateV4Checksum_append [of o4 n4 "tc_ofs (P ! 9)" T1] a P by simp
  have c: "copy_at ?b (ihl P) (?t (rfc1624 tc o4 n4)) = fields4 P (rfc1624 hc o4 n4) S' D' Opts T1 (rfc1624 tc o4 n4) T2"
  proof -
    have "copy_at ?b (ihl P) (?t (rfc1624 tc o4 n4)) = take (ihl P) ?b @ ?t (rfc1624 tc o4 n4)"
      by (rule copy_at_suffix) (simp_all add: f(2,3))
    then show ?thesis unfolding f(1) by (simp add: fields4_def)
  qed
  have tr: "slice_from ?b (ihl P) = Some (?t tc)" using f by (simp add: slice_from_def)
  have "\<not> length (p_b p) < 12" using ok f(3) [of hc tc] by (simp add: p ok_fields4_def)
  then show ?thesis using P(3) G t c tr a
    by (auto simp: updateV4PacketChecksums_def u [unfolded p(1)] Transport_def p)
qed

text \<open>The rewritten packet decodes as before, with the new addresses.\<close>

lemma fields4_nth:
  assumes "ok_fields4 P S D Opts T1 T2" "length S' = 4" "length D' = 4"
  shows "ihl (fields4 P hc S' D' Opts T1 tc T2) = ihl P" "totlen (fields4 P hc S' D' Opts T1 tc T2) = totlen P"
    "i < 10 \<Longrightarrow> fields4 P hc S' D' Opts T1 tc T2 ! i = P ! i"
    "i < 4 \<Longrightarrow> fields4 P hc S' D' Opts T1 tc T2 ! (12 + i) = S' ! i"
    "i < 4 \<Longrightarrow> fields4 P hc S' D' Opts T1 tc T2 ! (16 + i) = D' ! i"
    "fields4 P hc S' D' Opts T1 tc T2 ! (ihl P + i) = (T1 @ be16_hi tc # be16_lo tc # T2) ! i"
proof -
  have P: "length P = 10" using assms by (simp add: ok_fields4_def)
  let ?b = "fields4 P hc S' D' Opts T1 tc T2"
  show n: "?b ! i = P ! i" if "i < 10" for i using that P by (simp add: fields4_def nth_append)
  show "ihl ?b = ihl P" "totlen ?b = totlen P" unfolding ihl_def totlen_def using n by simp_all
  have pre: "?b = (P @ [be16_hi hc, be16_lo hc]) @ S' @ D' @ Opts @ T1 @ be16_hi tc # be16_lo tc # T2" by (simp add: fields4_def)
  show "?b ! (12 + i) = S' ! i" if "i < 4" using that P assms(2) unfolding pre by (simp add: nth_append)
  show "?b ! (16 + i) = D' ! i" if "i < 4" using that P assms(2,3) unfolding pre by (simp add: nth_append)
  show "?b ! (ihl P + i) = (T1 @ be16_hi tc # be16_lo tc # T2) ! i"
    using fields4_hdr(2,3) [OF assms, of hc tc] by (metis le_add1 add.assoc nth_drop)
qed

lemma nth_append_small: "i < length xs \<Longrightarrow> (xs @ ys) ! i = xs ! i"
  by (simp add: nth_append)

lemma fields4_cond:
  assumes ok: "ok_fields4 P S D Opts T1 T2" and "length S' = 4" "length D' = 4" "l4_cond (fields4 P hc S D Opts T1 tc T2)"
  shows "l4_cond (fields4 P hc' S' D' Opts T1 tc' T2)"
proof -
  have SD: "length S = 4" "length D = 4" using ok by (auto simp: ok_fields4_def)
  note n = fields4_nth [OF ok SD, where hc = hc and tc = tc] fields4_hdr(3) [OF ok SD, of hc tc]
    and n' = fields4_nth [OF ok assms(2,3), where hc = hc' and tc = tc'] fields4_hdr(3) [OF ok assms(2,3), of hc' tc']
  show ?thesis using assms(4) unfolding l4_cond_def n(1,2) n'(1,2) by (simp add: n(3) n'(3) n(7) n'(7))
qed

lemma l4_packet_fields:
  assumes ok: "ok_fields4 P S D Opts T1 T2" and "length S' = 4" "length D' = 4"
  shows "l4_packet q0 (fields4 P hc' S' D' Opts T1 tc' T2) = (l4_packet q0 (fields4 P hc S D Opts T1 tc T2))
    \<lparr>p_b := fields4 P hc' S' D' Opts T1 tc' T2,
     Src := AddrPortFrom (AddrFrom4 S') (ap_port (Src (l4_packet q0 (fields4 P hc S D Opts T1 tc T2)))),
     Dst := AddrPortFrom (AddrFrom4 D') (ap_port (Dst (l4_packet q0 (fields4 P hc S D Opts T1 tc T2))))\<rparr>"
proof -
  have SD: "length S = 4" "length D = 4" using ok by (auto simp: ok_fields4_def)
  note n = fields4_nth [OF ok SD, where hc = hc and tc = tc] and n' = fields4_nth [OF ok assms(2,3), where hc = hc' and tc = tc']
  have T: "length T1 = tc_ofs (P ! 9)" using ok by (simp add: ok_fields4_def)
  have t: "(T1 @ x) ! 0 = T1 ! 0" "(T1 @ x) ! Suc 0 = T1 ! Suc 0" "(T1 @ x) ! 2 = T1 ! 2" "(T1 @ x) ! 3 = T1 ! 3"
    "P ! 9 = TCP \<Longrightarrow> (T1 @ x) ! 12 = T1 ! 12" "P ! 9 = TCP \<Longrightarrow> (T1 @ x) ! 13 = T1 ! 13" for x
    using T by (auto simp: nth_append split: if_splits)
  have four: "[x ! 0, x ! 1, x ! 2, x ! 3] = x" if "length x = 4" for x :: bytes
    using that by (auto simp: numeral_eq_Suc length_Suc_conv)
  have adr: "[b ! 12, b ! 13, b ! 14, b ! 15] = X" "[b ! 16, b ! 17, b ! 18, b ! 19] = Y"
    if b: "b = fields4 P hh X Y Opts T1 tt T2" and l: "length X = 4" "length Y = 4" for b X Y hh tt
    unfolding b using fields4_nth(4,5) [OF ok l, of 0] fields4_nth(4,5) [OF ok l, of 1] fields4_nth(4,5) [OF ok l, of 2]
      fields4_nth(4,5) [OF ok l, of 3] four l by simp_all
  have i: "b ! ihl P = b ! (ihl P + 0)" for b :: bytes by simp
  show ?thesis unfolding l4_packet_def Let_def n(1,2) n'(1,2) netaddr_IPv4_def adr [OF refl SD] adr [OF refl assms(2,3)]
    unfolding n(3) [of 9, simplified] n'(3) [of 9, simplified] i
    unfolding n(6) n'(6)
    by (simp add: t AddrPortFrom_def)
qed

text \<open>The sums of the two regions.\<close>

lemma sum16_nat_word:
  "256 * unat (be16_hi w) + unat (be16_lo w) = unat w" "256 * unat (be16_hi w) + (unat (be16_lo w) + n) = unat w + n"
  using unat_be16 [of "be16_hi w" "be16_lo w"] by simp_all

lemma sum16_nat_nz: "i < length xs \<Longrightarrow> xs ! i \<noteq> 0 \<Longrightarrow> sum16_nat xs \<noteq> 0"
  unfolding sum16_nat_eq_0 by (metis nth_mem singletonD subsetD)

lemma fields4_hdr_sum:
  assumes "ok_fields4 P S D Opts T1 T2" "length S' = 4" "length D' = 4"
  shows "sum16_nat (take (ihl P) (fields4 P hc S' D' Opts T1 tc T2)) =
    sum16_nat P + sum16_nat Opts + (sum16_nat S' + sum16_nat D') + unat hc"
  unfolding fields4_hdr(1) [OF assms] using assms
  by (simp add: ok_fields4_def sum16_nat_append sum16_nat_word)

lemma fields4_segment:
  assumes "ok_fields4 P S D Opts T1 T2" "length S' = 4" "length D' = 4"
  shows "segment (fields4 P hc S' D' Opts T1 tc T2) = T1 @ be16_hi tc # be16_lo tc # take (totlen P - ihl P - length T1 - 2) T2"
    "length (segment (fields4 P hc S' D' Opts T1 tc T2)) = totlen P - ihl P"
proof -
  have "ihl P + length T1 + 2 \<le> totlen P" "totlen P \<le> ihl P + length T1 + 2 + length T2"
    using assms(1) by (auto simp: ok_fields4_def)
  then obtain k where k: "totlen P = ihl P + length T1 + 2 + k" "k \<le> length T2" by (metis add_le_cancel_left le_Suc_ex)
  note n = fields4_nth(1,2) [OF assms, of hc tc] fields4_hdr(2) [OF assms, of hc tc]
  show "segment (fields4 P hc S' D' Opts T1 tc T2) = T1 @ be16_hi tc # be16_lo tc # take (totlen P - ihl P - length T1 - 2) T2"
    unfolding segment_def n by (simp add: k)
  then show "length (segment (fields4 P hc S' D' Opts T1 tc T2)) = totlen P - ihl P" using k by simp
qed

lemma fields4_l4_sum:
  assumes "ok_fields4 P S D Opts T1 T2" "length S' = 4" "length D' = 4"
  shows "sum16_nat (take 8 (drop 12 (fields4 P hc S' D' Opts T1 tc T2)) @
      [0, p, be16_hi n, be16_lo n] @ segment (fields4 P hc S' D' Opts T1 tc T2)) =
    (unat p + unat n + sum16_nat T1 + sum16_nat (take (totlen P - ihl P - length T1 - 2) T2)) + (sum16_nat S' + sum16_nat D') + unat tc"
proof -
  have ev: "even (length T1)" "length P = 10" using assms(1) by (auto simp: ok_fields4_def)
  have "fields4 P hc S' D' Opts T1 tc T2 = (P @ [be16_hi hc, be16_lo hc]) @ (S' @ D') @ Opts @ T1 @ be16_hi tc # be16_lo tc # T2"
    by (simp add: fields4_def)
  then have "take 8 (drop 12 (fields4 P hc S' D' Opts T1 tc T2)) = S' @ D'" using ev(2) assms(2,3) by simp
  then show ?thesis using ev assms(2,3) unfolding fields4_segment(1) [OF assms]
    by (simp add: sum16_nat_append sum16_nat_word)
qed

lemma fields4_valid:
  assumes ok: "ok_fields4 P S D Opts T1 T2" and len: "length S' = 4" "length D' = 4" "length o4 = 4" "length n4 = 4"
    and sums: "sum16_nat S + sum16_nat D = X + sum16_nat o4" "sum16_nat S' + sum16_nat D' = X + sum16_nat n4"
  shows "hdr_valid (fields4 P hc S D Opts T1 tc T2) \<Longrightarrow> hdr_valid (fields4 P (rfc1624 hc o4 n4) S' D' Opts T1 tc' T2)"
    "l4_valid (fields4 P hc S D Opts T1 tc T2) \<Longrightarrow> l4_valid (fields4 P hc' S' D' Opts T1 (rfc1624 tc o4 n4) T2)"
proof -
  have SD: "length S = 4" "length D = 4" using ok by (auto simp: ok_fields4_def)
  have P: "length P = 10" "P ! 0 \<noteq> 0" "P ! 9 \<noteq> 0" "ihl P \<le> 60" "20 \<le> ihl P" "totlen P \<le> 65535"
    using ok push_bit_2_le [of "P ! 0"] unat_u16 [of "be16 (P ! 2) (P ! 3)"] by (auto simp: ok_fields4_def ihl_def totlen_def)
  note n = fields4_nth(1,2,3) [OF ok SD] and n' = fields4_nth(1,2,3) [OF ok len(1,2)]
  { assume v: "hdr_valid (fields4 P hc S D Opts T1 tc T2)"
    show "hdr_valid (fields4 P (rfc1624 hc o4 n4) S' D' Opts T1 tc' T2)"
      unfolding hdr_valid_def n'(1)
    proof (rule rfc1624_keeps_valid [where S = "sum16_nat P + sum16_nat Opts + X" and old = o4 and new = n4 and hc = hc])
      show "ip4Checksum (take (ihl P) (fields4 P hc S D Opts T1 tc T2)) = 0" using v unfolding hdr_valid_def n(1) .
      show "sum16_nat P + sum16_nat Opts + X \<noteq> 0" using sum16_nat_nz [of 0 P] P(1,2) by simp
    qed (use len P fields4_hdr_sum [OF ok SD] fields4_hdr_sum [OF ok len(1,2)] sums in simp_all)
  next
    assume v: "l4_valid (fields4 P hc S D Opts T1 tc T2)"
    let ?n = "u16_of_nat (totlen P - ihl P)" and ?r = "sum16_nat T1 + sum16_nat (take (totlen P - ihl P - length T1 - 2) T2)"
    show "l4_valid (fields4 P hc' S' D' Opts T1 (rfc1624 tc o4 n4) T2)"
      unfolding l4_valid_def fields4_segment(2) [OF ok len(1,2)] Let_def n'(3) [of 9, simplified]
    proof (rule rfc1624_keeps_valid [where S = "unat (P ! 9) + unat ?n + ?r + X" and old = o4 and new = n4 and hc = tc])
      show "ip4Checksum (take 8 (drop 12 (fields4 P hc S D Opts T1 tc T2)) @ [0, P ! 9, be16_hi ?n, be16_lo ?n] @ segment (fields4 P hc S D Opts T1 tc T2)) = 0"
        using v unfolding l4_valid_def fields4_segment(2) [OF ok SD] Let_def n(3) [of 9, simplified] .
      show "unat (P ! 9) + unat ?n + ?r + X \<noteq> 0" using P(3) by (simp add: unat_0_byte)
    qed (use len P fields4_l4_sum [OF ok SD] fields4_l4_sum [OF ok len(1,2)] fields4_segment(2) [OF ok SD] fields4_segment(2) [OF ok len(1,2)]
      sums in \<open>simp_all\<close>) }
qed

subsection \<open>Rewriting an address of an IPv4 packet\<close>

text \<open>
  The result of a rewriting, against the packet before: its buffer decodes to it (but for the note of
  the original address), and the checksums that were right still are.
\<close>

definition rewritten :: "Parsed \<Rightarrow> Parsed \<Rightarrow> Parsed \<Rightarrow> bool" where
  "rewritten q0 q q' \<longleftrightarrow> Decode q0 (p_b q') = Some (q'\<lparr>p_CaptureMeta := zeroCaptureMeta\<rparr>) \<and>
     length (p_b q') = length (p_b q) \<and> (hdr_valid (p_b q) \<longrightarrow> hdr_valid (p_b q')) \<and> (l4_valid (p_b q) \<longrightarrow> l4_valid (p_b q'))"

lemma copy_slice_append:
  "i = length xs \<Longrightarrow> j = i + length v \<Longrightarrow> length v = length ys \<Longrightarrow> copy_slice (xs @ ys @ zs) i j v = Some (xs @ v @ zs)"
  by (simp add: copy_slice_def copy_at_def)

lemma l4_packet_simps:
  "p_b (l4_packet q0 b) = b" "IPProto (l4_packet q0 b) = b ! 9" "p_subofs (l4_packet q0 b) = ihl b" "p_length (l4_packet q0 b) = totlen b"
  "IPVersion (l4_packet q0 b) = 4" "p_CaptureMeta (l4_packet q0 b) = zeroCaptureMeta"
  "ap_addr (Src (l4_packet q0 b)) = netaddr_IPv4 (b ! 12) (b ! 13) (b ! 14) (b ! 15)"
  "ap_addr (Dst (l4_packet q0 b)) = netaddr_IPv4 (b ! 16) (b ! 17) (b ! 18) (b ! 19)"
  by (simp_all add: l4_packet_def Let_def AddrPortFrom_def)

lemma l4_packet_addrs:
  assumes "ok_fields4 P S D Opts T1 T2"
  shows "ap_addr (Src (l4_packet q0 (fields4 P hc S D Opts T1 tc T2))) = AddrFrom4 S"
    "ap_addr (Dst (l4_packet q0 (fields4 P hc S D Opts T1 tc T2))) = AddrFrom4 D"
proof -
  have SD: "length S = 4" "length D = 4" using assms by (auto simp: ok_fields4_def)
  have "l4_packet q0 (fields4 P hc S D Opts T1 tc T2) = (l4_packet q0 (fields4 P hc S D Opts T1 tc T2))
    \<lparr>p_b := fields4 P hc S D Opts T1 tc T2,
     Src := AddrPortFrom (AddrFrom4 S) (ap_port (Src (l4_packet q0 (fields4 P hc S D Opts T1 tc T2)))),
     Dst := AddrPortFrom (AddrFrom4 D) (ap_port (Dst (l4_packet q0 (fields4 P hc S D Opts T1 tc T2))))\<rparr>"
    by (rule l4_packet_fields [OF assms SD])
  from arg_cong [OF this, of "\<lambda>q. ap_addr (Src q)"] arg_cong [OF this, of "\<lambda>q. ap_addr (Dst q)"]
  show "ap_addr (Src (l4_packet q0 (fields4 P hc S D Opts T1 tc T2))) = AddrFrom4 S"
    "ap_addr (Dst (l4_packet q0 (fields4 P hc S D Opts T1 tc T2))) = AddrFrom4 D" by (simp_all add: AddrPortFrom_def)
qed

lemma As4_AddrFrom4: "length x = 4 \<Longrightarrow> As4 (AddrFrom4 x) = Some x"
  by (simp add: AddrFrom4_def)

lemma AddrFrom4_as4: "Is4 a \<Longrightarrow> AddrFrom4 (as4 a) = a"
  by (cases a) (simp_all add: as4_def AddrFrom4_def)

lemma AddrPortFrom_id [simp]: "AddrPortFrom (ap_addr x) (ap_port x) = x"
  by (simp add: AddrPortFrom_def)

lemma update4_rewritten:
  fixes q0 b cm S' D' hc tc P Opts T1 T2
  defines "q \<equiv> l4_packet q0 b"
  defines "p \<equiv> q\<lparr>p_CaptureMeta := cm, Src := AddrPortFrom (AddrFrom4 S') (ap_port (Src q)),
    Dst := AddrPortFrom (AddrFrom4 D') (ap_port (Dst q)), p_b := fields4 P hc S' D' Opts T1 tc T2\<rparr>"
  assumes ok: "ok_fields4 P S D Opts T1 T2" and b: "b = fields4 P hc S D Opts T1 tc T2" and c: "l4_cond b"
    and len: "length S' = 4" "length D' = 4" "length o4 = 4" "length n4 = 4"
    and a: "As4 old = Some o4" "As4 new = Some n4" and G: "UDPMinimumSize G = 8" "TCPMinimumSize G = 20"
    and sums: "sum16_nat S + sum16_nat D = X + sum16_nat o4" "sum16_nat S' + sum16_nat D' = X + sum16_nat n4"
  shows "\<exists>b'. updateV4PacketChecksums G p old new = Some (p\<lparr>p_b := b'\<rparr>) \<and> rewritten q0 q (p\<lparr>p_b := b'\<rparr>)"
proof -
  let ?b' = "fields4 P (rfc1624 hc o4 n4) S' D' Opts T1 (rfc1624 tc o4 n4) T2"
  have SD: "length S = 4" "length D = 4" using ok by (auto simp: ok_fields4_def)
  note f = fields4_nth [OF ok SD, where hc = hc and tc = tc]
  have big: "(if P ! 9 = TCP then 20 else 8) \<le> length T1 + 2 + length T2"
    using c fields4_hdr(3) [OF ok SD, of hc tc] unfolding b l4_cond_def f(1,2) by (simp add: f(3))
  have q: "IPProto p = P ! 9" "p_subofs p = ihl P" "p_b p = fields4 P hc S' D' Opts T1 tc T2"
    using f(1) f(3) [of 9] by (simp_all add: p_def q_def l4_packet_simps b)
  have u: "updateV4PacketChecksums G p old new = Some (p\<lparr>p_b := ?b'\<rparr>)"
    by (rule update4_fields [OF ok len(1,2) q(3,1,2) a len(3,4) G big])
  have "l4_packet q0 ?b' = (p\<lparr>p_b := ?b'\<rparr>)\<lparr>p_CaptureMeta := zeroCaptureMeta\<rparr>"
    unfolding l4_packet_fields [OF ok len(1,2), where hc' = "rfc1624 hc o4 n4" and tc' = "rfc1624 tc o4 n4" and hc = hc and tc = tc]
    unfolding p_def q_def b [symmetric] by (simp add: l4_packet_def Let_def)
  then have "Decode q0 ?b' = Some ((p\<lparr>p_b := ?b'\<rparr>)\<lparr>p_CaptureMeta := zeroCaptureMeta\<rparr>)"
    using Decode_l4 [OF fields4_cond [OF ok len(1,2) c [unfolded b]]] by metis
  moreover have "hdr_valid b \<longrightarrow> hdr_valid ?b'" "l4_valid b \<longrightarrow> l4_valid ?b'"
    unfolding b using fields4_valid [OF ok len sums] by auto
  moreover have "length ?b' = length b" unfolding b using fields4_hdr(3) [OF ok len(1,2)] fields4_hdr(3) [OF ok SD] by simp
  ultimately have "rewritten q0 q (p\<lparr>p_b := ?b'\<rparr>)" by (simp add: rewritten_def q_def l4_packet_simps)
  then show ?thesis using u by blast
qed

lemma UpdateAddr4:
  assumes ok: "ok_fields4 P S D Opts T1 T2" and b: "b = fields4 P hc S D Opts T1 tc T2" and c: "l4_cond b"
    and a: "Is4 a" and G: "UDPMinimumSize G = 8" "TCPMinimumSize G = 20"
  shows "\<exists>q1. UpdateSrcAddr G (l4_packet q0 b) a = Some q1 \<and> rewritten q0 (l4_packet q0 b) q1 \<and>
      Src q1 = AddrPortFrom a (ap_port (Src (l4_packet q0 b))) \<and> Dst q1 = Dst (l4_packet q0 b)"
    "\<exists>q2. UpdateDstAddr G (l4_packet q0 b) a = Some q2 \<and> rewritten q0 (l4_packet q0 b) q2 \<and>
      Dst q2 = AddrPortFrom a (ap_port (Dst (l4_packet q0 b))) \<and> Src q2 = Src (l4_packet q0 b)"
proof -
  let ?q = "l4_packet q0 b" and ?n = "as4 a"
  have SD: "length S = 4" "length D = 4" "length P = 10" using ok by (auto simp: ok_fields4_def)
  have n: "length ?n = 4" "As4 a = Some ?n" "AddrFrom4 ?n = a" "\<not> Is6 a" using As4_as4 [OF a] AddrFrom4_as4 [OF a] a by auto
  have ad: "ap_addr (Src ?q) = AddrFrom4 S" "ap_addr (Dst ?q) = AddrFrom4 D" using l4_packet_addrs [OF ok] b by auto
  have same: "AddrPortFrom (AddrFrom4 S) (ap_port (Src ?q)) = Src ?q" "AddrPortFrom (AddrFrom4 D) (ap_port (Dst ?q)) = Dst ?q"
    unfolding ad [symmetric] by simp_all
  have cp: "copy_slice b 12 16 ?n = Some (fields4 P hc ?n D Opts T1 tc T2)" "copy_slice b 16 20 ?n = Some (fields4 P hc S ?n Opts T1 tc T2)"
    using copy_slice_append [of 12 "P @ [be16_hi hc, be16_lo hc]" 16 ?n S "D @ Opts @ T1 @ be16_hi tc # be16_lo tc # T2"]
      copy_slice_append [of 16 "P @ [be16_hi hc, be16_lo hc] @ S" 20 ?n D "Opts @ T1 @ be16_hi tc # be16_lo tc # T2"] SD n
    by (simp_all add: b fields4_def)
  show "\<exists>q1. UpdateSrcAddr G ?q a = Some q1 \<and> rewritten q0 ?q q1 \<and> Src q1 = AddrPortFrom a (ap_port (Src ?q)) \<and> Dst q1 = Dst ?q"
    using update4_rewritten [OF ok b c n(1) SD(2,1) n(1) As4_AddrFrom4 [OF SD(1)] n(2) G, where X = "sum16_nat D" and ?q0.0 = q0
        and cm = "zeroCaptureMeta\<lparr>DidSNAT := True, OriginalSrc := Src ?q\<rparr>"] a n
    by (auto simp: UpdateSrcAddr_def l4_packet_simps(1-6) ad cp same)
  show "\<exists>q2. UpdateDstAddr G ?q a = Some q2 \<and> rewritten q0 ?q q2 \<and> Dst q2 = AddrPortFrom a (ap_port (Dst ?q)) \<and> Src q2 = Src ?q"
    using update4_rewritten [OF ok b c SD(1) n(1) SD(2) n(1) As4_AddrFrom4 [OF SD(2)] n(2) G, where X = "sum16_nat S" and ?q0.0 = q0
        and cm = "zeroCaptureMeta\<lparr>DidDNAT := True, OriginalDst := Dst ?q\<rparr>"] a n
    by (auto simp: UpdateDstAddr_def l4_packet_simps(1-6) ad cp same)
qed

text \<open>
  C12. Rewriting the source or the destination of a decoded TCP or UDP packet over IPv4, whose transport header lies
  within its length, never panics. The new buffer decodes to the rewritten packet: the new address and the old port on
  one side, everything else as before. The checksum of the IP header and that of the segment are right
  afterwards if they were right before.
\<close>

theorem UpdateAddr4_keeps_valid:
  assumes "Decode q0 b = Some q" "IPVersion q = 4" "IPProto q = TCP \<or> IPProto q = UDP"
    and "20 \<le> p_subofs q" "p_subofs q + tc_ofs (IPProto q) + 2 \<le> p_length q"
    and "Is4 a" "UDPMinimumSize G = 8" "TCPMinimumSize G = 20"
  shows "(\<exists>q1. UpdateSrcAddr G q a = Some q1 \<and> rewritten q0 q q1 \<and> Src q1 = AddrPortFrom a (ap_port (Src q)) \<and> Dst q1 = Dst q) \<and>
    (\<exists>q2. UpdateDstAddr G q a = Some q2 \<and> rewritten q0 q q2 \<and> Dst q2 = AddrPortFrom a (ap_port (Dst q)) \<and> Src q2 = Src q)"
proof -
  have c: "l4_cond b" and q: "q = l4_packet q0 b" using Decode_l4D [OF assms(1-3)] by blast+
  have "20 \<le> ihl b" "ihl b + tc_ofs (b ! 9) + 2 \<le> totlen b" using assms(4,5) unfolding q l4_packet_simps by blast+
  from fields4_exist [OF c this] obtain P hc S D Opts T1 tc T2
    where "b = fields4 P hc S D Opts T1 tc T2" "ok_fields4 P S D Opts T1 T2" by blast
  then show ?thesis unfolding q using UpdateAddr4 [OF _ _ c assms(6-8)] by blast
qed

definition sample_gvisor :: gvisor where
  "sample_gvisor = \<lparr>UDPMinimumSize = 8, TCPMinimumSize = 20, ICMPv6MinimumSize = 8,
     AddrFrom16Slice = (\<lambda>s. if length s = 16 then Some s else None), ICMPv6_UpdateChecksum = (\<lambda>tr o6 n6. tr),
     UDP_UpdateChecksum = (\<lambda>tr o6 n6 full. tr), TCP_UpdateChecksum = (\<lambda>tr o6 n6 full. tr)\<rparr>"

text \<open>A UDP packet from 10.0.0.1 to 10.0.0.2, with and without a checksum.\<close>

definition nat_sample :: bytes where
  "nat_sample = [69, 0, 0, 30, 0, 0, 0, 0, 64, 17, 102, 205, 10, 0, 0, 1, 10, 0, 0, 2, 48, 57, 0, 53, 0, 10, 186, 103, 1, 2]"

definition nat_sample0 :: bytes where
  "nat_sample0 = [69, 0, 0, 30, 0, 0, 0, 0, 64, 17, 102, 205, 10, 0, 0, 1, 10, 0, 0, 2, 48, 57, 0, 53, 0, 10, 0, 0, 1, 2]"

lemma nat_sample: "l4_cond nat_sample" "hdr_valid nat_sample" "l4_valid nat_sample" "l4_cond nat_sample0"
  "20 \<le> ihl nat_sample" "ihl nat_sample + tc_ofs (nat_sample ! 9) + 2 \<le> totlen nat_sample"
  by code_simp+

theorem UpdateAddr4_keeps_valid_witness:
  "\<exists>q q1. Decode zeroParsed nat_sample = Some q \<and> UpdateSrcAddr sample_gvisor q (V4 0x64400001) = Some q1 \<and>
     hdr_valid (p_b q1) \<and> l4_valid (p_b q1)"
proof -
  let ?q = "l4_packet zeroParsed nat_sample"
  have d: "Decode zeroParsed nat_sample = Some ?q" by (rule Decode_l4 [OF nat_sample(1)])
  have "IPProto ?q = TCP \<or> IPProto ?q = UDP" using nat_sample(1) by (simp add: l4_packet_simps l4_cond_def)
  moreover have "20 \<le> p_subofs ?q" "p_subofs ?q + tc_ofs (IPProto ?q) + 2 \<le> p_length ?q"
    using nat_sample(5,6) unfolding l4_packet_simps .
  ultimately have "\<exists>q1. UpdateSrcAddr sample_gvisor ?q (V4 0x64400001) = Some q1 \<and> rewritten zeroParsed ?q q1"
    using UpdateAddr4_keeps_valid [OF d, of "V4 0x64400001" sample_gvisor] by (auto simp: sample_gvisor_def l4_packet_simps)
  then show ?thesis using d nat_sample(2,3) by (auto simp: rewritten_def l4_packet_simps)
qed

text \<open>
  A UDP packet over IPv4 may carry no checksum, which the value zero says. Rewriting its source nevertheless
  changes the field, to a value that is not the checksum: the receiver discards the packet.
\<close>

theorem UpdateSrcAddr_spoils_unchecked_udp:
  "case UpdateSrcAddr sample_gvisor (l4_packet zeroParsed nat_sample0) (V4 0x64400001) of
     Some q \<Rightarrow> rd16 nat_sample0 26 = Some 0 \<and> rd16 (p_b q) 26 \<noteq> Some 0 \<and> \<not> l4_valid (p_b q)
   | None \<Rightarrow> False"
  by code_simp

subsection \<open>Rewriting the destination of an IPv6 packet\<close>

lemma decode4_first_version: "decode4_first q sub = Some r \<Longrightarrow> IPVersion r = IPVersion q"
proof -
  assume "decode4_first q sub = Some r"
  note d = this [unfolded decode4_first_def]
  show ?thesis
  proof (cases "IPProto q" rule: proto_cases)
    case tcp
    then show ?thesis using d by (cases "length sub < 20") (auto simp: decode_tcp_eq)
  next
    case udp
    then show ?thesis using d by (cases "length sub < 8") (auto simp: decode_ports_eq)
  next
    case sctp
    then show ?thesis using d by (cases "length sub < 12") (auto simp: decode_ports_eq)
  qed (use d in \<open>auto split: if_splits\<close>)
qed

lemma decode4_version: "decode4 q b = Some r \<Longrightarrow> IPVersion r = IPVersion q \<or> IPProto r = Unknown"
  by (cases "length b < 20")
    (auto simp: decode4_eq decode4_short ip4_fields_def Let_def split: if_splits dest: decode4_first_version)

lemma Decode_v6D:
  assumes "Decode q0 b = Some q" "IPVersion q = 6" "IPProto q \<noteq> Unknown"
  shows "40 \<le> length b \<and> p_subofs q = 40 \<and> p_b q = b \<and> Is6 (ap_addr (Dst q))"
proof -
  obtain x xs where b: "b = x # xs" using assms(1,3) by (cases b) (auto simp: Decode_Nil)
  let ?q = "q0\<lparr>p_b := b, p_CaptureMeta := zeroCaptureMeta, IPVersion := 6\<rparr>"
  have "drop_bit 4 x = 6" using assms unfolding b by (auto simp: Decode_Cons Let_def split: if_splits dest: decode4_version)
  then have d: "decode6 ?q b = Some q" using assms(1) unfolding b by (simp add: Decode_Cons Let_def)
  have l: "40 \<le> length b" using d assms(3) by (cases "length b < 40") (auto simp: decode6_short)
  then have "decode6_sub (ip6_fields ?q b) (drop 40 b) = Some q" using d assms(3) by (auto simp: decode6_eq Let_def split: if_splits)
  then have "p_subofs q = 40" using decode6_sub_keeps by (fastforce simp: ip6_fields_def)
  moreover have "Is6 (ap_addr (Dst q))" using Decode_wf [OF assms(1)] assms(2,3) by (auto simp: Parsed_wf_def)
  ultimately show ?thesis using l Decode_p_b [OF assms(1)] by blast
qed

lemma updateV6_header:
  assumes "40 \<le> length (p_b p)" "p_subofs p = 40" "\<And>s. length s = 16 \<Longrightarrow> AddrFrom16Slice G s \<noteq> None" "Is6 old" "Is6 new"
  shows "\<exists>b'. updateV6PacketChecksums G p old new = Some (p\<lparr>p_b := b'\<rparr>) \<and> take 40 b' = take 40 (p_b p)"
proof -
  have s: "length (AsSlice old) = 16" "length (AsSlice new) = 16" using assms(4,5) by (cases old; cases new; simp)+
  obtain o6 n6 where "AddrFrom16Slice G (AsSlice old) = Some o6" "AddrFrom16Slice G (AsSlice new) = Some n6"
    using assms(3) [OF s(1)] assms(3) [OF s(2)] by auto
  moreover have "\<exists>b'. p = p\<lparr>p_b := b'\<rparr> \<and> take 40 b' = take 40 (p_b p)" by (rule exI [of _ "p_b p"]) simp
  moreover have "\<exists>b'. p\<lparr>p_b := copy_at (p_b p) 40 x\<rparr> = p\<lparr>p_b := b'\<rparr> \<and> take 40 b' = take 40 (p_b p)" for x
    using assms(1) by (intro exI [of _ "copy_at (p_b p) 40 x"]) (simp add: copy_at_def)
  ultimately show ?thesis using assms(1,2) by (simp add: updateV6PacketChecksums_def Transport_def slice_from_def)
qed

text \<open>
  C13. Rewriting the destination of a decoded IPv6 packet writes only the first twelve of the sixteen bytes of the address
  into the buffer: the last four keep the old destination. The parsed packet has the new destination, so
  that the two disagree whenever the last four bytes differ.
\<close>

theorem UpdateDstAddr6_truncates:
  assumes "Decode q0 b = Some q" "IPVersion q = 6" "IPProto q \<noteq> Unknown" "Is6 a"
    and "\<And>s. length s = 16 \<Longrightarrow> AddrFrom16Slice G s \<noteq> None"
  shows "\<exists>q'. UpdateDstAddr G q a = Some q' \<and> ap_addr (Dst q') = a \<and>
    take 16 (drop 24 (p_b q')) = take 12 (As16 a) @ take 4 (drop 36 b)"
proof -
  have q: "40 \<le> length b" "p_subofs q = 40" "p_b q = b" "Is6 (ap_addr (Dst q))" using Decode_v6D [OF assms(1-3)] by auto
  let ?b = "copy_at b 24 (take 12 (As16 a))"
  let ?p = "q\<lparr>p_CaptureMeta := (p_CaptureMeta q)\<lparr>DidDNAT := True, OriginalDst := Dst q\<rparr>, Dst := AddrPortFrom a (ap_port (Dst q)), p_b := ?b\<rparr>"
  have "length ?b = length b" using q(1) by simp
  then obtain b' where u: "updateV6PacketChecksums G ?p (ap_addr (Dst q)) a = Some (?p\<lparr>p_b := b'\<rparr>)" "take 40 b' = take 40 ?b"
    using updateV6_header [of ?p G "ap_addr (Dst q)" a] q assms(4,5) by auto
  have "take 16 (drop 24 b') = drop 24 (take 40 b')" by (simp add: drop_take)
  also have "\<dots> = take 16 (drop 24 ?b)" unfolding u(2) by (simp add: drop_take)
  also have "\<dots> = take 12 (As16 a) @ take 4 (drop 36 b)" using q(1) by (simp add: copy_at_def)
  finally have "take 16 (drop 24 b') = take 12 (As16 a) @ take 4 (drop 36 b)" .
  moreover have "UpdateDstAddr G q a = Some (?p\<lparr>p_b := b'\<rparr>)"
    using u(1) assms(2,4) q by (auto simp: UpdateDstAddr_def copy_slice_def)
  ultimately show ?thesis by (intro exI [of _ "?p\<lparr>p_b := b'\<rparr>"]) (simp add: AddrPortFrom_def)
qed

definition nat_sample6 :: bytes where
  "nat_sample6 = [0x60, 0, 0, 0, 0, 8, 17, 64] @ replicate 16 1 @ replicate 16 2 @ [0, 1, 0, 2, 0, 8, 0, 0]"

theorem UpdateDstAddr6_truncates_witness:
  "\<exists>q q'. Decode zeroParsed nat_sample6 = Some q \<and> UpdateDstAddr sample_gvisor q (V6 1 []) = Some q' \<and>
     ap_addr (Dst q') = V6 1 [] \<and> take 16 (drop 24 (p_b q')) \<noteq> As16 (V6 1 [])"
proof -
  have "(case Decode zeroParsed nat_sample6 of Some q \<Rightarrow> IPVersion q = 6 \<and> IPProto q \<noteq> Unknown | None \<Rightarrow> False)" by code_simp
  then obtain q where q: "Decode zeroParsed nat_sample6 = Some q" "IPVersion q = 6" "IPProto q \<noteq> Unknown" by (auto split: option.splits)
  have "take 12 (As16 (V6 1 [])) @ take 4 (drop 36 nat_sample6) \<noteq> As16 (V6 1 [])" by code_simp
  then show ?thesis using q UpdateDstAddr6_truncates [OF q, of "V6 1 []" sample_gvisor] by (auto simp: sample_gvisor_def)
qed

end
