(* ===== verification/Tstun_Nat.thy ===== *)
theory Tstun_Nat
  imports Tstun_Table Tsaddr Packet_Nat "HOL-Library.AList"
begin

section \<open>Package \<open>net/tstun\<close>: address translation\<close>

text \<open>
  The NAT configuration of \<open>src/net/tstun/wrap.go\<close>: how it is derived from the WireGuard configuration
  (\<open>src/wgengine/wgcfg/config.go\<close>), and the choice of source and destination addresses it makes. A nil
  pointer is \<open>None\<close>; the outer option of an operation is a run-time panic.
\<close>

subsection \<open>Configuration\<close>

record 'k wgPeer =
  wp_PublicKey :: 'k
  wp_AllowedIPs :: "prefix list"
  wp_V4MasqAddr :: "addr option"
  wp_V6MasqAddr :: "addr option"

record 'k wgConfig =
  wc_Addresses :: "prefix list"
  wc_Peers :: "'k wgPeer list"

datatype ipVersion = Version4 | Version6

text \<open>The maps of the code are association lists, as their emptiness is tested; the set of listen addresses is a list.\<close>

record 'k natFamilyConfig =
  nativeAddr :: addr
  listenAddrs :: "addr list"
  dstMasqAddrs :: "('k \<times> addr) list"
  dstAddrToPeerKeyMapper :: "'k RoutingTable option"

record 'k natConfig =
  nc_v4 :: "'k natFamilyConfig option"
  nc_v6 :: "'k natFamilyConfig option"

fun findV4 :: "prefix list \<Rightarrow> addr" where
  "findV4 [] = AddrZero"
| "findV4 (ap # addrs) = (let a = pfx_addr ap in if Is4 a \<and> IsTailscaleIP a then a else findV4 addrs)"

fun findV6 :: "prefix list \<Rightarrow> addr" where
  "findV6 [] = AddrZero"
| "findV6 (ap # addrs) = (let a = pfx_addr ap in if Is6 a \<and> IsTailscaleIP a then a else findV6 addrs)"

text \<open>The tests \<open>p.V4MasqAddr != nil && p.V4MasqAddr.IsValid()\<close> for the family, and the address.\<close>

definition masqAddr :: "ipVersion \<Rightarrow> 'k wgPeer \<Rightarrow> addr option" where
  "masqAddr addrFam p =
     (case (if addrFam = Version4 then wp_V4MasqAddr p else wp_V6MasqAddr p) of
        None \<Rightarrow> None
      | Some a \<Rightarrow> if a \<noteq> AddrZero then Some a else None)"

fun exitNodeRequiresMasq :: "ipVersion \<Rightarrow> 'k wgPeer list \<Rightarrow> bool" where
  "exitNodeRequiresMasq addrFam [] = False"
| "exitNodeRequiresMasq addrFam (p # ps) =
     (if AllIPv4 \<in> set (wp_AllowedIPs p) \<or> AllIPv6 \<in> set (wp_AllowedIPs p) then masqAddr addrFam p \<noteq> None
      else exitNodeRequiresMasq addrFam ps)"

fun nat_loop :: "ipVersion \<Rightarrow> addr \<Rightarrow> bool \<Rightarrow> 'k wgPeer list \<Rightarrow>
    'k RoutingTableBuilder \<times> ('k \<times> addr) list \<times> addr list \<Rightarrow> ('k RoutingTableBuilder \<times> ('k \<times> addr) list \<times> addr list) option" where
  "nat_loop addrFam native exitReq [] (tb, dsts, listen) = Some (tb, dsts, listen)"
| "nat_loop addrFam native exitReq (p # ps) (tb, dsts, listen) =
     (case (case masqAddr addrFam p of
              Some a \<Rightarrow> Some (a, List.insert a listen)
            | None \<Rightarrow> if exitReq then Some (native, listen) else None) of
        None \<Rightarrow> nat_loop addrFam native exitReq ps (tb, dsts, listen)
      | Some (addrToUse, listen) \<Rightarrow> do {
          tb \<leftarrow> InsertOrReplace tb (wp_PublicKey p) (wp_AllowedIPs p);
          nat_loop addrFam native exitReq ps (tb, AList.update (wp_PublicKey p) addrToUse dsts, listen) })"

definition natConfigFromWGConfig :: "'k wgConfig option \<Rightarrow> ipVersion \<Rightarrow> 'k natFamilyConfig option option" where
  "natConfigFromWGConfig wcfg addrFam = (case wcfg of None \<Rightarrow> Some None | Some cfg \<Rightarrow>
     (let native = (case addrFam of Version4 \<Rightarrow> findV4 (wc_Addresses cfg) | Version6 \<Rightarrow> findV6 (wc_Addresses cfg)) in
      if native = AddrZero then Some None
      else do {
        (tb, dsts, listen) \<leftarrow> nat_loop addrFam native (exitNodeRequiresMasq addrFam (wc_Peers cfg)) (wc_Peers cfg)
          (zeroBuilder, [], []);
        Some (if listen = [] \<and> dsts = [] then None
          else Some \<lparr>nativeAddr = native, listenAddrs = listen, dstMasqAddrs = dsts,
                     dstAddrToPeerKeyMapper = Some (fst (Build tb))\<rparr>) }))"

text \<open>The configuration \<open>SetWGConfig\<close> stores.\<close>

definition SetWGConfig :: "'k wgConfig option \<Rightarrow> 'k natConfig option option" where
  "SetWGConfig wcfg = do {
     v4 \<leftarrow> natConfigFromWGConfig wcfg Version4;
     v6 \<leftarrow> natConfigFromWGConfig wcfg Version6;
     Some (if v4 \<noteq> None \<or> v6 \<noteq> None then Some \<lparr>nc_v4 = v4, nc_v6 = v6\<rparr> else None) }"

subsection \<open>Choosing addresses\<close>

definition family_mapDstIP :: "'k natFamilyConfig option \<Rightarrow> addr \<Rightarrow> addr" where
  "family_mapDstIP c oldDst = (case c of None \<Rightarrow> oldDst
     | Some c \<Rightarrow> if oldDst \<in> set (listenAddrs c) then nativeAddr c else oldDst)"

definition mapDstIP :: "'k natConfig option \<Rightarrow> addr \<Rightarrow> addr" where
  "mapDstIP c oldDst = (case c of None \<Rightarrow> oldDst
     | Some c \<Rightarrow> if Is4 oldDst then family_mapDstIP (nc_v4 c) oldDst
                 else if Is6 oldDst then family_mapDstIP (nc_v6 c) oldDst
                 else oldDst)"

definition family_selectSrcIP :: "'k natFamilyConfig option \<Rightarrow> addr \<Rightarrow> addr \<Rightarrow> addr option" where
  "family_selectSrcIP c oldSrc dst = (case c of None \<Rightarrow> Some oldSrc
     | Some c \<Rightarrow>
        if oldSrc \<noteq> nativeAddr c then Some oldSrc
        else do {
          r \<leftarrow> RoutingTable_Lookup (dstAddrToPeerKeyMapper c) dst;
          Some (case r of None \<Rightarrow> oldSrc
            | Some p \<Rightarrow> (case map_of (dstMasqAddrs c) p of Some eip \<Rightarrow> eip | None \<Rightarrow> oldSrc)) })"

definition selectSrcIP :: "'k natConfig option \<Rightarrow> addr \<Rightarrow> addr \<Rightarrow> addr option" where
  "selectSrcIP c oldSrc dst = (case c of None \<Rightarrow> Some oldSrc
     | Some c \<Rightarrow> if Is4 oldSrc then family_selectSrcIP (nc_v4 c) oldSrc dst
                 else if Is6 oldSrc then family_selectSrcIP (nc_v6 c) oldSrc dst
                 else Some oldSrc)"

definition snat :: "'z gvisor_scheme \<Rightarrow> 'k natConfig option \<Rightarrow> Parsed \<Rightarrow> Parsed option" where
  "snat G nc p = do {
     let oldSrc = ap_addr (Src p);
     newSrc \<leftarrow> selectSrcIP nc oldSrc (ap_addr (Dst p));
     if oldSrc \<noteq> newSrc then UpdateSrcAddr G p newSrc else Some p }"

definition dnat :: "'z gvisor_scheme \<Rightarrow> 'k natConfig option \<Rightarrow> Parsed \<Rightarrow> Parsed option" where
  "dnat G nc p = do {
     let oldDst = ap_addr (Dst p);
     let newDst = mapDstIP nc oldDst;
     if newDst \<noteq> oldDst then UpdateDstAddr G p newDst else Some p }"

subsection \<open>What the loop over the peers computes\<close>

definition masqueraded :: "ipVersion \<Rightarrow> bool \<Rightarrow> 'k wgPeer \<Rightarrow> bool" where
  "masqueraded addrFam exitReq p \<longleftrightarrow> masqAddr addrFam p \<noteq> None \<or> exitReq"

definition usedAddr :: "ipVersion \<Rightarrow> addr \<Rightarrow> 'k wgPeer \<Rightarrow> addr" where
  "usedAddr addrFam native p = (case masqAddr addrFam p of Some a \<Rightarrow> a | None \<Rightarrow> native)"

text \<open>The peer that owns a prefix: the last one in the list that has it among its allowed addresses.\<close>

fun owner :: "'k wgPeer list \<Rightarrow> ('k wgPeer \<Rightarrow> bool) \<Rightarrow> prefix \<Rightarrow> 'k wgPeer option" where
  "owner [] P q = None"
| "owner (p # ps) P q = (case owner ps P q of Some r \<Rightarrow> Some r
     | None \<Rightarrow> if P p \<and> pfx_id q \<in> pfx_id ` set (wp_AllowedIPs p) then Some p else None)"

lemma owner_in: "owner ps P q = Some p \<Longrightarrow> p \<in> set ps \<and> P p"
  by (induction ps) (auto split: option.splits if_splits)

lemma nat_loop_step:
  "nat_loop addrFam native exitReq (p # ps) (tb, dsts, listen) =
     (if masqueraded addrFam exitReq p then do {
        tb \<leftarrow> InsertOrReplace tb (wp_PublicKey p) (wp_AllowedIPs p);
        nat_loop addrFam native exitReq ps (tb, AList.update (wp_PublicKey p) (usedAddr addrFam native p) dsts,
          (case masqAddr addrFam p of Some a \<Rightarrow> List.insert a listen | None \<Rightarrow> listen)) }
      else nat_loop addrFam native exitReq ps (tb, dsts, listen))"
  by (simp add: masqueraded_def usedAddr_def split: option.splits)

definition peers_ok :: "'k wgPeer list \<Rightarrow> bool" where
  "peers_ok ps \<longleftrightarrow> distinct (map wp_PublicKey ps) \<and> (\<forall>p\<in>set ps. \<forall>q\<in>set (wp_AllowedIPs p). pfx_valid q)"

text \<open>The result of the loop: the routes, the nil trie, the addresses of the peers and the listen addresses.\<close>

definition loop_res :: "ipVersion \<Rightarrow> addr \<Rightarrow> bool \<Rightarrow> 'k wgPeer list \<Rightarrow> 'k RoutingTableBuilder \<Rightarrow> ('k \<times> addr) list \<Rightarrow> addr list \<Rightarrow>
    'k RoutingTableBuilder \<Rightarrow> ('k \<times> addr) list \<Rightarrow> addr list \<Rightarrow> bool" where
  "loop_res addrFam native exitReq ps tb dsts listen tb' dsts' listen' \<longleftrightarrow>
    (let P = masqueraded addrFam exitReq in builder_ok tb' \<and>
     broutes tb' = (\<lambda>q. case owner ps P q of Some p \<Rightarrow> Some (wp_PublicKey p) | None \<Rightarrow> broutes tb q) \<and>
     (prefixTrie tb' = None \<longleftrightarrow> prefixTrie tb = None \<and> (\<forall>p\<in>set ps. P p \<longrightarrow> wp_AllowedIPs p = [])) \<and>
     (\<forall>p\<in>set ps. P p \<longrightarrow> map_of dsts' (wp_PublicKey p) = Some (usedAddr addrFam native p)) \<and>
     (\<forall>k. (\<forall>p\<in>set ps. P p \<longrightarrow> wp_PublicKey p \<noteq> k) \<longrightarrow> map_of dsts' k = map_of dsts k) \<and>
     set listen' = set listen \<union> {a. \<exists>p\<in>set ps. masqAddr addrFam p = Some a})"

lemma loop_res_skip:
  assumes "\<not> masqueraded addrFam exitReq p" "loop_res addrFam native exitReq ps tb dsts listen tb' dsts' listen'"
  shows "loop_res addrFam native exitReq (p # ps) tb dsts listen tb' dsts' listen'"
proof -
  have "owner (p # ps) (masqueraded addrFam exitReq) = owner ps (masqueraded addrFam exitReq)"
    using assms(1) by (intro ext) (simp split: option.splits)
  moreover have "masqAddr addrFam p = None" using assms(1) by (simp add: masqueraded_def)
  ultimately show ?thesis using assms unfolding loop_res_def Let_def by (simp del: owner.simps)
qed

lemma loop_res_take:
  assumes P: "masqueraded addrFam exitReq p" and new: "wp_PublicKey p \<notin> wp_PublicKey ` set ps"
    and r: "prefixTrie tb1 = None \<longleftrightarrow> prefixTrie tb = None \<and> wp_AllowedIPs p = []"
      "\<And>q. broutes tb1 q = (if pfx_id q \<in> pfx_id ` set (wp_AllowedIPs p) then Some (wp_PublicKey p) else broutes tb q)"
    and res: "loop_res addrFam native exitReq ps tb1 (AList.update (wp_PublicKey p) (usedAddr addrFam native p) dsts)
      (case masqAddr addrFam p of Some a \<Rightarrow> List.insert a listen | None \<Rightarrow> listen) tb' dsts' listen'"
  shows "loop_res addrFam native exitReq (p # ps) tb dsts listen tb' dsts' listen'"
proof -
  let ?P = "masqueraded addrFam exitReq"
  have res: "builder_ok tb'" "broutes tb' = (\<lambda>q. case owner ps ?P q of Some p \<Rightarrow> Some (wp_PublicKey p) | None \<Rightarrow> broutes tb1 q)"
      "prefixTrie tb' = None \<longleftrightarrow> prefixTrie tb1 = None \<and> (\<forall>p\<in>set ps. ?P p \<longrightarrow> wp_AllowedIPs p = [])"
      "\<forall>p\<in>set ps. ?P p \<longrightarrow> map_of dsts' (wp_PublicKey p) = Some (usedAddr addrFam native p)"
      "\<forall>k. (\<forall>p\<in>set ps. ?P p \<longrightarrow> wp_PublicKey p \<noteq> k) \<longrightarrow> map_of dsts' k = map_of (AList.update (wp_PublicKey p) (usedAddr addrFam native p) dsts) k"
      "set listen' = set (case masqAddr addrFam p of Some a \<Rightarrow> List.insert a listen | None \<Rightarrow> listen) \<union> {a. \<exists>p\<in>set ps. masqAddr addrFam p = Some a}"
    using res by (simp_all add: loop_res_def Let_def)
  have "broutes tb' = (\<lambda>q. case owner (p # ps) ?P q of Some p \<Rightarrow> Some (wp_PublicKey p) | None \<Rightarrow> broutes tb q)"
    unfolding res(2) using P r(2) by (intro ext) (simp split: option.splits)
  moreover have "set listen' = set listen \<union> {a. \<exists>p\<in>set (p # ps). masqAddr addrFam p = Some a}"
    unfolding res(6) by (auto split: option.splits)
  moreover have "\<forall>r\<in>set ps. ?P r \<longrightarrow> wp_PublicKey r \<noteq> wp_PublicKey p" using new by (metis imageI)
  then have "\<forall>r\<in>set (p # ps). ?P r \<longrightarrow> map_of dsts' (wp_PublicKey r) = Some (usedAddr addrFam native r)"
    using res(4,5) by (simp add: update_conv')
  moreover have "\<forall>k. (\<forall>r\<in>set (p # ps). ?P r \<longrightarrow> wp_PublicKey r \<noteq> k) \<longrightarrow> map_of dsts' k = map_of dsts k"
    using res(5) P by (auto simp: update_conv')
  moreover have "prefixTrie tb' = None \<longleftrightarrow> prefixTrie tb = None \<and> (\<forall>p\<in>set (p # ps). ?P p \<longrightarrow> wp_AllowedIPs p = [])"
    using res(3) r(1) P by auto
  ultimately show ?thesis using res(1) by (simp only: loop_res_def Let_def simp_thms)
qed

lemma nat_loop_ok:
  assumes "peers_ok ps" "builder_ok tb" "wp_PublicKey ` set ps \<inter> peers tb = {}"
  shows "\<exists>tb' dsts' listen'. nat_loop addrFam native exitReq ps (tb, dsts, listen) = Some (tb', dsts', listen') \<and>
    loop_res addrFam native exitReq ps tb dsts listen tb' dsts' listen'"
  using assms
proof (induction ps arbitrary: tb dsts listen)
  case Nil
  then show ?case by (simp add: loop_res_def)
next
  case (Cons p ps)
  let ?k = "wp_PublicKey p"
  have ps: "peers_ok ps" "?k \<notin> wp_PublicKey ` set ps" using Cons.prems(1) by (auto simp: peers_ok_def)
  show ?case
  proof (cases "masqueraded addrFam exitReq p")
    case False
    have "wp_PublicKey ` set ps \<inter> peers tb = {}" using Cons.prems(3) by auto
    from Cons.IH [OF ps(1) Cons.prems(2) this, of dsts listen] obtain tb' dsts' listen' where
        "nat_loop addrFam native exitReq ps (tb, dsts, listen) = Some (tb', dsts', listen')"
        "loop_res addrFam native exitReq ps tb dsts listen tb' dsts' listen'" by metis
    then show ?thesis using False loop_res_skip [OF False] unfolding nat_loop_step by auto
  next
    case True
    have k: "?k \<notin> peers tb" using Cons.prems(3) by auto
    have v: "\<forall>q\<in>set (wp_AllowedIPs p). pfx_valid q" and live: "?k \<in> peers tb \<longrightarrow> prefixTrie tb \<noteq> None"
      using Cons.prems(1) k by (simp_all add: peers_ok_def)
    from InsertOrReplace_ok [OF Cons.prems(2) v live] obtain tb1 where tb1: "InsertOrReplace tb ?k (wp_AllowedIPs p) = Some tb1" "builder_ok tb1" "peers tb1 = insert ?k (peers tb)"
        "prefixTrie tb1 = None \<longleftrightarrow> prefixTrie tb = None \<and> wp_AllowedIPs p = []"
        "\<forall>q. broutes tb1 q = (if pfx_id q \<in> pfx_id ` set (wp_AllowedIPs p) then Some ?k else if broutes tb q = Some ?k then None else broutes tb q)"
      by (elim exE conjE) (rule that)
    have "broutes tb q \<noteq> Some ?k" for q using Cons.prems(2) k by (auto simp: builder_ok_def)
    then have r1: "broutes tb1 q = (if pfx_id q \<in> pfx_id ` set (wp_AllowedIPs p) then Some ?k else broutes tb q)" for q
      using tb1(5) by simp
    have "wp_PublicKey ` set ps \<inter> peers tb1 = {}" using Cons.prems(3) ps(2) tb1(3) by auto
    from Cons.IH [OF ps(1) tb1(2) this] obtain tb' dsts' listen' where
        "nat_loop addrFam native exitReq ps (tb1, AList.update ?k (usedAddr addrFam native p) dsts,
          (case masqAddr addrFam p of Some a \<Rightarrow> List.insert a listen | None \<Rightarrow> listen)) = Some (tb', dsts', listen')"
        "loop_res addrFam native exitReq ps tb1 (AList.update ?k (usedAddr addrFam native p) dsts)
          (case masqAddr addrFam p of Some a \<Rightarrow> List.insert a listen | None \<Rightarrow> listen) tb' dsts' listen'" by metis
    then have "nat_loop addrFam native exitReq (p # ps) (tb, dsts, listen) = Some (tb', dsts', listen')"
        "loop_res addrFam native exitReq (p # ps) tb dsts listen tb' dsts' listen'"
      using True tb1(1) loop_res_take [OF True ps(2) tb1(4) r1] by (simp_all only: nat_loop_step if_True bind.bind_lunit)
    then show ?thesis by blast
  qed
qed

definition family_native :: "ipVersion \<Rightarrow> 'k wgConfig \<Rightarrow> addr" where
  "family_native addrFam cfg = (case addrFam of Version4 \<Rightarrow> findV4 (wc_Addresses cfg) | Version6 \<Rightarrow> findV6 (wc_Addresses cfg))"

text \<open>The peers that are masqueraded in a family.\<close>

definition fam_peers :: "ipVersion \<Rightarrow> 'k wgConfig \<Rightarrow> 'k wgPeer \<Rightarrow> bool" where
  "fam_peers addrFam cfg = masqueraded addrFam (exitNodeRequiresMasq addrFam (wc_Peers cfg))"

definition fam_cfg :: "ipVersion \<Rightarrow> 'k wgConfig \<Rightarrow> 'k natFamilyConfig \<Rightarrow> 'k RoutingTableBuilder \<Rightarrow> bool" where
  "fam_cfg addrFam cfg f b \<longleftrightarrow> nativeAddr f = family_native addrFam cfg \<and> family_native addrFam cfg \<noteq> AddrZero \<and>
    set (listenAddrs f) = {a. \<exists>p\<in>set (wc_Peers cfg). masqAddr addrFam p = Some a} \<and>
    (\<forall>p\<in>set (wc_Peers cfg). fam_peers addrFam cfg p \<longrightarrow>
      map_of (dstMasqAddrs f) (wp_PublicKey p) = Some (usedAddr addrFam (family_native addrFam cfg) p)) \<and>
    dstAddrToPeerKeyMapper f = Some (fst (Build b)) \<and> builder_ok b \<and>
    broutes b = (\<lambda>q. map_option wp_PublicKey (owner (wc_Peers cfg) (fam_peers addrFam cfg) q)) \<and>
    (prefixTrie b = None \<longleftrightarrow> (\<forall>p\<in>set (wc_Peers cfg). fam_peers addrFam cfg p \<longrightarrow> wp_AllowedIPs p = []))"

lemma natConfigFromWGConfig_ok:
  fixes cfg :: "'k wgConfig" and addrFam :: ipVersion
  defines "native \<equiv> family_native addrFam cfg" and "P \<equiv> fam_peers addrFam cfg"
  assumes "peers_ok (wc_Peers cfg)"
  shows "\<exists>c. natConfigFromWGConfig (Some cfg) addrFam = Some c \<and>
    (c = None \<longleftrightarrow> native = AddrZero \<or> (\<forall>p\<in>set (wc_Peers cfg). \<not> P p)) \<and>
    (\<forall>f. c = Some f \<longrightarrow> (\<exists>b. fam_cfg addrFam cfg f b))"
proof (cases "native = AddrZero")
  case True
  then show ?thesis by (simp add: natConfigFromWGConfig_def native_def family_native_def)
next
  case False
  let ?ps = "wc_Peers cfg" and ?E = "exitNodeRequiresMasq addrFam (wc_Peers cfg)"
  obtain b dsts listen where l: "nat_loop addrFam native ?E ?ps (zeroBuilder, [], []) = Some (b, dsts, listen)"
      "loop_res addrFam native ?E ?ps zeroBuilder [] [] b dsts listen"
    using nat_loop_ok [OF assms(3) zeroBuilder_ok(1), where addrFam = addrFam and exitReq = ?E and native = native and dsts = "[]" and listen = "[]"]
    by (auto simp: zeroBuilder_def)
  note res = l(2) [unfolded loop_res_def Let_def, folded fam_peers_def, folded P_def]
  have r: "broutes b = (\<lambda>q. map_option wp_PublicKey (owner ?ps P q))"
    using res by (intro ext) (simp add: zeroBuilder_ok(2) split: option.splits)
  have e: "listen = [] \<and> dsts = [] \<longleftrightarrow> (\<forall>p\<in>set ?ps. \<not> P p)"
  proof
    assume none: "\<forall>p\<in>set ?ps. \<not> P p"
    then have "masqAddr addrFam p = None" if "p \<in> set ?ps" for p using that by (auto simp: P_def fam_peers_def masqueraded_def)
    then have "set listen = {}" using res by auto
    moreover have "map_of dsts k = None" for k using res none by simp
    then have "dsts = []" by (metis list.exhaust map_of_Cons_code(2) option.distinct(1) surj_pair)
    ultimately show "listen = [] \<and> dsts = []" by simp
  next
    assume "listen = [] \<and> dsts = []"
    then show "\<forall>p\<in>set ?ps. \<not> P p" using res by auto
  qed
  let ?f = "\<lparr>nativeAddr = native, listenAddrs = listen, dstMasqAddrs = dsts, dstAddrToPeerKeyMapper = Some (fst (Build b))\<rparr>"
  have "natConfigFromWGConfig (Some cfg) addrFam = Some (if listen = [] \<and> dsts = [] then None else Some ?f)"
    using l(1) False by (simp add: natConfigFromWGConfig_def native_def family_native_def)
  moreover have "fam_cfg addrFam cfg ?f b"
    using res r False by (simp add: fam_cfg_def native_def [symmetric] P_def [symmetric] zeroBuilder_def)
  ultimately show ?thesis using e False by (intro exI [of _ "if listen = [] \<and> dsts = [] then None else Some ?f"]) auto
qed

subsection \<open>The two directions\<close>

lemma find_family: "findV4 as = AddrZero \<or> Is4 (findV4 as)" "findV6 as = AddrZero \<or> Is6 (findV6 as)"
  by (induction as) (auto simp: Let_def)

definition in_family :: "ipVersion \<Rightarrow> addr \<Rightarrow> bool" where
  "in_family addrFam a = (case addrFam of Version4 \<Rightarrow> Is4 a | Version6 \<Rightarrow> Is6 a)"

definition nc_family :: "ipVersion \<Rightarrow> 'k natConfig option \<Rightarrow> 'k natFamilyConfig option" where
  "nc_family addrFam c = (case c of None \<Rightarrow> None | Some c \<Rightarrow> (case addrFam of Version4 \<Rightarrow> nc_v4 c | Version6 \<Rightarrow> nc_v6 c))"

lemma in_family_native: "family_native addrFam cfg \<noteq> AddrZero \<Longrightarrow> in_family addrFam (family_native addrFam cfg)"
  using find_family [of "wc_Addresses cfg"] by (auto simp: family_native_def in_family_def split: ipVersion.splits)

lemma SetWGConfig_family:
  "SetWGConfig wcfg = Some nc \<Longrightarrow> natConfigFromWGConfig wcfg addrFam = Some (nc_family addrFam nc)"
  by (cases addrFam) (auto simp: SetWGConfig_def nc_family_def bind_eq_Some_conv)

lemma by_family:
  assumes "in_family addrFam a"
  shows "mapDstIP nc a = family_mapDstIP (nc_family addrFam nc) a"
    "selectSrcIP nc a dst = family_selectSrcIP (nc_family addrFam nc) a dst"
  using assms
  by (cases addrFam; cases a; cases nc; simp add: in_family_def mapDstIP_def selectSrcIP_def nc_family_def family_mapDstIP_def family_selectSrcIP_def)+

lemma family_return:
  assumes ok: "peers_ok (wc_Peers cfg)" and c: "natConfigFromWGConfig (Some cfg) addrFam = Some c"
    and s: "family_selectSrcIP c (family_native addrFam cfg) dst = Some s"
  shows "family_mapDstIP c s = family_native addrFam cfg"
    "s = family_native addrFam cfg \<or> (\<exists>p\<in>set (wc_Peers cfg). masqAddr addrFam p = Some s)"
proof -
  let ?n = "family_native addrFam cfg" and ?ps = "wc_Peers cfg"
  have "(c = None \<or> (\<exists>f. c = Some f \<and> nativeAddr f = ?n \<and> set (listenAddrs f) = {a. \<exists>p\<in>set ?ps. masqAddr addrFam p = Some a} \<and>
      (s = ?n \<or> s \<in> set (listenAddrs f))))"
  proof (cases c)
    case (Some f)
    let ?P = "fam_peers addrFam cfg"
    obtain b where "fam_cfg addrFam cfg f b" using natConfigFromWGConfig_ok [OF ok, of addrFam] c Some by auto
    note f = this [unfolded fam_cfg_def]
    have "s = ?n \<or> s \<in> set (listenAddrs f)"
    proof (rule ccontr)
      assume ne: "\<not> (s = ?n \<or> s \<in> set (listenAddrs f))"
      then obtain k where k: "RoutingTable_Lookup (Some (fst (Build b))) dst = Some (Some k)" "map_of (dstMasqAddrs f) k = Some s"
        using s Some f by (auto simp: family_selectSrcIP_def bind_eq_Some_conv split: option.splits)
      have t: "prefixTrie b \<noteq> None" "dst \<noteq> AddrZero"
        using k(1) by (auto simp: RoutingTable_Lookup_def Build_def AllowedIPs_Lookup_def bind_eq_Some_conv)
      obtain q where "broutes b q = Some k"
        using k(1) Build_Lookup [OF _ t] f first_some_in [of "broutes b" "trie_cands dst" k] by auto
      then obtain p where p: "owner ?ps ?P q = Some p" "wp_PublicKey p = k" using f by auto
      then have "p \<in> set ?ps" "?P p" using owner_in by blast+
      then have "s = usedAddr addrFam ?n p" using f k(2) p(2) by auto
      then show False using ne f \<open>p \<in> set ?ps\<close> by (auto simp: usedAddr_def split: option.splits)
    qed
    then show ?thesis using f Some by blast
  qed simp
  then show "family_mapDstIP c s = ?n" "s = ?n \<or> (\<exists>p\<in>set ?ps. masqAddr addrFam p = Some s)"
    using s by (auto simp: family_mapDstIP_def family_selectSrcIP_def)
qed

text \<open>
  C35. The two translations are inverse. Let a WireGuard configuration have distinct peer keys, valid prefixes
  and masquerade addresses of the right family. Whatever source address the NAT configuration made from it
  selects for a packet from the node's own address of a family, a reply sent to that address is translated
  back to the node's own address.
\<close>

theorem nat_return_path:
  assumes "peers_ok (wc_Peers cfg)" "\<forall>p\<in>set (wc_Peers cfg). \<forall>a. masqAddr addrFam p = Some a \<longrightarrow> in_family addrFam a"
    and "SetWGConfig (Some cfg) = Some nc" "family_native addrFam cfg \<noteq> AddrZero"
    and "selectSrcIP nc (family_native addrFam cfg) dst = Some s"
  shows "mapDstIP nc s = family_native addrFam cfg"
proof -
  let ?n = "family_native addrFam cfg"
  note c = SetWGConfig_family [OF assms(3)]
  have n: "in_family addrFam ?n" by (rule in_family_native [OF assms(4)])
  note r = family_return [OF assms(1) c assms(5) [unfolded by_family(2) [OF n]]]
  have "in_family addrFam s" using r(2) n assms(2) by auto
  then show ?thesis using r(1) by (simp add: by_family(1))
qed

definition sample_cfg :: "nat wgConfig" where
  "sample_cfg = \<lparr>wc_Addresses = [Prefix (V4 0x64400001) 32], wc_Peers =
     [\<lparr>wp_PublicKey = 1, wp_AllowedIPs = [Prefix (V4 0x64400002) 32, Prefix (V4 0x0a000000) 8], wp_V4MasqAddr = Some (V4 0x64400063), wp_V6MasqAddr = None\<rparr>,
      \<lparr>wp_PublicKey = 2, wp_AllowedIPs = [Prefix (V4 0x64400003) 32], wp_V4MasqAddr = None, wp_V6MasqAddr = None\<rparr>]\<rparr>"

lemma sample_cfg_ok: "peers_ok (wc_Peers sample_cfg)" "family_native Version4 sample_cfg = V4 0x64400001"
  "\<forall>p\<in>set (wc_Peers sample_cfg). \<forall>a. masqAddr Version4 p = Some a \<longrightarrow> in_family Version4 a"
proof -
  show "peers_ok (wc_Peers sample_cfg)" by (simp add: peers_ok_def sample_cfg_def pfx_valid_def)
  have "IsTailscaleIP (V4 0x64400001)" by code_simp
  then show "family_native Version4 sample_cfg = V4 0x64400001" by (simp add: family_native_def sample_cfg_def)
  show "\<forall>p\<in>set (wc_Peers sample_cfg). \<forall>a. masqAddr Version4 p = Some a \<longrightarrow> in_family Version4 a"
    by (simp add: sample_cfg_def masqAddr_def in_family_def)
qed

text \<open>
  The source address that is selected, on every path. For a packet from the node's own address, the peer is
  the one owning the most specific prefix that contains the destination, the last such peer of the
  configuration; its masquerade address is used, or the node's own address when only the exit node needs
  masquerading. When no masqueraded peer has any prefix, the routing table has a nil trie and the lookup
  panics.
\<close>

theorem selectSrcIP_exact:
  fixes cfg :: "'k wgConfig" and addrFam :: ipVersion
  defines "P \<equiv> fam_peers addrFam cfg"
  assumes "peers_ok (wc_Peers cfg)" "natConfigFromWGConfig (Some cfg) addrFam = Some (Some c)" "dst \<noteq> AddrZero"
  shows "family_selectSrcIP (Some c) (family_native addrFam cfg) dst =
    (if \<exists>p\<in>set (wc_Peers cfg). P p \<and> wp_AllowedIPs p \<noteq> [] then
       Some (case first_some (map (owner (wc_Peers cfg) P) (trie_cands dst)) of
         None \<Rightarrow> family_native addrFam cfg
       | Some p \<Rightarrow> usedAddr addrFam (family_native addrFam cfg) p)
     else None)"
proof -
  let ?n = "family_native addrFam cfg" and ?ps = "wc_Peers cfg"
  obtain b where "fam_cfg addrFam cfg c b" using natConfigFromWGConfig_ok [OF assms(2), of addrFam] assms(3) by auto
  then have f: "nativeAddr c = ?n" "\<forall>p\<in>set ?ps. P p \<longrightarrow> map_of (dstMasqAddrs c) (wp_PublicKey p) = Some (usedAddr addrFam ?n p)"
      "dstAddrToPeerKeyMapper c = Some (fst (Build b))" "builder_ok b" "broutes b = (\<lambda>q. map_option wp_PublicKey (owner ?ps P q))"
      "prefixTrie b = None \<longleftrightarrow> (\<forall>p\<in>set ?ps. P p \<longrightarrow> wp_AllowedIPs p = [])"
    by (simp_all add: fam_cfg_def P_def)
  show ?thesis
  proof (cases "prefixTrie b = None")
    case True
    then have "RoutingTable_Lookup (Some (fst (Build b))) dst = None" by (simp add: RoutingTable_Lookup_def Build_def)
    then show ?thesis using True f by (auto simp: family_selectSrcIP_def)
  next
    case False
    let ?o = "first_some (map (owner ?ps P) (trie_cands dst))"
    have "RoutingTable_Lookup (Some (fst (Build b))) dst = Some (map_option wp_PublicKey ?o)"
      using Build_Lookup [OF f(4) False assms(4)] by (simp add: f(5) first_some_map)
    moreover have "p \<in> set ?ps \<and> P p" if "?o = Some p" for p
      using first_some_in [OF that] owner_in [of ?ps P] by blast
    ultimately show ?thesis using False f by (auto simp: family_selectSrcIP_def split: option.splits)
  qed
qed

theorem selectSrcIP_exact_witness:
  "\<exists>c. natConfigFromWGConfig (Some sample_cfg) Version4 = Some (Some c) \<and>
     family_selectSrcIP (Some c) (V4 0x64400001) (V4 0x0a010203) = Some (V4 0x64400063)"
proof -
  have p: "\<exists>p\<in>set (wc_Peers sample_cfg). fam_peers Version4 sample_cfg p \<and> wp_AllowedIPs p \<noteq> []" by code_simp
  then obtain c where c: "natConfigFromWGConfig (Some sample_cfg) Version4 = Some (Some c)"
    using natConfigFromWGConfig_ok [OF sample_cfg_ok(1), of Version4] sample_cfg_ok(2) by force
  have "(case first_some (map (owner (wc_Peers sample_cfg) (fam_peers Version4 sample_cfg)) (trie_cands (V4 0x0a010203))) of None \<Rightarrow> V4 0x64400001
      | Some p \<Rightarrow> usedAddr Version4 (V4 0x64400001) p) = V4 0x64400063" by code_simp
  then show ?thesis using selectSrcIP_exact [OF sample_cfg_ok(1) c, of "V4 0x0a010203"] p c unfolding sample_cfg_ok(2) by (simp del: owner.simps)
qed

theorem nat_return_path_witness:
  "\<exists>nc. SetWGConfig (Some sample_cfg) = Some nc \<and> selectSrcIP nc (V4 0x64400001) (V4 0x0a010203) = Some (V4 0x64400063) \<and>
     mapDstIP nc (V4 0x64400063) = V4 0x64400001"
proof -
  have "(case SetWGConfig (Some sample_cfg) of None \<Rightarrow> False | Some nc \<Rightarrow>
      selectSrcIP nc (V4 0x64400001) (V4 0x0a010203) = Some (V4 0x64400063))" by code_simp
  then obtain nc where nc: "SetWGConfig (Some sample_cfg) = Some nc" "selectSrcIP nc (V4 0x64400001) (V4 0x0a010203) = Some (V4 0x64400063)"
    by (auto split: option.splits)
  then have "mapDstIP nc (V4 0x64400063) = V4 0x64400001"
    using nat_return_path [OF sample_cfg_ok(1,3) nc(1)] sample_cfg_ok(2) by simp
  then show ?thesis using nc by blast
qed

end
