(* ===== verification/Lru_Spec.thy ===== *)
theory Lru_Spec
  imports Prelude "HOL-Library.AList"
begin

section \<open>What a bounded least-recently-used cache promises\<close>

text \<open>
  Two packages of the client hold an LRU cache: \<open>net/flowtrack\<close> (keyed by flow tuples, used by
  the packet filter) and \<open>util/lru\<close> (generic). Both promise the same thing, stated here as an
  abstract specification on the list of entries, most recently used first, and as the locale
  \<open>lru_cache\<close>. The clients' facts are proved once inside the locale; the theories
  \<open>Flowtrack\<close> and \<open>Lru_Ring\<close> interpret it on the models of the two implementations.
\<close>

subsection \<open>The abstract operations\<close>

definition lru_drop :: "'k \<Rightarrow> ('k \<times> 'v) list \<Rightarrow> ('k \<times> 'v) list" where
  "lru_drop k es = filter (\<lambda>e. fst e \<noteq> k) es"

definition lru_evict :: "int \<Rightarrow> ('k \<times> 'v) list \<Rightarrow> ('k \<times> 'v) list" where
  "lru_evict lim es = (if lim \<noteq> 0 \<and> lim < int (length es) then butlast es else es)"

definition lru_add :: "int \<Rightarrow> 'k \<Rightarrow> 'v \<Rightarrow> ('k \<times> 'v) list \<Rightarrow> ('k \<times> 'v) list" where
  "lru_add lim k v es =
     (if k \<in> fst ` set es then (k, v) # lru_drop k es else lru_evict lim ((k, v) # es))"

definition lru_touch :: "'k \<Rightarrow> ('k \<times> 'v) list \<Rightarrow> ('k \<times> 'v) list" where
  "lru_touch k es = (case map_of es k of None \<Rightarrow> es | Some v \<Rightarrow> (k, v) # lru_drop k es)"

subsection \<open>Lemmas on the abstract operations\<close>

lemma AList_update_notin: "k \<notin> fst ` set al \<Longrightarrow> AList.update k v al = al @ [(k, v)]"
  by (induction al) auto

lemma lru_drop_notin: "k \<notin> fst ` set es \<Longrightarrow> lru_drop k es = es"
  by (auto simp: lru_drop_def filter_id_conv)

lemma fst_lru_drop [simp]: "fst ` set (lru_drop k es) = fst ` set es - {k}"
  by (auto simp: lru_drop_def)

lemma distinct_lru_drop: "distinct (map fst es) \<Longrightarrow> distinct (map fst (lru_drop k es))"
  by (simp add: lru_drop_def distinct_map_filter)

lemma map_of_lru_drop: "map_of (lru_drop k es) x = (if x = k then None else map_of es x)"
  by (induction es) (auto simp: lru_drop_def)

lemma length_lru_drop_le: "length (lru_drop k es) \<le> length es"
  by (simp add: lru_drop_def)

lemma length_lru_drop_less: "k \<in> fst ` set es \<Longrightarrow> length (lru_drop k es) < length es"
  unfolding lru_drop_def by (auto intro: length_filter_less)

lemma map_of_butlast: "x \<noteq> fst (last es) \<Longrightarrow> es \<noteq> [] \<Longrightarrow> map_of (butlast es) x = map_of es x"
  by (induction es) auto

lemma map_of_lru_touch: "map_of (lru_touch k es) = map_of es"
  by (auto simp: lru_touch_def map_of_lru_drop fun_eq_iff split: option.splits)

lemma lru_drop_last:
  assumes "distinct (map fst es)" "es \<noteq> []"
  shows "lru_drop (fst (last es)) es = butlast es"
proof -
  obtain ys y where es: "es = ys @ [y]" using assms(2) by (metis append_butlast_last_id)
  then have "fst y \<notin> fst ` set ys" using assms(1) by auto
  then have "filter (\<lambda>e. fst e \<noteq> fst y) ys = ys" by (induction ys) auto
  with es show ?thesis by (simp add: lru_drop_def)
qed

lemma distinct_lru_add: "distinct (map fst es) \<Longrightarrow> distinct (map fst (lru_add lim k v es))"
  by (auto simp: lru_add_def lru_evict_def distinct_lru_drop map_butlast distinct_butlast
      dest: in_set_butlastD)

lemma length_lru_add:
  "0 < lim \<Longrightarrow> int (length es) \<le> lim \<Longrightarrow> int (length (lru_add lim k v es)) \<le> lim"
  using length_lru_drop_less [of k es] by (cases "k \<in> fst ` set es") (auto simp: lru_add_def lru_evict_def)

lemma length_lru_touch: "length (lru_touch k es) \<le> length es"
proof (cases "map_of es k")
  case (Some v)
  then have "k \<in> fst ` set es" by (force dest: map_of_SomeD)
  with Some show ?thesis using length_lru_drop_less [of k es] by (simp add: lru_touch_def)
qed (simp add: lru_touch_def)

lemma map_of_lru_add_same: "0 \<le> lim \<Longrightarrow> map_of (lru_add lim k v es) k = Some v"
  by (cases es) (auto simp: lru_add_def lru_evict_def)

text \<open>
  The number of entries used more recently than \<open>k\<close>. An operation on another key moves \<open>k\<close> at
  most one place back, and an entry that is not the last one is never evicted.
\<close>

definition lru_pos :: "'k \<Rightarrow> ('k \<times> 'v) list \<Rightarrow> nat" where
  "lru_pos k es = length (takeWhile (\<lambda>e. fst e \<noteq> k) es)"

lemma lru_pos_Cons: "lru_pos k (e # es) = (if fst e = k then 0 else Suc (lru_pos k es))"
  by (simp add: lru_pos_def)

lemma lru_pos_drop_le: "lru_pos k (lru_drop x es) \<le> lru_pos k es" if "x \<noteq> k"
  using that by (induction es) (auto simp: lru_drop_def lru_pos_def)

lemma lru_pos_less: "k \<in> fst ` set es \<longleftrightarrow> lru_pos k es < length es"
  by (induction es) (auto simp: lru_pos_def)

lemma lru_pos_butlast:
  "lru_pos k es < length es - 1 \<Longrightarrow> lru_pos k (butlast es) = lru_pos k es \<and> map_of (butlast es) k = map_of es k"
  by (induction es) (auto simp: lru_pos_def split: if_splits)

lemma lru_evict_survives:
  assumes "map_of es k = Some v" "lim = 0 \<or> int (lru_pos k es) < lim"
  shows "map_of (lru_evict lim es) k = Some v \<and> lru_pos k (lru_evict lim es) = lru_pos k es"
  using assms lru_pos_butlast [of k es] by (auto simp: lru_evict_def)

lemma lru_add_survives:
  assumes "map_of es k = Some v" "x \<noteq> k" "lim = 0 \<or> int (lru_pos k es) + 1 < lim"
  shows "map_of (lru_add lim x y es) k = Some v \<and> lru_pos k (lru_add lim x y es) \<le> lru_pos k es + 1"
proof (cases "x \<in> fst ` set es")
  case True
  then show ?thesis using assms lru_pos_drop_le [of x k es]
    by (auto simp: lru_add_def map_of_lru_drop lru_pos_Cons)
next
  case False
  then show ?thesis using assms lru_evict_survives [of "(x, y) # es" k v lim]
    by (auto simp: lru_add_def lru_pos_Cons)
qed

lemma lru_touch_survives:
  assumes "map_of es k = Some v"
  shows "map_of (lru_touch x es) k = Some v \<and> lru_pos k (lru_touch x es) \<le> lru_pos k es + 1"
  using assms lru_pos_drop_le [of x k es]
  by (cases "x = k") (auto simp: lru_touch_def map_of_lru_drop lru_pos_Cons split: option.splits)

lemma lru_pos_add_same: "0 \<le> lim \<Longrightarrow> lru_pos k (lru_add lim k v es) = 0"
  by (cases es) (auto simp: lru_add_def lru_evict_def lru_pos_Cons)

lemma lru_pos_touch_same: "map_of es k = Some v \<Longrightarrow> lru_pos k (lru_touch k es) = 0"
  by (simp add: lru_touch_def lru_pos_Cons)

lemmas lru_survives = lru_add_survives lru_touch_survives

subsection \<open>The interface\<close>

text \<open>
  \<open>entries\<close> is the abstraction to the specification; an operation that panics returns \<open>None\<close>, so
  each law also says that the operation does not panic on a well-formed cache.
\<close>

locale lru_cache =
  fixes new :: "int \<Rightarrow> 'c"
    and add :: "'k \<Rightarrow> 'v \<Rightarrow> 'c \<Rightarrow> 'c option"
    and get :: "'k \<Rightarrow> 'c \<Rightarrow> ('v option \<times> 'c) option"
    and remove :: "'k \<Rightarrow> 'c \<Rightarrow> 'c option"
    and remove_oldest :: "'c \<Rightarrow> 'c option"
    and len :: "'c \<Rightarrow> nat"
    and limit :: "'c \<Rightarrow> int"
    and entries :: "'c \<Rightarrow> ('k \<times> 'v) list"
    and invar :: "'c \<Rightarrow> bool"
  assumes new_law: "invar (new n)" "limit (new n) = n" "entries (new n) = []"
    and distinct_law: "invar c \<Longrightarrow> distinct (map fst (entries c))"
    and len_law: "invar c \<Longrightarrow> len c = length (entries c)"
    and add_law: "invar c \<Longrightarrow> \<exists>c'. add k v c = Some c' \<and> invar c' \<and> limit c' = limit c \<and>
      entries c' = lru_add (limit c) k v (entries c)"
    and get_law: "invar c \<Longrightarrow> \<exists>c'. get k c = Some (map_of (entries c) k, c') \<and> invar c' \<and>
      limit c' = limit c \<and> entries c' = lru_touch k (entries c)"
    and remove_law: "invar c \<Longrightarrow> \<exists>c'. remove k c = Some c' \<and> invar c' \<and> limit c' = limit c \<and>
      entries c' = lru_drop k (entries c)"
    and remove_oldest_law: "invar c \<Longrightarrow> \<exists>c'. remove_oldest c = Some c' \<and> invar c' \<and>
      limit c' = limit c \<and> entries c' = butlast (entries c)"
begin

text \<open>A bounded cache stays within its bound.\<close>

definition bounded :: "'c \<Rightarrow> bool" where
  "bounded c \<longleftrightarrow> (0 < limit c \<longrightarrow> int (length (entries c)) \<le> limit c)"

lemma bounded_new: "bounded (new n)"
  by (simp add: bounded_def new_law)

lemma bounded_add: "invar c \<Longrightarrow> bounded c \<Longrightarrow> add k v c = Some c' \<Longrightarrow> bounded c'"
  using add_law [of c k v] by (auto simp: bounded_def length_lru_add)

lemma bounded_get: "invar c \<Longrightarrow> bounded c \<Longrightarrow> get k c = Some (r, c') \<Longrightarrow> bounded c'"
  using get_law [of c k] length_lru_touch [of k "entries c"] by (auto simp: bounded_def)

lemma get_after_add:
  assumes "invar c" "0 \<le> limit c" "add k v c = Some c'"
  shows "\<exists>c''. get k c' = Some (Some v, c'')"
  using add_law [of c k v] get_law [of c' k] assms by (auto simp: map_of_lru_add_same)

lemma get_after_remove:
  assumes "invar c" "remove k c = Some c'"
  shows "\<exists>c''. get k c' = Some (None, c'')"
  using remove_law [of c k] get_law [of c' k] assms by (auto simp: map_of_lru_drop)

text \<open>An entry survives until \<open>limit\<close> operations on other keys have passed it.\<close>

lemma add_survives:
  assumes "invar c" "map_of (entries c) k = Some v" "x \<noteq> k"
    and "limit c = 0 \<or> int (lru_pos k (entries c)) + 1 < limit c" "add x y c = Some c'"
  shows "map_of (entries c') k = Some v \<and> lru_pos k (entries c') \<le> lru_pos k (entries c) + 1"
  using add_law [of c x y] lru_add_survives [of "entries c" k v x "limit c" y] assms by auto

lemma get_survives:
  assumes "invar c" "map_of (entries c) k = Some v" "get x c = Some (r, c')"
  shows "map_of (entries c') k = Some v \<and> lru_pos k (entries c') \<le> lru_pos k (entries c) + 1"
  using get_law [of c x] lru_touch_survives [of "entries c" k v x] assms by auto

lemma size_bounded: "invar c \<Longrightarrow> bounded c \<Longrightarrow> 0 < limit c \<Longrightarrow> int (len c) \<le> limit c"
  by (simp add: bounded_def len_law)

end

end
