(* ===== verification/Flowtrack.thy ===== *)
theory Flowtrack
  imports Netip Lru_Spec
begin

section \<open>Package \<open>net/flowtrack\<close>: the LRU cache of flow tuples\<close>

text \<open>
  The cache of \<open>src/net/flowtrack/flowtrack.go\<close>: a doubly linked list (the standard library's
  \<open>container/list\<close>, modelled as the list of its elements, front first, each with its identity)
  and a Go map from tuples to list elements (modelled as an association list without duplicate
  keys, \<open>None\<close> for the nil map). Every operation updates both structures as the code does; the
  invariant says they agree, and the interpretation \<open>flow\<close> shows that the pair behaves as the
  abstract LRU cache of \<open>Lru_Spec\<close>.
\<close>

record flowtuple =
  ft_Proto :: byte
  ft_Src :: addrport
  ft_Dst :: addrport

record 'v entry =
  e_id :: nat
  e_key :: flowtuple
  e_value :: 'v

record 'v Cache =
  MaxEntries :: int
  c_ll :: "'v entry list option"
  c_m :: "(flowtuple \<times> nat) list option"
  c_nxt :: nat

definition newCache :: "int \<Rightarrow> 'v Cache" where
  "newCache n = \<lparr>MaxEntries = n, c_ll = None, c_m = None, c_nxt = 0\<rparr>"

subsection \<open>\<open>container/list\<close>\<close>

definition list_MoveToFront :: "nat \<Rightarrow> 'v entry list \<Rightarrow> 'v entry list" where
  "list_MoveToFront e l = filter (\<lambda>x. e_id x = e) l @ filter (\<lambda>x. e_id x \<noteq> e) l"

definition list_Remove :: "nat \<Rightarrow> 'v entry list \<Rightarrow> 'v entry list" where
  "list_Remove e l = filter (\<lambda>x. e_id x \<noteq> e) l"

definition elem_setValue :: "nat \<Rightarrow> 'v \<Rightarrow> 'v entry list \<Rightarrow> 'v entry list" where
  "elem_setValue e v l = map (\<lambda>x. if e_id x = e then x\<lparr>e_value := v\<rparr> else x) l"

definition elem_at :: "nat \<Rightarrow> 'v entry list \<Rightarrow> 'v entry option" where
  "elem_at e l = find (\<lambda>x. e_id x = e) l"

subsection \<open>The operations\<close>

definition Cache_lookup :: "'v Cache \<Rightarrow> flowtuple \<Rightarrow> nat option" where
  "Cache_lookup c key = (case c_m c of None \<Rightarrow> None | Some m \<Rightarrow> map_of m key)"

definition Cache_Len :: "'v Cache \<Rightarrow> nat" where
  "Cache_Len c = (case c_m c of None \<Rightarrow> 0 | Some m \<Rightarrow> length m)"

definition Cache_removeElement :: "nat \<Rightarrow> 'v Cache \<Rightarrow> 'v Cache option" where
  "Cache_removeElement e c = do {
     l \<leftarrow> c_ll c;
     x \<leftarrow> elem_at e l;
     Some (c\<lparr>c_ll := Some (list_Remove e l), c_m := map_option (AList.delete (e_key x)) (c_m c)\<rparr>) }"

definition Cache_RemoveOldest :: "'v Cache \<Rightarrow> 'v Cache option" where
  "Cache_RemoveOldest c =
     (case c_ll c of
        None \<Rightarrow> Some c
      | Some l \<Rightarrow> (if l = [] then Some c else Cache_removeElement (e_id (last l)) c))"

definition Cache_Add :: "flowtuple \<Rightarrow> 'v \<Rightarrow> 'v Cache \<Rightarrow> 'v Cache option" where
  "Cache_Add key value c0 = do {
     let c = (if c_m c0 = None then c0\<lparr>c_m := Some [], c_ll := Some []\<rparr> else c0);
     l \<leftarrow> c_ll c;
     m \<leftarrow> c_m c;
     (case map_of m key of
        Some ee \<Rightarrow> Some (c\<lparr>c_ll := Some (elem_setValue ee value (list_MoveToFront ee l))\<rparr>)
      | None \<Rightarrow>
          let ele = \<lparr>e_id = c_nxt c, e_key = key, e_value = value\<rparr>;
              c' = c\<lparr>c_ll := Some (ele # l), c_m := Some (AList.update key (c_nxt c) m),
                     c_nxt := c_nxt c + 1\<rparr>
          in if MaxEntries c' \<noteq> 0 \<and> MaxEntries c' < int (Cache_Len c')
             then Cache_RemoveOldest c' else Some c') }"

definition Cache_Get :: "flowtuple \<Rightarrow> 'v Cache \<Rightarrow> ('v option \<times> 'v Cache) option" where
  "Cache_Get key c =
     (case Cache_lookup c key of
        None \<Rightarrow> Some (None, c)
      | Some ele \<Rightarrow> do {
          l \<leftarrow> c_ll c;
          x \<leftarrow> elem_at ele l;
          Some (Some (e_value x), c\<lparr>c_ll := Some (list_MoveToFront ele l)\<rparr>) })"

definition Cache_Remove :: "flowtuple \<Rightarrow> 'v Cache \<Rightarrow> 'v Cache option" where
  "Cache_Remove key c =
     (case Cache_lookup c key of None \<Rightarrow> Some c | Some ele \<Rightarrow> Cache_removeElement ele c)"

subsection \<open>The invariant and the abstraction\<close>

definition Cache_entries :: "'v Cache \<Rightarrow> (flowtuple \<times> 'v) list" where
  "Cache_entries c = (case c_ll c of None \<Rightarrow> [] | Some l \<Rightarrow> map (\<lambda>x. (e_key x, e_value x)) l)"

definition agree :: "'v entry list \<Rightarrow> (flowtuple \<times> nat) list \<Rightarrow> bool" where
  "agree l m \<longleftrightarrow> distinct (map e_id l) \<and> distinct (map e_key l) \<and> distinct (map fst m) \<and>
     set m = (\<lambda>x. (e_key x, e_id x)) ` set l"

definition Cache_inv :: "'v Cache \<Rightarrow> bool" where
  "Cache_inv c \<longleftrightarrow>
     (case (c_ll c, c_m c) of
        (None, None) \<Rightarrow> True
      | (Some l, Some m) \<Rightarrow> agree l m \<and> (\<forall>x\<in>set l. e_id x < c_nxt c)
      | _ \<Rightarrow> False)"

lemma agree_length: "agree l m \<Longrightarrow> length m = length l"
proof -
  assume a: "agree l m"
  then have "inj_on (\<lambda>x. (e_key x, e_id x)) (set l)" "distinct l" "distinct m"
    by (auto simp: agree_def distinct_map inj_on_def)
  then have "card (set m) = card (set l)"
    using a by (simp add: agree_def card_image)
  with \<open>distinct l\<close> \<open>distinct m\<close> show ?thesis by (simp add: distinct_card)
qed

lemma agree_map_of: "agree l m \<Longrightarrow> map_of m k = Some e \<longleftrightarrow> (\<exists>x\<in>set l. e_key x = k \<and> e_id x = e)"
  by (auto simp: agree_def)

lemma agree_map_of_None: "agree l m \<Longrightarrow> map_of m k = None \<longleftrightarrow> k \<notin> e_key ` set l"
  by (auto simp: agree_def map_of_eq_None_iff image_image)

lemma agree_id_key: "agree l m \<Longrightarrow> x \<in> set l \<Longrightarrow> y \<in> set l \<Longrightarrow> e_id x = e_id y \<longleftrightarrow> e_key x = e_key y"
  by (auto simp: agree_def distinct_map inj_on_def)

lemma agree_elem_at: "agree l m \<Longrightarrow> x \<in> set l \<Longrightarrow> elem_at (e_id x) l = Some x"
  unfolding elem_at_def agree_def by (blast intro: find_distinct_map)

lemma agree_Cons:
  assumes "agree l m" "key \<notin> e_key ` set l" "\<forall>x\<in>set l. e_id x < n"
  shows "agree (\<lparr>e_id = n, e_key = key, e_value = v\<rparr> # l) (AList.update key n m)"
  using assms agree_map_of_None [OF assms(1), of key]
  by (auto simp: agree_def AList_update_notin map_of_eq_None_iff)

lemma agree_remove:
  assumes "agree l m" "x \<in> set l"
  shows "agree (list_Remove (e_id x) l) (AList.delete (e_key x) m)"
  using assms agree_id_key [OF assms(1)]
  by (auto simp: agree_def list_Remove_def AList.delete_eq distinct_map_filter)

lemma list_MoveToFront_eq:
  assumes "agree l m" "x \<in> set l"
  shows "list_MoveToFront (e_id x) l = x # list_Remove (e_id x) l"
proof -
  have "distinct l" "\<forall>y\<in>set l. e_id y = e_id x \<longleftrightarrow> y = x"
    using assms by (auto simp: agree_def distinct_map inj_on_def)
  then have "filter (\<lambda>y. e_id y = e_id x) l = filter (\<lambda>y. y = x) l"
    by (intro filter_cong) auto
  also have "\<dots> = [x]"
    using \<open>distinct l\<close> assms(2) by (induction l) (auto simp: filter_empty_conv)
  finally show ?thesis by (simp add: list_MoveToFront_def list_Remove_def)
qed

lemma agree_move_to_front:
  assumes "agree l m" "x \<in> set l"
  shows "agree (x # list_Remove (e_id x) l) m"
  using assms agree_id_key [OF assms(1)]
  by (auto simp: agree_def list_Remove_def distinct_map_filter)

lemma map_list_Remove:
  assumes "agree l m" "x \<in> set l"
  shows "map (\<lambda>y. (e_key y, e_value y)) (list_Remove (e_id x) l) =
    lru_drop (e_key x) (map (\<lambda>y. (e_key y, e_value y)) l)"
proof -
  have "\<forall>y\<in>set l. (e_id y \<noteq> e_id x) = (e_key y \<noteq> e_key x)"
    using agree_id_key [OF assms(1)] assms(2) by blast
  then show ?thesis
    unfolding list_Remove_def lru_drop_def by (induction l) auto
qed

subsection \<open>Each operation against the specification\<close>

lemma Cache_inv_cases:
  assumes "Cache_inv c"
  obtains (nil) "c_ll c = None" "c_m c = None"
  | (init) l m where "c_ll c = Some l" "c_m c = Some m" "agree l m" "\<forall>x\<in>set l. e_id x < c_nxt c"
  using assms by (auto simp: Cache_inv_def split: option.splits)

lemma Cache_removeElement_law:
  assumes "c_ll c = Some l" "c_m c = Some m" "agree l m" "\<forall>x\<in>set l. e_id x < c_nxt c" "x \<in> set l"
  shows "\<exists>c'. Cache_removeElement (e_id x) c = Some c' \<and> Cache_inv c' \<and> MaxEntries c' = MaxEntries c \<and>
    Cache_entries c' = lru_drop (e_key x) (Cache_entries c)"
  using assms agree_elem_at [OF assms(3,5)] agree_remove [OF assms(3,5)] map_list_Remove [OF assms(3,5)]
  by (auto simp: Cache_removeElement_def Cache_inv_def Cache_entries_def list_Remove_def)

lemma Cache_entries_distinct: "Cache_inv c \<Longrightarrow> distinct (map fst (Cache_entries c))"
  by (auto simp: Cache_inv_def Cache_entries_def agree_def comp_def split: option.splits)

lemma Cache_RemoveOldest_law:
  assumes "Cache_inv c"
  shows "\<exists>c'. Cache_RemoveOldest c = Some c' \<and> Cache_inv c' \<and> MaxEntries c' = MaxEntries c \<and>
    Cache_entries c' = butlast (Cache_entries c)"
  using assms
proof (cases rule: Cache_inv_cases)
  case nil
  with assms show ?thesis by (simp add: Cache_RemoveOldest_def Cache_entries_def)
next
  case (init l m)
  show ?thesis
  proof (cases "l = []")
    case True
    with init assms show ?thesis by (simp add: Cache_RemoveOldest_def Cache_entries_def)
  next
    case False
    then have "lru_drop (e_key (last l)) (Cache_entries c) = butlast (Cache_entries c)"
      using lru_drop_last [OF Cache_entries_distinct [OF assms]] init(1)
      by (simp add: Cache_entries_def last_map)
    with Cache_removeElement_law [OF init, of "last l"] False init(1) show ?thesis
      by (simp add: Cache_RemoveOldest_def)
  qed
qed

lemma Cache_Len_law: "Cache_inv c \<Longrightarrow> Cache_Len c = length (Cache_entries c)"
  by (auto simp: Cache_inv_def Cache_Len_def Cache_entries_def agree_length split: option.splits)

lemma Cache_lookup_None:
  "Cache_inv c \<Longrightarrow> Cache_lookup c k = None \<longleftrightarrow> k \<notin> fst ` set (Cache_entries c)"
  by (auto simp: Cache_inv_def Cache_lookup_def Cache_entries_def agree_map_of_None image_image
      split: option.splits)

lemma Cache_lookup_Some:
  assumes "Cache_inv c" "Cache_lookup c k = Some e"
  obtains l m x where "c_ll c = Some l" "c_m c = Some m" "agree l m" "\<forall>y\<in>set l. e_id y < c_nxt c"
    "x \<in> set l" "e_key x = k" "e_id x = e" "map_of (Cache_entries c) k = Some (e_value x)"
proof -
  from assms(1) show thesis
  proof (cases rule: Cache_inv_cases)
    case nil
    then show thesis using assms(2) by (simp add: Cache_lookup_def)
  next
    case (init l m)
    then obtain x where x: "x \<in> set l" "e_key x = k" "e_id x = e"
      using assms(2) agree_map_of [OF init(3)] by (auto simp: Cache_lookup_def)
    have "map_of (Cache_entries c) k = Some (e_value x)"
      by (rule map_of_is_SomeI) (use Cache_entries_distinct [OF assms(1)] init(1) x in
        \<open>auto simp: Cache_entries_def\<close>)
    with init x that show thesis by blast
  qed
qed

lemma Cache_Get_law:
  assumes "Cache_inv c"
  shows "\<exists>c'. Cache_Get k c = Some (map_of (Cache_entries c) k, c') \<and> Cache_inv c' \<and>
    MaxEntries c' = MaxEntries c \<and> Cache_entries c' = lru_touch k (Cache_entries c)"
proof (cases "Cache_lookup c k")
  case None
  then have "map_of (Cache_entries c) k = None"
    using Cache_lookup_None [OF assms, of k] by (simp add: map_of_eq_None_iff)
  with None assms show ?thesis by (simp add: Cache_Get_def lru_touch_def)
next
  case (Some e)
  from Cache_lookup_Some [OF assms Some] show ?thesis
  proof cases
    case (1 l m x)
    then show ?thesis
      using Some agree_elem_at [OF 1(3,5)] list_MoveToFront_eq [OF 1(3,5)]
        agree_move_to_front [OF 1(3,5)] map_list_Remove [OF 1(3,5)]
      by (auto simp: Cache_Get_def Cache_inv_def lru_touch_def Cache_entries_def list_Remove_def)
  qed
qed

lemma Cache_Remove_law:
  assumes "Cache_inv c"
  shows "\<exists>c'. Cache_Remove k c = Some c' \<and> Cache_inv c' \<and> MaxEntries c' = MaxEntries c \<and>
    Cache_entries c' = lru_drop k (Cache_entries c)"
proof (cases "Cache_lookup c k")
  case None
  with assms show ?thesis
    using Cache_lookup_None [OF assms, of k] by (simp add: Cache_Remove_def lru_drop_notin)
next
  case (Some e)
  from Cache_lookup_Some [OF assms Some] show ?thesis
  proof cases
    case (1 l m x)
    then show ?thesis using Some Cache_removeElement_law [OF 1(1-5)]
      by (simp add: Cache_Remove_def)
  qed
qed

text \<open>\<open>Add\<close> creates the two structures on the first call; \<open>Cache_init\<close> is that first step.\<close>

definition Cache_init :: "'v Cache \<Rightarrow> 'v Cache" where
  "Cache_init c = (if c_m c = None then c\<lparr>c_m := Some [], c_ll := Some []\<rparr> else c)"

lemma Cache_init_inv:
  assumes "Cache_inv c"
  obtains l m where "c_ll (Cache_init c) = Some l" "c_m (Cache_init c) = Some m" "agree l m"
    "\<forall>x\<in>set l. e_id x < c_nxt (Cache_init c)" "Cache_inv (Cache_init c)"
    "Cache_entries (Cache_init c) = Cache_entries c" "MaxEntries (Cache_init c) = MaxEntries c"
proof -
  from assms show thesis
  proof (cases rule: Cache_inv_cases)
    case nil
    then show thesis
      by (intro that [of "[]" "[]"]) (simp_all add: Cache_init_def Cache_inv_def agree_def Cache_entries_def)
  next
    case (init l m)
    with assms show thesis by (intro that [of l m]) (simp_all add: Cache_init_def)
  qed
qed

lemma elem_setValue_Cons:
  "\<forall>y\<in>set l. e_id y \<noteq> e_id x \<Longrightarrow> elem_setValue (e_id x) v (x # l) = x\<lparr>e_value := v\<rparr> # l"
  unfolding elem_setValue_def by (induction l) auto

lemma agree_set_value: "agree (x # l) m \<Longrightarrow> agree (x\<lparr>e_value := v\<rparr> # l) m"
  by (simp add: agree_def)

lemma Cache_Add_law:
  assumes "Cache_inv c"
  shows "\<exists>c'. Cache_Add k v c = Some c' \<and> Cache_inv c' \<and> MaxEntries c' = MaxEntries c \<and>
    Cache_entries c' = lru_add (MaxEntries c) k v (Cache_entries c)"
proof -
  from assms obtain l m where i: "c_ll (Cache_init c) = Some l" "c_m (Cache_init c) = Some m" "agree l m"
    "\<forall>x\<in>set l. e_id x < c_nxt (Cache_init c)" and inv: "Cache_inv (Cache_init c)"
    and ent: "Cache_entries (Cache_init c) = Cache_entries c" and lim: "MaxEntries (Cache_init c) = MaxEntries c"
    by (rule Cache_init_inv)
  have ents: "Cache_entries c = map (\<lambda>y. (e_key y, e_value y)) l"
    unfolding ent [symmetric] using i(1) by (simp add: Cache_entries_def)
  let ?d = "Cache_init c"
  show ?thesis
  proof (cases "map_of m k")
    case (Some e)
    then obtain x where x: "x \<in> set l" "e_key x = k" "e_id x = e"
      using agree_map_of [OF i(3)] by auto
    have "k \<in> fst ` set (Cache_entries c)"
      using x by (force simp: ents)
    moreover have "elem_setValue e v (list_MoveToFront e l) = x\<lparr>e_value := v\<rparr> # list_Remove e l"
      using list_MoveToFront_eq [OF i(3) x(1)] x(3) elem_setValue_Cons [of "list_Remove e l" x v]
      by (auto simp: list_Remove_def)
    moreover have "agree (x\<lparr>e_value := v\<rparr> # list_Remove e l) m"
      using agree_move_to_front [OF i(3) x(1)] x(3) by (simp add: agree_set_value)
    ultimately show ?thesis
      using Some x i lim map_list_Remove [OF i(3) x(1)]
      by (auto simp: Cache_Add_def Cache_init_def [symmetric] Let_def Cache_inv_def lru_add_def
          ents Cache_entries_def [of "_\<lparr>c_ll := _\<rparr>"] list_Remove_def)
  next
    case None
    then have notin: "k \<notin> e_key ` set l" using agree_map_of_None [OF i(3)] by blast
    define d where "d = ?d\<lparr>c_ll := Some (\<lparr>e_id = c_nxt ?d, e_key = k, e_value = v\<rparr> # l),
      c_m := Some (AList.update k (c_nxt ?d) m), c_nxt := c_nxt ?d + 1\<rparr>"
    have inv': "Cache_inv d"
      using agree_Cons [OF i(3) notin i(4)] i(4) by (auto simp: d_def Cache_inv_def)
    have ent': "Cache_entries d = (k, v) # Cache_entries c"
      unfolding ents d_def by (simp add: Cache_entries_def)
    have lim': "MaxEntries d = MaxEntries c" by (simp add: d_def lim)
    have kc: "k \<notin> fst ` set (Cache_entries c)"
      using notin by (force simp: ents)
    have "Cache_Add k v c =
        (if MaxEntries d \<noteq> 0 \<and> MaxEntries d < int (Cache_Len d) then Cache_RemoveOldest d else Some d)"
      using None i by (simp add: Cache_Add_def Cache_init_def [symmetric] Let_def d_def)
    then show ?thesis
      using Cache_RemoveOldest_law [OF inv'] inv' kc
      by (auto simp: lru_add_def lru_evict_def Cache_Len_law [OF inv'] ent' lim')
  qed
qed

interpretation flow: lru_cache newCache Cache_Add Cache_Get Cache_Remove Cache_RemoveOldest
  Cache_Len MaxEntries Cache_entries Cache_inv
  by unfold_locales
    (simp_all add: Cache_Add_law Cache_Get_law Cache_Remove_law Cache_RemoveOldest_law
      Cache_entries_distinct Cache_Len_law,
     simp_all add: newCache_def Cache_inv_def Cache_entries_def)

end
