(* ===== verification/Packet_Tsmp.thy ===== *)
theory Packet_Tsmp
  imports Packet_Headers Flowtrack
begin

unbundle bit_operations_syntax

section \<open>Package \<open>net/packet\<close>: TSMP messages\<close>

text \<open>
  \<open>src/net/packet/tsmp.go\<close>: the rejected-connection message and the ping/pong messages of the
  Tailscale Message Protocol, IP protocol 99. The parsers read the payload of a decoded packet
  (\<open>None\<close> is a panic in \<open>Payload\<close>, \<open>Some None\<close> the result \<open>ok = false\<close>).
\<close>

record TailscaleRejectedHeader =
  rj_IPSrc :: addr
  rj_IPDst :: addr
  rj_Src :: addrport
  rj_Dst :: addrport
  rj_Proto :: byte
  rj_Reason :: byte
  rj_MaybeBroken :: bool

definition rejectFlagBitMaybeBroken :: byte where [simp]: "rejectFlagBitMaybeBroken = 0x1"

definition TSMPTypeRejectedConn :: byte where [simp]: "TSMPTypeRejectedConn = 0x21"
definition TSMPTypePing :: byte where [simp]: "TSMPTypePing = 0x70"
definition TSMPTypePong :: byte where [simp]: "TSMPTypePong = 0x6f"

definition rj_Flow :: "TailscaleRejectedHeader \<Rightarrow> flowtuple" where
  "rj_Flow rh = \<lparr>ft_Proto = rj_Proto rh, ft_Src = rj_Src rh, ft_Dst = rj_Dst rh\<rparr>"

definition rj_hasFlags :: "TailscaleRejectedHeader \<Rightarrow> bool" where
  "rj_hasFlags h = rj_MaybeBroken h"

definition Rejected_Len :: "TailscaleRejectedHeader \<Rightarrow> nat" where
  "Rejected_Len h =
     1 + 1 + 1 + 2 * 2 +
     (if Is4 (rj_IPSrc h) then ip4HeaderLength else if Is6 (rj_IPSrc h) then ip6HeaderLength else 0) +
     (if rj_hasFlags h then 1 else 0)"

text \<open>The body, written at \<open>o\<close>, the length of the IP header: \<open>buf\<close> is re-sliced by the code.\<close>

definition Rejected_body :: "TailscaleRejectedHeader \<Rightarrow> bytes \<Rightarrow> nat \<Rightarrow> bytes option" where
  "Rejected_body h b ofs = do {
     sub \<leftarrow> slice_from b ofs;
     sub \<leftarrow> wr sub 0 TSMPTypeRejectedConn;
     sub \<leftarrow> wr sub 1 (rj_Proto h);
     sub \<leftarrow> wr sub 2 (rj_Reason h);
     sub \<leftarrow> wr16 sub 3 (ap_port (rj_Src h));
     sub \<leftarrow> wr16 sub 5 (ap_port (rj_Dst h));
     sub \<leftarrow> (if rj_hasFlags h
             then wr sub 7 (if rj_MaybeBroken h then 0 OR rejectFlagBitMaybeBroken else 0)
             else Some sub);
     Some (take ofs b @ sub) }"

definition Rejected_Marshal :: "TailscaleRejectedHeader \<Rightarrow> bytes \<Rightarrow> marshal_res" where
  "Rejected_Marshal h buf =
     (if length buf < Rejected_Len h then Some (Inl errSmallBuffer)
      else if length buf > maxPacketLength then Some (Inl errLargePacket)
      else if Is4 (ap_addr (rj_Src h)) then do {
        b \<leftarrow> ignore_err buf (IP4Header_Marshal
               \<lparr>ip4_IPProto = TSMP, ip4_IPID = 0, ip4_Src = rj_IPSrc h, ip4_Dst = rj_IPDst h\<rparr> buf);
        b \<leftarrow> Rejected_body h b ip4HeaderLength;
        Some (Inr b) }
      else if Is6 (ap_addr (rj_Src h)) then do {
        b \<leftarrow> ignore_err buf (IP6Header_Marshal
               \<lparr>ip6_IPProto = TSMP, ip6_IPID = 0, ip6_Src = rj_IPSrc h, ip6_Dst = rj_IPDst h\<rparr> buf);
        b \<leftarrow> Rejected_body h b ip6HeaderLength;
        Some (Inr b) }
      else Some (Inl errBogusSrc))"

definition AsTailscaleRejectedHeader :: "Parsed \<Rightarrow> TailscaleRejectedHeader option option" where
  "AsTailscaleRejectedHeader pp = do {
     p \<leftarrow> Payload pp;
     if length p < 7 \<or> p ! 0 \<noteq> TSMPTypeRejectedConn then Some None
     else do {
       proto \<leftarrow> rd p 1;
       reason \<leftarrow> rd p 2;
       sp \<leftarrow> rd16 p 3;
       dp \<leftarrow> rd16 p 5;
       flags \<leftarrow> (if length p > 7 then rd p 7 else Some 0);
       Some (Some \<lparr>rj_IPSrc = ap_addr (Src pp), rj_IPDst = ap_addr (Dst pp),
                   rj_Src = AddrPortFrom (ap_addr (Dst pp)) sp,
                   rj_Dst = AddrPortFrom (ap_addr (Src pp)) dp,
                   rj_Proto = proto, rj_Reason = reason,
                   rj_MaybeBroken = (length p > 7 \<and> flags AND rejectFlagBitMaybeBroken \<noteq> 0)\<rparr>) } }"

subsection \<open>Ping and pong\<close>

definition AsTSMPPing :: "Parsed \<Rightarrow> bytes option option" where
  "AsTSMPPing pp =
     (if IPProto pp \<noteq> TSMP then Some None
      else do {
        p \<leftarrow> Payload pp;
        if length p < 9 \<or> p ! 0 \<noteq> TSMPTypePing then Some None
        else Some (Some (take 8 (drop 1 p))) })"

record TSMPPongReply =
  pong_IPHeader :: Header
  pong_Data :: bytes
  pong_PeerAPIPort :: u16

text \<open>The parser leaves \<open>IPHeader\<close> nil; its result is the data and the port.\<close>

definition AsTSMPPong :: "Parsed \<Rightarrow> (bytes \<times> u16) option option" where
  "AsTSMPPong pp =
     (if IPProto pp \<noteq> TSMP then Some None
      else do {
        p \<leftarrow> Payload pp;
        if length p < 9 \<or> p ! 0 \<noteq> TSMPTypePong then Some None
        else do {
          port \<leftarrow> (if length p \<ge> 11 then rd16 p 9 else Some 0);
          Some (Some (take 8 (drop 1 p), port)) } })"

definition TSMPPongReply_Len :: "TSMPPongReply \<Rightarrow> nat" where
  "TSMPPongReply_Len h = Header_Len (pong_IPHeader h) + 11"

text \<open>\<open>Data\<close> is an array of eight bytes.\<close>

definition TSMPPongReply_Marshal :: "TSMPPongReply \<Rightarrow> bytes \<Rightarrow> marshal_res" where
  "TSMPPongReply_Marshal h buf =
     (if length buf < TSMPPongReply_Len h then Some (Inl errSmallBuffer)
      else do {
        r \<leftarrow> Header_Marshal (pong_IPHeader h) buf;
        (case r of Inl e \<Rightarrow> Some (Inl e)
         | Inr b \<Rightarrow> do {
             let n = Header_Len (pong_IPHeader h);
             sub \<leftarrow> slice_from b n;
             sub \<leftarrow> wr sub 0 TSMPTypePong;
             let sub = copy_at sub 1 (pong_Data h);
             sub \<leftarrow> wr16 sub 9 (pong_PeerAPIPort h);
             Some (Inr (take n b @ sub)) }) })"

subsection \<open>Round trips\<close>

definition rj_body :: "TailscaleRejectedHeader \<Rightarrow> bytes" where
  "rj_body h = [TSMPTypeRejectedConn, rj_Proto h, rj_Reason h, be16_hi (ap_port (rj_Src h)), be16_lo (ap_port (rj_Src h)),
     be16_hi (ap_port (rj_Dst h)), be16_lo (ap_port (rj_Dst h))] @ (if rj_MaybeBroken h then [1] else [])"

lemma Rejected_body_eq:
  assumes "length x = ofs" "length r = length (rj_body h)"
  shows "Rejected_body h (x @ r) ofs = Some (x @ rj_body h)"
proof -
  obtain r0 r1 r2 r3 r4 r5 r6 r7 where "r = [r0, r1, r2, r3, r4, r5, r6] @ r7"
    and "length r7 = (if rj_MaybeBroken h then 1 else 0)"
    using assms(2) buffer_split [of 7 r]
    by (auto simp: rj_body_def numeral_eq_Suc length_Suc_conv split: if_splits)
  then show ?thesis using assms(1)
    by (auto simp: Rejected_body_def rj_body_def rj_hasFlags_def slice_simps length_Suc_conv)
qed

definition rj_consistent4 :: "TailscaleRejectedHeader \<Rightarrow> bool" where
  "rj_consistent4 h \<longleftrightarrow> Is4 (rj_IPSrc h) \<and> Is4 (rj_IPDst h) \<and>
     ap_addr (rj_Src h) = rj_IPDst h \<and> ap_addr (rj_Dst h) = rj_IPSrc h"

definition rj_consistent6 :: "TailscaleRejectedHeader \<Rightarrow> bool" where
  "rj_consistent6 h \<longleftrightarrow> Is6 (rj_IPSrc h) \<and> Is6 (rj_IPDst h) \<and>
     \<not> hasZone (rj_IPSrc h) \<and> \<not> hasZone (rj_IPDst h) \<and>
     ap_addr (rj_Src h) = rj_IPDst h \<and> ap_addr (rj_Dst h) = rj_IPSrc h"

lemma AsRejected_body:
  assumes "Payload pp = Some (rj_body h)" "ap_addr (Src pp) = rj_IPSrc h" "ap_addr (Dst pp) = rj_IPDst h"
    and "ap_addr (rj_Src h) = rj_IPDst h" "ap_addr (rj_Dst h) = rj_IPSrc h"
  shows "AsTailscaleRejectedHeader pp = Some (Some h)"
  using assms
  by (cases h; cases "rj_Src h"; cases "rj_Dst h")
    (auto simp: AsTailscaleRejectedHeader_def rj_body_def slice_simps AddrPortFrom_def)

lemma Rejected_roundtrip4:
  assumes "rj_consistent4 h" "length buf = Rejected_Len h"
  shows "\<exists>b pp. Rejected_Marshal h buf = Some (Inr b) \<and> length b = length buf \<and> Decode q b = Some pp \<and> IPProto pp = TSMP \<and>
    AsTailscaleRejectedHeader pp = Some (Some h)"
proof -
  let ?ip = "\<lparr>ip4_IPProto = TSMP, ip4_IPID = 0, ip4_Src = rj_IPSrc h, ip4_Dst = rj_IPDst h\<rparr>"
  have ok: "ip4_ok ?ip" using assms(1) by (simp add: ip4_ok_def rj_consistent4_def)
  have len: "length buf = 20 + length (rj_body h)"
    using assms by (auto simp: Rejected_Len_def rj_body_def rj_hasFlags_def rj_consistent4_def)
  have small: "length (rj_body h) \<le> 8" by (simp add: rj_body_def)
  have m: "IP4Header_Marshal ?ip buf = Some (Inr (ip4_hdr ?ip (length buf) @ drop 20 buf))"
    using len small by (intro IP4Header_Marshal_eq [OF ok]) simp_all
  have b: "Rejected_Marshal h buf = Some (Inr (ip4_hdr ?ip (20 + length (rj_body h)) @ rj_body h))"
    using assms len small m length_ip4_hdr(2) [OF ok]
    by (simp add: Rejected_Marshal_def rj_consistent4_def Rejected_body_eq)
  have "Decode q (ip4_hdr ?ip (20 + length (rj_body h)) @ rj_body h) =
      decode4_first (parsed4 q ?ip (rj_body h)) (rj_body h)"
    using small by (intro Decode_ip4_hdr [OF ok]) simp
  also have "\<dots> = Some ((parsed4 q ?ip (rj_body h))\<lparr>p_dataofs := 20\<rparr>)"
    by (simp add: decode4_first_def parsed4_def)
  finally show ?thesis using b len assms(1) length_ip4_hdr(2) [OF ok]
    by (auto simp: rj_consistent4_def intro!: AsRejected_body)
      (simp_all add: parsed4_def Payload_def slice_simps)
qed

lemma Rejected_roundtrip6:
  assumes "rj_consistent6 h" "length buf = Rejected_Len h"
  shows "\<exists>b pp. Rejected_Marshal h buf = Some (Inr b) \<and> Decode q b = Some pp \<and> IPProto pp = TSMP \<and>
    AsTailscaleRejectedHeader pp = Some (Some h)"
proof -
  let ?ip = "\<lparr>ip6_IPProto = TSMP, ip6_IPID = 0, ip6_Src = rj_IPSrc h, ip6_Dst = rj_IPDst h\<rparr>"
  have n4: "\<not> Is4 (rj_IPSrc h)" "\<not> Is4 (rj_IPDst h)" using assms(1) by (auto simp: rj_consistent6_def elim!: Is6.elims)
  have len: "length buf = 40 + length (rj_body h)"
    using assms n4 by (auto simp: Rejected_Len_def rj_body_def rj_hasFlags_def rj_consistent6_def)
  have small: "length (rj_body h) \<le> 8" by (simp add: rj_body_def)
  have m: "IP6Header_Marshal ?ip buf = Some (Inr (ip6_hdr ?ip (length (rj_body h)) @ drop 40 buf))"
    using IP6Header_Marshal_eq [of buf ?ip] len small by simp
  have l: "Rejected_Len h \<le> length buf" "length buf \<le> 65535" "length (drop 40 buf) = length (rj_body h)"
    using assms(2) len small by simp_all
  have b: "Rejected_Marshal h buf = Some (Inr (ip6_hdr ?ip (length (rj_body h)) @ rj_body h))"
    using assms(1) l m n4
    by (simp add: Rejected_Marshal_def rj_consistent6_def Rejected_body_eq del: length_drop)
  have "Decode q (ip6_hdr ?ip (length (rj_body h)) @ rj_body h) =
      decode6_sub (parsed6 q ?ip (rj_body h)) (rj_body h)"
    using small by (intro Decode_ip6_hdr) simp
  also have "\<dots> = Some ((parsed6 q ?ip (rj_body h))\<lparr>p_dataofs := 40\<rparr>)"
    by (simp add: decode6_sub_def parsed6_def)
  finally show ?thesis using b assms(1)
    by (auto simp: rj_consistent6_def intro!: AsRejected_body)
      (simp_all add: parsed6_def Payload_def slice_simps addr16_id)
qed

text \<open>
  Round trip of the rejection message: marshalling a \<open>TailscaleRejectedHeader\<close> whose flow addresses
  are the swapped IP addresses of one family into a buffer of \<open>Len()\<close> bytes, decoding the packet and
  parsing it gives the same header, the \<open>MaybeBroken\<close> flag included.
\<close>

theorem Rejected_roundtrip:
  assumes "rj_consistent4 h \<or> rj_consistent6 h" "length buf = Rejected_Len h"
  shows "\<exists>b pp. Rejected_Marshal h buf = Some (Inr b) \<and> Decode q b = Some pp \<and> IPProto pp = TSMP \<and>
    AsTailscaleRejectedHeader pp = Some (Some h)"
  using assms Rejected_roundtrip4 Rejected_roundtrip6 by blast

definition sample_reject :: TailscaleRejectedHeader where
  "sample_reject = \<lparr>rj_IPSrc = V4 1, rj_IPDst = V4 2, rj_Src = \<lparr>ap_addr = V4 2, ap_port = 80\<rparr>,
     rj_Dst = \<lparr>ap_addr = V4 1, ap_port = 81\<rparr>, rj_Proto = 6, rj_Reason = 0x41, rj_MaybeBroken = True\<rparr>"

theorem Rejected_roundtrip_witness:
  "\<exists>b pp. Rejected_Marshal sample_reject (replicate 28 0) = Some (Inr b) \<and> Decode zeroParsed b = Some pp \<and>
     IPProto pp = TSMP \<and> AsTailscaleRejectedHeader pp = Some (Some sample_reject)"
  by (rule Rejected_roundtrip) (simp_all add: sample_reject_def rj_consistent4_def Rejected_Len_def rj_hasFlags_def)

text \<open>The pong reply keeps the contract of the interface, for any IP header below it.\<close>

lemma TSMPPongReply_Marshal_eq:
  assumes "header_ok (pong_IPHeader h)" "length (pong_Data h) = 8"
    "TSMPPongReply_Len h \<le> length buf" "length buf \<le> 65535"
    and hx: "length hx = Header_Len (pong_IPHeader h)"
      "Header_Marshal (pong_IPHeader h) buf = Some (Inr (hx @ drop (Header_Len (pong_IPHeader h)) buf))"
  shows "TSMPPongReply_Marshal h buf = Some (Inr (hx @ TSMPTypePong # pong_Data h @
    [be16_hi (pong_PeerAPIPort h), be16_lo (pong_PeerAPIPort h)] @ drop (TSMPPongReply_Len h) buf))"
proof -
  let ?n = "Header_Len (pong_IPHeader h)"
  have "11 \<le> length (drop ?n buf)" using assms(3) by (simp add: TSMPPongReply_Len_def)
  then obtain x r where d: "drop ?n buf = x @ r" and x: "length x = 11" using buffer_split by blast
  obtain x0 x1 y z where x': "x = x0 # x1 @ [y, z]" and x1: "length x1 = 8"
    using x by (auto simp: numeral_eq_Suc length_Suc_conv)
  have r: "drop (TSMPPongReply_Len h) buf = r"
    using arg_cong [OF d, of "drop 11"] x by (simp add: TSMPPongReply_Len_def add.commute)
  show ?thesis using assms(2,3) hx x1
    by (simp add: TSMPPongReply_Marshal_def r slice_simps d x' copy_at_code list_update_append Let_def)
qed

interpretation pong: header TSMPPongReply_Len TSMPPongReply_Marshal
  "\<lambda>h. header_ok (pong_IPHeader h) \<and> length (pong_Data h) = 8"
proof
  fix b :: bytes and h
  show "length b < TSMPPongReply_Len h \<Longrightarrow> TSMPPongReply_Marshal h b = Some (Inl errSmallBuffer)"
    by (simp add: TSMPPongReply_Marshal_def)
  show "TSMPPongReply_Len h \<le> length b \<Longrightarrow> 65535 < length b \<Longrightarrow> TSMPPongReply_Marshal h b = Some (Inl errLargePacket)"
    using hdr.large [of "pong_IPHeader h" b] by (simp add: TSMPPongReply_Marshal_def TSMPPongReply_Len_def)
  assume a: "header_ok (pong_IPHeader h) \<and> length (pong_Data h) = 8" "TSMPPongReply_Len h \<le> length b" "length b \<le> 65535"
  then obtain hd where hd: "length hd = Header_Len (pong_IPHeader h)"
      "Header_Marshal (pong_IPHeader h) b = Some (Inr (hd @ drop (Header_Len (pong_IPHeader h)) b))"
    using hdr.fits [of "pong_IPHeader h" b] by (auto simp: TSMPPongReply_Len_def)
  let ?hd = "hd @ TSMPTypePong # pong_Data h @ [be16_hi (pong_PeerAPIPort h), be16_lo (pong_PeerAPIPort h)]"
  have "TSMPPongReply_Marshal h b = Some (Inr (?hd @ drop (TSMPPongReply_Len h) b))"
    using TSMPPongReply_Marshal_eq [of h b hd] a hd by simp
  moreover have "length ?hd = TSMPPongReply_Len h" using a(1) hd(1) by (simp add: TSMPPongReply_Len_def)
  ultimately show "\<exists>hd. length hd = TSMPPongReply_Len h \<and>
      TSMPPongReply_Marshal h b = Some (Inr (hd @ drop (TSMPPongReply_Len h) b))" by blast
qed

text \<open>
  Round trip of a pong over IPv4: a reply of exactly \<open>Len()\<close> bytes built on an \<open>IP4Header\<close> with
  protocol TSMP decodes and parses to the same eight data bytes and peer API port.
\<close>

theorem TSMPPong_roundtrip:
  assumes "Is4 (ip4_Src ip)" "Is4 (ip4_Dst ip)" "ip4_IPProto ip = TSMP" "length data = 8"
    and "h = \<lparr>pong_IPHeader = H_IP4 ip, pong_Data = data, pong_PeerAPIPort = port\<rparr>"
    and "length buf = TSMPPongReply_Len h"
  shows "\<exists>b pp. TSMPPongReply_Marshal h buf = Some (Inr b) \<and> length b = length buf \<and> Decode q b = Some pp \<and>
    ap_addr (Src pp) = ip4_Src ip \<and> ap_addr (Dst pp) = ip4_Dst ip \<and>
    AsTSMPPong pp = Some (Some (data, port)) \<and> AsTSMPPing pp = Some None"
proof -
  have ok: "ip4_ok ip" using assms(1,2) by (simp add: ip4_ok_def)
  let ?r = "TSMPTypePong # data @ [be16_hi port, be16_lo port]"
  have len: "length buf = 31" using assms by (simp add: TSMPPongReply_Len_def IP4Header_Len_def)
  have "IP4Header_Marshal ip buf = Some (Inr (ip4_hdr ip 31 @ drop 20 buf))"
    using IP4Header_Marshal_eq [OF ok, of buf] len by simp
  then have m: "TSMPPongReply_Marshal h buf = Some (Inr (ip4_hdr ip (20 + length ?r) @ ?r))"
    using TSMPPongReply_Marshal_eq [of h buf "ip4_hdr ip 31"] assms len length_ip4_hdr(2) [OF ok, of 31] ok
    by (simp add: TSMPPongReply_Len_def IP4Header_Len_def)
  have "Decode q (ip4_hdr ip (20 + length ?r) @ ?r) = decode4_first (parsed4 q ip ?r) ?r"
    using assms(4) by (intro Decode_ip4_hdr [OF ok]) simp
  also have "\<dots> = Some ((parsed4 q ip ?r)\<lparr>p_dataofs := 20\<rparr>)"
    by (simp add: decode4_first_def parsed4_def assms(3))
  finally have d: "Decode q (ip4_hdr ip (20 + length ?r) @ ?r) = Some ((parsed4 q ip ?r)\<lparr>p_dataofs := 20\<rparr>)" .
  have "Payload ((parsed4 q ip ?r)\<lparr>p_dataofs := 20\<rparr>) = Some ?r"
    using length_ip4_hdr(2) [OF ok] by (simp add: parsed4_def Payload_def slice_simps)
  then have "AsTSMPPong ((parsed4 q ip ?r)\<lparr>p_dataofs := 20\<rparr>) = Some (Some (data, port))"
    "AsTSMPPing ((parsed4 q ip ?r)\<lparr>p_dataofs := 20\<rparr>) = Some None"
    using assms(3,4) by (simp_all add: AsTSMPPong_def AsTSMPPing_def parsed4_def slice_simps nth_append)
  moreover have "ap_addr (Src (parsed4 q ip ?r)) = ip4_Src ip" "ap_addr (Dst (parsed4 q ip ?r)) = ip4_Dst ip" by (simp_all add: parsed4_def)
  moreover have "length (ip4_hdr ip (20 + length ?r) @ ?r) = length buf" using length_ip4_hdr(2) [OF ok] assms(4) len by simp
  ultimately show ?thesis using m d by auto
qed

theorem TSMPPong_roundtrip_witness:
  "\<exists>b pp. TSMPPongReply_Marshal \<lparr>pong_IPHeader = H_IP4 \<lparr>ip4_IPProto = TSMP, ip4_IPID = 1, ip4_Src = V4 1, ip4_Dst = V4 2\<rparr>,
     pong_Data = [1, 2, 3, 4, 5, 6, 7, 8], pong_PeerAPIPort = 9\<rparr> (replicate 31 0) = Some (Inr b) \<and>
     Decode zeroParsed b = Some pp \<and> AsTSMPPong pp = Some (Some ([1, 2, 3, 4, 5, 6, 7, 8], 9)) \<and> AsTSMPPing pp = Some None"
  using TSMPPong_roundtrip [OF _ _ _ _ refl, of "\<lparr>ip4_IPProto = TSMP, ip4_IPID = 1, ip4_Src = V4 1, ip4_Dst = V4 2\<rparr>"
      "[1, 2, 3, 4, 5, 6, 7, 8]" "replicate 31 0" 9 zeroParsed]
  by (auto simp: TSMPPongReply_Len_def IP4Header_Len_def)

end
