(* ===== verification/Filter_Match.thy ===== *)
theory Filter_Match
  imports Packet
begin

unbundle bit_operations_syntax

section \<open>Package \<open>wgengine/filter\<close>: match rules\<close>

text \<open>
  The rules of \<open>src/wgengine/filter/match.go\<close> and the two functions of \<open>filter.go\<close> that split a
  rule list by address family. A rule list is searched in order and the first match decides,
  which for accept-only rules is the existence of a matching rule. The main facts: splitting by
  family loses no match for a packet of that family, and can only match such packets.
\<close>

record PortRange =
  pr_First :: u16
  pr_Last :: u16

definition allPorts :: PortRange where
  "allPorts = \<lparr>pr_First = 0, pr_Last = 0xffff\<rparr>"

definition PortRange_contains :: "PortRange \<Rightarrow> u16 \<Rightarrow> bool" where
  "PortRange_contains pr port = (pr_First pr \<le> port \<and> port \<le> pr_Last pr)"

record NetPortRange =
  npr_Net :: prefix
  npr_Ports :: PortRange

record CapMatch =
  cm_Dst :: prefix
  cm_Cap :: string
  cm_Values :: "string list"

record Match =
  m_IPProto :: "byte list"
  m_Srcs :: "prefix list"
  m_Dsts :: "NetPortRange list"
  m_Caps :: "CapMatch list"

definition zeroMatch :: Match where
  "zeroMatch = \<lparr>m_IPProto = [], m_Srcs = [], m_Dsts = [], m_Caps = []\<rparr>"

fun ipInList :: "addr \<Rightarrow> prefix list \<Rightarrow> bool" where
  "ipInList ip [] = False"
| "ipInList ip (net # netlist) = (if Contains net ip then True else ipInList ip netlist)"

text \<open>The inner loops over \<open>m.Dsts\<close> of the three matching functions.\<close>

fun dst_loop :: "addrport \<Rightarrow> NetPortRange list \<Rightarrow> bool" where
  "dst_loop d [] = False"
| "dst_loop d (dst # ds) =
     (if \<not> Contains (npr_Net dst) (ap_addr d) then dst_loop d ds
      else if \<not> PortRange_contains (npr_Ports dst) (ap_port d) then dst_loop d ds
      else True)"

fun dst_loop_ips :: "addrport \<Rightarrow> NetPortRange list \<Rightarrow> bool" where
  "dst_loop_ips d [] = False"
| "dst_loop_ips d (dst # ds) = (if Contains (npr_Net dst) (ap_addr d) then True else dst_loop_ips d ds)"

fun dst_loop_all_ports :: "addrport \<Rightarrow> NetPortRange list \<Rightarrow> bool" where
  "dst_loop_all_ports d [] = False"
| "dst_loop_all_ports d (dst # ds) =
     (if npr_Ports dst \<noteq> allPorts then dst_loop_all_ports d ds
      else if Contains (npr_Net dst) (ap_addr d) then True
      else dst_loop_all_ports d ds)"

fun matches_match :: "Match list \<Rightarrow> Parsed \<Rightarrow> bool" where
  "matches_match [] q = False"
| "matches_match (m # ms) q =
     (if IPProto q \<notin> set (m_IPProto m) then matches_match ms q
      else if \<not> ipInList (ap_addr (Src q)) (m_Srcs m) then matches_match ms q
      else if dst_loop (Dst q) (m_Dsts m) then True
      else matches_match ms q)"

fun matchIPsOnly :: "Match list \<Rightarrow> Parsed \<Rightarrow> bool" where
  "matchIPsOnly [] q = False"
| "matchIPsOnly (m # ms) q =
     (if \<not> ipInList (ap_addr (Src q)) (m_Srcs m) then matchIPsOnly ms q
      else if dst_loop_ips (Dst q) (m_Dsts m) then True
      else matchIPsOnly ms q)"

fun matchProtoAndIPsOnlyIfAllPorts :: "Match list \<Rightarrow> Parsed \<Rightarrow> bool" where
  "matchProtoAndIPsOnlyIfAllPorts [] q = False"
| "matchProtoAndIPsOnlyIfAllPorts (m # ms) q =
     (if IPProto q \<notin> set (m_IPProto m) then matchProtoAndIPsOnlyIfAllPorts ms q
      else if \<not> ipInList (ap_addr (Src q)) (m_Srcs m) then matchProtoAndIPsOnlyIfAllPorts ms q
      else if dst_loop_all_ports (Dst q) (m_Dsts m) then True
      else matchProtoAndIPsOnlyIfAllPorts ms q)"

fun matchesFamily :: "Match list \<Rightarrow> (addr \<Rightarrow> bool) \<Rightarrow> Match list" where
  "matchesFamily [] keep = []"
| "matchesFamily (m # ms) keep =
     (let retm = zeroMatch\<lparr>m_IPProto := m_IPProto m,
                   m_Srcs := filter (\<lambda>src. keep (pfx_addr src)) (m_Srcs m),
                   m_Dsts := filter (\<lambda>dst. keep (pfx_addr (npr_Net dst))) (m_Dsts m)\<rparr>
      in if length (m_Srcs retm) > 0 \<and> length (m_Dsts retm) > 0
         then retm # matchesFamily ms keep else matchesFamily ms keep)"

fun capMatchesFunc :: "Match list \<Rightarrow> (addr \<Rightarrow> bool) \<Rightarrow> Match list" where
  "capMatchesFunc [] keep = []"
| "capMatchesFunc (m # ms) keep =
     (if length (m_Caps m) = 0 then capMatchesFunc ms keep
      else let retm = zeroMatch\<lparr>m_Caps := m_Caps m,
                        m_Srcs := filter (\<lambda>src. keep (pfx_addr src)) (m_Srcs m)\<rparr>
           in if length (m_Srcs retm) > 0 then retm # capMatchesFunc ms keep else capMatchesFunc ms keep)"

subsection \<open>The loops as existence\<close>

lemma ipInList_iff: "ipInList ip nets \<longleftrightarrow> (\<exists>net\<in>set nets. Contains net ip)"
  by (induction nets) auto

lemma dst_loop_iff: "dst_loop d ds \<longleftrightarrow>
    (\<exists>x\<in>set ds. Contains (npr_Net x) (ap_addr d) \<and> PortRange_contains (npr_Ports x) (ap_port d))"
  by (induction ds) auto

lemma dst_loop_ips_iff: "dst_loop_ips d ds \<longleftrightarrow> (\<exists>x\<in>set ds. Contains (npr_Net x) (ap_addr d))"
  by (induction ds) auto

lemma dst_loop_all_ports_iff: "dst_loop_all_ports d ds \<longleftrightarrow>
    (\<exists>x\<in>set ds. npr_Ports x = allPorts \<and> Contains (npr_Net x) (ap_addr d))"
  by (induction ds) auto

text \<open>What it means for a rule to admit a packet.\<close>

definition rule_admits :: "Match \<Rightarrow> byte \<Rightarrow> addr \<Rightarrow> addrport \<Rightarrow> bool" where
  "rule_admits m p s d \<longleftrightarrow> p \<in> set (m_IPProto m) \<and> (\<exists>net\<in>set (m_Srcs m). Contains net s) \<and>
     (\<exists>x\<in>set (m_Dsts m). Contains (npr_Net x) (ap_addr d) \<and> PortRange_contains (npr_Ports x) (ap_port d))"

lemma matches_match_iff:
  "matches_match ms q \<longleftrightarrow> (\<exists>m\<in>set ms. rule_admits m (IPProto q) (ap_addr (Src q)) (Dst q))"
  by (induction ms) (auto simp: rule_admits_def ipInList_iff dst_loop_iff)

lemma matchIPsOnly_iff:
  "matchIPsOnly ms q \<longleftrightarrow> (\<exists>m\<in>set ms. (\<exists>net\<in>set (m_Srcs m). Contains net (ap_addr (Src q))) \<and>
     (\<exists>x\<in>set (m_Dsts m). Contains (npr_Net x) (ap_addr (Dst q))))"
  by (induction ms) (auto simp: ipInList_iff dst_loop_ips_iff)

lemma matchAllPorts_iff:
  "matchProtoAndIPsOnlyIfAllPorts ms q \<longleftrightarrow> (\<exists>m\<in>set ms. IPProto q \<in> set (m_IPProto m) \<and>
     (\<exists>net\<in>set (m_Srcs m). Contains net (ap_addr (Src q))) \<and>
     (\<exists>x\<in>set (m_Dsts m). npr_Ports x = allPorts \<and> Contains (npr_Net x) (ap_addr (Dst q))))"
  by (induction ms) (auto simp: ipInList_iff dst_loop_all_ports_iff)

lemma PortRange_allPorts: "PortRange_contains allPorts p"
proof -
  have "unat p < 65536" using unsigned_less [of p] by simp
  then have "unat p \<le> 65535" by simp
  then show ?thesis by (simp add: PortRange_contains_def allPorts_def word_le_nat_alt)
qed

lemma match_imp_matchIPsOnly: "matches_match ms q \<Longrightarrow> matchIPsOnly ms q"
  by (auto simp: matches_match_iff matchIPsOnly_iff rule_admits_def)

lemma matchAllPorts_imp_match: "matchProtoAndIPsOnlyIfAllPorts ms q \<Longrightarrow> matches_match ms q"
  by (fastforce simp: matches_match_iff matchAllPorts_iff rule_admits_def PortRange_allPorts)

subsection \<open>Splitting by family\<close>

text \<open>Both families at once: \<open>keep\<close> decides by the family of the address.\<close>

definition family :: "(addr \<Rightarrow> bool) \<Rightarrow> bool" where
  "family keep \<longleftrightarrow> (\<forall>p a. Contains p a \<longrightarrow> keep a = keep (pfx_addr p))"

lemma family_Is4: "family Is4" and family_Is6: "family Is6"
  using Contains_family by (auto simp: family_def)

text \<open>The common shape of the three matches; \<open>A\<close> looks at the protocols, \<open>B\<close> at the ports.\<close>

definition rule_shape :: "(byte list \<Rightarrow> bool) \<Rightarrow> (PortRange \<Rightarrow> bool) \<Rightarrow> addr \<Rightarrow> addr \<Rightarrow> Match \<Rightarrow> bool" where
  "rule_shape A B s d m \<longleftrightarrow> A (m_IPProto m) \<and> (\<exists>x\<in>set (m_Srcs m). Contains x s) \<and>
     (\<exists>x\<in>set (m_Dsts m). Contains (npr_Net x) d \<and> B (npr_Ports x))"

lemma rule_shape_nonempty: "rule_shape A B s d m \<Longrightarrow> m_Srcs m \<noteq> [] \<and> m_Dsts m \<noteq> []"
  by (auto simp: rule_shape_def)

lemma matchesFamily_shape:
  assumes "family keep"
  shows "(\<exists>m\<in>set (matchesFamily ms keep). rule_shape A B s d m) \<longleftrightarrow>
    keep s \<and> keep d \<and> (\<exists>m\<in>set ms. rule_shape A B s d m)"
proof (induction ms)
  case (Cons m ms)
  let ?r = "zeroMatch\<lparr>m_IPProto := m_IPProto m, m_Srcs := filter (\<lambda>s. keep (pfx_addr s)) (m_Srcs m),
     m_Dsts := filter (\<lambda>d. keep (pfx_addr (npr_Net d))) (m_Dsts m)\<rparr>"
  have k: "Contains p a \<Longrightarrow> keep (pfx_addr p) = keep a" for p a using assms by (auto simp: family_def)
  have "(\<exists>x\<in>set (m_Srcs ?r). Contains x s) \<longleftrightarrow> keep s \<and> (\<exists>x\<in>set (m_Srcs m). Contains x s)"
    using k by auto
  moreover have "(\<exists>x\<in>set (m_Dsts ?r). Contains (npr_Net x) d \<and> B (npr_Ports x)) \<longleftrightarrow>
      keep d \<and> (\<exists>x\<in>set (m_Dsts m). Contains (npr_Net x) d \<and> B (npr_Ports x))"
    using k by auto
  ultimately have r: "rule_shape A B s d ?r \<longleftrightarrow> keep s \<and> keep d \<and> rule_shape A B s d m"
    unfolding rule_shape_def by auto
  have "rule_shape A B s d ?r \<Longrightarrow> length (m_Srcs ?r) > 0 \<and> length (m_Dsts ?r) > 0"
    using rule_shape_nonempty by blast
  then have "(\<exists>x\<in>set (matchesFamily (m # ms) keep). rule_shape A B s d x) \<longleftrightarrow>
      rule_shape A B s d ?r \<or> (\<exists>x\<in>set (matchesFamily ms keep). rule_shape A B s d x)"
    by (auto simp: Let_def)
  then show ?case using Cons.IH r by auto
qed simp

lemma match_shape:
  "matches_match ms q \<longleftrightarrow> (\<exists>m\<in>set ms. rule_shape (\<lambda>ps. IPProto q \<in> set ps) (\<lambda>pr. PortRange_contains pr (ap_port (Dst q)))
     (ap_addr (Src q)) (ap_addr (Dst q)) m)"
  "matchIPsOnly ms q \<longleftrightarrow> (\<exists>m\<in>set ms. rule_shape (\<lambda>_. True) (\<lambda>_. True) (ap_addr (Src q)) (ap_addr (Dst q)) m)"
  "matchProtoAndIPsOnlyIfAllPorts ms q \<longleftrightarrow> (\<exists>m\<in>set ms. rule_shape (\<lambda>ps. IPProto q \<in> set ps) (\<lambda>pr. pr = allPorts)
     (ap_addr (Src q)) (ap_addr (Dst q)) m)"
  by (auto simp: rule_shape_def matches_match_iff rule_admits_def matchIPsOnly_iff matchAllPorts_iff)

lemma matchesFamily_all:
  assumes "family keep"
  shows "matches_match (matchesFamily ms keep) q \<longleftrightarrow>
      keep (ap_addr (Src q)) \<and> keep (ap_addr (Dst q)) \<and> matches_match ms q"
    and "matchIPsOnly (matchesFamily ms keep) q \<longleftrightarrow>
      keep (ap_addr (Src q)) \<and> keep (ap_addr (Dst q)) \<and> matchIPsOnly ms q"
    and "matchProtoAndIPsOnlyIfAllPorts (matchesFamily ms keep) q \<longleftrightarrow>
      keep (ap_addr (Src q)) \<and> keep (ap_addr (Dst q)) \<and> matchProtoAndIPsOnlyIfAllPorts ms q"
  unfolding match_shape matchesFamily_shape [OF assms] by simp_all

text \<open>
  C10. Splitting the rules by address family loses nothing and adds nothing: the family's rule list
  matches a packet exactly if both its addresses are of that family and the original list matches
  it, for each of the three ways of matching.
\<close>

theorem matchesFamily_exact:
  "keep = Is4 \<or> keep = Is6 \<Longrightarrow>
   (matches_match (matchesFamily ms keep) q \<longleftrightarrow>
      keep (ap_addr (Src q)) \<and> keep (ap_addr (Dst q)) \<and> matches_match ms q) \<and>
   (matchIPsOnly (matchesFamily ms keep) q \<longleftrightarrow>
      keep (ap_addr (Src q)) \<and> keep (ap_addr (Dst q)) \<and> matchIPsOnly ms q) \<and>
   (matchProtoAndIPsOnlyIfAllPorts (matchesFamily ms keep) q \<longleftrightarrow>
      keep (ap_addr (Src q)) \<and> keep (ap_addr (Dst q)) \<and> matchProtoAndIPsOnlyIfAllPorts ms q)"
  using matchesFamily_all [OF family_Is4] matchesFamily_all [OF family_Is6] by auto

theorem matchesFamily_exact_witness:
  "matches_match (matchesFamily [zeroMatch] Is4) zeroParsed \<longleftrightarrow>
     Is4 (ap_addr (Src zeroParsed)) \<and> Is4 (ap_addr (Dst zeroParsed)) \<and> matches_match [zeroMatch] zeroParsed"
  using matchesFamily_exact [of Is4 "[zeroMatch]" zeroParsed] by simp

end
