(* ===== verification/Rate.thy ===== *)
theory Rate
  imports Prelude Complex_Main
begin

section \<open>Package \<open>tstime/rate\<close>: the token bucket\<close>

text \<open>
  The limiter of \<open>src/tstime/rate/rate.go\<close>, which bounds the packet filter's logging. Times are
  \<open>mono.Time\<close> values (nanoseconds, integers); the two \<open>float64\<close> fields are exact rationals here,
  so rounding is not modelled. The clock is an argument: \<open>allow\<close> is given \<open>now\<close>.
\<close>

record Limiter =
  lim_limit :: rat
  lim_burst :: rat
  lim_tokens :: rat
  lim_last :: int

text \<open>\<open>Every\<close> and \<open>NewLimiter\<close> panic on a non-positive argument; a duration is in nanoseconds.\<close>

definition seconds :: "int \<Rightarrow> rat" where
  "seconds d = of_int d / 1000000000"

definition Every :: "int \<Rightarrow> rat option" where
  "Every interval = (if interval \<le> 0 then None else Some (1 / seconds interval))"

definition NewLimiter :: "rat \<Rightarrow> int \<Rightarrow> Limiter option" where
  "NewLimiter r b =
     (if b < 1 then None
      else Some \<lparr>lim_limit = r, lim_burst = of_int b, lim_tokens = 0, lim_last = 0\<rparr>)"

definition allow :: "Limiter \<Rightarrow> int \<Rightarrow> bool \<times> Limiter" where
  "allow lim0 now =
     (let lm = (if now < lim_last lim0 then lim0\<lparr>lim_last := now\<rparr> else lim0);
          elapsed = now - lim_last lm;
          t0 = lim_tokens lm + lim_limit lm * seconds elapsed;
          t1 = (if t0 > lim_burst lm then lim_burst lm else t0);
          tokens = t1 - 1;
          ok = (tokens \<ge> 0)
      in (ok, if ok then lm\<lparr>lim_last := now, lim_tokens := tokens\<rparr> else lm))"

text \<open>A sequence of calls: the answers, in order, and the limiter afterwards.\<close>

fun allow_seq :: "Limiter \<Rightarrow> int list \<Rightarrow> bool list \<times> Limiter" where
  "allow_seq lm [] = ([], lm)"
| "allow_seq lm (t # ts) =
     (let (ok, lm') = allow lm t; (oks, lm'') = allow_seq lm' ts in (ok # oks, lm''))"

definition allowed_count :: "Limiter \<Rightarrow> int list \<Rightarrow> nat" where
  "allowed_count lm ts = length (filter id (fst (allow_seq lm ts)))"

subsection \<open>The bound\<close>

definition Limiter_wf :: "Limiter \<Rightarrow> bool" where
  "Limiter_wf lm \<longleftrightarrow> 0 \<le> lim_tokens lm \<and> lim_tokens lm \<le> lim_burst lm \<and> 0 \<le> lim_limit lm \<and> 1 \<le> lim_burst lm"

definition avail :: "Limiter \<Rightarrow> int \<Rightarrow> rat" where
  "avail lm t = min (lim_burst lm) (lim_tokens lm + lim_limit lm * seconds (t - lim_last lm))"

lemma NewLimiter_wf: "NewLimiter r b = Some lm \<Longrightarrow> 0 \<le> r \<Longrightarrow> Limiter_wf lm"
  by (auto simp: NewLimiter_def Limiter_wf_def split: if_splits)

lemma seconds_add: "seconds (a - c) = seconds (a - b) + seconds (b - c)"
  by (simp add: seconds_def diff_divide_distrib)

lemma seconds_nonneg: "0 \<le> d \<Longrightarrow> 0 \<le> seconds d"
  by (simp add: seconds_def)

lemma allow_eq:
  assumes "lim_last lm \<le> now"
  shows "allow lm now = (if avail lm now \<ge> 1
    then (True, lm\<lparr>lim_last := now, lim_tokens := avail lm now - 1\<rparr>) else (False, lm))"
  using assms by (auto simp: allow_def avail_def Let_def min_def)

lemma allow_const: "allow lm now = (ok, lm') \<Longrightarrow> lim_limit lm' = lim_limit lm \<and> lim_burst lm' = lim_burst lm"
  by (auto simp: allow_def Let_def split: if_splits)

lemma allow_wf: "Limiter_wf lm \<Longrightarrow> allow lm now = (ok, lm') \<Longrightarrow> Limiter_wf lm'"
  by (auto simp: allow_def Let_def Limiter_wf_def split: if_splits)

lemma avail_later:
  assumes "t \<le> u" "0 \<le> lim_limit lm"
  shows "avail lm u \<le> avail lm t + lim_limit lm * seconds (u - t)"
proof -
  have n: "0 \<le> lim_limit lm * seconds (u - t)" using assms by (simp add: seconds_nonneg)
  have "lim_limit lm * seconds (u - lim_last lm) =
      lim_limit lm * seconds (u - t) + lim_limit lm * seconds (t - lim_last lm)"
    by (simp add: seconds_add [of u "lim_last lm" t] algebra_simps)
  with n show ?thesis by (auto simp: avail_def min_def)
qed

lemma allowed_count_Cons:
  "allowed_count lm (t # ts) = (if fst (allow lm t) then 1 else 0) + allowed_count (snd (allow lm t)) ts"
  by (cases "allow lm t") (auto simp: allowed_count_def split: prod.split)

lemma allowed_count_avail:
  assumes "Limiter_wf lm" "sorted (t # ts)" "lim_last lm \<le> t"
  shows "of_nat (allowed_count lm (t # ts)) \<le> avail lm t + lim_limit lm * seconds (last (t # ts) - t)"
  using assms
proof (induction ts arbitrary: lm t)
  case Nil
  have "0 \<le> avail lm t" using Nil by (simp add: avail_def Limiter_wf_def seconds_nonneg)
  then show ?case
    using Nil allow_eq [OF Nil(3)] by (simp add: allowed_count_Cons seconds_def allowed_count_def)
next
  case (Cons u us)
  obtain ok lm' where a: "allow lm t = (ok, lm')" by fastforce
  have lm': "Limiter_wf lm'" "lim_limit lm' = lim_limit lm"
    using allow_wf [OF Cons.prems(1) a] allow_const [OF a] by simp_all
  have last': "lim_last lm' \<le> u" using a allow_eq [OF Cons.prems(3)] Cons.prems(2,3) by (auto split: if_splits)
  have tu: "t \<le> u" using Cons.prems(2) by simp
  have ih: "of_nat (allowed_count lm' (u # us)) \<le> avail lm' u + lim_limit lm * seconds (last (u # us) - u)"
    using Cons.IH [OF lm'(1) _ last'] Cons.prems(2) lm'(2) by simp
  have L: "0 \<le> lim_limit lm" using Cons.prems(1) by (simp add: Limiter_wf_def)
  have step: "(if ok then 1 else 0) + avail lm' u \<le> avail lm t + lim_limit lm * seconds (u - t)"
  proof (cases ok)
    case True
    then have "lm' = lm\<lparr>lim_last := t, lim_tokens := avail lm t - 1\<rparr>"
      using a allow_eq [OF Cons.prems(3)] by (auto split: if_splits)
    then have "avail lm' u \<le> avail lm t - 1 + lim_limit lm * seconds (u - t)"
      by (simp add: avail_def)
    then show ?thesis using True by simp
  next
    case False
    then have "lm' = lm" using a allow_eq [OF Cons.prems(3)] by (auto split: if_splits)
    then show ?thesis using avail_later [OF tu L] False by simp
  qed
  have "seconds (last (t # u # us) - t) = seconds (last (u # us) - u) + seconds (u - t)"
    using seconds_add [of "last (u # us)" t u] by simp
  then have "lim_limit lm * seconds (last (t # u # us) - t) =
      lim_limit lm * seconds (last (u # us) - u) + lim_limit lm * seconds (u - t)"
    by (simp only: distrib_left)
  moreover have "rat_of_nat (allowed_count lm (t # u # us)) = (if ok then 1 else 0) + of_nat (allowed_count lm' (u # us))"
    by (simp only: allowed_count_Cons [of lm t] a fst_conv snd_conv of_nat_add) simp
  ultimately show ?case using ih step by linarith
qed

text \<open>
  The promise of the token bucket: over any sequence of calls at non-decreasing times, the number of
  allowed events is at most the burst plus the rate times the elapsed time.
\<close>

theorem Limiter_bound:
  assumes "Limiter_wf lm" "sorted (t # ts)" "lim_last lm \<le> t"
  shows "of_nat (allowed_count lm (t # ts)) \<le> lim_burst lm + lim_limit lm * seconds (last (t # ts) - t)"
  using allowed_count_avail [OF assms] by (simp add: avail_def)

definition dropBucket0 :: Limiter where
  "dropBucket0 = \<lparr>lim_limit = 1 / 5, lim_burst = 10, lim_tokens = 0, lim_last = 0\<rparr>"

theorem Limiter_bound_witness:
  "of_nat (allowed_count dropBucket0 [2 ^ 55, 2 ^ 55 + 1]) \<le>
     lim_burst dropBucket0 + lim_limit dropBucket0 * seconds (last [2 ^ 55, 2 ^ 55 + 1] - 2 ^ 55)"
  by (rule Limiter_bound) (simp_all add: dropBucket0_def Limiter_wf_def)

end
