(* ===== verification/Packet_Filter.thy ===== *)
theory Packet_Filter
  imports Filter_Match Flowtrack Rate
begin

unbundle bit_operations_syntax

section \<open>Package \<open>wgengine/filter\<close>: the stateful packet filter\<close>

text \<open>
  The filter of \<open>src/wgengine/filter/filter.go\<close>. Filters are replaced at run time and may share
  their connection tracking state, so a filter holds the index of its state in a \<open>World\<close>, next to
  what the package keeps in variables: the two log limiters and the log. The IP sets
  (\<open>go4.org/netipx\<close>) enter through their only use, \<open>Contains\<close>, as predicates on addresses.

  A function that may panic returns an option. \<open>flows\<close> is the abstraction of a tracking state: its
  flows, most recently used first. The lemmas show that the filter never panics on a well-formed
  world and describe each verdict by \<open>verdict_in\<close>; the theorems about event sequences cover any
  interleaving of packets through any filters on one state.
\<close>

datatype Response = Drop | DropSilently | Accept | noVerdict

definition Response_IsDrop :: "Response \<Rightarrow> bool" where
  "Response_IsDrop r = (r = Drop \<or> r = DropSilently)"

type_synonym RunFlags = u64

definition LogDrops :: RunFlags where [simp]: "LogDrops = 1"
definition LogAccepts :: RunFlags where [simp]: "LogAccepts = 2"
definition HexdumpDrops :: RunFlags where [simp]: "HexdumpDrops = 4"
definition HexdumpAccepts :: RunFlags where [simp]: "HexdumpAccepts = 8"

datatype direction = dir_in | dir_out

record Filter =
  f_local :: "addr \<Rightarrow> bool"
  f_logIPs :: "addr \<Rightarrow> bool"
  f_matches4 :: "Match list"
  f_matches6 :: "Match list"
  f_cap4 :: "Match list"
  f_cap6 :: "Match list"
  f_state :: nat
  f_shieldsUp :: bool

text \<open>A log line: the verdict, the packet it prints, its buffer's length, the reason and the hexdump.\<close>

record logline =
  ll_verdict :: string
  ll_packet :: Parsed
  ll_len :: nat
  ll_why :: string
  ll_hexdump :: "bytes option"

record World =
  w_states :: "unit Cache list"
  w_acceptBucket :: Limiter
  w_dropBucket :: Limiter
  w_log :: "logline list"

definition lruMax :: int where [simp]: "lruMax = 512"

subsection \<open>Construction\<close>

definition filter_New :: "Match list \<Rightarrow> (addr \<Rightarrow> bool) \<Rightarrow> (addr \<Rightarrow> bool) \<Rightarrow> Filter option \<Rightarrow> World \<Rightarrow> Filter \<times> World" where
  "filter_New ms localNets logIPs shareStateWith w =
     (let (state, w') = (case shareStateWith of
            Some g \<Rightarrow> (f_state g, w)
          | None \<Rightarrow> (length (w_states w), w\<lparr>w_states := w_states w @ [newCache lruMax]\<rparr>))
      in (\<lparr>f_local = localNets, f_logIPs = logIPs,
           f_matches4 = matchesFamily ms Is4, f_matches6 = matchesFamily ms Is6,
           f_cap4 = capMatchesFunc ms Is4, f_cap6 = capMatchesFunc ms Is6,
           f_state = state, f_shieldsUp = False\<rparr>, w'))"

definition NewAllowNone :: "(addr \<Rightarrow> bool) \<Rightarrow> World \<Rightarrow> Filter \<times> World" where
  "NewAllowNone logIPs w = filter_New [] (\<lambda>_. False) logIPs None w"


subsection \<open>Logging\<close>

definition gcpDNSAddr :: addr where
  "gcpDNSAddr = netaddr_IPv4 169 254 169 254"

definition loggingAllowed :: "Filter \<Rightarrow> Parsed \<Rightarrow> bool" where
  "loggingAllowed f p = (f_logIPs f (ap_addr (Src p)) \<and> f_logIPs f (ap_addr (Dst p)))"

definition omitDropLogging :: "Parsed \<Rightarrow> direction \<Rightarrow> bool" where
  "omitDropLogging p dir =
     (if dir \<noteq> dir_out then False
      else IsMulticast (ap_addr (Dst p)) \<or>
           (IsLinkLocalUnicast (ap_addr (Dst p)) \<and> ap_addr (Dst p) \<noteq> gcpDNSAddr) \<or> IPProto p = IGMP)"

definition maybeHexdump :: "RunFlags \<Rightarrow> bytes \<Rightarrow> bytes option" where
  "maybeHexdump flag b = (if flag = 0 then None else Some b)"

definition log_line :: "string \<Rightarrow> Parsed \<Rightarrow> string \<Rightarrow> RunFlags \<Rightarrow> logline" where
  "log_line verdict q why rf =
     \<lparr>ll_verdict = verdict, ll_packet = q, ll_len = length (p_b q), ll_why = why,
      ll_hexdump = maybeHexdump rf (p_b q)\<rparr>"

text \<open>\<open>now\<close> is the time the limiter's \<open>Allow\<close> reads; it is asked at most once per packet.\<close>

definition logRateLimit ::
    "Filter \<Rightarrow> RunFlags \<Rightarrow> Parsed \<Rightarrow> direction \<Rightarrow> Response \<Rightarrow> string \<Rightarrow> int \<Rightarrow> World \<Rightarrow> World" where
  "logRateLimit f rf q dir r why now w =
     (if \<not> loggingAllowed f q then w
      else if r = Drop \<and> omitDropLogging q dir then w
      else if r = Drop \<and> rf AND LogDrops \<noteq> 0 then
        (let (ok, b) = allow (w_dropBucket w) now; w' = w\<lparr>w_dropBucket := b\<rparr>
         in if ok then w'\<lparr>w_log := w_log w' @ [log_line ''Drop'' q why (rf AND HexdumpDrops)]\<rparr> else w')
      else if r = Accept \<and> rf AND LogAccepts \<noteq> 0 then
        (let (ok, b) = allow (w_acceptBucket w) now; w' = w\<lparr>w_acceptBucket := b\<rparr>
         in if ok then w'\<lparr>w_log := w_log w' @ [log_line ''Accept'' q why (rf AND HexdumpAccepts)]\<rparr> else w')
      else w)"

subsection \<open>Running the filter\<close>

definition pre :: "Filter \<Rightarrow> Parsed \<Rightarrow> RunFlags \<Rightarrow> direction \<Rightarrow> int \<Rightarrow> World \<Rightarrow> Response \<times> World" where
  "pre f q rf dir now w =
     (if length (p_b q) = 0 then (Accept, w)
      else if length (p_b q) < 20 then (Drop, logRateLimit f rf q dir Drop ''too short'' now w)
      else if IsMulticast (ap_addr (Dst q)) then (Drop, logRateLimit f rf q dir Drop ''multicast'' now w)
      else if IsLinkLocalUnicast (ap_addr (Dst q)) \<and> ap_addr (Dst q) \<noteq> gcpDNSAddr
        then (Drop, logRateLimit f rf q dir Drop ''link-local-unicast'' now w)
      else if IPProto q = Fragment then (Accept, logRateLimit f rf q dir Accept ''fragment'' now w)
      else (noVerdict, w))"

text \<open>Decimal digits, for the reason of an unknown protocol (the code memoises the string).\<close>

fun decimal :: "nat \<Rightarrow> string" where
  "decimal n = (if n < 10 then [char_of (48 + n)] else decimal (n div 10) @ [char_of (48 + n mod 10)])"

declare decimal.simps [simp del]

definition unknownProtoString :: "byte \<Rightarrow> string" where
  "unknownProtoString proto = ''unknown-protocol-'' @ decimal (unat proto)"

definition flow_in :: "Parsed \<Rightarrow> flowtuple" where
  "flow_in q = \<lparr>ft_Proto = IPProto q, ft_Src = Src q, ft_Dst = Dst q\<rparr>"

text \<open>\<open>f.state.lru.Get(t)\<close> and \<open>f.state.lru.Add(t)\<close> under the state's lock.\<close>

definition state_Get :: "Filter \<Rightarrow> flowtuple \<Rightarrow> World \<Rightarrow> (bool \<times> World) option" where
  "state_Get f t w = do {
     c \<leftarrow> rd (w_states w) (f_state f);
     (v, c') \<leftarrow> Cache_Get t c;
     Some (v \<noteq> None, w\<lparr>w_states := (w_states w)[f_state f := c']\<rparr>) }"

definition state_Add :: "Filter \<Rightarrow> flowtuple \<Rightarrow> World \<Rightarrow> World option" where
  "state_Add f t w = do {
     c \<leftarrow> rd (w_states w) (f_state f);
     c' \<leftarrow> Cache_Add t () c;
     Some (w\<lparr>w_states := (w_states w)[f_state f := c']\<rparr>) }"

definition runIn4 :: "Filter \<Rightarrow> Parsed \<Rightarrow> World \<Rightarrow> ((Response \<times> string) \<times> World) option" where
  "runIn4 f q w =
     (if \<not> f_local f (ap_addr (Dst q)) then Some ((Drop, ''destination not allowed''), w)
      else if IPProto q = ICMPv4 then do {
        e \<leftarrow> IsEchoResponse q;
        e \<leftarrow> (if e then Some True else IsError q);
        Some (if e then (Accept, ''icmp response ok'')
              else if matchIPsOnly (f_matches4 f) q then (Accept, ''icmp ok'')
              else (Drop, ''no rules matched''), w) }
      else if IPProto q = TCP then
        Some (if \<not> IsTCPSyn q then (Accept, ''tcp non-syn'')
              else if matches_match (f_matches4 f) q then (Accept, ''tcp ok'')
              else (Drop, ''no rules matched''), w)
      else if IPProto q = UDP \<or> IPProto q = SCTP then do {
        (ok, w') \<leftarrow> state_Get f (flow_in q) w;
        Some (if ok then (Accept, ''cached'')
              else if matches_match (f_matches4 f) q then (Accept, ''ok'')
              else (Drop, ''no rules matched''), w') }
      else if IPProto q = TSMP then Some ((Accept, ''tsmp ok''), w)
      else Some (if matchProtoAndIPsOnlyIfAllPorts (f_matches4 f) q then (Accept, ''other-portless ok'')
                 else (Drop, unknownProtoString (IPProto q)), w))"

definition runIn6 :: "Filter \<Rightarrow> Parsed \<Rightarrow> World \<Rightarrow> ((Response \<times> string) \<times> World) option" where
  "runIn6 f q w =
     (if \<not> f_local f (ap_addr (Dst q)) then Some ((Drop, ''destination not allowed''), w)
      else if IPProto q = ICMPv6 then do {
        e \<leftarrow> IsEchoResponse q;
        e \<leftarrow> (if e then Some True else IsError q);
        Some (if e then (Accept, ''icmp response ok'')
              else if matchIPsOnly (f_matches6 f) q then (Accept, ''icmp ok'')
              else (Drop, ''no rules matched''), w) }
      else if IPProto q = TCP then
        Some (if IPProto q = TCP \<and> \<not> IsTCPSyn q then (Accept, ''tcp non-syn'')
              else if matches_match (f_matches6 f) q then (Accept, ''tcp ok'')
              else (Drop, ''no rules matched''), w)
      else if IPProto q = UDP \<or> IPProto q = SCTP then do {
        (ok, w') \<leftarrow> state_Get f (flow_in q) w;
        Some (if ok then (Accept, ''cached'')
              else if matches_match (f_matches6 f) q then (Accept, ''ok'')
              else (Drop, ''no rules matched''), w') }
      else if IPProto q = TSMP then Some ((Accept, ''tsmp ok''), w)
      else Some (if matchProtoAndIPsOnlyIfAllPorts (f_matches6 f) q then (Accept, ''other-portless ok'')
                 else (Drop, unknownProtoString (IPProto q)), w))"

definition RunIn :: "Filter \<Rightarrow> Parsed \<Rightarrow> RunFlags \<Rightarrow> int \<Rightarrow> World \<Rightarrow> (Response \<times> World) option" where
  "RunIn f q rf now w =
     (let (r, w1) = pre f q rf dir_in now w in
      if r = Accept \<or> r = Drop then Some (r, w1)
      else do {
        ((r, why), w2) \<leftarrow> (if IPVersion q = 4 then runIn4 f q w1
                           else if IPVersion q = 6 then runIn6 f q w1
                           else Some ((Drop, ''not-ip''), w1));
        Some (r, logRateLimit f rf q dir_in r why now w2) })"

definition runOut :: "Filter \<Rightarrow> Parsed \<Rightarrow> World \<Rightarrow> ((Response \<times> string) \<times> World) option" where
  "runOut f q w = do {
     w' \<leftarrow> (if IPProto q = UDP \<or> IPProto q = SCTP
           then state_Add f \<lparr>ft_Proto = IPProto q, ft_Src = Dst q, ft_Dst = Src q\<rparr> w
           else Some w);
     Some ((Accept, ''ok out''), w') }"

definition RunOut :: "Filter \<Rightarrow> Parsed \<Rightarrow> RunFlags \<Rightarrow> int \<Rightarrow> World \<Rightarrow> (Response \<times> World) option" where
  "RunOut f q rf now w =
     (let (r, w1) = pre f q rf dir_out now w in
      if r = Accept \<or> r = Drop then Some (r, w1)
      else do {
        ((r, why), w2) \<leftarrow> runOut f q w1;
        Some (r, logRateLimit f rf q dir_out r why now w2) })"

definition dummyPacket :: bytes where
  "dummyPacket = replicate 20 0xFF"

definition CheckTCP :: "Filter \<Rightarrow> addr \<Rightarrow> addr \<Rightarrow> u16 \<Rightarrow> int \<Rightarrow> World \<Rightarrow> (Response \<times> World) option" where
  "CheckTCP f srcIP dstIP dstPort now w = do {
     pkt \<leftarrow> Decode zeroParsed dummyPacket;
     if (Is4 srcIP \<and> Is6 dstIP) \<or> (Is6 srcIP \<and> Is4 srcIP) then Some (Drop, w)
     else do {
       v \<leftarrow> (if Is4 srcIP then Some 4 else if Is6 srcIP then Some 6 else None);
       RunIn f (pkt\<lparr>IPVersion := v, Src := AddrPortFrom srcIP 0, Dst := AddrPortFrom dstIP dstPort,
                    IPProto := TCP, TCPFlags := TCPSyn\<rparr>) 0 now w } }"

subsection \<open>Capabilities\<close>

type_synonym PeerCapMap = "string \<rightharpoonup> string list"

fun caps_loop :: "addr \<Rightarrow> CapMatch list \<Rightarrow> PeerCapMap \<Rightarrow> PeerCapMap" where
  "caps_loop dstIP [] out = out"
| "caps_loop dstIP (cm # cms) out =
     (if cm_Cap cm \<noteq> [] \<and> Contains (cm_Dst cm) dstIP then
        (case out (cm_Cap cm) of
           None \<Rightarrow> caps_loop dstIP cms (out(cm_Cap cm \<mapsto> cm_Values cm))
         | Some prev \<Rightarrow> caps_loop dstIP cms (out(cm_Cap cm \<mapsto> prev @ cm_Values cm)))
      else caps_loop dstIP cms out)"

fun caps_rules :: "addr \<Rightarrow> addr \<Rightarrow> Match list \<Rightarrow> PeerCapMap \<Rightarrow> PeerCapMap" where
  "caps_rules srcIP dstIP [] out = out"
| "caps_rules srcIP dstIP (m # mm) out =
     (if \<not> ipInList srcIP (m_Srcs m) then caps_rules srcIP dstIP mm out
      else caps_rules srcIP dstIP mm (caps_loop dstIP (m_Caps m) out))"

definition CapsWithValues :: "Filter \<Rightarrow> addr \<Rightarrow> addr \<Rightarrow> PeerCapMap" where
  "CapsWithValues f srcIP dstIP =
     (let mm = (if Is4 srcIP then f_cap4 f else if Is6 srcIP then f_cap6 f else [])
      in caps_rules srcIP dstIP mm Map.empty)"

subsection \<open>The well-formed world and what each step does to it\<close>

definition cache_ok :: "unit Cache \<Rightarrow> bool" where
  "cache_ok c \<longleftrightarrow> Cache_inv c \<and> MaxEntries c = lruMax \<and> int (length (Cache_entries c)) \<le> lruMax"

definition World_wf :: "World \<Rightarrow> bool" where
  "World_wf w \<longleftrightarrow> (\<forall>c\<in>set (w_states w). cache_ok c)"

definition flows :: "World \<Rightarrow> nat \<Rightarrow> (flowtuple \<times> unit) list" where
  "flows w i = Cache_entries (w_states w ! i)"

text \<open>\<open>w'\<close> is \<open>w\<close> with the flows of state \<open>i\<close> changed by \<open>g\<close>, and still well-formed.\<close>

definition step_flows :: "nat \<Rightarrow> ((flowtuple \<times> unit) list \<Rightarrow> (flowtuple \<times> unit) list) \<Rightarrow> World \<Rightarrow> World \<Rightarrow> bool" where
  "step_flows i g w w' \<longleftrightarrow> World_wf w' \<and> length (w_states w') = length (w_states w) \<and>
     (\<forall>j < length (w_states w). flows w' j = (if j = i then g (flows w j) else flows w j))"

lemma step_flows_refl: "World_wf w \<Longrightarrow> step_flows i id w w"
  by (simp add: step_flows_def)

lemma step_flows_trans: "step_flows i g w w' \<Longrightarrow> step_flows i h w' w'' \<Longrightarrow> step_flows i (h \<circ> g) w w''"
  by (simp add: step_flows_def)

lemma step_flows_states: "World_wf w \<Longrightarrow> w_states w' = w_states w \<Longrightarrow> step_flows i id w w'"
  by (simp add: step_flows_def World_wf_def flows_def)

lemma log_states [simp]: "w_states (logRateLimit f rf q dir r why now w) = w_states w"
  by (simp add: logRateLimit_def Let_def split: prod.split)

lemma World_wf_log [simp]: "World_wf (logRateLimit f rf q dir r why now w) \<longleftrightarrow> World_wf w"
  by (simp add: World_wf_def)

lemma flows_log [simp]: "flows (logRateLimit f rf q dir r why now w) i = flows w i"
  by (simp add: flows_def)

lemma step_flows_log [simp]:
  "step_flows i g w (logRateLimit f rf q dir r why now w') \<longleftrightarrow> step_flows i g w w'"
  by (simp add: step_flows_def)

lemma step_flows_set:
  assumes "World_wf w" "i < length (w_states w)" "cache_ok c" "Cache_entries c = g (flows w i)"
  shows "step_flows i g w (w\<lparr>w_states := (w_states w)[i := c]\<rparr>)"
  using assms by (auto simp: step_flows_def World_wf_def flows_def nth_list_update dest!: set_update_subset_insert [THEN subsetD])

lemma state_Get_step:
  assumes "World_wf w" "f_state f < length (w_states w)"
  shows "\<exists>w'. state_Get f t w = Some (t \<in> fst ` set (flows w (f_state f)), w') \<and>
    step_flows (f_state f) (lru_touch t) w w'"
proof -
  let ?c = "w_states w ! f_state f"
  have c: "cache_ok ?c" using assms by (simp add: World_wf_def)
  then obtain c' where g: "Cache_Get t ?c = Some (map_of (Cache_entries ?c) t, c')"
      "Cache_inv c'" "MaxEntries c' = MaxEntries ?c" "Cache_entries c' = lru_touch t (Cache_entries ?c)"
    using flow.get_law [of ?c t] by (auto simp: cache_ok_def)
  have "cache_ok c'" using c g length_lru_touch [of t "Cache_entries ?c"] by (simp add: cache_ok_def)
  then have "step_flows (f_state f) (lru_touch t) w (w\<lparr>w_states := (w_states w)[f_state f := c']\<rparr>)"
    using assms g(4) by (intro step_flows_set) (simp_all add: flows_def)
  moreover have "(map_of (Cache_entries ?c) t \<noteq> None) = (t \<in> fst ` set (flows w (f_state f)))"
    by (auto simp: flows_def map_of_eq_None_iff)
  ultimately show ?thesis using assms(2) g(1) by (auto simp: state_Get_def rd_def)
qed

lemma state_Add_step:
  assumes "World_wf w" "f_state f < length (w_states w)"
  shows "\<exists>w'. state_Add f t w = Some w' \<and> step_flows (f_state f) (lru_add lruMax t ()) w w'"
proof -
  let ?c = "w_states w ! f_state f"
  have c: "cache_ok ?c" using assms by (simp add: World_wf_def)
  then obtain c' where g: "Cache_Add t () ?c = Some c'" "Cache_inv c'" "MaxEntries c' = MaxEntries ?c"
      "Cache_entries c' = lru_add lruMax t () (Cache_entries ?c)"
    using flow.add_law [of ?c t "()"] by (auto simp: cache_ok_def)
  have "cache_ok c'" using c g length_lru_add [of lruMax "Cache_entries ?c" t "()"] by (simp add: cache_ok_def)
  then have "step_flows (f_state f) (lru_add lruMax t ()) w (w\<lparr>w_states := (w_states w)[f_state f := c']\<rparr>)"
    using assms g(4) by (intro step_flows_set) (simp_all add: flows_def)
  then show ?thesis using assms(2) g(1) by (auto simp: state_Add_def rd_def)
qed

lemma Ex_Not [simp]: "Ex Not"
  by blast

lemma icmp_type_code_total: "\<exists>r. icmp_type_code q t c = Some r"
  by (simp add: icmp_type_code_def slice_simps)

lemma IsEchoResponse_total: "\<exists>r. IsEchoResponse q = Some r"
  using icmp_type_code_total by (simp add: IsEchoResponse_def)

lemma IsError_total: "\<exists>r. IsError q = Some r"
  by (simp add: IsError_def slice_simps)

subsection \<open>The verdict\<close>

text \<open>
  The policy for an incoming packet in one place. \<open>ms\<close> are the rules of the packet's family, \<open>icmp\<close>
  its ICMP protocol number, \<open>ts\<close> the tracked flows.
\<close>

definition icmp_reply :: "Parsed \<Rightarrow> bool" where
  "icmp_reply q \<longleftrightarrow> IsEchoResponse q = Some True \<or> IsError q = Some True"

definition policy_in :: "byte \<Rightarrow> Match list \<Rightarrow> flowtuple set \<Rightarrow> Parsed \<Rightarrow> bool" where
  "policy_in icmp ms ts q \<longleftrightarrow>
     (if IPProto q = icmp then icmp_reply q \<or> matchIPsOnly ms q
      else if IPProto q = TCP then \<not> IsTCPSyn q \<or> matches_match ms q
      else if IPProto q = UDP \<or> IPProto q = SCTP then flow_in q \<in> ts \<or> matches_match ms q
      else IPProto q = TSMP \<or> matchProtoAndIPsOnlyIfAllPorts ms q)"

definition bad_dst :: "addr \<Rightarrow> bool" where
  "bad_dst a \<longleftrightarrow> IsMulticast a \<or> (IsLinkLocalUnicast a \<and> a \<noteq> gcpDNSAddr)"

definition verdict_in :: "Filter \<Rightarrow> flowtuple set \<Rightarrow> Parsed \<Rightarrow> bool" where
  "verdict_in f ts q \<longleftrightarrow> p_b q = [] \<or>
     length (p_b q) \<ge> 20 \<and> \<not> bad_dst (ap_addr (Dst q)) \<and>
     (IPProto q = Fragment \<or>
      f_local f (ap_addr (Dst q)) \<and>
      (IPVersion q = 4 \<and> policy_in ICMPv4 (f_matches4 f) ts q \<or>
       IPVersion q = 6 \<and> policy_in ICMPv6 (f_matches6 f) ts q))"

definition is_flow :: "Parsed \<Rightarrow> bool" where
  "is_flow q \<longleftrightarrow> IPProto q = UDP \<or> IPProto q = SCTP"

lemma runIn4_eq:
  assumes "World_wf w" "f_state f < length (w_states w)"
  shows "\<exists>why w'. runIn4 f q w = Some ((if f_local f (ap_addr (Dst q)) \<and>
      policy_in ICMPv4 (f_matches4 f) (fst ` set (flows w (f_state f))) q then Accept else Drop, why), w') \<and>
    step_flows (f_state f) (if f_local f (ap_addr (Dst q)) \<and> is_flow q then lru_touch (flow_in q) else id) w w'"
proof -
  obtain e er where e: "IsEchoResponse q = Some e" "IsError q = Some er"
    using IsEchoResponse_total IsError_total by blast
  obtain w' where g: "state_Get f (flow_in q) w = Some (flow_in q \<in> fst ` set (flows w (f_state f)), w')"
      "step_flows (f_state f) (lru_touch (flow_in q)) w w'"
    using state_Get_step [OF assms] by blast
  note r = step_flows_refl [OF assms(1)]
  show ?thesis
  proof (cases "f_local f (ap_addr (Dst q)) \<and> is_flow q")
    case True
    then show ?thesis using g by (auto simp: runIn4_def policy_in_def is_flow_def)
  next
    case False
    then show ?thesis using e r by (auto simp: runIn4_def policy_in_def icmp_reply_def is_flow_def)
  qed
qed

lemma runIn6_eq:
  assumes "World_wf w" "f_state f < length (w_states w)"
  shows "\<exists>why w'. runIn6 f q w = Some ((if f_local f (ap_addr (Dst q)) \<and>
      policy_in ICMPv6 (f_matches6 f) (fst ` set (flows w (f_state f))) q then Accept else Drop, why), w') \<and>
    step_flows (f_state f) (if f_local f (ap_addr (Dst q)) \<and> is_flow q then lru_touch (flow_in q) else id) w w'"
proof -
  obtain e er where e: "IsEchoResponse q = Some e" "IsError q = Some er"
    using IsEchoResponse_total IsError_total by blast
  obtain w' where g: "state_Get f (flow_in q) w = Some (flow_in q \<in> fst ` set (flows w (f_state f)), w')"
      "step_flows (f_state f) (lru_touch (flow_in q)) w w'"
    using state_Get_step [OF assms] by blast
  note r = step_flows_refl [OF assms(1)]
  show ?thesis
  proof (cases "f_local f (ap_addr (Dst q)) \<and> is_flow q")
    case True
    then show ?thesis using g by (auto simp: runIn6_def policy_in_def is_flow_def)
  next
    case False
    then show ?thesis using e r by (auto simp: runIn6_def policy_in_def icmp_reply_def is_flow_def)
  qed
qed

lemma pre_cases:
  "pre f q rf dir now w = (r, w') \<Longrightarrow>
     (p_b q = [] \<and> r = Accept \<or>
      p_b q \<noteq> [] \<and> (length (p_b q) < 20 \<or> bad_dst (ap_addr (Dst q))) \<and> r = Drop \<or>
      length (p_b q) \<ge> 20 \<and> \<not> bad_dst (ap_addr (Dst q)) \<and> IPProto q = Fragment \<and> r = Accept \<or>
      length (p_b q) \<ge> 20 \<and> \<not> bad_dst (ap_addr (Dst q)) \<and> IPProto q \<noteq> Fragment \<and> r = noVerdict) \<and>
     w_states w' = w_states w"
  by (auto simp: pre_def bad_dst_def split: if_splits)

lemma pre_pass:
  "length (p_b q) \<ge> 20 \<Longrightarrow> \<not> bad_dst (ap_addr (Dst q)) \<Longrightarrow> IPProto q \<noteq> Fragment \<Longrightarrow>
     pre f q rf dir now w = (noVerdict, w)"
  by (auto simp: pre_def bad_dst_def)

lemma RunIn_verdict_step:
  assumes "World_wf w" "f_state f < length (w_states w)"
  shows "\<exists>w' g. RunIn f q rf now w =
      Some (if verdict_in f (fst ` set (flows w (f_state f))) q then Accept else Drop, w') \<and>
    (g = id \<or> is_flow q \<and> g = lru_touch (flow_in q)) \<and> step_flows (f_state f) g w w'"
proof -
  obtain r w1 where p: "pre f q rf dir_in now w = (r, w1)" by fastforce
  show ?thesis
  proof (cases "r = noVerdict")
    case False
    then show ?thesis using p pre_cases [OF p] step_flows_states [OF assms(1), of w1]
      by (auto simp: RunIn_def verdict_in_def Let_def)
  next
    case True
    then have c: "length (p_b q) \<ge> 20" "\<not> bad_dst (ap_addr (Dst q))" "IPProto q \<noteq> Fragment" "p_b q \<noteq> []"
      using pre_cases [OF p] by auto
    then have [simp]: "w1 = w" using p pre_pass [of q f rf dir_in now w] by simp
    obtain why4 w4 where 4: "runIn4 f q w = Some ((if f_local f (ap_addr (Dst q)) \<and>
        policy_in ICMPv4 (f_matches4 f) (fst ` set (flows w (f_state f))) q then Accept else Drop, why4), w4)"
        "step_flows (f_state f) (if f_local f (ap_addr (Dst q)) \<and> is_flow q then lru_touch (flow_in q) else id) w w4"
      using runIn4_eq [OF assms] by blast
    obtain why6 w6 where 6: "runIn6 f q w = Some ((if f_local f (ap_addr (Dst q)) \<and>
        policy_in ICMPv6 (f_matches6 f) (fst ` set (flows w (f_state f))) q then Accept else Drop, why6), w6)"
        "step_flows (f_state f) (if f_local f (ap_addr (Dst q)) \<and> is_flow q then lru_touch (flow_in q) else id) w w6"
      using runIn6_eq [OF assms] by blast
    consider "IPVersion q = 4" | "IPVersion q = 6" | "IPVersion q \<noteq> 4" "IPVersion q \<noteq> 6" by blast
    then show ?thesis
    proof cases
      case 1
      then show ?thesis using p True 4 c
        by (auto simp: RunIn_def verdict_in_def split: if_splits)
    next
      case 2
      then show ?thesis using p True 6 c
        by (auto simp: RunIn_def verdict_in_def split: if_splits)
    next
      case 3
      then show ?thesis using p True c step_flows_refl [OF assms(1)]
        by (auto simp: RunIn_def verdict_in_def)
    qed
  qed
qed

definition flow_back :: "Parsed \<Rightarrow> flowtuple" where
  "flow_back q = \<lparr>ft_Proto = IPProto q, ft_Src = Dst q, ft_Dst = Src q\<rparr>"

definition verdict_out :: "Parsed \<Rightarrow> bool" where
  "verdict_out q \<longleftrightarrow> p_b q = [] \<or> length (p_b q) \<ge> 20 \<and> \<not> bad_dst (ap_addr (Dst q))"

lemma RunOut_verdict_step:
  assumes "World_wf w" "f_state f < length (w_states w)"
  shows "\<exists>w'. RunOut f q rf now w = Some (if verdict_out q then Accept else Drop, w') \<and>
    step_flows (f_state f) (if p_b q \<noteq> [] \<and> verdict_out q \<and> is_flow q
      then lru_add lruMax (flow_back q) () else id) w w'"
proof -
  obtain r w1 where p: "pre f q rf dir_out now w = (r, w1)" by fastforce
  obtain w2 where 2: "state_Add f (flow_back q) w = Some w2"
      "step_flows (f_state f) (lru_add lruMax (flow_back q) ()) w w2"
    using state_Add_step [OF assms] by blast
  show ?thesis
  proof (cases "r = noVerdict")
    case False
    then show ?thesis using p pre_cases [OF p] step_flows_states [OF assms(1), of w1]
      by (auto simp: RunOut_def verdict_out_def is_flow_def Let_def)
  next
    case True
    then have c: "length (p_b q) \<ge> 20" "\<not> bad_dst (ap_addr (Dst q))" "IPProto q \<noteq> Fragment" "p_b q \<noteq> []"
      using pre_cases [OF p] by auto
    then have [simp]: "w1 = w" using p pre_pass [of q f rf dir_out now w] by simp
    show ?thesis using p True c 2 step_flows_refl [OF assms(1)]
      by (auto simp: RunOut_def runOut_def verdict_out_def is_flow_def flow_back_def)
  qed
qed

text \<open>
  C1. The filter decides every incoming packet, without a panic, exactly by its policy: a keepalive passes;
  a runt packet or one to a multicast or link-local address is dropped; a later fragment passes;
  everything else must be for a local address and pass the policy of its family, which for UDP and
  SCTP includes the tracked flows. The world stays well-formed.
\<close>

theorem RunIn_decides:
  assumes "World_wf w" "f_state f < length (w_states w)"
  shows "\<exists>w'. RunIn f q rf now w =
      Some (if verdict_in f (fst ` set (flows w (f_state f))) q then Accept else Drop, w') \<and>
    World_wf w' \<and> length (w_states w') = length (w_states w)"
  using RunIn_verdict_step [OF assms, of q rf now] by (auto simp: step_flows_def)

text \<open>The package's initial variables: no tracking state yet, the two limiters, an empty log.\<close>

definition initWorld :: World where
  "initWorld = \<lparr>w_states = [], w_acceptBucket = \<lparr>lim_limit = 1 / 10, lim_burst = 3, lim_tokens = 0, lim_last = 0\<rparr>,
     w_dropBucket = \<lparr>lim_limit = 1 / 5, lim_burst = 10, lim_tokens = 0, lim_last = 0\<rparr>, w_log = []\<rparr>"

lemma initWorld_buckets:
  "do { r \<leftarrow> Every (10 * 1000000000); NewLimiter r 3 } = Some (w_acceptBucket initWorld)"
  "do { r \<leftarrow> Every (5 * 1000000000); NewLimiter r 10 } = Some (w_dropBucket initWorld)"
  by (simp_all add: Every_def NewLimiter_def seconds_def initWorld_def)

lemma filter_New_wf:
  assumes "World_wf w" "share = None \<or> (\<exists>g. share = Some g \<and> f_state g < length (w_states w))"
    and "filter_New ms loc lg share w = (f, w')"
  shows "World_wf w' \<and> f_state f < length (w_states w') \<and> length (w_states w) \<le> length (w_states w') \<and>
    (\<forall>i < length (w_states w). flows w' i = flows w i) \<and>
    (case share of None \<Rightarrow> f_state f = length (w_states w) \<and> flows w' (f_state f) = []
     | Some g \<Rightarrow> f_state f = f_state g \<and> w' = w)"
  using assms
  by (auto simp: filter_New_def World_wf_def cache_ok_def flow.new_law flows_def nth_append)

definition sample_filter :: Filter where
  "sample_filter = fst (filter_New [] (\<lambda>_. True) (\<lambda>_. False) None initWorld)"

definition sample_world :: World where
  "sample_world = snd (filter_New [] (\<lambda>_. True) (\<lambda>_. False) None initWorld)"

lemma sample_world_wf:
  "World_wf sample_world" "f_state sample_filter < length (w_states sample_world)"
  "flows sample_world 0 = []" "f_state sample_filter = 0" "length (w_states sample_world) = 1"
  "f_local sample_filter = (\<lambda>_. True)" "f_matches4 sample_filter = []" "f_matches6 sample_filter = []"
  using filter_New_wf [of initWorld None "[]" "\<lambda>_. True" "\<lambda>_. False" sample_filter sample_world]
  by (simp_all add: sample_filter_def sample_world_def filter_New_def initWorld_def World_wf_def
      flows_def cache_ok_def flow.new_law)

theorem RunIn_decides_witness:
  "\<exists>w'. RunIn sample_filter zeroParsed 3 0 sample_world =
      Some (if verdict_in sample_filter (fst ` set (flows sample_world (f_state sample_filter))) zeroParsed
            then Accept else Drop, w') \<and>
    World_wf w' \<and> length (w_states w') = length (w_states sample_world)"
  by (rule RunIn_decides [OF sample_world_wf(1,2)])

text \<open>
  C4. A packet that is accepted is for us: apart from keepalives and non-first fragments, the destination of
  every accepted incoming packet is in the filter's local set, whatever the rules say and whatever
  flows are tracked.
\<close>

theorem RunIn_accept_local:
  assumes "World_wf w" "f_state f < length (w_states w)" "RunIn f q rf now w = Some (Accept, w')"
  shows "p_b q = [] \<or> IPProto q = Fragment \<or> f_local f (ap_addr (Dst q))"
  using RunIn_verdict_step [OF assms(1,2), of q rf now] assms(3)
  by (auto simp: verdict_in_def split: if_splits)

definition sample_udp :: Parsed where
  "sample_udp = zeroParsed\<lparr>p_b := replicate 28 0, IPVersion := 4, IPProto := UDP,
     Src := AddrPortFrom (V4 0x64400001) 5000, Dst := AddrPortFrom (V4 0x64400002) 53\<rparr>"

definition sample_tsmp :: Parsed where
  "sample_tsmp = sample_udp\<lparr>IPProto := TSMP\<rparr>"

lemma not_bad_sample: "\<not> bad_dst (V4 0x64400002)" "\<not> bad_dst (V4 0x64400001)"
  by (simp_all add: bad_dst_def drop_bit_eq_div)

lemma sample_tsmp_accepted:
  "\<exists>w'. RunIn sample_filter sample_tsmp 0 0 sample_world = Some (Accept, w')"
proof -
  have "verdict_in sample_filter ts sample_tsmp" for ts
    using not_bad_sample
    by (simp add: verdict_in_def sample_tsmp_def sample_udp_def AddrPortFrom_def sample_world_wf policy_in_def)
  then show ?thesis
    using RunIn_verdict_step [OF sample_world_wf(1,2), of sample_tsmp 0 0] by auto
qed

theorem RunIn_accept_local_witness:
  "p_b sample_tsmp = [] \<or> IPProto sample_tsmp = Fragment \<or> f_local sample_filter (ap_addr (Dst sample_tsmp))"
proof -
  obtain w' where "RunIn sample_filter sample_tsmp 0 0 sample_world = Some (Accept, w')"
    using sample_tsmp_accepted by blast
  then show ?thesis by (rule RunIn_accept_local [OF sample_world_wf(1,2)])
qed

subsection \<open>Sequences of packets\<close>

datatype event = EvIn Filter Parsed RunFlags int | EvOut Filter Parsed RunFlags int

fun ev_state :: "event \<Rightarrow> nat" where
  "ev_state (EvIn f _ _ _) = f_state f"
| "ev_state (EvOut f _ _ _) = f_state f"

fun do_event :: "event \<Rightarrow> World \<Rightarrow> World option" where
  "do_event (EvIn f q rf now) w = map_option snd (RunIn f q rf now w)"
| "do_event (EvOut f q rf now) w = map_option snd (RunOut f q rf now w)"

fun run_events :: "event list \<Rightarrow> World \<Rightarrow> World option" where
  "run_events [] w = Some w"
| "run_events (ev # evs) w = do { w' \<leftarrow> do_event ev w; run_events evs w' }"

text \<open>What an event can do to the flows of its state.\<close>

definition ev_effect :: "event \<Rightarrow> ((flowtuple \<times> unit) list \<Rightarrow> (flowtuple \<times> unit) list) \<Rightarrow> bool" where
  "ev_effect ev g \<longleftrightarrow> g = id \<or> (\<exists>t. g = lru_touch t) \<or>
     (\<exists>f q rf now. ev = EvOut f q rf now \<and> is_flow q \<and> g = lru_add lruMax (flow_back q) ())"

lemma do_event_step:
  assumes "World_wf w" "ev_state ev < length (w_states w)"
  shows "\<exists>w' g. do_event ev w = Some w' \<and> ev_effect ev g \<and> step_flows (ev_state ev) g w w'"
proof (cases ev)
  case (EvIn f q rf now)
  then show ?thesis using RunIn_verdict_step [of w f q rf now] assms by (auto simp: ev_effect_def)
next
  case (EvOut f q rf now)
  then show ?thesis using RunOut_verdict_step [of w f q rf now] assms
    by (fastforce simp: ev_effect_def split: if_splits)
qed

lemma step_flows_wf: "step_flows i g w w' \<Longrightarrow> World_wf w' \<and> length (w_states w') = length (w_states w)"
  by (simp add: step_flows_def)

lemma run_events_wf:
  assumes "World_wf w" "\<forall>ev\<in>set evs. ev_state ev < length (w_states w)"
  shows "\<exists>w'. run_events evs w = Some w' \<and> World_wf w' \<and> length (w_states w') = length (w_states w)"
  using assms
proof (induction evs arbitrary: w)
  case (Cons ev evs)
  then obtain w1 g where 1: "do_event ev w = Some w1" "step_flows (ev_state ev) g w w1"
    using do_event_step [of w ev] by auto
  then show ?case using Cons.IH [of w1] Cons.prems step_flows_wf [OF 1(2)] by simp
qed simp

text \<open>A tracked flow stays tracked for as many events as the cache has room for.\<close>

lemma ev_effect_survives:
  assumes "ev_effect ev g" "map_of es t = Some ()" "lru_pos t es + 1 < 512"
  shows "map_of (g es) t = Some () \<and> lru_pos t (g es) \<le> lru_pos t es + 1"
proof -
  from assms(1) consider (i) "g = id" | (t) u where "g = lru_touch u" | (a) u where "g = lru_add lruMax u ()"
    by (auto simp: ev_effect_def)
  then show ?thesis
  proof cases
    case (a u)
    then show ?thesis using assms(2,3) lru_add_survives [of es t "()" u lruMax "()"]
        map_of_lru_add_same [of lruMax t "()" es] lru_pos_add_same [of lruMax t "()" es]
      by (cases "u = t") auto
  next
    case (t u)
    then show ?thesis using lru_touch_survives [OF assms(2), of u] by simp
  qed (use assms(2) in simp)
qed

lemma run_events_survives:
  assumes "World_wf w" "\<forall>ev\<in>set evs. ev_state ev < length (w_states w)" "i < length (w_states w)"
    and "map_of (flows w i) t = Some ()" "lru_pos t (flows w i) + length evs < 512"
    and "run_events evs w = Some w'"
  shows "map_of (flows w' i) t = Some ()"
  using assms
proof (induction evs arbitrary: w)
  case (Cons ev evs)
  then obtain w1 g where 1: "do_event ev w = Some w1" "ev_effect ev g" "step_flows (ev_state ev) g w w1"
    using do_event_step [of w ev] by auto
  have s: "map_of (flows w1 i) t = Some () \<and> lru_pos t (flows w1 i) \<le> lru_pos t (flows w i) + 1"
    using ev_effect_survives [OF 1(2), of "flows w i" t] 1(3) Cons.prems
    by (cases "i = ev_state ev") (auto simp: step_flows_def)
  show ?case
  proof (rule Cons.IH [of w1])
    show "World_wf w1" "\<forall>ev\<in>set evs. ev_state ev < length (w_states w1)" "i < length (w_states w1)"
      using step_flows_wf [OF 1(3)] Cons.prems by auto
    show "map_of (flows w1 i) t = Some ()" "lru_pos t (flows w1 i) + length evs < 512"
      using s Cons.prems(5) by auto
    show "run_events evs w1 = Some w'" using 1(1) Cons.prems(6) by simp
  qed
qed simp

text \<open>
  C3. Replies to outgoing traffic are let in: after a UDP or SCTP packet has gone out through a filter, any
  sequence of at most 511 further packets in either direction, through any filters, leaves the flow
  tracked, and the reply is accepted by every filter that shares the state, even with no rule for it.
\<close>

theorem reply_accepted:
  assumes "World_wf w" "f_state f < length (w_states w)"
    and "\<forall>ev\<in>set evs. ev_state ev < length (w_states w)" "length evs \<le> 511"
    and "is_flow p" "length (p_b p) \<ge> 20" "\<not> bad_dst (ap_addr (Dst p))"
    and "RunOut f p rf now w = Some (r, w1)" "run_events evs w1 = Some w2"
    and "IPProto q = IPProto p" "Src q = Dst p" "Dst q = Src p"
    and "length (p_b q) \<ge> 20" "\<not> bad_dst (ap_addr (Dst q))" "IPVersion q = 4 \<or> IPVersion q = 6"
    and "f_state g = f_state f" "f_local g (ap_addr (Dst q))"
  shows "r = Accept \<and> (\<exists>w3. RunIn g q rf' now' w2 = Some (Accept, w3))"
proof -
  have "verdict_out p" "p_b p \<noteq> []" using assms(6,7) by (auto simp: verdict_out_def)
  then have r: "r = Accept" and s: "step_flows (f_state f) (lru_add lruMax (flow_back p) ()) w w1"
    using RunOut_verdict_step [OF assms(1,2), of p rf now] assms(5,8) by auto
  let ?i = "f_state f" and ?t = "flow_back p"
  have w1: "World_wf w1" "length (w_states w1) = length (w_states w)" using step_flows_wf [OF s] by simp_all
  have "flows w1 ?i = lru_add lruMax ?t () (flows w ?i)" using s assms(2) by (simp add: step_flows_def)
  then have "map_of (flows w1 ?i) ?t = Some ()" "lru_pos ?t (flows w1 ?i) = 0"
    by (simp_all add: map_of_lru_add_same lru_pos_add_same)
  then have "map_of (flows w2 ?i) ?t = Some ()"
    using run_events_survives [OF w1(1), of evs ?i ?t w2] assms(2-4,9) w1(2) by simp
  then have "?t \<in> fst ` set (flows w2 ?i)" by (force dest: map_of_SomeD)
  moreover have "flow_in q = ?t" using assms(10-12) by (simp add: flow_in_def flow_back_def)
  moreover have "p_b q \<noteq> []" "IPProto q \<noteq> Fragment" "IPProto q \<noteq> ICMPv4" "IPProto q \<noteq> ICMPv6" "IPProto q \<noteq> TCP"
    using assms(5,10,13) by (auto simp: is_flow_def)
  ultimately have "verdict_in g (fst ` set (flows w2 (f_state g))) q"
    using assms(5,10,13-17) by (auto simp: verdict_in_def policy_in_def is_flow_def)
  moreover have "World_wf w2" "f_state g < length (w_states w2)"
    using run_events_wf [OF w1(1), of evs] assms(2,3,9,16) w1(2) by auto
  ultimately show ?thesis using r RunIn_verdict_step [of w2 g q rf' now'] by auto
qed

definition sample_udp_reply :: Parsed where
  "sample_udp_reply = sample_udp\<lparr>Src := Dst sample_udp, Dst := Src sample_udp\<rparr>"

theorem reply_accepted_witness:
  "\<exists>w1 w2 w3. RunOut sample_filter sample_udp 0 0 sample_world = Some (Accept, w1) \<and>
     run_events [EvIn sample_filter sample_tsmp 0 1] w1 = Some w2 \<and>
     RunIn sample_filter sample_udp_reply 0 2 w2 = Some (Accept, w3)"
proof -
  have ok: "is_flow sample_udp" "length (p_b sample_udp) \<ge> 20" "\<not> bad_dst (ap_addr (Dst sample_udp))"
    "IPProto sample_udp_reply = IPProto sample_udp" "Src sample_udp_reply = Dst sample_udp"
    "Dst sample_udp_reply = Src sample_udp" "length (p_b sample_udp_reply) \<ge> 20"
    "\<not> bad_dst (ap_addr (Dst sample_udp_reply))" "IPVersion sample_udp_reply = 4 \<or> IPVersion sample_udp_reply = 6"
    "f_local sample_filter (ap_addr (Dst sample_udp_reply))"
    using not_bad_sample
    by (simp_all add: sample_udp_def sample_udp_reply_def is_flow_def AddrPortFrom_def sample_world_wf)
  obtain r w1 g where w1: "RunOut sample_filter sample_udp 0 0 sample_world = Some (r, w1)"
      "step_flows (f_state sample_filter) g sample_world w1"
    using RunOut_verdict_step [OF sample_world_wf(1,2), of sample_udp 0 0] by blast
  have evs: "\<forall>ev\<in>set [EvIn sample_filter sample_tsmp 0 1]. ev_state ev < length (w_states sample_world)"
    by (simp add: sample_world_wf)
  then obtain w2 where w2: "run_events [EvIn sample_filter sample_tsmp 0 1] w1 = Some w2"
    using run_events_wf [of w1 "[EvIn sample_filter sample_tsmp 0 1]"] step_flows_wf [OF w1(2)] by auto
  show ?thesis
    using reply_accepted [OF sample_world_wf(1,2) evs _ ok(1-3) w1(1) w2 ok(4-9) refl ok(10), of 0 2] w1(1) w2
    by auto
qed

text \<open>Where tracked flows come from.\<close>

fun ev_sent :: "nat \<Rightarrow> event \<Rightarrow> flowtuple set" where
  "ev_sent i (EvOut f q _ _) = (if f_state f = i \<and> is_flow q then {flow_back q} else {})"
| "ev_sent i (EvIn _ _ _ _) = {}"

definition sent_flows :: "nat \<Rightarrow> event list \<Rightarrow> flowtuple set" where
  "sent_flows i evs = (\<Union>ev\<in>set evs. ev_sent i ev)"

lemma ev_sentD: "t \<in> ev_sent i ev \<Longrightarrow> \<exists>f q rf now. ev = EvOut f q rf now \<and> f_state f = i \<and> t = flow_back q"
  by (cases ev) (auto split: if_splits)

lemma fst_lru_add: "fst ` set (lru_add n t v es) \<subseteq> insert t (fst ` set es)"
  by (auto simp: lru_add_def lru_evict_def lru_drop_def dest: in_set_butlastD)

lemma fst_lru_touch: "fst ` set (lru_touch t es) \<subseteq> fst ` set es"
  by (cases "map_of es t") (auto simp: lru_touch_def lru_drop_def dest!: map_of_SomeD intro: rev_image_eqI)

lemma ev_effect_sent:
  assumes "ev_effect ev g"
  shows "fst ` set (g es) \<subseteq> fst ` set es \<union> ev_sent (ev_state ev) ev"
proof -
  from assms consider (i) "g = id" | (t) u where "g = lru_touch u"
    | (a) f q rf now where "ev = EvOut f q rf now" "is_flow q" "g = lru_add lruMax (flow_back q) ()"
    by (auto simp: ev_effect_def)
  then show ?thesis
  proof cases
    case (t u)
    then show ?thesis using fst_lru_touch [of u es] by auto
  next
    case (a f q rf now)
    then have "ev_sent (ev_state ev) ev = {flow_back q}" by simp
    with a(3) fst_lru_add [of lruMax "flow_back q" "()" es] show ?thesis by simp
  qed simp
qed

lemma run_events_sent:
  assumes "World_wf w" "\<forall>ev\<in>set evs. ev_state ev < length (w_states w)" "i < length (w_states w)"
    and "run_events evs w = Some w'"
  shows "fst ` set (flows w' i) \<subseteq> fst ` set (flows w i) \<union> sent_flows i evs"
  using assms
proof (induction evs arbitrary: w)
  case (Cons ev evs)
  then obtain w1 g where 1: "do_event ev w = Some w1" "ev_effect ev g" "step_flows (ev_state ev) g w w1"
    using do_event_step [of w ev] by auto
  have "fst ` set (flows w1 i) \<subseteq> fst ` set (flows w i) \<union> ev_sent i ev"
    using ev_effect_sent [OF 1(2), of "flows w i"] 1(3) Cons.prems(3)
    by (cases "i = ev_state ev") (auto simp: step_flows_def)
  moreover have "fst ` set (flows w' i) \<subseteq> fst ` set (flows w1 i) \<union> sent_flows i evs"
    using Cons.IH [of w1] Cons.prems step_flows_wf [OF 1(3)] 1(1) by simp
  moreover have "sent_flows i (ev # evs) = ev_sent i ev \<union> sent_flows i evs"
    by (simp add: sent_flows_def)
  ultimately show ?case by blast
qed simp

text \<open>
  C2. Unsolicited traffic is not let in: starting from a fresh tracking state, whatever packets passed in
  whatever order through whatever filters, an incoming UDP or SCTP packet that no rule admits is
  accepted only if an outgoing packet of the reversed flow went through the same state before.
\<close>

theorem accepted_was_solicited:
  assumes "World_wf w" "\<forall>ev\<in>set evs. ev_state ev < length (w_states w)"
    and "f_state f < length (w_states w)" "flows w (f_state f) = []"
    and "run_events evs w = Some w1" "RunIn f q rf now w1 = Some (Accept, w2)"
    and "is_flow q" "p_b q \<noteq> []"
    and "\<not> matches_match (f_matches4 f) q" "\<not> matches_match (f_matches6 f) q"
  shows "\<exists>g p rf' now'. EvOut g p rf' now' \<in> set evs \<and> f_state g = f_state f \<and>
    IPProto p = IPProto q \<and> Src p = Dst q \<and> Dst p = Src q"
proof -
  obtain w' where w': "run_events evs w = Some w'" "World_wf w'" "length (w_states w') = length (w_states w)"
    using run_events_wf [OF assms(1,2)] by blast
  then have "verdict_in f (fst ` set (flows w1 (f_state f))) q"
    using RunIn_verdict_step [of w1 f q rf now] assms(3,5,6) by (auto split: if_splits)
  then have "flow_in q \<in> fst ` set (flows w1 (f_state f))"
    using assms(7-10) by (auto simp: verdict_in_def policy_in_def is_flow_def)
  then have "flow_in q \<in> sent_flows (f_state f) evs"
    using run_events_sent [OF assms(1-3,5)] assms(4) by auto
  then obtain ev where ev: "ev \<in> set evs" "flow_in q \<in> ev_sent (f_state f) ev" by (auto simp: sent_flows_def)
  from ev_sentD [OF ev(2)] obtain g p rf' now' where
    "ev = EvOut g p rf' now'" "f_state g = f_state f" "flow_in q = flow_back p" by blast
  with ev(1) show ?thesis by (auto simp: flow_in_def flow_back_def)
qed

lemma sample_solicited:
  "\<exists>w1 w2. run_events [EvOut sample_filter sample_udp 0 0] sample_world = Some w1 \<and>
     RunIn sample_filter sample_udp_reply 0 2 w1 = Some (Accept, w2)"
proof -
  have ok: "verdict_out sample_udp" "p_b sample_udp \<noteq> []" "is_flow sample_udp"
    "flow_in sample_udp_reply = flow_back sample_udp" "IPProto sample_udp_reply = UDP"
    "IPVersion sample_udp_reply = 4" "length (p_b sample_udp_reply) \<ge> 20"
    "\<not> bad_dst (ap_addr (Dst sample_udp_reply))"
    using not_bad_sample
    by (simp_all add: sample_udp_def sample_udp_reply_def is_flow_def AddrPortFrom_def verdict_out_def
        flow_in_def flow_back_def)
  obtain w1 where w1: "RunOut sample_filter sample_udp 0 0 sample_world = Some (Accept, w1)"
      "step_flows 0 (lru_add lruMax (flow_back sample_udp) ()) sample_world w1"
    using RunOut_verdict_step [OF sample_world_wf(1,2), of sample_udp 0 0] ok(1-3) sample_world_wf(4) by auto
  then have "flows w1 0 = [(flow_back sample_udp, ())]"
    using sample_world_wf(3,5) by (simp add: step_flows_def lru_add_def lru_evict_def)
  then have "verdict_in sample_filter (fst ` set (flows w1 (f_state sample_filter))) sample_udp_reply"
    using ok sample_world_wf by (auto simp: verdict_in_def policy_in_def)
  then show ?thesis
    using w1(1) RunIn_verdict_step [of w1 sample_filter sample_udp_reply 0 2] step_flows_wf [OF w1(2)]
      sample_world_wf by auto
qed

theorem accepted_was_solicited_witness:
  "\<exists>g p rf' now'. EvOut g p rf' now' \<in> set [EvOut sample_filter sample_udp 0 0] \<and>
     f_state g = f_state sample_filter \<and> IPProto p = IPProto sample_udp_reply \<and>
     Src p = Dst sample_udp_reply \<and> Dst p = Src sample_udp_reply"
proof -
  obtain w1 w2 where w: "run_events [EvOut sample_filter sample_udp 0 0] sample_world = Some w1"
      "RunIn sample_filter sample_udp_reply 0 2 w1 = Some (Accept, w2)"
    using sample_solicited by blast
  show ?thesis
    by (rule accepted_was_solicited [OF sample_world_wf(1) _ sample_world_wf(2) _ w])
      (simp_all add: sample_world_wf is_flow_def sample_udp_def sample_udp_reply_def)
qed

subsection \<open>Shields up, shared state, \<open>CheckTCP\<close>, capabilities\<close>

lemma no_rules [simp]: "\<not> matches_match [] q" "\<not> matchIPsOnly [] q" "\<not> matchProtoAndIPsOnlyIfAllPorts [] q"
  by simp_all



lemma logRateLimit_quiet: "logRateLimit f 0 q dir r why now w = w"
  by (simp add: logRateLimit_def)

lemma pre_quiet: "snd (pre f q 0 dir now w) = w"
  by (simp add: pre_def logRateLimit_quiet)

lemma RunIn_tcp_syn:
  assumes "length (p_b q) \<ge> 20" "IPProto q = TCP" "IsTCPSyn q"
  shows "RunIn f q 0 now w = Some (if \<not> bad_dst (ap_addr (Dst q)) \<and> f_local f (ap_addr (Dst q)) \<and>
     (IPVersion q = 4 \<and> matches_match (f_matches4 f) q \<or> IPVersion q = 6 \<and> matches_match (f_matches6 f) q)
     then Accept else Drop, w)"
proof (cases "bad_dst (ap_addr (Dst q))")
  case True
  then have "pre f q 0 dir_in now w = (Drop, w)"
    using assms by (auto simp: pre_def bad_dst_def logRateLimit_quiet)
  then show ?thesis using True by (simp add: RunIn_def)
next
  case False
  then have "pre f q 0 dir_in now w = (noVerdict, w)" using assms by (intro pre_pass) auto
  then show ?thesis using False assms(2,3)
    by (auto simp: RunIn_def runIn4_def runIn6_def logRateLimit_quiet)
qed

text \<open>
  \<open>CheckTCP\<close> answers the policy question and nothing else: on a filter built from the rules \<open>ms\<close> it
  accepts exactly if the destination is local, not multicast or link-local, both addresses are of one
  family, and some rule admits a TCP connection to that address and port; the world is unchanged.
\<close>

theorem CheckTCP_spec:
  assumes "filter_New ms loc lg share w0 = (f, w1)" "Is4 src \<or> Is6 src"
  shows "CheckTCP f src dst port now w = Some (if \<not> bad_dst dst \<and> loc dst \<and>
      (Is4 src \<and> Is4 dst \<or> Is6 src \<and> Is6 dst) \<and>
      (\<exists>m\<in>set ms. rule_admits m TCP src (AddrPortFrom dst port)) then Accept else Drop, w)"
proof -
  obtain pkt where pkt: "Decode zeroParsed dummyPacket = Some pkt" "p_b pkt = dummyPacket"
    using Decode_Some Decode_p_b by blast
  have f: "f_matches4 f = matchesFamily ms Is4" "f_matches6 f = matchesFamily ms Is6" "f_local f = loc"
    using assms(1) by (auto simp: filter_New_def split: prod.splits)
  have n: "Is4 src \<Longrightarrow> \<not> Is6 src" "Is4 dst \<Longrightarrow> \<not> Is6 dst" by (auto elim: Is4.elims)
  define q where "q v = pkt\<lparr>IPVersion := v, Src := AddrPortFrom src 0, Dst := AddrPortFrom dst port,
                    IPProto := TCP, TCPFlags := TCPSyn\<rparr>" for v
  have q: "length (p_b (q v)) \<ge> 20" "IPProto (q v) = TCP" "IsTCPSyn (q v)" for v
    using pkt(2) by (simp_all add: q_def dummyPacket_def IsTCPSyn_def)
  have m: "matches_match (matchesFamily ms keep) (q v) \<longleftrightarrow>
      keep src \<and> keep dst \<and> (\<exists>m\<in>set ms. rule_admits m TCP src (AddrPortFrom dst port))" if "family keep" for keep v
    unfolding matchesFamily_all(1) [OF that] unfolding matches_match_iff by (simp add: q_def AddrPortFrom_def)
  have qq: "ap_addr (Dst (q v)) = dst" "IPVersion (q v) = v" for v by (simp_all add: q_def AddrPortFrom_def)
  show ?thesis
  proof (cases "Is4 src \<and> Is6 dst")
    case True
    then have "\<not> Is6 src" "\<not> Is4 dst" using n by blast+
    with True pkt(1) show ?thesis by (simp add: CheckTCP_def)
  next
    case False
    then have "CheckTCP f src dst port now w = RunIn f (q (if Is4 src then 4 else 6)) 0 now w"
      using pkt(1) assms(2) n(1) by (cases "Is4 src") (simp_all add: CheckTCP_def q_def)
    moreover have "Is4 src \<or> Is6 src \<and> \<not> Is4 src" using assms(2) by blast
    ultimately show ?thesis using False n(1)
      by (cases "Is4 src") (simp_all add: RunIn_tcp_syn [OF q] qq f m [OF family_Is4] m [OF family_Is6])
  qed
qed

theorem CheckTCP_spec_witness: "CheckTCP sample_filter (V4 1) (V6 2 []) 80 0 initWorld = Some (Drop, initWorld)"
proof -
  obtain f w where n: "filter_New [] (\<lambda>_. True) (\<lambda>_. False) None initWorld = (f, w)" by fastforce
  then have "f = sample_filter" by (simp add: sample_filter_def)
  then show ?thesis using CheckTCP_spec [OF n, of "V4 1" "V6 2 []" 80 0 initWorld] by simp
qed

text \<open>The grants that apply to a pair of addresses, in rule order.\<close>

definition grants :: "addr \<Rightarrow> addr \<Rightarrow> Match list \<Rightarrow> CapMatch list" where
  "grants s d ms = concat (map (\<lambda>m. if ipInList s (m_Srcs m)
     then filter (\<lambda>cm. cm_Cap cm \<noteq> [] \<and> Contains (cm_Dst cm) d) (m_Caps m) else []) ms)"

definition cap_add :: "string list option \<Rightarrow> CapMatch list \<Rightarrow> string list option" where
  "cap_add v cms = (if cms = [] then v
     else Some ((case v of None \<Rightarrow> [] | Some prev \<Rightarrow> prev) @ concat (map cm_Values cms)))"

lemma cap_add_append: "cap_add (cap_add v xs) ys = cap_add v (xs @ ys)"
  by (simp add: cap_add_def split: option.splits)

lemma caps_loop_eq:
  "caps_loop d cms out cap =
     cap_add (out cap) (filter (\<lambda>cm. cm_Cap cm = cap) (filter (\<lambda>cm. cm_Cap cm \<noteq> [] \<and> Contains (cm_Dst cm) d) cms))"
proof (induction cms arbitrary: out)
  case (Cons cm cms)
  show ?case
    by (cases "out (cm_Cap cm)") (auto simp: Cons.IH cap_add_def split: option.splits)
qed (simp add: cap_add_def)

lemma caps_rules_eq:
  "caps_rules s d ms out cap = cap_add (out cap) (filter (\<lambda>cm. cm_Cap cm = cap) (grants s d ms))"
proof (induction ms arbitrary: out)
  case (Cons m ms)
  show ?case
  proof (cases "ipInList s (m_Srcs m)")
    case True
    then have "grants s d (m # ms) = filter (\<lambda>cm. cm_Cap cm \<noteq> [] \<and> Contains (cm_Dst cm) d) (m_Caps m) @ grants s d ms"
      by (simp add: grants_def)
    then show ?thesis using True by (simp add: Cons.IH caps_loop_eq cap_add_append)
  next
    case False
    then show ?thesis by (simp add: Cons.IH grants_def)
  qed
qed (simp add: cap_add_def grants_def)

lemma grants_capMatches:
  assumes "family keep" "keep s"
  shows "grants s d (capMatchesFunc ms keep) = grants s d ms"
proof (induction ms)
  case (Cons m ms)
  have "ipInList s (filter (\<lambda>src. keep (pfx_addr src)) (m_Srcs m)) = ipInList s (m_Srcs m)"
    using assms by (auto simp: ipInList_iff family_def)
  then show ?case using Cons.IH by (auto simp: grants_def Let_def filter_empty_conv ipInList_iff)
qed (simp add: grants_def)

text \<open>
  \<open>CapsWithValues\<close> returns exactly the granted capabilities: for a filter built from the rules \<open>ms\<close> and a
  valid source address, a capability is in the result if and only if some rule grants it to the pair of
  addresses, and its values are those of all such grants, in rule order.
\<close>

theorem CapsWithValues_spec:
  assumes "filter_New ms loc lg share w0 = (f, w1)" "Is4 src \<or> Is6 src"
  shows "CapsWithValues f src dst cap =
    (let gs = filter (\<lambda>cm. cm_Cap cm = cap) (grants src dst ms)
     in if gs = [] then None else Some (concat (map cm_Values gs)))"
proof -
  have f: "f_cap4 f = capMatchesFunc ms Is4" "f_cap6 f = capMatchesFunc ms Is6"
    using assms(1) by (auto simp: filter_New_def split: prod.splits)
  have "grants src dst (if Is4 src then f_cap4 f else if Is6 src then f_cap6 f else []) = grants src dst ms"
    using assms(2) grants_capMatches [OF family_Is4, of src] grants_capMatches [OF family_Is6, of src]
    by (auto simp: f)
  then show ?thesis
    by (simp only: CapsWithValues_def Let_def caps_rules_eq) (simp add: cap_add_def)
qed

definition sample_caps :: "Match list" where
  "sample_caps = [zeroMatch\<lparr>m_Srcs := [Prefix (V4 0) 0], m_Caps :=
     [\<lparr>cm_Dst = Prefix (V4 0) 0, cm_Cap = ''ssh'', cm_Values = [''a'']\<rparr>,
      \<lparr>cm_Dst = Prefix (V4 0) 0, cm_Cap = ''ssh'', cm_Values = [''b'']\<rparr>]\<rparr>]"

theorem CapsWithValues_spec_witness:
  "CapsWithValues (fst (filter_New sample_caps (\<lambda>_. True) (\<lambda>_. False) None initWorld)) (V4 1) (V4 2) ''ssh'' = Some [''a'', ''b'']"
proof -
  obtain f w where n: "filter_New sample_caps (\<lambda>_. True) (\<lambda>_. False) None initWorld = (f, w)" by fastforce
  have "Contains (Prefix (V4 0) 0) (V4 x)" for x by (simp add: Contains_def pfx_valid_def)
  then have "grants (V4 1) (V4 2) sample_caps = m_Caps (hd sample_caps)"
    by (simp add: grants_def sample_caps_def)
  then show ?thesis using CapsWithValues_spec [OF n, of "V4 1" "V4 2" "''ssh''"] n
    by (simp add: sample_caps_def)
qed

end
