(* ===== verification/Netip_Wire.thy ===== *)
theory Netip_Wire
  imports Netip
begin

unbundle bit_operations_syntax

section \<open>Addresses in sixteen bytes\<close>

text \<open>
  The discovery and the STUN protocol carry every address in the sixteen bytes of \<open>As16\<close> and read it back
  with \<open>AddrFrom16\<close> and \<open>Unmap\<close> of the standard package \<open>net/netip\<close>. The lemma \<open>Unmap_As16\<close> says what
  comes back.
\<close>

fun Unmap :: "addr \<Rightarrow> addr" where
  "Unmap (V6 w z) = (if Is4In6_word w then V4 (ucast w) else V6 w z)"
| "Unmap a = a"

subsection \<open>What comes back\<close>

lemma be_word_append: "be_word (xs @ ys) = push_bit (8 * length ys) (be_word xs) OR be_word ys"
proof (induction ys rule: rev_induct)
  case (snoc y ys)
  then show ?case by (simp add: be_word_snoc push_bit_or or.assoc flip: append_assoc)
qed simp

lemma be_word_zeros [simp]: "be_word (replicate n 0) = 0"
  by (rule bit_word_eqI) (auto simp: bit_be_word)

lemma be_word_ucast:
  assumes "8 * length bs \<le> LENGTH('b::len)" "LENGTH('b) \<le> LENGTH('a::len)"
  shows "(be_word bs :: 'a word) = ucast (be_word bs :: 'b word)"
proof (rule bit_word_eqI)
  fix k assume "k < LENGTH('a)"
  moreover have "k div 8 < length bs \<Longrightarrow> k < LENGTH('b)" using assms(1) by linarith
  ultimately show "bit (be_word bs :: 'a word) k \<longleftrightarrow> bit (ucast (be_word bs :: 'b word) :: 'a word) k"
    by (auto simp: bit_be_word bit_simps)
qed

text \<open>What is left of an address on the wire: no zone, and an IPv4 address inside IPv6 becomes an IPv4 address.\<close>

fun on_wire :: "addr \<Rightarrow> addr" where
  "on_wire AddrZero = V6 0 []"
| "on_wire (V4 w) = V4 w"
| "on_wire (V6 w z) = (if Is4In6_word w then V4 (ucast w) else V6 w [])"

lemma v4_in_v6: "(be_word (replicate 10 0 @ [0xff, 0xff] @ be_bytes 4 (w :: u32)) :: u128) = push_bit 32 0xffff OR ucast w"
proof -
  have "(be_word (be_bytes 4 w) :: u128) = ucast w"
    using be_word_ucast [of "be_bytes 4 w", where 'a = 128 and 'b = 32] by simp
  moreover have "(be_word [0xff, 0xff] :: u128) = 0xffff" by (simp add: be_word_def)
  then have "(be_word (replicate 10 0 @ [0xff, 0xff]) :: u128) = 0xffff" by (simp add: be_word_append [of "replicate 10 0"])
  ultimately show ?thesis
    using be_word_append [where 'a = 128, of "replicate 10 0 @ [0xff, 0xff]" "be_bytes 4 w"] by simp
qed

lemma Unmap_As16: "Unmap (AddrFrom16 (As16 a)) = on_wire a"
proof (cases a)
  case AddrZero
  then show ?thesis by (simp add: AddrFrom16_def Is4In6_word_def)
next
  case (V4 w)
  have "drop_bit 32 (push_bit 32 0xffff OR ucast w :: u128) = 0xffff"
    by (rule bit_word_eqI) (auto simp: bit_simps dest: bit_imp_le_length)
  moreover have "(ucast (push_bit 32 0xffff OR ucast w :: u128) :: u32) = w"
  proof -
    have "(ucast (push_bit 32 0xffff :: u128) :: u32) = 0" by simp
    moreover have "ucast (ucast w :: u128) = w" by (rule bit_word_eqI) (simp add: bit_simps)
    ultimately show ?thesis by (simp only: unsigned_or_eq or.left_neutral)
  qed
  ultimately show ?thesis using V4 v4_in_v6 [of w] by (simp add: AddrFrom16_def Is4In6_word_def)
next
  case (V6 w z)
  then show ?thesis by simp
qed

lemma on_wire_idem [simp]: "on_wire (on_wire a) = on_wire a"
  by (cases a) (simp_all add: Is4In6_word_def)

end
