(* ===== verification/Disco.thy ===== *)
theory Disco
  imports Netip_Wire
begin

unbundle bit_operations_syntax

section \<open>Package \<open>disco\<close>: discovery messages\<close>

text \<open>
  \<open>src/disco/disco.go\<close> and \<open>pcap.go\<close>: how the messages by which nodes find direct paths to each other are
  recognised, parsed and marshaled. What the secretbox around a message does is not part of the package.
  \<open>None\<close> is a panic. A node key is its 32 bytes; the padding of a ping is a number of bytes.
\<close>

subsection \<open>The wrapper\<close>

definition disco_Magic :: bytes where "disco_Magic = [0x54, 0x53, 0xf0, 0x9f, 0x92, 0xac]"
definition disco_keyLen :: nat where [simp]: "disco_keyLen = 32"
definition disco_NonceLen :: nat where [simp]: "disco_NonceLen = 24"

definition LooksLikeDiscoWrapper :: "bytes \<Rightarrow> bool" where
  "LooksLikeDiscoWrapper p =
     (if length p < length disco_Magic + disco_keyLen + disco_NonceLen then False
      else take (length disco_Magic) p = disco_Magic)"

definition disco_Source :: "bytes \<Rightarrow> bytes option" where
  "disco_Source p =
     (if \<not> LooksLikeDiscoWrapper p then None else Some (take disco_keyLen (drop (length disco_Magic) p)))"

subsection \<open>Messages\<close>

definition TypePing :: byte where [simp]: "TypePing = 0x01"
definition TypePong :: byte where [simp]: "TypePong = 0x02"
definition TypeCallMeMaybe :: byte where [simp]: "TypeCallMeMaybe = 0x03"
definition disco_v0 :: byte where [simp]: "disco_v0 = 0"
definition rawKeyLen :: nat where [simp]: "rawKeyLen = 32"
definition epLength :: nat where [simp]: "epLength = 16 + 2"
definition pongLen :: nat where [simp]: "pongLen = 12 + 16 + 2"
definition MessageHeaderLen :: nat where [simp]: "MessageHeaderLen = 2"
definition PingLen :: nat where [simp]: "PingLen = 12 + rawKeyLen"

record Ping =
  ping_TxID :: bytes
  ping_NodeKey :: bytes
  ping_Padding :: nat

record CallMeMaybe =
  MyNumber :: "addrport list"

record Pong =
  pong_TxID :: bytes
  pong_Src :: addrport

datatype Message = MPing Ping | MPong Pong | MCallMeMaybe CallMeMaybe

datatype derr = errShort | errUnknownType byte

definition NodeKey_IsZero :: "bytes \<Rightarrow> bool" where
  "NodeKey_IsZero k = (k = replicate 32 0)"

subsection \<open>Marshaling\<close>

text \<open>The data part is a part of the result, given by its offset.\<close>

definition appendMsgHeader :: "bytes \<Rightarrow> byte \<Rightarrow> byte \<Rightarrow> nat \<Rightarrow> bytes \<times> nat" where
  "appendMsgHeader b t ver dataLen =
     (let all = b @ replicate (dataLen + 2) 0;
          all = all[length b := t];
          all = all[length b + 1 := ver]
      in (all, length b + 2))"

definition Ping_AppendMarshal :: "Ping \<Rightarrow> bytes \<Rightarrow> bytes" where
  "Ping_AppendMarshal m b =
     (let hasKey = \<not> NodeKey_IsZero (ping_NodeKey m);
          dataLen = (if hasKey then 12 + rawKeyLen else 12);
          (ret, d) = appendMsgHeader b TypePing disco_v0 (dataLen + ping_Padding m);
          ret = copy_at ret d (ping_TxID m);
          n = min (length ret - d) (length (ping_TxID m))
      in if hasKey then copy_at ret (d + n) (ping_NodeKey m) else ret)"

fun put_eps :: "bytes \<Rightarrow> nat \<Rightarrow> addrport list \<Rightarrow> bytes option" where
  "put_eps ret p [] = Some ret"
| "put_eps ret p (ipp # ipps) = do {
     let a = As16 (ap_addr ipp);
     let ret = copy_at ret p a;
     ret \<leftarrow> wr16 ret (p + 16) (ap_port ipp);
     put_eps ret (p + epLength) ipps }"

definition CallMeMaybe_AppendMarshal :: "CallMeMaybe \<Rightarrow> bytes \<Rightarrow> bytes option" where
  "CallMeMaybe_AppendMarshal m b =
     (let (ret, p) = appendMsgHeader b TypeCallMeMaybe disco_v0 (epLength * length (MyNumber m)) in put_eps ret p (MyNumber m))"

definition Pong_AppendMarshal :: "Pong \<Rightarrow> bytes \<Rightarrow> bytes option" where
  "Pong_AppendMarshal m b =
     (let (ret, d) = appendMsgHeader b TypePong disco_v0 pongLen;
          ret = copy_at ret d (pong_TxID m);
          d = d + length (pong_TxID m);
          ip16 = As16 (ap_addr (pong_Src m));
          ret = copy_at ret d ip16;
          d = d + length ip16
      in wr16 ret d (ap_port (pong_Src m)))"

fun AppendMarshal :: "Message \<Rightarrow> bytes \<Rightarrow> bytes option" where
  "AppendMarshal (MPing m) b = Some (Ping_AppendMarshal m b)"
| "AppendMarshal (MPong m) b = Pong_AppendMarshal m b"
| "AppendMarshal (MCallMeMaybe m) b = CallMeMaybe_AppendMarshal m b"

subsection \<open>Parsing\<close>

definition parsePing :: "byte \<Rightarrow> bytes \<Rightarrow> (derr + Ping) option" where
  "parsePing ver p =
     (if length p < 12 then Some (Inl errShort)
      else do {
        let m = \<lparr>ping_TxID = take 12 p, ping_NodeKey = replicate 32 0, ping_Padding = length p\<rparr>;
        p \<leftarrow> slice_from p 12;
        let m = m\<lparr>ping_Padding := ping_Padding m - 12\<rparr>;
        if length p \<ge> rawKeyLen then do {
          k \<leftarrow> slice p 0 rawKeyLen;
          Some (Inr (m\<lparr>ping_NodeKey := k, ping_Padding := ping_Padding m - rawKeyLen\<rparr>)) }
        else Some (Inr m) })"

function parse_eps :: "bytes \<Rightarrow> addrport list option" where
  "parse_eps p =
     (if p = [] then Some []
      else do {
        let a = copy_at (replicate 16 0) 0 p;
        b \<leftarrow> slice p 16 18;
        port \<leftarrow> rd16 b 0;
        p \<leftarrow> slice_from p epLength;
        eps \<leftarrow> parse_eps p;
        Some (AddrPortFrom (Unmap (AddrFrom16 a)) port # eps) })"
  by pat_completeness auto
termination
  by (relation "measure length") (auto simp: slice_from_def split: if_splits)

declare parse_eps.simps [simp del]

definition parseCallMeMaybe :: "byte \<Rightarrow> bytes \<Rightarrow> (derr + CallMeMaybe) option" where
  "parseCallMeMaybe ver p =
     (if length p mod epLength \<noteq> 0 \<or> ver \<noteq> 0 \<or> length p = 0 then Some (Inr \<lparr>MyNumber = []\<rparr>)
      else do { eps \<leftarrow> parse_eps p; Some (Inr \<lparr>MyNumber = eps\<rparr>) })"

definition parsePong :: "byte \<Rightarrow> bytes \<Rightarrow> (derr + Pong) option" where
  "parsePong ver p =
     (if length p < pongLen then Some (Inl errShort)
      else do {
        let tx = take 12 p;
        p \<leftarrow> slice_from p 12;
        ip \<leftarrow> slice p 0 16;
        let srcIP = (case AddrFromSlice ip of Some a \<Rightarrow> a | None \<Rightarrow> AddrZero);
        p \<leftarrow> slice_from p 16;
        port \<leftarrow> rd16 p 0;
        Some (Inr \<lparr>pong_TxID = tx, pong_Src = AddrPortFrom (Unmap srcIP) port\<rparr>) })"

definition Parse :: "bytes \<Rightarrow> (derr + Message) option" where
  "Parse p =
     (if length p < 2 then Some (Inl errShort)
      else do {
        t \<leftarrow> rd p 0;
        ver \<leftarrow> rd p 1;
        p \<leftarrow> slice_from p 2;
        if t = TypePing then map_option (map_sum id MPing) (parsePing ver p)
        else if t = TypePong then map_option (map_sum id MPong) (parsePong ver p)
        else if t = TypeCallMeMaybe then map_option (map_sum id MCallMeMaybe) (parseCallMeMaybe ver p)
        else Some (Inl (errUnknownType t)) })"

subsection \<open>Capture records\<close>

definition le16_bytes :: "u16 \<Rightarrow> bytes" where
  "le16_bytes w = [be16_lo w, be16_hi w]"

definition DerpMagicIPAddr :: addr where
  "DerpMagicIPAddr = V4 0x7f030328"

fun addr_MarshalBinary :: "addr \<Rightarrow> bytes" where
  "addr_MarshalBinary AddrZero = []"
| "addr_MarshalBinary (V4 w) = be_bytes 4 w"
| "addr_MarshalBinary (V6 w z) = be_bytes 16 w @ map of_char z"

definition ToPCAPFrame :: "addrport \<Rightarrow> bytes \<Rightarrow> bytes \<Rightarrow> bytes" where
  "ToPCAPFrame src derpNodeSrc payload =
     (let flag = (if ap_addr src = DerpMagicIPAddr then 0x01 else 0);
          adr = addr_MarshalBinary (ap_addr src)
      in [flag] @ derpNodeSrc @ le16_bytes (ap_port src) @ le16_bytes (of_nat (length adr)) @ adr @
         le16_bytes (of_nat (length payload)) @ payload)"

subsection \<open>The shape of a marshaled message\<close>

text \<open>Messages whose fields have the lengths of the arrays of the code.\<close>

fun Message_wf :: "Message \<Rightarrow> bool" where
  "Message_wf (MPing m) = (length (ping_TxID m) = 12 \<and> length (ping_NodeKey m) = 32)"
| "Message_wf (MPong m) = (length (pong_TxID m) = 12)"
| "Message_wf (MCallMeMaybe m) = True"

definition ep_bytes :: "addrport \<Rightarrow> bytes" where
  "ep_bytes ipp = As16 (ap_addr ipp) @ [be16_hi (ap_port ipp), be16_lo (ap_port ipp)]"

fun wire :: "Message \<Rightarrow> bytes" where
  "wire (MPing m) = [1, 0] @ ping_TxID m @ (if NodeKey_IsZero (ping_NodeKey m) then [] else ping_NodeKey m) @ replicate (ping_Padding m) 0"
| "wire (MPong m) = [2, 0] @ pong_TxID m @ ep_bytes (pong_Src m)"
| "wire (MCallMeMaybe m) = [3, 0] @ concat (map ep_bytes (MyNumber m))"

lemma appendMsgHeader_eq: "appendMsgHeader b t ver n = ((b @ [t, ver]) @ replicate n 0, length (b @ [t, ver]))"
  by (simp add: appendMsgHeader_def list_update_append)

lemma copy_at_zeros:
  "n = length src \<Longrightarrow> copy_at (xs @ replicate (n + k) 0) (length xs) src = (xs @ src) @ replicate k 0"
  by (simp add: copy_at_def)

lemma wr16_zeros: "wr16 (xs @ replicate (2 + k) 0) (length xs) v = Some ((xs @ [be16_hi v, be16_lo v]) @ replicate k 0)"
  by (simp add: wr16_Some list_update_append numeral_2_eq_2)

lemma put_eps_zeros:
  "put_eps (xs @ replicate (18 * length eps) 0) (length xs) eps = Some (xs @ concat (map ep_bytes eps))"
proof (induction eps arbitrary: xs)
  case (Cons ipp eps)
  have 1: "copy_at (xs @ replicate (18 + 18 * length eps) 0) (length xs) (As16 (ap_addr ipp)) =
      (xs @ As16 (ap_addr ipp)) @ replicate (2 + 18 * length eps) 0"
    using copy_at_zeros [of 16 "As16 (ap_addr ipp)" xs "2 + 18 * length eps"] by simp
  show ?case
    using Cons.IH [of "xs @ ep_bytes ipp"] wr16_zeros [of "xs @ As16 (ap_addr ipp)" "18 * length eps" "ap_port ipp"]
    by (simp add: 1 ep_bytes_def)
qed simp

lemma AppendMarshal_wire: "Message_wf m \<Longrightarrow> AppendMarshal m b = Some (b @ wire m)"
proof (cases m)
  case (MPing p)
  assume "Message_wf m"
  with MPing have l: "12 = length (ping_TxID p)" "32 = length (ping_NodeKey p)" by simp_all
  show ?thesis
    using copy_at_zeros [OF l(1), of "b @ [1, 0]" "ping_Padding p"] copy_at_zeros [OF l(1), of "b @ [1, 0]" "32 + ping_Padding p"]
      copy_at_zeros [OF l(2), of "b @ [1, 0] @ ping_TxID p" "ping_Padding p"] l
    by (simp add: MPing Ping_AppendMarshal_def appendMsgHeader_eq Let_def add.assoc)
next
  case (MPong p)
  assume "Message_wf m"
  with MPong have l: "12 = length (pong_TxID p)" by simp
  show ?thesis
    using copy_at_zeros [OF l, of "b @ [2, 0]" 18] copy_at_zeros [of 16 "As16 (ap_addr (pong_Src p))" "b @ [2, 0] @ pong_TxID p" 2]
      wr16_zeros [of "b @ [2, 0] @ pong_TxID p @ As16 (ap_addr (pong_Src p))" 0 "ap_port (pong_Src p)"] l
    by (simp add: MPong Pong_AppendMarshal_def appendMsgHeader_eq ep_bytes_def Let_def add.commute [of "length b"])
next
  case (MCallMeMaybe c)
  then show ?thesis
    using put_eps_zeros [of "b @ [3, 0]" "MyNumber c"]
    by (simp add: CallMeMaybe_AppendMarshal_def appendMsgHeader_eq)
qed

subsection \<open>Endpoints on the wire\<close>

definition ep_on_wire :: "addrport \<Rightarrow> addrport" where
  "ep_on_wire ipp = AddrPortFrom (on_wire (ap_addr ipp)) (ap_port ipp)"

lemma length_ep_bytes [simp]: "length (ep_bytes ipp) = 18"
  by (simp add: ep_bytes_def)

lemma length_eps [simp]: "length (concat (map ep_bytes eps)) = 18 * length eps"
  by (induction eps) simp_all

lemma parse_eps_bytes: "parse_eps (concat (map ep_bytes eps)) = Some (map ep_on_wire eps)"
proof (induction eps)
  case Nil
  show ?case by (simp add: parse_eps.simps)
next
  case (Cons ipp eps)
  have ne: "ep_bytes ipp \<noteq> []" by (simp add: ep_bytes_def)
  have 1: "copy_at (replicate 16 0) 0 (ep_bytes ipp @ xs) = As16 (ap_addr ipp)" for xs
    by (simp add: copy_at_def ep_bytes_def)
  have 2: "slice (ep_bytes ipp @ xs) 16 18 = Some [be16_hi (ap_port ipp), be16_lo (ap_port ipp)]" for xs
    by (simp add: slice_def ep_bytes_def)
  have 3: "slice_from (ep_bytes ipp @ xs) 18 = Some xs" for xs
    by (simp add: slice_from_def)
  show ?case
    by (simp add: parse_eps.simps [of "ep_bytes ipp @ concat (map ep_bytes eps)"] ne 1 2 3 Cons.IH rd16_Some Unmap_As16 ep_on_wire_def)
qed

lemma parse_eps_total:
  "length p mod 18 = 0 \<Longrightarrow> \<exists>eps. parse_eps p = Some eps \<and> length eps = length p div 18"
proof (induction "length p" arbitrary: p rule: less_induct)
  case less
  show ?case
  proof (cases "p = []")
    case True
    then show ?thesis by (simp add: parse_eps.simps)
  next
    case False
    with less.prems have l: "18 \<le> length p" by (cases "length p < 18") auto
    with less.prems have "length (drop 18 p) mod 18 = 0" by (simp add: mod_if)
    moreover from l have "length p div 18 = Suc (length (drop 18 p) div 18)" by (simp add: div_if)
    ultimately show ?thesis
      using less.hyps [of "drop 18 p"] l by (auto simp: parse_eps.simps [of p] slice_def slice_from_def rd16_Some)
  qed
qed

subsection \<open>Round trip and robustness\<close>

fun Message_on_wire :: "Message \<Rightarrow> Message" where
  "Message_on_wire (MPing m) =
     MPing (if NodeKey_IsZero (ping_NodeKey m) \<and> 32 \<le> ping_Padding m then m\<lparr>ping_Padding := ping_Padding m - 32\<rparr> else m)"
| "Message_on_wire (MPong m) = MPong (m\<lparr>pong_Src := ep_on_wire (pong_Src m)\<rparr>)"
| "Message_on_wire (MCallMeMaybe m) = MCallMeMaybe \<lparr>MyNumber = map ep_on_wire (MyNumber m)\<rparr>"

lemma Parse_type:
  "Parse (t # ver # p) =
     (if t = 1 then map_option (map_sum id MPing) (parsePing ver p)
      else if t = 2 then map_option (map_sum id MPong) (parsePong ver p)
      else if t = 3 then map_option (map_sum id MCallMeMaybe) (parseCallMeMaybe ver p)
      else Some (Inl (errUnknownType t)))"
  by (simp add: Parse_def rd_def slice_from_def)

lemma parsePing_wire:
  assumes "length (ping_TxID m) = 12" "length (ping_NodeKey m) = 32"
  shows "parsePing ver (drop 2 (wire (MPing m))) = Some (Inr (case Message_on_wire (MPing m) of MPing m \<Rightarrow> m))"
proof (cases "NodeKey_IsZero (ping_NodeKey m)")
  case True
  then show ?thesis using assms
    by (cases m) (simp add: parsePing_def slice_from_def slice_def NodeKey_IsZero_def min_def)
next
  case False
  then show ?thesis using assms by (cases m) (simp add: parsePing_def slice_from_def slice_def)
qed

lemma parsePong_wire:
  "length (pong_TxID m) = 12 \<Longrightarrow> parsePong ver (pong_TxID m @ ep_bytes (pong_Src m)) = Some (Inr (m\<lparr>pong_Src := ep_on_wire (pong_Src m)\<rparr>))"
  by (cases m) (simp add: parsePong_def slice_from_def slice_def ep_bytes_def AddrFromSlice_def rd16_Some Unmap_As16 ep_on_wire_def nth_append)

lemma parseCallMeMaybe_wire: "parseCallMeMaybe 0 (concat (map ep_bytes eps)) = Some (Inr \<lparr>MyNumber = map ep_on_wire eps\<rparr>)"
  by (simp add: parseCallMeMaybe_def parse_eps_bytes)

text \<open>
  C36. Every message can be marshaled behind any bytes, and parsing what was appended gives the message back: addresses
  lose their zone and come back as IPv4 if they are IPv4 addresses inside IPv6, and of the padding of a
  ping without node key, 32 bytes are taken for a node key, all zero, that is not there.
\<close>

theorem disco_roundtrip:
  assumes "Message_wf m"
  shows "\<exists>x. (\<forall>b. AppendMarshal m b = Some (b @ x)) \<and> Parse x = Some (Inr (Message_on_wire m))"
proof (intro exI conjI allI)
  show "AppendMarshal m b = Some (b @ wire m)" for b using assms by (rule AppendMarshal_wire)
  show "Parse (wire m) = Some (Inr (Message_on_wire m))"
    using assms parsePing_wire parsePong_wire parseCallMeMaybe_wire by (cases m) (simp_all add: Parse_type)
qed

theorem disco_roundtrip_witness:
  "\<exists>x. (\<forall>b. AppendMarshal (MPong \<lparr>pong_TxID = replicate 12 7, pong_Src = AddrPortFrom (V4 0x0a000001) 41641\<rparr>) b = Some (b @ x)) \<and>
     Parse x = Some (Inr (MPong \<lparr>pong_TxID = replicate 12 7, pong_Src = AddrPortFrom (V4 0x0a000001) 41641\<rparr>))"
  using disco_roundtrip [of "MPong \<lparr>pong_TxID = replicate 12 7, pong_Src = AddrPortFrom (V4 0x0a000001) 41641\<rparr>"]
  by (simp add: ep_on_wire_def AddrPortFrom_def)

text \<open>
  \<open>Parse\<close> never panics. It reports a short message exactly for less than two bytes, a ping of less than
  14 and a pong of less than 32 bytes, an unknown type exactly for the other types, and otherwise a
  message with a transaction id and a node key of their full lengths.
\<close>

theorem Parse_total:
  "\<exists>r. Parse p = Some r \<and>
     (r = Inl errShort \<longleftrightarrow> length p < 2 \<or> p ! 0 = TypePing \<and> length p < 14 \<or> p ! 0 = TypePong \<and> length p < 32) \<and>
     (\<forall>t. r = Inl (errUnknownType t) \<longleftrightarrow> 2 \<le> length p \<and> p ! 0 = t \<and> t \<notin> {TypePing, TypePong, TypeCallMeMaybe}) \<and>
     (\<forall>m. r = Inr m \<longrightarrow> Message_wf m)"
proof (cases "length p < 2")
  case True
  then show ?thesis by (simp add: Parse_def)
next
  case False
  then obtain t ver q where p: "p = t # ver # q" by (cases p rule: list.exhaust; cases "tl p") auto
  consider "t = 1" | "t = 2" | "t = 3" | "t \<notin> {1, 2, 3}" by blast
  then show ?thesis
  proof cases
    case 1
    then show ?thesis
      by (cases "length q < 12"; cases "44 \<le> length q") (auto simp: p Parse_type parsePing_def slice_from_def slice_def Let_def)
  next
    case 2
    then show ?thesis by (auto simp: p Parse_type parsePong_def slice_from_def slice_def rd16_Some)
  next
    case 3
    then show ?thesis using parse_eps_total [of q] by (auto simp: p Parse_type parseCallMeMaybe_def)
  next
    case 4
    then show ?thesis by (auto simp: p Parse_type)
  qed
qed

theorem Parse_total_witness: "Parse [1, 0, 7, 7] = Some (Inl errShort) \<and> Parse [9, 0] = Some (Inl (errUnknownType 9))"
  using Parse_total [of "[1, 0, 7, 7]"] Parse_total [of "[9, 0]"] by auto

end
