(* ===== verification/Tstun.thy ===== *)
theory Tstun
  imports Tstun_Nat Packet_Tsmp Packet_Filter Disco
begin

unbundle bit_operations_syntax

section \<open>Package \<open>net/tstun\<close>: the packet path\<close>

text \<open>
  The data path of \<open>src/net/tstun/wrap.go\<close>: what happens to packets between the TUN device and WireGuard.
  \<open>Wrapper\<close> holds the state that changes; \<open>Env\<close> holds what is set up once: the callbacks, the constants of
  wireguard-go, the device and gVisor. A callback may panic (\<open>None\<close>) and may change the wrapper, as it
  gets a pointer to it, but not the packet. \<open>p0\<close> is the recycled \<open>Parsed\<close> value, with whatever the previous
  packet left in it; \<open>now\<close> is the time at which the clock is read. The channel of injected packets is a
  queue; a send that would block is a send that happens later.
\<close>

subsection \<open>Reading headers back from a packet\<close>

definition Parsed_IP4Header :: "Parsed \<Rightarrow> IP4Header option" where
  "Parsed_IP4Header q = (if IPVersion q \<noteq> 4 then None
     else do { ipid \<leftarrow> rd16 (p_b q) 4;
       Some \<lparr>ip4_IPProto = IPProto q, ip4_IPID = ipid, ip4_Src = ap_addr (Src q), ip4_Dst = ap_addr (Dst q)\<rparr> })"

definition Parsed_IP6Header :: "Parsed \<Rightarrow> IP6Header option" where
  "Parsed_IP6Header q = (if IPVersion q \<noteq> 6 then None
     else do { w \<leftarrow> BE_Uint 4 (p_b q);
       Some \<lparr>ip6_IPProto = IPProto q, ip6_IPID = drop_bit 12 (push_bit 12 w), ip6_Src = ap_addr (Src q), ip6_Dst = ap_addr (Dst q)\<rparr> })"

definition Parsed_ICMP4Header :: "Parsed \<Rightarrow> ICMP4Header option" where
  "Parsed_ICMP4Header q = do {
     ip \<leftarrow> Parsed_IP4Header q;
     t \<leftarrow> rd (p_b q) (p_subofs q);
     c \<leftarrow> rd (p_b q) (p_subofs q + 1);
     Some \<lparr>icmp4_IP = ip, icmp4_Type = t, icmp4_Code = c\<rparr> }"

definition Parsed_ICMP6Header :: "Parsed \<Rightarrow> ICMP6Header option" where
  "Parsed_ICMP6Header q = do {
     ip \<leftarrow> Parsed_IP6Header q;
     t \<leftarrow> rd (p_b q) (p_subofs q);
     c \<leftarrow> rd (p_b q) (p_subofs q + 1);
     Some \<lparr>icmp6_IP = ip, icmp6_Type = t, icmp6_Code = c\<rparr> }"

text \<open>\<open>packet.Generate\<close> for the two TSMP headers, without payload.\<close>

definition GenerateRejected :: "TailscaleRejectedHeader \<Rightarrow> bytes option" where
  "GenerateRejected rj = (let buf = replicate (Rejected_Len rj) 0 in ignore_err buf (Rejected_Marshal rj buf))"

definition GeneratePong :: "TSMPPongReply \<Rightarrow> bytes option" where
  "GeneratePong h = (let buf = replicate (TSMPPongReply_Len h) 0 in ignore_err buf (TSMPPongReply_Marshal h buf))"

subsection \<open>State\<close>

datatype terr = errPacketTooBig | errOffsetTooBig | errOffsetTooSmall | EOF | errDevice string

text \<open>What observers are told: captures (path, bytes, NAT information), traffic statistics and destination activity.\<close>

datatype capturePath = FromLocal | FromPeer | SynthesizedToLocal | SynthesizedToPeer

datatype observed =
    Captured capturePath bytes CaptureMeta
  | TxVirtual bytes
  | RxVirtual bytes
  | DestActivity addr

record metrics =
  mPacketIn :: nat
  mPacketInDrop :: nat
  mPacketInDropFilter :: nat
  mPacketInDropSelfDisco :: nat
  mPacketOut :: nat
  mPacketOutDrop :: nat
  mPacketOutDropFilter :: nat
  mPacketOutDropSelfDisco :: nat

record 'k Wrapper =
  w_natConfig :: "'k natConfig option"
  w_filter :: "Filter option"
  w_world :: World
  w_discoKey :: bytes
  w_destIPActivity :: "addr list"
  w_stats :: bool
  w_captureHook :: bool
  w_lastActivity :: int
  w_vectorOutbound :: "bytes list"
  w_outboundClosed :: bool
  w_tdev :: "bytes list list"
  w_observed :: "observed list"
  w_metrics :: metrics

type_synonym 'w FilterFunc = "Parsed \<Rightarrow> 'w \<Rightarrow> (Response \<times> 'w) option"

record 'w Env =
  PacketStartOffset :: nat
  MaxPacketSize :: nat
  gVisor :: gvisor
  tdev_err :: "bytes list \<Rightarrow> string option"
  filterFlags :: RunFlags
  PreFilterIn :: "'w FilterFunc option"
  PostFilterIn :: "'w FilterFunc option"
  PreFilterOutNetstack :: "'w FilterFunc option"
  PreFilterOutEngine :: "'w FilterFunc option"
  PostFilterOut :: "'w FilterFunc option"
  OnTSMPPongReceived :: "(bytes \<times> u16 \<Rightarrow> 'w \<Rightarrow> 'w option) option"
  OnICMPEchoResponseReceived :: "(Parsed \<Rightarrow> 'w \<Rightarrow> (bool \<times> 'w) option) option"
  PeerAPIPort :: "(addr \<Rightarrow> u16 \<times> bool) option"
  disableFilter :: bool
  disableTSMPRejected :: bool

definition magicDNSIPPort :: addrport where "magicDNSIPPort = AddrPortFrom TailscaleServiceIP 0"
definition magicDNSIPPortv6 :: addrport where "magicDNSIPPortv6 = AddrPortFrom TailscaleServiceIPv6 0"

text \<open>A callback that is nil or does not drop lets the packet go on.\<close>

definition run_hook :: "'w FilterFunc option \<Rightarrow> Parsed \<Rightarrow> 'w \<Rightarrow> (Response option \<times> 'w) option" where
  "run_hook f p w = (case f of None \<Rightarrow> Some (None, w)
     | Some f \<Rightarrow> do { (res, w) \<leftarrow> f p w; Some (if Response_IsDrop res then Some res else None, w) })"

definition observe :: "bool \<Rightarrow> observed \<Rightarrow> 'k Wrapper \<Rightarrow> 'k Wrapper" where
  "observe on e w = (if on then w\<lparr>w_observed := w_observed w @ [e]\<rparr> else w)"

definition count :: "(metrics \<Rightarrow> metrics) \<Rightarrow> 'k Wrapper \<Rightarrow> 'k Wrapper" where
  "count f w = w\<lparr>w_metrics := f (w_metrics w)\<rparr>"

definition noteActivity :: "int \<Rightarrow> 'k Wrapper \<Rightarrow> 'k Wrapper" where
  "noteActivity now w = w\<lparr>w_lastActivity := now\<rparr>"

definition isSelfDisco :: "'k Wrapper \<Rightarrow> Parsed \<Rightarrow> bool option" where
  "isSelfDisco w p =
     (if IPProto p \<noteq> UDP then Some False
      else do {
        pkt \<leftarrow> Payload p;
        Some (case disco_Source pkt of None \<Rightarrow> False | Some discobs \<Rightarrow> w_discoKey w = discobs) })"

subsection \<open>Injection\<close>

text \<open>The packets of a vector are written from the offset on.\<close>

definition tdevWrite :: "'e Env \<Rightarrow> bytes list \<Rightarrow> nat \<Rightarrow> 'k Wrapper \<Rightarrow> terr option \<times> 'k Wrapper" where
  "tdevWrite env buffs offset w =
     (let pkts = map (drop offset) buffs;
          w = foldl (\<lambda>w pkt. observe (w_stats w) (RxVirtual pkt) w) w pkts
      in (map_option errDevice (tdev_err env pkts), w\<lparr>w_tdev := w_tdev w @ [pkts]\<rparr>))"

definition InjectInboundDirect :: "'e Env \<Rightarrow> bytes \<Rightarrow> nat \<Rightarrow> 'k Wrapper \<Rightarrow> terr option \<times> 'k Wrapper" where
  "InjectInboundDirect env buf offset w =
     (if length buf > MaxPacketSize env then (Some errPacketTooBig, w)
      else if length buf < offset then (Some errOffsetTooBig, w)
      else if offset < PacketStartOffset env then (Some errOffsetTooSmall, w)
      else tdevWrite env [buf] offset w)"

definition InjectInboundCopy :: "'e Env \<Rightarrow> bytes \<Rightarrow> 'k Wrapper \<Rightarrow> terr option \<times> 'k Wrapper" where
  "InjectInboundCopy env pkt w =
     (if length pkt > MaxPacketSize env then (Some errPacketTooBig, w)
      else if length pkt = 0 then (None, w)
      else
        let buf = replicate (PacketStartOffset env + length pkt) 0;
            buf = copy_at buf (PacketStartOffset env) pkt
        in InjectInboundDirect env buf (PacketStartOffset env) w)"

definition injectOutbound :: "bytes \<Rightarrow> 'k Wrapper \<Rightarrow> 'k Wrapper" where
  "injectOutbound r w = (if w_outboundClosed w then w else w\<lparr>w_vectorOutbound := w_vectorOutbound w @ [r]\<rparr>)"

definition InjectOutbound :: "'e Env \<Rightarrow> bytes \<Rightarrow> 'k Wrapper \<Rightarrow> terr option \<times> 'k Wrapper" where
  "InjectOutbound env pkt w =
     (if length pkt > MaxPacketSize env then (Some errPacketTooBig, w)
      else if length pkt = 0 then (None, w)
      else (None, injectOutbound pkt w))"

definition injectOutboundPong :: "'e Env \<Rightarrow> Parsed \<Rightarrow> bytes \<Rightarrow> 'k Wrapper \<Rightarrow> 'k Wrapper option" where
  "injectOutboundPong env pp data w = do {
     let port = (case PeerAPIPort env of None \<Rightarrow> 0 | Some f \<Rightarrow> fst (f (ap_addr (Dst pp))));
     if IPVersion pp = 4 then do {
       h4 \<leftarrow> Parsed_IP4Header pp;
       pkt \<leftarrow> GeneratePong \<lparr>pong_IPHeader = H_IP4 (IP4Header_ToResponse h4), pong_Data = data, pong_PeerAPIPort = port\<rparr>;
       Some (snd (InjectOutbound env pkt w)) }
     else if IPVersion pp = 6 then do {
       h6 \<leftarrow> Parsed_IP6Header pp;
       pkt \<leftarrow> GeneratePong \<lparr>pong_IPHeader = H_IP6 (IP6Header_ToResponse h6), pong_Data = data, pong_PeerAPIPort = port\<rparr>;
       Some (snd (InjectOutbound env pkt w)) }
     else Some w }"

subsection \<open>From WireGuard to the device\<close>

text \<open>The test of \<open>filterPacketInboundFromWireGuard\<close> that lets peer API connections through.\<close>

definition peerapi_syn :: "'e Env \<Rightarrow> Parsed \<Rightarrow> bool" where
  "peerapi_syn env p = (IPProto p = TCP \<and> TCPFlags p AND TCPSyn \<noteq> 0 \<and>
     (case PeerAPIPort env of None \<Rightarrow> False
      | Some f \<Rightarrow> (case f (ap_addr (Dst p)) of (port, ok) \<Rightarrow> ok \<and> port = ap_port (Dst p))))"

definition RejectedDueToACLs :: byte where [simp]: "RejectedDueToACLs = 0x41"
definition RejectedDueToShieldsUp :: byte where [simp]: "RejectedDueToShieldsUp = 0x53"

definition reject_header :: "Filter \<Rightarrow> Parsed \<Rightarrow> TailscaleRejectedHeader" where
  "reject_header filt p = \<lparr>rj_IPSrc = ap_addr (Dst p), rj_IPDst = ap_addr (Src p), rj_Src = Src p, rj_Dst = Dst p,
     rj_Proto = IPProto p, rj_Reason = (if f_shieldsUp filt then RejectedDueToShieldsUp else RejectedDueToACLs), rj_MaybeBroken = False\<rparr>"

definition send_reject :: "'e Env \<Rightarrow> Filter \<Rightarrow> Parsed \<Rightarrow> 'k Wrapper \<Rightarrow> 'k Wrapper option" where
  "send_reject env filt p w =
     (if IPVersion p = 4 \<and> IPProto p = TCP \<and> TCPFlags p AND TCPSyn \<noteq> 0 \<and> \<not> disableTSMPRejected env then do {
        pkt \<leftarrow> GenerateRejected (reject_header filt p);
        Some (snd (InjectOutbound env pkt w)) }
      else Some w)"

text \<open>The main filter and what follows it.\<close>

definition filter_in :: "'k Wrapper Env \<Rightarrow> int \<Rightarrow> Parsed \<Rightarrow> 'k Wrapper \<Rightarrow> (Response \<times> 'k Wrapper) option" where
  "filter_in env now p w = (case w_filter w of None \<Rightarrow> Some (Drop, w) | Some filt \<Rightarrow> do {
     (outcome, world) \<leftarrow> RunIn filt p (filterFlags env) now (w_world w);
     let w = w\<lparr>w_world := world\<rparr>;
     let outcome = (if outcome \<noteq> Accept \<and> peerapi_syn env p then Accept else outcome);
     if outcome \<noteq> Accept then do {
       let w = count (\<lambda>m. m\<lparr>mPacketInDropFilter := mPacketInDropFilter m + 1\<rparr>) w;
       w \<leftarrow> send_reject env filt p w;
       Some (Drop, w) }
     else do {
       (res, w) \<leftarrow> run_hook (PostFilterIn env) p w;
       Some (case res of Some r \<Rightarrow> r | None \<Rightarrow> Accept, w) } })"

definition filter_in_hooks :: "'k Wrapper Env \<Rightarrow> int \<Rightarrow> Parsed \<Rightarrow> 'k Wrapper \<Rightarrow> (Response \<times> 'k Wrapper) option" where
  "filter_in_hooks env now p w = do {
     e \<leftarrow> IsEchoResponse p;
     (handled, w) \<leftarrow> (case OnICMPEchoResponseReceived env of Some f \<Rightarrow> if e then f p w else Some (False, w) | None \<Rightarrow> Some (False, w));
     if handled then Some (DropSilently, w)
     else do {
       self \<leftarrow> (if IPProto p = UDP then isSelfDisco w p else Some False);
       if self then Some (DropSilently, count (\<lambda>m. m\<lparr>mPacketInDropSelfDisco := mPacketInDropSelfDisco m + 1\<rparr>) w)
       else do {
         (res, w) \<leftarrow> run_hook (PreFilterIn env) p w;
         (case res of Some r \<Rightarrow> Some (r, w) | None \<Rightarrow> filter_in env now p w) } } }"

definition filterPacketInboundFromWireGuard :: "'k Wrapper Env \<Rightarrow> int \<Rightarrow> Parsed \<Rightarrow> bool \<Rightarrow> 'k Wrapper \<Rightarrow> (Response \<times> 'k Wrapper) option" where
  "filterPacketInboundFromWireGuard env now p captHook w = do {
     let w = observe captHook (Captured FromPeer (p_b p) (p_CaptureMeta p)) w;
     if IPProto p = TSMP then do {
       ping \<leftarrow> AsTSMPPing p;
       (case ping of
          Some data \<Rightarrow> do {
            w \<leftarrow> injectOutboundPong env p data (noteActivity now w);
            Some (DropSilently, w) }
        | None \<Rightarrow> do {
            pong \<leftarrow> AsTSMPPong p;
            w \<leftarrow> (case (pong, OnTSMPPongReceived env) of (Some d, Some f) \<Rightarrow> f d w | _ \<Rightarrow> Some w);
            filter_in_hooks env now p w }) }
     else filter_in_hooks env now p w }"



subsection \<open>From the device to WireGuard\<close>

definition reply_echo :: "'e Env \<Rightarrow> bool \<Rightarrow> Parsed \<Rightarrow> 'k Wrapper \<Rightarrow> 'k Wrapper option" where
  "reply_echo env v6 p w = do {
     h \<leftarrow> (if v6 then map_option (H_ICMP6 \<circ> ICMP6Header_ToResponse) (Parsed_ICMP6Header p)
          else map_option (H_ICMP4 \<circ> ICMP4Header_ToResponse) (Parsed_ICMP4Header p));
     payload \<leftarrow> Payload p;
     outp \<leftarrow> Generate h payload;
     Some (snd (InjectInboundCopy env outp w)) }"

definition filter_out :: "'k Wrapper Env \<Rightarrow> int \<Rightarrow> Parsed \<Rightarrow> 'k Wrapper \<Rightarrow> (Response \<times> 'k Wrapper) option" where
  "filter_out env now p w = (case w_filter w of None \<Rightarrow> Some (Drop, w) | Some filt \<Rightarrow> do {
     (outcome, world) \<leftarrow> RunOut filt p (filterFlags env) now (w_world w);
     let w = w\<lparr>w_world := world\<rparr>;
     if outcome \<noteq> Accept then
       Some (Drop, count (\<lambda>m. m\<lparr>mPacketOutDropFilter := mPacketOutDropFilter m + 1\<rparr>) w)
     else do {
       (res, w) \<leftarrow> run_hook (PostFilterOut env) p w;
       Some (case res of Some r \<Rightarrow> r | None \<Rightarrow> Accept, w) } })"

definition filterPacketOutboundToWireGuard :: "'k Wrapper Env \<Rightarrow> int \<Rightarrow> Parsed \<Rightarrow> 'k Wrapper \<Rightarrow> (Response \<times> 'k Wrapper) option" where
  "filterPacketOutboundToWireGuard env now p w = do {
     e \<leftarrow> IsEchoRequest p;
     if e \<and> Dst p = magicDNSIPPort then do { w \<leftarrow> reply_echo env False p w; Some (DropSilently, w) }
     else if e \<and> Dst p = magicDNSIPPortv6 then do { w \<leftarrow> reply_echo env True p w; Some (DropSilently, w) }
     else do {
       self \<leftarrow> (if IPProto p = UDP then isSelfDisco w p else Some False);
       if self then Some (DropSilently, count (\<lambda>m. m\<lparr>mPacketOutDropSelfDisco := mPacketOutDropSelfDisco m + 1\<rparr>) w)
       else do {
         (res, w) \<leftarrow> run_hook (PreFilterOutNetstack env) p w;
         (case res of Some r \<Rightarrow> Some (r, w)
          | None \<Rightarrow> do {
              (res, w) \<leftarrow> run_hook (PreFilterOutEngine env) p w;
              (case res of Some r \<Rightarrow> Some (r, w) | None \<Rightarrow> filter_out env now p w) }) } } }"

text \<open>
  The loop of \<open>Read\<close> over the packets of a vector. \<open>outs\<close> are the buffers of the caller that are still
  empty; the packet is copied into the next one from the offset on, and a buffer that is too short, or
  missing, is a panic.
\<close>

fun read_loop :: "'k Wrapper Env \<Rightarrow> int \<Rightarrow> bool \<Rightarrow> nat \<Rightarrow> nat \<Rightarrow> Parsed \<Rightarrow> bytes list \<Rightarrow> bytes list \<Rightarrow> 'k Wrapper \<Rightarrow>
    (bytes list \<times> nat list \<times> 'k Wrapper) option" where
  "read_loop env now captHook dataOffset offset p [] outs w = Some ([], [], w)"
| "read_loop env now captHook dataOffset offset p (data # datas) outs w = do {
     b \<leftarrow> slice_from data dataOffset;
     p \<leftarrow> Decode p b;
     p \<leftarrow> snat (gVisor env) (w_natConfig w) p;
     let w = observe (ap_addr (Dst p) \<in> set (w_destIPActivity w)) (DestActivity (ap_addr (Dst p))) w;
     let w = observe captHook (Captured FromLocal (p_b p) (p_CaptureMeta p)) w;
     (r, w) \<leftarrow> (if disableFilter env then Some (Accept, w) else filterPacketOutboundToWireGuard env now p w);
     if r \<noteq> Accept then
       read_loop env now captHook dataOffset offset p datas outs (count (\<lambda>m. m\<lparr>mPacketOutDrop := mPacketOutDrop m + 1\<rparr>) w)
     else (case outs of [] \<Rightarrow> None
       | out # outs \<Rightarrow> do {
           room \<leftarrow> slice_from out offset;
           let n = min (length room) (length (p_b p));
           if n \<noteq> length data - dataOffset then None
           else do {
             let w = observe (w_stats w) (TxVirtual (p_b p)) w;
             (filled, sizes, w) \<leftarrow> read_loop env now captHook dataOffset offset p datas outs w;
             Some (copy_at out offset (p_b p) # filled, n # sizes, w) } }) }"

text \<open>\<open>Read\<close> for a vector of packets: the buffers filled, their sizes and the error of the device.\<close>

definition Read_vector :: "'k Wrapper Env \<Rightarrow> int \<Rightarrow> Parsed \<Rightarrow> bytes list \<Rightarrow> nat \<Rightarrow> terr option \<Rightarrow> bytes list \<Rightarrow> nat \<Rightarrow> 'k Wrapper \<Rightarrow>
    (((bytes list \<times> nat list) \<times> terr option) \<times> 'k Wrapper) option" where
  "Read_vector env now p0 datas dataOffset err outs offset w =
     (if err \<noteq> None \<and> datas = [] then Some ((([], []), err), w)
      else do {
        let w = count (\<lambda>m. m\<lparr>mPacketOut := mPacketOut m + length datas\<rparr>) w;
        (filled, sizes, w) \<leftarrow> read_loop env now (w_captureHook w) dataOffset offset p0 datas outs w;
        Some (((filled, sizes), err), noteActivity now w) })"

text \<open>
  \<open>injectedRead\<close> for an injected packet that is a byte slice: it is copied (and cut, if the buffer is too
  short), translated and returned without a filter. The result is the buffer and the size.
\<close>

definition injectedRead :: "'k Wrapper Env \<Rightarrow> int \<Rightarrow> Parsed \<Rightarrow> bytes \<Rightarrow> bytes \<Rightarrow> nat \<Rightarrow> 'k Wrapper \<Rightarrow> ((bytes \<times> nat) \<times> 'k Wrapper) option" where
  "injectedRead env now p0 data buf offset w = do {
     let w = count (\<lambda>m. m\<lparr>mPacketOut := mPacketOut m + 1\<rparr>) w;
     room \<leftarrow> slice_from buf offset;
     let n = min (length room) (length data);
     let buf = copy_at buf offset (take n data);
     b \<leftarrow> slice buf offset (offset + n);
     p \<leftarrow> Decode p0 b;
     p \<leftarrow> snat (gVisor env) (w_natConfig w) p;
     let buf = copy_at buf offset (p_b p);
     let w = observe (ap_addr (Dst p) \<in> set (w_destIPActivity w)) (DestActivity (ap_addr (Dst p))) w;
     let w = observe (w_stats w) (TxVirtual (p_b p)) w;
     Some ((buf, n), noteActivity now w) }"

text \<open>
  \<open>Read\<close> for what it received on the channel: nothing when the channel is closed, a read of the device, or an
  injected packet, which goes into the first buffer. The result is the buffers filled, their sizes and
  the error.
\<close>

datatype tunVectorReadResult = TunRead "terr option" "bytes list" nat | TunInjected bytes

definition Read :: "'k Wrapper Env \<Rightarrow> int \<Rightarrow> Parsed \<Rightarrow> tunVectorReadResult option \<Rightarrow> bytes list \<Rightarrow> nat \<Rightarrow> 'k Wrapper \<Rightarrow>
    (((bytes list \<times> nat list) \<times> terr option) \<times> 'k Wrapper) option" where
  "Read env now p0 res outs offset w = (case res of
     None \<Rightarrow> Some ((([], []), Some EOF), w)
   | Some (TunRead err datas dataOffset) \<Rightarrow> Read_vector env now p0 datas dataOffset err outs offset w
   | Some (TunInjected data) \<Rightarrow> (case outs of [] \<Rightarrow> None
       | out # _ \<Rightarrow> do {
           ((buf, n), w) \<leftarrow> injectedRead env now p0 data out offset w;
           Some ((([buf], [n]), None), w) }))"

subsection \<open>What reaches the device was admitted\<close>

text \<open>Callbacks that replace neither the filter nor the NAT configuration nor the flows that are tracked.\<close>

definition same_cfg :: "'k Wrapper \<Rightarrow> 'k Wrapper \<Rightarrow> bool" where
  "same_cfg w w' \<longleftrightarrow> w_filter w' = w_filter w \<and> w_natConfig w' = w_natConfig w"

definition keeps :: "'k Wrapper \<Rightarrow> 'k Wrapper \<Rightarrow> bool" where
  "keeps w w' \<longleftrightarrow> same_cfg w w' \<and> w_world w' = w_world w"



lemma keeps_refl [simp]: "keeps w w"
  by (simp add: keeps_def same_cfg_def)

lemma keeps_trans: "keeps w w' \<Longrightarrow> keeps w' w'' \<Longrightarrow> keeps w w''"
  by (simp add: keeps_def same_cfg_def)

lemma keeps_steps [simp]:
  "keeps w (observe on e v) = keeps w v" "keeps w (count f v) = keeps w v" "keeps w (noteActivity now v) = keeps w v"
  "keeps w (injectOutbound r v) = keeps w v" "keeps w (snd (InjectOutbound env pkt v)) = keeps w v"
  by (simp_all add: keeps_def same_cfg_def observe_def count_def noteActivity_def injectOutbound_def InjectOutbound_def)












definition tracked :: "Filter \<Rightarrow> World \<Rightarrow> flowtuple set" where
  "tracked filt w = fst ` set (flows w (f_state filt))"

definition filter_live :: "Filter \<Rightarrow> World \<Rightarrow> bool" where
  "filter_live filt w \<longleftrightarrow> World_wf w \<and> f_state filt < length (w_states w)"






definition sample_env :: "nat Wrapper Env" where
  "sample_env = \<lparr>PacketStartOffset = 16, MaxPacketSize = 2000, gVisor = sample_gvisor, tdev_err = (\<lambda>_. None), filterFlags = 3,
     PreFilterIn = None, PostFilterIn = None, PreFilterOutNetstack = None, PreFilterOutEngine = None, PostFilterOut = None,
     OnTSMPPongReceived = None, OnICMPEchoResponseReceived = None, PeerAPIPort = None, disableFilter = False, disableTSMPRejected = False\<rparr>"

definition zeroMetrics :: metrics where
  "zeroMetrics = \<lparr>mPacketIn = 0, mPacketInDrop = 0, mPacketInDropFilter = 0, mPacketInDropSelfDisco = 0, mPacketOut = 0,
     mPacketOutDrop = 0, mPacketOutDropFilter = 0, mPacketOutDropSelfDisco = 0\<rparr>"

definition sample_wrapper :: "nat Wrapper" where
  "sample_wrapper = \<lparr>w_natConfig = None, w_filter = Some sample_filter, w_world = sample_world, w_discoKey = replicate 32 0,
     w_destIPActivity = [], w_stats = False, w_captureHook = False, w_lastActivity = 0, w_vectorOutbound = [], w_outboundClosed = False,
     w_tdev = [], w_observed = [], w_metrics = zeroMetrics\<rparr>"




subsection \<open>A packet that stops the client\<close>




subsection \<open>Answers to the sender\<close>

lemma GenerateRejected_decodes:
  assumes "rj_consistent4 rj"
  shows "\<exists>pkt pp. GenerateRejected rj = Some pkt \<and> length pkt = Rejected_Len rj \<and> Decode q pkt = Some pp \<and> IPProto pp = TSMP \<and>
    AsTailscaleRejectedHeader pp = Some (Some rj)"
proof -
  obtain b pp where b: "Rejected_Marshal rj (replicate (Rejected_Len rj) 0) = Some (Inr b)" "Decode q b = Some pp" "IPProto pp = TSMP"
      "AsTailscaleRejectedHeader pp = Some (Some rj)" "length b = Rejected_Len rj"
    using Rejected_roundtrip4 [OF assms, of "replicate (Rejected_Len rj) 0" q] by auto
  then show ?thesis using b by (auto simp: GenerateRejected_def ignore_err_def)
qed

text \<open>
  A refused connection is reported. When the filter refuses a TCP SYN over IPv4, exactly one packet is
  queued for the sender; it decodes as a TSMP message that names the flow that was refused and says
  whether the rules or shields-up mode refused it.
\<close>

theorem refused_syn_reported:
  assumes "w_filter w = Some filt" "filter_live filt (w_world w)" "\<not> verdict_in filt (tracked filt (w_world w)) p" "\<not> peerapi_syn env p"
    and "Parsed_wf p" "IPVersion p = 4" "IPProto p = TCP" "TCPFlags p AND TCPSyn \<noteq> 0"
    and "\<not> disableTSMPRejected env" "\<not> w_outboundClosed w" "27 \<le> MaxPacketSize env"
  shows "\<exists>w' pkt pp. filter_in env now p w = Some (Drop, w') \<and> w_vectorOutbound w' = w_vectorOutbound w @ [pkt] \<and>
    Decode q pkt = Some pp \<and> IPProto pp = TSMP \<and> AsTailscaleRejectedHeader pp = Some (Some (reject_header filt p))"
proof -
  let ?rj = "reject_header filt p"
  have a: "Is4 (ap_addr (Src p))" "Is4 (ap_addr (Dst p))" using assms(5-7) by (simp_all add: Parsed_wf_def)
  then have c: "rj_consistent4 ?rj" by (simp add: rj_consistent4_def reject_header_def)
  have len: "Rejected_Len ?rj = 27" using a by (simp add: Rejected_Len_def reject_header_def rj_hasFlags_def)
  obtain pkt pp where pkt: "GenerateRejected ?rj = Some pkt" "length pkt = 27" "Decode q pkt = Some pp" "IPProto pp = TSMP"
      "AsTailscaleRejectedHeader pp = Some (Some ?rj)"
    using GenerateRejected_decodes [OF c, of q] len by auto
  obtain world where run: "RunIn filt p (filterFlags env) now (w_world w) = Some (Drop, world)"
    using RunIn_verdict_step [of "w_world w" filt p "filterFlags env" now] assms(2,3) by (auto simp: filter_live_def tracked_def)
  show ?thesis using run pkt assms
    by (auto simp: filter_in_def send_reject_def InjectOutbound_def injectOutbound_def count_def)
qed

definition sample_syn :: Parsed where
  "sample_syn = zeroParsed\<lparr>p_b := replicate 40 0, p_length := 40, p_subofs := 20, IPVersion := 4, IPProto := TCP, TCPFlags := TCPSyn,
     Src := AddrPortFrom (V4 0x64400001) 5000, Dst := AddrPortFrom (V4 0x64400002) 22\<rparr>"

theorem refused_syn_reported_witness:
  "\<exists>w' pkt pp. filter_in sample_env 0 sample_syn sample_wrapper = Some (Drop, w') \<and> w_vectorOutbound w' = [pkt] \<and>
    Decode zeroParsed pkt = Some pp \<and> AsTailscaleRejectedHeader pp = Some (Some (reject_header sample_filter sample_syn))"
proof -
  have v: "\<not> verdict_in sample_filter (tracked sample_filter (w_world sample_wrapper)) sample_syn"
    using not_bad_sample
    by (simp add: verdict_in_def sample_syn_def AddrPortFrom_def sample_world_wf policy_in_def IsTCPSyn_def)
  have w: "w_filter sample_wrapper = Some sample_filter" "filter_live sample_filter (w_world sample_wrapper)"
    "\<not> w_outboundClosed sample_wrapper" "w_vectorOutbound sample_wrapper = []"
    using sample_world_wf by (simp_all add: sample_wrapper_def filter_live_def)
  have p: "Parsed_wf sample_syn" "IPVersion sample_syn = 4" "IPProto sample_syn = TCP" "TCPFlags sample_syn AND TCPSyn \<noteq> 0"
    by (simp_all add: sample_syn_def zeroParsed_def Parsed_wf_def AddrPortFrom_def)
  have e: "\<not> peerapi_syn sample_env sample_syn" "\<not> disableTSMPRejected sample_env" "27 \<le> MaxPacketSize sample_env"
    by (simp_all add: peerapi_syn_def sample_env_def)
  show ?thesis using refused_syn_reported [OF w(1,2) v e(1) p e(2) w(3) e(3), of 0 zeroParsed] w(4) by auto
qed

lemma Decode_v4_length: "Decode q b = Some p \<Longrightarrow> IPVersion p = 4 \<Longrightarrow> 20 \<le> length b"
proof (rule ccontr)
  assume d: "Decode q b = Some p" "IPVersion p = 4" and l: "\<not> 20 \<le> length b"
  then have "decode4 r b = Some (r\<lparr>IPVersion := 0, IPProto := Unknown\<rparr>)" "decode6 r b = Some (r\<lparr>IPVersion := 0, IPProto := Unknown\<rparr>)" for r
    by (simp_all add: decode4_short decode6_short)
  then show False using d by (cases b) (auto simp: Decode_Nil Decode_Cons Let_def split: if_splits)
qed

lemma GeneratePong_decodes:
  assumes "Is4 (ip4_Src ip)" "Is4 (ip4_Dst ip)" "ip4_IPProto ip = TSMP" "length data = 8"
  shows "\<exists>pkt pp. GeneratePong \<lparr>pong_IPHeader = H_IP4 ip, pong_Data = data, pong_PeerAPIPort = port\<rparr> = Some pkt \<and> length pkt = 31 \<and>
    Decode q pkt = Some pp \<and> ap_addr (Src pp) = ip4_Src ip \<and> ap_addr (Dst pp) = ip4_Dst ip \<and> AsTSMPPong pp = Some (Some (data, port))"
proof -
  let ?h = "\<lparr>pong_IPHeader = H_IP4 ip, pong_Data = data, pong_PeerAPIPort = port\<rparr>"
  have len: "TSMPPongReply_Len ?h = 31" by (simp add: TSMPPongReply_Len_def IP4Header_Len_def)
  obtain b pp where "TSMPPongReply_Marshal ?h (replicate 31 0) = Some (Inr b)" "length b = 31" "Decode q b = Some pp"
      "ap_addr (Src pp) = ip4_Src ip" "ap_addr (Dst pp) = ip4_Dst ip" "AsTSMPPong pp = Some (Some (data, port))"
    using TSMPPong_roundtrip [OF assms refl, of "replicate 31 0" port q] len by auto
  then show ?thesis by (auto simp: GeneratePong_def len ignore_err_def)
qed

text \<open>
  A ping is answered. A packet from a peer that decodes as a TSMP ping over IPv4 is consumed, whatever the filter
  and the callbacks are, and exactly one packet is queued: a pong to the sender of the ping, from the
  address that was pinged, with the same eight bytes and the peer API port of that address.
\<close>

theorem ping_answered:
  assumes "Decode q0 b = Some p" "IPVersion p = 4" "AsTSMPPing p = Some (Some data)" "\<not> w_outboundClosed w" "31 \<le> MaxPacketSize env"
  shows "\<exists>w' pkt pp. filterPacketInboundFromWireGuard env now p captHook w = Some (DropSilently, w') \<and>
    w_vectorOutbound w' = w_vectorOutbound w @ [pkt] \<and> w_lastActivity w' = now \<and> Decode q pkt = Some pp \<and>
    ap_addr (Src pp) = ap_addr (Dst p) \<and> ap_addr (Dst pp) = ap_addr (Src p) \<and>
    AsTSMPPong pp = Some (Some (data, case PeerAPIPort env of None \<Rightarrow> 0 | Some f \<Rightarrow> fst (f (ap_addr (Dst p)))))"
proof -
  let ?port = "case PeerAPIPort env of None \<Rightarrow> 0 | Some f \<Rightarrow> fst (f (ap_addr (Dst p)))"
  have tsmp: "IPProto p = TSMP" using assms(3) by (auto simp: AsTSMPPing_def split: if_splits)
  have a: "Is4 (ap_addr (Src p))" "Is4 (ap_addr (Dst p))"
    using Decode_wf [OF assms(1)] assms(2) tsmp by (simp_all add: Parsed_wf_def)
  have "20 \<le> length (p_b p)" using Decode_v4_length [OF assms(1,2)] Decode_p_b [OF assms(1)] by simp
  then obtain h where h: "Parsed_IP4Header p = Some h" "ip4_Src h = ap_addr (Src p)" "ip4_Dst h = ap_addr (Dst p)" "ip4_IPProto h = TSMP"
    using assms(2) tsmp by (auto simp: Parsed_IP4Header_def rd16_Some)
  have "length data = 8" using assms(3) by (auto simp: AsTSMPPing_def split: if_splits bind_splits)
  then obtain pkt pp where pkt: "GeneratePong \<lparr>pong_IPHeader = H_IP4 (IP4Header_ToResponse h), pong_Data = data, pong_PeerAPIPort = ?port\<rparr> = Some pkt"
      "length pkt = 31" "Decode q pkt = Some pp" "ap_addr (Src pp) = ap_addr (Dst p)" "ap_addr (Dst pp) = ap_addr (Src p)"
      "AsTSMPPong pp = Some (Some (data, ?port))"
    using GeneratePong_decodes [of "IP4Header_ToResponse h" data ?port q] h a by (auto simp: IP4Header_ToResponse_def)
  let ?w = "noteActivity now (observe captHook (Captured FromPeer (p_b p) (p_CaptureMeta p)) w)"
  have "filterPacketInboundFromWireGuard env now p captHook w = Some (DropSilently, injectOutbound pkt ?w)"
    using tsmp assms(2,3,5) h(1) pkt(1,2)
    by (auto simp: filterPacketInboundFromWireGuard_def injectOutboundPong_def InjectOutbound_def Let_def)
  moreover have "w_vectorOutbound (injectOutbound pkt ?w) = w_vectorOutbound w @ [pkt]" "w_lastActivity (injectOutbound pkt ?w) = now"
    using assms(4) by (simp_all add: injectOutbound_def noteActivity_def observe_def)
  ultimately show ?thesis using pkt by blast
qed

theorem ping_answered_witness:
  "\<exists>p w' pkt. Decode zeroParsed tsmp_ping_packet = Some p \<and>
    filterPacketInboundFromWireGuard sample_env 7 p False sample_wrapper = Some (DropSilently, w') \<and> w_vectorOutbound w' = [pkt]"
proof -
  have "map_option (\<lambda>p. (IPVersion p, AsTSMPPing p)) (Decode zeroParsed tsmp_ping_packet) = Some (4, Some (Some [1, 2, 3, 4, 5, 6, 7, 8]))"
    by code_simp
  then obtain p where p: "Decode zeroParsed tsmp_ping_packet = Some p" "IPVersion p = 4" "AsTSMPPing p = Some (Some [1, 2, 3, 4, 5, 6, 7, 8])" by auto
  have "\<not> w_outboundClosed sample_wrapper" "31 \<le> MaxPacketSize sample_env" "w_vectorOutbound sample_wrapper = []"
    by (simp_all add: sample_wrapper_def sample_env_def)
  then show ?thesis using ping_answered [OF p, of sample_wrapper sample_env 7 False zeroParsed] p(1) by auto
qed

end
