(* ===== verification/Tstun_Queue.thy ===== *)
theory Tstun_Queue
  imports Prelude
begin

section \<open>Package \<open>net/tstun\<close>: the buffer shared by polling and reading\<close>

text \<open>
  The goroutines of \<open>src/net/tstun/wrap.go\<close> that meet at the two channels \<open>bufferConsumed\<close> and
  \<open>vectorOutbound\<close>, each of capacity one. \<open>pollVector\<close> reads a vector of packets from the device into the
  one \<open>vectorBuffer\<close> and sends a reference to it; \<open>Read\<close> works on the buffer through this reference and
  hands it back; any number of goroutines inject packets; \<open>Close\<close> closes both channels. A send on
  \<open>vectorOutbound\<close> holds \<open>outboundMu\<close> while it blocks. Each goroutine is a function from a state to its
  possible next states; a step of the system is a step of one goroutine. The content of the buffer is
  the number of the vector the device wrote last.
\<close>

subsection \<open>State\<close>

text \<open>A vector read from the device, a failed read without packets, an injected packet.\<close>

datatype item = Vec nat | VecErr | Injected bytes

datatype pollpc = PWait | PRead | PSend item | PLocked item | PDone

datatype readpc = RWait | RProc nat

datatype closepc = COpen | CClosed | CBuffer | CDone

datatype holder = HPoll | HInject

record queue =
  q_consumed :: bool
  q_consumedClosed :: bool
  q_outbound :: "item option"
  q_outboundClosed :: bool
  q_outboundMu :: "holder option"
  q_poll :: pollpc
  q_inject :: "bytes option"
  q_read :: readpc
  q_close :: closepc
  q_buffer :: nat
  q_next :: nat
  q_errors :: nat
  q_delivered :: "nat list"

text \<open>After \<open>wrap\<close>: the buffer starts out consumed.\<close>

definition wrap_state :: queue where
  "wrap_state = \<lparr>q_consumed = True, q_consumedClosed = False, q_outbound = None, q_outboundClosed = False, q_outboundMu = None,
     q_poll = PWait, q_inject = None, q_read = RWait, q_close = COpen, q_buffer = 0, q_next = 0, q_errors = 0, q_delivered = []\<rparr>"

subsection \<open>The goroutines\<close>

text \<open>
  \<open>sendVectorOutbound\<close>: lock, give up if closed, send, unlock. With the lock and the channel full it waits
  for \<open>Read\<close>.
\<close>

definition sendVectorOutbound_next :: "queue \<Rightarrow> queue list" where
  "sendVectorOutbound_next s = (case q_poll s of
     PSend i \<Rightarrow> if q_outboundMu s \<noteq> None then []
       else if q_outboundClosed s then [s\<lparr>q_poll := PWait\<rparr>]
       else [s\<lparr>q_outboundMu := Some HPoll, q_poll := PLocked i\<rparr>]
   | PLocked i \<Rightarrow> if q_outbound s \<noteq> None then []
       else [s\<lparr>q_outbound := Some i, q_outboundMu := None, q_poll := PWait\<rparr>]
   | _ \<Rightarrow> [])"

text \<open>
  \<open>pollVector\<close>: wait for the buffer, end when the channel is closed and empty; before each read of the
  device look whether the wrapper is closed; the read gives packets, or an error without packets.
\<close>

definition pollVector_next :: "queue \<Rightarrow> queue list" where
  "pollVector_next s = (case q_poll s of
     PWait \<Rightarrow> if q_consumed s then [s\<lparr>q_consumed := False, q_poll := PRead\<rparr>]
       else if q_consumedClosed s then [s\<lparr>q_poll := PDone\<rparr>] else []
   | PRead \<Rightarrow>
       (if q_close s \<noteq> COpen then [s\<lparr>q_poll := PDone\<rparr>] else []) @
       [s\<lparr>q_poll := PSend (Vec (q_next s)), q_buffer := q_next s, q_next := q_next s + 1\<rparr>,
        s\<lparr>q_poll := PSend VecErr, q_errors := q_errors s + 1\<rparr>]
   | _ \<Rightarrow> sendVectorOutbound_next s)"

definition injectOutbound_next :: "bytes \<Rightarrow> queue \<Rightarrow> queue list" where
  "injectOutbound_next r s = (case q_inject s of
     None \<Rightarrow> if q_outboundMu s \<noteq> None then []
       else if q_outboundClosed s then [s]
       else [s\<lparr>q_outboundMu := Some HInject, q_inject := Some r\<rparr>]
   | Some r \<Rightarrow> if q_outbound s \<noteq> None then []
       else [s\<lparr>q_outbound := Some (Injected r), q_outboundMu := None, q_inject := None\<rparr>])"

text \<open>
  \<open>sendBufferConsumed\<close>: nothing when closed, else a send that waits while the channel is full. The lock
  \<open>bufferConsumedMu\<close> is held for this one step; that the step is never blocked in a reachable state is part
  of \<open>buffer_handover\<close> below, so that \<open>Close\<close> never waits for the lock.
\<close>

definition sendBufferConsumed_next :: "queue \<Rightarrow> queue list" where
  "sendBufferConsumed_next s =
     (if q_consumedClosed s then [s] else if q_consumed s then [] else [s\<lparr>q_consumed := True\<rparr>])"

text \<open>
  \<open>Read\<close>: receive; an error without packets is returned at once, an injected packet has its own bytes, a
  vector is worked on in the shared buffer, which is then handed back. What \<open>Read\<close> found in the buffer is
  recorded in \<open>q_delivered\<close>.
\<close>

definition Read_next :: "queue \<Rightarrow> queue list" where
  "Read_next s = (case q_read s of
     RWait \<Rightarrow> (case q_outbound s of
         None \<Rightarrow> []
       | Some (Vec k) \<Rightarrow> [s\<lparr>q_outbound := None, q_read := RProc k\<rparr>]
       | Some _ \<Rightarrow> [s\<lparr>q_outbound := None\<rparr>])
   | RProc k \<Rightarrow> map (\<lambda>t. t\<lparr>q_read := RWait, q_delivered := q_delivered t @ [q_buffer t]\<rparr>) (sendBufferConsumed_next s))"

definition Close_next :: "queue \<Rightarrow> queue list" where
  "Close_next s = (case q_close s of
     COpen \<Rightarrow> [s\<lparr>q_close := CClosed\<rparr>]
   | CClosed \<Rightarrow> [s\<lparr>q_close := CBuffer, q_consumedClosed := True\<rparr>]
   | CBuffer \<Rightarrow> if q_outboundMu s \<noteq> None then [] else [s\<lparr>q_close := CDone, q_outboundClosed := True\<rparr>]
   | CDone \<Rightarrow> [])"

inductive qstep :: "queue \<Rightarrow> queue \<Rightarrow> bool" where
  poll: "t \<in> set (pollVector_next s) \<Longrightarrow> qstep s t"
| inject: "t \<in> set (injectOutbound_next r s) \<Longrightarrow> qstep s t"
| read: "t \<in> set (Read_next s) \<Longrightarrow> qstep s t"
| close: "t \<in> set (Close_next s) \<Longrightarrow> qstep s t"

inductive_cases qstepE: "qstep s t"

inductive reachable :: "queue \<Rightarrow> bool" where
  init: "reachable wrap_state"
| step: "reachable s \<Longrightarrow> qstep s t \<Longrightarrow> reachable t"

subsection \<open>The invariant\<close>

text \<open>The vectors read from the device and not yet delivered, in the hands of the reader, the channel and the poller.\<close>

fun read_vecs :: "readpc \<Rightarrow> nat list" where
  "read_vecs RWait = []" | "read_vecs (RProc k) = [k]"

fun item_vecs :: "item option \<Rightarrow> nat list" where
  "item_vecs (Some (Vec k)) = [k]" | "item_vecs _ = []"

fun poll_vecs :: "pollpc \<Rightarrow> nat list" where
  "poll_vecs (PSend i) = item_vecs (Some i)" | "poll_vecs (PLocked i) = item_vecs (Some i)" | "poll_vecs _ = []"

definition under_way :: "queue \<Rightarrow> nat list" where
  "under_way s = read_vecs (q_read s) @ item_vecs (q_outbound s) @ poll_vecs (q_poll s)"

text \<open>Who has the buffer: the token in the channel, the poller, the vector in the channel, or the reader.\<close>

fun poll_owns :: "pollpc \<Rightarrow> nat" where
  "poll_owns PWait = 0" | "poll_owns PDone = 0" | "poll_owns _ = 1"

definition owners :: "queue \<Rightarrow> nat" where
  "owners s = of_bool (q_consumed s) + poll_owns (q_poll s) + length (item_vecs (q_outbound s)) + length (read_vecs (q_read s))"

lemma item_vecs_length [simp]: "length (item_vecs x) \<le> Suc 0"
  by (cases x rule: item_vecs.cases) simp_all

lemma item_vecs_item: "length (item_vecs (Some i)) = (case i of Vec k \<Rightarrow> 1 | _ \<Rightarrow> 0)"
  by (cases i) simp_all

lemma poll_vecs_owns: "poll_owns p = 0 \<Longrightarrow> poll_vecs p = []"
  by (cases p) simp_all

text \<open>The steps one by one.\<close>

lemma pollVector_cases:
  assumes "t \<in> set (pollVector_next s)"
  obtains (took) "q_poll s = PWait" "q_consumed s" "t = s\<lparr>q_consumed := False, q_poll := PRead\<rparr>"
  | (ended) "q_poll s = PWait" "\<not> q_consumed s" "q_consumedClosed s" "t = s\<lparr>q_poll := PDone\<rparr>"
  | (closed) "q_poll s = PRead" "q_close s \<noteq> COpen" "t = s\<lparr>q_poll := PDone\<rparr>"
  | (packets) "q_poll s = PRead" "t = s\<lparr>q_poll := PSend (Vec (q_next s)), q_buffer := q_next s, q_next := q_next s + 1\<rparr>"
  | (failed) "q_poll s = PRead" "t = s\<lparr>q_poll := PSend VecErr, q_errors := q_errors s + 1\<rparr>"
  | (refused) i where "q_poll s = PSend i" "q_outboundMu s = None" "q_outboundClosed s" "t = s\<lparr>q_poll := PWait\<rparr>"
  | (lock) i where "q_poll s = PSend i" "q_outboundMu s = None" "\<not> q_outboundClosed s"
      "t = s\<lparr>q_outboundMu := Some HPoll, q_poll := PLocked i\<rparr>"
  | (send) i where "q_poll s = PLocked i" "q_outbound s = None" "t = s\<lparr>q_outbound := Some i, q_outboundMu := None, q_poll := PWait\<rparr>"
proof (cases "q_poll s")
  case PWait
  with assms that(1,2) show thesis by (simp add: pollVector_next_def split: if_splits)
next
  case PRead
  with assms that(3-5) show thesis by (auto simp: pollVector_next_def split: if_splits)
next
  case (PSend i)
  with assms that(6,7) show thesis by (simp add: pollVector_next_def sendVectorOutbound_next_def split: if_splits)
next
  case (PLocked i)
  with assms that(8) show thesis by (simp add: pollVector_next_def sendVectorOutbound_next_def split: if_splits)
next
  case PDone
  with assms show thesis by (simp add: pollVector_next_def sendVectorOutbound_next_def)
qed

lemma injectOutbound_cases:
  assumes "t \<in> set (injectOutbound_next r s)"
  obtains (closed) "t = s"
  | (lock) "q_inject s = None" "q_outboundMu s = None" "\<not> q_outboundClosed s" "t = s\<lparr>q_outboundMu := Some HInject, q_inject := Some r\<rparr>"
  | (send) b where "q_inject s = Some b" "q_outbound s = None"
      "t = s\<lparr>q_outbound := Some (Injected b), q_outboundMu := None, q_inject := None\<rparr>"
proof (cases "q_inject s")
  case None
  with assms that(1,2) show thesis by (simp add: injectOutbound_next_def split: if_splits)
next
  case (Some b)
  with assms that(3) show thesis by (simp add: injectOutbound_next_def split: if_splits)
qed

lemma Read_cases:
  assumes "t \<in> set (Read_next s)"
  obtains (vector) k where "q_read s = RWait" "q_outbound s = Some (Vec k)" "t = s\<lparr>q_outbound := None, q_read := RProc k\<rparr>"
  | (other) "q_read s = RWait" "item_vecs (q_outbound s) = []" "t = s\<lparr>q_outbound := None\<rparr>"
  | (closed) k where "q_read s = RProc k" "q_consumedClosed s" "t = s\<lparr>q_read := RWait, q_delivered := q_delivered s @ [q_buffer s]\<rparr>"
  | (returned) k where "q_read s = RProc k" "\<not> q_consumedClosed s" "\<not> q_consumed s"
      "t = s\<lparr>q_consumed := True, q_read := RWait, q_delivered := q_delivered s @ [q_buffer s]\<rparr>"
proof (cases "q_read s")
  case RWait
  with assms that(1,2) show thesis
    by (cases "q_outbound s" rule: item_vecs.cases) (simp_all add: Read_next_def)
next
  case (RProc k)
  with assms that(3,4) show thesis by (simp add: Read_next_def sendBufferConsumed_next_def split: if_splits)
qed

lemma Close_cases:
  assumes "t \<in> set (Close_next s)"
  obtains (signal) "q_close s = COpen" "t = s\<lparr>q_close := CClosed\<rparr>"
  | (buffer) "q_close s = CClosed" "t = s\<lparr>q_close := CBuffer, q_consumedClosed := True\<rparr>"
  | (outbound) "q_close s = CBuffer" "q_outboundMu s = None" "t = s\<lparr>q_close := CDone, q_outboundClosed := True\<rparr>"
  using assms by (cases "q_close s") (simp_all add: Close_next_def that split: if_splits)

text \<open>The lock is held by the goroutine that is sending; the flags tell how far \<open>Close\<close> has come.\<close>

definition locks_ok :: "queue \<Rightarrow> bool" where
  "locks_ok s \<longleftrightarrow> (q_outboundMu s = Some HPoll \<longleftrightarrow> (\<exists>i. q_poll s = PLocked i)) \<and> (q_outboundMu s = Some HInject \<longleftrightarrow> q_inject s \<noteq> None) \<and>
     (q_outboundMu s \<noteq> None \<longrightarrow> \<not> q_outboundClosed s) \<and>
     (q_consumedClosed s \<longleftrightarrow> q_close s = CBuffer \<or> q_close s = CDone) \<and> (q_outboundClosed s \<longleftrightarrow> q_close s = CDone)"

definition buffer_ok :: "queue \<Rightarrow> bool" where
  "buffer_ok s \<longleftrightarrow> owners s \<le> 1 \<and> (\<forall>k\<in>set (under_way s). k = q_buffer s)"

text \<open>Nothing is lost but, after \<open>Close\<close>, a last vector that nobody has any more.\<close>

definition order_ok :: "queue \<Rightarrow> bool" where
  "order_ok s \<longleftrightarrow> (\<exists>d. q_delivered s @ under_way s @ d = [0..<q_next s] \<and> (d \<noteq> [] \<longrightarrow> owners s = 0 \<and> q_close s = CDone))"

text \<open>While the wrapper is open, the buffer has an owner unless a read failed without packets.\<close>

definition sending_error :: "queue \<Rightarrow> bool" where
  "sending_error s \<longleftrightarrow> q_poll s = PSend VecErr \<or> q_poll s = PLocked VecErr"

definition token_ok :: "queue \<Rightarrow> bool" where
  "token_ok s \<longleftrightarrow> (\<forall>b. q_poll s \<noteq> PSend (Injected b) \<and> q_poll s \<noteq> PLocked (Injected b)) \<and>
     (q_close s = COpen \<longrightarrow> q_poll s \<noteq> PDone \<and> owners s + q_errors s = 1 + of_bool (sending_error s))"

definition queue_inv :: "queue \<Rightarrow> bool" where
  "queue_inv s \<longleftrightarrow> locks_ok s \<and> buffer_ok s \<and> order_ok s \<and> token_ok s"

lemma wrap_state_inv: "queue_inv wrap_state"
  by (simp add: queue_inv_def locks_ok_def buffer_ok_def order_ok_def token_ok_def owners_def under_way_def sending_error_def wrap_state_def)

lemma locks_step: "qstep s t \<Longrightarrow> locks_ok s \<Longrightarrow> locks_ok t"
  by (elim qstepE pollVector_cases injectOutbound_cases Read_cases Close_cases) (auto simp: locks_ok_def)

lemma buffer_step: "qstep s t \<Longrightarrow> buffer_ok s \<Longrightarrow> buffer_ok t"
  by (elim qstepE pollVector_cases injectOutbound_cases Read_cases Close_cases) (simp_all add: buffer_ok_def owners_def under_way_def)

lemma order_step: "qstep s t \<Longrightarrow> locks_ok s \<Longrightarrow> buffer_ok s \<Longrightarrow> order_ok s \<Longrightarrow> order_ok t"
  by (elim qstepE pollVector_cases injectOutbound_cases Read_cases Close_cases)
    (auto simp: locks_ok_def buffer_ok_def order_ok_def owners_def under_way_def poll_vecs_owns intro: exI [of _ "[]"])

lemma token_step: "qstep s t \<Longrightarrow> locks_ok s \<Longrightarrow> buffer_ok s \<Longrightarrow> token_ok s \<Longrightarrow> token_ok t"
  by (elim qstepE pollVector_cases injectOutbound_cases Read_cases Close_cases)
    (auto simp: locks_ok_def buffer_ok_def token_ok_def owners_def under_way_def sending_error_def item_vecs_item split: item.splits)

lemma reachable_inv: "reachable s \<Longrightarrow> queue_inv s"
proof (induction rule: reachable.induct)
  case init
  show ?case by (rule wrap_state_inv)
next
  case (step s t)
  then show ?case by (simp add: queue_inv_def locks_step buffer_step order_step token_step)
qed

text \<open>A run in which the device delivers one vector and \<open>Read\<close> takes it.\<close>

lemma reachable_poll: "reachable s \<Longrightarrow> t \<in> set (pollVector_next s) \<Longrightarrow> reachable t"
  by (blast intro: reachable.step qstep.poll)

lemma reachable_read: "reachable s \<Longrightarrow> t \<in> set (Read_next s) \<Longrightarrow> reachable t"
  by (blast intro: reachable.step qstep.read)

lemmas next_defs = pollVector_next_def sendVectorOutbound_next_def Read_next_def sendBufferConsumed_next_def

definition one_vector :: queue where
  "one_vector = wrap_state\<lparr>q_consumed := False, q_read := RProc 0, q_next := 1\<rparr>"

definition one_failure :: queue where
  "one_failure = wrap_state\<lparr>q_consumed := False, q_errors := 1\<rparr>"

lemma reachable_PRead: "reachable (wrap_state\<lparr>q_consumed := False, q_poll := PRead\<rparr>)"
  by (rule reachable_poll [OF reachable.init]) (simp add: next_defs wrap_state_def)

lemma reachable_send:
  assumes "reachable s" "q_poll s = PSend i" "q_outboundMu s = None" "\<not> q_outboundClosed s" "q_outbound s = None"
  shows "reachable (s\<lparr>q_outbound := Some i, q_outboundMu := None, q_poll := PWait\<rparr>)"
proof -
  have "reachable (s\<lparr>q_outboundMu := Some HPoll, q_poll := PLocked i\<rparr>)"
    by (rule reachable_poll [OF assms(1)]) (use assms in \<open>simp add: next_defs\<close>)
  then show ?thesis
    by (rule reachable_poll) (use assms in \<open>simp add: next_defs\<close>)
qed

lemma reachable_one_vector: "reachable one_vector"
proof -
  have 1: "reachable (wrap_state\<lparr>q_consumed := False, q_poll := PSend (Vec 0), q_next := 1\<rparr>)"
    by (rule reachable_poll [OF reachable_PRead]) (simp add: next_defs wrap_state_def)
  have 2: "reachable (wrap_state\<lparr>q_consumed := False, q_outbound := Some (Vec 0), q_next := 1\<rparr>)"
    using reachable_send [OF 1] by (simp add: wrap_state_def)
  show ?thesis by (rule reachable_read [OF 2]) (simp add: next_defs wrap_state_def one_vector_def)
qed

lemma reachable_one_failure: "reachable one_failure"
proof -
  have 1: "reachable (wrap_state\<lparr>q_consumed := False, q_poll := PSend VecErr, q_errors := 1\<rparr>)"
    by (rule reachable_poll [OF reachable_PRead]) (simp add: next_defs wrap_state_def)
  have 2: "reachable (wrap_state\<lparr>q_consumed := False, q_outbound := Some VecErr, q_errors := 1\<rparr>)"
    using reachable_send [OF 1] by (simp add: wrap_state_def)
  show ?thesis by (rule reachable_read [OF 2]) (simp add: next_defs wrap_state_def one_failure_def)
qed

subsection \<open>The buffer is never shared, nothing is lost\<close>

text \<open>
  C7. At every moment at most one of the poller, the channel and the reader has the vector buffer. While \<open>Read\<close>
  works on a vector, the buffer still holds this vector, the poller is not reading into it, and handing
  the buffer back does not block. No goroutine sends on \<open>vectorOutbound\<close> after \<open>Close\<close> has closed it.
\<close>

theorem buffer_handover:
  assumes "reachable s"
  shows "owners s \<le> 1 \<and>
    (\<forall>k. q_read s = RProc k \<longrightarrow> q_buffer s = k \<and> q_poll s \<in> {PWait, PDone} \<and> sendBufferConsumed_next s \<noteq> []) \<and>
    ((\<exists>i. q_poll s = PLocked i) \<or> q_inject s \<noteq> None \<longrightarrow> \<not> q_outboundClosed s)"
proof (intro conjI allI impI)
  have b: "buffer_ok s" and l: "locks_ok s"
    using reachable_inv [OF assms] by (simp_all add: queue_inv_def)
  from b show "owners s \<le> 1" by (simp add: buffer_ok_def)
  from l show "\<not> q_outboundClosed s" if "(\<exists>i. q_poll s = PLocked i) \<or> q_inject s \<noteq> None"
    using that by (auto simp: locks_ok_def)
  fix k assume "q_read s = RProc k"
  with b show "q_buffer s = k" "q_poll s \<in> {PWait, PDone}" "sendBufferConsumed_next s \<noteq> []"
    by (cases "q_poll s"; simp add: buffer_ok_def owners_def under_way_def sendBufferConsumed_next_def)+
qed

theorem buffer_handover_witness:
  "owners one_vector \<le> 1 \<and> q_buffer one_vector = 0 \<and> q_poll one_vector \<in> {PWait, PDone} \<and> sendBufferConsumed_next one_vector \<noteq> []"
  using buffer_handover [OF reachable_one_vector] by (simp add: one_vector_def)

text \<open>
  C8. \<open>Read\<close> delivers the vectors of the device in their order, each once and with its own content; until
  \<open>Close\<close> is through, every vector read from the device is delivered or still under way.
\<close>

theorem delivered_in_order:
  assumes "reachable s"
  shows "q_delivered s = [0..<length (q_delivered s)] \<and> (q_close s \<noteq> CDone \<longrightarrow> q_delivered s @ under_way s = [0..<q_next s])"
proof (intro conjI impI)
  obtain d where d: "q_delivered s @ under_way s @ d = [0..<q_next s]" "d \<noteq> [] \<longrightarrow> owners s = 0 \<and> q_close s = CDone"
    using reachable_inv [OF assms] by (auto simp: queue_inv_def order_ok_def)
  have "length (q_delivered s) \<le> q_next s" using arg_cong [OF d(1), of length] by simp
  then show "q_delivered s = [0..<length (q_delivered s)]"
    using arg_cong [OF d(1), of "take (length (q_delivered s))"] by simp
  show "q_delivered s @ under_way s = [0..<q_next s]" if "q_close s \<noteq> CDone"
    using d that by auto
qed

theorem delivered_in_order_witness:
  "q_delivered one_vector = [0..<length (q_delivered one_vector)] \<and> q_delivered one_vector @ under_way one_vector = [0..<1]"
  using delivered_in_order [OF reachable_one_vector] by (simp add: one_vector_def wrap_state_def)

text \<open>
  A read of the device that fails without packets is the last one: \<open>Read\<close> returns its error without handing
  the buffer back, so that \<open>pollVector\<close> waits for good and no packet of the device is delivered any more.
\<close>

lemma ownerless_step: "qstep s t \<Longrightarrow> owners s = 0 \<Longrightarrow> owners t = 0 \<and> q_next t = q_next s \<and> q_delivered t = q_delivered s"
  by (elim qstepE pollVector_cases injectOutbound_cases Read_cases Close_cases) (auto simp: owners_def)

lemma empty_failure_ends_polling:
  assumes "reachable s" "q_close s = COpen" "q_errors s > 0" "\<not> sending_error s" "qstep\<^sup>*\<^sup>* s t"
  shows "q_next t = q_next s \<and> q_delivered t = q_delivered s"
proof -
  have "owners s = 0" using reachable_inv [OF assms(1)] assms(2-4) by (simp add: queue_inv_def token_ok_def)
  with assms(5) have "owners t = 0 \<and> q_next t = q_next s \<and> q_delivered t = q_delivered s"
    by (induction rule: rtranclp_induct) (auto dest: ownerless_step)
  then show ?thesis by simp
qed

end
