(* ===== verification/Tka_State.thy ===== *)
theory Tka_State
  imports Prelude
begin

section \<open>Package \<open>tka\<close>: keys, update messages and the state they change\<close>

text \<open>
  \<open>src/tka/key.go\<close>, \<open>src/tka/state.go\<close> and \<open>src/tka/aum.go\<close>: the keys of the tailnet key authority
  (network lock), the authority update messages (AUMs) and the state an AUM is applied to.

  A Go slice or map whose nil value the code tells from the empty one is an option, \<open>None\<close> being nil;
  \<open>els\<close> reads its elements. The elements of \<open>DisablementSecrets\<close> are plain byte strings: only their
  length and their content is looked at. A Go \<open>uint\<close> has 64 bits. Of an error only its identity
  matters (\<open>ErrNoSuchKey\<close>, \<open>os.ErrNotExist\<close> and \<open>ErrNoIntersection\<close> are compared with \<open>==\<close>); every
  other error is the fixed text of its message. An operation returns \<open>Ret\<close>, fails with \<open>Raise\<close> or
  panics.

  The packages outside the repository are the fields of the record \<open>tka_lib\<close>: the CBOR encoding of an
  AUM, BLAKE2s, the verification of ed25519 signatures and Argon2.
\<close>

subsection \<open>Outcomes\<close>

datatype err = ErrNoSuchKey | ErrNotExist | ErrNoIntersection | Err string

datatype 'a outcome = Ret 'a | Raise err | Panic

fun andThen :: "'a outcome \<Rightarrow> ('a \<Rightarrow> 'b outcome) \<Rightarrow> 'b outcome" where
  "andThen (Ret x) f = f x"
| "andThen (Raise e) f = Raise e"
| "andThen Panic f = Panic"

text \<open>\<open>fmt.Errorf("text: %v", err)\<close>: a new error in place of the old one.\<close>

fun wrap :: "string \<Rightarrow> 'a outcome \<Rightarrow> 'a outcome" where
  "wrap m (Ret x) = Ret x"
| "wrap m (Raise e) = Raise (Err m)"
| "wrap m Panic = Panic"

text \<open>\<open>err == nil\<close> of a call that does not panic.\<close>

fun succeeds :: "'a outcome \<Rightarrow> bool" where
  "succeeds (Ret _) = True"
| "succeeds _ = False"

named_theorems outcome_simps \<open>when an outcome is a return\<close>

lemma andThen_eq_Ret [outcome_simps]: "andThen m f = Ret y \<longleftrightarrow> (\<exists>x. m = Ret x \<and> f x = Ret y)"
  by (cases m) auto

lemma wrap_eq_Ret [outcome_simps]: "wrap s m = Ret y \<longleftrightarrow> m = Ret y"
  by (cases m) auto

lemma succeeds_iff [outcome_simps]: "succeeds m \<longleftrightarrow> (\<exists>x. m = Ret x)"
  by (cases m) auto

lemma andThen_eq_Panic: "andThen m f = Panic \<longleftrightarrow> m = Panic \<or> (\<exists>x. m = Ret x \<and> f x = Panic)"
  by (cases m) auto

lemma wrap_eq_Panic: "wrap s m = Panic \<longleftrightarrow> m = Panic"
  by (cases m) auto

lemmas panic_simps = andThen_eq_Panic wrap_eq_Panic

subsection \<open>Slices that may be nil\<close>

type_synonym 'a gslice = "'a list option"

fun els :: "'a gslice \<Rightarrow> 'a list" where
  "els None = []"
| "els (Some xs) = xs"

type_synonym KeyID = "byte gslice"
type_synonym AUMHash = bytes
type_synonym meta = "(string \<times> string) list"

subsection \<open>Keys\<close>

definition KeyInvalid :: byte where [simp]: "KeyInvalid = 0"
definition Key25519 :: byte where [simp]: "Key25519 = 1"

record Key =
  k_Kind :: byte
  k_Votes :: u64
  k_Public :: "byte gslice"
  k_Meta :: "meta option"

definition Key_Clone :: "Key \<Rightarrow> Key" where
  "Key_Clone k =
     k\<lparr>k_Public := (case k_Public k of None \<Rightarrow> None | Some p \<Rightarrow> Some (copy_at (replicate (length p) 0) 0 p)),
       k_Meta := (case k_Meta k of None \<Rightarrow> None | Some m \<Rightarrow> Some (map (\<lambda>(a, b). (a, b)) m))\<rparr>"

definition Key_ID :: "Key \<Rightarrow> KeyID outcome" where
  "Key_ID k = (if k_Kind k = Key25519 then Ret (k_Public k) else Raise (Err ''unknown key kind''))"

definition Key_Ed25519 :: "Key \<Rightarrow> byte gslice outcome" where
  "Key_Ed25519 k = (if k_Kind k = Key25519 then Ret (k_Public k) else Raise (Err ''key is not ed25519''))"

definition maxMetaBytes :: u64 where [simp]: "maxMetaBytes = 512"

definition metaBytes :: "meta option \<Rightarrow> u64" where
  "metaBytes m = foldl (\<lambda>n (k, v). n + of_nat (length k + length v)) 0 (els m)"

definition Key_StaticValidate :: "Key \<Rightarrow> unit outcome" where
  "Key_StaticValidate k =
     (if k_Votes k > 4096 then Raise (Err ''excessive key weight'')
      else if k_Votes k = 0 then Raise (Err ''key votes must be non-zero'')
      else if metaBytes (k_Meta k) > maxMetaBytes then Raise (Err ''key metadata too big'')
      else if k_Kind k = Key25519 then Ret ()
      else Raise (Err ''unrecognized key kind''))"

subsection \<open>State, signatures and messages\<close>

record State =
  s_LastAUMHash :: "AUMHash option"
  s_DisablementSecrets :: "bytes gslice"
  s_Keys :: "Key gslice"
  s_StateID1 :: u64
  s_StateID2 :: u64

definition zeroState :: State where
  "zeroState = \<lparr>s_LastAUMHash = None, s_DisablementSecrets = None, s_Keys = None, s_StateID1 = 0, s_StateID2 = 0\<rparr>"

record Signature =
  sig_KeyID :: KeyID
  sig_Signature :: "byte gslice"

definition AUMInvalid :: byte where [simp]: "AUMInvalid = 0"
definition AUMAddKey :: byte where [simp]: "AUMAddKey = 1"
definition AUMRemoveKey :: byte where [simp]: "AUMRemoveKey = 2"
definition AUMNoOp :: byte where [simp]: "AUMNoOp = 3"
definition AUMUpdateKey :: byte where [simp]: "AUMUpdateKey = 4"
definition AUMCheckpoint :: byte where [simp]: "AUMCheckpoint = 5"

record AUM =
  a_MessageKind :: byte
  a_PrevAUMHash :: "byte gslice"
  a_Key :: "Key option"
  a_KeyID :: KeyID
  a_State :: "State option"
  a_Votes :: "u64 option"
  a_Meta :: "meta option"
  a_Signatures :: "Signature gslice"

definition zeroAUM :: AUM where
  "zeroAUM = \<lparr>a_MessageKind = AUMInvalid, a_PrevAUMHash = None, a_Key = None, a_KeyID = None, a_State = None,
     a_Votes = None, a_Meta = None, a_Signatures = None\<rparr>"

text \<open>The packages outside the repository.\<close>

record tka_lib =
  cbor_AUM :: "AUM \<Rightarrow> bytes"
  blake2s_Sum256 :: "bytes \<Rightarrow> bytes"
  ed25519consensus_Verify :: "bytes \<Rightarrow> bytes \<Rightarrow> bytes \<Rightarrow> bool"
  argon2_Key :: "bytes \<Rightarrow> bytes \<Rightarrow> nat \<Rightarrow> nat \<Rightarrow> nat \<Rightarrow> nat \<Rightarrow> bytes"

definition AUM_Serialize :: "'z tka_lib_scheme \<Rightarrow> AUM \<Rightarrow> bytes" where
  "AUM_Serialize L a = cbor_AUM L a"

definition AUM_Hash :: "'z tka_lib_scheme \<Rightarrow> AUM \<Rightarrow> AUMHash" where
  "AUM_Hash L a = blake2s_Sum256 L (AUM_Serialize L a)"

definition AUM_SigHash :: "'z tka_lib_scheme \<Rightarrow> AUM \<Rightarrow> bytes" where
  "AUM_SigHash L a = blake2s_Sum256 L (AUM_Serialize L (a\<lparr>a_Signatures := None\<rparr>))"

definition zeroHash :: AUMHash where
  "zeroHash = replicate 32 0"

definition AUMHash_IsZero :: "AUMHash \<Rightarrow> bool" where
  "AUMHash_IsZero h = (h = zeroHash)"

text \<open>\<open>None\<close> when there is no parent.\<close>

definition AUM_Parent :: "AUM \<Rightarrow> AUMHash option" where
  "AUM_Parent a = (if length (els (a_PrevAUMHash a)) > 0 then Some (copy_at zeroHash 0 (els (a_PrevAUMHash a))) else None)"

text \<open>The verification of a signature over an AUM (\<open>signatureVerify\<close> of \<open>key.go\<close>).\<close>

definition signatureVerify :: "'z tka_lib_scheme \<Rightarrow> Signature \<Rightarrow> bytes \<Rightarrow> Key \<Rightarrow> unit outcome" where
  "signatureVerify L s aumDigest key =
     (if k_Kind key = Key25519 then
        if length (els (k_Public key)) \<noteq> 32 then Raise (Err ''ed25519 key has wrong length'')
        else if ed25519consensus_Verify L (els (k_Public key)) aumDigest (els (sig_Signature s)) then Ret ()
        else Raise (Err ''invalid signature'')
      else Raise (Err ''unhandled key type''))"

subsection \<open>Operations of the state\<close>

fun getKey_loop :: "Key list \<Rightarrow> KeyID \<Rightarrow> Key outcome" where
  "getKey_loop [] key = Raise ErrNoSuchKey"
| "getKey_loop (k # ks) key =
     andThen (Key_ID k) (\<lambda>keyID. if els keyID = els key then Ret k else getKey_loop ks key)"

definition GetKey :: "State \<Rightarrow> KeyID \<Rightarrow> Key outcome" where
  "GetKey s key = getKey_loop (els (s_Keys s)) key"

definition State_Clone :: "State \<Rightarrow> State" where
  "State_Clone s =
     \<lparr>s_LastAUMHash = (case s_LastAUMHash s of None \<Rightarrow> None | Some h \<Rightarrow> Some h),
      s_DisablementSecrets = (case s_DisablementSecrets s of None \<Rightarrow> None
        | Some ds \<Rightarrow> Some (map (\<lambda>d. copy_at (replicate (length d) 0) 0 d) ds)),
      s_Keys = (case s_Keys s of None \<Rightarrow> None | Some ks \<Rightarrow> Some (map Key_Clone ks)),
      s_StateID1 = s_StateID1 s, s_StateID2 = s_StateID2 s\<rparr>"

definition cloneForUpdate :: "'z tka_lib_scheme \<Rightarrow> State \<Rightarrow> AUM \<Rightarrow> State" where
  "cloneForUpdate L s update = (State_Clone s)\<lparr>s_LastAUMHash := Some (AUM_Hash L update)\<rparr>"

definition disablementLength :: nat where [simp]: "disablementLength = 32"

definition disablementSalt :: bytes where
  "disablementSalt = map (\<lambda>c. of_nat (of_char c)) ''tailscale network-lock disablement salt''"

definition DisablementKDF :: "'z tka_lib_scheme \<Rightarrow> bytes \<Rightarrow> bytes" where
  "DisablementKDF L secret = argon2_Key L secret disablementSalt 4 (16 * 1024) 4 disablementLength"

definition checkDisablement :: "'z tka_lib_scheme \<Rightarrow> State \<Rightarrow> bytes \<Rightarrow> bool" where
  "checkDisablement L s secret =
     (let derived = DisablementKDF L secret in
      list_ex (\<lambda>candidate. derived = candidate) (els (s_DisablementSecrets s)))"

definition parentMatches :: "State \<Rightarrow> AUM \<Rightarrow> bool" where
  "parentMatches s update =
     (case s_LastAUMHash s of None \<Rightarrow> True | Some h \<Rightarrow> h = els (a_PrevAUMHash update))"

text \<open>The loop of the \<open>AUMUpdateKey\<close> case, which overwrites every key with the given ID.\<close>

fun update_loop :: "KeyID \<Rightarrow> Key \<Rightarrow> Key list \<Rightarrow> Key list outcome" where
  "update_loop key k' [] = Ret []"
| "update_loop key k' (k # ks) =
     andThen (Key_ID k) (\<lambda>keyID.
       andThen (update_loop key k' ks) (\<lambda>ks'.
         Ret ((if els keyID = els key then k' else k) # ks')))"

text \<open>The search of the \<open>AUMRemoveKey\<close> case: the index of the key, \<open>None\<close> for \<open>-1\<close>.\<close>

fun find_loop :: "KeyID \<Rightarrow> nat \<Rightarrow> Key list \<Rightarrow> nat option outcome" where
  "find_loop key i [] = Ret None"
| "find_loop key i (k # ks) =
     andThen (Key_ID k) (\<lambda>keyID. if els key = els keyID then Ret (Some i) else find_loop key (Suc i) ks)"

definition applyVerifiedAUM :: "'z tka_lib_scheme \<Rightarrow> State \<Rightarrow> AUM \<Rightarrow> State outcome" where
  "applyVerifiedAUM L s update =
     (if \<not> parentMatches s update then Raise (Err ''parent AUMHash mismatch'')
      else if a_MessageKind update = AUMNoOp then Ret (cloneForUpdate L s update)
      else if a_MessageKind update = AUMCheckpoint then
        (case a_State update of
           None \<Rightarrow> Raise (Err ''missing checkpoint state'')
         | Some st \<Rightarrow>
             if s_StateID1 st \<noteq> s_StateID1 s \<or> s_StateID2 st \<noteq> s_StateID2 s
             then Raise (Err ''checkpointed state has an incorrect stateID'')
             else Ret (cloneForUpdate L st update))
      else if a_MessageKind update = AUMAddKey then
        (case a_Key update of
           None \<Rightarrow> Raise (Err ''no key to add provided'')
         | Some k \<Rightarrow> andThen (Key_ID k) (\<lambda>keyID.
             if succeeds (GetKey s keyID) then Raise (Err ''key already exists'')
             else let out = cloneForUpdate L s update in Ret (out\<lparr>s_Keys := Some (els (s_Keys out) @ [k])\<rparr>)))
      else if a_MessageKind update = AUMUpdateKey then
        andThen (GetKey s (a_KeyID update)) (\<lambda>k0.
          let k1 = (case a_Votes update of None \<Rightarrow> k0 | Some v \<Rightarrow> k0\<lparr>k_Votes := v\<rparr>);
              k = (case a_Meta update of None \<Rightarrow> k1 | Some m \<Rightarrow> k1\<lparr>k_Meta := Some m\<rparr>)
          in andThen (wrap ''updated key fails validation'' (Key_StaticValidate k)) (\<lambda>_.
               let out = cloneForUpdate L s update in
               andThen (update_loop (a_KeyID update) k (els (s_Keys out))) (\<lambda>ks.
                 Ret (out\<lparr>s_Keys := (case s_Keys out of None \<Rightarrow> None | Some _ \<Rightarrow> Some ks)\<rparr>))))
      else if a_MessageKind update = AUMRemoveKey then
        andThen (find_loop (a_KeyID update) 0 (els (s_Keys s))) (\<lambda>idx.
          case idx of
            None \<Rightarrow> Raise ErrNoSuchKey
          | Some i \<Rightarrow>
              let out = cloneForUpdate L s update; ks = els (s_Keys out)
              in Ret (out\<lparr>s_Keys := Some (take i ks @ drop (i + 1) ks)\<rparr>))
      else Ret (cloneForUpdate L s update))"

subsection \<open>Validation\<close>

definition maxDisablementSecrets :: nat where [simp]: "maxDisablementSecrets = 32"
definition maxKeys :: nat where [simp]: "maxKeys = 512"

fun ds_loop :: "bytes list \<Rightarrow> nat \<Rightarrow> bytes list \<Rightarrow> unit outcome" where
  "ds_loop all i [] = Ret ()"
| "ds_loop all i (ds # rest) =
     (if length ds \<noteq> disablementLength then Raise (Err ''disablement: invalid length'')
      else if list_ex (\<lambda>j. i \<noteq> j \<and> ds = all ! j) [0..<length all] then Raise (Err ''disablement: duplicates'')
      else ds_loop all (Suc i) rest)"

fun keys_validate_loop :: "Key list \<Rightarrow> unit outcome" where
  "keys_validate_loop [] = Ret ()"
| "keys_validate_loop (k # ks) =
     andThen (wrap ''key'' (Key_StaticValidate k)) (\<lambda>_. keys_validate_loop ks)"

fun keys_dup_inner :: "Key \<Rightarrow> nat \<Rightarrow> nat \<Rightarrow> Key list \<Rightarrow> unit outcome" where
  "keys_dup_inner k i j [] = Ret ()"
| "keys_dup_inner k i j (k2 # ks) =
     (if i = j then keys_dup_inner k i (Suc j) ks
      else andThen (wrap ''key'' (Key_ID k)) (\<lambda>id1.
        andThen (wrap ''key'' (Key_ID k2)) (\<lambda>id2.
          if els id1 = els id2 then Raise (Err ''key: duplicates'') else keys_dup_inner k i (Suc j) ks)))"

fun keys_dup_outer :: "Key list \<Rightarrow> nat \<Rightarrow> Key list \<Rightarrow> unit outcome" where
  "keys_dup_outer all i [] = Ret ()"
| "keys_dup_outer all i (k # ks) =
     andThen (keys_dup_inner k i 0 all) (\<lambda>_. keys_dup_outer all (Suc i) ks)"

definition staticValidateCheckpoint :: "State \<Rightarrow> unit outcome" where
  "staticValidateCheckpoint s =
     (if s_LastAUMHash s \<noteq> None then Raise (Err ''cannot specify a parent AUM'')
      else let dss = els (s_DisablementSecrets s); ks = els (s_Keys s) in
        if length dss = 0 then Raise (Err ''at least one disablement secret required'')
        else if length dss > maxDisablementSecrets then Raise (Err ''too many disablement secrets'')
        else andThen (ds_loop dss 0 dss) (\<lambda>_.
          if length ks = 0 then Raise (Err ''at least one key is required'')
          else if length ks > maxKeys then Raise (Err ''too many keys'')
          else andThen (keys_validate_loop ks) (\<lambda>_. keys_dup_outer ks 0 ks)))"

definition AUM_StaticValidate :: "AUM \<Rightarrow> unit outcome" where
  "AUM_StaticValidate a =
     andThen (case a_Key a of None \<Rightarrow> Ret () | Some k \<Rightarrow> Key_StaticValidate k) (\<lambda>_.
       if a_PrevAUMHash a = Some [] then Raise (Err ''absent parent must be represented by a nil slice'')
       else if list_ex (\<lambda>sig. length (els (sig_KeyID sig)) \<noteq> 32 \<or> length (els (sig_Signature sig)) \<noteq> 64)
                 (els (a_Signatures a))
       then Raise (Err ''signature has missing keyID or malformed signature'')
       else andThen (case a_State a of None \<Rightarrow> Ret ()
                     | Some st \<Rightarrow> wrap ''checkpoint state'' (staticValidateCheckpoint st)) (\<lambda>_.
         if a_MessageKind a = AUMAddKey then
           if a_Key a = None then Raise (Err ''AddKey AUMs must contain a key'')
           else if a_KeyID a \<noteq> None \<or> a_State a \<noteq> None \<or> a_Votes a \<noteq> None \<or> a_Meta a \<noteq> None
           then Raise (Err ''AddKey AUMs may only specify a Key'') else Ret ()
         else if a_MessageKind a = AUMRemoveKey then
           if length (els (a_KeyID a)) = 0 then Raise (Err ''RemoveKey AUMs must specify a key ID'')
           else if a_Key a \<noteq> None \<or> a_State a \<noteq> None \<or> a_Votes a \<noteq> None \<or> a_Meta a \<noteq> None
           then Raise (Err ''RemoveKey AUMs may only specify a KeyID'') else Ret ()
         else if a_MessageKind a = AUMUpdateKey then
           if length (els (a_KeyID a)) = 0 then Raise (Err ''UpdateKey AUMs must specify a key ID'')
           else if a_Meta a = None \<and> a_Votes a = None
           then Raise (Err ''UpdateKey AUMs must contain an update to votes or key metadata'')
           else if a_Key a \<noteq> None \<or> a_State a \<noteq> None
           then Raise (Err ''UpdateKey AUMs may only specify KeyID, Votes, and Meta'') else Ret ()
         else if a_MessageKind a = AUMCheckpoint then
           if a_State a = None then Raise (Err ''Checkpoint AUMs must specify the state'')
           else if a_KeyID a \<noteq> None \<or> a_Key a \<noteq> None \<or> a_Votes a \<noteq> None \<or> a_Meta a \<noteq> None
           then Raise (Err ''Checkpoint AUMs may only specify State'') else Ret ()
         else Ret ()))"

subsection \<open>Signature weight\<close>

fun weight_loop :: "State \<Rightarrow> Signature list \<Rightarrow> bytes list \<Rightarrow> u64 \<Rightarrow> u64 outcome" where
  "weight_loop st [] seenKeys weight = Ret weight"
| "weight_loop st (sig # sigs) seenKeys weight =
     (if length (els (sig_KeyID sig)) \<noteq> 32 then Panic
      else case GetKey st (sig_KeyID sig) of
          Ret key \<Rightarrow>
            if els (sig_KeyID sig) \<in> set seenKeys then weight_loop st sigs seenKeys weight
            else weight_loop st sigs (els (sig_KeyID sig) # seenKeys) (weight + k_Votes key)
        | Raise e \<Rightarrow> if e = ErrNoSuchKey then weight_loop st sigs seenKeys weight else Panic
        | Panic \<Rightarrow> Panic)"

definition AUM_Weight :: "AUM \<Rightarrow> State \<Rightarrow> u64 outcome" where
  "AUM_Weight a st = weight_loop st (els (a_Signatures a)) [] 0"

subsection \<open>Copies\<close>

lemma copy_at_all [simp]: "length b = length src \<Longrightarrow> copy_at b 0 src = src"
  by (simp add: copy_at_def)

text \<open>A clone has the value of the original, nil slices and maps included.\<close>

lemma Key_Clone_id [simp]: "Key_Clone k = k"
  by (cases k) (auto simp: Key_Clone_def split: option.splits)

lemma State_Clone_id [simp]: "State_Clone s = s"
proof -
  have "map Key_Clone ks = ks" for ks by (induction ks) auto
  moreover have "map (\<lambda>d. copy_at (replicate (length d) (0::byte)) 0 d) ds = ds" for ds
    by (induction ds) auto
  ultimately show ?thesis by (cases s) (auto simp: State_Clone_def split: option.splits)
qed

lemma cloneForUpdate_simps [simp]:
  "s_LastAUMHash (cloneForUpdate L s u) = Some (AUM_Hash L u)"
  "s_DisablementSecrets (cloneForUpdate L s u) = s_DisablementSecrets s"
  "s_Keys (cloneForUpdate L s u) = s_Keys s"
  "s_StateID1 (cloneForUpdate L s u) = s_StateID1 s"
  "s_StateID2 (cloneForUpdate L s u) = s_StateID2 s"
  by (simp_all add: cloneForUpdate_def)

subsection \<open>What a state trusts\<close>

text \<open>
  The abstract view of a state: the trusted keys by their key ID. \<open>keys_ok\<close> is the invariant of the
  key list: every key passes its own validation and no two have the same ID.
\<close>

definition kid :: "Key \<Rightarrow> bytes" where
  "kid k = els (k_Public k)"

definition key_valid :: "Key \<Rightarrow> bool" where
  "key_valid k \<longleftrightarrow> k_Kind k = Key25519 \<and> 0 < k_Votes k \<and> k_Votes k \<le> 4096 \<and> metaBytes (k_Meta k) \<le> 512"

definition keys_ok :: "Key list \<Rightarrow> bool" where
  "keys_ok ks \<longleftrightarrow> (\<forall>k\<in>set ks. key_valid k) \<and> distinct (map kid ks)"

definition state_ok :: "State \<Rightarrow> bool" where
  "state_ok s \<longleftrightarrow> keys_ok (els (s_Keys s))"

definition kmap :: "Key list \<Rightarrow> bytes \<Rightarrow> Key option" where
  "kmap ks = map_of (map (\<lambda>k. (kid k, k)) ks)"

definition trusted :: "State \<Rightarrow> bytes \<Rightarrow> Key option" where
  "trusted s = kmap (els (s_Keys s))"

lemma Key_StaticValidate_iff: "Key_StaticValidate k = Ret () \<longleftrightarrow> key_valid k"
  by (auto simp: Key_StaticValidate_def key_valid_def word_neq_0_conv)

lemma Key_StaticValidate_no_panic: "Key_StaticValidate k \<noteq> Panic"
  by (simp add: Key_StaticValidate_def)

lemma Key_ID_valid: "key_valid k \<Longrightarrow> Key_ID k = Ret (k_Public k)"
  by (simp add: Key_ID_def key_valid_def)

lemma keys_ok_Nil [simp]: "keys_ok []"
  by (simp add: keys_ok_def)

lemma keys_ok_Cons: "keys_ok (k # ks) \<longleftrightarrow> key_valid k \<and> keys_ok ks \<and> kid k \<notin> kid ` set ks"
  by (auto simp: keys_ok_def)

lemma kmap_Nil [simp]: "kmap [] = Map.empty"
  by (simp add: kmap_def)

lemma kmap_Cons: "kmap (k # ks) = (kmap ks)(kid k \<mapsto> k)"
  by (simp add: kmap_def)

lemma kmap_None_iff: "kmap ks i = None \<longleftrightarrow> i \<notin> kid ` set ks"
  by (induction ks) (auto simp: kmap_Cons)

lemma kmap_SomeD: "kmap ks i = Some k \<Longrightarrow> k \<in> set ks \<and> kid k = i"
  by (induction ks) (auto simp: kmap_Cons split: if_splits)

lemma kmap_Some_iff: "distinct (map kid ks) \<Longrightarrow> kmap ks i = Some k \<longleftrightarrow> k \<in> set ks \<and> kid k = i"
  by (induction ks) (auto simp: kmap_Cons image_iff split: if_splits)

lemma kmap_append: "kid k \<notin> kid ` set ks \<Longrightarrow> kmap (ks @ [k]) = (kmap ks)(kid k \<mapsto> k)"
  by (induction ks) (auto simp: kmap_Cons fun_upd_twist)

lemma getKey_loop_eq:
  assumes "\<forall>k\<in>set ks. key_valid k"
  shows "getKey_loop ks key = (case kmap ks (els key) of None \<Rightarrow> Raise ErrNoSuchKey | Some k \<Rightarrow> Ret k)"
  using assms by (induction ks) (auto simp: kmap_Cons Key_ID_valid kid_def)

lemma GetKey_eq:
  "state_ok s \<Longrightarrow> GetKey s key = (case trusted s (els key) of None \<Rightarrow> Raise ErrNoSuchKey | Some k \<Rightarrow> Ret k)"
  by (simp add: GetKey_def trusted_def state_ok_def keys_ok_def getKey_loop_eq)

text \<open>Without the invariant: a key that is found is in the list and has the ID.\<close>

lemma getKey_loop_RetD: "getKey_loop ks key = Ret k \<Longrightarrow> k \<in> set ks \<and> kid k = els key"
  by (induction ks) (auto simp: outcome_simps Key_ID_def kid_def split: if_splits)

lemma GetKey_RetD: "GetKey s key = Ret k \<Longrightarrow> k \<in> set (els (s_Keys s)) \<and> kid k = els key"
  by (simp add: GetKey_def getKey_loop_RetD)

lemma getKey_loop_no_panic: "getKey_loop ks key \<noteq> Panic"
  by (induction ks) (auto simp: Key_ID_def)

lemma update_loop_eq:
  "\<forall>k\<in>set ks. key_valid k \<Longrightarrow>
   update_loop key k' ks = Ret (map (\<lambda>k. if kid k = els key then k' else k) ks)"
  by (induction ks) (auto simp: Key_ID_valid kid_def)

text \<open>Replacing a key by one with its ID, and removing a key, keep the invariant.\<close>

lemma kmap_update:
  assumes "kid k' = i" "kmap ks i \<noteq> None"
  shows "kmap (map (\<lambda>k. if kid k = i then k' else k) ks) = (kmap ks)(i \<mapsto> k')"
proof -
  have "kmap (map (\<lambda>k. if kid k = i then k' else k) ks) j = (if j = i then Some k' else kmap ks j)"
    if "j = i \<longrightarrow> i \<in> kid ` set ks" for j
    using that assms(1) by (induction ks) (auto simp: kmap_Cons split: if_splits)
  then show ?thesis using assms(2) by (auto simp: kmap_None_iff fun_eq_iff)
qed

lemma keys_ok_update:
  assumes "keys_ok ks" "key_valid k'" "kid k' = i"
  shows "keys_ok (map (\<lambda>k. if kid k = i then k' else k) ks)"
proof -
  have "map kid (map (\<lambda>k. if kid k = i then k' else k) ks) = map kid ks"
    using assms(3) by (induction ks) auto
  then show ?thesis using assms by (auto simp: keys_ok_def simp del: map_map)
qed

lemma find_loop_eq:
  assumes "\<forall>k\<in>set ks. key_valid k"
  shows "find_loop key n ks =
    Ret (if kmap ks (els key) = None then None else Some (n + length (takeWhile (\<lambda>k. kid k \<noteq> els key) ks)))"
  using assms by (induction ks arbitrary: n) (auto simp: kmap_Cons Key_ID_valid kid_def split: if_splits)

lemma kmap_remove:
  fixes ks :: "Key list" and i :: bytes
  defines "n \<equiv> length (takeWhile (\<lambda>k. kid k \<noteq> i) ks)"
  assumes "keys_ok ks" "kmap ks i \<noteq> None"
  shows "kmap (take n ks @ drop (n + 1) ks) = (kmap ks)(i := None)" and "keys_ok (take n ks @ drop (n + 1) ks)"
proof -
  obtain pre k post where ks: "ks = pre @ k # post" "kid k = i" "\<forall>k\<in>set pre. kid k \<noteq> i"
  proof -
    have "\<exists>x\<in>set ks. kid x = i" using assms(3) by (auto simp: kmap_None_iff)
    then show ?thesis using that split_list_first_prop [of ks "\<lambda>k. kid k = i"] by auto
  qed
  then have n: "n = length pre" by (simp add: n_def takeWhile_append2 takeWhile_append)
  have eq: "take n ks @ drop (n + 1) ks = pre @ post" using n ks by simp
  have d: "i \<notin> kid ` set post" "i \<notin> kid ` set pre" using assms(2) ks by (auto simp: keys_ok_def)
  show "keys_ok (take n ks @ drop (n + 1) ks)" using assms(2) eq ks by (auto simp: keys_ok_def)
  have "kmap (pre @ post) j = (if j = i then None else kmap (pre @ k # post) j)" for j
    using d ks(2) by (induction pre) (auto simp: kmap_Cons kmap_None_iff)
  then show "kmap (take n ks @ drop (n + 1) ks) = (kmap ks)(i := None)"
    using eq ks(1) by (auto simp: fun_eq_iff)
qed

subsection \<open>The checkpoint validation\<close>

lemma ds_loop_iff:
  "ds_loop all n ds = Ret () \<longleftrightarrow>
     (\<forall>i<length ds. length (ds ! i) = 32 \<and> (\<forall>j<length all. n + i \<noteq> j \<longrightarrow> ds ! i \<noteq> all ! j))"
proof (induction ds arbitrary: n)
  case (Cons d ds)
  have "(\<forall>i<length (d # ds). P i) \<longleftrightarrow> P 0 \<and> (\<forall>i<length ds. P (Suc i))" for P
    by (simp add: All_less_Suc2)
  then show ?case using Cons.IH [of "Suc n"] by (auto simp: list_ex_iff)
qed simp

lemma distinct_by_index: "distinct xs \<longleftrightarrow> (\<forall>i<length xs. \<forall>j<length xs. i \<noteq> j \<longrightarrow> xs ! i \<noteq> xs ! j)"
  by (simp add: distinct_conv_nth)

lemma keys_validate_loop_iff: "keys_validate_loop ks = Ret () \<longleftrightarrow> (\<forall>k\<in>set ks. key_valid k)"
  by (induction ks) (auto simp: outcome_simps Key_StaticValidate_iff)

lemma keys_dup_inner_iff:
  assumes "key_valid k" "\<forall>k\<in>set ks. key_valid k"
  shows "keys_dup_inner k i n ks = Ret () \<longleftrightarrow> (\<forall>j<length ks. i \<noteq> n + j \<longrightarrow> kid k \<noteq> kid (ks ! j))"
  using assms(2)
proof (induction ks arbitrary: n)
  case (Cons k2 ks)
  have "(\<forall>j<length (k2 # ks). P j) \<longleftrightarrow> P 0 \<and> (\<forall>j<length ks. P (Suc j))" for P
    by (simp add: All_less_Suc2)
  then show ?case using Cons.IH [of "Suc n"] Cons.prems assms(1) by (auto simp: Key_ID_valid kid_def)
qed simp

lemma keys_dup_outer_iff:
  assumes "\<forall>k\<in>set all. key_valid k" "\<forall>k\<in>set ks. key_valid k"
  shows "keys_dup_outer all n ks = Ret () \<longleftrightarrow>
    (\<forall>i<length ks. \<forall>j<length all. n + i \<noteq> j \<longrightarrow> kid (ks ! i) \<noteq> kid (all ! j))"
  using assms(2)
proof (induction ks arbitrary: n)
  case (Cons k ks)
  have "(\<forall>i<length (k # ks). P i) \<longleftrightarrow> P 0 \<and> (\<forall>i<length ks. P (Suc i))" for P
    by (simp add: All_less_Suc2)
  then show ?case
    using Cons.IH [of "Suc n"] Cons.prems assms(1) by (auto simp: outcome_simps keys_dup_inner_iff)
qed simp

definition checkpoint_ok :: "State \<Rightarrow> bool" where
  "checkpoint_ok s \<longleftrightarrow> s_LastAUMHash s = None
     \<and> (let ds = els (s_DisablementSecrets s) in ds \<noteq> [] \<and> length ds \<le> 32 \<and> distinct ds \<and> (\<forall>d\<in>set ds. length d = 32))
     \<and> (let ks = els (s_Keys s) in ks \<noteq> [] \<and> length ks \<le> 512 \<and> keys_ok ks)"

lemma staticValidateCheckpoint_iff: "staticValidateCheckpoint s = Ret () \<longleftrightarrow> checkpoint_ok s"
proof -
  let ?ds = "els (s_DisablementSecrets s)" and ?ks = "els (s_Keys s)"
  have ds: "ds_loop ?ds 0 ?ds = Ret () \<longleftrightarrow> distinct ?ds \<and> (\<forall>d\<in>set ?ds. length d = 32)"
    by (auto simp: ds_loop_iff distinct_by_index all_set_conv_all_nth)
  have ks: "keys_validate_loop ?ks = Ret () \<and> keys_dup_outer ?ks 0 ?ks = Ret () \<longleftrightarrow> keys_ok ?ks"
    by (auto simp: keys_validate_loop_iff keys_dup_outer_iff keys_ok_def distinct_by_index)
  show ?thesis
    using ds ks by (auto simp: staticValidateCheckpoint_def checkpoint_ok_def outcome_simps Let_def split: if_splits)
qed

subsection \<open>The effect of an update\<close>

text \<open>
  The specification of an update: what it makes of the trusted keys, and when it applies.
\<close>

definition revised :: "AUM \<Rightarrow> Key \<Rightarrow> Key" where
  "revised u k =
     (let k1 = (case a_Votes u of None \<Rightarrow> k | Some v \<Rightarrow> k\<lparr>k_Votes := v\<rparr>)
      in case a_Meta u of None \<Rightarrow> k1 | Some m \<Rightarrow> k1\<lparr>k_Meta := Some m\<rparr>)"

definition trust_step :: "AUM \<Rightarrow> (bytes \<Rightarrow> Key option) \<Rightarrow> bytes \<Rightarrow> Key option" where
  "trust_step u t =
     (if a_MessageKind u = AUMCheckpoint then trusted (the (a_State u))
      else if a_MessageKind u = AUMAddKey then t(kid (the (a_Key u)) \<mapsto> the (a_Key u))
      else if a_MessageKind u = AUMUpdateKey then t(els (a_KeyID u) := map_option (revised u) (t (els (a_KeyID u))))
      else if a_MessageKind u = AUMRemoveKey then t(els (a_KeyID u) := None)
      else t)"

definition may_apply :: "State \<Rightarrow> AUM \<Rightarrow> bool" where
  "may_apply s u \<longleftrightarrow> parentMatches s u
     \<and> (a_MessageKind u = AUMCheckpoint \<longrightarrow>
          s_StateID1 (the (a_State u)) = s_StateID1 s \<and> s_StateID2 (the (a_State u)) = s_StateID2 s)
     \<and> (a_MessageKind u = AUMAddKey \<longrightarrow> trusted s (kid (the (a_Key u))) = None)
     \<and> (a_MessageKind u = AUMUpdateKey \<longrightarrow>
          (\<exists>k. trusted s (els (a_KeyID u)) = Some k \<and> key_valid (revised u k)))
     \<and> (a_MessageKind u = AUMRemoveKey \<longrightarrow> trusted s (els (a_KeyID u)) \<noteq> None)"

lemma revised_kid [simp]: "kid (revised u k) = kid k"
  by (simp add: revised_def kid_def Let_def split: option.splits)

lemma AUM_StaticValidate_facts:
  assumes "AUM_StaticValidate u = Ret ()"
  shows "\<And>k. a_Key u = Some k \<Longrightarrow> key_valid k"
    and "\<And>st. a_State u = Some st \<Longrightarrow> checkpoint_ok st"
    and "\<And>sig. sig \<in> set (els (a_Signatures u)) \<Longrightarrow> length (els (sig_KeyID sig)) = 32 \<and> length (els (sig_Signature sig)) = 64"
    and "a_MessageKind u = AUMAddKey \<Longrightarrow> a_Key u \<noteq> None"
    and "a_MessageKind u = AUMCheckpoint \<Longrightarrow> a_State u \<noteq> None"
proof -
  have v: "(case a_Key u of None \<Rightarrow> Ret () | Some k \<Rightarrow> Key_StaticValidate k) = Ret ()"
    "\<not> list_ex (\<lambda>sig. length (els (sig_KeyID sig)) \<noteq> 32 \<or> length (els (sig_Signature sig)) \<noteq> 64) (els (a_Signatures u))"
    "(case a_State u of None \<Rightarrow> Ret () | Some st \<Rightarrow> wrap ''checkpoint state'' (staticValidateCheckpoint st)) = Ret ()"
    using assms by (auto simp: AUM_StaticValidate_def outcome_simps split: if_splits)
  show "\<And>k. a_Key u = Some k \<Longrightarrow> key_valid k" using v(1) by (simp add: Key_StaticValidate_iff)
  show "\<And>st. a_State u = Some st \<Longrightarrow> checkpoint_ok st"
    using v(3) by (simp add: wrap_eq_Ret staticValidateCheckpoint_iff)
  show "\<And>sig. sig \<in> set (els (a_Signatures u)) \<Longrightarrow> length (els (sig_KeyID sig)) = 32 \<and> length (els (sig_Signature sig)) = 64"
    using v(2) by (auto simp: list_ex_iff)
  show "a_MessageKind u = AUMAddKey \<Longrightarrow> a_Key u \<noteq> None" "a_MessageKind u = AUMCheckpoint \<Longrightarrow> a_State u \<noteq> None"
    using assms by (auto simp: AUM_StaticValidate_def outcome_simps split: if_splits)
qed

lemma checkpoint_ok_state_ok: "checkpoint_ok s \<Longrightarrow> state_ok s"
  by (simp add: checkpoint_ok_def state_ok_def Let_def)

lemma state_ok_clone [simp]: "state_ok (cloneForUpdate L s u) = state_ok s"
  by (simp add: state_ok_def)

lemma trusted_clone [simp]: "trusted (cloneForUpdate L s u) = trusted s"
  by (simp add: trusted_def)

definition applied :: "'z tka_lib_scheme \<Rightarrow> State \<Rightarrow> AUM \<Rightarrow> State \<Rightarrow> bool" where
  "applied L s u s' \<longleftrightarrow> state_ok s' \<and> trusted s' = trust_step u (trusted s) \<and> s_LastAUMHash s' = Some (AUM_Hash L u)
     \<and> s_StateID1 s' = s_StateID1 s \<and> s_StateID2 s' = s_StateID2 s"

text \<open>The five cases of \<open>applyVerifiedAUM\<close>, one lemma each.\<close>

lemma apply_checkpoint:
  assumes "AUM_StaticValidate u = Ret ()" "a_MessageKind u = AUMCheckpoint" "parentMatches s u"
  shows "if may_apply s u then \<exists>s'. applyVerifiedAUM L s u = Ret s' \<and> applied L s u s'
         else \<exists>e. applyVerifiedAUM L s u = Raise e"
proof -
  obtain st where st: "a_State u = Some st" using AUM_StaticValidate_facts(5) assms(1,2) by blast
  then have "state_ok st" using AUM_StaticValidate_facts(2) assms(1) checkpoint_ok_state_ok by blast
  then show ?thesis
    using assms st by (auto simp: may_apply_def applyVerifiedAUM_def applied_def trust_step_def)
qed

lemma apply_add:
  assumes "state_ok s" "AUM_StaticValidate u = Ret ()" "a_MessageKind u = AUMAddKey" "parentMatches s u"
  shows "if may_apply s u then \<exists>s'. applyVerifiedAUM L s u = Ret s' \<and> applied L s u s'
         else \<exists>e. applyVerifiedAUM L s u = Raise e"
proof -
  obtain k where k: "a_Key u = Some k" "key_valid k" using AUM_StaticValidate_facts(1,4) assms(2,3) by blast
  have get: "GetKey s (k_Public k) = (case trusted s (kid k) of None \<Rightarrow> Raise ErrNoSuchKey | Some k \<Rightarrow> Ret k)"
    using GetKey_eq assms(1) by (simp add: kid_def)
  show ?thesis
  proof (cases "trusted s (kid k)")
    case None
    then have "kid k \<notin> kid ` set (els (s_Keys s))" by (simp add: trusted_def kmap_None_iff)
    then have "keys_ok (els (s_Keys s) @ [k])" "kmap (els (s_Keys s) @ [k]) = (trusted s)(kid k \<mapsto> k)"
      using assms(1) k(2) by (auto simp: keys_ok_def state_ok_def trusted_def kmap_append)
    then show ?thesis using None get assms k
      by (auto simp: may_apply_def applyVerifiedAUM_def applied_def trust_step_def Key_ID_valid state_ok_def trusted_def)
  next
    case (Some k')
    then show ?thesis using get assms k by (auto simp: may_apply_def applyVerifiedAUM_def Key_ID_valid)
  qed
qed

lemma apply_update:
  assumes "state_ok s" "AUM_StaticValidate u = Ret ()" "a_MessageKind u = AUMUpdateKey" "parentMatches s u"
  shows "if may_apply s u then \<exists>s'. applyVerifiedAUM L s u = Ret s' \<and> applied L s u s'
         else \<exists>e. applyVerifiedAUM L s u = Raise e"
proof (cases "trusted s (els (a_KeyID u))")
  case None
  then show ?thesis using assms by (auto simp: may_apply_def applyVerifiedAUM_def GetKey_eq)
next
  case (Some k)
  let ?k = "revised u k"
  have kk: "kid k = els (a_KeyID u)" using Some kmap_SomeD by (auto simp: trusted_def)
  have upd: "(let k1 = (case a_Votes u of None \<Rightarrow> k | Some v \<Rightarrow> k\<lparr>k_Votes := v\<rparr>)
              in (case a_Meta u of None \<Rightarrow> k1 | Some m \<Rightarrow> k1\<lparr>k_Meta := Some m\<rparr>)) = ?k"
    by (simp add: revised_def)
  have step: "applyVerifiedAUM L s u =
      andThen (wrap ''updated key fails validation'' (Key_StaticValidate ?k)) (\<lambda>_.
        let out = cloneForUpdate L s u in
        andThen (update_loop (a_KeyID u) ?k (els (s_Keys out))) (\<lambda>ks.
          Ret (out\<lparr>s_Keys := (case s_Keys out of None \<Rightarrow> None | Some _ \<Rightarrow> Some ks)\<rparr>)))"
    using assms Some by (simp add: applyVerifiedAUM_def GetKey_eq upd [symmetric] Let_def)
  show ?thesis
  proof (cases "key_valid ?k")
    case False
    then obtain e where "Key_StaticValidate ?k = Raise e"
      using Key_StaticValidate_iff [of ?k] Key_StaticValidate_no_panic [of ?k] by (cases "Key_StaticValidate ?k") auto
    then show ?thesis using step False Some by (simp add: may_apply_def assms)
  next
    case True
    let ?ks = "map (\<lambda>k'. if kid k' = els (a_KeyID u) then ?k else k') (els (s_Keys s))"
    obtain l where l: "s_Keys s = Some l" using Some by (cases "s_Keys s") (auto simp: trusted_def)
    have "applyVerifiedAUM L s u = Ret ((cloneForUpdate L s u)\<lparr>s_Keys := Some ?ks\<rparr>)"
      using step True assms(1) l by (simp add: Key_StaticValidate_iff [symmetric] update_loop_eq state_ok_def keys_ok_def)
    moreover have "keys_ok ?ks" using keys_ok_update assms(1) True kk by (simp add: state_ok_def)
    moreover have "kmap ?ks = (trusted s)(els (a_KeyID u) \<mapsto> ?k)"
      using kmap_update [of ?k "els (a_KeyID u)" "els (s_Keys s)"] Some kk by (simp add: trusted_def)
    moreover have "may_apply s u" using assms Some True by (simp add: may_apply_def)
    ultimately show ?thesis using Some assms(3) by (simp add: applied_def state_ok_def trusted_def trust_step_def)
  qed
qed

lemma apply_remove:
  assumes "state_ok s" "a_MessageKind u = AUMRemoveKey" "parentMatches s u"
  shows "if may_apply s u then \<exists>s'. applyVerifiedAUM L s u = Ret s' \<and> applied L s u s'
         else \<exists>e. applyVerifiedAUM L s u = Raise e"
proof (cases "trusted s (els (a_KeyID u)) = None")
  case True
  then show ?thesis using assms
    by (auto simp: may_apply_def applyVerifiedAUM_def find_loop_eq state_ok_def keys_ok_def trusted_def)
next
  case False
  then show ?thesis using assms kmap_remove [of "els (s_Keys s)" "els (a_KeyID u)"]
    by (auto simp: may_apply_def applyVerifiedAUM_def applied_def trust_step_def find_loop_eq state_ok_def keys_ok_def
        trusted_def Let_def)
qed

lemma apply_total:
  assumes "state_ok s" "AUM_StaticValidate u = Ret ()"
  shows "if may_apply s u then \<exists>s'. applyVerifiedAUM L s u = Ret s' \<and> applied L s u s'
         else \<exists>e. applyVerifiedAUM L s u = Raise e"
proof (cases "parentMatches s u")
  case False
  then show ?thesis by (simp add: may_apply_def applyVerifiedAUM_def)
next
  case True
  consider "a_MessageKind u = AUMCheckpoint" | "a_MessageKind u = AUMAddKey" | "a_MessageKind u = AUMUpdateKey"
    | "a_MessageKind u = AUMRemoveKey"
    | "a_MessageKind u \<notin> {AUMCheckpoint, AUMAddKey, AUMUpdateKey, AUMRemoveKey}" by blast
  then show ?thesis
  proof cases
    case 5
    then show ?thesis using True assms by (auto simp: may_apply_def applyVerifiedAUM_def applied_def trust_step_def)
  qed (use True assms apply_checkpoint apply_add apply_update apply_remove in blast)+
qed

lemma apply_RetD:
  "state_ok s \<Longrightarrow> AUM_StaticValidate u = Ret () \<Longrightarrow> applyVerifiedAUM L s u = Ret s' \<Longrightarrow> applied L s u s'"
  using apply_total [of s u L] by (auto split: if_splits)

lemma apply_sets_last: "applyVerifiedAUM L s u = Ret s' \<Longrightarrow> s_LastAUMHash s' = Some (AUM_Hash L u)"
  by (auto simp: applyVerifiedAUM_def outcome_simps Let_def split: if_splits option.splits)

lemma apply_parent: "applyVerifiedAUM L s u = Ret s' \<Longrightarrow> parentMatches s u"
  by (auto simp: applyVerifiedAUM_def split: if_splits)

text \<open>
  C24. Applying an update. On a state whose key list satisfies the invariant, a statically valid AUM
  is applied exactly when it may be (its parent is the last AUM; a checkpoint keeps the state IDs; a
  key to add is new; a key to change or remove is trusted, and the changed key is valid). Otherwise
  the result is an error, never a panic. The new state satisfies the invariant again, trusts exactly
  the keys the specification of the message gives, names the AUM as the last one, and has the same
  state IDs.
\<close>

theorem applyVerifiedAUM_spec:
  assumes "state_ok s" "AUM_StaticValidate u = Ret ()"
  shows "if may_apply s u then \<exists>s'. applyVerifiedAUM L s u = Ret s' \<and> applied L s u s'
         else \<exists>e. applyVerifiedAUM L s u = Raise e"
  using assms by (rule apply_total)

subsection \<open>A concrete library\<close>

text \<open>
  An instance of the library for concrete runs: a message is encoded by its distance from the first
  message, its kind and its key, the hash pads to 32 bytes, a signature is the public key followed by
  the digest, and the key derivation keeps the first 32 bytes.
\<close>

definition demo_lib :: tka_lib where
  "demo_lib = \<lparr>
     cbor_AUM = (\<lambda>a. (case els (a_PrevAUMHash a) of [] \<Rightarrow> 0 | b # _ \<Rightarrow> b + 1) # a_MessageKind a
       # (case a_Key a of None \<Rightarrow> [] | Some k \<Rightarrow> take 1 (kid k)) @ take 1 (els (a_KeyID a))),
     blake2s_Sum256 = (\<lambda>b. take 32 (b @ replicate 32 0)),
     ed25519consensus_Verify = (\<lambda>p d s. s = p @ d),
     argon2_Key = (\<lambda>s salt t m th n. take n (s @ replicate n 0))\<rparr>"

definition demo_key :: "byte \<Rightarrow> Key" where
  "demo_key n = \<lparr>k_Kind = Key25519, k_Votes = 2, k_Public = Some (replicate 32 n), k_Meta = None\<rparr>"

definition demo_state :: State where
  "demo_state = \<lparr>s_LastAUMHash = None, s_DisablementSecrets = Some [replicate 32 7], s_Keys = Some [demo_key 1],
     s_StateID1 = 3, s_StateID2 = 4\<rparr>"

definition demo_add :: AUM where
  "demo_add = zeroAUM\<lparr>a_MessageKind := AUMAddKey, a_Key := Some (demo_key 2)\<rparr>"

lemma demo_key_valid: "key_valid (demo_key n)"
  by (simp add: key_valid_def demo_key_def metaBytes_def word_less_nat_alt word_le_nat_alt)

lemma demo_key_validate [simp]: "Key_StaticValidate (demo_key n) = Ret ()"
  by (simp add: Key_StaticValidate_iff demo_key_valid)

lemma demo_state_ok: "state_ok demo_state"
  by (simp add: state_ok_def keys_ok_def demo_state_def demo_key_valid)

lemma demo_add_valid: "AUM_StaticValidate demo_add = Ret ()"
  by (simp add: AUM_StaticValidate_def demo_add_def zeroAUM_def)

lemma demo_add_may_apply: "may_apply demo_state demo_add"
  by (simp add: may_apply_def parentMatches_def demo_state_def demo_add_def zeroAUM_def trusted_def kmap_def kid_def
      demo_key_def)

theorem applyVerifiedAUM_spec_witness:
  "state_ok demo_state \<and> AUM_StaticValidate demo_add = Ret () \<and>
   (\<exists>s'. applyVerifiedAUM demo_lib demo_state demo_add = Ret s' \<and> applied demo_lib demo_state demo_add s')"
  using applyVerifiedAUM_spec [OF demo_state_ok demo_add_valid, of demo_lib] demo_state_ok demo_add_valid
    demo_add_may_apply by simp

subsection \<open>The weight of an update\<close>

definition signers :: "AUM \<Rightarrow> bytes set" where
  "signers a = (\<lambda>sig. els (sig_KeyID sig)) ` set (els (a_Signatures a))"

definition votes_of :: "State \<Rightarrow> bytes \<Rightarrow> nat" where
  "votes_of s i = (case trusted s i of None \<Rightarrow> 0 | Some k \<Rightarrow> unat (k_Votes k))"

lemma votes_of_le: "state_ok s \<Longrightarrow> votes_of s i \<le> 4096"
  using kmap_SomeD [of "els (s_Keys s)" i]
  by (auto simp: votes_of_def trusted_def state_ok_def keys_ok_def key_valid_def word_le_nat_alt split: option.splits)

lemma weight_loop_eq:
  assumes "state_ok s" "\<forall>sig\<in>set sigs. length (els (sig_KeyID sig)) = 32"
  shows "\<exists>w'. weight_loop s sigs seen w = Ret w' \<and>
     w' = w + of_nat (\<Sum>i\<in>(\<lambda>sig. els (sig_KeyID sig)) ` set sigs - set seen. votes_of s i)"
  using assms(2)
proof (induction sigs arbitrary: seen w)
  case (Cons sig sigs)
  let ?i = "els (sig_KeyID sig)" and ?I = "(\<lambda>sig. els (sig_KeyID sig)) ` set sigs"
  have len: "length ?i = 32" "\<forall>sig\<in>set sigs. length (els (sig_KeyID sig)) = 32" using Cons.prems by auto
  show ?case
  proof (cases "trusted s ?i")
    case None
    have "(\<Sum>i\<in>insert ?i ?I - set seen. votes_of s i) = (\<Sum>i\<in>?I - set seen. votes_of s i)"
      by (rule sum.mono_neutral_right) (auto simp: votes_of_def None)
    then show ?thesis using Cons.IH [OF len(2), of seen w] None assms(1) len by (simp add: GetKey_eq)
  next
    case (Some k)
    show ?thesis
    proof (cases "?i \<in> set seen")
      case True
      then show ?thesis using Cons.IH [OF len(2), of seen w] Some assms(1) len by (simp add: GetKey_eq insert_Diff_if)
    next
      case False
      have "insert ?i ?I - set seen = insert ?i (?I - set (?i # seen))" using False by auto
      then have "(\<Sum>i\<in>insert ?i ?I - set seen. votes_of s i) = votes_of s ?i + (\<Sum>i\<in>?I - set (?i # seen). votes_of s i)"
        by simp
      moreover have "of_nat (votes_of s ?i) = k_Votes k" by (simp add: votes_of_def Some)
      moreover have "weight_loop s (sig # sigs) seen w = weight_loop s sigs (?i # seen) (w + k_Votes k)"
        using Some False assms(1) len(1) by (simp add: GetKey_eq)
      moreover obtain w' where "weight_loop s sigs (?i # seen) (w + k_Votes k) = Ret w'"
        "w' = w + k_Votes k + of_nat (\<Sum>i\<in>?I - set (?i # seen). votes_of s i)"
        using Cons.IH [OF len(2), of "?i # seen" "w + k_Votes k"] by blast
      ultimately show ?thesis by (simp only: list.set image_insert of_nat_add add.assoc) blast
    qed
  qed
qed simp

lemma AUM_Weight_eq:
  assumes "state_ok s" "AUM_StaticValidate a = Ret ()"
  shows "AUM_Weight a s = Ret (of_nat (\<Sum>i\<in>signers a. votes_of s i))"
  using weight_loop_eq [OF assms(1), of "els (a_Signatures a)" "[]" 0] AUM_StaticValidate_facts(3) [OF assms(2)]
  by (auto simp: AUM_Weight_def signers_def)

text \<open>
  C25. The signature weight. For a statically valid AUM and a state that satisfies the invariant,
  \<open>Weight\<close> does not panic and is the sum of the votes of the distinct trusted keys among the signers:
  a key that signs twice counts once and an unknown key counts nothing. The 64-bit sum does not wrap
  around for fewer than \<open>2 ^ 52\<close> signatures, since a key has at most 4096 votes.
\<close>

theorem AUM_Weight_sum:
  assumes "state_ok s" "AUM_StaticValidate a = Ret ()" "length (els (a_Signatures a)) < 2 ^ 52"
  shows "\<exists>w. AUM_Weight a s = Ret w \<and> unat w = (\<Sum>i\<in>signers a. votes_of s i)"
proof -
  have "card (signers a) \<le> length (els (a_Signatures a))"
    unfolding signers_def by (metis card_image_le card_length finite_set le_trans)
  moreover have "(\<Sum>i\<in>signers a. votes_of s i) \<le> card (signers a) * 4096"
    using sum_bounded_above [of "signers a" "votes_of s" 4096] votes_of_le [OF assms(1)] by simp
  ultimately have "(\<Sum>i\<in>signers a. votes_of s i) < 2 ^ 64" using assms(3) by simp
  then have "unat (of_nat (\<Sum>i\<in>signers a. votes_of s i) :: u64) = (\<Sum>i\<in>signers a. votes_of s i)"
    by (simp add: unsigned_of_nat take_bit_nat_eq_self del: of_nat_sum)
  then show ?thesis using AUM_Weight_eq [OF assms(1,2)] by blast
qed

definition demo_sig :: Signature where
  "demo_sig = \<lparr>sig_KeyID = Some (replicate 32 1), sig_Signature = Some (replicate 64 0)\<rparr>"

definition demo_signed :: AUM where
  "demo_signed = demo_add\<lparr>a_Signatures := Some [demo_sig, demo_sig]\<rparr>"

lemma demo_signed_valid: "AUM_StaticValidate demo_signed = Ret ()"
  by (simp add: AUM_StaticValidate_def demo_signed_def demo_sig_def demo_add_def zeroAUM_def)

theorem AUM_Weight_sum_witness:
  "\<exists>w. AUM_Weight demo_signed demo_state = Ret w \<and> unat w = 2"
proof -
  have "length (els (a_Signatures demo_signed)) < 2 ^ 52" by (simp add: demo_signed_def)
  moreover have "signers demo_signed = {replicate 32 1}" by (simp add: signers_def demo_signed_def demo_sig_def)
  moreover have "votes_of demo_state (replicate 32 1) = 2"
    by (simp add: votes_of_def trusted_def kmap_def demo_state_def demo_key_def kid_def)
  ultimately show ?thesis using AUM_Weight_sum [OF demo_state_ok demo_signed_valid] by simp
qed

end
