(* ===== verification/Tka_Chonk.thy ===== *)
theory Tka_Chonk
  imports Tka_State "HOL-Library.AList"
begin

section \<open>Package \<open>tka\<close>: storage of update messages\<close>

text \<open>
  \<open>src/tka/tailchonk.go\<close>: the interfaces \<open>Chonk\<close> and \<open>CompactableChonk\<close> and their two
  implementations. A value of an interface is a record of its methods over a type of states; a
  method that changes the state returns its result and the new state.

  \<open>Mem\<close> keeps two Go maps, here association lists. Go iterates over a map in an unspecified order;
  the order here is that of the list, and no lemma depends on it. \<open>FS\<close> keeps one file per hash. The
  file system is a list of the decoded files by hash (the file name is the text form of the hash),
  with the time of their last change and the clock; that a file decodes to what was encoded, and that
  the operating system reports no error other than a missing file, is taken for granted.

  The locale \<open>chonk\<close> states what the key authority relies on; both implementations are shown to
  provide it.
\<close>

subsection \<open>The interfaces\<close>

record 's Chonk =
  c_AUM :: "'s \<Rightarrow> AUMHash \<Rightarrow> AUM outcome"
  c_ChildAUMs :: "'s \<Rightarrow> AUMHash \<Rightarrow> AUM list outcome"
  c_CommitVerifiedAUMs :: "'s \<Rightarrow> AUM list \<Rightarrow> unit outcome \<times> 's"
  c_Heads :: "'s \<Rightarrow> AUM list outcome"
  c_SetLastActiveAncestor :: "'s \<Rightarrow> AUMHash \<Rightarrow> unit outcome \<times> 's"
  c_LastActiveAncestor :: "'s \<Rightarrow> AUMHash option outcome"

record 's CompactableChonk = "'s Chonk" +
  c_AllAUMs :: "'s \<Rightarrow> AUMHash list outcome"
  c_CommitTime :: "'s \<Rightarrow> AUMHash \<Rightarrow> int outcome"
  c_PurgeAUMs :: "'s \<Rightarrow> AUMHash list \<Rightarrow> unit outcome \<times> 's"

subsection \<open>Storage in memory\<close>

record Mem =
  m_aums :: "(AUMHash \<times> AUM) list"
  m_parentIndex :: "(AUMHash \<times> AUMHash list) list"
  m_lastActiveAncestor :: "AUMHash option"

definition emptyMem :: Mem where
  "emptyMem = \<lparr>m_aums = [], m_parentIndex = [], m_lastActiveAncestor = None\<rparr>"

definition Mem_SetLastActiveAncestor :: "Mem \<Rightarrow> AUMHash \<Rightarrow> unit outcome \<times> Mem" where
  "Mem_SetLastActiveAncestor c hash = (Ret (), c\<lparr>m_lastActiveAncestor := Some hash\<rparr>)"

definition Mem_LastActiveAncestor :: "Mem \<Rightarrow> AUMHash option outcome" where
  "Mem_LastActiveAncestor c = Ret (m_lastActiveAncestor c)"

text \<open>Reading a missing key of a Go map gives the zero value: no children.\<close>

definition Mem_children :: "Mem \<Rightarrow> AUMHash \<Rightarrow> AUMHash list" where
  "Mem_children c h = (case map_of (m_parentIndex c) h of None \<Rightarrow> [] | Some hs \<Rightarrow> hs)"

definition Mem_Heads :: "'z tka_lib_scheme \<Rightarrow> Mem \<Rightarrow> AUM list outcome" where
  "Mem_Heads L c = Ret (filter (\<lambda>a. length (Mem_children c (AUM_Hash L a)) = 0) (map snd (m_aums c)))"

definition Mem_AUM :: "Mem \<Rightarrow> AUMHash \<Rightarrow> AUM outcome" where
  "Mem_AUM c hash = (case map_of (m_aums c) hash of None \<Rightarrow> Raise ErrNotExist | Some aum \<Rightarrow> Ret aum)"

definition Mem_Orphans :: "Mem \<Rightarrow> AUM list outcome" where
  "Mem_Orphans c = Ret (filter (\<lambda>a. AUM_Parent a = None) (map snd (m_aums c)))"

definition Mem_ChildAUMs :: "Mem \<Rightarrow> AUMHash \<Rightarrow> AUM list outcome" where
  "Mem_ChildAUMs c prev =
     Ret (map (\<lambda>entry. case map_of (m_aums c) entry of None \<Rightarrow> zeroAUM | Some a \<Rightarrow> a) (Mem_children c prev))"

text \<open>One round of the loop of \<open>CommitVerifiedAUMs\<close>.\<close>

definition Mem_commit1 :: "'z tka_lib_scheme \<Rightarrow> Mem \<Rightarrow> AUM \<Rightarrow> Mem" where
  "Mem_commit1 L c aum =
     (let aumHash = AUM_Hash L aum; c1 = c\<lparr>m_aums := AList.update aumHash aum (m_aums c)\<rparr> in
      case AUM_Parent aum of
        None \<Rightarrow> c1
      | Some parent \<Rightarrow>
          if aumHash \<in> set (Mem_children c1 parent) then c1
          else c1\<lparr>m_parentIndex := AList.update parent (Mem_children c1 parent @ [aumHash]) (m_parentIndex c1)\<rparr>)"

definition Mem_CommitVerifiedAUMs :: "'z tka_lib_scheme \<Rightarrow> Mem \<Rightarrow> AUM list \<Rightarrow> unit outcome \<times> Mem" where
  "Mem_CommitVerifiedAUMs L c updates = (Ret (), foldl (Mem_commit1 L) c updates)"

definition Mem_Chonk :: "'z tka_lib_scheme \<Rightarrow> Mem Chonk" where
  "Mem_Chonk L = \<lparr>c_AUM = Mem_AUM, c_ChildAUMs = Mem_ChildAUMs, c_CommitVerifiedAUMs = Mem_CommitVerifiedAUMs L,
     c_Heads = Mem_Heads L, c_SetLastActiveAncestor = Mem_SetLastActiveAncestor,
     c_LastActiveAncestor = Mem_LastActiveAncestor\<rparr>"

subsection \<open>Storage in files\<close>

record fsHashInfo =
  i_Children :: "AUMHash list"
  i_AUM :: "AUM option"
  i_CreatedUnix :: int
  i_PurgedUnix :: int

text \<open>A file with the time of its last change; \<open>fs_now\<close> is the clock, in seconds.\<close>

record FS =
  fs_files :: "(AUMHash \<times> fsHashInfo \<times> int) list"
  fs_last :: "bytes option"
  fs_now :: int

definition emptyFS :: "int \<Rightarrow> FS" where
  "emptyFS now = \<lparr>fs_files = [], fs_last = None, fs_now = now\<rparr>"

definition FS_get :: "'z tka_lib_scheme \<Rightarrow> FS \<Rightarrow> AUMHash \<Rightarrow> fsHashInfo outcome" where
  "FS_get L c h =
     (case map_of (fs_files c) h of
        None \<Rightarrow> Raise ErrNotExist
      | Some (out, _) \<Rightarrow>
          (case i_AUM out of
             Some a \<Rightarrow> if AUM_Hash L a \<noteq> h then Raise (Err ''AUM does not match file name hash'') else Ret out
           | None \<Rightarrow> Ret out))"

definition FS_AUM :: "'z tka_lib_scheme \<Rightarrow> FS \<Rightarrow> AUMHash \<Rightarrow> AUM outcome" where
  "FS_AUM L c hash =
     andThen (FS_get L c hash) (\<lambda>info.
       case i_AUM info of
         None \<Rightarrow> Raise ErrNotExist
       | Some a \<Rightarrow> if i_PurgedUnix info > 0 then Raise ErrNotExist else Ret a)"

definition FS_CommitTime :: "'z tka_lib_scheme \<Rightarrow> FS \<Rightarrow> AUMHash \<Rightarrow> int outcome" where
  "FS_CommitTime L c h =
     andThen (FS_get L c h) (\<lambda>info.
       if i_PurgedUnix info > 0 then Raise ErrNotExist
       else if i_CreatedUnix info > 0 then Ret (i_CreatedUnix info)
       else Ret (case map_of (fs_files c) h of None \<Rightarrow> 0 | Some (_, mtime) \<Rightarrow> mtime))"

fun children_loop :: "'z tka_lib_scheme \<Rightarrow> FS \<Rightarrow> AUMHash list \<Rightarrow> AUM list outcome" where
  "children_loop L c [] = Ret []"
| "children_loop L c (h # hs) =
     andThen (wrap ''reading child'' (FS_get L c h)) (\<lambda>ci.
       case i_AUM ci of
         None \<Rightarrow> Raise (Err ''child: AUM not stored'')
       | Some a \<Rightarrow>
           if i_PurgedUnix ci > 0 then Raise (Err ''child: AUM not stored'')
           else andThen (children_loop L c hs) (\<lambda>out. Ret (a # out)))"

definition FS_ChildAUMs :: "'z tka_lib_scheme \<Rightarrow> FS \<Rightarrow> AUMHash \<Rightarrow> AUM list outcome" where
  "FS_ChildAUMs L c prev =
     (case FS_get L c prev of
        Raise e \<Rightarrow> if e = ErrNotExist then Ret [] else Raise e
      | Panic \<Rightarrow> Panic
      | Ret info \<Rightarrow> children_loop L c (i_Children info))"

text \<open>\<open>scanHashes\<close>: every file, in the order of the directory listing.\<close>

fun scanHashes :: "'z tka_lib_scheme \<Rightarrow> FS \<Rightarrow> AUMHash list \<Rightarrow> fsHashInfo list outcome" where
  "scanHashes L c [] = Ret []"
| "scanHashes L c (h # hs) =
     andThen (wrap ''reading'' (FS_get L c h)) (\<lambda>info. andThen (scanHashes L c hs) (\<lambda>rest. Ret (info # rest)))"

definition FS_live :: "fsHashInfo \<Rightarrow> AUM list" where
  "FS_live info = (if i_AUM info \<noteq> None \<and> i_PurgedUnix info = 0 then [the (i_AUM info)] else [])"

definition FS_Heads :: "'z tka_lib_scheme \<Rightarrow> FS \<Rightarrow> AUM list outcome" where
  "FS_Heads L c =
     andThen (scanHashes L c (map fst (fs_files c))) (\<lambda>infos.
       Ret (concat (map (\<lambda>info. if length (i_Children info) = 0 then FS_live info else []) infos)))"

definition FS_AllAUMs :: "'z tka_lib_scheme \<Rightarrow> FS \<Rightarrow> AUMHash list outcome" where
  "FS_AllAUMs L c =
     andThen (scanHashes L c (map fst (fs_files c))) (\<lambda>infos.
       Ret (concat (map (\<lambda>info. map (AUM_Hash L) (FS_live info)) infos)))"

definition FS_SetLastActiveAncestor :: "FS \<Rightarrow> AUMHash \<Rightarrow> unit outcome \<times> FS" where
  "FS_SetLastActiveAncestor c hash = (Ret (), c\<lparr>fs_last := Some hash\<rparr>)"

definition FS_LastActiveAncestor :: "FS \<Rightarrow> AUMHash option outcome" where
  "FS_LastActiveAncestor c =
     (case fs_last c of
        None \<Rightarrow> Ret None
      | Some hash \<Rightarrow> if length hash \<noteq> 32 then Raise (Err ''stored hash is of wrong length'') else Ret (Some hash))"

text \<open>\<open>commit\<close> rewrites the file of a hash; on an error the file is not written.\<close>

definition FS_commit :: "'z tka_lib_scheme \<Rightarrow> FS \<Rightarrow> AUMHash \<Rightarrow> (fsHashInfo \<Rightarrow> fsHashInfo) \<Rightarrow> unit outcome \<times> FS" where
  "FS_commit L c h updater =
     (let existing = (case FS_get L c h of
            Ret info \<Rightarrow> Ret info
          | Raise e \<Rightarrow>
              if e = ErrNotExist then Ret \<lparr>i_Children = [], i_AUM = None, i_CreatedUnix = fs_now c, i_PurgedUnix = 0\<rparr>
              else Raise e
          | Panic \<Rightarrow> Panic)
      in case existing of
           Ret info \<Rightarrow>
             let toCommit = updater info in
             if (case i_AUM toCommit of None \<Rightarrow> False | Some a \<Rightarrow> AUM_Hash L a \<noteq> h)
             then (Raise (Err ''cannot commit AUM with another hash''), c)
             else (Ret (), c\<lparr>fs_files := AList.update h (toCommit, fs_now c) (fs_files c)\<rparr>)
         | Raise e \<Rightarrow> (Raise e, c)
         | Panic \<Rightarrow> (Panic, c))"

definition add_child :: "AUMHash \<Rightarrow> fsHashInfo \<Rightarrow> fsHashInfo" where
  "add_child h info = (if h \<in> set (i_Children info) then info else info\<lparr>i_Children := i_Children info @ [h]\<rparr>)"

fun FS_CommitVerifiedAUMs :: "'z tka_lib_scheme \<Rightarrow> FS \<Rightarrow> AUM list \<Rightarrow> unit outcome \<times> FS" where
  "FS_CommitVerifiedAUMs L c [] = (Ret (), c)"
| "FS_CommitVerifiedAUMs L c (aum # rest) =
     (let h = AUM_Hash L aum;
          (r1, c1) = (case AUM_Parent aum of None \<Rightarrow> (Ret (), c) | Some parent \<Rightarrow> FS_commit L c parent (add_child h))
      in case wrap ''committing update to parent'' r1 of
           Ret _ \<Rightarrow>
             (let (r2, c2) = FS_commit L c1 h (\<lambda>info. info\<lparr>i_PurgedUnix := 0, i_AUM := Some aum\<rparr>)
              in case wrap ''committing update'' r2 of
                   Ret _ \<Rightarrow> FS_CommitVerifiedAUMs L c2 rest
                 | r \<Rightarrow> (r, c2))
         | r \<Rightarrow> (r, c1))"

fun FS_PurgeAUMs :: "'z tka_lib_scheme \<Rightarrow> FS \<Rightarrow> AUMHash list \<Rightarrow> unit outcome \<times> FS" where
  "FS_PurgeAUMs L c [] = (Ret (), c)"
| "FS_PurgeAUMs L c (h # hs) =
     (case FS_get L c h of
        Ret stored \<Rightarrow>
          if i_AUM stored = None \<or> i_PurgedUnix stored > 0 then FS_PurgeAUMs L c hs
          else (let (r, c') = FS_commit L c h (\<lambda>info. info\<lparr>i_PurgedUnix := fs_now c\<rparr>)
                in case r of Ret _ \<Rightarrow> FS_PurgeAUMs L c' hs | Raise e \<Rightarrow> (Raise (Err ''committing purge''), c') | Panic \<Rightarrow> (Panic, c'))
      | Raise e \<Rightarrow> (Raise (Err ''reading''), c)
      | Panic \<Rightarrow> (Panic, c))"

definition FS_Chonk :: "'z tka_lib_scheme \<Rightarrow> FS CompactableChonk" where
  "FS_Chonk L = \<lparr>c_AUM = FS_AUM L, c_ChildAUMs = FS_ChildAUMs L, c_CommitVerifiedAUMs = FS_CommitVerifiedAUMs L,
     c_Heads = FS_Heads L, c_SetLastActiveAncestor = FS_SetLastActiveAncestor,
     c_LastActiveAncestor = FS_LastActiveAncestor, c_AllAUMs = FS_AllAUMs L, c_CommitTime = FS_CommitTime L,
     c_PurgeAUMs = FS_PurgeAUMs L\<rparr>"

subsection \<open>What the authority relies on\<close>

text \<open>
  The contract of a storage. \<open>inv\<close> is the invariant of its state and \<open>store\<close> the set of AUMs it
  holds, which the hash tells apart. A commit adds the AUMs given, provided that no two AUMs
  involved have the same hash.
\<close>

locale chonk =
  fixes L :: "'z tka_lib_scheme" and C :: "('s, 'y) Chonk_scheme" and inv :: "'s \<Rightarrow> bool" and store :: "'s \<Rightarrow> AUM set"
  assumes inj_store: "inv s \<Longrightarrow> inj_on (AUM_Hash L) (store s)"
    and AUM_hit: "inv s \<Longrightarrow> a \<in> store s \<Longrightarrow> c_AUM C s (AUM_Hash L a) = Ret a"
    and AUM_miss: "inv s \<Longrightarrow> h \<notin> AUM_Hash L ` store s \<Longrightarrow> c_AUM C s h = Raise ErrNotExist"
    and ChildAUMs_law: "inv s \<Longrightarrow> \<exists>cs. c_ChildAUMs C s h = Ret cs \<and> distinct cs
           \<and> set cs = {b \<in> store s. AUM_Parent b = Some h}"
    and Heads_law: "inv s \<Longrightarrow> \<exists>hs. c_Heads C s = Ret hs \<and> distinct hs
           \<and> set hs = {a \<in> store s. \<forall>b\<in>store s. AUM_Parent b \<noteq> Some (AUM_Hash L a)}"
    and Commit_law: "inv s \<Longrightarrow> inj_on (AUM_Hash L) (store s \<union> set us) \<Longrightarrow>
           \<exists>s'. c_CommitVerifiedAUMs C s us = (Ret (), s') \<and> inv s' \<and> store s' = store s \<union> set us
             \<and> c_LastActiveAncestor C s' = c_LastActiveAncestor C s"
    and SetLast_law: "inv s \<Longrightarrow> length h = 32 \<Longrightarrow>
           \<exists>s'. c_SetLastActiveAncestor C s h = (Ret (), s') \<and> inv s' \<and> store s' = store s
             \<and> c_LastActiveAncestor C s' = Ret (Some h)"
begin

lemma AUM_cases:
  assumes "inv s"
  obtains a where "c_AUM C s h = Ret a" "a \<in> store s" "AUM_Hash L a = h"
  | "c_AUM C s h = Raise ErrNotExist" "h \<notin> AUM_Hash L ` store s"
  using AUM_hit [OF assms] AUM_miss [OF assms, of h] by (cases "h \<in> AUM_Hash L ` store s") auto

lemma AUM_Ret_iff:
  assumes "inv s"
  shows "c_AUM C s h = Ret a \<longleftrightarrow> a \<in> store s \<and> AUM_Hash L a = h"
proof (cases rule: AUM_cases [OF assms, of h])
  case (1 b)
  then show ?thesis using AUM_hit [OF assms, of a] by (metis outcome.inject(1))
next
  case 2
  then show ?thesis by auto
qed

end

subsection \<open>Memory provides it\<close>

definition Mem_store :: "Mem \<Rightarrow> AUM set" where
  "Mem_store c = ran (map_of (m_aums c))"

definition Mem_inv :: "'z tka_lib_scheme \<Rightarrow> Mem \<Rightarrow> bool" where
  "Mem_inv L c \<longleftrightarrow> distinct (map fst (m_aums c)) \<and> (\<forall>h a. map_of (m_aums c) h = Some a \<longrightarrow> AUM_Hash L a = h)
     \<and> (\<forall>h. distinct (Mem_children c h) \<and> set (Mem_children c h) = AUM_Hash L ` {b \<in> Mem_store c. AUM_Parent b = Some h})"

lemma Mem_lookup: "Mem_inv L c \<Longrightarrow> map_of (m_aums c) h = Some a \<longleftrightarrow> a \<in> Mem_store c \<and> AUM_Hash L a = h"
  unfolding Mem_inv_def Mem_store_def ran_def by auto

lemma Mem_store_snd: "Mem_inv L c \<Longrightarrow> Mem_store c = snd ` set (m_aums c) \<and> distinct (map snd (m_aums c))"
proof -
  assume inv: "Mem_inv L c"
  have d: "distinct (map fst (m_aums c))" using inv by (simp add: Mem_inv_def)
  have h: "\<And>h a. (h, a) \<in> set (m_aums c) \<Longrightarrow> h = AUM_Hash L a" using inv d by (auto simp: Mem_inv_def)
  then have "map fst (m_aums c) = map (AUM_Hash L) (map snd (m_aums c))" by auto
  then have "distinct (map snd (m_aums c))" using d distinct_map by metis
  then show ?thesis using ran_distinct [OF d] by (simp add: Mem_store_def)
qed

lemma Mem_commit1_inv:
  assumes inv: "Mem_inv L c" and inj: "inj_on (AUM_Hash L) (insert a (Mem_store c))"
  shows "Mem_inv L (Mem_commit1 L c a) \<and> Mem_store (Mem_commit1 L c a) = insert a (Mem_store c)
    \<and> m_lastActiveAncestor (Mem_commit1 L c a) = m_lastActiveAncestor c"
proof -
  let ?c = "Mem_commit1 L c a" and ?h = "AUM_Hash L a"
  have aums: "m_aums ?c = AList.update ?h a (m_aums c)"
    by (auto simp: Mem_commit1_def Let_def split: option.splits)
  have store: "Mem_store ?c = insert a (Mem_store c)"
  proof -
    have "b = a" if "map_of (m_aums c) ?h = Some b" for b
      using that Mem_lookup [OF inv, of ?h b] inj by (auto simp: inj_on_def)
    then have "map_of (m_aums c) ?h = None \<or> map_of (m_aums c) ?h = Some a"
      by (cases "map_of (m_aums c) ?h") simp_all
    then show ?thesis
    proof
      assume "map_of (m_aums c) ?h = None"
      then show ?thesis unfolding Mem_store_def aums update_conv' by (rule ran_map_upd)
    next
      assume s: "map_of (m_aums c) ?h = Some a"
      then have "map_of (m_aums ?c) = map_of (m_aums c)" unfolding aums update_conv' by (simp add: fun_upd_idem)
      moreover have "a \<in> ran (map_of (m_aums c))" using s by (rule ranI)
      ultimately show ?thesis by (simp add: Mem_store_def insert_absorb)
    qed
  qed
  have kids: "Mem_children ?c p = (if AUM_Parent a = Some p \<and> ?h \<notin> set (Mem_children c p)
      then Mem_children c p @ [?h] else Mem_children c p)" for p
    by (auto simp: Mem_commit1_def Mem_children_def Let_def update_conv' split: option.splits)
  have "distinct (Mem_children ?c p) \<and> set (Mem_children ?c p) = AUM_Hash L ` {b \<in> Mem_store ?c. AUM_Parent b = Some p}" for p
    using inv by (auto simp: kids store Mem_inv_def)
  moreover have "distinct (map fst (m_aums ?c))" using inv by (simp add: aums distinct_update Mem_inv_def)
  moreover have "\<forall>h b. map_of (m_aums ?c) h = Some b \<longrightarrow> AUM_Hash L b = h"
    using inv by (auto simp: aums update_conv' Mem_inv_def)
  moreover have "m_lastActiveAncestor ?c = m_lastActiveAncestor c"
    by (auto simp: Mem_commit1_def Let_def split: option.splits)
  ultimately show ?thesis using store by (simp add: Mem_inv_def)
qed

lemma Mem_commit_inv:
  "Mem_inv L c \<Longrightarrow> inj_on (AUM_Hash L) (Mem_store c \<union> set us) \<Longrightarrow>
   Mem_inv L (foldl (Mem_commit1 L) c us) \<and> Mem_store (foldl (Mem_commit1 L) c us) = Mem_store c \<union> set us
     \<and> m_lastActiveAncestor (foldl (Mem_commit1 L) c us) = m_lastActiveAncestor c"
proof (induction us arbitrary: c)
  case (Cons u us)
  have "inj_on (AUM_Hash L) (insert u (Mem_store c))" using Cons.prems(2) by (rule inj_on_subset) auto
  then have "Mem_inv L (Mem_commit1 L c u)" "Mem_store (Mem_commit1 L c u) = insert u (Mem_store c)"
    "m_lastActiveAncestor (Mem_commit1 L c u) = m_lastActiveAncestor c"
    using Mem_commit1_inv Cons.prems(1) by blast+
  then show ?case using Cons.IH [of "Mem_commit1 L c u"] Cons.prems(2) by simp
qed simp

lemma Mem_ChildAUMs_law:
  assumes "Mem_inv L c"
  shows "\<exists>cs. Mem_ChildAUMs c h = Ret cs \<and> distinct cs \<and> set cs = {b \<in> Mem_store c. AUM_Parent b = Some h}"
proof -
  let ?f = "\<lambda>e. case map_of (m_aums c) e of None \<Rightarrow> zeroAUM | Some a \<Rightarrow> a"
  have f: "?f (AUM_Hash L b) = b" if "b \<in> Mem_store c" for b
    using Mem_lookup [OF assms, of "AUM_Hash L b" b] that by simp
  have kids: "distinct (Mem_children c h)" "set (Mem_children c h) = AUM_Hash L ` {b \<in> Mem_store c. AUM_Parent b = Some h}"
    using assms by (auto simp: Mem_inv_def)
  have "inj_on ?f (set (Mem_children c h))" unfolding kids(2) by (rule inj_onI) (auto simp: f)
  moreover have "?f ` set (Mem_children c h) = {b \<in> Mem_store c. AUM_Parent b = Some h}"
    unfolding kids(2) by (force simp: f image_iff)
  ultimately show ?thesis using kids(1) by (simp add: Mem_ChildAUMs_def distinct_map)
qed

lemma Mem_Heads_law:
  assumes "Mem_inv L c"
  shows "\<exists>hs. Mem_Heads L c = Ret hs \<and> distinct hs
    \<and> set hs = {a \<in> Mem_store c. \<forall>b\<in>Mem_store c. AUM_Parent b \<noteq> Some (AUM_Hash L a)}"
proof -
  have "Mem_children c h = [] \<longleftrightarrow> (\<forall>b\<in>Mem_store c. AUM_Parent b \<noteq> Some h)" for h
    using assms unfolding Mem_inv_def by (metis (mono_tags, lifting) Collect_empty_eq image_is_empty set_empty)
  then show ?thesis using Mem_store_snd [OF assms] by (auto simp: Mem_Heads_def)
qed

lemma Mem_Chonk_chonk: "chonk L (Mem_Chonk L) (Mem_inv L) Mem_store"
proof
  fix s :: Mem and a and h :: AUMHash and us
  assume inv: "Mem_inv L s"
  note look = Mem_lookup [OF inv]
  show "inj_on (AUM_Hash L) (Mem_store s)" using look by (auto simp: inj_on_def) (metis option.inject)
  show "a \<in> Mem_store s \<Longrightarrow> c_AUM (Mem_Chonk L) s (AUM_Hash L a) = Ret a"
    using look [of "AUM_Hash L a" a] by (simp add: Mem_Chonk_def Mem_AUM_def)
  show "h \<notin> AUM_Hash L ` Mem_store s \<Longrightarrow> c_AUM (Mem_Chonk L) s h = Raise ErrNotExist"
    using look [of h] by (force simp: Mem_Chonk_def Mem_AUM_def split: option.splits)
  show "\<exists>cs. c_ChildAUMs (Mem_Chonk L) s h = Ret cs \<and> distinct cs \<and> set cs = {b \<in> Mem_store s. AUM_Parent b = Some h}"
    using Mem_ChildAUMs_law [OF inv] by (simp add: Mem_Chonk_def)
  show "\<exists>hs. c_Heads (Mem_Chonk L) s = Ret hs \<and> distinct hs
      \<and> set hs = {a \<in> Mem_store s. \<forall>b\<in>Mem_store s. AUM_Parent b \<noteq> Some (AUM_Hash L a)}"
    using Mem_Heads_law [OF inv] by (simp add: Mem_Chonk_def)
  show "inj_on (AUM_Hash L) (Mem_store s \<union> set us) \<Longrightarrow>
      \<exists>s'. c_CommitVerifiedAUMs (Mem_Chonk L) s us = (Ret (), s') \<and> Mem_inv L s' \<and> Mem_store s' = Mem_store s \<union> set us
        \<and> c_LastActiveAncestor (Mem_Chonk L) s' = c_LastActiveAncestor (Mem_Chonk L) s"
    using Mem_commit_inv [OF inv, of us]
    by (simp add: Mem_Chonk_def Mem_CommitVerifiedAUMs_def Mem_LastActiveAncestor_def)
  show "length h = 32 \<Longrightarrow> \<exists>s'. c_SetLastActiveAncestor (Mem_Chonk L) s h = (Ret (), s') \<and> Mem_inv L s'
      \<and> Mem_store s' = Mem_store s \<and> c_LastActiveAncestor (Mem_Chonk L) s' = Ret (Some h)"
    using inv by (simp add: Mem_Chonk_def Mem_SetLastActiveAncestor_def Mem_LastActiveAncestor_def Mem_inv_def
        Mem_store_def Mem_children_def)
qed

interpretation mem: chonk L "Mem_Chonk L" "Mem_inv L" Mem_store for L
  by (rule Mem_Chonk_chonk)

lemma Mem_inv_empty [simp]: "Mem_inv L emptyMem" "Mem_store emptyMem = {}"
  by (auto simp: Mem_inv_def Mem_store_def emptyMem_def Mem_children_def)

subsection \<open>Files provide it\<close>

text \<open>
  The files provide the contract as long as no AUM has been purged: the entry of a purged AUM stays
  behind, with its children.
\<close>

definition FS_store :: "FS \<Rightarrow> AUM set" where
  "FS_store c = {a. \<exists>h info t. map_of (fs_files c) h = Some (info, t) \<and> i_AUM info = Some a}"

definition FS_children :: "FS \<Rightarrow> AUMHash \<Rightarrow> AUMHash list" where
  "FS_children c h = (case map_of (fs_files c) h of None \<Rightarrow> [] | Some (info, _) \<Rightarrow> i_Children info)"

definition FS_wf :: "'z tka_lib_scheme \<Rightarrow> FS \<Rightarrow> bool" where
  "FS_wf L c \<longleftrightarrow> distinct (map fst (fs_files c)) \<and> (\<forall>x. fs_last c = Some x \<longrightarrow> length x = 32)
     \<and> (\<forall>h info t. map_of (fs_files c) h = Some (info, t) \<longrightarrow>
          i_PurgedUnix info = 0 \<and> (\<forall>a. i_AUM info = Some a \<longrightarrow> AUM_Hash L a = h))"

definition FS_inv :: "'z tka_lib_scheme \<Rightarrow> FS \<Rightarrow> bool" where
  "FS_inv L c \<longleftrightarrow> FS_wf L c
     \<and> (\<forall>h. distinct (FS_children c h) \<and> set (FS_children c h) = AUM_Hash L ` {b \<in> FS_store c. AUM_Parent b = Some h})"

lemma FS_get_eq:
  assumes "FS_wf L c"
  shows "FS_get L c h = (case map_of (fs_files c) h of None \<Rightarrow> Raise ErrNotExist | Some (info, _) \<Rightarrow> Ret info)"
  using assms by (auto simp: FS_get_def FS_wf_def split: option.splits prod.splits)

lemma FS_wfD:
  "FS_wf L c \<Longrightarrow> map_of (fs_files c) h = Some (info, t) \<Longrightarrow>
   i_PurgedUnix info = 0 \<and> (\<forall>a. i_AUM info = Some a \<longrightarrow> AUM_Hash L a = h)"
  unfolding FS_wf_def by blast

lemma FS_store_iff:
  "FS_wf L c \<Longrightarrow> a \<in> FS_store c \<longleftrightarrow> (\<exists>info t. map_of (fs_files c) (AUM_Hash L a) = Some (info, t) \<and> i_AUM info = Some a)"
  unfolding FS_store_def using FS_wfD by blast

lemma FS_storeD:
  assumes "FS_wf L c" "a \<in> FS_store c"
  obtains info t where "map_of (fs_files c) (AUM_Hash L a) = Some (info, t)" "i_AUM info = Some a" "i_PurgedUnix info = 0"
  using FS_store_iff [OF assms(1)] FS_wfD [OF assms(1)] assms(2) by blast

lemma FS_AUM_hit:
  assumes "FS_wf L c" "a \<in> FS_store c"
  shows "FS_AUM L c (AUM_Hash L a) = Ret a"
  by (rule FS_storeD [OF assms]) (simp add: FS_AUM_def FS_get_eq [OF assms(1)])

lemma FS_AUM_miss:
  assumes "FS_wf L c" "h \<notin> AUM_Hash L ` FS_store c"
  shows "FS_AUM L c h = Raise ErrNotExist"
proof (cases "map_of (fs_files c) h")
  case None
  then show ?thesis by (simp add: FS_AUM_def FS_get_eq [OF assms(1)])
next
  case (Some p)
  obtain info t where p: "p = (info, t)" by (cases p)
  then have "i_AUM info = None" using FS_wfD [OF assms(1)] FS_store_iff [OF assms(1)] assms(2) Some
    by (cases "i_AUM info") blast+
  then show ?thesis using Some p by (simp add: FS_AUM_def FS_get_eq [OF assms(1)])
qed

lemma FS_inj: "FS_wf L c \<Longrightarrow> inj_on (AUM_Hash L) (FS_store c)"
  by (rule inj_onI) (metis FS_AUM_hit outcome.inject(1))

text \<open>Rewriting one file.\<close>

definition fs_info :: "FS \<Rightarrow> AUMHash \<Rightarrow> fsHashInfo" where
  "fs_info c h = (case map_of (fs_files c) h of
     None \<Rightarrow> \<lparr>i_Children = [], i_AUM = None, i_CreatedUnix = fs_now c, i_PurgedUnix = 0\<rparr> | Some (info, _) \<Rightarrow> info)"

definition fs_put :: "FS \<Rightarrow> AUMHash \<Rightarrow> fsHashInfo \<Rightarrow> FS" where
  "fs_put c h info = c\<lparr>fs_files := AList.update h (info, fs_now c) (fs_files c)\<rparr>"

lemma FS_commit_eq:
  assumes "FS_wf L c" "\<forall>a. i_AUM (f (fs_info c h)) = Some a \<longrightarrow> AUM_Hash L a = h"
  shows "FS_commit L c h f = (Ret (), fs_put c h (f (fs_info c h)))"
  using assms(2)
  by (auto simp: FS_commit_def FS_get_eq [OF assms(1)] fs_info_def fs_put_def Let_def split: option.splits prod.splits)

lemma fs_put_wf:
  "FS_wf L c \<Longrightarrow> i_PurgedUnix info = 0 \<Longrightarrow> \<forall>a. i_AUM info = Some a \<longrightarrow> AUM_Hash L a = h \<Longrightarrow> FS_wf L (fs_put c h info)"
  by (auto simp: FS_wf_def fs_put_def update_conv' distinct_update)

lemma fs_info_wf: "FS_wf L c \<Longrightarrow> i_PurgedUnix (fs_info c h) = 0 \<and> (\<forall>a. i_AUM (fs_info c h) = Some a \<longrightarrow> AUM_Hash L a = h)"
  by (auto simp: FS_wf_def fs_info_def split: option.splits)

lemma fs_put_children: "FS_children (fs_put c h info) p = (if p = h then i_Children info else FS_children c p)"
  by (auto simp: FS_children_def fs_put_def update_conv')

lemma fs_info_children [simp]: "i_Children (fs_info c h) = FS_children c h"
  by (auto simp: fs_info_def FS_children_def split: option.splits)

lemma fs_info_AUM:
  assumes "FS_wf L c"
  shows "i_AUM (fs_info c h) = Some b \<longleftrightarrow> b \<in> FS_store c \<and> AUM_Hash L b = h"
proof (cases "map_of (fs_files c) h")
  case None
  then show ?thesis using FS_store_iff [OF assms, of b] by (auto simp: fs_info_def)
next
  case (Some p)
  obtain info t where p: "p = (info, t)" by (cases p)
  have "i_AUM info = Some b \<longrightarrow> AUM_Hash L b = h" using FS_wfD [OF assms] Some p by blast
  then show ?thesis unfolding fs_info_def FS_store_iff [OF assms] using Some p by auto
qed

lemma fs_put_store:
  assumes "FS_wf L c" "i_AUM info = i_AUM (fs_info c h) \<or> i_AUM info = Some a \<and> AUM_Hash L a = h
      \<and> inj_on (AUM_Hash L) (insert a (FS_store c))"
  shows "FS_store (fs_put c h info) = FS_store c \<union> set_option (i_AUM info)"
proof -
  have new: "b \<in> FS_store (fs_put c h info) \<longleftrightarrow> i_AUM info = Some b \<or> (b \<in> FS_store c \<and> AUM_Hash L b \<noteq> h)" for b
  proof -
    have "b \<in> FS_store (fs_put c h info) \<longleftrightarrow> i_AUM info = Some b \<or>
        (\<exists>h' i t. h' \<noteq> h \<and> map_of (fs_files c) h' = Some (i, t) \<and> i_AUM i = Some b)"
      unfolding FS_store_def fs_put_def by (auto simp: update_conv' split: if_splits)
    also have "\<dots> \<longleftrightarrow> i_AUM info = Some b \<or> (b \<in> FS_store c \<and> AUM_Hash L b \<noteq> h)"
      using FS_store_iff [OF assms(1), of b] FS_wfD [OF assms(1)] by blast
    finally show ?thesis .
  qed
  show ?thesis using assms(2) fs_info_AUM [OF assms(1)] new by (auto simp: inj_on_def)
qed

lemma fs_put_misc [simp]: "fs_last (fs_put c h info) = fs_last c" "fs_now (fs_put c h info) = fs_now c"
  by (simp_all add: fs_put_def)

text \<open>One AUM: its parent's entry first, then its own.\<close>

lemma FS_commit1:
  assumes inv: "FS_inv L c" and inj: "inj_on (AUM_Hash L) (insert a (FS_store c))"
  obtains c' where "FS_CommitVerifiedAUMs L c (a # us) = FS_CommitVerifiedAUMs L c' us"
    "FS_inv L c'" "FS_store c' = insert a (FS_store c)" "fs_last c' = fs_last c"
proof -
  let ?h = "AUM_Hash L a"
  define c1 where "c1 = (case AUM_Parent a of None \<Rightarrow> c | Some p \<Rightarrow> fs_put c p (add_child ?h (fs_info c p)))"
  define c2 where "c2 = fs_put c1 ?h ((fs_info c1 ?h)\<lparr>i_PurgedUnix := 0, i_AUM := Some a\<rparr>)"
  have wf: "FS_wf L c" using inv by (simp add: FS_inv_def)
  have keep: "i_AUM (add_child x i) = i_AUM i" "i_PurgedUnix (add_child x i) = i_PurgedUnix i" for x i
    by (simp_all add: add_child_def)
  have wf1: "FS_wf L c1" unfolding c1_def
    using wf by (auto simp: keep fs_info_wf intro!: fs_put_wf split: option.splits)
  have st1: "FS_store c1 = FS_store c"
  proof (cases "AUM_Parent a")
    case (Some p)
    have "set_option (i_AUM (fs_info c p)) \<subseteq> FS_store c"
      by (auto simp: fs_info_def FS_store_def split: option.splits)
    then show ?thesis using fs_put_store [OF wf, of "add_child ?h (fs_info c p)" p] Some by (auto simp: c1_def keep)
  qed (simp add: c1_def)
  have step1: "(case AUM_Parent a of None \<Rightarrow> (Ret (), c) | Some p \<Rightarrow> FS_commit L c p (add_child ?h)) = (Ret (), c1)"
    by (auto simp: c1_def FS_commit_eq [OF wf] keep fs_info_wf [OF wf] split: option.splits)
  have step2: "FS_commit L c1 ?h (\<lambda>info. info\<lparr>i_PurgedUnix := 0, i_AUM := Some a\<rparr>) = (Ret (), c2)"
    by (simp add: c2_def FS_commit_eq [OF wf1])
  have "FS_CommitVerifiedAUMs L c (a # us) = FS_CommitVerifiedAUMs L c2 us" by (simp add: step1 step2 Let_def)
  moreover have st2: "FS_store c2 = insert a (FS_store c)"
    unfolding c2_def using inj by (subst fs_put_store [OF wf1]) (auto simp: st1)
  moreover have "FS_inv L c2"
  proof -
    have "FS_wf L c2" unfolding c2_def using wf1 by (auto intro: fs_put_wf)
    moreover have "FS_children c2 p = (if AUM_Parent a = Some p \<and> ?h \<notin> set (FS_children c p)
        then FS_children c p @ [?h] else FS_children c p)" for p
      by (auto simp: c2_def c1_def fs_put_children add_child_def split: option.splits)
    ultimately show ?thesis using inv by (auto simp: FS_inv_def st2)
  qed
  moreover have "fs_last c2 = fs_last c" by (simp add: c2_def c1_def split: option.splits)
  ultimately show ?thesis using that by blast
qed

lemma FS_commit_law:
  "FS_inv L c \<Longrightarrow> inj_on (AUM_Hash L) (FS_store c \<union> set us) \<Longrightarrow>
   \<exists>c'. FS_CommitVerifiedAUMs L c us = (Ret (), c') \<and> FS_inv L c' \<and> FS_store c' = FS_store c \<union> set us \<and> fs_last c' = fs_last c"
proof (induction us arbitrary: c)
  case (Cons u us)
  have "inj_on (AUM_Hash L) (insert u (FS_store c))" using Cons.prems(2) by (rule inj_on_subset) auto
  with Cons.prems(1) obtain c' where c': "FS_CommitVerifiedAUMs L c (u # us) = FS_CommitVerifiedAUMs L c' us"
    "FS_inv L c'" "FS_store c' = insert u (FS_store c)" "fs_last c' = fs_last c" by (rule FS_commit1)
  then show ?case using Cons.IH [OF c'(2)] Cons.prems(2) by simp
qed simp

lemma children_loop_eq:
  "FS_wf L c \<Longrightarrow> hs = map (AUM_Hash L) as \<Longrightarrow> set as \<subseteq> FS_store c \<Longrightarrow> children_loop L c hs = Ret as"
proof (induction as arbitrary: hs)
  case (Cons a as)
  then obtain info t where "map_of (fs_files c) (AUM_Hash L a) = Some (info, t)" "i_AUM info = Some a" "i_PurgedUnix info = 0"
    by (meson FS_storeD list.set_intros(1) subsetD)
  then show ?case using Cons by (simp add: FS_get_eq)
qed simp

lemma FS_ChildAUMs_law:
  assumes inv: "FS_inv L c"
  shows "\<exists>cs. FS_ChildAUMs L c h = Ret cs \<and> distinct cs \<and> set cs = {b \<in> FS_store c. AUM_Parent b = Some h}"
proof -
  have wf: "FS_wf L c" using inv by (simp add: FS_inv_def)
  have kids: "distinct (FS_children c h)" "set (FS_children c h) = AUM_Hash L ` {b \<in> FS_store c. AUM_Parent b = Some h}"
    using inv by (auto simp: FS_inv_def)
  let ?bs = "map (inv_into (FS_store c) (AUM_Hash L)) (FS_children c h)"
  have unhash: "inv_into (FS_store c) (AUM_Hash L) (AUM_Hash L b) = b" if "b \<in> FS_store c" for b
    using FS_inj [OF wf] that by simp
  have kids_bs: "set ?bs = {b \<in> FS_store c. AUM_Parent b = Some h}" using kids(2) unhash by (force simp: image_iff)
  have "map (AUM_Hash L \<circ> inv_into (FS_store c) (AUM_Hash L)) (FS_children c h) = FS_children c h"
    by (rule map_idI) (use kids(2) unhash in auto)
  then have "map (AUM_Hash L) ?bs = FS_children c h" by simp
  moreover from this have "distinct ?bs" using kids(1) by (metis distinct_map)
  moreover have "FS_ChildAUMs L c h = children_loop L c (FS_children c h)"
    by (auto simp: FS_ChildAUMs_def FS_get_eq [OF wf] FS_children_def split: option.splits)
  ultimately show ?thesis using children_loop_eq [OF wf, of "FS_children c h" ?bs] kids_bs by auto
qed

text \<open>The scan of all files.\<close>

lemma scanHashes_eq:
  assumes "FS_wf L c" "set hs \<subseteq> fst ` set (fs_files c)"
  shows "scanHashes L c hs = Ret (map (fs_info c) hs)"
  using assms(2)
proof (induction hs)
  case (Cons h hs)
  then obtain p where "map_of (fs_files c) h = Some p" by (cases "map_of (fs_files c) h") (auto simp: map_of_eq_None_iff)
  then show ?case using Cons by (cases p) (simp add: FS_get_eq [OF assms(1)] fs_info_def)
qed simp

lemma FS_live_iff:
  assumes "FS_wf L c"
  shows "a \<in> set (FS_live (fs_info c h)) \<longleftrightarrow> a \<in> FS_store c \<and> AUM_Hash L a = h"
proof -
  have "i_PurgedUnix (fs_info c h) = 0" using fs_info_wf [OF assms] by blast
  then have "a \<in> set (FS_live (fs_info c h)) \<longleftrightarrow> i_AUM (fs_info c h) = Some a"
    by (cases "i_AUM (fs_info c h)") (auto simp: FS_live_def)
  then show ?thesis by (simp only: fs_info_AUM [OF assms])
qed

lemma distinct_concat_by_hash:
  assumes "distinct hs" "\<And>h. h \<in> set hs \<Longrightarrow> distinct (f h) \<and> (\<forall>a\<in>set (f h). g a = h)"
  shows "distinct (concat (map f hs))"
  using assms
proof (induction hs)
  case (Cons h hs)
  have g: "\<forall>a\<in>set (f h). g a = h" "\<forall>h'\<in>set hs. \<forall>a\<in>set (f h'). g a = h'" "h \<notin> set hs" "distinct (f h)"
    using Cons.prems by auto
  then have "set (f h) \<inter> set (concat (map f hs)) = {}" by force
  moreover have "distinct (concat (map f hs))" using Cons by simp
  ultimately show ?case using g(4) by simp
qed simp

lemma FS_Heads_law:
  assumes inv: "FS_inv L c"
  shows "\<exists>hs. FS_Heads L c = Ret hs \<and> distinct hs
    \<and> set hs = {a \<in> FS_store c. \<forall>b\<in>FS_store c. AUM_Parent b \<noteq> Some (AUM_Hash L a)}"
proof -
  have wf: "FS_wf L c" using inv by (simp add: FS_inv_def)
  let ?keys = "map fst (fs_files c)"
  let ?f = "\<lambda>h. if length (i_Children (fs_info c h)) = 0 then FS_live (fs_info c h) else []"
  have no_kids: "FS_children c h = [] \<longleftrightarrow> (\<forall>b\<in>FS_store c. AUM_Parent b \<noteq> Some h)" for h
    using inv unfolding FS_inv_def by (metis (mono_tags, lifting) Collect_empty_eq image_is_empty set_empty)
  have dom: "AUM_Hash L a \<in> set ?keys" if a: "a \<in> FS_store c" for a
  proof -
    obtain i t where "map_of (fs_files c) (AUM_Hash L a) = Some (i, t)" using FS_storeD [OF wf a] by blast
    then show ?thesis by (auto dest: map_of_SomeD intro: rev_image_eqI)
  qed
  have run: "FS_Heads L c = Ret (concat (map ?f ?keys))"
    using scanHashes_eq [OF wf, of ?keys] by (simp add: FS_Heads_def o_def)
  have "distinct (concat (map ?f ?keys))"
  proof (rule distinct_concat_by_hash [where g = "AUM_Hash L"])
    show "distinct ?keys" using wf by (simp add: FS_wf_def)
    show "\<And>h. h \<in> set ?keys \<Longrightarrow> distinct (?f h) \<and> (\<forall>a\<in>set (?f h). AUM_Hash L a = h)"
      using FS_live_iff [OF wf] by (auto simp: FS_live_def)
  qed
  moreover have "a \<in> set (concat (map ?f ?keys)) \<longleftrightarrow>
      a \<in> FS_store c \<and> (\<forall>b\<in>FS_store c. AUM_Parent b \<noteq> Some (AUM_Hash L a))" for a
  proof -
    have "a \<in> set (concat (map ?f ?keys)) \<longleftrightarrow> (\<exists>h\<in>set ?keys. FS_children c h = [] \<and> a \<in> FS_store c \<and> AUM_Hash L a = h)"
      using FS_live_iff [OF wf, of a] by auto
    then show ?thesis using dom [of a] no_kids [of "AUM_Hash L a"] by blast
  qed
  ultimately show ?thesis using run by (intro exI [of _ "concat (map ?f ?keys)"]) blast
qed

lemma fs_last_simps:
  "FS_store (c\<lparr>fs_last := x\<rparr>) = FS_store c" "FS_children (c\<lparr>fs_last := x\<rparr>) = FS_children c"
  "FS_wf L c \<Longrightarrow> length h = 32 \<Longrightarrow> FS_wf L (c\<lparr>fs_last := Some h\<rparr>)"
  by (auto simp: FS_store_def FS_children_def FS_wf_def)

lemma FS_Chonk_chonk: "chonk L (FS_Chonk L) (FS_inv L) FS_store"
proof
  fix s :: FS and a and h :: AUMHash and us
  assume inv: "FS_inv L s"
  then have wf: "FS_wf L s" by (simp add: FS_inv_def)
  show "inj_on (AUM_Hash L) (FS_store s)" using FS_inj [OF wf] .
  show "a \<in> FS_store s \<Longrightarrow> c_AUM (FS_Chonk L) s (AUM_Hash L a) = Ret a"
    using FS_AUM_hit [OF wf] by (simp add: FS_Chonk_def)
  show "h \<notin> AUM_Hash L ` FS_store s \<Longrightarrow> c_AUM (FS_Chonk L) s h = Raise ErrNotExist"
    using FS_AUM_miss [OF wf] by (simp add: FS_Chonk_def)
  show "\<exists>cs. c_ChildAUMs (FS_Chonk L) s h = Ret cs \<and> distinct cs \<and> set cs = {b \<in> FS_store s. AUM_Parent b = Some h}"
    using FS_ChildAUMs_law [OF inv] by (simp add: FS_Chonk_def)
  show "\<exists>hs. c_Heads (FS_Chonk L) s = Ret hs \<and> distinct hs
      \<and> set hs = {a \<in> FS_store s. \<forall>b\<in>FS_store s. AUM_Parent b \<noteq> Some (AUM_Hash L a)}"
    using FS_Heads_law [OF inv] by (simp add: FS_Chonk_def)
  show "inj_on (AUM_Hash L) (FS_store s \<union> set us) \<Longrightarrow>
      \<exists>s'. c_CommitVerifiedAUMs (FS_Chonk L) s us = (Ret (), s') \<and> FS_inv L s' \<and> FS_store s' = FS_store s \<union> set us
        \<and> c_LastActiveAncestor (FS_Chonk L) s' = c_LastActiveAncestor (FS_Chonk L) s"
    using FS_commit_law [OF inv, of us] by (auto simp: FS_Chonk_def FS_LastActiveAncestor_def)
  show "length h = 32 \<Longrightarrow> \<exists>s'. c_SetLastActiveAncestor (FS_Chonk L) s h = (Ret (), s') \<and> FS_inv L s'
      \<and> FS_store s' = FS_store s \<and> c_LastActiveAncestor (FS_Chonk L) s' = Ret (Some h)"
    using inv by (simp add: FS_Chonk_def FS_SetLastActiveAncestor_def FS_LastActiveAncestor_def FS_inv_def fs_last_simps)
qed

interpretation fs: chonk L "FS_Chonk L" "FS_inv L" FS_store for L
  by (rule FS_Chonk_chonk)

lemma FS_inv_empty [simp]: "FS_inv L (emptyFS now)" "FS_store (emptyFS now) = {}"
  by (auto simp: FS_inv_def FS_wf_def FS_store_def emptyFS_def FS_children_def)

end
