(* ===== verification/Tka_Sig.thy ===== *)
theory Tka_Sig
  imports Tka_State
begin

section \<open>Package \<open>tka\<close>: signatures over node keys\<close>

text \<open>
  \<open>src/tka/sig.go\<close>: a node key is authorized by a signature of a trusted key, or by a chain of
  rotation signatures, each made with the wrapping key the nested signature names, that ends in one.
  The record \<open>nks_lib\<close> adds what this part uses of packages outside the repository (the CBOR codec
  of a signature) and of \<open>crypto/ed25519\<close>. A node key is its 32 raw bytes.

  \<open>links\<close> lists a signature and those nested in it; \<open>chain_ok\<close> says without recursion what has to
  hold of that list, and \<open>verifySignature\<close> accepts exactly the signatures for which it holds.
\<close>

definition SigInvalid :: byte where [simp]: "SigInvalid = 0"
definition SigDirect :: byte where [simp]: "SigDirect = 1"
definition SigRotation :: byte where [simp]: "SigRotation = 2"
definition SigCredential :: byte where [simp]: "SigCredential = 3"

datatype NodeKeySignature = NKS (n_SigKind: byte) (n_Pubkey: "byte gslice") (n_KeyID: "byte gslice")
  (n_Signature: "byte gslice") (n_Nested: "NodeKeySignature option") (n_WrappingPubkey: "byte gslice")

record nks_lib = tka_lib +
  cbor_NKS :: "NodeKeySignature \<Rightarrow> bytes"
  cbor_Unmarshal_NKS :: "bytes \<Rightarrow> NodeKeySignature option"
  ed25519_Verify :: "bytes \<Rightarrow> bytes \<Rightarrow> bytes \<Rightarrow> bool"

fun wrappingPublic :: "NodeKeySignature \<Rightarrow> bytes option" where
  "wrappingPublic (NKS kind pub keyID sig nested wp) =
     (if length (els wp) > 0 then Some (els wp)
      else if kind = SigRotation then (case nested of None \<Rightarrow> None | Some n \<Rightarrow> wrappingPublic n)
      else None)"

fun authorizingKeyID :: "NodeKeySignature \<Rightarrow> KeyID outcome" where
  "authorizingKeyID (NKS kind pub keyID sig nested wp) =
     (if kind = SigDirect \<or> kind = SigCredential then
        if length (els keyID) = 0 then Raise (Err ''invalid signature: no keyID present'') else Ret keyID
      else if kind = SigRotation then
        (case nested of
           None \<Rightarrow> Raise (Err ''invalid signature: rotation signature missing nested signature'')
         | Some n \<Rightarrow> authorizingKeyID n)
      else Raise (Err ''unhandled signature type''))"

definition NKS_Serialize :: "'z nks_lib_scheme \<Rightarrow> NodeKeySignature \<Rightarrow> bytes" where
  "NKS_Serialize L s = cbor_NKS L s"

definition NKS_Unserialize :: "'z nks_lib_scheme \<Rightarrow> bytes \<Rightarrow> NodeKeySignature outcome" where
  "NKS_Unserialize L data =
     (case cbor_Unmarshal_NKS L data of None \<Rightarrow> Raise (Err ''cbor'') | Some s \<Rightarrow> Ret s)"

definition NKS_SigHash :: "'z nks_lib_scheme \<Rightarrow> NodeKeySignature \<Rightarrow> bytes" where
  "NKS_SigHash L s =
     (case s of NKS kind pub keyID sig nested wp \<Rightarrow> blake2s_Sum256 L (NKS_Serialize L (NKS kind pub keyID None nested wp)))"

subsection \<open>Node keys\<close>

text \<open>\<open>MarshalBinary\<close> and \<open>UnmarshalBinary\<close> of \<open>key.NodePublic\<close> (\<open>src/types/key/node.go\<close>).\<close>

definition nodePublicBinaryPrefix :: bytes where
  "nodePublicBinaryPrefix = map (\<lambda>c. of_nat (of_char c)) ''np''"

definition NodePublicRawLen :: nat where [simp]: "NodePublicRawLen = 32"

definition NodePublic_MarshalBinary :: "bytes \<Rightarrow> bytes" where
  "NodePublic_MarshalBinary k = nodePublicBinaryPrefix @ k"

definition NodePublic_UnmarshalBinary :: "bytes \<Rightarrow> bytes outcome" where
  "NodePublic_UnmarshalBinary b =
     (if take (length nodePublicBinaryPrefix) b \<noteq> nodePublicBinaryPrefix then Raise (Err ''missing/incorrect type prefix'')
      else if length nodePublicBinaryPrefix + NodePublicRawLen \<noteq> length b then Raise (Err ''incorrect len for NodePublic'')
      else Ret (drop (length nodePublicBinaryPrefix) b))"

text \<open>The zero value of a node key.\<close>

definition zeroNodePublic :: bytes where
  "zeroNodePublic = replicate 32 0"

subsection \<open>Verification\<close>

fun verifySignature :: "'z nks_lib_scheme \<Rightarrow> NodeKeySignature \<Rightarrow> bytes \<Rightarrow> Key \<Rightarrow> unit outcome" where
  "verifySignature L (NKS kind pub keyID sig nested wp) nodeKey key =
     (if kind \<noteq> SigCredential \<and> NodePublic_MarshalBinary nodeKey \<noteq> els pub
      then Raise (Err ''signature does not authorize nodeKey'')
      else let sigHash = NKS_SigHash L (NKS kind pub keyID sig nested wp) in
        if kind = SigRotation then
          (case nested of
             None \<Rightarrow> Raise (Err ''nested signatures must nest a signature'')
           | Some n \<Rightarrow>
               (case wrappingPublic n of
                  None \<Rightarrow> Raise (Err ''missing rotation key'')
                | Some verifyPub \<Rightarrow>
                    if length verifyPub \<noteq> 32 then Raise (Err ''bad rotation key length'')
                    else if \<not> ed25519_Verify L verifyPub sigHash (els sig) then Raise (Err ''invalid signature'')
                    else andThen (if n_SigKind n \<noteq> SigCredential
                                  then wrap ''nested pubkey'' (NodePublic_UnmarshalBinary (els (n_Pubkey n)))
                                  else Ret zeroNodePublic) (\<lambda>nestedPub.
                      wrap ''nested'' (verifySignature L n nestedPub key))))
        else if kind = SigDirect \<or> kind = SigCredential then
          if nested \<noteq> None then Raise (Err ''invalid signature: signatures of this type cannot nest another signature'')
          else if k_Kind key = Key25519 then
            if length (els (k_Public key)) \<noteq> 32 then Raise (Err ''ed25519 key has wrong length'')
            else if ed25519consensus_Verify L (els (k_Public key)) sigHash (els sig) then Ret ()
            else Raise (Err ''invalid signature'')
          else Raise (Err ''unhandled key type'')
        else Raise (Err ''unhandled signature type''))"

subsection \<open>What an accepted signature is\<close>

fun links :: "NodeKeySignature \<Rightarrow> NodeKeySignature list" where
  "links (NKS kind pub keyID sig nested wp) =
     NKS kind pub keyID sig nested wp # (case nested of None \<Rightarrow> [] | Some n \<Rightarrow> links n)"

text \<open>The innermost signature, made with the trusted key.\<close>

definition base_ok :: "'z nks_lib_scheme \<Rightarrow> Key \<Rightarrow> NodeKeySignature \<Rightarrow> bool" where
  "base_ok L key s \<longleftrightarrow> n_SigKind s \<in> {SigDirect, SigCredential}
     \<and> k_Kind key = Key25519 \<and> length (els (k_Public key)) = 32
     \<and> ed25519consensus_Verify L (els (k_Public key)) (NKS_SigHash L s) (els (n_Signature s))"

text \<open>A rotation signature, made with the wrapping key of the signature nested in it.\<close>

definition rotation_ok :: "'z nks_lib_scheme \<Rightarrow> NodeKeySignature \<Rightarrow> NodeKeySignature \<Rightarrow> bool" where
  "rotation_ok L s n \<longleftrightarrow> n_SigKind s = SigRotation
     \<and> (\<exists>pub. wrappingPublic n = Some pub \<and> length pub = 32
            \<and> ed25519_Verify L pub (NKS_SigHash L s) (els (n_Signature s)))"

definition pubkey_ok :: "NodeKeySignature \<Rightarrow> bool" where
  "pubkey_ok s \<longleftrightarrow> n_SigKind s = SigCredential \<or>
     (\<exists>raw. length raw = 32 \<and> els (n_Pubkey s) = nodePublicBinaryPrefix @ raw)"

definition chain_ok :: "'z nks_lib_scheme \<Rightarrow> Key \<Rightarrow> NodeKeySignature list \<Rightarrow> bool" where
  "chain_ok L key ss \<longleftrightarrow> base_ok L key (last ss)
     \<and> (\<forall>i. i + 1 < length ss \<longrightarrow> rotation_ok L (ss ! i) (ss ! (i + 1)) \<and> pubkey_ok (ss ! (i + 1)))"

lemma links_not_Nil [simp]: "links s \<noteq> []"
  by (cases s) simp

lemma links_hd: "links s = s # (case n_Nested s of None \<Rightarrow> [] | Some n \<Rightarrow> links n)"
  by (cases s) simp

lemma chain_ok_single [simp]: "chain_ok L key [s] \<longleftrightarrow> base_ok L key s"
  by (simp add: chain_ok_def)

lemma chain_ok_Cons:
  assumes "ss \<noteq> []"
  shows "chain_ok L key (s # ss) \<longleftrightarrow> rotation_ok L s (hd ss) \<and> pubkey_ok (hd ss) \<and> chain_ok L key ss"
proof -
  have "(\<forall>i. i + 1 < length (s # ss) \<longrightarrow> P i) \<longleftrightarrow> P 0 \<and> (\<forall>i. i + 1 < length ss \<longrightarrow> P (Suc i))" for P
    using assms by (auto simp: length_greater_0_conv gr0_conv_Suc elim: allE [where x = "_ - 1"])
      (metis Suc_less_eq not0_implies_Suc)
  then show ?thesis using assms by (auto simp: chain_ok_def hd_conv_nth)
qed

lemma UnmarshalBinary_Ret:
  "NodePublic_UnmarshalBinary b = Ret raw \<longleftrightarrow> length raw = 32 \<and> b = nodePublicBinaryPrefix @ raw"
proof -
  have "take (length p) b = p \<and> length p + 32 = length b \<and> drop (length p) b = raw \<longleftrightarrow> length raw = 32 \<and> b = p @ raw"
    for p :: bytes by (auto dest: sym [of _ p] simp: append_eq_conv_conj) (metis append_take_drop_id)
  then show ?thesis by (auto simp: NodePublic_UnmarshalBinary_def split: if_splits)
qed

lemma verifySignature_iff:
  "verifySignature L s nodeKey key = Ret () \<longleftrightarrow>
     chain_ok L key (links s) \<and> (n_SigKind s = SigCredential \<or> els (n_Pubkey s) = NodePublic_MarshalBinary nodeKey)"
proof (induction s arbitrary: nodeKey)
  case (NKS kind pub keyID sig nested wp)
  let ?s = "NKS kind pub keyID sig nested wp"
  show ?case
  proof (cases nested)
    case None
    then show ?thesis by (auto simp: base_ok_def Let_def split: if_splits)
  next
    case (Some n)
    have IH: "verifySignature L n nk key = Ret () \<longleftrightarrow>
        chain_ok L key (links n) \<and> (n_SigKind n = SigCredential \<or> els (n_Pubkey n) = NodePublic_MarshalBinary nk)" for nk
      using NKS.IH Some by auto
    have chain: "chain_ok L key (links ?s) \<longleftrightarrow> rotation_ok L ?s n \<and> pubkey_ok n \<and> chain_ok L key (links n)"
      using Some by (simp add: chain_ok_Cons) (metis links_hd list.sel(1))
    show ?thesis unfolding chain
      by (auto simp: Some outcome_simps Let_def IH rotation_ok_def pubkey_ok_def UnmarshalBinary_Ret
          NodePublic_MarshalBinary_def split: if_splits option.splits)
  qed
qed

lemma authorizingKeyID_last:
  "chain_ok L key (links s) \<Longrightarrow>
   authorizingKeyID s = (if els (n_KeyID (last (links s))) = [] then Raise (Err ''invalid signature: no keyID present'')
                         else Ret (n_KeyID (last (links s))))"
proof (induction s)
  case (NKS kind pub keyID sig nested wp)
  then show ?case
    by (cases nested) (auto simp: chain_ok_Cons base_ok_def rotation_ok_def)
qed

text \<open>
  The key that signs a rotation: the wrapping key of the nested signature, or of the nearest one
  below it that names one.
\<close>

lemma wrappingPublic_links:
  "wrappingPublic s = Some pub \<Longrightarrow> pub \<noteq> [] \<and> (\<exists>n\<in>set (links s). els (n_WrappingPubkey n) = pub)"
proof (induction s)
  case (NKS kind pub' keyID sig nested wp)
  then show ?case by (cases nested) (auto split: if_splits)
qed

end
