(* ===== verification/Tka_Authority.thy ===== *)
theory Tka_Authority
  imports Tka_Chonk Tka_Sig
begin

section \<open>Package \<open>tka\<close>: the key authority\<close>

text \<open>
  \<open>src/tka/tka.go\<close>: how the chain of update messages in a storage gives the state of the authority,
  and how new messages are taken in. \<open>C\<close> is the storage's implementation and \<open>s\<close> its state. Every
  loop the code bounds by an iteration limit is a recursion on that limit, so these definitions are
  total and "limit exceeded" is an error like any other.

  \<open>sort.Slice\<close> is an insertion sort here. The order of elements the comparison does not tell apart is
  unspecified in Go; the comparisons used end in a comparison of hashes, so there are none when no two
  messages have the same hash.
\<close>

subsection \<open>Library functions\<close>

fun insertBy :: "('a \<Rightarrow> 'a \<Rightarrow> bool) \<Rightarrow> 'a \<Rightarrow> 'a list \<Rightarrow> 'a list" where
  "insertBy lt x [] = [x]"
| "insertBy lt x (y # ys) = (if lt y x then y # insertBy lt x ys else x # y # ys)"

definition sortSlice :: "('a \<Rightarrow> 'a \<Rightarrow> bool) \<Rightarrow> 'a list \<Rightarrow> 'a list" where
  "sortSlice lt xs = foldr (insertBy lt) xs []"

text \<open>\<open>bytes.Compare(a, b) < 0\<close>.\<close>

definition bytesLess :: "bytes \<Rightarrow> bytes \<Rightarrow> bool" where
  "bytesLess a b = ord_class.lexordp a b"

text \<open>A loop over a slice that stops at the first error or panic.\<close>

fun mapO :: "('a \<Rightarrow> 'b outcome) \<Rightarrow> 'a list \<Rightarrow> 'b list outcome" where
  "mapO f [] = Ret []"
| "mapO f (x # xs) = andThen (f x) (\<lambda>y. andThen (mapO f xs) (\<lambda>ys. Ret (y # ys)))"

subsection \<open>Types\<close>

definition maxScanIterations :: nat where "maxScanIterations = 2000"

record Authority =
  au_head :: AUM
  au_oldestAncestor :: AUM
  au_state :: State

definition Authority_Clone :: "Authority \<Rightarrow> Authority" where
  "Authority_Clone a = \<lparr>au_head = au_head a, au_oldestAncestor = au_oldestAncestor a, au_state = State_Clone (au_state a)\<rparr>"

record chain =
  ch_Oldest :: AUM
  ch_Head :: AUM
  ch_state :: State
  ch_chainsThroughActive :: bool

subsection \<open>Candidates\<close>

text \<open>One step back of a candidate; the flag says whether there was one.\<close>

definition candidate_step ::
    "'z tka_lib_scheme \<Rightarrow> ('s, 'y) Chonk_scheme \<Rightarrow> 's \<Rightarrow> AUMHash option \<Rightarrow> chain \<Rightarrow> (bool \<times> chain) outcome" where
  "candidate_step L C s lastKnownOldest c =
     (case AUM_Parent (ch_Oldest c) of
        None \<Rightarrow> Ret (False, c)
      | Some parent \<Rightarrow>
          (case c_AUM C s parent of
             Raise e \<Rightarrow> if e = ErrNotExist then Ret (False, c) else Raise (Err ''reading parent'')
           | Panic \<Rightarrow> Panic
           | Ret p \<Rightarrow>
               let c1 = c\<lparr>ch_Oldest := p\<rparr> in
               Ret (True, if lastKnownOldest = Some (AUM_Hash L p) then c1\<lparr>ch_chainsThroughActive := True\<rparr> else c1)))"

fun candidates_loop ::
    "'z tka_lib_scheme \<Rightarrow> ('s, 'y) Chonk_scheme \<Rightarrow> 's \<Rightarrow> AUMHash option \<Rightarrow> nat \<Rightarrow> chain list \<Rightarrow> chain list outcome" where
  "candidates_loop L C s lko 0 cands = Raise (Err ''iteration limit exceeded'')"
| "candidates_loop L C s lko (Suc n) cands =
     andThen (mapO (candidate_step L C s lko) cands) (\<lambda>rs.
       if list_ex fst rs then candidates_loop L C s lko n (map snd rs) else Ret (map snd rs))"

definition computeChainCandidates ::
    "'z tka_lib_scheme \<Rightarrow> ('s, 'y) Chonk_scheme \<Rightarrow> 's \<Rightarrow> AUMHash option \<Rightarrow> nat \<Rightarrow> chain list outcome" where
  "computeChainCandidates L C s lastKnownOldest maxIter =
     andThen (wrap ''reading heads'' (c_Heads C s)) (\<lambda>heads.
       let candidates = map (\<lambda>h. \<lparr>ch_Oldest = h, ch_Head = h, ch_state = zeroState, ch_chainsThroughActive = False\<rparr>) heads;
           sorted = sortSlice (\<lambda>a b. bytesLess (AUM_Hash L (ch_Oldest a)) (AUM_Hash L (ch_Oldest b))) candidates
       in candidates_loop L C s lastKnownOldest maxIter sorted)"

subsection \<open>Fork resolution\<close>

text \<open>
  The comparison of the fork resolution: \<open>a\<close> before \<open>b\<close>, both with their weights. Every candidate is
  compared at least once when there are two or more, so each weight is computed and a panic of
  \<open>Weight\<close> surfaces.
\<close>

definition forkLess :: "'z tka_lib_scheme \<Rightarrow> u64 \<times> AUM \<Rightarrow> u64 \<times> AUM \<Rightarrow> bool" where
  "forkLess L j i =
     (if fst i \<noteq> fst j then fst i < fst j
      else if a_MessageKind (snd i) \<noteq> a_MessageKind (snd j)
              \<and> (a_MessageKind (snd i) = AUMRemoveKey \<or> a_MessageKind (snd j) = AUMRemoveKey)
      then a_MessageKind (snd j) = AUMRemoveKey
      else bytesLess (AUM_Hash L (snd j)) (AUM_Hash L (snd i)))"

definition pickNextAUM :: "'z tka_lib_scheme \<Rightarrow> State \<Rightarrow> AUM list \<Rightarrow> AUM outcome" where
  "pickNextAUM L st candidates =
     (case candidates of
        [] \<Rightarrow> Panic
      | [a] \<Rightarrow> Ret a
      | _ \<Rightarrow> andThen (mapO (\<lambda>a. andThen (AUM_Weight a st) (\<lambda>w. Ret (w, a))) candidates) (\<lambda>ws.
          Ret (snd (hd (sortSlice (forkLess L) ws)))))"

definition advanceByPrimary :: "'z tka_lib_scheme \<Rightarrow> State \<Rightarrow> AUM list \<Rightarrow> (AUM option \<times> State) outcome" where
  "advanceByPrimary L st candidates =
     (if length candidates = 0 then Ret (None, st)
      else andThen (pickNextAUM L st candidates) (\<lambda>aum.
        andThen (wrap ''advancing state'' (applyVerifiedAUM L st aum)) (\<lambda>st'. Ret (Some aum, st'))))"

subsection \<open>Fast forward\<close>

text \<open>
  \<open>done\<close> is a closure of the caller; what it changes outside is the accumulator it is given and
  returns. The accumulator is returned beside the outcome, because it keeps its value on an error.
\<close>

type_synonym 'acc stopper = "'acc \<Rightarrow> AUM \<Rightarrow> State \<Rightarrow> bool \<times> 'acc"
type_synonym advancer = "State \<Rightarrow> AUM list \<Rightarrow> (AUM option \<times> State) outcome"

fun ff_loop ::
    "'z tka_lib_scheme \<Rightarrow> ('s, 'y) Chonk_scheme \<Rightarrow> 's \<Rightarrow> advancer \<Rightarrow> 'acc stopper \<Rightarrow> nat \<Rightarrow> AUM \<Rightarrow> State \<Rightarrow> 'acc \<Rightarrow>
     (AUM \<times> State) outcome \<times> 'acc" where
  "ff_loop L C s adv dn 0 curs st acc = (Raise (Err ''iteration limit exceeded''), acc)"
| "ff_loop L C s adv dn (Suc n) curs st acc =
     (let (fin, acc') = dn acc curs st in
      if fin then (Ret (curs, st), acc')
      else case andThen (wrap ''getting children'' (c_ChildAUMs C s (AUM_Hash L curs))) (\<lambda>children. wrap ''advance'' (adv st children)) of
          Ret (None, _) \<Rightarrow> (Ret (curs, st), acc')
        | Ret (Some nxt, st') \<Rightarrow> ff_loop L C s adv dn n nxt st' acc'
        | Raise e \<Rightarrow> (Raise e, acc')
        | Panic \<Rightarrow> (Panic, acc'))"

definition fastForwardWithAdvancer ::
    "'z tka_lib_scheme \<Rightarrow> ('s, 'y) Chonk_scheme \<Rightarrow> 's \<Rightarrow> nat \<Rightarrow> State \<Rightarrow> advancer \<Rightarrow> 'acc stopper \<Rightarrow> 'acc \<Rightarrow>
     (AUM \<times> State) outcome \<times> 'acc" where
  "fastForwardWithAdvancer L C s maxIter startState adv dn acc =
     (case s_LastAUMHash startState of
        None \<Rightarrow> (Raise (Err ''invalid initial state''), acc)
      | Some h \<Rightarrow>
          (case wrap ''reading next'' (c_AUM C s h) of
             Ret nextAUM \<Rightarrow> ff_loop L C s adv dn maxIter nextAUM startState acc
           | Raise e \<Rightarrow> (Raise e, acc)
           | Panic \<Rightarrow> (Panic, acc)))"

definition fastForward ::
    "'z tka_lib_scheme \<Rightarrow> ('s, 'y) Chonk_scheme \<Rightarrow> 's \<Rightarrow> nat \<Rightarrow> State \<Rightarrow> 'acc stopper \<Rightarrow> 'acc \<Rightarrow> (AUM \<times> State) outcome \<times> 'acc" where
  "fastForward L C s maxIter startState dn acc =
     fastForwardWithAdvancer L C s maxIter startState (advanceByPrimary L) dn acc"

subsection \<open>The state at a message\<close>

text \<open>The walk back to a checkpoint or the first message: the state there and the hashes on the way.\<close>

fun walk_back ::
    "'z tka_lib_scheme \<Rightarrow> ('s, 'y) Chonk_scheme \<Rightarrow> 's \<Rightarrow> nat \<Rightarrow> AUM \<Rightarrow> AUMHash list \<Rightarrow> (State \<times> AUMHash list) outcome" where
  "walk_back L C s 0 curs path = Raise (Err ''iteration limit exceeded'')"
| "walk_back L C s (Suc n) curs path =
     (let path' = AUM_Hash L curs # path in
      if a_MessageKind curs = AUMCheckpoint then
        (case a_State curs of None \<Rightarrow> Panic | Some st \<Rightarrow> Ret (cloneForUpdate L st curs, path'))
      else case AUM_Parent curs of
          None \<Rightarrow>
            if a_MessageKind curs = AUMNoOp \<or> a_MessageKind curs = AUMAddKey
            then andThen (wrap ''applying genesis'' (applyVerifiedAUM L zeroState curs)) (\<lambda>st. Ret (st, path'))
            else Raise (Err ''invalid genesis update'')
        | Some parent \<Rightarrow>
            andThen (wrap ''reading parent'' (c_AUM C s parent)) (\<lambda>curs'. walk_back L C s n curs' path'))"

definition path_advancer :: "'z tka_lib_scheme \<Rightarrow> AUMHash list \<Rightarrow> advancer" where
  "path_advancer L path st candidates =
     (case List.find (\<lambda>c. AUM_Hash L c \<in> set path) candidates of
        Some c \<Rightarrow> andThen (wrap ''advancing state'' (applyVerifiedAUM L st c)) (\<lambda>st'. Ret (Some c, st'))
      | None \<Rightarrow> Raise (Err ''no candidate matching path''))"

definition computeStateAt ::
    "'z tka_lib_scheme \<Rightarrow> ('s, 'y) Chonk_scheme \<Rightarrow> 's \<Rightarrow> nat \<Rightarrow> AUMHash \<Rightarrow> State outcome" where
  "computeStateAt L C s maxIter wantHash =
     andThen (c_AUM C s wantHash) (\<lambda>topAUM.
       andThen (walk_back L C s (maxIter + 1) topAUM []) (\<lambda>(st, path).
         andThen (fst (fastForwardWithAdvancer L C s maxIter st (path_advancer L path)
                    (\<lambda>acc curs _. (AUM_Hash L curs = wantHash, acc)) ())) (\<lambda>(_, st').
           case s_LastAUMHash st' of
             None \<Rightarrow> Panic
           | Some h \<Rightarrow> if h \<noteq> wantHash then Raise (Err ''unexpected fastForward outcome'') else Ret st')))"

subsection \<open>The active chain\<close>

definition ancestors_of :: "'z tka_lib_scheme \<Rightarrow> chain list \<Rightarrow> (AUMHash \<times> bool) list" where
  "ancestors_of L chs = foldl (\<lambda>m c. AList.update (AUM_Hash L (ch_Oldest c)) (ch_chainsThroughActive c) m) [] chs"

definition computeActiveAncestor :: "'z tka_lib_scheme \<Rightarrow> chain list \<Rightarrow> AUMHash outcome" where
  "computeActiveAncestor L chs =
     (let ancestors = ancestors_of L chs in
      if length ancestors = 1 then Ret (fst (hd ancestors))
      else case List.find snd ancestors of
          Some (k, _) \<Rightarrow> Ret k
        | None \<Rightarrow> Raise (Err ''multiple distinct chains''))"

definition computeActiveChain ::
    "'z tka_lib_scheme \<Rightarrow> ('s, 'y) Chonk_scheme \<Rightarrow> 's \<Rightarrow> AUMHash option \<Rightarrow> nat \<Rightarrow> chain outcome" where
  "computeActiveChain L C s lastKnownOldest maxIter =
     andThen (wrap ''computing candidates'' (computeChainCandidates L C s lastKnownOldest maxIter)) (\<lambda>chs.
       andThen (wrap ''computing ancestor'' (computeActiveAncestor L chs)) (\<lambda>oldestHash.
         andThen (c_AUM C s oldestHash) (\<lambda>ancestor.
           andThen (wrap ''bootstrapping state'' (computeStateAt L C s maxIter oldestHash)) (\<lambda>st.
             andThen (wrap ''fast forward'' (fst (fastForward L C s maxIter st (\<lambda>acc _ _. (False, acc)) ()))) (\<lambda>(head, st').
               Ret \<lparr>ch_Oldest = ancestor, ch_Head = head, ch_state = st', ch_chainsThroughActive = False\<rparr>)))))"

subsection \<open>Verification of messages\<close>

definition checkParent :: "AUM \<Rightarrow> State \<Rightarrow> unit outcome" where
  "checkParent aum st =
     (case AUM_Parent aum of
        None \<Rightarrow> Raise (Err ''aum has no parent'')
      | Some parent \<Rightarrow>
          (case s_LastAUMHash st of
             None \<Rightarrow> Raise (Err ''cannot check update parent hash against a state with no previous AUM'')
           | Some h \<Rightarrow> if h \<noteq> parent then Raise (Err ''aum cannot be applied to this state'') else Ret ()))"

fun verify_sigs :: "'z tka_lib_scheme \<Rightarrow> State \<Rightarrow> bytes \<Rightarrow> Signature list \<Rightarrow> unit outcome" where
  "verify_sigs L st sigHash [] = Ret ()"
| "verify_sigs L st sigHash (sig # sigs) =
     andThen (wrap ''bad keyID on signature'' (GetKey st (sig_KeyID sig))) (\<lambda>key.
       andThen (wrap ''signature'' (signatureVerify L sig sigHash key)) (\<lambda>_. verify_sigs L st sigHash sigs))"

definition aumVerify :: "'z tka_lib_scheme \<Rightarrow> AUM \<Rightarrow> State \<Rightarrow> bool \<Rightarrow> unit outcome" where
  "aumVerify L aum st isGenesisAUM =
     andThen (wrap ''invalid'' (AUM_StaticValidate aum)) (\<lambda>_.
       andThen (if \<not> isGenesisAUM then checkParent aum st else Ret ()) (\<lambda>_.
         if length (els (a_Signatures aum)) = 0 then Raise (Err ''unsigned AUM'')
         else verify_sigs L st (AUM_SigHash L aum) (els (a_Signatures aum))))"

subsection \<open>The authority\<close>

definition Authority_Head :: "Authority \<Rightarrow> AUMHash outcome" where
  "Authority_Head a = (case s_LastAUMHash (au_state a) of None \<Rightarrow> Panic | Some h \<Rightarrow> Ret h)"

definition Open :: "'z tka_lib_scheme \<Rightarrow> ('s, 'y) Chonk_scheme \<Rightarrow> 's \<Rightarrow> Authority outcome" where
  "Open L C s =
     andThen (wrap ''reading last ancestor'' (c_LastActiveAncestor C s)) (\<lambda>a.
       andThen (wrap ''active chain'' (computeActiveChain L C s a maxScanIterations)) (\<lambda>c.
         Ret \<lparr>au_head = ch_Head c, au_oldestAncestor = ch_Oldest c, au_state = ch_state c\<rparr>))"

definition Bootstrap :: "'z tka_lib_scheme \<Rightarrow> ('s, 'y) Chonk_scheme \<Rightarrow> 's \<Rightarrow> AUM \<Rightarrow> Authority outcome \<times> 's" where
  "Bootstrap L C s bootstrap =
     (case andThen (wrap ''reading heads'' (c_Heads C s)) (\<lambda>heads.
            if length heads \<noteq> 0 then Raise (Err ''tailchonk is not empty'')
            else if a_MessageKind bootstrap \<noteq> AUMCheckpoint then Raise (Err ''bootstrap AUMs must be checkpoint messages'')
            else case a_State bootstrap of
                None \<Rightarrow> Raise (Err ''bootstrap AUM is missing state'')
              | Some st \<Rightarrow> wrap ''invalid bootstrap'' (aumVerify L bootstrap st True)) of
        Ret _ \<Rightarrow>
          (let (r1, s1) = c_CommitVerifiedAUMs C s [bootstrap] in
           case wrap ''commit'' r1 of
             Ret _ \<Rightarrow>
               (let (r2, s2) = c_SetLastActiveAncestor C s1 (AUM_Hash L bootstrap) in
                case wrap ''set ancestor'' r2 of
                  Ret _ \<Rightarrow> (Open L C s2, s2)
                | Raise e \<Rightarrow> (Raise e, s2)
                | Panic \<Rightarrow> (Panic, s2))
           | Raise e \<Rightarrow> (Raise e, s1)
           | Panic \<Rightarrow> (Panic, s1))
      | Raise e \<Rightarrow> (Raise e, s)
      | Panic \<Rightarrow> (Panic, s))"

text \<open>A signer is a function from the digest to signatures. The genesis message is returned too.\<close>

definition Create ::
    "'z tka_lib_scheme \<Rightarrow> ('s, 'y) Chonk_scheme \<Rightarrow> 's \<Rightarrow> State \<Rightarrow> (bytes \<Rightarrow> Signature list outcome) \<Rightarrow>
     (Authority outcome \<times> AUM) \<times> 's" where
  "Create L C s st signer =
     (let genesis = zeroAUM\<lparr>a_MessageKind := AUMCheckpoint, a_State := Some st\<rparr> in
      case wrap ''invalid state'' (AUM_StaticValidate genesis) of
        Ret _ \<Rightarrow>
          (case wrap ''signing failed'' (signer (AUM_SigHash L genesis)) of
             Ret sigs \<Rightarrow>
               (let genesis' = genesis\<lparr>a_Signatures := (if sigs = [] then None else Some sigs)\<rparr>;
                    (a, s') = Bootstrap L C s genesis'
                in ((a, genesis'), s'))
           | Raise e \<Rightarrow> ((Raise e, zeroAUM), s)
           | Panic \<Rightarrow> ((Panic, zeroAUM), s))
      | Raise e \<Rightarrow> ((Raise e, zeroAUM), s)
      | Panic \<Rightarrow> ((Panic, zeroAUM), s))"

definition ValidDisablement :: "'z tka_lib_scheme \<Rightarrow> Authority \<Rightarrow> bytes \<Rightarrow> bool" where
  "ValidDisablement L a secret = checkDisablement L (au_state a) secret"

subsection \<open>Taking in updates\<close>

text \<open>The local variables of the loop of \<open>InformIdempotent\<close>.\<close>

record inform =
  in_stateAt :: "AUMHash \<Rightarrow> State option"
  in_toCommit :: "AUM list"
  in_prevHash :: AUMHash
  in_isHeadChain :: bool

definition inform_step ::
    "'z tka_lib_scheme \<Rightarrow> ('s, 'y) Chonk_scheme \<Rightarrow> 's \<Rightarrow> inform \<Rightarrow> AUM \<Rightarrow> inform outcome" where
  "inform_step L C s v update =
     (let hash = AUM_Hash L update in
      case c_AUM C s hash of
        Panic \<Rightarrow> Panic
      | Ret _ \<Rightarrow> Ret (v\<lparr>in_isHeadChain := False\<rparr>)
      | Raise _ \<Rightarrow>
          (case AUM_Parent update of
             None \<Rightarrow> Raise (Err ''update: missing parent'')
           | Some parent \<Rightarrow>
               andThen (case in_stateAt v parent of
                          Some st \<Rightarrow> Ret (st, in_stateAt v)
                        | None \<Rightarrow> andThen (wrap ''update computing state'' (computeStateAt L C s maxScanIterations parent))
                                   (\<lambda>st. Ret (st, (in_stateAt v)(parent \<mapsto> st)))) (\<lambda>(st, stateAt).
                 andThen (wrap ''update invalid'' (aumVerify L update st False)) (\<lambda>_.
                   andThen (wrap ''update cannot be applied'' (applyVerifiedAUM L st update)) (\<lambda>st'.
                     Ret \<lparr>in_stateAt = stateAt(hash \<mapsto> st'), in_toCommit = in_toCommit v @ [update], in_prevHash = hash,
                          in_isHeadChain = (in_isHeadChain v \<and> parent = in_prevHash v)\<rparr>)))))"

fun inform_loop ::
    "'z tka_lib_scheme \<Rightarrow> ('s, 'y) Chonk_scheme \<Rightarrow> 's \<Rightarrow> inform \<Rightarrow> AUM list \<Rightarrow> inform outcome" where
  "inform_loop L C s v [] = Ret v"
| "inform_loop L C s v (u # us) = andThen (inform_step L C s v u) (\<lambda>v'. inform_loop L C s v' us)"

definition InformIdempotent ::
    "'z tka_lib_scheme \<Rightarrow> ('s, 'y) Chonk_scheme \<Rightarrow> 's \<Rightarrow> Authority \<Rightarrow> AUM list \<Rightarrow> Authority outcome \<times> 's" where
  "InformIdempotent L C s a updates =
     (if length updates = 0 then (Raise (Err ''inform called with empty slice''), s)
      else case andThen (Authority_Head a) (\<lambda>head.
             inform_loop L C s \<lparr>in_stateAt = [head \<mapsto> au_state a], in_toCommit = [], in_prevHash = head, in_isHeadChain = True\<rparr> updates) of
          Raise e \<Rightarrow> (Raise e, s)
        | Panic \<Rightarrow> (Panic, s)
        | Ret v \<Rightarrow>
            (let (r, s') = c_CommitVerifiedAUMs C s (in_toCommit v) in
             case wrap ''commit'' r of
               Raise e \<Rightarrow> (Raise e, s')
             | Panic \<Rightarrow> (Panic, s')
             | Ret _ \<Rightarrow>
                 if in_isHeadChain v then
                   (Ret \<lparr>au_head = last updates, au_oldestAncestor = au_oldestAncestor a,
                         au_state = (case in_stateAt v (in_prevHash v) of None \<Rightarrow> zeroState | Some st \<Rightarrow> st)\<rparr>, s')
                 else
                   (andThen (wrap ''recomputing active chain''
                        (computeActiveChain L C s' (Some (AUM_Hash L (au_oldestAncestor a))) maxScanIterations)) (\<lambda>c.
                      Ret \<lparr>au_head = ch_Head c, au_oldestAncestor = ch_Oldest c, au_state = ch_state c\<rparr>), s')))"

text \<open>\<open>Inform\<close> replaces the authority; on an error it is left as it was.\<close>

definition Inform ::
    "'z tka_lib_scheme \<Rightarrow> ('s, 'y) Chonk_scheme \<Rightarrow> 's \<Rightarrow> Authority \<Rightarrow> AUM list \<Rightarrow> (unit outcome \<times> Authority) \<times> 's" where
  "Inform L C s a updates =
     (let (r, s') = InformIdempotent L C s a updates in
      ((case r of Ret a' \<Rightarrow> (Ret (), a') | Raise e \<Rightarrow> (Raise e, a) | Panic \<Rightarrow> (Panic, a)), s'))"

subsection \<open>Queries\<close>

definition NodeKeyAuthorized :: "'z nks_lib_scheme \<Rightarrow> Authority \<Rightarrow> bytes \<Rightarrow> bytes \<Rightarrow> unit outcome" where
  "NodeKeyAuthorized L a nodeKey nodeKeySignature =
     andThen (wrap ''unserialize'' (NKS_Unserialize L nodeKeySignature)) (\<lambda>decoded.
       if n_SigKind decoded = SigCredential then Raise (Err ''credential signatures cannot authorize nodes on their own'')
       else andThen (authorizingKeyID decoded) (\<lambda>kID.
         andThen (wrap ''key'' (GetKey (au_state a) kID)) (\<lambda>key. verifySignature L decoded nodeKey key)))"

definition KeyTrusted :: "Authority \<Rightarrow> KeyID \<Rightarrow> bool" where
  "KeyTrusted a keyID = succeeds (GetKey (au_state a) keyID)"

definition Authority_Keys :: "Authority \<Rightarrow> Key list" where
  "Authority_Keys a = map Key_Clone (els (s_Keys (au_state a)))"

definition StateIDs :: "Authority \<Rightarrow> u64 \<times> u64" where
  "StateIDs a = (s_StateID1 (au_state a), s_StateID2 (au_state a))"

subsection \<open>Retroactive revocation\<close>

text \<open>
  The search for a message to fork from has no iteration limit: not returning is \<open>None\<close>.
\<close>

partial_function (option) rewrite_loop ::
    "'z tka_lib_scheme \<Rightarrow> ('s, 'y) Chonk_scheme \<Rightarrow> 's \<Rightarrow> AUMHash \<Rightarrow> KeyID list \<Rightarrow> KeyID \<Rightarrow> AUMHash \<Rightarrow> AUMHash outcome option" where
  [code]: "rewrite_loop L C s oldest removeKeys ourKey cursor =
     (if cursor = oldest then Some (Ret cursor)
      else case c_AUM C s cursor of
          Raise e \<Rightarrow> Some (Raise (Err ''reading AUM''))
        | Panic \<Rightarrow> Some Panic
        | Ret aum \<Rightarrow>
            (case computeStateAt L C s maxScanIterations cursor of
               Raise e \<Rightarrow> Some (Raise (Err ''computing state''))
             | Panic \<Rightarrow> Some Panic
             | Ret st \<Rightarrow>
                 if \<not> list_ex (\<lambda>k. succeeds (GetKey st k)) removeKeys \<and> succeeds (GetKey st ourKey) then Some (Ret cursor)
                 else case AUM_Parent aum of
                     None \<Rightarrow> Some (Ret cursor)
                   | Some parent \<Rightarrow> rewrite_loop L C s oldest removeKeys ourKey parent))"

definition findParentForRewrite ::
    "'z tka_lib_scheme \<Rightarrow> ('s, 'y) Chonk_scheme \<Rightarrow> 's \<Rightarrow> Authority \<Rightarrow> KeyID list \<Rightarrow> KeyID \<Rightarrow> AUMHash outcome option" where
  "findParentForRewrite L C s a removeKeys ourKey =
     (case Authority_Head a of
        Ret cursor \<Rightarrow> rewrite_loop L C s (AUM_Hash L (au_oldestAncestor a)) removeKeys ourKey cursor
      | Raise e \<Rightarrow> Some (Raise e)
      | Panic \<Rightarrow> Some Panic)"

text \<open>Removing the keys to revoke, one after the other, from the copy of the state.\<close>

fun revoke_loop :: "KeyID list \<Rightarrow> Key gslice \<Rightarrow> Key gslice outcome" where
  "revoke_loop [] ks = Ret ks"
| "revoke_loop (k # rest) ks =
     andThen (wrap ''computing keyID'' (find_loop k 0 (els ks))) (\<lambda>idx.
       revoke_loop rest (case idx of None \<Rightarrow> ks | Some i \<Rightarrow> Some (take i (els ks) @ drop (i + 1) (els ks))))"

text \<open>The forking message and the error of its validation are returned together.\<close>

definition make_fork :: "State \<Rightarrow> KeyID list \<Rightarrow> AUMHash \<Rightarrow> (AUM \<times> unit outcome) outcome" where
  "make_fork st0 removeKeys parent =
     (let st = State_Clone st0 in
      andThen (revoke_loop removeKeys (s_Keys st)) (\<lambda>ks.
        if length (els ks) = 0 then Raise (Err ''cannot revoke all trusted keys'')
        else let st' = st\<lparr>s_Keys := ks, s_LastAUMHash := None\<rparr>;
                 forkingAUM = zeroAUM\<lparr>a_MessageKind := AUMCheckpoint, a_State := Some st', a_PrevAUMHash := Some parent\<rparr>
             in Ret (forkingAUM, AUM_StaticValidate forkingAUM)))"

definition MakeRetroactiveRevocation ::
    "'z tka_lib_scheme \<Rightarrow> ('s, 'y) Chonk_scheme \<Rightarrow> 's \<Rightarrow> Authority \<Rightarrow> KeyID list \<Rightarrow> KeyID \<Rightarrow> AUMHash \<Rightarrow>
     (AUM \<times> unit outcome) outcome option" where
  "MakeRetroactiveRevocation L C s a removeKeys ourKey forkFrom =
     (if forkFrom = zeroHash then
        if \<not> list_ex (\<lambda>k. succeeds (GetKey (au_state a) k)) removeKeys
        then Some (Raise (Err ''no provided key is currently trusted''))
        else (case findParentForRewrite L C s a removeKeys ourKey of
            None \<Rightarrow> None
          | Some r \<Rightarrow> Some (andThen (wrap ''finding parent'' r) (\<lambda>p. make_fork (au_state a) removeKeys p)))
      else Some (make_fork (au_state a) removeKeys forkFrom))"

end
