(* ===== verification/Tka_Chain.thy ===== *)
theory Tka_Chain
  imports Tka_Authority
begin

section \<open>Package \<open>tka\<close>: fork resolution and the state of a chain\<close>

text \<open>
  Two facts the agreement of all nodes rests on. Fork resolution picks a message that depends only on
  the set of candidates, not on the order in which a storage lists them. The state at a message is the
  replay of the one path that leads to it from the nearest checkpoint or the first message; the
  storage's other branches have no influence.
\<close>

subsection \<open>Sorting\<close>

lemma hd_sortSlice:
  "hd (sortSlice lt (x # xs)) = (if xs = [] then x else if lt (hd (sortSlice lt xs)) x then hd (sortSlice lt xs) else x)"
proof -
  have ne: "sortSlice lt xs \<noteq> []" if "xs \<noteq> []"
  proof -
    have "insertBy lt y ys \<noteq> []" for y ys by (cases ys) auto
    then show ?thesis using that by (cases xs) (auto simp: sortSlice_def)
  qed
  have step: "sortSlice lt (x # xs) = insertBy lt x (sortSlice lt xs)" by (simp add: sortSlice_def)
  show ?thesis
  proof (cases xs)
    case Nil
    then show ?thesis by (simp add: sortSlice_def)
  next
    case Cons
    then show ?thesis using ne step by (cases "sortSlice lt xs") auto
  qed
qed

lemma hd_sortSlice_least:
  assumes trans: "\<And>a b c. lt a b \<Longrightarrow> lt b c \<Longrightarrow> lt a c"
    and total: "\<And>a b. a \<in> set xs \<Longrightarrow> b \<in> set xs \<Longrightarrow> a \<noteq> b \<Longrightarrow> lt a b \<or> lt b a"
    and "xs \<noteq> []"
  shows "hd (sortSlice lt xs) \<in> set xs \<and> (\<forall>y\<in>set xs. y \<noteq> hd (sortSlice lt xs) \<longrightarrow> lt (hd (sortSlice lt xs)) y)"
  using assms(2,3)
proof (induction xs)
  case (Cons x xs)
  show ?case
  proof (cases "xs = []")
    case True
    then show ?thesis by (simp add: hd_sortSlice)
  next
    case False
    let ?h = "hd (sortSlice lt xs)"
    have IH: "?h \<in> set xs" "\<forall>y\<in>set xs. y \<noteq> ?h \<longrightarrow> lt ?h y" using Cons False by auto
    show ?thesis
    proof (cases "lt ?h x")
      case True
      then have "hd (sortSlice lt (x # xs)) = ?h" using False by (simp add: hd_sortSlice)
      then show ?thesis using True IH by auto
    next
      case nlt: False
      then have hd: "hd (sortSlice lt (x # xs)) = x" using False by (simp add: hd_sortSlice)
      have "lt x y" if "y \<in> set xs" "y \<noteq> x" for y
      proof (cases "x = ?h")
        case True
        then show ?thesis using IH that by auto
      next
        case neq: False
        then have "lt x ?h" using Cons.prems(1) [of x ?h] IH nlt by auto
        then show ?thesis using IH that trans by (cases "y = ?h") auto
      qed
      then show ?thesis using hd by auto
    qed
  qed
qed simp

lemma mapO_Ret: "(\<And>x. x \<in> set xs \<Longrightarrow> f x = Ret (g x)) \<Longrightarrow> mapO f xs = Ret (map g xs)"
  by (induction xs) auto

lemma mapO_no_Panic: "(\<And>x. x \<in> set xs \<Longrightarrow> f x \<noteq> Panic) \<Longrightarrow> mapO f xs \<noteq> Panic"
  by (induction xs) (auto simp: panic_simps)

subsection \<open>The preference among candidates\<close>

lemma bytesLess_irrefl [simp]: "\<not> bytesLess a a"
  by (simp add: bytesLess_def lexordp_irreflexive)

lemma bytesLess_trans: "bytesLess a b \<Longrightarrow> bytesLess b c \<Longrightarrow> bytesLess a c"
  unfolding bytesLess_def by (rule lexordp_trans) auto

lemma bytesLess_total: "a \<noteq> b \<Longrightarrow> bytesLess a b \<or> bytesLess b a"
  unfolding bytesLess_def using lexordp_linear [of a b] by auto

definition weight :: "State \<Rightarrow> AUM \<Rightarrow> u64" where
  "weight st a = of_nat (\<Sum>i\<in>signers a. votes_of st i)"

text \<open>
  \<open>a\<close> is preferred to \<open>b\<close>: it has more weight; or equal weight and it alone removes a key; or both or
  none do and its hash is lower.
\<close>

definition preferred :: "'z tka_lib_scheme \<Rightarrow> State \<Rightarrow> AUM \<Rightarrow> AUM \<Rightarrow> bool" where
  "preferred L st a b \<longleftrightarrow> weight st b < weight st a \<or>
     weight st b = weight st a \<and>
       (a_MessageKind a = AUMRemoveKey \<and> a_MessageKind b \<noteq> AUMRemoveKey \<or>
        (a_MessageKind a = AUMRemoveKey \<longleftrightarrow> a_MessageKind b = AUMRemoveKey) \<and> bytesLess (AUM_Hash L a) (AUM_Hash L b))"

lemma forkLess_preferred: "forkLess L (weight st a, a) (weight st b, b) \<longleftrightarrow> preferred L st a b"
  by (auto simp: forkLess_def preferred_def)

lemma forkLess_trans: "forkLess L a b \<Longrightarrow> forkLess L b c \<Longrightarrow> forkLess L a c"
  unfolding forkLess_def by (auto split: if_splits intro: bytesLess_trans)

lemma forkLess_total: "AUM_Hash L (snd a) \<noteq> AUM_Hash L (snd b) \<Longrightarrow> forkLess L a b \<or> forkLess L b a"
  using bytesLess_total [of "AUM_Hash L (snd a)" "AUM_Hash L (snd b)"] unfolding forkLess_def by auto

lemma preferred_asym: "preferred L st a b \<Longrightarrow> \<not> preferred L st b a"
  using forkLess_trans [of L "(weight st a, a)" "(weight st b, b)" "(weight st a, a)"]
  by (auto simp: forkLess_preferred) (simp add: preferred_def)

lemma pickNextAUM_weights:
  assumes "state_ok st" "\<forall>a\<in>set cs. AUM_StaticValidate a = Ret ()" "2 \<le> length cs"
  shows "pickNextAUM L st cs = Ret (snd (hd (sortSlice (forkLess L) (map (\<lambda>a. (weight st a, a)) cs))))"
proof -
  obtain x y zs where cs: "cs = x # y # zs" using assms(3) by (cases cs; cases "tl cs") auto
  have "mapO (\<lambda>a. andThen (AUM_Weight a st) (\<lambda>w. Ret (w, a))) cs = Ret (map (\<lambda>a. (weight st a, a)) cs)"
    using assms(1,2) by (intro mapO_Ret) (simp add: AUM_Weight_eq weight_def)
  then show ?thesis unfolding pickNextAUM_def cs by simp
qed

lemma pickNextAUM_choice:
  assumes "state_ok st" "\<forall>a\<in>set cs. AUM_StaticValidate a = Ret ()" "inj_on (AUM_Hash L) (set cs)" "cs \<noteq> []"
  shows "\<exists>a\<in>set cs. pickNextAUM L st cs = Ret a \<and> (\<forall>b\<in>set cs. b \<noteq> a \<longrightarrow> preferred L st a b)"
proof (cases "2 \<le> length cs")
  case False
  then obtain a where "cs = [a]" using assms(4) by (cases cs; cases "tl cs") auto
  then show ?thesis by (simp add: pickNextAUM_def)
next
  case True
  let ?ws = "map (\<lambda>a. (weight st a, a)) cs"
  have "hd (sortSlice (forkLess L) ?ws) \<in> set ?ws \<and>
      (\<forall>y\<in>set ?ws. y \<noteq> hd (sortSlice (forkLess L) ?ws) \<longrightarrow> forkLess L (hd (sortSlice (forkLess L) ?ws)) y)"
  proof (rule hd_sortSlice_least [OF forkLess_trans])
    show "\<And>a b. a \<in> set ?ws \<Longrightarrow> b \<in> set ?ws \<Longrightarrow> a \<noteq> b \<Longrightarrow> forkLess L a b \<or> forkLess L b a"
      using assms(3) by (intro forkLess_total) (auto simp: inj_on_def)
  qed (use assms(4) in auto)
  then obtain h where h: "h = hd (sortSlice (forkLess L) ?ws)" "h \<in> set ?ws" "\<forall>y\<in>set ?ws. y \<noteq> h \<longrightarrow> forkLess L h y"
    by blast
  then obtain a where a: "a \<in> set cs" "h = (weight st a, a)" by auto
  have "preferred L st a b" if "b \<in> set cs" "b \<noteq> a" for b
    using h(3) a(2) that by (simp add: forkLess_preferred [symmetric])
  then show ?thesis using pickNextAUM_weights [OF assms(1,2) True, of L] a h(1) by (intro bexI [of _ a]) simp_all
qed

lemma pickNextAUM_iff:
  assumes "state_ok st" "\<forall>a\<in>set cs. AUM_StaticValidate a = Ret ()" "inj_on (AUM_Hash L) (set cs)" "cs \<noteq> []"
  shows "pickNextAUM L st cs = Ret a \<longleftrightarrow> a \<in> set cs \<and> (\<forall>b\<in>set cs. b \<noteq> a \<longrightarrow> preferred L st a b)"
  using pickNextAUM_choice [OF assms] preferred_asym by (metis outcome.inject(1))

text \<open>
  C27. Fork resolution is deterministic and independent of order. Let two storages list the same
  candidates, in any order and with any repetitions, all statically valid and with different hashes,
  and let the state satisfy the invariant. Then \<open>pickNextAUM\<close> does not panic and picks the same message
  from both lists: the one that is preferred to every other by weight, then by being a key removal,
  then by the lower hash.
\<close>

theorem pickNextAUM_consensus:
  assumes "state_ok st" "\<forall>a\<in>set cs. AUM_StaticValidate a = Ret ()" "inj_on (AUM_Hash L) (set cs)" "cs \<noteq> []"
    and "set cs' = set cs"
  shows "\<exists>a\<in>set cs. pickNextAUM L st cs = Ret a \<and> pickNextAUM L st cs' = Ret a
    \<and> (\<forall>b\<in>set cs. b \<noteq> a \<longrightarrow> preferred L st a b)"
proof -
  have "cs' \<noteq> []" using assms(4,5) by auto
  then show ?thesis
    using pickNextAUM_choice [OF assms(1-4)] pickNextAUM_iff [of st cs' L] assms(1,2,3,5) by auto
qed

definition demo_noop :: AUM where
  "demo_noop = zeroAUM\<lparr>a_MessageKind := AUMNoOp\<rparr>"

theorem pickNextAUM_consensus_witness:
  "\<exists>a\<in>{demo_add, demo_noop}. pickNextAUM demo_lib demo_state [demo_add, demo_noop] = Ret a
     \<and> pickNextAUM demo_lib demo_state [demo_noop, demo_add, demo_noop] = Ret a"
proof -
  have valid: "\<forall>a\<in>set [demo_add, demo_noop]. AUM_StaticValidate a = Ret ()"
    using demo_add_valid by (simp add: AUM_StaticValidate_def demo_noop_def zeroAUM_def)
  have "AUM_Hash demo_lib demo_add ! 1 \<noteq> AUM_Hash demo_lib demo_noop ! 1"
    by (simp add: AUM_Hash_def AUM_Serialize_def demo_lib_def demo_add_def demo_noop_def zeroAUM_def demo_key_def kid_def)
  then have "inj_on (AUM_Hash demo_lib) (set [demo_add, demo_noop])" by auto
  moreover have "set [demo_noop, demo_add, demo_noop] = set [demo_add, demo_noop]" by auto
  ultimately show ?thesis
    using pickNextAUM_consensus [OF demo_state_ok valid, of demo_lib "[demo_noop, demo_add, demo_noop]"] by auto
qed

subsection \<open>Paths and their replay\<close>

text \<open>
  A path starts at a checkpoint or a message without parent, goes on from parent to child and meets no
  other checkpoint. Its replay applies the messages one after the other.
\<close>

definition is_base :: "AUM \<Rightarrow> bool" where
  "is_base a \<longleftrightarrow> a_MessageKind a = AUMCheckpoint \<or> AUM_Parent a = None"

fun linked :: "'z tka_lib_scheme \<Rightarrow> AUM list \<Rightarrow> bool" where
  "linked L (a # b # r) \<longleftrightarrow> \<not> is_base b \<and> AUM_Parent b = Some (AUM_Hash L a) \<and> linked L (b # r)"
| "linked L _ \<longleftrightarrow> True"

definition is_path :: "'z tka_lib_scheme \<Rightarrow> AUM set \<Rightarrow> AUM list \<Rightarrow> bool" where
  "is_path L S p \<longleftrightarrow> p \<noteq> [] \<and> set p \<subseteq> S \<and> is_base (hd p) \<and> linked L p"

definition base_state :: "'z tka_lib_scheme \<Rightarrow> AUM \<Rightarrow> State outcome" where
  "base_state L a =
     (if a_MessageKind a = AUMCheckpoint then (case a_State a of None \<Rightarrow> Panic | Some st \<Rightarrow> Ret (cloneForUpdate L st a))
      else if a_MessageKind a = AUMNoOp \<or> a_MessageKind a = AUMAddKey then applyVerifiedAUM L zeroState a
      else Raise (Err ''invalid genesis update''))"

fun replay_from :: "'z tka_lib_scheme \<Rightarrow> State \<Rightarrow> AUM list \<Rightarrow> State outcome" where
  "replay_from L st [] = Ret st"
| "replay_from L st (a # r) = andThen (applyVerifiedAUM L st a) (\<lambda>st'. replay_from L st' r)"

definition replay :: "'z tka_lib_scheme \<Rightarrow> AUM list \<Rightarrow> State outcome" where
  "replay L p = andThen (base_state L (hd p)) (\<lambda>st. replay_from L st (tl p))"

text \<open>The parent relation among stored messages; a hash cycle would be a break of the hash function.\<close>

definition parents :: "'z tka_lib_scheme \<Rightarrow> AUM set \<Rightarrow> (AUM \<times> AUM) set" where
  "parents L S = {(a, b). a \<in> S \<and> b \<in> S \<and> AUM_Parent b = Some (AUM_Hash L a)}"

lemma linked_append: "linked L (p @ [a, b]) \<longleftrightarrow> linked L (p @ [a]) \<and> \<not> is_base b \<and> AUM_Parent b = Some (AUM_Hash L a)"
proof (induction p)
  case (Cons x p)
  then show ?case by (cases p) auto
qed auto

lemma linked_appendD: "linked L (p @ q) \<Longrightarrow> linked L p \<and> linked L q"
proof (induction p)
  case (Cons x p)
  then show ?case by (cases p; cases q) auto
qed auto

lemma is_path_snoc:
  "p \<noteq> [] \<Longrightarrow> is_path L S (p @ [b]) \<longleftrightarrow> is_path L S p \<and> b \<in> S \<and> \<not> is_base b \<and> AUM_Parent b = Some (AUM_Hash L (last p))"
  by (cases p rule: rev_cases) (auto simp: is_path_def linked_append hd_append)

lemma is_path_single: "is_path L S [a] \<longleftrightarrow> a \<in> S \<and> is_base a"
  by (simp add: is_path_def)

lemma is_path_mono: "is_path L S p \<Longrightarrow> S \<subseteq> T \<Longrightarrow> is_path L T p"
  by (auto simp: is_path_def)

lemma is_path_induct [consumes 1, case_names base step]:
  assumes "is_path L S p"
    and "\<And>a. a \<in> S \<Longrightarrow> is_base a \<Longrightarrow> P [a]"
    and "\<And>p b. is_path L S p \<Longrightarrow> P p \<Longrightarrow> b \<in> S \<Longrightarrow> \<not> is_base b \<Longrightarrow> AUM_Parent b = Some (AUM_Hash L (last p)) \<Longrightarrow> P (p @ [b])"
  shows "P p"
  using assms(1)
proof (induction p rule: rev_induct)
  case Nil
  then show ?case by (simp add: is_path_def)
next
  case (snoc b p)
  then show ?case using assms(2,3) by (cases "p = []") (auto simp: is_path_snoc is_path_single)
qed

lemma linked_trancl:
  "linked L (a # p) \<Longrightarrow> set (a # p) \<subseteq> S \<Longrightarrow> b \<in> set p \<Longrightarrow> (a, b) \<in> (parents L S)\<^sup>+"
proof (induction p arbitrary: a)
  case (Cons x p)
  have e: "(a, x) \<in> parents L S" using Cons.prems by (simp add: parents_def)
  show ?case
  proof (cases "b = x")
    case False
    then have "(x, b) \<in> (parents L S)\<^sup>+" using Cons by simp
    then show ?thesis using e by (rule trancl_into_trancl2 [rotated])
  qed (use e in blast)
qed simp

lemma linked_distinct: "linked L p \<Longrightarrow> set p \<subseteq> S \<Longrightarrow> acyclic (parents L S) \<Longrightarrow> distinct p"
proof (induction p)
  case (Cons a p)
  then have "a \<notin> set p" using linked_trancl [of L a p S a] by (auto simp: acyclic_def)
  then show ?case using Cons linked_appendD [of L "[a]" p] by simp
qed simp

lemma linked_pred: "linked L (a # p) \<Longrightarrow> c \<in> set p \<Longrightarrow> \<exists>p'\<in>set (a # p). AUM_Parent c = Some (AUM_Hash L p')"
proof (induction p arbitrary: a)
  case (Cons x p)
  then show ?case by (cases "c = x") auto
qed simp

text \<open>Going on from \<open>curs\<close>, the only message of the path that has it as parent is the next one.\<close>

lemma linked_next:
  assumes "linked L (pre @ curs # nxt # suf)" "set (pre @ curs # nxt # suf) \<subseteq> S" "inj_on (AUM_Hash L) S"
    and "acyclic (parents L S)" "c \<in> set (pre @ curs # nxt # suf)" "AUM_Parent c = Some (AUM_Hash L curs)"
  shows "c = nxt"
proof -
  have edge: "(curs, c) \<in> parents L S" using assms(2,5,6) by (auto simp: parents_def)
  have dist: "distinct (pre @ curs # nxt # suf)" using linked_distinct assms(1,2,4) by blast
  have "c \<notin> set (pre @ [curs])"
  proof
    assume c: "c \<in> set (pre @ [curs])"
    have "(c, curs) \<in> (parents L S)\<^sup>*"
    proof (cases "c = curs")
      case False
      then have "c \<in> set pre" using c by simp
      then obtain p1 p2 where pre: "pre = p1 @ c # p2" by (meson split_list)
      then have "linked L (c # p2 @ [curs])"
        using assms(1) linked_appendD [of L p1] linked_appendD [of L "c # p2 @ [curs]" "nxt # suf"] by simp
      moreover have "set (c # p2 @ [curs]) \<subseteq> S" using assms(2) pre by auto
      ultimately show ?thesis using linked_trancl [of L c "p2 @ [curs]" S curs] by (simp add: trancl_into_rtrancl)
    qed simp
    then show False using edge assms(4) by (meson acyclic_def rtrancl_into_trancl2)
  qed
  moreover have "c \<notin> set suf"
  proof
    assume c: "c \<in> set suf"
    have "linked L (nxt # suf)" using assms(1) linked_appendD [of L "pre @ [curs]" "nxt # suf"] by simp
    then obtain p' where p': "p' \<in> set (nxt # suf)" "AUM_Parent c = Some (AUM_Hash L p')" using linked_pred c by blast
    then have "AUM_Hash L p' = AUM_Hash L curs" "p' \<in> S" "curs \<in> S" using assms(2,6) by auto
    then have "p' = curs" using assms(3) by (simp add: inj_onD)
    then show False using p'(1) dist by auto
  qed
  ultimately show ?thesis using assms(5) by auto
qed

subsection \<open>The walks\<close>

lemma replay_from_append:
  "replay_from L st (p @ q) = andThen (replay_from L st p) (\<lambda>st'. replay_from L st' q)"
proof (induction p arbitrary: st)
  case (Cons a p)
  then show ?case by (cases "applyVerifiedAUM L st a") auto
qed simp

lemma replay_snoc: "p \<noteq> [] \<Longrightarrow> replay L (p @ [b]) = andThen (replay L p) (\<lambda>st. applyVerifiedAUM L st b)"
proof -
  have ret: "andThen m Ret = m" for m :: "State outcome" by (cases m) auto
  assume "p \<noteq> []"
  then show ?thesis
    by (cases p; cases "base_state L (hd p)") (auto simp: replay_def replay_from_append ret)
qed

lemma base_state_last: "base_state L a = Ret st \<Longrightarrow> s_LastAUMHash st = Some (AUM_Hash L a)"
  by (auto simp: base_state_def apply_sets_last split: if_splits option.splits)

lemma replay_last: "p \<noteq> [] \<Longrightarrow> replay L p = Ret st \<Longrightarrow> s_LastAUMHash st = Some (AUM_Hash L (last p))"
proof (induction p arbitrary: st rule: rev_induct)
  case (snoc b p)
  show ?case
  proof (cases "p = []")
    case True
    then show ?thesis using snoc.prems by (auto simp: replay_def outcome_simps base_state_last)
  next
    case False
    then obtain st0 where "applyVerifiedAUM L st0 b = Ret st" using snoc.prems(2) by (auto simp: replay_snoc outcome_simps)
    then show ?thesis by (simp add: apply_sets_last)
  qed
qed simp

context chonk
begin

lemma walk_back_path:
  assumes "inv s" "is_path L (store s) p"
  shows "walk_back L C s n (last p) h = Ret (st, h') \<longleftrightarrow>
    length p \<le> n \<and> base_state L (hd p) = Ret st \<and> h' = map (AUM_Hash L) p @ h"
  using assms(2)
proof (induction arbitrary: n h rule: is_path_induct)
  case (base a)
  then show ?case
    by (cases n) (auto simp: base_state_def is_base_def outcome_simps Let_def split: option.splits)
next
  case (step p b)
  have ne: "p \<noteq> []" and lp: "last p \<in> store s" using step.hyps(1) by (auto simp: is_path_def)
  show ?case
  proof (cases n)
    case (Suc m)
    have "walk_back L C s n b h = walk_back L C s m (last p) (AUM_Hash L b # h)"
      using step.hyps AUM_hit [OF assms(1) lp] by (simp add: Suc is_base_def Let_def)
    then show ?thesis using step.IH [of m "AUM_Hash L b # h"] Suc ne by (auto simp: hd_append)
  qed (use ne in simp)
qed

lemma walk_back_RetD:
  assumes "inv s"
  shows "walk_back L C s n a h = Ret r \<Longrightarrow> a \<in> store s \<Longrightarrow> \<exists>p. is_path L (store s) p \<and> last p = a"
proof (induction n arbitrary: a h)
  case (Suc n)
  show ?case
  proof (cases "is_base a")
    case True
    then show ?thesis using Suc.prems by (intro exI [of _ "[a]"]) (simp add: is_path_single)
  next
    case False
    then obtain h' b where b: "AUM_Parent a = Some h'" "c_AUM C s h' = Ret b" "walk_back L C s n b (AUM_Hash L a # h) = Ret r"
      using Suc.prems(1) by (auto simp: is_base_def outcome_simps Let_def split: option.splits)
    then have "b \<in> store s" "AUM_Hash L b = h'" using AUM_Ret_iff [OF assms] by auto
    then obtain p where "is_path L (store s) p" "last p = b" using Suc.IH b(3) by blast
    then have "is_path L (store s) (p @ [a])" using Suc.prems(2) False b \<open>AUM_Hash L b = h'\<close>
      by (subst is_path_snoc) (auto simp: is_path_def)
    then show ?thesis by (intro exI [of _ "p @ [a]"]) simp
  qed
qed simp

lemma path_advancer_next:
  assumes inv: "inv s" and acyc: "acyclic (parents L (store s))"
    and path: "linked L (pre @ curs # nxt # suf)" "set (pre @ curs # nxt # suf) \<subseteq> store s"
  shows "\<exists>cs. c_ChildAUMs C s (AUM_Hash L curs) = Ret cs \<and>
    path_advancer L (map (AUM_Hash L) (pre @ curs # nxt # suf)) st cs =
      andThen (wrap ''advancing state'' (applyVerifiedAUM L st nxt)) (\<lambda>st'. Ret (Some nxt, st'))"
proof -
  let ?p = "pre @ curs # nxt # suf" and ?f = "\<lambda>c. AUM_Hash L c \<in> set (map (AUM_Hash L) (pre @ curs # nxt # suf))"
  obtain cs where cs: "c_ChildAUMs C s (AUM_Hash L curs) = Ret cs"
      "set cs = {b \<in> store s. AUM_Parent b = Some (AUM_Hash L curs)}"
    using ChildAUMs_law [OF inv] by blast
  note inj = inj_store [OF inv]
  have "AUM_Parent nxt = Some (AUM_Hash L curs)"
    using path(1) linked_appendD [of L pre "curs # nxt # suf"] by simp
  then have nxt: "nxt \<in> set cs" "?f nxt" using path(2) cs(2) by auto
  have uniq: "c = nxt" if c: "c \<in> set cs" "?f c" for c
  proof -
    have "c \<in> store s" "AUM_Parent c = Some (AUM_Hash L curs)" using c(1) cs(2) by auto
    moreover have "c \<in> set ?p" using c(2) \<open>c \<in> store s\<close> path(2) inj by (auto simp: inj_on_def)
    ultimately show ?thesis using linked_next [OF path inj acyc] by blast
  qed
  have "List.find ?f cs = Some nxt"
  proof (cases "List.find ?f cs")
    case None
    then show ?thesis using nxt find_None_iff [of ?f cs] by blast
  next
    case (Some c)
    then have "c \<in> set cs" "?f c" using find_Some_iff [of ?f cs c] nth_mem by blast+
    then show ?thesis using uniq Some by simp
  qed
  then show ?thesis using cs(1) by (auto simp: path_advancer_def)
qed

lemma ff_path:
  assumes inv: "inv s" and acyc: "acyclic (parents L (store s))"
  shows "linked L (pre @ curs # suf) \<Longrightarrow> set (pre @ curs # suf) \<subseteq> store s \<Longrightarrow>
    fst (ff_loop L C s (path_advancer L (map (AUM_Hash L) (pre @ curs # suf)))
      (\<lambda>acc c _. (AUM_Hash L c = AUM_Hash L (last (curs # suf)), acc)) n curs st ()) = Ret (x, st') \<longleftrightarrow>
    length suf < n \<and> x = last (curs # suf) \<and> replay_from L st suf = Ret st'"
proof (induction suf arbitrary: pre curs n st)
  case Nil
  then show ?case by (cases n) auto
next
  case (Cons nxt suf)
  show ?case
  proof (cases n)
    case (Suc m)
    let ?p = "pre @ curs # nxt # suf"
    have "distinct ?p" using linked_distinct Cons.prems acyc by blast
    then have "last (nxt # suf) \<noteq> curs" by (metis distinct.simps(2) distinct_append last_in_set list.distinct(1))
    moreover have "curs \<in> store s" "last (nxt # suf) \<in> store s"
      using Cons.prems(2) last_in_set [of "nxt # suf"] by auto
    ultimately have run: "AUM_Hash L curs \<noteq> AUM_Hash L (last (nxt # suf))"
      using inj_store [OF inv] by (metis inj_onD)
    obtain cs where "c_ChildAUMs C s (AUM_Hash L curs) = Ret cs"
      "path_advancer L (map (AUM_Hash L) ?p) st cs =
        andThen (wrap ''advancing state'' (applyVerifiedAUM L st nxt)) (\<lambda>st'. Ret (Some nxt, st'))"
      using path_advancer_next [OF inv acyc Cons.prems] by blast
    then show ?thesis using run Cons.IH [of "pre @ [curs]" nxt m] Cons.prems Suc
      by (cases "applyVerifiedAUM L st nxt") auto
  qed simp
qed

lemma computeStateAt_iff:
  assumes inv: "inv s" and acyc: "acyclic (parents L (store s))"
  shows "computeStateAt L C s m h = Ret st \<longleftrightarrow>
    (\<exists>p. is_path L (store s) p \<and> AUM_Hash L (last p) = h \<and> length p \<le> m \<and> replay L p = Ret st)"
proof -
  have eq: "computeStateAt L C s m (AUM_Hash L (last p)) = Ret st \<longleftrightarrow> length p \<le> m \<and> replay L p = Ret st"
    if p: "is_path L (store s) p" for p
  proof -
    obtain b suf where bs: "p = b # suf" using p by (cases p) (auto simp: is_path_def)
    have sub: "linked L ([] @ b # suf)" "set ([] @ b # suf) \<subseteq> store s" "b \<in> store s" "last p \<in> store s"
      using p bs by (auto simp: is_path_def)
    note ff = ff_path [OF inv acyc sub(1,2)]
    show ?thesis
    proof (cases "\<exists>st0. base_state L b = Ret st0 \<and> length p \<le> m + 1")
      case False
      have "walk_back L C s (m + 1) (last p) [] \<noteq> Ret (st1, h1)" for st1 h1
        using walk_back_path [OF inv p, of "m + 1" "[]" st1 h1] bs False by (metis list.sel(1))
      then have "computeStateAt L C s m (AUM_Hash L (last p)) \<noteq> Ret st"
        using AUM_hit [OF inv sub(4)] by (auto simp: computeStateAt_def outcome_simps simp del: walk_back.simps)
      then show ?thesis using False bs by (auto simp: replay_def outcome_simps)
    next
      case True
      then obtain st0 where st0: "base_state L b = Ret st0" "length p \<le> m + 1" by blast
      then have wb: "walk_back L C s (m + 1) (last p) [] = Ret (st0, map (AUM_Hash L) p)"
        using walk_back_path [OF inv p, of "m + 1" "[]"] bs by (simp del: walk_back.simps)
      have "computeStateAt L C s m (AUM_Hash L (last p)) = Ret st \<longleftrightarrow>
          (length suf < m \<and> replay_from L st0 suf = Ret st \<and> s_LastAUMHash st = Some (AUM_Hash L (last p)))"
        using AUM_hit [OF inv sub(4)] AUM_hit [OF inv sub(3)] wb ff [of m st0] base_state_last [OF st0(1)] bs
        by (auto simp: computeStateAt_def outcome_simps fastForwardWithAdvancer_def
            simp del: walk_back.simps split: option.splits if_splits)
      also have "\<dots> \<longleftrightarrow> length p \<le> m \<and> replay L p = Ret st"
        using st0(1) bs replay_last [of p L st] by (auto simp: replay_def)
      finally show ?thesis .
    qed
  qed
  show ?thesis
  proof
    assume r: "computeStateAt L C s m h = Ret st"
    then obtain top r' where top: "c_AUM C s h = Ret top" "walk_back L C s (m + 1) top [] = Ret r'"
      by (auto simp: computeStateAt_def outcome_simps simp del: walk_back.simps)
    then have "top \<in> store s" "AUM_Hash L top = h" using AUM_Ret_iff [OF inv] by auto
    then obtain p where "is_path L (store s) p" "last p = top" using walk_back_RetD [OF inv top(2)] by blast
    then show "\<exists>p. is_path L (store s) p \<and> AUM_Hash L (last p) = h \<and> length p \<le> m \<and> replay L p = Ret st"
      using eq r \<open>AUM_Hash L top = h\<close> by blast
  qed (use eq in blast)
qed

end

end
