(* ===== verification/Tka_Inform.thy ===== *)
theory Tka_Inform
  imports Tka_Chain
begin

section \<open>Package \<open>tka\<close>: only verified updates enter the storage\<close>

text \<open>
  The security argument of the key authority. \<open>state_at\<close> is the replayed state at a stored message.
  A message is vouched for when its parent is stored and it passed verification against the state
  there. Taking in updates either changes nothing or stores all of them, each vouched for, and the
  authority it returns holds the state at its head.
\<close>

definition state_at :: "'z tka_lib_scheme \<Rightarrow> AUM set \<Rightarrow> AUM \<Rightarrow> State \<Rightarrow> bool" where
  "state_at L S a st \<longleftrightarrow> (\<exists>p. is_path L S p \<and> last p = a \<and> replay L p = Ret st)"

definition vouched :: "'z tka_lib_scheme \<Rightarrow> AUM set \<Rightarrow> AUM \<Rightarrow> bool" where
  "vouched L S a \<longleftrightarrow> (\<exists>b\<in>S. \<exists>st st'. AUM_Parent a = Some (AUM_Hash L b) \<and> state_at L S b st
     \<and> aumVerify L a st False = Ret () \<and> applyVerifiedAUM L st a = Ret st')"

definition authority_ok :: "'z tka_lib_scheme \<Rightarrow> AUM set \<Rightarrow> Authority \<Rightarrow> bool" where
  "authority_ok L S a \<longleftrightarrow> au_head a \<in> S \<and> state_at L S (au_head a) (au_state a)"

lemma state_at_mem: "state_at L S a st \<Longrightarrow> a \<in> S"
  by (auto simp: state_at_def is_path_def)

lemma state_at_mono: "state_at L S a st \<Longrightarrow> S \<subseteq> T \<Longrightarrow> state_at L T a st"
  unfolding state_at_def using is_path_mono by blast

lemma vouched_mono: "vouched L S a \<Longrightarrow> S \<subseteq> T \<Longrightarrow> vouched L T a"
  unfolding vouched_def using state_at_mono by blast

lemma state_at_last: "state_at L S a st \<Longrightarrow> s_LastAUMHash st = Some (AUM_Hash L a)"
  unfolding state_at_def is_path_def using replay_last by blast

text \<open>Applying a child to the state at its parent gives the state at the child.\<close>

lemma state_at_step:
  assumes "state_at L S b st" "AUM_Parent a = Some (AUM_Hash L b)" "applyVerifiedAUM L st a = Ret st'" "a \<in> S"
  shows "state_at L S a st'"
proof (cases "a_MessageKind a = AUMCheckpoint")
  case True
  then obtain cst where "a_State a = Some cst" "st' = cloneForUpdate L cst a"
    using assms(3) by (auto simp: applyVerifiedAUM_def split: if_splits option.splits)
  then have "replay L [a] = Ret st'" using True by (simp add: replay_def base_state_def)
  moreover have "is_path L S [a]" using assms(4) True by (simp add: is_path_single is_base_def)
  ultimately show ?thesis unfolding state_at_def by (metis last.simps)
next
  case False
  obtain p where p: "is_path L S p" "last p = b" "replay L p = Ret st" using assms(1) by (auto simp: state_at_def)
  have "p \<noteq> []" using p(1) by (simp add: is_path_def)
  then have "is_path L S (p @ [a])" "replay L (p @ [a]) = Ret st'"
    using p assms(2,3,4) False by (auto simp: is_path_snoc is_base_def replay_snoc)
  then show ?thesis unfolding state_at_def by (metis last_snoc)
qed

text \<open>The state at a message is unique, since the path is read off the parent hashes.\<close>

lemma path_unique:
  assumes "inj_on (AUM_Hash L) S"
  shows "is_path L S p \<Longrightarrow> is_path L S q \<Longrightarrow> last p = last q \<Longrightarrow> p = q"
proof (induction arbitrary: q rule: is_path_induct)
  case (base a)
  show ?case
  proof (cases q rule: rev_cases)
    case (snoc r b)
    then show ?thesis using base by (cases "r = []") (auto simp: is_path_snoc)
  qed (use base in \<open>simp add: is_path_def\<close>)
next
  case (step p b)
  have ne: "p \<noteq> []" "last p \<in> S" using step.hyps(1) by (auto simp: is_path_def)
  show ?case
  proof (cases q rule: rev_cases)
    case (snoc r c)
    have c: "c = b" using step.prems snoc by simp
    have "r \<noteq> []" using step snoc c by (auto simp: is_path_single)
    then have r: "is_path L S r" "AUM_Hash L (last r) = AUM_Hash L (last p)"
      using step snoc c by (auto simp: is_path_snoc)
    have "last r \<in> S" using r(1) by (auto simp: is_path_def)
    then have "last r = last p" using assms ne(2) r(2) by (simp add: inj_onD)
    then have "p = r" using step.IH [of r] r(1) by simp
    then show ?thesis using snoc c by simp
  qed (use step in \<open>simp add: is_path_def\<close>)
qed

lemma state_at_unique: "inj_on (AUM_Hash L) S \<Longrightarrow> state_at L S a st \<Longrightarrow> state_at L S a st' \<Longrightarrow> st = st'"
  unfolding state_at_def using path_unique by (metis outcome.inject(1))

subsection \<open>What verification guarantees\<close>

lemma verify_sigs_iff:
  "verify_sigs L st d sigs = Ret () \<longleftrightarrow>
     (\<forall>sig\<in>set sigs. \<exists>k. GetKey st (sig_KeyID sig) = Ret k \<and> signatureVerify L sig d k = Ret ())"
  by (induction sigs) (auto simp: outcome_simps)

lemma signatureVerify_iff:
  "signatureVerify L sig d k = Ret () \<longleftrightarrow> k_Kind k = Key25519 \<and> length (kid k) = 32
     \<and> ed25519consensus_Verify L (kid k) d (els (sig_Signature sig))"
  by (auto simp: signatureVerify_def kid_def)

text \<open>An accepted message is well formed, has a signature, and each is by a key the state trusts.\<close>

definition signed_by_trusted :: "'z tka_lib_scheme \<Rightarrow> State \<Rightarrow> AUM \<Rightarrow> bool" where
  "signed_by_trusted L st a \<longleftrightarrow> els (a_Signatures a) \<noteq> [] \<and>
     (\<forall>sig\<in>set (els (a_Signatures a)). \<exists>k\<in>set (els (s_Keys st)). kid k = els (sig_KeyID sig) \<and> k_Kind k = Key25519
        \<and> length (kid k) = 32 \<and> ed25519consensus_Verify L (kid k) (AUM_SigHash L a) (els (sig_Signature sig)))"

lemma aumVerify_sound:
  assumes "aumVerify L a st g = Ret ()"
  shows "AUM_StaticValidate a = Ret ()" "signed_by_trusted L st a"
    "\<not> g \<Longrightarrow> AUM_Parent a \<noteq> None \<and> AUM_Parent a = s_LastAUMHash st"
proof -
  have v: "verify_sigs L st (AUM_SigHash L a) (els (a_Signatures a)) = Ret ()" "els (a_Signatures a) \<noteq> []"
    using assms by (auto simp: aumVerify_def outcome_simps split: if_splits)
  show "AUM_StaticValidate a = Ret ()" using assms by (auto simp: aumVerify_def outcome_simps)
  show "signed_by_trusted L st a"
    unfolding signed_by_trusted_def
    using v GetKey_RetD by (fastforce simp: verify_sigs_iff signatureVerify_iff)
  show "\<not> g \<Longrightarrow> AUM_Parent a \<noteq> None \<and> AUM_Parent a = s_LastAUMHash st"
    using assms by (auto simp: aumVerify_def checkParent_def outcome_simps split: if_splits option.splits)
qed

subsection \<open>The fast forward stays on replayed states\<close>

lemma set_sortSlice [simp]: "set (sortSlice lt xs) = set xs"
proof -
  have "set (insertBy lt x ys) = insert x (set ys)" for x ys by (induction ys) auto
  then show ?thesis by (induction xs) (auto simp: sortSlice_def)
qed

lemma mapO_weights_snd:
  "mapO (\<lambda>a. andThen (f a) (\<lambda>w. Ret (w, a))) cs = Ret ws \<Longrightarrow> map snd ws = cs"
  by (induction cs arbitrary: ws) (auto simp: outcome_simps)

lemma pickNextAUM_mem: "pickNextAUM L st cs = Ret a \<Longrightarrow> a \<in> set cs"
proof -
  assume r: "pickNextAUM L st cs = Ret a"
  show ?thesis
  proof (cases "2 \<le> length cs")
    case False
    then show ?thesis using r by (cases cs; cases "tl cs") (auto simp: pickNextAUM_def)
  next
    case True
    then obtain x y zs where cs: "cs = x # y # zs" by (cases cs; cases "tl cs") auto
    then obtain ws where ws: "mapO (\<lambda>a. andThen (AUM_Weight a st) (\<lambda>w. Ret (w, a))) cs = Ret ws"
      "a = snd (hd (sortSlice (forkLess L) ws))"
      using r by (auto simp: pickNextAUM_def outcome_simps)
    have "map snd ws = cs" using mapO_weights_snd [OF ws(1)] .
    then have "sortSlice (forkLess L) ws \<noteq> []" using cs set_sortSlice [of "forkLess L" ws] by force
    then have "hd (sortSlice (forkLess L) ws) \<in> set ws" using set_sortSlice hd_in_set by metis
    then show ?thesis using ws(2) \<open>map snd ws = cs\<close> by (metis list.set_map imageI)
  qed
qed

text \<open>One round of the fast forward by fork resolution.\<close>

lemma ff_primary_Suc:
  assumes "dn acc curs st = (fin, acc')" "c_ChildAUMs C s (AUM_Hash L curs) = Ret cs"
  shows "ff_loop L C s (advanceByPrimary L) dn (Suc n) curs st acc =
    (if fin \<or> cs = [] then (Ret (curs, st), acc')
     else case andThen (pickNextAUM L st cs) (\<lambda>a. andThen (applyVerifiedAUM L st a) (\<lambda>st1. Ret (a, st1))) of
         Ret (a, st1) \<Rightarrow> ff_loop L C s (advanceByPrimary L) dn n a st1 acc'
       | Raise e \<Rightarrow> (Raise (Err ''advance''), acc')
       | Panic \<Rightarrow> (Panic, acc'))"
proof -
  have adv: "advanceByPrimary L st cs = (if cs = [] then Ret (None, st) else
      andThen (pickNextAUM L st cs) (\<lambda>a. andThen (wrap ''advancing state'' (applyVerifiedAUM L st a)) (\<lambda>st'. Ret (Some a, st'))))"
    by (simp add: advanceByPrimary_def)
  show ?thesis
  proof (cases "cs = []")
    case True
    then show ?thesis using assms by (simp add: advanceByPrimary_def)
  next
    case False
    show ?thesis
    proof (cases "pickNextAUM L st cs")
      case (Ret a)
      then show ?thesis using assms adv False by (cases "applyVerifiedAUM L st a") simp_all
    qed (use assms adv False in simp_all)
  qed
qed

context chonk
begin

lemma ff_state_at:
  assumes "inv s"
  shows "fst (ff_loop L C s (advanceByPrimary L) dn n curs st acc) = Ret (x, st') \<Longrightarrow>
    state_at L (store s) curs st \<Longrightarrow> state_at L (store s) x st'"
proof (induction n arbitrary: curs st acc)
  case (Suc n)
  obtain fin acc' where dn: "dn acc curs st = (fin, acc')" by (cases "dn acc curs st")
  obtain cs where cs: "c_ChildAUMs C s (AUM_Hash L curs) = Ret cs"
      "set cs = {b \<in> store s. AUM_Parent b = Some (AUM_Hash L curs)}"
    using ChildAUMs_law [OF assms] by blast
  note step = ff_primary_Suc [of dn acc curs st fin acc' C s L cs n, OF dn cs(1)]
  show ?case
  proof (cases "fin \<or> cs = []")
    case True
    then have "fst (ff_loop L C s (advanceByPrimary L) dn (Suc n) curs st acc) = Ret (curs, st)" unfolding step by simp
    then show ?thesis using Suc.prems by simp
  next
    case False
    obtain a st1 where a: "pickNextAUM L st cs = Ret a" "applyVerifiedAUM L st a = Ret st1"
      "fst (ff_loop L C s (advanceByPrimary L) dn n a st1 acc') = Ret (x, st')"
      using Suc.prems(1) False unfolding step by (auto split: outcome.splits simp: outcome_simps)
    then have "a \<in> store s" "AUM_Parent a = Some (AUM_Hash L curs)" using pickNextAUM_mem cs(2) by blast+
    then have "state_at L (store s) a st1" using state_at_step Suc.prems(2) a(2) by blast
    then show ?thesis using Suc.IH a(3) by blast
  qed
qed simp

lemma computeStateAt_state_at:
  "inv s \<Longrightarrow> acyclic (parents L (store s)) \<Longrightarrow> computeStateAt L C s m h = Ret st \<Longrightarrow>
   \<exists>a\<in>store s. AUM_Hash L a = h \<and> state_at L (store s) a st"
  using computeStateAt_iff [of s m h st] by (metis is_path_def last_in_set state_at_def subsetD)

lemma computeActiveChain_ok:
  assumes inv: "inv s" and acyc: "acyclic (parents L (store s))" and r: "computeActiveChain L C s lko m = Ret c"
  shows "ch_Head c \<in> store s \<and> state_at L (store s) (ch_Head c) (ch_state c)"
proof -
  obtain h a st where a: "c_AUM C s h = Ret a" "computeStateAt L C s m h = Ret st"
    "fst (fastForward L C s m st (\<lambda>acc _ _. (False, acc)) ()) = Ret (ch_Head c, ch_state c)"
    using r by (auto simp: computeActiveChain_def outcome_simps)
  obtain b where b: "b \<in> store s" "AUM_Hash L b = h" "state_at L (store s) b st"
    using computeStateAt_state_at [OF inv acyc a(2)] by blast
  have "fst (ff_loop L C s (advanceByPrimary L) (\<lambda>acc _ _. (False, acc)) m b st ()) = Ret (ch_Head c, ch_state c)"
    using a(3) AUM_hit [OF inv b(1)] state_at_last [OF b(3)] by (simp add: fastForward_def fastForwardWithAdvancer_def)
  then have "state_at L (store s) (ch_Head c) (ch_state c)" by (rule ff_state_at [OF inv _ b(3)])
  then show ?thesis using state_at_mem by blast
qed

subsubsection \<open>The loop over the updates\<close>

definition loop_inv :: "'s \<Rightarrow> AUMHash \<Rightarrow> AUM list \<Rightarrow> inform \<Rightarrow> bool" where
  "loop_inv s hd0 ds v \<longleftrightarrow>
     store s \<union> set (in_toCommit v) = store s \<union> set ds
     \<and> (\<forall>h st. in_stateAt v h = Some st \<longrightarrow> (\<exists>a. AUM_Hash L a = h \<and> state_at L (store s \<union> set ds) a st))
     \<and> (\<forall>a\<in>set (in_toCommit v). vouched L (store s \<union> set ds) a)
     \<and> in_stateAt v (in_prevHash v) \<noteq> None
     \<and> (in_isHeadChain v \<longrightarrow> in_prevHash v = (if ds = [] then hd0 else AUM_Hash L (last ds)))"

lemma inform_step_inv:
  assumes inv: "inv s" and acyc: "acyclic (parents L (store s))" and inj: "inj_on (AUM_Hash L) (insert u (store s))"
    and v: "loop_inv s hd0 ds v" and r: "inform_step L C s v u = Ret v'"
  shows "loop_inv s hd0 (ds @ [u]) v'"
proof (cases "c_AUM C s (AUM_Hash L u)")
  case (Ret b)
  then have "b = u" using AUM_Ret_iff [OF inv] inj by (auto simp: inj_on_def)
  then have u: "u \<in> store s" using Ret AUM_Ret_iff [OF inv] by auto
  have "v' = v\<lparr>in_isHeadChain := False\<rparr>" using r Ret by (simp add: inform_step_def Let_def)
  moreover have "store s \<union> set (ds @ [u]) = store s \<union> set ds" using u by auto
  ultimately show ?thesis using v by (simp add: loop_inv_def)
next
  case (Raise e)
  let ?T = "store s \<union> set ds" and ?T' = "store s \<union> set (ds @ [u])"
  have mono: "?T \<subseteq> ?T'" by auto
  obtain h st stAt st' where h: "AUM_Parent u = Some h"
    "(case in_stateAt v h of Some st \<Rightarrow> Ret (st, in_stateAt v)
      | None \<Rightarrow> andThen (wrap ''update computing state'' (computeStateAt L C s maxScanIterations h))
                 (\<lambda>st. Ret (st, (in_stateAt v)(h \<mapsto> st)))) = Ret (st, stAt)"
    "aumVerify L u st False = Ret ()" "applyVerifiedAUM L st u = Ret st'"
    and v': "v' = \<lparr>in_stateAt = stAt(AUM_Hash L u \<mapsto> st'), in_toCommit = in_toCommit v @ [u], in_prevHash = AUM_Hash L u,
                in_isHeadChain = (in_isHeadChain v \<and> h = in_prevHash v)\<rparr>"
    using r Raise by (auto simp: inform_step_def Let_def outcome_simps split: option.splits)
  have known: "\<exists>a. AUM_Hash L a = k \<and> state_at L ?T a x" if "stAt k = Some x" for k x
  proof (cases "in_stateAt v h")
    case None
    then have "computeStateAt L C s maxScanIterations h = Ret st" "stAt = (in_stateAt v)(h \<mapsto> st)"
      using h(2) by (auto simp: outcome_simps)
    moreover have "\<exists>a. AUM_Hash L a = h \<and> state_at L ?T a st"
      using computeStateAt_state_at [OF inv acyc] state_at_mono calculation(1) by (meson Un_upper1)
    ultimately show ?thesis using v that by (auto simp: loop_inv_def split: if_splits)
  qed (use v that h(2) in \<open>auto simp: loop_inv_def\<close>)
  have "stAt h = Some st" using h(2) by (auto simp: outcome_simps split: option.splits)
  then obtain b where b: "AUM_Hash L b = h" "state_at L ?T b st" using known by blast
  have b': "state_at L ?T' b st" using b(2) mono by (rule state_at_mono)
  have new: "state_at L ?T' u st'" using state_at_step [OF b'] h b(1) by simp
  have "vouched L ?T' u" unfolding vouched_def using b' b(1) h state_at_mem [OF b'] by blast
  moreover have "\<forall>a\<in>set (in_toCommit v). vouched L ?T' a"
    using v vouched_mono [OF _ mono] unfolding loop_inv_def by blast
  ultimately have vch: "\<forall>a\<in>set (in_toCommit v'). vouched L ?T' a" using v' by simp
  have "\<exists>a. AUM_Hash L a = k \<and> state_at L ?T' a x" if "in_stateAt v' k = Some x" for k x
    using that v' new known state_at_mono [OF _ mono] by (auto split: if_splits) blast
  moreover have "store s \<union> set (in_toCommit v') = ?T'" using v v' by (auto simp: loop_inv_def)
  ultimately show ?thesis using vch v' by (simp add: loop_inv_def)
qed (use r in \<open>simp add: inform_step_def Let_def\<close>)

lemma inform_loop_inv:
  assumes inv: "inv s" and acyc: "acyclic (parents L (store s))"
  shows "inj_on (AUM_Hash L) (store s \<union> set us) \<Longrightarrow> loop_inv s hd0 ds v \<Longrightarrow> inform_loop L C s v us = Ret v' \<Longrightarrow>
    loop_inv s hd0 (ds @ us) v'"
proof (induction us arbitrary: ds v)
  case (Cons u us)
  obtain v1 where v1: "inform_step L C s v u = Ret v1" "inform_loop L C s v1 us = Ret v'"
    using Cons.prems(3) by (auto simp: outcome_simps)
  have i: "inj_on (AUM_Hash L) (insert u (store s))" "inj_on (AUM_Hash L) (store s \<union> set us)"
    using Cons.prems(1) by (auto intro: inj_on_subset)
  then have "loop_inv s hd0 (ds @ [u]) v1" using inform_step_inv [OF inv acyc] Cons.prems(2) v1(1) by blast
  then show ?case using Cons.IH [OF i(2)] v1(2) by fastforce
qed simp

definition inform_result :: "'s \<Rightarrow> AUM list \<Rightarrow> Authority outcome \<Rightarrow> 's \<Rightarrow> bool" where
  "inform_result s us r s' \<longleftrightarrow>
     s' = s \<and> (\<forall>a'. r \<noteq> Ret a') \<or>
     inv s' \<and> store s' = store s \<union> set us \<and> (\<forall>a\<in>store s' - store s. vouched L (store s') a)
       \<and> (\<forall>a'. r = Ret a' \<longrightarrow> authority_ok L (store s') a')"

lemma InformIdempotent_result:
  assumes inv: "inv s" and acyc: "acyclic (parents L (store s \<union> set us))"
    and inj: "inj_on (AUM_Hash L) (store s \<union> set us)" and ok: "authority_ok L (store s) a"
    and run: "InformIdempotent L C s a us = (r, s')"
  shows "inform_result s us r s'"
proof (cases "us = []")
  case True
  then show ?thesis using run by (auto simp: InformIdempotent_def inform_result_def)
next
  case ne: False
  have acyc0: "acyclic (parents L (store s))" using acyc by (rule acyclic_subset) (auto simp: parents_def)
  let ?h = "AUM_Hash L (au_head a)"
  let ?v0 = "\<lparr>in_stateAt = [?h \<mapsto> au_state a], in_toCommit = [], in_prevHash = ?h, in_isHeadChain = True\<rparr>"
  have at: "state_at L (store s) (au_head a) (au_state a)" using ok by (simp add: authority_ok_def)
  have head: "Authority_Head a = Ret ?h" using state_at_last [OF at] by (simp add: Authority_Head_def)
  have v0: "loop_inv s ?h [] ?v0" using at by (auto simp: loop_inv_def split: if_splits)
  show ?thesis
  proof (cases "inform_loop L C s ?v0 us")
    case (Ret v)
    then have v: "loop_inv s ?h us v" using inform_loop_inv [OF inv acyc0 inj v0] by simp
    have eq: "store s \<union> set (in_toCommit v) = store s \<union> set us" using v by (simp add: loop_inv_def)
    then obtain s1 where s1: "c_CommitVerifiedAUMs C s (in_toCommit v) = (Ret (), s1)" "inv s1" "store s1 = store s \<union> set us"
      using Commit_law [OF inv, of "in_toCommit v"] inj by metis
    have s': "s' = s1" using run ne head Ret s1(1) by (auto simp: InformIdempotent_def split: if_splits)
    have new: "\<forall>b\<in>store s1 - store s. vouched L (store s1) b"
      using v eq s1(3) by (auto simp: loop_inv_def)
    have "authority_ok L (store s1) a'" if "r = Ret a'" for a'
    proof (cases "in_isHeadChain v")
      case True
      then have ph: "in_prevHash v = AUM_Hash L (last us)" using v ne by (simp add: loop_inv_def)
      obtain st where st0: "in_stateAt v (in_prevHash v) = Some st" using v by (auto simp: loop_inv_def)
      then have "\<exists>b. AUM_Hash L b = in_prevHash v \<and> state_at L (store s1) b st" using v s1(3) unfolding loop_inv_def by simp
      then obtain b where st: "in_stateAt v (in_prevHash v) = Some st" "AUM_Hash L b = in_prevHash v" "state_at L (store s1) b st"
        using st0 by blast
      have "b \<in> store s \<union> set us" "last us \<in> store s \<union> set us" using state_at_mem [OF st(3)] s1(3) last_in_set [OF ne] by auto
      then have "b = last us" using st(2) ph inj by (simp add: inj_onD)
      moreover have "a' = \<lparr>au_head = last us, au_oldestAncestor = au_oldestAncestor a, au_state = st\<rparr>"
        using run that ne head Ret s1(1) True st(1) by (auto simp: InformIdempotent_def)
      ultimately show ?thesis using st(3) state_at_mem by (auto simp: authority_ok_def)
    next
      case False
      then have "andThen (wrap ''recomputing active chain''
          (computeActiveChain L C s1 (Some (AUM_Hash L (au_oldestAncestor a))) maxScanIterations)) (\<lambda>c.
          Ret \<lparr>au_head = ch_Head c, au_oldestAncestor = ch_Oldest c, au_state = ch_state c\<rparr>) = Ret a'"
        using run that ne head Ret s1(1) by (auto simp: InformIdempotent_def)
      then obtain c where "computeActiveChain L C s1 (Some (AUM_Hash L (au_oldestAncestor a))) maxScanIterations = Ret c"
        "a' = \<lparr>au_head = ch_Head c, au_oldestAncestor = ch_Oldest c, au_state = ch_state c\<rparr>"
        by (auto simp: outcome_simps)
      then show ?thesis using computeActiveChain_ok [OF s1(2)] acyc s1(3) by (auto simp: authority_ok_def)
    qed
    then show ?thesis using s' s1(2,3) new by (auto simp: inform_result_def)
  qed (use run ne head in \<open>auto simp: InformIdempotent_def inform_result_def\<close>)
qed

end

subsection \<open>A concrete run\<close>

text \<open>A signed checkpoint and a signed update to add a key, in files.\<close>

definition demo_sign :: "bytes \<Rightarrow> Signature list" where
  "demo_sign d = [\<lparr>sig_KeyID = Some (replicate 32 1), sig_Signature = Some (replicate 32 1 @ d)\<rparr>]"

definition demo_genesis :: AUM where
  "demo_genesis = zeroAUM\<lparr>a_MessageKind := AUMCheckpoint, a_State := Some demo_state,
     a_Signatures := Some (demo_sign (0 # 5 # replicate 30 0))\<rparr>"

definition demo_update :: AUM where
  "demo_update = demo_add\<lparr>a_PrevAUMHash := Some (0 # 5 # replicate 30 0),
     a_Signatures := Some (demo_sign (1 # 1 # 2 # replicate 29 0))\<rparr>"

definition demo_fs :: FS where
  "demo_fs = snd (FS_CommitVerifiedAUMs demo_lib (emptyFS 1) [demo_genesis])"

definition demo_auth :: Authority where
  "demo_auth = \<lparr>au_head = demo_genesis, au_oldestAncestor = demo_genesis, au_state = cloneForUpdate demo_lib demo_state demo_genesis\<rparr>"

lemma demo_hash:
  "AUM_Hash demo_lib demo_genesis = 0 # 5 # replicate 30 0" "AUM_Hash demo_lib demo_update = 1 # 1 # 2 # replicate 29 0"
  "AUM_SigHash demo_lib demo_genesis = 0 # 5 # replicate 30 0" "AUM_SigHash demo_lib demo_update = 1 # 1 # 2 # replicate 29 0"
  by (simp_all add: AUM_Hash_def AUM_SigHash_def AUM_Serialize_def demo_lib_def demo_genesis_def demo_update_def
      demo_add_def zeroAUM_def demo_key_def kid_def numeral_eq_Suc)

lemma demo_genesis_parent: "AUM_Parent demo_genesis = None"
  by (simp add: AUM_Parent_def demo_genesis_def zeroAUM_def)

lemma demo_update_parent: "AUM_Parent demo_update = Some (AUM_Hash demo_lib demo_genesis)"
  by (simp add: AUM_Parent_def demo_hash) (simp add: demo_update_def zeroHash_def)

lemma demo_inj: "inj_on (AUM_Hash demo_lib) {demo_genesis, demo_update}"
  by (auto simp: inj_on_def demo_hash)

lemma demo_acyclic: "acyclic (parents demo_lib {demo_genesis, demo_update})"
proof -
  have "parents demo_lib {demo_genesis, demo_update} \<subseteq> {(demo_genesis, demo_update)}"
    by (auto simp: parents_def demo_genesis_parent demo_update_parent demo_hash)
  moreover have "acyclic {(demo_genesis, demo_update)}"
  proof -
    have "demo_genesis \<noteq> demo_update" using demo_hash by auto
    then show ?thesis by (auto simp: acyclic_def trancl_insert)
  qed
  ultimately show ?thesis by (rule acyclic_subset [rotated])
qed

lemma demo_fs_inv: "FS_inv demo_lib demo_fs" "FS_store demo_fs = {demo_genesis}"
  "FS_CommitVerifiedAUMs demo_lib (emptyFS 1) [demo_genesis] = (Ret (), demo_fs)"
proof -
  obtain c where c: "FS_CommitVerifiedAUMs demo_lib (emptyFS 1) [demo_genesis] = (Ret (), c)" "FS_inv demo_lib c"
    "FS_store c = {demo_genesis}"
    using FS_commit_law [of demo_lib "emptyFS 1" "[demo_genesis]"] by auto
  then have "demo_fs = c" by (simp add: demo_fs_def)
  then show "FS_inv demo_lib demo_fs" "FS_store demo_fs = {demo_genesis}"
    "FS_CommitVerifiedAUMs demo_lib (emptyFS 1) [demo_genesis] = (Ret (), demo_fs)" using c by auto
qed

lemma demo_state_at: "state_at demo_lib {demo_genesis} demo_genesis (cloneForUpdate demo_lib demo_state demo_genesis)"
proof -
  have "is_path demo_lib {demo_genesis} [demo_genesis]" by (simp add: is_path_single is_base_def demo_genesis_def)
  moreover have "replay demo_lib [demo_genesis] = Ret (cloneForUpdate demo_lib demo_state demo_genesis)"
    by (simp add: replay_def base_state_def) (simp add: demo_genesis_def)
  ultimately show ?thesis unfolding state_at_def by (metis last.simps)
qed

lemma demo_auth_ok: "authority_ok demo_lib (FS_store demo_fs) demo_auth"
  using demo_state_at by (simp add: authority_ok_def demo_fs_inv demo_auth_def)

lemma demo_update_verify: "aumVerify demo_lib demo_update (au_state demo_auth) False = Ret ()"
proof -
  have "AUM_StaticValidate demo_update = Ret ()"
    by (simp add: AUM_StaticValidate_def demo_update_def demo_add_def zeroAUM_def demo_sign_def)
  moreover have "checkParent demo_update (au_state demo_auth) = Ret ()"
    by (simp add: checkParent_def demo_update_parent demo_auth_def)
  moreover have "els (a_Signatures demo_update) = demo_sign (AUM_SigHash demo_lib demo_update)"
    by (simp add: demo_hash) (simp add: demo_update_def)
  moreover have "GetKey (au_state demo_auth) (Some (replicate 32 1)) = Ret (demo_key 1)"
    by (simp add: GetKey_def demo_auth_def demo_state_def Key_ID_def demo_key_def)
  ultimately show ?thesis
    by (simp add: aumVerify_def demo_sign_def signatureVerify_def) (simp add: demo_lib_def demo_key_def)
qed

subsection \<open>The theorems\<close>

text \<open>
  The state at a stored message. In a file storage that satisfies its invariant and has no hash
  cycle, \<open>computeStateAt\<close> returns a state exactly when a path of at most \<open>maxIter\<close> stored messages leads
  from a checkpoint or a first message to the message with the given hash, and then it is the replay
  of that path: messages on other branches do not matter, and the replay is found whenever it exists.
\<close>

theorem computeStateAt_replay:
  assumes "FS_inv L c" "acyclic (parents L (FS_store c))"
  shows "computeStateAt L (FS_Chonk L) c maxIter h = Ret st \<longleftrightarrow>
    (\<exists>p. is_path L (FS_store c) p \<and> AUM_Hash L (last p) = h \<and> length p \<le> maxIter \<and> replay L p = Ret st)"
  using assms by (rule fs.computeStateAt_iff)

theorem computeStateAt_replay_witness:
  "computeStateAt demo_lib (FS_Chonk demo_lib) demo_fs 1 (0 # 5 # replicate 30 0)
     = Ret (cloneForUpdate demo_lib demo_state demo_genesis)"
proof -
  have acyc: "acyclic (parents demo_lib (FS_store demo_fs))"
    unfolding demo_fs_inv using demo_acyclic by (rule acyclic_subset) (auto simp: parents_def)
  obtain p where "is_path demo_lib {demo_genesis} p" "last p = demo_genesis"
    "replay demo_lib p = Ret (cloneForUpdate demo_lib demo_state demo_genesis)"
    using demo_state_at by (auto simp: state_at_def)
  moreover have "is_path demo_lib {demo_genesis} [demo_genesis]" by (simp add: is_path_single is_base_def demo_genesis_def)
  ultimately have "replay demo_lib [demo_genesis] = Ret (cloneForUpdate demo_lib demo_state demo_genesis)"
    using path_unique [of demo_lib "{demo_genesis}" p "[demo_genesis]"] by simp
  then show ?thesis
    using computeStateAt_replay [OF demo_fs_inv(1) acyc, of 1 "0 # 5 # replicate 30 0"] demo_fs_inv(2) demo_hash(1)
      \<open>is_path demo_lib {demo_genesis} [demo_genesis]\<close> by fastforce
qed

text \<open>
  C26. Only verified updates enter the storage. Let a file storage satisfy its invariant, let the
  authority hold the state at its head, and let no two messages among the stored ones and the updates
  have the same hash or lie on a hash cycle. Then \<open>InformIdempotent\<close> either fails and leaves the
  storage as it was, or the storage afterwards holds exactly the old messages and all the updates.
  Every new message is then statically valid, its parent is stored, and it is signed: each of its
  signatures (at least one) verifies with a key that the replayed state at the parent trusts. If an
  authority is returned, it holds the state at its head again.
\<close>

theorem InformIdempotent_verified:
  assumes "FS_inv L c" "acyclic (parents L (FS_store c \<union> set us))" "inj_on (AUM_Hash L) (FS_store c \<union> set us)"
    and "authority_ok L (FS_store c) a" "InformIdempotent L (FS_Chonk L) c a us = (r, c')"
  shows "c' = c \<and> (\<forall>a'. r \<noteq> Ret a') \<or>
    FS_inv L c' \<and> FS_store c' = FS_store c \<union> set us \<and>
    (\<forall>u\<in>FS_store c' - FS_store c. AUM_StaticValidate u = Ret () \<and>
       (\<exists>b\<in>FS_store c'. \<exists>st. AUM_Parent u = Some (AUM_Hash L b) \<and> state_at L (FS_store c') b st \<and> signed_by_trusted L st u)) \<and>
    (\<forall>a'. r = Ret a' \<longrightarrow> authority_ok L (FS_store c') a')"
proof -
  have "AUM_StaticValidate u = Ret () \<and> (\<exists>b\<in>S. \<exists>st. AUM_Parent u = Some (AUM_Hash L b) \<and> state_at L S b st \<and> signed_by_trusted L st u)"
    if "vouched L S u" for S u
    using that aumVerify_sound unfolding vouched_def by blast
  then show ?thesis using fs.InformIdempotent_result [OF assms] unfolding fs.inform_result_def by blast
qed

theorem InformIdempotent_verified_witness:
  "\<exists>r c'. InformIdempotent demo_lib (FS_Chonk demo_lib) demo_fs demo_auth [demo_update] = (r, c')
     \<and> (\<forall>a'. r = Ret a' \<longrightarrow> authority_ok demo_lib (FS_store c') a')"
proof -
  obtain r c' where r: "InformIdempotent demo_lib (FS_Chonk demo_lib) demo_fs demo_auth [demo_update] = (r, c')" by fastforce
  have "FS_store demo_fs \<union> set [demo_update] = {demo_genesis, demo_update}" by (auto simp: demo_fs_inv)
  then show ?thesis
    using InformIdempotent_verified [OF demo_fs_inv(1) _ _ demo_auth_ok r] demo_acyclic demo_inj r by auto
qed

end
