(* ===== verification/Tka_Builder.thy ===== *)
theory Tka_Builder
  imports Tka_Inform
begin

section \<open>Package \<open>tka\<close>: building updates\<close>

text \<open>
  \<open>src/tka/builder.go\<close>. A builder keeps a pointer to the authority, which \<open>Inform\<close> changes in place;
  the operations that look through the pointer get the authority of that moment as the argument \<open>a\<close>.
  A method returns its result and the builder; an operation that fails leaves the builder as it was.

  The main theorem composes the builder with the authority: what a builder produces with a signer whose
  keys stay trusted, \<open>Inform\<close> takes in, and the authority then trusts what the builder promised.
\<close>

type_synonym signer = "bytes \<Rightarrow> Signature list outcome"

record UpdateBuilder =
  b_signer :: "signer option"
  b_state :: State
  b_parent :: AUMHash
  b_out :: "AUM list"

definition mkUpdate :: "'z tka_lib_scheme \<Rightarrow> UpdateBuilder \<Rightarrow> AUM \<Rightarrow> unit outcome \<times> UpdateBuilder" where
  "mkUpdate L b update0 =
     (let update1 = update0\<lparr>a_PrevAUMHash := Some (copy_at (replicate (length (b_parent b)) 0) 0 (b_parent b))\<rparr>;
          signed = (case b_signer b of
              None \<Rightarrow> Ret update1
            | Some signer \<Rightarrow> andThen (wrap ''signing failed'' (signer (AUM_SigHash L update1))) (\<lambda>sigs.
                let all = els (a_Signatures update1) @ sigs in
                Ret (update1\<lparr>a_Signatures := (if all = [] then a_Signatures update1 else Some all)\<rparr>)))
      in case andThen signed (\<lambda>update.
             andThen (wrap ''generated update was invalid'' (AUM_StaticValidate update)) (\<lambda>_.
               andThen (wrap ''update cannot be applied'' (applyVerifiedAUM L (b_state b) update)) (\<lambda>st.
                 Ret (b\<lparr>b_state := st, b_parent := AUM_Hash L update, b_out := b_out b @ [update]\<rparr>)))) of
           Ret b' \<Rightarrow> (Ret (), b')
         | Raise e \<Rightarrow> (Raise e, b)
         | Panic \<Rightarrow> (Panic, b))"

definition builder_AddKey :: "'z tka_lib_scheme \<Rightarrow> UpdateBuilder \<Rightarrow> Key \<Rightarrow> unit outcome \<times> UpdateBuilder" where
  "builder_AddKey L b key =
     (case Key_ID key of
        Raise e \<Rightarrow> (Raise e, b)
      | Panic \<Rightarrow> (Panic, b)
      | Ret keyID \<Rightarrow>
          if succeeds (GetKey (b_state b) keyID) then (Raise (Err ''cannot add key: already exists''), b)
          else mkUpdate L b (zeroAUM\<lparr>a_MessageKind := AUMAddKey, a_Key := Some key\<rparr>))"

text \<open>The other three operations first look the key up.\<close>

definition with_key :: "UpdateBuilder \<Rightarrow> KeyID \<Rightarrow> unit outcome \<times> UpdateBuilder \<Rightarrow> unit outcome \<times> UpdateBuilder" where
  "with_key b keyID r =
     (case wrap ''failed reading key'' (GetKey (b_state b) keyID) of Ret _ \<Rightarrow> r | Raise e \<Rightarrow> (Raise e, b) | Panic \<Rightarrow> (Panic, b))"

definition builder_RemoveKey :: "'z tka_lib_scheme \<Rightarrow> UpdateBuilder \<Rightarrow> KeyID \<Rightarrow> unit outcome \<times> UpdateBuilder" where
  "builder_RemoveKey L b keyID =
     with_key b keyID (mkUpdate L b (zeroAUM\<lparr>a_MessageKind := AUMRemoveKey, a_KeyID := keyID\<rparr>))"

definition SetKeyVote :: "'z tka_lib_scheme \<Rightarrow> UpdateBuilder \<Rightarrow> KeyID \<Rightarrow> u64 \<Rightarrow> unit outcome \<times> UpdateBuilder" where
  "SetKeyVote L b keyID votes =
     with_key b keyID (mkUpdate L b (zeroAUM\<lparr>a_MessageKind := AUMUpdateKey, a_Votes := Some votes, a_KeyID := keyID\<rparr>))"

definition SetKeyMeta :: "'z tka_lib_scheme \<Rightarrow> UpdateBuilder \<Rightarrow> KeyID \<Rightarrow> meta option \<Rightarrow> unit outcome \<times> UpdateBuilder" where
  "SetKeyMeta L b keyID meta =
     with_key b keyID (mkUpdate L b (zeroAUM\<lparr>a_MessageKind := AUMUpdateKey, a_Meta := meta, a_KeyID := keyID\<rparr>))"

fun apply_all :: "'z tka_lib_scheme \<Rightarrow> State \<Rightarrow> AUM list \<Rightarrow> State outcome" where
  "apply_all L st [] = Ret st"
| "apply_all L st (u # us) = andThen (wrap ''applying update'' (applyVerifiedAUM L st u)) (\<lambda>st'. apply_all L st' us)"

definition generateCheckpoint :: "'z tka_lib_scheme \<Rightarrow> Authority \<Rightarrow> UpdateBuilder \<Rightarrow> unit outcome \<times> UpdateBuilder" where
  "generateCheckpoint L a b =
     (case apply_all L (au_state a) (b_out b) of
        Ret st \<Rightarrow> mkUpdate L b (zeroAUM\<lparr>a_MessageKind := AUMCheckpoint, a_State := Some (st\<lparr>s_LastAUMHash := None\<rparr>)\<rparr>)
      | Raise e \<Rightarrow> (Raise e, b)
      | Panic \<Rightarrow> (Panic, b))"

definition checkpointEvery :: nat where [simp]: "checkpointEvery = 50"

text \<open>The search for a recent checkpoint, with the number of rounds left.\<close>

fun need_checkpoint :: "('s, 'y) Chonk_scheme \<Rightarrow> 's \<Rightarrow> nat \<Rightarrow> AUMHash \<Rightarrow> bool outcome" where
  "need_checkpoint C s 0 cursor = Ret True"
| "need_checkpoint C s (Suc n) cursor =
     (case c_AUM C s cursor of
        Raise e \<Rightarrow> if e = ErrNotExist then Ret False else Raise (Err ''reading AUM'')
      | Panic \<Rightarrow> Panic
      | Ret aum \<Rightarrow>
          if a_MessageKind aum = AUMCheckpoint then Ret False
          else case AUM_Parent aum of None \<Rightarrow> Ret False | Some parent \<Rightarrow> need_checkpoint C s n parent)"

definition Finalize ::
    "'z tka_lib_scheme \<Rightarrow> ('s, 'y) Chonk_scheme \<Rightarrow> 's \<Rightarrow> Authority \<Rightarrow> UpdateBuilder \<Rightarrow> AUM list outcome \<times> UpdateBuilder" where
  "Finalize L C s a b =
     (case andThen (Authority_Head a) (need_checkpoint C s (checkpointEvery - length (b_out b))) of
        Raise e \<Rightarrow> (Raise e, b)
      | Panic \<Rightarrow> (Panic, b)
      | Ret need \<Rightarrow>
          (let (r, b') = (if need then generateCheckpoint L a b else (Ret (), b)) in
           (andThen (wrap ''generating checkpoint'' r) (\<lambda>_.
              case b_out b' of
                [] \<Rightarrow> Ret []
              | u # _ \<Rightarrow> andThen (Authority_Head a) (\<lambda>head.
                  if (case AUM_Parent u of None \<Rightarrow> zeroHash | Some p \<Rightarrow> p) \<noteq> head
                  then Raise (Err ''updates no longer apply to head'') else Ret (b_out b'))), b')))"

definition NewUpdater :: "Authority \<Rightarrow> signer option \<Rightarrow> UpdateBuilder outcome" where
  "NewUpdater a signer =
     andThen (Authority_Head a) (\<lambda>head. Ret \<lparr>b_signer = signer, b_state = au_state a, b_parent = head, b_out = []\<rparr>)"

subsection \<open>Chains that are accepted\<close>

fun accepted :: "'z tka_lib_scheme \<Rightarrow> State \<Rightarrow> AUM list \<Rightarrow> State \<Rightarrow> bool" where
  "accepted L st [] st' \<longleftrightarrow> st' = st"
| "accepted L st (u # us) st' \<longleftrightarrow>
     aumVerify L u st False = Ret () \<and> (\<exists>st1. applyVerifiedAUM L st u = Ret st1 \<and> accepted L st1 us st')"

lemma accepted_snoc:
  "accepted L st (us @ [u]) st'' \<longleftrightarrow>
     (\<exists>st'. accepted L st us st' \<and> aumVerify L u st' False = Ret () \<and> applyVerifiedAUM L st' u = Ret st'')"
  by (induction us arbitrary: st) auto

lemma accepted_apply_all: "accepted L st us st' \<Longrightarrow> apply_all L st us = Ret st'"
  by (induction us arbitrary: st) (auto simp: outcome_simps)

lemma accepted_first: "accepted L st (u # us) st' \<Longrightarrow> AUM_Parent u = s_LastAUMHash st"
  using aumVerify_sound(3) [of L u st False] by simp

context chonk
begin

text \<open>A chain that starts at the state of the head takes the fast path.\<close>

lemma inform_loop_accepted:
  assumes "inv s"
  shows "accepted L st us st' \<Longrightarrow> AUM_Hash L ` set us \<inter> AUM_Hash L ` store s = {} \<Longrightarrow> in_isHeadChain v \<Longrightarrow>
    in_stateAt v (in_prevHash v) = Some st \<Longrightarrow> s_LastAUMHash st = Some (in_prevHash v) \<Longrightarrow>
    \<exists>v'. inform_loop L C s v us = Ret v' \<and> in_isHeadChain v' \<and> in_toCommit v' = in_toCommit v @ us
      \<and> in_stateAt v' (in_prevHash v') = Some st'"
proof (induction us arbitrary: st v)
  case (Cons u us)
  obtain st1 where st1: "aumVerify L u st False = Ret ()" "applyVerifiedAUM L st u = Ret st1" "accepted L st1 us st'"
    using Cons.prems(1) by auto
  have miss: "c_AUM C s (AUM_Hash L u) = Raise ErrNotExist" using AUM_miss [OF assms] Cons.prems(2) by simp
  have par: "AUM_Parent u = Some (in_prevHash v)" using accepted_first Cons.prems(1,5) by metis
  let ?v = "\<lparr>in_stateAt = (in_stateAt v)(AUM_Hash L u \<mapsto> st1), in_toCommit = in_toCommit v @ [u], in_prevHash = AUM_Hash L u,
     in_isHeadChain = True\<rparr>"
  have "inform_step L C s v u = Ret ?v" using miss par Cons.prems(3,4) st1 by (simp add: inform_step_def Let_def)
  moreover have "\<exists>v'. inform_loop L C s ?v us = Ret v' \<and> in_isHeadChain v' \<and> in_toCommit v' = in_toCommit ?v @ us
      \<and> in_stateAt v' (in_prevHash v') = Some st'"
    by (rule Cons.IH [OF st1(3)]) (use Cons.prems(2) apply_sets_last [OF st1(2)] in auto)
  ultimately show ?case by auto
qed simp

lemma InformIdempotent_accepted:
  assumes inv: "inv s" and acc: "accepted L (au_state a) us st'" and ne: "us \<noteq> []"
    and head: "s_LastAUMHash (au_state a) \<noteq> None"
    and inj: "inj_on (AUM_Hash L) (store s \<union> set us)" and new: "set us \<inter> store s = {}"
  shows "\<exists>s'. InformIdempotent L C s a us =
      (Ret \<lparr>au_head = last us, au_oldestAncestor = au_oldestAncestor a, au_state = st'\<rparr>, s')
    \<and> inv s' \<and> store s' = store s \<union> set us"
proof -
  obtain h where h: "s_LastAUMHash (au_state a) = Some h" using head by auto
  let ?v = "\<lparr>in_stateAt = [h \<mapsto> au_state a], in_toCommit = [], in_prevHash = h, in_isHeadChain = True\<rparr>"
  have "AUM_Hash L ` set us \<inter> AUM_Hash L ` store s = {}"
    using inj new inj_on_image_Int [OF inj, of "set us" "store s"] by auto
  then obtain v where v: "inform_loop L C s ?v us = Ret v" "in_isHeadChain v" "in_toCommit v = us"
      "in_stateAt v (in_prevHash v) = Some st'"
    using inform_loop_accepted [OF inv acc, of ?v] h by auto
  obtain s' where "c_CommitVerifiedAUMs C s us = (Ret (), s')" "inv s'" "store s' = store s \<union> set us"
    using Commit_law [OF inv inj] by blast
  then show ?thesis using v h ne by (simp add: InformIdempotent_def Authority_Head_def)
qed

end

subsection \<open>What a builder guarantees\<close>

definition good_signer :: "'z tka_lib_scheme \<Rightarrow> bytes set \<Rightarrow> signer \<Rightarrow> bool" where
  "good_signer L I sg \<longleftrightarrow> (\<forall>d. \<exists>sigs. sg d = Ret sigs \<and> sigs \<noteq> [] \<and>
     (\<forall>sig\<in>set sigs. els (sig_KeyID sig) \<in> I \<and> length (els (sig_KeyID sig)) = 32 \<and>
        ed25519consensus_Verify L (els (sig_KeyID sig)) d (els (sig_Signature sig))))"

definition builder_ok :: "'z tka_lib_scheme \<Rightarrow> bytes set \<Rightarrow> Authority \<Rightarrow> UpdateBuilder \<Rightarrow> bool" where
  "builder_ok L I a b \<longleftrightarrow> accepted L (au_state a) (b_out b) (b_state b) \<and> s_LastAUMHash (b_state b) = Some (b_parent b)
     \<and> length (b_parent b) = 32 \<and> state_ok (b_state b) \<and> (\<forall>i\<in>I. trusted (b_state b) i \<noteq> None)"

text \<open>The update keeps the keys in \<open>I\<close> trusted.\<close>

definition keeps :: "bytes set \<Rightarrow> AUM \<Rightarrow> bool" where
  "keeps I u \<longleftrightarrow> (a_MessageKind u = AUMRemoveKey \<longrightarrow> els (a_KeyID u) \<notin> I)
     \<and> (a_MessageKind u = AUMCheckpoint \<longrightarrow> (\<forall>i\<in>I. trusted (the (a_State u)) i \<noteq> None))"

lemma trust_step_keeps:
  "keeps I u \<Longrightarrow> \<forall>i\<in>I. t i \<noteq> None \<Longrightarrow> i \<in> I \<Longrightarrow> trust_step u t i \<noteq> None"
  by (auto simp: trust_step_def keeps_def)

lemma verify_good_sigs:
  assumes "state_ok st" "\<forall>i\<in>I. trusted st i \<noteq> None"
    and "\<forall>sig\<in>set sigs. els (sig_KeyID sig) \<in> I \<and> length (els (sig_KeyID sig)) = 32
      \<and> ed25519consensus_Verify L (els (sig_KeyID sig)) d (els (sig_Signature sig))"
  shows "verify_sigs L st d sigs = Ret ()"
  unfolding verify_sigs_iff
proof
  fix sig assume sig: "sig \<in> set sigs"
  then obtain k where k: "trusted st (els (sig_KeyID sig)) = Some k" using assms(2,3) by blast
  then have "k \<in> set (els (s_Keys st))" "kid k = els (sig_KeyID sig)" using kmap_SomeD by (auto simp: trusted_def)
  then show "\<exists>k. GetKey st (sig_KeyID sig) = Ret k \<and> signatureVerify L sig d k = Ret ()"
    using k sig assms by (auto simp: GetKey_eq signatureVerify_iff state_ok_def keys_ok_def key_valid_def)
qed

lemma revised_eq:
  "revised u = (\<lambda>k. let k1 = (case a_Votes u of None \<Rightarrow> k | Some v \<Rightarrow> k\<lparr>k_Votes := v\<rparr>)
                   in case a_Meta u of None \<Rightarrow> k1 | Some m \<Rightarrow> k1\<lparr>k_Meta := Some m\<rparr>)"
  by (simp add: revised_def fun_eq_iff)

lemma mkUpdate_ok:
  assumes hash32: "\<forall>x. length (blake2s_Sum256 L x) = 32" and sg: "good_signer L I sg" "b_signer b = Some sg"
    and ok: "builder_ok L I a b" and u0: "a_Signatures u0 = None" "keeps I u0"
    and r: "mkUpdate L b u0 = (Ret (), b')"
  shows "builder_ok L I a b' \<and> b_signer b' = Some sg \<and> trusted (b_state b') = trust_step u0 (trusted (b_state b))"
proof -
  have b: "s_LastAUMHash (b_state b) = Some (b_parent b)" "length (b_parent b) = 32" "state_ok (b_state b)"
    "\<forall>i\<in>I. trusted (b_state b) i \<noteq> None" "accepted L (au_state a) (b_out b) (b_state b)"
    using ok by (auto simp: builder_ok_def)
  define u1 where "u1 = u0\<lparr>a_PrevAUMHash := Some (b_parent b)\<rparr>"
  obtain sigs where sigs: "sg (AUM_SigHash L u1) = Ret sigs" "sigs \<noteq> []"
    "\<forall>sig\<in>set sigs. els (sig_KeyID sig) \<in> I \<and> length (els (sig_KeyID sig)) = 32
      \<and> ed25519consensus_Verify L (els (sig_KeyID sig)) (AUM_SigHash L u1) (els (sig_Signature sig))"
    using sg(1) unfolding good_signer_def by blast
  define u where "u = u1\<lparr>a_Signatures := Some sigs\<rparr>"
  obtain st where st: "AUM_StaticValidate u = Ret ()" "applyVerifiedAUM L (b_state b) u = Ret st"
    "b' = b\<lparr>b_state := st, b_parent := AUM_Hash L u, b_out := b_out b @ [u]\<rparr>"
    using r sigs(1,2) sg(2) u0(1)
    by (auto simp: mkUpdate_def u1_def u_def Let_def outcome_simps split: outcome.splits)
  have "AUM_SigHash L u = AUM_SigHash L u1" using u0(1) by (simp add: AUM_SigHash_def u_def u1_def)
  then have "verify_sigs L (b_state b) (AUM_SigHash L u) sigs = Ret ()" using verify_good_sigs b(3,4) sigs(3) by metis
  moreover have "AUM_Parent u = Some (b_parent b)"
  proof -
    have "b_parent b \<noteq> []" using b(2) by auto
    then show ?thesis using b(2) by (simp add: AUM_Parent_def u_def u1_def zeroHash_def)
  qed
  ultimately have ver: "aumVerify L u (b_state b) False = Ret ()"
    using st(1) b(1) sigs(2) by (simp add: aumVerify_def checkParent_def) (simp add: u_def)
  have ap: "applied L (b_state b) u st" using apply_RetD b(3) st(1,2) by blast
  have step: "trust_step u = trust_step u0" "keeps I u"
    using u0(2) by (auto simp: trust_step_def keeps_def u_def u1_def fun_eq_iff revised_eq)
  have "accepted L (au_state a) (b_out b') (b_state b')" using st(2,3) b(5) ver by (auto simp: accepted_snoc)
  moreover have "length (AUM_Hash L u) = 32" using hash32 by (simp add: AUM_Hash_def)
  moreover have "\<forall>i\<in>I. trusted st i \<noteq> None" using ap trust_step_keeps [OF step(2) b(4)] by (auto simp: applied_def)
  ultimately show ?thesis using ap st(3) sg(2) step(1) by (auto simp: builder_ok_def applied_def)
qed

text \<open>The operations a client calls, in a sequence that stops at the first error.\<close>

datatype builder_op = OpAddKey Key | OpRemoveKey KeyID | OpSetKeyVote KeyID u64 | OpSetKeyMeta KeyID "meta option"

fun run_op :: "'z tka_lib_scheme \<Rightarrow> UpdateBuilder \<Rightarrow> builder_op \<Rightarrow> unit outcome \<times> UpdateBuilder" where
  "run_op L b (OpAddKey k) = builder_AddKey L b k"
| "run_op L b (OpRemoveKey i) = builder_RemoveKey L b i"
| "run_op L b (OpSetKeyVote i v) = SetKeyVote L b i v"
| "run_op L b (OpSetKeyMeta i m) = SetKeyMeta L b i m"

fun run_ops :: "'z tka_lib_scheme \<Rightarrow> UpdateBuilder \<Rightarrow> builder_op list \<Rightarrow> unit outcome \<times> UpdateBuilder" where
  "run_ops L b [] = (Ret (), b)"
| "run_ops L b (x # xs) = (case run_op L b x of (Ret _, b') \<Rightarrow> run_ops L b' xs | r \<Rightarrow> r)"

text \<open>What an operation promises.\<close>

fun op_trust :: "builder_op \<Rightarrow> (bytes \<Rightarrow> Key option) \<Rightarrow> bytes \<Rightarrow> Key option" where
  "op_trust (OpAddKey k) t = t(kid k \<mapsto> k)"
| "op_trust (OpRemoveKey i) t = t(els i := None)"
| "op_trust (OpSetKeyVote i v) t = t(els i := map_option (\<lambda>k. k\<lparr>k_Votes := v\<rparr>) (t (els i)))"
| "op_trust (OpSetKeyMeta i m) t =
     t(els i := map_option (\<lambda>k. case m of None \<Rightarrow> k | Some x \<Rightarrow> k\<lparr>k_Meta := Some x\<rparr>) (t (els i)))"

fun op_keeps :: "bytes set \<Rightarrow> builder_op \<Rightarrow> bool" where
  "op_keeps I (OpRemoveKey i) \<longleftrightarrow> els i \<notin> I"
| "op_keeps I _ \<longleftrightarrow> True"

lemma run_op_mkUpdate:
  assumes "run_op L b x = (Ret (), b')" "op_keeps I x"
  shows "\<exists>u. mkUpdate L b u = (Ret (), b') \<and> a_Signatures u = None \<and> keeps I u \<and> trust_step u = op_trust x"
proof (cases x)
  case (OpAddKey k)
  then show ?thesis using assms
    by (intro exI [of _ "zeroAUM\<lparr>a_MessageKind := AUMAddKey, a_Key := Some k\<rparr>"])
      (auto simp: builder_AddKey_def keeps_def trust_step_def zeroAUM_def fun_eq_iff split: outcome.splits if_splits)
next
  case (OpRemoveKey i)
  then show ?thesis using assms
    by (intro exI [of _ "zeroAUM\<lparr>a_MessageKind := AUMRemoveKey, a_KeyID := i\<rparr>"])
      (auto simp: builder_RemoveKey_def with_key_def keeps_def trust_step_def zeroAUM_def fun_eq_iff split: outcome.splits)
next
  case (OpSetKeyVote i v)
  then show ?thesis using assms
    by (intro exI [of _ "zeroAUM\<lparr>a_MessageKind := AUMUpdateKey, a_Votes := Some v, a_KeyID := i\<rparr>"])
      (auto simp: SetKeyVote_def with_key_def keeps_def trust_step_def revised_eq zeroAUM_def fun_eq_iff split: outcome.splits)
next
  case (OpSetKeyMeta i m)
  then show ?thesis using assms
    by (intro exI [of _ "zeroAUM\<lparr>a_MessageKind := AUMUpdateKey, a_Meta := m, a_KeyID := i\<rparr>"])
      (auto simp: SetKeyMeta_def with_key_def keeps_def trust_step_def revised_eq zeroAUM_def fun_eq_iff split: outcome.splits)
qed

lemma run_ops_ok:
  assumes hash32: "\<forall>x. length (blake2s_Sum256 L x) = 32" and sg: "good_signer L I sg"
  shows "run_ops L b ops = (Ret (), b') \<Longrightarrow> \<forall>x\<in>set ops. op_keeps I x \<Longrightarrow> builder_ok L I a b \<Longrightarrow> b_signer b = Some sg \<Longrightarrow>
    builder_ok L I a b' \<and> b_signer b' = Some sg \<and> trusted (b_state b') = fold op_trust ops (trusted (b_state b))"
proof (induction ops arbitrary: b)
  case (Cons x xs)
  obtain b1 where b1: "run_op L b x = (Ret (), b1)" "run_ops L b1 xs = (Ret (), b')"
    using Cons.prems(1) by (auto split: prod.splits outcome.splits)
  obtain u where u: "mkUpdate L b u = (Ret (), b1)" "a_Signatures u = None" "keeps I u" "trust_step u = op_trust x"
    using run_op_mkUpdate b1(1) Cons.prems(2) by (metis list.set_intros(1))
  have ok1: "builder_ok L I a b1" "b_signer b1 = Some sg" "trusted (b_state b1) = op_trust x (trusted (b_state b))"
    using mkUpdate_ok [OF hash32 sg Cons.prems(4,3) u(2,3,1)] u(4) by auto
  then show ?case using Cons.IH [OF b1(2) _ ok1(1,2)] Cons.prems(2) by simp
qed simp

lemma generateCheckpoint_ok:
  assumes hash32: "\<forall>x. length (blake2s_Sum256 L x) = 32" and sg: "good_signer L I sg" "b_signer b = Some sg"
    and ok: "builder_ok L I a b" and r: "generateCheckpoint L a b = (Ret (), b')"
  shows "builder_ok L I a b' \<and> trusted (b_state b') = trusted (b_state b)"
proof -
  let ?u = "zeroAUM\<lparr>a_MessageKind := AUMCheckpoint, a_State := Some ((b_state b)\<lparr>s_LastAUMHash := None\<rparr>)\<rparr>"
  have "apply_all L (au_state a) (b_out b) = Ret (b_state b)"
    using ok accepted_apply_all by (auto simp: builder_ok_def)
  then have "mkUpdate L b ?u = (Ret (), b')" using r by (simp add: generateCheckpoint_def)
  moreover have "keeps I ?u" using ok by (auto simp: keeps_def builder_ok_def trusted_def zeroAUM_def)
  ultimately have "builder_ok L I a b' \<and> trusted (b_state b') = trust_step ?u (trusted (b_state b))"
    using mkUpdate_ok [OF hash32 sg ok, of ?u b'] by (simp add: zeroAUM_def)
  moreover have "trust_step ?u (trusted (b_state b)) = trusted (b_state b)"
    by (simp add: trust_step_def zeroAUM_def trusted_def)
  ultimately show ?thesis by simp
qed

lemma Finalize_ok:
  assumes hash32: "\<forall>x. length (blake2s_Sum256 L x) = 32" and sg: "good_signer L I sg" "b_signer b = Some sg"
    and ok: "builder_ok L I a b" and r: "Finalize L C s a b = (Ret us, b')"
  shows "accepted L (au_state a) us (b_state b') \<and> trusted (b_state b') = trusted (b_state b)"
proof -
  obtain need where need: "andThen (Authority_Head a) (need_checkpoint C s (checkpointEvery - length (b_out b))) = Ret need"
    using r by (cases "andThen (Authority_Head a) (need_checkpoint C s (checkpointEvery - length (b_out b)))")
      (simp_all add: Finalize_def)
  obtain r1 b1 where rb: "(if need then generateCheckpoint L a b else (Ret (), b)) = (r1, b1)" by fastforce
  have "b1 = b'" "r1 = Ret ()" "us = b_out b'"
    using r need rb by (auto simp: Finalize_def outcome_simps split: list.splits if_splits)
  with rb have need': "(if need then generateCheckpoint L a b else (Ret (), b)) = (Ret (), b')" "us = b_out b'" by simp_all
  then have "builder_ok L I a b' \<and> trusted (b_state b') = trusted (b_state b)"
    using generateCheckpoint_ok [OF hash32 sg ok, of b'] ok by (cases need) auto
  then show ?thesis using need'(2) by (auto simp: builder_ok_def)
qed

text \<open>
  C28. Building updates and taking them in. Take an authority that holds the state at its head in a
  file storage, a signer that signs with keys \<open>I\<close> trusted there, and any sequence of builder operations
  that does not remove a key of \<open>I\<close> and succeeds. Then what \<open>Finalize\<close> returns, if these are new
  messages without hash collisions, is taken in by \<open>InformIdempotent\<close>: it returns no error, all updates
  are stored, the last one is the head, and the authority trusts exactly the keys the sequence of
  operations promises. (Digests have 32 bytes.)
\<close>

theorem builder_inform_roundtrip:
  assumes "\<forall>x. length (blake2s_Sum256 L x) = 32" "good_signer L I sg"
    and "FS_inv L c" "authority_ok L (FS_store c) a" "state_ok (au_state a)" "\<forall>i\<in>I. trusted (au_state a) i \<noteq> None"
    and "NewUpdater a (Some sg) = Ret b0" "run_ops L b0 ops = (Ret (), b)" "\<forall>x\<in>set ops. op_keeps I x"
    and "Finalize L (FS_Chonk L) c a b = (Ret us, b')" "us \<noteq> []"
    and "set us \<inter> FS_store c = {}" "inj_on (AUM_Hash L) (FS_store c \<union> set us)"
  shows "\<exists>a' c'. InformIdempotent L (FS_Chonk L) c a us = (Ret a', c') \<and> FS_inv L c' \<and> FS_store c' = FS_store c \<union> set us
    \<and> au_head a' = last us \<and> trusted (au_state a') = fold op_trust ops (trusted (au_state a))"
proof -
  have last: "s_LastAUMHash (au_state a) = Some (AUM_Hash L (au_head a))"
    using assms(4) state_at_last by (auto simp: authority_ok_def)
  have b0: "b0 = \<lparr>b_signer = Some sg, b_state = au_state a, b_parent = AUM_Hash L (au_head a), b_out = []\<rparr>"
    using assms(7) last by (simp add: NewUpdater_def Authority_Head_def)
  have "builder_ok L I a b0" using b0 last assms(1,5,6) by (simp add: builder_ok_def AUM_Hash_def)
  then have b: "builder_ok L I a b" "b_signer b = Some sg" "trusted (b_state b) = fold op_trust ops (trusted (au_state a))"
    using run_ops_ok [OF assms(1,2,8,9)] b0 by auto
  have "accepted L (au_state a) us (b_state b') \<and> trusted (b_state b') = trusted (b_state b)"
    using Finalize_ok [OF assms(1,2) b(2,1) assms(10)] .
  then show ?thesis
    using fs.InformIdempotent_accepted [OF assms(3) _ assms(11) _ assms(13,12)] last b(3) by force
qed

lemma demo_mkUpdate:
  fixes b0 :: UpdateBuilder
  defines "b0 \<equiv> \<lparr>b_signer = Some (\<lambda>d. Ret (demo_sign d)), b_state = au_state demo_auth,
     b_parent = AUM_Hash demo_lib demo_genesis, b_out = []\<rparr>"
  shows "\<exists>st. run_ops demo_lib b0 [OpAddKey (demo_key 2)] =
    (Ret (), b0\<lparr>b_state := st, b_parent := AUM_Hash demo_lib demo_update, b_out := [demo_update]\<rparr>)"
proof -
  let ?u0 = "zeroAUM\<lparr>a_MessageKind := AUMAddKey, a_Key := Some (demo_key 2)\<rparr>"
  have u1: "?u0\<lparr>a_PrevAUMHash := Some (AUM_Hash demo_lib demo_genesis)\<rparr> = demo_update\<lparr>a_Signatures := None\<rparr>"
    by (simp add: demo_hash) (simp add: demo_update_def demo_add_def zeroAUM_def)
  have sh: "AUM_SigHash demo_lib (demo_update\<lparr>a_Signatures := None\<rparr>) = AUM_SigHash demo_lib demo_update"
    by (simp add: AUM_SigHash_def)
  have sigs: "demo_update\<lparr>a_Signatures := Some (demo_sign (AUM_SigHash demo_lib demo_update))\<rparr> = demo_update"
    by (simp add: demo_hash) (simp add: demo_update_def)
  have valid: "AUM_StaticValidate demo_update = Ret ()" using aumVerify_sound(1) [OF demo_update_verify] .
  have ok: "state_ok (b_state b0)" using demo_state_ok by (simp add: b0_def demo_auth_def)
  have t: "trusted (b_state b0) (kid (demo_key 2)) = None"
    by (simp add: b0_def demo_auth_def) (simp add: trusted_def kmap_def demo_state_def kid_def demo_key_def)
  have "may_apply (b_state b0) demo_update"
    using t by (simp add: may_apply_def parentMatches_def demo_update_def demo_add_def zeroAUM_def)
      (simp add: b0_def demo_auth_def demo_hash)
  then obtain st where st: "applyVerifiedAUM demo_lib (b_state b0) demo_update = Ret st"
    using apply_total [OF ok valid, of demo_lib] by auto
  have get: "\<not> succeeds (GetKey (b_state b0) (k_Public (demo_key 2)))" using GetKey_eq [OF ok] t by (simp add: kid_def)
  have "mkUpdate demo_lib b0 ?u0 = (Ret (), b0\<lparr>b_state := st, b_parent := AUM_Hash demo_lib demo_update, b_out := [demo_update]\<rparr>)"
  proof -
    have p: "b_parent b0 = AUM_Hash demo_lib demo_genesis" "b_signer b0 = Some (\<lambda>d. Ret (demo_sign d))" "b_out b0 = []"
      by (simp_all add: b0_def)
    have ne: "demo_sign d \<noteq> []" for d by (simp add: demo_sign_def)
    show ?thesis unfolding mkUpdate_def using st valid u1 sh sigs ne by (simp add: p Let_def)
  qed
  then show ?thesis using get by (auto simp: builder_AddKey_def Key_ID_valid demo_key_valid)
qed

theorem builder_inform_roundtrip_witness:
  "\<exists>a' c'. InformIdempotent demo_lib (FS_Chonk demo_lib) demo_fs demo_auth [demo_update] = (Ret a', c')
     \<and> au_head a' = demo_update \<and> trusted (au_state a') (replicate 32 2) = Some (demo_key 2)"
proof -
  let ?sg = "\<lambda>d. Ret (demo_sign d)" and ?I = "{replicate 32 1 :: bytes}"
  have last: "s_LastAUMHash (au_state demo_auth) = Some (AUM_Hash demo_lib demo_genesis)" by (simp add: demo_auth_def)
  have h1: "\<forall>x. length (blake2s_Sum256 demo_lib x) = 32" by (simp add: demo_lib_def min_def)
  have h2: "good_signer demo_lib ?I ?sg" by (simp add: good_signer_def demo_sign_def) (simp add: demo_lib_def)
  have h5: "state_ok (au_state demo_auth)" using demo_state_ok by (simp add: demo_auth_def)
  have h6: "\<forall>i\<in>?I. trusted (au_state demo_auth) i \<noteq> None"
    by (simp add: demo_auth_def) (simp add: trusted_def kmap_def demo_state_def kid_def demo_key_def)
  let ?b0 = "\<lparr>b_signer = Some ?sg, b_state = au_state demo_auth, b_parent = AUM_Hash demo_lib demo_genesis, b_out = []\<rparr>"
  have h7: "NewUpdater demo_auth (Some ?sg) = Ret ?b0" using last by (simp add: NewUpdater_def Authority_Head_def)
  obtain st where h8: "run_ops demo_lib ?b0 [OpAddKey (demo_key 2)] =
      (Ret (), ?b0\<lparr>b_state := st, b_parent := AUM_Hash demo_lib demo_update, b_out := [demo_update]\<rparr>)"
    using demo_mkUpdate by blast
  let ?b = "?b0\<lparr>b_state := st, b_parent := AUM_Hash demo_lib demo_update, b_out := [demo_update]\<rparr>"
  have "c_AUM (FS_Chonk demo_lib) demo_fs (AUM_Hash demo_lib demo_genesis) = Ret demo_genesis"
    using fs.AUM_hit [OF demo_fs_inv(1)] demo_fs_inv(2) by simp
  moreover have "a_MessageKind demo_genesis = AUMCheckpoint" by (simp add: demo_genesis_def)
  ultimately have "need_checkpoint (FS_Chonk demo_lib) demo_fs (Suc n) (AUM_Hash demo_lib demo_genesis) = Ret False" for n by simp
  from this [of 48] have h10: "Finalize demo_lib (FS_Chonk demo_lib) demo_fs demo_auth ?b = (Ret [demo_update], ?b)"
    using last by (simp add: Finalize_def Authority_Head_def demo_update_parent del: need_checkpoint.simps)
  have "demo_update \<noteq> demo_genesis" using demo_hash by auto
  then have h12: "set [demo_update] \<inter> FS_store demo_fs = {}" by (simp add: demo_fs_inv)
  have "FS_store demo_fs \<union> set [demo_update] = {demo_genesis, demo_update}" by (auto simp: demo_fs_inv)
  then have h13: "inj_on (AUM_Hash demo_lib) (FS_store demo_fs \<union> set [demo_update])" using demo_inj by simp
  obtain a' c' where "InformIdempotent demo_lib (FS_Chonk demo_lib) demo_fs demo_auth [demo_update] = (Ret a', c')"
    "au_head a' = demo_update" "trusted (au_state a') = fold op_trust [OpAddKey (demo_key 2)] (trusted (au_state demo_auth))"
    using builder_inform_roundtrip [OF h1 h2 demo_fs_inv(1) demo_auth_ok h5 h6 h7 h8 _ h10 _ h12 h13] by auto
  then show ?thesis by (auto simp: kid_def demo_key_def)
qed

end
