(* ===== verification/Tka_Sync.thy ===== *)
theory Tka_Sync
  imports Tka_Builder
begin

section \<open>Package \<open>tka\<close>: synchronization\<close>

text \<open>
  \<open>src/tka/sync.go\<close>: the offer an authority sends to a peer, the intersection of two offers, and the
  messages the peer may miss.
\<close>

definition maxSyncIter :: nat where "maxSyncIter = 2000"
definition maxSyncHeadIntersectionIter :: nat where "maxSyncHeadIntersectionIter = 400"
definition ancestorsSkipStart :: u64 where "ancestorsSkipStart = 4"
definition ancestorsSkipShift :: nat where "ancestorsSkipShift = 2"

record SyncOffer =
  so_Head :: AUMHash
  so_Ancestors :: "AUMHash list"

subsection \<open>The offer\<close>

text \<open>
  The loop with its counter \<open>i\<close> and the rounds \<open>n\<close> left. A message without parent leaves the cursor where
  it is (\<open>copy\<close> of an empty slice copies nothing).
\<close>

fun offer_loop ::
    "'z tka_lib_scheme \<Rightarrow> ('s, 'y) Chonk_scheme \<Rightarrow> 's \<Rightarrow> AUMHash \<Rightarrow> nat \<Rightarrow> u64 \<Rightarrow> u64 \<Rightarrow> AUMHash \<Rightarrow> AUMHash list \<Rightarrow>
     AUMHash list outcome" where
  "offer_loop L C s oldest 0 i skip curs ancestors = Ret ancestors"
| "offer_loop L C s oldest (Suc n) i skip curs ancestors =
     (let hit = (i > 0 \<and> i mod skip = 0);
          ancestors' = (if hit then ancestors @ [curs] else ancestors);
          skip' = (if hit then push_bit ancestorsSkipShift skip else skip)
      in case c_AUM C s curs of
           Raise e \<Rightarrow> if e \<noteq> ErrNotExist then Raise e else Ret ancestors'
         | Panic \<Rightarrow> Panic
         | Ret parent \<Rightarrow>
             if AUM_Hash L parent = oldest then Ret ancestors'
             else offer_loop L C s oldest n (i + 1) skip' (copy_at curs 0 (els (a_PrevAUMHash parent))) ancestors')"

definition Authority_SyncOffer ::
    "'z tka_lib_scheme \<Rightarrow> ('s, 'y) Chonk_scheme \<Rightarrow> 's \<Rightarrow> Authority \<Rightarrow> SyncOffer outcome" where
  "Authority_SyncOffer L C s a =
     (let oldest = AUM_Hash L (au_oldestAncestor a) in
      andThen (Authority_Head a) (\<lambda>head.
        andThen (offer_loop L C s oldest maxSyncHeadIntersectionIter 0 ancestorsSkipStart head []) (\<lambda>ancestors.
          Ret \<lparr>so_Head = head, so_Ancestors = ancestors @ [oldest]\<rparr>)))"

subsection \<open>The intersection\<close>

record intersection =
  is_upToDate :: bool
  is_headIntersection :: "AUMHash option"
  is_tailIntersection :: "AUMHash option"

text \<open>The walk back from the local head: \<open>True\<close> if the remote head is met.\<close>

fun head_loop ::
    "'z tka_lib_scheme \<Rightarrow> ('s, 'y) Chonk_scheme \<Rightarrow> 's \<Rightarrow> AUMHash \<Rightarrow> nat \<Rightarrow> AUMHash \<Rightarrow> bool outcome" where
  "head_loop L C s remoteHead 0 curs = Ret False"
| "head_loop L C s remoteHead (Suc n) curs =
     (case c_AUM C s curs of
        Raise e \<Rightarrow> if e \<noteq> ErrNotExist then Raise e else Ret False
      | Panic \<Rightarrow> Panic
      | Ret parent \<Rightarrow>
          if AUM_Hash L parent = remoteHead then Ret True
          else head_loop L C s remoteHead n (copy_at curs 0 (els (a_PrevAUMHash parent))))"

fun tail_loop ::
    "'z tka_lib_scheme \<Rightarrow> ('s, 'y) Chonk_scheme \<Rightarrow> 's \<Rightarrow> AUMHash \<Rightarrow> AUMHash list \<Rightarrow> intersection outcome" where
  "tail_loop L C s localHead [] = Raise ErrNoIntersection"
| "tail_loop L C s localHead (a # rest) =
     (case computeStateAt L C s maxSyncIter a of
        Raise e \<Rightarrow> if e \<noteq> ErrNotExist then Raise (Err ''computeStateAt'') else tail_loop L C s localHead rest
      | Panic \<Rightarrow> Panic
      | Ret st \<Rightarrow>
          andThen (fst (fastForward L C s maxSyncIter st (\<lambda>acc curs _. (AUM_Hash L curs = localHead, acc)) ())) (\<lambda>(end, _).
            if AUM_Hash L end = localHead
            then Ret \<lparr>is_upToDate = False, is_headIntersection = None, is_tailIntersection = Some a\<rparr>
            else tail_loop L C s localHead rest))"

definition computeSyncIntersection ::
    "'z tka_lib_scheme \<Rightarrow> ('s, 'y) Chonk_scheme \<Rightarrow> 's \<Rightarrow> SyncOffer \<Rightarrow> SyncOffer \<Rightarrow> intersection outcome" where
  "computeSyncIntersection L C s localOffer remoteOffer =
     (if so_Head remoteOffer = so_Head localOffer
      then Ret \<lparr>is_upToDate = True, is_headIntersection = Some (so_Head localOffer), is_tailIntersection = None\<rparr>
      else andThen (case c_AUM C s (so_Head remoteOffer) of
              Ret _ \<Rightarrow> Ret True
            | Raise e \<Rightarrow> if e \<noteq> ErrNotExist then Raise e else Ret False
            | Panic \<Rightarrow> Panic) (\<lambda>hasRemoteHead.
        andThen (if hasRemoteHead then head_loop L C s (so_Head remoteOffer) maxSyncHeadIntersectionIter (so_Head localOffer)
                 else Ret False) (\<lambda>met.
          if met then Ret \<lparr>is_upToDate = False, is_headIntersection = Some (so_Head remoteOffer), is_tailIntersection = None\<rparr>
          else tail_loop L C s (so_Head localOffer) (so_Ancestors remoteOffer))))"

subsection \<open>The missing messages\<close>

text \<open>
  The closure given to \<open>fastForward\<close> collects the messages it sees, and never asks to stop. On an error the
  code returns what was collected too.
\<close>

definition collect_from ::
    "'z tka_lib_scheme \<Rightarrow> ('s, 'y) Chonk_scheme \<Rightarrow> 's \<Rightarrow> AUMHash \<Rightarrow> (AUM list \<times> unit outcome) outcome" where
  "collect_from L C s h =
     andThen (computeStateAt L C s maxSyncIter h) (\<lambda>st.
       let (r, out) = fastForward L C s maxSyncIter st
             (\<lambda>out curs _. (False, if AUM_Hash L curs \<noteq> h then out @ [curs] else out)) []
       in Ret (out, andThen r (\<lambda>_. Ret ())))"

definition MissingAUMs ::
    "'z tka_lib_scheme \<Rightarrow> ('s, 'y) Chonk_scheme \<Rightarrow> 's \<Rightarrow> Authority \<Rightarrow> SyncOffer \<Rightarrow> (AUM list \<times> unit outcome) outcome" where
  "MissingAUMs L C s a remoteOffer =
     andThen (wrap ''local syncOffer'' (Authority_SyncOffer L C s a)) (\<lambda>localOffer.
       andThen (wrap ''intersection'' (computeSyncIntersection L C s localOffer remoteOffer)) (\<lambda>i.
         if is_upToDate i then Ret ([], Ret ())
         else case is_headIntersection i of
             Some h \<Rightarrow> collect_from L C s h
           | None \<Rightarrow> (case is_tailIntersection i of Some h \<Rightarrow> collect_from L C s h | None \<Rightarrow> Panic)))"

subsection \<open>The offer is short\<close>

text \<open>
  The counter reaches the skip amount at 4, 16, 64 and 256: with at most 400 rounds, an offer lists at
  most four ancestors and the oldest message.
\<close>

lemma word_small:
  assumes "k < 2 ^ 32" "m < (2::nat) ^ 32"
  shows "(of_nat k :: u64) > 0 \<longleftrightarrow> k > 0" "(of_nat k mod of_nat m :: u64) = 0 \<longleftrightarrow> k mod m = 0"
proof -
  have u: "unat (of_nat k :: u64) = k" "unat (of_nat m :: u64) = m"
    using assms by (simp_all add: unsigned_of_nat take_bit_nat_eq_self)
  show "(of_nat k :: u64) > 0 \<longleftrightarrow> k > 0" using u(1) by (simp add: word_less_nat_alt)
  show "(of_nat k mod of_nat m :: u64) = 0 \<longleftrightarrow> k mod m = 0"
    using u by (simp add: unat_eq_0 [symmetric] unat_mod_distrib)
qed

lemma offer_loop_length:
  assumes "\<And>h. c_AUM C s h \<noteq> Panic" "\<And>h e. c_AUM C s h = Raise e \<Longrightarrow> e = ErrNotExist"
  shows "k + n \<le> 400 \<Longrightarrow> 1 \<le> j \<Longrightarrow> j \<le> 5 \<Longrightarrow> k \<le> 4 ^ j \<Longrightarrow>
    \<exists>out. offer_loop L C s oldest n (of_nat k) (of_nat (4 ^ j)) curs acc = Ret out \<and> length out \<le> length acc + (5 - j)"
proof (induction n arbitrary: k j curs acc)
  case (Suc n)
  have "(4::nat) ^ j \<le> 4 ^ 5" using Suc.prems(3) by (intro power_increasing) auto
  then have small: "k < 2 ^ 32" "(4::nat) ^ j < 2 ^ 32" using Suc.prems(1) by simp_all
  have hit: "((of_nat k :: u64) > 0 \<and> of_nat k mod of_nat (4 ^ j) = (0::u64)) \<longleftrightarrow> k = 4 ^ j"
    using word_small [OF small] Suc.prems(4) by (auto simp del: of_nat_power)
  obtain j' where j': "j' = (if k = 4 ^ j then j + 1 else j)" by blast
  let ?skip = "if k = 4 ^ j then push_bit ancestorsSkipShift (of_nat (4 ^ j) :: u64) else of_nat (4 ^ j)"
  have skip: "?skip = of_nat (4 ^ j')" by (simp add: j' ancestorsSkipShift_def push_bit_eq_mult)
  have b: "k + 1 + n \<le> 400" "1 \<le> j'" "j' \<le> 5" "k + 1 \<le> 4 ^ j'"
  proof -
    have "j \<noteq> 5" if "k = 4 ^ j" using that Suc.prems(1) by auto
    then show "j' \<le> 5" using Suc.prems(3) j' by auto
    show "k + 1 \<le> 4 ^ j'" using j' Suc.prems(4) by auto
  qed (use Suc.prems j' in auto)
  let ?acc = "if k = 4 ^ j then acc @ [curs] else acc"
  have len: "length ?acc + (5 - j') \<le> length acc + (5 - j)" using b(3) j' by auto
  have IH: "\<exists>out. offer_loop L C s oldest n (of_nat k + 1) ?skip cur ?acc = Ret out \<and> length out \<le> length acc + (5 - j)" for cur
  proof -
    have one: "(of_nat k + 1 :: u64) = of_nat (k + 1)" by simp
    obtain out where "offer_loop L C s oldest n (of_nat (k + 1)) (of_nat (4 ^ j')) cur ?acc = Ret out"
      "length out \<le> length ?acc + (5 - j')"
      using Suc.IH [OF b, of cur ?acc] by blast
    then show ?thesis using len unfolding one skip by (meson le_trans)
  qed
  have step: "offer_loop L C s oldest (Suc n) (of_nat k) (of_nat (4 ^ j)) curs acc =
    (case c_AUM C s curs of
       Raise e \<Rightarrow> if e \<noteq> ErrNotExist then Raise e else Ret ?acc
     | Panic \<Rightarrow> Panic
     | Ret parent \<Rightarrow> if AUM_Hash L parent = oldest then Ret ?acc
         else offer_loop L C s oldest n (of_nat k + 1) ?skip (copy_at curs 0 (els (a_PrevAUMHash parent))) ?acc)"
    by (simp only: offer_loop.simps hit Let_def)
  have small_acc: "length ?acc \<le> length acc + (5 - j)" using len by linarith
  show ?case unfolding step
  proof (cases "c_AUM C s curs")
    case (Ret p)
    then show "\<exists>out. (case c_AUM C s curs of
       Raise e \<Rightarrow> if e \<noteq> ErrNotExist then Raise e else Ret ?acc
     | Panic \<Rightarrow> Panic
     | Ret parent \<Rightarrow> if AUM_Hash L parent = oldest then Ret ?acc
         else offer_loop L C s oldest n (of_nat k + 1) ?skip (copy_at curs 0 (els (a_PrevAUMHash parent))) ?acc) = Ret out
       \<and> length out \<le> length acc + (5 - j)"
      using IH small_acc by (cases "AUM_Hash L p = oldest") auto
  next
    case (Raise e)
    then show "\<exists>out. (case c_AUM C s curs of
       Raise e \<Rightarrow> if e \<noteq> ErrNotExist then Raise e else Ret ?acc
     | Panic \<Rightarrow> Panic
     | Ret parent \<Rightarrow> if AUM_Hash L parent = oldest then Ret ?acc
         else offer_loop L C s oldest n (of_nat k + 1) ?skip (copy_at curs 0 (els (a_PrevAUMHash parent))) ?acc) = Ret out
       \<and> length out \<le> length acc + (5 - j)"
      using assms(2) small_acc by auto
  qed (use assms(1) in blast)
qed simp

text \<open>
  Sync offers. For an authority that holds the state at its head in a file storage, \<open>SyncOffer\<close>
  does not fail; the offer names the authority's head, lists at most five ancestors, and the last of
  them is the oldest message of the authority's chain.
\<close>

theorem SyncOffer_short:
  assumes "FS_inv L c" "authority_ok L (FS_store c) a"
  shows "\<exists>offer. Authority_SyncOffer L (FS_Chonk L) c a = Ret offer \<and> so_Head offer = AUM_Hash L (au_head a)
    \<and> so_Ancestors offer \<noteq> [] \<and> length (so_Ancestors offer) \<le> 5 \<and> last (so_Ancestors offer) = AUM_Hash L (au_oldestAncestor a)"
proof -
  have np: "c_AUM (FS_Chonk L) c h \<noteq> Panic" "c_AUM (FS_Chonk L) c h = Raise e \<Longrightarrow> e = ErrNotExist" for h e
    by (cases rule: fs.AUM_cases [OF assms(1), of h]; simp)+
  have head: "Authority_Head a = Ret (AUM_Hash L (au_head a))"
    using state_at_last [of L "FS_store c" "au_head a" "au_state a"] assms(2)
    by (simp add: authority_ok_def Authority_Head_def)
  have "\<exists>out. offer_loop L (FS_Chonk L) c (AUM_Hash L (au_oldestAncestor a)) 400 (of_nat 0) (of_nat (4 ^ 1))
      (AUM_Hash L (au_head a)) [] = Ret out \<and> length out \<le> length ([] :: AUMHash list) + (5 - 1)"
    by (rule offer_loop_length) (use np in auto)
  then obtain out where "offer_loop L (FS_Chonk L) c (AUM_Hash L (au_oldestAncestor a)) 400 0 4
      (AUM_Hash L (au_head a)) [] = Ret out" "length out \<le> 4" by auto
  then show ?thesis using head
    by (simp add: Authority_SyncOffer_def maxSyncHeadIntersectionIter_def ancestorsSkipStart_def)
qed

theorem SyncOffer_short_witness:
  "\<exists>offer. Authority_SyncOffer demo_lib (FS_Chonk demo_lib) demo_fs demo_auth = Ret offer \<and> length (so_Ancestors offer) \<le> 5"
  using SyncOffer_short [OF demo_fs_inv(1) demo_auth_ok] by blast

end
