(* ===== verification/Tka_Compact.thy ===== *)
theory Tka_Compact
  imports Tka_Sync
begin

unbundle bit_operations_syntax

section \<open>Package \<open>tka\<close>: compaction\<close>

text \<open>
  \<open>src/tka/tailchonk.go\<close>, \<open>Compact\<close> and the functions that mark what is to be retained, and
  \<open>Authority.Compact\<close> of \<open>src/tka/tka.go\<close>. The verdict is a Go map from hashes to flags, here an
  association list; Go iterates over it in an unspecified order, here in the order of the list. A loop
  without a bound of its own is a partial function, \<open>None\<close> when it does not end. Times are in
  seconds, and \<open>now\<close> is the clock.
\<close>

subsection \<open>The verdict\<close>

record CompactionOptions =
  MinChain :: int
  MinAge :: int

type_synonym retainState = byte
type_synonym verdict = "(AUMHash \<times> retainState) list"

definition retainStateActive :: retainState where "retainStateActive = 1"
definition retainStateYoung :: retainState where "retainStateYoung = 2"
definition retainStateLeaf :: retainState where "retainStateLeaf = 4"
definition retainStateAncestor :: retainState where "retainStateAncestor = 8"
definition retainStateCandidate :: retainState where "retainStateCandidate = 16"

definition retainAUMMask :: retainState where
  "retainAUMMask = retainStateActive OR retainStateYoung OR retainStateLeaf OR retainStateAncestor"

text \<open>\<open>verdict[h]\<close> (zero for a missing key), \<open>verdict[h] |= f\<close> and the test of a flag.\<close>

definition vget :: "verdict \<Rightarrow> AUMHash \<Rightarrow> retainState" where
  "vget v h = (case map_of v h of None \<Rightarrow> 0 | Some x \<Rightarrow> x)"

definition vor :: "verdict \<Rightarrow> AUMHash \<Rightarrow> retainState \<Rightarrow> verdict" where
  "vor v h f = AList.update h (vget v h OR f) v"

definition vhas :: "verdict \<Rightarrow> AUMHash \<Rightarrow> retainState \<Rightarrow> bool" where
  "vhas v h f = (vget v h AND f \<noteq> 0)"

subsection \<open>The active chain\<close>

text \<open>The first loop: \<open>Inl h\<close> is the early return, \<open>Inr next\<close> the message after \<open>minChain\<close> rounds.\<close>

fun mark_min_chain ::
    "'z tka_lib_scheme \<Rightarrow> ('s, 'y) Chonk_scheme \<Rightarrow> 's \<Rightarrow> nat \<Rightarrow> AUM \<Rightarrow> verdict \<Rightarrow> (AUMHash + AUM) outcome \<times> verdict" where
  "mark_min_chain L C s 0 nxt v = (Ret (Inr nxt), v)"
| "mark_min_chain L C s (Suc n) nxt v =
     (let h = AUM_Hash L nxt; v1 = vor v h retainStateActive in
      case AUM_Parent nxt of
        None \<Rightarrow> (Ret (Inl h), v1)
      | Some parent \<Rightarrow>
          (case c_AUM C s parent of
             Ret nxt' \<Rightarrow> mark_min_chain L C s n nxt' v1
           | Raise e \<Rightarrow> if e = ErrNotExist then (Ret (Inl h), v1)
               else (Raise (Err ''reading active chain (retainStateActive)''), v1)
           | Panic \<Rightarrow> (Panic, v1)))"

text \<open>
  Back to a checkpoint, marking every message passed. \<open>markActiveChain\<close> and
  \<open>markAncestorIntersectionAUMs\<close> have this loop, with different texts for the error at the first
  message.
\<close>

partial_function (option) to_checkpoint ::
    "'z tka_lib_scheme \<Rightarrow> ('s, 'y) Chonk_scheme \<Rightarrow> 's \<Rightarrow> string \<Rightarrow> AUM \<Rightarrow> verdict \<Rightarrow> (AUM outcome \<times> verdict) option" where
  [code]: "to_checkpoint L C s msg nxt v =
     (let v1 = vor v (AUM_Hash L nxt) retainStateActive in
      if a_MessageKind nxt = AUMCheckpoint then Some (Ret nxt, v1)
      else case AUM_Parent nxt of
          None \<Rightarrow> Some (Raise (Err msg), v1)
        | Some parent \<Rightarrow>
            (case c_AUM C s parent of
               Ret nxt' \<Rightarrow> to_checkpoint L C s msg nxt' v1
             | Raise e \<Rightarrow> Some (Raise (Err ''searching for compaction target''), v1)
             | Panic \<Rightarrow> Some (Panic, v1)))"

partial_function (option) mark_candidates ::
    "('s, 'y) Chonk_scheme \<Rightarrow> 's \<Rightarrow> AUM \<Rightarrow> verdict \<Rightarrow> (unit outcome \<times> verdict) option" where
  [code]: "mark_candidates C s nxt v =
     (case AUM_Parent nxt of
        None \<Rightarrow> Some (Ret (), v)
      | Some parent \<Rightarrow>
          let v1 = vor v parent retainStateCandidate in
          (case c_AUM C s parent of
             Ret nxt' \<Rightarrow> mark_candidates C s nxt' v1
           | Raise e \<Rightarrow> Some (if e = ErrNotExist then Ret () else Raise (Err ''reading active chain (retainStateCandidate)''), v1)
           | Panic \<Rightarrow> Some (Panic, v1)))"

definition markActiveChain ::
    "'z tka_lib_scheme \<Rightarrow> ('s, 'y) Chonk_scheme \<Rightarrow> 's \<Rightarrow> verdict \<Rightarrow> int \<Rightarrow> AUMHash \<Rightarrow> (AUMHash outcome \<times> verdict) option" where
  "markActiveChain L C s v minChain head =
     (case c_AUM C s head of
        Raise e \<Rightarrow> Some (Raise e, v)
      | Panic \<Rightarrow> Some (Panic, v)
      | Ret nxt \<Rightarrow>
          (case mark_min_chain L C s (nat minChain) nxt v of
             (Ret (Inl h), v1) \<Rightarrow> Some (Ret h, v1)
           | (Ret (Inr nxt1), v1) \<Rightarrow> do {
               (r, v2) \<leftarrow> to_checkpoint L C s ''reached genesis AUM without finding an appropriate lastActiveAncestor'' nxt1 v1;
               (case r of
                  Ret nxt2 \<Rightarrow> do {
                    (r3, v3) \<leftarrow> mark_candidates C s nxt2 v2;
                    Some (andThen r3 (\<lambda>_. Ret (AUM_Hash L nxt2)), v3) }
                | Raise e \<Rightarrow> Some (Raise e, v2)
                | Panic \<Rightarrow> Some (Panic, v2)) }
           | (Raise e, v1) \<Rightarrow> Some (Raise e, v1)
           | (Panic, v1) \<Rightarrow> Some (Panic, v1)))"

subsection \<open>Young messages\<close>

fun young_loop :: "('s, 'y) CompactableChonk_scheme \<Rightarrow> 's \<Rightarrow> int \<Rightarrow> AUMHash list \<Rightarrow> verdict \<Rightarrow> unit outcome \<times> verdict" where
  "young_loop C s minTime [] v = (Ret (), v)"
| "young_loop C s minTime (h # hs) v =
     (case c_CommitTime C s h of
        Ret commitTime \<Rightarrow> young_loop C s minTime hs (if commitTime > minTime then vor v h retainStateYoung else v)
      | Raise e \<Rightarrow> (Raise e, v)
      | Panic \<Rightarrow> (Panic, v))"

definition markYoungAUMs :: "('s, 'y) CompactableChonk_scheme \<Rightarrow> 's \<Rightarrow> int \<Rightarrow> verdict \<Rightarrow> int \<Rightarrow> unit outcome \<times> verdict" where
  "markYoungAUMs C s now v minAge = young_loop C s (now - minAge) (map fst v) v"

subsection \<open>Descendants\<close>

text \<open>One round over \<open>toScan\<close>: the hashes to scan in the next round, and the verdict.\<close>

fun descend_round ::
    "'z tka_lib_scheme \<Rightarrow> ('s, 'y) Chonk_scheme \<Rightarrow> 's \<Rightarrow> AUMHash list \<Rightarrow> AUMHash list \<Rightarrow> verdict \<Rightarrow> AUMHash list outcome \<times> verdict" where
  "descend_round L C s [] nextIter v = (Ret nextIter, v)"
| "descend_round L C s (h # hs) nextIter v =
     (if vhas v h retainStateLeaf then descend_round L C s hs nextIter v
      else let v1 = vor v h retainStateLeaf in
        (case c_ChildAUMs C s h of
           Ret children \<Rightarrow> descend_round L C s hs (nextIter @ map (AUM_Hash L) children) v1
         | Raise e \<Rightarrow> (Raise e, v1)
         | Panic \<Rightarrow> (Panic, v1)))"

partial_function (option) descend_loop ::
    "'z tka_lib_scheme \<Rightarrow> ('s, 'y) Chonk_scheme \<Rightarrow> 's \<Rightarrow> AUMHash list \<Rightarrow> verdict \<Rightarrow> (unit outcome \<times> verdict) option" where
  [code]: "descend_loop L C s toScan v =
     (if toScan = [] then Some (Ret (), v)
      else case descend_round L C s toScan [] v of
          (Ret nextIter, v1) \<Rightarrow> descend_loop L C s nextIter v1
        | (Raise e, v1) \<Rightarrow> Some (Raise e, v1)
        | (Panic, v1) \<Rightarrow> Some (Panic, v1))"

definition markDescendantAUMs ::
    "'z tka_lib_scheme \<Rightarrow> ('s, 'y) Chonk_scheme \<Rightarrow> 's \<Rightarrow> verdict \<Rightarrow> (unit outcome \<times> verdict) option" where
  "markDescendantAUMs L C s v = descend_loop L C s (map fst (filter (\<lambda>(h, x). x AND retainAUMMask \<noteq> 0) v)) v"

subsection \<open>Intersection with the active chain\<close>

text \<open>The loop \<open>childLoop\<close>: forward along the candidates of the active chain.\<close>

partial_function (option) child_loop ::
    "'z tka_lib_scheme \<Rightarrow> ('s, 'y) Chonk_scheme \<Rightarrow> 's \<Rightarrow> AUMHash \<Rightarrow> verdict \<Rightarrow> (unit outcome \<times> verdict) option" where
  [code]: "child_loop L C s nxt v =
     (case c_ChildAUMs C s nxt of
        Raise e \<Rightarrow> Some (Raise (Err ''reading children''), v)
      | Panic \<Rightarrow> Some (Panic, v)
      | Ret children \<Rightarrow>
          (case List.find (\<lambda>a. vhas v (AUM_Hash L a) retainStateCandidate \<and> \<not> vhas v (AUM_Hash L a) retainStateActive) children of
             None \<Rightarrow> Some (Ret (), v)
           | Some a \<Rightarrow> child_loop L C s (AUM_Hash L a) (vor v (AUM_Hash L a) retainStateAncestor)))"

record scan =
  sc_verdict :: verdict
  sc_candidate :: AUMHash
  sc_didAdjust :: bool

text \<open>The body of the loop over \<open>toScan\<close>: the parent to scan next, if any.\<close>

definition scan_step ::
    "'z tka_lib_scheme \<Rightarrow> ('s, 'y) Chonk_scheme \<Rightarrow> 's \<Rightarrow> scan \<Rightarrow> AUMHash \<Rightarrow> (AUMHash option outcome \<times> scan) option" where
  "scan_step L C s sc h =
     (if vhas (sc_verdict sc) h retainStateAncestor then Some (Ret None, sc)
      else let sc1 = sc\<lparr>sc_verdict := vor (sc_verdict sc) h retainStateAncestor\<rparr> in
        (case c_AUM C s h of
           Raise e \<Rightarrow> Some (Raise (Err ''reading''), sc1)
         | Panic \<Rightarrow> Some (Panic, sc1)
         | Ret a \<Rightarrow>
             (case AUM_Parent a of
                None \<Rightarrow> Some (Raise (Err ''reached genesis AUM without intersecting with candidate ancestor''), sc1)
              | Some parent \<Rightarrow>
                  if vhas (sc_verdict sc1) parent retainAUMMask then Some (Ret None, sc1)
                  else if vhas (sc_verdict sc1) parent retainStateCandidate then do {
                    (r, v2) \<leftarrow> child_loop L C s parent (vor (sc_verdict sc1) parent retainStateAncestor);
                    Some (andThen r (\<lambda>_. Ret (Some parent)), \<lparr>sc_verdict = v2, sc_candidate = parent, sc_didAdjust = True\<rparr>) }
                  else Some (Ret (Some parent), sc1))))"

fun scan_round ::
    "'z tka_lib_scheme \<Rightarrow> ('s, 'y) Chonk_scheme \<Rightarrow> 's \<Rightarrow> AUMHash list \<Rightarrow> AUMHash list \<Rightarrow> scan \<Rightarrow> (AUMHash list outcome \<times> scan) option" where
  "scan_round L C s [] nextIter sc = Some (Ret nextIter, sc)"
| "scan_round L C s (h # hs) nextIter sc =
     (case scan_step L C s sc h of
        None \<Rightarrow> None
      | Some (Ret p, sc1) \<Rightarrow> scan_round L C s hs (case p of None \<Rightarrow> nextIter | Some parent \<Rightarrow> nextIter @ [parent]) sc1
      | Some (Raise e, sc1) \<Rightarrow> Some (Raise e, sc1)
      | Some (Panic, sc1) \<Rightarrow> Some (Panic, sc1))"

partial_function (option) scan_loop ::
    "'z tka_lib_scheme \<Rightarrow> ('s, 'y) Chonk_scheme \<Rightarrow> 's \<Rightarrow> AUMHash list \<Rightarrow> scan \<Rightarrow> (unit outcome \<times> scan) option" where
  [code]: "scan_loop L C s toScan sc =
     (if toScan = [] then Some (Ret (), sc)
      else case scan_round L C s toScan [] sc of
          None \<Rightarrow> None
        | Some (Ret nextIter, sc1) \<Rightarrow> scan_loop L C s nextIter sc1
        | Some (Raise e, sc1) \<Rightarrow> Some (Raise e, sc1)
        | Some (Panic, sc1) \<Rightarrow> Some (Panic, sc1))"

definition markAncestorIntersectionAUMs ::
    "'z tka_lib_scheme \<Rightarrow> ('s, 'y) Chonk_scheme \<Rightarrow> 's \<Rightarrow> verdict \<Rightarrow> AUMHash \<Rightarrow> (AUMHash outcome \<times> verdict) option" where
  "markAncestorIntersectionAUMs L C s v candidateAncestor =
     (let toScan = map fst (filter (\<lambda>(h, x). x AND retainAUMMask \<noteq> 0 \<and> h \<noteq> candidateAncestor) v) in do {
        (r, sc) \<leftarrow> scan_loop L C s toScan \<lparr>sc_verdict = v, sc_candidate = candidateAncestor, sc_didAdjust = False\<rparr>;
        (case r of
           Raise e \<Rightarrow> Some (Raise e, sc_verdict sc)
         | Panic \<Rightarrow> Some (Panic, sc_verdict sc)
         | Ret _ \<Rightarrow>
             if \<not> sc_didAdjust sc then Some (Ret (sc_candidate sc), sc_verdict sc)
             else (case c_AUM C s (sc_candidate sc) of
                 Raise e \<Rightarrow> Some (Raise (Err ''searching for compaction target''), sc_verdict sc)
               | Panic \<Rightarrow> Some (Panic, sc_verdict sc)
               | Ret nxt \<Rightarrow> do {
                   (r2, v2) \<leftarrow> to_checkpoint L C s ''reached genesis AUM without finding an appropriate candidateAncestor'' nxt (sc_verdict sc);
                   Some (andThen r2 (\<lambda>cp. Ret (AUM_Hash L cp)), v2) })) })"

subsection \<open>Compaction\<close>

text \<open>The four marking phases; the verdict is local to \<open>Compact\<close>, so that an error drops it.\<close>

definition mark_all ::
    "'z tka_lib_scheme \<Rightarrow> ('s, 'y) CompactableChonk_scheme \<Rightarrow> 's \<Rightarrow> int \<Rightarrow> AUMHash \<Rightarrow> CompactionOptions \<Rightarrow> (AUMHash \<times> verdict) outcome option" where
  "mark_all L C s now head opts =
     (case c_AllAUMs C s of
        Raise e \<Rightarrow> Some (Raise (Err ''AllAUMs''))
      | Panic \<Rightarrow> Some Panic
      | Ret hashes \<Rightarrow> do {
          (r1, v1) \<leftarrow> markActiveChain L C s (foldl (\<lambda>v h. AList.update h 0 v) [] hashes) (MinChain opts) head;
          (case wrap ''marking active chain'' r1 of
             Raise e \<Rightarrow> Some (Raise e)
           | Panic \<Rightarrow> Some Panic
           | Ret lastActiveAncestor \<Rightarrow>
               (case markYoungAUMs C s now v1 (MinAge opts) of (r2, v2) \<Rightarrow>
                 (case wrap ''marking young AUMs'' r2 of
                    Raise e \<Rightarrow> Some (Raise e)
                  | Panic \<Rightarrow> Some Panic
                  | Ret _ \<Rightarrow> do {
                      (r3, v3) \<leftarrow> markDescendantAUMs L C s v2;
                      (case wrap ''marking descendant AUMs'' r3 of
                         Raise e \<Rightarrow> Some (Raise e)
                       | Panic \<Rightarrow> Some Panic
                       | Ret _ \<Rightarrow> do {
                           (r4, v4) \<leftarrow> markAncestorIntersectionAUMs L C s v3 lastActiveAncestor;
                           Some (andThen (wrap ''marking ancestor intersection'' r4) (\<lambda>anc. Ret (anc, v4))) }) }))) })"

definition Compact ::
    "'z tka_lib_scheme \<Rightarrow> ('s, 'y) CompactableChonk_scheme \<Rightarrow> 's \<Rightarrow> int \<Rightarrow> AUMHash \<Rightarrow> CompactionOptions \<Rightarrow>
     ((AUMHash \<times> unit outcome) outcome \<times> 's) option" where
  "Compact L C s now head opts =
     (if MinChain opts = 0 then Some (Raise (Err ''opts.MinChain must be set''), s)
      else if MinAge opts = 0 then Some (Raise (Err ''opts.MinAge must be set''), s)
      else do {
        r \<leftarrow> mark_all L C s now head opts;
        (case r of
           Raise e \<Rightarrow> Some (Raise e, s)
         | Panic \<Rightarrow> Some (Panic, s)
         | Ret (lastActiveAncestor, v) \<Rightarrow>
             let toDelete = map fst (filter (\<lambda>(h, x). x AND retainAUMMask = 0) v);
                 (r1, s1) = c_SetLastActiveAncestor C s lastActiveAncestor
             in case r1 of
                  Raise e \<Rightarrow> Some (Raise e, s1)
                | Panic \<Rightarrow> Some (Panic, s1)
                | Ret _ \<Rightarrow> let (r2, s2) = c_PurgeAUMs C s1 toDelete in Some (Ret (lastActiveAncestor, r2), s2)) })"

text \<open>\<open>Compact\<close> returns the ancestor beside the error of the purge; \<open>Authority.Compact\<close> looks at the error.\<close>

definition Authority_Compact ::
    "'z tka_lib_scheme \<Rightarrow> ('s, 'y) CompactableChonk_scheme \<Rightarrow> 's \<Rightarrow> int \<Rightarrow> Authority \<Rightarrow> CompactionOptions \<Rightarrow>
     (unit outcome \<times> Authority \<times> 's) option" where
  "Authority_Compact L C s now a opts = do {
     (r, s1) \<leftarrow> Compact L C s now (AUM_Hash L (au_head a)) opts;
     (case andThen r (\<lambda>(newAncestor, e). andThen e (\<lambda>_. c_AUM C s1 newAncestor)) of
        Ret ancestor \<Rightarrow> Some (Ret (), a\<lparr>au_oldestAncestor := ancestor\<rparr>, s1)
      | Raise e \<Rightarrow> Some (Raise e, a, s1)
      | Panic \<Rightarrow> Some (Panic, a, s1)) }"

subsection \<open>Flags\<close>

lemma vget_vor: "vget (vor v h f) h' = (if h' = h then vget v h OR f else vget v h')"
  by (simp add: vget_def vor_def update_conv')

lemma vhas_vor: "vhas (vor v h f) h' m \<longleftrightarrow> vhas v h' m \<or> h' = h \<and> f AND m \<noteq> 0"
proof -
  have "(x OR f) AND m = 0 \<longleftrightarrow> x AND m = 0 \<and> f AND m = 0" for x :: byte
    by (auto simp: bit_eq_iff bit_simps)
  then show ?thesis by (auto simp: vhas_def vget_vor)
qed

lemma keys_vor: "fst ` set (vor v h f) = insert h (fst ` set v)"
  by (simp add: vor_def dom_update)

lemmas flag_defs = retainStateActive_def retainStateYoung_def retainStateLeaf_def retainStateAncestor_def
  retainStateCandidate_def retainAUMMask_def

lemma flags [simp]:
  "retainStateLeaf AND retainAUMMask \<noteq> 0" "retainStateActive AND retainAUMMask \<noteq> 0" "retainStateYoung AND retainAUMMask \<noteq> 0"
  "retainStateLeaf \<noteq> 0"
  by (simp_all add: flag_defs)

text \<open>\<open>v'\<close> has every flag and every key of \<open>v\<close>; the flags it has in addition are among \<open>F\<close>.\<close>

definition vle :: "retainState set \<Rightarrow> verdict \<Rightarrow> verdict \<Rightarrow> bool" where
  "vle F v v' \<longleftrightarrow> (\<forall>h m. vhas v h m \<longrightarrow> vhas v' h m) \<and> fst ` set v \<subseteq> fst ` set v' \<and>
     (distinct (map fst v) \<longrightarrow> distinct (map fst v')) \<and>
     (\<forall>h m. (\<forall>f\<in>F. f AND m = 0) \<longrightarrow> vhas v' h m = vhas v h m)"

lemma vle_refl [simp]: "vle F v v" by (simp add: vle_def)

lemma vle_trans: "vle F u v \<Longrightarrow> vle F v w \<Longrightarrow> vle F u w"
  by (simp add: vle_def subset_trans [of "fst ` set u" "fst ` set v"])

lemma vle_mono: "vle F u v \<Longrightarrow> F \<subseteq> G \<Longrightarrow> vle G u v"
  unfolding vle_def by (meson subsetD)

lemma vle_vor: "f \<in> F \<Longrightarrow> vle F v (vor v h f)"
  unfolding vle_def by (auto simp: vhas_vor keys_vor) (simp add: vor_def distinct_update)

lemma vle_has: "vle F v v' \<Longrightarrow> vhas v h m \<Longrightarrow> vhas v' h m"
  by (simp add: vle_def)

lemma vle_vor_trans: "vle F (vor v h f) v' \<Longrightarrow> f \<in> F \<Longrightarrow> vle F v v'"
  by (rule vle_trans [OF vle_vor])

abbreviation active_flags :: "retainState set" where
  "active_flags \<equiv> {retainStateActive, retainStateCandidate}"

abbreviation ancestor_flags :: "retainState set" where
  "ancestor_flags \<equiv> {retainStateActive, retainStateAncestor}"

lemma mark_min_chain_vle: "mark_min_chain L C s n nxt v = (r, v') \<Longrightarrow> vle active_flags v v'"
proof (induction n arbitrary: nxt v)
  case (Suc n)
  then show ?case
    by (auto simp: Let_def split: option.splits outcome.splits if_splits dest!: Suc.IH intro: vle_vor vle_vor_trans)
qed simp

lemma to_checkpoint_vle: "to_checkpoint L C s msg nxt v = Some rv \<Longrightarrow> vle {retainStateActive} v (snd rv)"
proof (erule to_checkpoint.raw_induct [where P = "\<lambda>L C s msg nxt v rv. vle {retainStateActive} v (snd rv)", rotated])
  fix f and L :: "'a tka_lib_scheme" and C :: "('b, 'c) Chonk_scheme" and s msg nxt v rv
  assume IH: "\<And>L C s msg nxt v rv. f L C s msg nxt v = Some rv \<Longrightarrow> vle {retainStateActive} v (snd rv)"
    and eq: "(let v1 = vor v (AUM_Hash L nxt) retainStateActive in
      if a_MessageKind nxt = AUMCheckpoint then Some (Ret nxt, v1)
      else case AUM_Parent nxt of
          None \<Rightarrow> Some (Raise (Err msg), v1)
        | Some parent \<Rightarrow>
            (case c_AUM C s parent of
               Ret nxt' \<Rightarrow> f L C s msg nxt' v1
             | Raise e \<Rightarrow> Some (Raise (Err ''searching for compaction target''), v1)
             | Panic \<Rightarrow> Some (Panic, v1))) = Some rv"
  then show "vle {retainStateActive} v (snd rv)"
    by (auto simp: Let_def split: option.splits outcome.splits if_splits dest!: IH intro: vle_vor vle_vor_trans)
qed

lemma mark_candidates_vle: "mark_candidates C s nxt v = Some rv \<Longrightarrow> vle active_flags v (snd rv)"
proof (erule mark_candidates.raw_induct [where P = "\<lambda>C s nxt v rv. vle active_flags v (snd rv)", rotated])
  fix f and C :: "('a, 'b) Chonk_scheme" and s nxt v rv
  assume IH: "\<And>C s nxt v rv. f C s nxt v = Some rv \<Longrightarrow> vle active_flags v (snd rv)"
    and eq: "(case AUM_Parent nxt of
        None \<Rightarrow> Some (Ret (), v)
      | Some parent \<Rightarrow>
          let v1 = vor v parent retainStateCandidate in
          (case c_AUM C s parent of
             Ret nxt' \<Rightarrow> f C s nxt' v1
           | Raise e \<Rightarrow> Some (if e = ErrNotExist then Ret () else Raise (Err ''reading active chain (retainStateCandidate)''), v1)
           | Panic \<Rightarrow> Some (Panic, v1))) = Some rv"
  then show "vle active_flags v (snd rv)"
    by (auto simp: Let_def split: option.splits outcome.splits dest!: IH intro: vle_vor vle_vor_trans)
qed

lemma child_loop_vle: "child_loop L C s nxt v = Some rv \<Longrightarrow> vle ancestor_flags v (snd rv)"
proof (erule child_loop.raw_induct [where P = "\<lambda>L C s nxt v rv. vle ancestor_flags v (snd rv)", rotated])
  fix f and L :: "'a tka_lib_scheme" and C :: "('b, 'c) Chonk_scheme" and s nxt v rv
  assume IH: "\<And>L C s nxt v rv. f L C s nxt v = Some rv \<Longrightarrow> vle ancestor_flags v (snd rv)"
    and eq: "(case c_ChildAUMs C s nxt of
        Raise e \<Rightarrow> Some (Raise (Err ''reading children''), v)
      | Panic \<Rightarrow> Some (Panic, v)
      | Ret children \<Rightarrow>
          (case List.find (\<lambda>a. vhas v (AUM_Hash L a) retainStateCandidate \<and> \<not> vhas v (AUM_Hash L a) retainStateActive) children of
             None \<Rightarrow> Some (Ret (), v)
           | Some a \<Rightarrow> f L C s (AUM_Hash L a) (vor v (AUM_Hash L a) retainStateAncestor))) = Some rv"
  then show "vle ancestor_flags v (snd rv)"
    by (auto split: option.splits outcome.splits dest!: IH intro: vle_vor vle_vor_trans)
qed

lemma scan_step_vle: "scan_step L C s sc h = Some (r, sc') \<Longrightarrow> vle ancestor_flags (sc_verdict sc) (sc_verdict sc')"
  by (auto simp: scan_step_def Let_def bind_eq_Some_conv split: option.splits outcome.splits if_splits prod.splits
      dest!: child_loop_vle intro: vle_vor vle_vor_trans [OF vle_vor_trans])

lemma scan_round_vle: "scan_round L C s hs next sc = Some (r, sc') \<Longrightarrow> vle ancestor_flags (sc_verdict sc) (sc_verdict sc')"
proof (induction hs arbitrary: "next" sc)
  case (Cons h hs)
  from Cons.prems show ?case
    by (auto split: option.splits outcome.splits prod.splits dest!: Cons.IH scan_step_vle intro: vle_trans)
qed simp

lemma scan_loop_vle: "scan_loop L C s toScan sc = Some rs \<Longrightarrow> vle ancestor_flags (sc_verdict sc) (sc_verdict (snd rs))"
proof (erule scan_loop.raw_induct [where P = "\<lambda>L C s toScan sc rs. vle ancestor_flags (sc_verdict sc) (sc_verdict (snd rs))", rotated])
  fix f and L :: "'a tka_lib_scheme" and C :: "('b, 'c) Chonk_scheme" and s toScan sc rs
  assume IH: "\<And>L C s toScan sc rs. f L C s toScan sc = Some rs \<Longrightarrow> vle ancestor_flags (sc_verdict sc) (sc_verdict (snd rs))"
    and eq: "(if toScan = [] then Some (Ret (), sc)
      else case scan_round L C s toScan [] sc of
          None \<Rightarrow> None
        | Some (Ret nextIter, sc1) \<Rightarrow> f L C s nextIter sc1
        | Some (Raise e, sc1) \<Rightarrow> Some (Raise e, sc1)
        | Some (Panic, sc1) \<Rightarrow> Some (Panic, sc1)) = Some rs"
  then show "vle ancestor_flags (sc_verdict sc) (sc_verdict (snd rs))"
    by (auto split: option.splits outcome.splits prod.splits if_splits dest!: IH scan_round_vle intro: vle_trans)
qed

lemma markActiveChain_vle:
  assumes "markActiveChain L C s v n head = Some (r, v')"
  shows "vle active_flags v v'"
proof (cases "c_AUM C s head")
  case (Ret nxt)
  obtain r1 v1 where m: "mark_min_chain L C s (nat n) nxt v = (r1, v1)" by (cases "mark_min_chain L C s (nat n) nxt v")
  note m1 = mark_min_chain_vle [OF m]
  show ?thesis
  proof (cases "\<exists>nxt1. r1 = Ret (Inr nxt1)")
    case True
    then obtain nxt1 where r1: "r1 = Ret (Inr nxt1)" by blast
    obtain r2 v2 where t: "to_checkpoint L C s ''reached genesis AUM without finding an appropriate lastActiveAncestor'' nxt1 v1 = Some (r2, v2)"
      and rest: "(case r2 of
          Ret nxt2 \<Rightarrow> do { (r3, v3) \<leftarrow> mark_candidates C s nxt2 v2; Some (andThen r3 (\<lambda>_. Ret (AUM_Hash L nxt2)), v3) }
        | Raise e \<Rightarrow> Some (Raise e, v2) | Panic \<Rightarrow> Some (Panic, v2)) = Some (r, v')"
      using assms m r1 Ret by (auto simp: markActiveChain_def bind_eq_Some_conv)
    have v2: "vle active_flags v1 v2" using vle_mono [OF to_checkpoint_vle [OF t], of active_flags] by simp
    have "vle active_flags v2 v'" using rest by (cases r2) (auto simp: bind_eq_Some_conv dest: mark_candidates_vle)
    then show ?thesis using m1 v2 vle_trans by metis
  qed (use assms m m1 Ret in \<open>auto simp: markActiveChain_def split: outcome.splits sum.splits\<close>)
qed (use assms in \<open>auto simp: markActiveChain_def\<close>)

lemma young_loop_vle: "young_loop C s t hs v = (r, v') \<Longrightarrow> vle {retainStateYoung} v v'"
  by (induction hs arbitrary: v) (auto split: outcome.splits if_splits intro: vle_vor vle_vor_trans)

lemma markAncestor_vle:
  assumes "markAncestorIntersectionAUMs L C s v h = Some (r, v')"
  shows "vle ancestor_flags v v'"
proof -
  let ?sc = "\<lparr>sc_verdict = v, sc_candidate = h, sc_didAdjust = False\<rparr>"
  let ?rest = "\<lambda>r sc. case r of
      Raise e \<Rightarrow> Some (Raise e, sc_verdict sc)
    | Panic \<Rightarrow> Some (Panic, sc_verdict sc)
    | Ret _ \<Rightarrow>
        if \<not> sc_didAdjust sc then Some (Ret (sc_candidate sc), sc_verdict sc)
        else (case c_AUM C s (sc_candidate sc) of
            Raise e \<Rightarrow> Some (Raise (Err ''searching for compaction target''), sc_verdict sc)
          | Panic \<Rightarrow> Some (Panic, sc_verdict sc)
          | Ret nxt \<Rightarrow> do {
              (r2, v2) \<leftarrow> to_checkpoint L C s ''reached genesis AUM without finding an appropriate candidateAncestor'' nxt (sc_verdict sc);
              Some (andThen r2 (\<lambda>cp. Ret (AUM_Hash L cp)), v2) })"
  obtain r1 sc where sl: "scan_loop L C s (map fst (filter (\<lambda>(h', x). x AND retainAUMMask \<noteq> 0 \<and> h' \<noteq> h) v)) ?sc = Some (r1, sc)"
    and rest: "?rest r1 sc = Some (r, v')"
    using assms by (auto simp: markAncestorIntersectionAUMs_def Let_def bind_eq_Some_conv)
  have 1: "vle ancestor_flags v (sc_verdict sc)" using scan_loop_vle [OF sl] by simp
  have "vle ancestor_flags (sc_verdict sc) v'"
  proof (cases "\<exists>nxt. (\<exists>u. r1 = Ret u) \<and> sc_didAdjust sc \<and> c_AUM C s (sc_candidate sc) = Ret nxt")
    case True
    then show ?thesis using rest by (auto simp: bind_eq_Some_conv dest!: to_checkpoint_vle) (erule vle_mono, simp)
  next
    case False
    then show ?thesis using rest by (auto split: outcome.splits if_splits)
  qed
  then show ?thesis using 1 vle_trans by metis
qed

subsection \<open>Descendants are marked, all of them and no others\<close>

definition leafs :: "verdict \<Rightarrow> AUMHash set" where
  "leafs v = {h. vhas v h retainStateLeaf}"

text \<open>From the hash of a message to those of its children in a store.\<close>

definition desc :: "'z tka_lib_scheme \<Rightarrow> AUM set \<Rightarrow> (AUMHash \<times> AUMHash) set" where
  "desc L S = {(h, AUM_Hash L b) |h b. b \<in> S \<and> AUM_Parent b = Some h}"

text \<open>Only the flag \<open>Leaf\<close> differs.\<close>

abbreviation same_but_leaf :: "verdict \<Rightarrow> verdict \<Rightarrow> bool" where
  "same_but_leaf v v' \<equiv> vle {retainStateLeaf} v v'"

lemma leafs_vor: "leafs (vor v h retainStateLeaf) = insert h (leafs v)"
  by (auto simp: leafs_def vhas_vor)

lemma rtrancl_Image_least: "T \<subseteq> X \<Longrightarrow> r `` X \<subseteq> X \<Longrightarrow> r\<^sup>* `` T \<subseteq> X"
proof
  fix y assume a: "T \<subseteq> X" "r `` X \<subseteq> X" "y \<in> r\<^sup>* `` T"
  then obtain x where "(x, y) \<in> r\<^sup>*" "x \<in> X" by auto
  then show "y \<in> X" by (induction rule: rtrancl_induct) (use a(2) in auto)
qed

context chonk
begin

lemma descend_round_ok:
  assumes "inv s"
  shows "\<exists>nx v'. descend_round L C s hs acc v = (Ret nx, v') \<and> leafs v' = leafs v \<union> set hs \<and>
    set nx = set acc \<union> desc L (store s) `` (set hs - leafs v) \<and> same_but_leaf v v'"
proof (induction hs arbitrary: acc v)
  case (Cons h hs)
  show ?case
  proof (cases "h \<in> leafs v")
    case True
    then show ?thesis using Cons.IH [of acc v] by (auto simp: leafs_def)
  next
    case False
    obtain cs where cs: "c_ChildAUMs C s h = Ret cs" "set cs = {b \<in> store s. AUM_Parent b = Some h}"
      using ChildAUMs_law [OF assms, of h] by blast
    let ?v = "vor v h retainStateLeaf"
    obtain nx v' where r: "descend_round L C s hs (acc @ map (AUM_Hash L) cs) ?v = (Ret nx, v')"
        "leafs v' = leafs ?v \<union> set hs" "set nx = set (acc @ map (AUM_Hash L) cs) \<union> desc L (store s) `` (set hs - leafs ?v)"
        "same_but_leaf ?v v'"
      using Cons.IH by blast
    have "desc L (store s) `` {h} = AUM_Hash L ` set cs" by (auto simp: desc_def cs(2))
    moreover have "set (h # hs) - leafs v = insert h (set hs - leafs ?v)" using False by (auto simp: leafs_vor)
    ultimately have "set nx = set acc \<union> desc L (store s) `` (set (h # hs) - leafs v)" unfolding r(3) by auto
    moreover have "same_but_leaf v v'" by (rule vle_vor_trans [OF r(4)]) simp
    moreover have "leafs v' = leafs v \<union> set (h # hs)" unfolding r(2) by (auto simp: leafs_vor)
    moreover have "descend_round L C s (h # hs) acc v = (Ret nx, v')"
      using False cs(1) r(1) by (simp add: leafs_def)
    ultimately show ?thesis by blast
  qed
qed auto

lemma descend_loop_ok:
  assumes "inv s" "finite U" "desc L (store s) `` U \<subseteq> U"
  shows "set T \<subseteq> U \<Longrightarrow> desc L (store s) `` leafs v \<subseteq> leafs v \<union> set T \<Longrightarrow>
    \<exists>v'. descend_loop L C s T v = Some (Ret (), v') \<and> leafs v' = leafs v \<union> (desc L (store s))\<^sup>* `` set T \<and> same_but_leaf v v'"
proof (induction "card (U - leafs v)" arbitrary: T v rule: less_induct)
  case less
  let ?D = "desc L (store s)"
  obtain nx v1 where r: "descend_round L C s T [] v = (Ret nx, v1)" "leafs v1 = leafs v \<union> set T"
      "set nx = ?D `` (set T - leafs v)" "same_but_leaf v v1"
    using descend_round_ok [OF assms(1), of T "[]" v] by auto
  have step: "descend_loop L C s T v = (if T = [] then Some (Ret (), v) else descend_loop L C s nx v1)"
    by (subst descend_loop.simps) (simp add: r(1))
  let ?X = "leafs v \<union> set T \<union> ?D\<^sup>* `` set nx"
  have "?D `` ?X \<subseteq> ?X"
  proof
    fix y assume "y \<in> ?D `` ?X"
    then obtain x where x: "(x, y) \<in> ?D" "x \<in> ?X" by blast
    then consider "x \<in> leafs v" | "x \<in> set T - leafs v" | "x \<in> ?D\<^sup>* `` set nx" by blast
    then show "y \<in> ?X"
    proof cases
      case 2
      then have "y \<in> set nx" using x(1) r(3) by blast
      then show ?thesis by blast
    next
      case 3
      then show ?thesis using x(1) by (blast intro: rtrancl_into_rtrancl)
    qed (use x(1) less.prems(2) in blast)
  qed
  then have sub: "?D\<^sup>* `` set T \<subseteq> ?X" by (intro rtrancl_Image_least) auto
  have "?D\<^sup>* `` set nx \<subseteq> ?D\<^sup>* `` set T" unfolding r(3) by (auto intro: converse_rtrancl_into_rtrancl)
  then have X: "?X = leafs v \<union> ?D\<^sup>* `` set T" using sub by auto
  show ?case
  proof (cases "T = []")
    case True
    then show ?thesis using step by auto
  next
    case False
    show ?thesis
    proof (cases "nx = []")
      case True
      have "descend_loop L C s nx v1 = Some (Ret (), v1)" unfolding True by (subst descend_loop.simps) simp
      then show ?thesis using step False r X True by simp
    next
      case nx: False
      then have "?D `` (set T - leafs v) \<noteq> {}" using r(3) by auto
      then obtain h where h: "h \<in> set T" "h \<notin> leafs v" by blast
      then have "h \<in> U - leafs v" "h \<notin> U - leafs v1" using less.prems(1) r(2) by auto
      moreover have "U - leafs v1 \<subseteq> U - leafs v" using r(2) by auto
      ultimately have "U - leafs v1 \<subset> U - leafs v" by blast
      then have "card (U - leafs v1) < card (U - leafs v)" using assms(2) by (intro psubset_card_mono) auto
      moreover have "set nx \<subseteq> U" using r(3) less.prems(1) assms(3) by auto
      moreover have "?D `` leafs v1 \<subseteq> leafs v1 \<union> set nx"
        using less.prems(2) unfolding r(2,3) by blast
      ultimately obtain v' where "descend_loop L C s nx v1 = Some (Ret (), v')" "leafs v' = leafs v1 \<union> ?D\<^sup>* `` set nx"
          "same_but_leaf v1 v'"
        using less.hyps by blast
      then show ?thesis using step False r(2) X vle_trans [OF r(4)] by auto
    qed
  qed
qed

end

end
