(* ===== verification/Tka_Access.thy ===== *)
theory Tka_Access
  imports Tka_Inform
begin

section \<open>Package \<open>tka\<close>: who is authorized, revocation, and opening a storage\<close>

text \<open>
  Properties of the authority's queries: which node keys it authorizes, what a retroactive revocation
  leaves trusted, and when opening a storage with several chains fails.
\<close>

subsection \<open>Node keys\<close>

text \<open>
  C29. Node-key authorization. \<open>NodeKeyAuthorized\<close> accepts exactly when the signature decodes to a chain
  of signatures such that: the outermost one is no bare credential and names the given node key; the
  innermost one is a direct or credential signature that names a key ID trusted by the authority and
  verifies with that 32-byte ed25519 key; every other one is a rotation that verifies with the 32-byte
  wrapping key of the signature nested in it, which names a well-formed node key or is a credential.
\<close>

theorem NodeKeyAuthorized_iff:
  assumes "state_ok (au_state a)"
  shows "NodeKeyAuthorized L a nodeKey sig = Ret () \<longleftrightarrow>
    (\<exists>s key. cbor_Unmarshal_NKS L sig = Some s \<and> n_SigKind s \<noteq> SigCredential \<and> els (n_Pubkey s) = nodePublicBinaryPrefix @ nodeKey
       \<and> els (n_KeyID (last (links s))) \<noteq> [] \<and> trusted (au_state a) (els (n_KeyID (last (links s)))) = Some key
       \<and> chain_ok L key (links s))"
proof -
  have get: "GetKey (au_state a) k = Ret key \<longleftrightarrow> trusted (au_state a) (els k) = Some key" for k key
    using GetKey_eq [OF assms, of k] by (auto split: option.splits)
  have "NodeKeyAuthorized L a nodeKey sig = Ret () \<longleftrightarrow>
      (\<exists>s key k. cbor_Unmarshal_NKS L sig = Some s \<and> n_SigKind s \<noteq> SigCredential \<and> authorizingKeyID s = Ret k
         \<and> trusted (au_state a) (els k) = Some key \<and> chain_ok L key (links s)
         \<and> els (n_Pubkey s) = NodePublic_MarshalBinary nodeKey)"
    by (auto simp: NodeKeyAuthorized_def NKS_Unserialize_def outcome_simps get verifySignature_iff
        split: option.splits if_splits)
  also have "\<dots> \<longleftrightarrow> (\<exists>s key. cbor_Unmarshal_NKS L sig = Some s \<and> n_SigKind s \<noteq> SigCredential
       \<and> els (n_Pubkey s) = nodePublicBinaryPrefix @ nodeKey
       \<and> els (n_KeyID (last (links s))) \<noteq> [] \<and> trusted (au_state a) (els (n_KeyID (last (links s)))) = Some key
       \<and> chain_ok L key (links s))"
    by (simp add: NodePublic_MarshalBinary_def) (auto simp: authorizingKeyID_last split: if_splits)
  finally show ?thesis .
qed

text \<open>A node key rotated once: the inner signature is by a trusted key and names the rotation key.\<close>

definition demo_inner :: NodeKeySignature where
  "demo_inner = NKS SigDirect (Some (nodePublicBinaryPrefix @ replicate 32 8)) (Some (replicate 32 1))
     (Some (replicate 32 1 @ SigDirect # replicate 31 0)) None (Some (replicate 32 4))"

definition demo_outer :: NodeKeySignature where
  "demo_outer = NKS SigRotation (Some (nodePublicBinaryPrefix @ replicate 32 9)) None
     (Some (replicate 32 4 @ SigRotation # replicate 31 0)) (Some demo_inner) None"

definition demo_nks_lib :: nks_lib where
  "demo_nks_lib = \<lparr>cbor_AUM = cbor_AUM demo_lib, blake2s_Sum256 = blake2s_Sum256 demo_lib,
     ed25519consensus_Verify = (\<lambda>p d s. s = p @ d), argon2_Key = argon2_Key demo_lib,
     cbor_NKS = (\<lambda>s. [n_SigKind s]), cbor_Unmarshal_NKS = (\<lambda>b. if b = [7] then Some demo_outer else None),
     ed25519_Verify = (\<lambda>p d s. s = p @ d)\<rparr>"

theorem NodeKeyAuthorized_iff_witness:
  "NodeKeyAuthorized demo_nks_lib demo_auth (replicate 32 9) [7] = Ret ()"
proof -
  have hash: "NKS_SigHash demo_nks_lib demo_inner = SigDirect # replicate 31 0"
    "NKS_SigHash demo_nks_lib demo_outer = SigRotation # replicate 31 0"
    by (simp_all add: NKS_SigHash_def NKS_Serialize_def demo_nks_lib_def demo_lib_def demo_inner_def demo_outer_def numeral_eq_Suc)
  have links: "links demo_outer = [demo_outer, demo_inner]" by (simp add: demo_outer_def demo_inner_def)
  have "base_ok demo_nks_lib (demo_key 1) demo_inner"
    by (simp add: base_ok_def hash) (simp add: demo_nks_lib_def demo_inner_def demo_key_def)
  moreover have "rotation_ok demo_nks_lib demo_outer demo_inner"
    by (simp add: rotation_ok_def hash) (simp add: demo_nks_lib_def demo_outer_def demo_inner_def)
  moreover have "pubkey_ok demo_inner" by (simp add: pubkey_ok_def demo_inner_def exI [of _ "replicate 32 8"])
  ultimately have chain: "chain_ok demo_nks_lib (demo_key 1) (links demo_outer)" by (simp add: links chain_ok_Cons)
  have ok: "state_ok (au_state demo_auth)" using demo_state_ok by (simp add: demo_auth_def)
  have "trusted (au_state demo_auth) (replicate 32 1) = Some (demo_key 1)"
    by (simp add: demo_auth_def) (simp add: trusted_def kmap_def demo_state_def kid_def demo_key_def)
  moreover have "cbor_Unmarshal_NKS demo_nks_lib [7] = Some demo_outer" by (simp add: demo_nks_lib_def)
  ultimately show ?thesis
    using NodeKeyAuthorized_iff [OF ok, of demo_nks_lib "replicate 32 9" "[7]"] chain
    by (simp add: links) (simp add: demo_outer_def demo_inner_def)
qed

subsection \<open>Retroactive revocation\<close>

lemma revoke_loop_eq:
  "keys_ok (els ks) \<Longrightarrow>
   \<exists>ks'. revoke_loop ids ks = Ret ks' \<and> keys_ok (els ks') \<and> kmap (els ks') = kmap (els ks) |` (- els ` set ids)"
proof (induction ids arbitrary: ks)
  case (Cons i ids)
  have find: "find_loop i 0 (els ks) =
      Ret (if kmap (els ks) (els i) = None then None else Some (length (takeWhile (\<lambda>k. kid k \<noteq> els i) (els ks))))"
    using Cons.prems find_loop_eq [of "els ks" i 0] by (simp add: keys_ok_def)
  show ?case
  proof (cases "kmap (els ks) (els i) = None")
    case True
    then have "kmap (els ks) |` (- els ` set ids) = kmap (els ks) |` (- els ` set (i # ids))"
      by (auto simp: restrict_map_def fun_eq_iff)
    then show ?thesis using Cons.IH [OF Cons.prems] find True by simp
  next
    case False
    let ?n = "length (takeWhile (\<lambda>k. kid k \<noteq> els i) (els ks))"
    let ?ks = "Some (take ?n (els ks) @ drop (?n + 1) (els ks))"
    have r: "keys_ok (els ?ks)" "kmap (els ?ks) = (kmap (els ks))(els i := None)"
      using kmap_remove [OF Cons.prems False] by simp_all
    have "revoke_loop (i # ids) ks = revoke_loop ids ?ks" using find False by simp
    moreover have "((kmap (els ks))(els i := None)) |` (- els ` set ids) = kmap (els ks) |` (- els ` set (i # ids))"
      by (auto simp: restrict_map_def fun_eq_iff)
    ultimately show ?thesis using Cons.IH [OF r(1)] unfolding r(2) by metis
  qed
qed (simp add: restrict_map_def)

text \<open>
  Retroactive revocation. When \<open>MakeRetroactiveRevocation\<close> returns a message, for an authority
  whose state satisfies the invariant, the message is a checkpoint whose state trusts exactly the keys
  the authority trusts now without the revoked ones, at least one, and keeps the authority's state IDs
  and disablement secrets; its parent is the fork point that was asked for, if one was.
\<close>

theorem MakeRetroactiveRevocation_spec:
  assumes "state_ok (au_state a)" "MakeRetroactiveRevocation L C s a removeKeys ourKey forkFrom = Some (Ret (aum, v))"
  shows "\<exists>st. a_MessageKind aum = AUMCheckpoint \<and> a_State aum = Some st \<and> state_ok st
    \<and> trusted st = trusted (au_state a) |` (- els ` set removeKeys) \<and> dom (trusted st) \<noteq> {}
    \<and> s_StateID1 st = s_StateID1 (au_state a) \<and> s_StateID2 st = s_StateID2 (au_state a)
    \<and> s_DisablementSecrets st = s_DisablementSecrets (au_state a)
    \<and> (forkFrom \<noteq> zeroHash \<longrightarrow> a_PrevAUMHash aum = Some forkFrom) \<and> v = AUM_StaticValidate aum"
proof -
  obtain p where p: "make_fork (au_state a) removeKeys p = Ret (aum, v)" "forkFrom \<noteq> zeroHash \<Longrightarrow> p = forkFrom"
    using assms(2) by (auto simp: MakeRetroactiveRevocation_def outcome_simps split: if_splits option.splits)
  obtain ks where ks: "revoke_loop removeKeys (s_Keys (au_state a)) = Ret ks" "keys_ok (els ks)"
    "kmap (els ks) = kmap (els (s_Keys (au_state a))) |` (- els ` set removeKeys)"
    using revoke_loop_eq assms(1) unfolding state_ok_def by blast
  let ?st = "(au_state a)\<lparr>s_Keys := ks, s_LastAUMHash := None\<rparr>"
  have ne: "els ks \<noteq> []" and aum: "aum = zeroAUM\<lparr>a_MessageKind := AUMCheckpoint, a_State := Some ?st, a_PrevAUMHash := Some p\<rparr>"
    "v = AUM_StaticValidate aum"
    using p(1) ks(1) by (auto simp: make_fork_def Let_def split: if_splits)
  have "dom (kmap (els ks)) \<noteq> {}"
  proof -
    obtain k ks' where "els ks = k # ks'" using ne by (cases "els ks") auto
    then show ?thesis by (auto simp: kmap_Cons)
  qed
  then show ?thesis using aum ks(2,3) p(2) by (intro exI [of _ ?st]) (auto simp: state_ok_def trusted_def)
qed

theorem MakeRetroactiveRevocation_spec_witness:
  "\<exists>st. trusted st = trusted (au_state demo_auth) |` (- {replicate 32 2}) \<and> dom (trusted st) \<noteq> {}"
proof -
  let ?h = "replicate 32 6 :: bytes"
  have ok: "state_ok (au_state demo_auth)" using demo_state_ok by (simp add: demo_auth_def)
  have "(?h ! 0) \<noteq> (zeroHash ! 0)" by (simp add: zeroHash_def)
  then have "?h \<noteq> zeroHash" by metis
  moreover have "revoke_loop [Some (replicate 32 2)] (Some [demo_key 1]) = Ret (Some [demo_key 1])"
    by (simp add: Key_ID_def demo_key_def)
  ultimately obtain aum v where
    "MakeRetroactiveRevocation demo_lib (FS_Chonk demo_lib) demo_fs demo_auth [Some (replicate 32 2)] None ?h = Some (Ret (aum, v))"
    by (simp add: MakeRetroactiveRevocation_def make_fork_def demo_auth_def demo_state_def Let_def del: revoke_loop.simps)
  from MakeRetroactiveRevocation_spec [OF ok this] show ?thesis by auto
qed

subsection \<open>Opening a storage with several chains\<close>

lemma ancestors_of_keys:
  "fst ` set (ancestors_of L chs) = (\<lambda>c. AUM_Hash L (ch_Oldest c)) ` set chs \<and> distinct (map fst (ancestors_of L chs))"
  by (induction chs rule: rev_induct) (auto simp: ancestors_of_def distinct_update dom_update)

lemma ancestors_of_values:
  "\<forall>c\<in>set chs. \<not> ch_chainsThroughActive c \<Longrightarrow> \<forall>x\<in>set (ancestors_of L chs). \<not> snd x"
proof (induction chs rule: rev_induct)
  case (snoc c chs)
  have "set (AList.update k False m) \<subseteq> insert (k, False) (set m)" for k and m :: "(AUMHash \<times> bool) list"
    by (induction m) auto
  then show ?case using snoc by (fastforce simp: ancestors_of_def)
qed (simp add: ancestors_of_def)

text \<open>
  The last-known ancestor is not recognised when it is a head. In a file storage whose messages have
  no parent, so that each is a chain of its own, opening fails as soon as there are two of them, also
  when the recorded last active ancestor is one of them. The comment on \<open>computeChainCandidates\<close> says
  that any chain that includes that message is marked; the mark is only set on its descendants' chains.
\<close>

theorem Open_single_heads_fail:
  assumes "FS_inv L c" "\<forall>a\<in>FS_store c. AUM_Parent a = None" "{g1, g2} \<subseteq> FS_store c" "g1 \<noteq> g2"
    and "fs_last c = Some (AUM_Hash L g1)"
  shows "Open L (FS_Chonk L) c = Raise (Err ''active chain'')"
proof -
  obtain hs where hs: "c_Heads (FS_Chonk L) c = Ret hs" "set hs = FS_store c"
    using fs.Heads_law [OF assms(1)] assms(2) by auto
  define cands where "cands = sortSlice (\<lambda>a b. bytesLess (AUM_Hash L (ch_Oldest a)) (AUM_Hash L (ch_Oldest b)))
    (map (\<lambda>h. \<lparr>ch_Oldest = h, ch_Head = h, ch_state = zeroState, ch_chainsThroughActive = False\<rparr>) hs)"
  have mem: "\<forall>x\<in>set cands. \<not> ch_chainsThroughActive x" "ch_Oldest ` set cands = FS_store c"
    by (simp_all add: cands_def image_image hs(2))
  have step: "mapO (candidate_step L (FS_Chonk L) c lko) cands = Ret (map (Pair False) cands)" for lko
  proof (rule mapO_Ret)
    fix x assume "x \<in> set cands"
    then have "AUM_Parent (ch_Oldest x) = None" using assms(2) mem(2) by blast
    then show "candidate_step L (FS_Chonk L) c lko x = Ret (False, x)" by (simp add: candidate_step_def)
  qed
  have loop: "candidates_loop L (FS_Chonk L) c lko maxScanIterations cands = Ret cands" for lko
  proof -
    have "candidates_loop L (FS_Chonk L) c lko (Suc n) cands = Ret cands" for n
      using step by (simp add: list_ex_iff o_def)
    moreover obtain n where "maxScanIterations = Suc n" by (metis Suc_pred maxScanIterations_def zero_less_numeral)
    ultimately show ?thesis by metis
  qed
  have "length (ancestors_of L cands) \<noteq> 1"
  proof
    assume "length (ancestors_of L cands) = 1"
    then obtain x where "ancestors_of L cands = [x]" by (auto simp: length_Suc_conv)
    then have "AUM_Hash L ` FS_store c = {fst x}" using ancestors_of_keys [of L cands]
      by (simp add: mem(2) [symmetric] image_image)
    moreover have g: "g1 \<in> FS_store c" "g2 \<in> FS_store c" using assms(3) by simp_all
    ultimately have "AUM_Hash L g1 = AUM_Hash L g2" by (metis imageI singletonD)
    then show False using inj_onD [OF fs.inj_store [OF assms(1)] _ g] assms(4) by simp
  qed
  moreover have "List.find snd (ancestors_of L cands) = None"
    using ancestors_of_values [OF mem(1), of L] find_None_iff [of snd "ancestors_of L cands"] by blast
  ultimately have "computeActiveAncestor L cands = Raise (Err ''multiple distinct chains'')"
    by (simp add: computeActiveAncestor_def)
  moreover have "computeChainCandidates L (FS_Chonk L) c lko maxScanIterations = Ret cands" for lko
    using loop hs(1) by (simp add: computeChainCandidates_def cands_def)
  moreover have "\<exists>x. c_LastActiveAncestor (FS_Chonk L) c = Ret x"
    using assms(1,5) by (simp add: FS_Chonk_def FS_LastActiveAncestor_def FS_inv_def FS_wf_def)
  ultimately show ?thesis by (auto simp: Open_def computeActiveChain_def)
qed

definition demo_fs2 :: FS where
  "demo_fs2 = snd (FS_SetLastActiveAncestor (snd (FS_CommitVerifiedAUMs demo_lib (emptyFS 1) [demo_genesis, demo_noop]))
     (AUM_Hash demo_lib demo_genesis))"

theorem Open_single_heads_fail_witness:
  "Open demo_lib (FS_Chonk demo_lib) demo_fs2 = Raise (Err ''active chain'')"
proof -
  have h: "AUM_Hash demo_lib demo_noop = 0 # 3 # replicate 30 0"
    by (simp add: AUM_Hash_def AUM_Serialize_def demo_lib_def demo_noop_def zeroAUM_def numeral_eq_Suc)
  have neq: "demo_genesis \<noteq> demo_noop" using h demo_hash(1) by auto
  have "inj_on (AUM_Hash demo_lib) {demo_genesis, demo_noop}" by (auto simp: inj_on_def h demo_hash)
  then obtain c where c: "FS_CommitVerifiedAUMs demo_lib (emptyFS 1) [demo_genesis, demo_noop] = (Ret (), c)" "FS_inv demo_lib c"
    "FS_store c = {demo_genesis, demo_noop}"
    using FS_commit_law [of demo_lib "emptyFS 1" "[demo_genesis, demo_noop]"] by auto
  have f2: "demo_fs2 = c\<lparr>fs_last := Some (AUM_Hash demo_lib demo_genesis)\<rparr>"
    unfolding demo_fs2_def c(1) by (simp add: FS_SetLastActiveAncestor_def)
  have inv: "FS_inv demo_lib demo_fs2" "FS_store demo_fs2 = {demo_genesis, demo_noop}"
    unfolding f2 using c(2,3) demo_hash(1) by (simp_all add: FS_inv_def fs_last_simps)
  have "AUM_Parent demo_noop = None" by (simp add: AUM_Parent_def demo_noop_def zeroAUM_def)
  moreover have "fs_last demo_fs2 = Some (AUM_Hash demo_lib demo_genesis)" unfolding f2 by simp
  ultimately show ?thesis
    using Open_single_heads_fail [OF inv(1), of demo_genesis demo_noop] inv(2) neq demo_genesis_parent by simp
qed

end
