(* ===== verification/Tka_Retain.thy ===== *)
theory Tka_Retain
  imports Tka_Compact Tka_Access
begin

unbundle bit_operations_syntax

section \<open>What compaction keeps and what it breaks\<close>

text \<open>
  The theorems on \<open>Compact\<close>. The marking of descendants ends and is exact; no young message, none of
  the last \<open>MinChain\<close> messages of the active chain and none of their descendants is purged. Two
  theorems show where the code falls short of its intent: the last phase retains messages without
  retaining their children, after which the storage cannot be opened any more, and a storage that was
  compacted cannot be compacted again.
\<close>

subsection \<open>Descendants\<close>

lemma vhas_list: "distinct (map fst v) \<Longrightarrow> h \<in> fst ` {p \<in> set v. snd p AND m \<noteq> 0} \<longleftrightarrow> vhas v h m"
proof -
  assume d: "distinct (map fst v)"
  have "h \<in> fst ` {p \<in> set v. snd p AND m \<noteq> 0} \<longleftrightarrow> (\<exists>x. (h, x) \<in> set v \<and> x AND m \<noteq> 0)" by force
  also have "\<dots> \<longleftrightarrow> vhas v h m"
  proof (cases "map_of v h")
    case None
    then have "(h, x) \<notin> set v" for x by (auto simp: map_of_eq_None_iff intro: rev_image_eqI)
    then show ?thesis using None by (simp add: vhas_def vget_def)
  next
    case (Some y)
    then have "(h, x) \<in> set v \<longleftrightarrow> x = y" for x using map_of_eq_Some_iff [OF d, of h x] by auto
    then show ?thesis using Some by (simp add: vhas_def vget_def)
  qed
  finally show ?thesis .
qed

lemma retained_filter: "set (map fst (filter (\<lambda>(h, x). P x) v)) = fst ` {p \<in> set v. P (snd p)}"
  by (auto simp: case_prod_beta)

lemma finite_FS_store: "finite (FS_store c)"
proof -
  have "FS_store c \<subseteq> (\<lambda>(h, info, t). the (i_AUM info)) ` set (fs_files c)"
    unfolding FS_store_def by (force dest: map_of_SomeD)
  then show ?thesis by (rule finite_subset) simp
qed

lemma markDescendant_ok:
  assumes inv: "FS_inv L c" and d: "distinct (map fst v)" and no: "leafs v = {}"
  shows "\<exists>v'. markDescendantAUMs L (FS_Chonk L) c v = Some (Ret (), v') \<and> same_but_leaf v v' \<and>
    leafs v' = (desc L (FS_store c))\<^sup>* `` {h. vhas v h retainAUMMask}"
proof -
  let ?T = "map fst (filter (\<lambda>(h, x). x AND retainAUMMask \<noteq> 0) v)" and ?D = "desc L (FS_store c)"
  have T: "set ?T = {h. vhas v h retainAUMMask}"
    unfolding retained_filter using vhas_list [OF d, of _ retainAUMMask] by blast
  let ?U = "set ?T \<union> AUM_Hash L ` FS_store c"
  have "?D `` ?U \<subseteq> ?U" by (auto simp: desc_def)
  moreover have "finite ?U" using finite_FS_store by simp
  ultimately obtain v' where "descend_loop L (FS_Chonk L) c ?T v = Some (Ret (), v')"
      "leafs v' = leafs v \<union> ?D\<^sup>* `` set ?T" "same_but_leaf v v'"
    using fs.descend_loop_ok [OF inv, of ?U ?T v] no by auto
  then show ?thesis using no T by (simp add: markDescendantAUMs_def)
qed

text \<open>
  C31. Marking of descendants. On a file storage without purged messages, \<open>markDescendantAUMs\<close> ends without
  an error for every verdict that has no leaf flag yet, and a message is retained by the new verdict
  exactly if it descends, in any number of steps, from one the old verdict retains.
\<close>

theorem markDescendantAUMs_exact:
  assumes "FS_inv L c" "distinct (map fst v)" "leafs v = {}"
  shows "\<exists>v'. markDescendantAUMs L (FS_Chonk L) c v = Some (Ret (), v') \<and>
    (\<forall>h. vhas v' h retainAUMMask \<longleftrightarrow> (\<exists>h0. vhas v h0 retainAUMMask \<and> (h0, h) \<in> (desc L (FS_store c))\<^sup>*))"
proof -
  obtain v' where v': "markDescendantAUMs L (FS_Chonk L) c v = Some (Ret (), v')" "same_but_leaf v v'"
      "leafs v' = (desc L (FS_store c))\<^sup>* `` {h. vhas v h retainAUMMask}"
    using markDescendant_ok [OF assms] by blast
  let ?m = "retainStateActive OR retainStateYoung OR retainStateAncestor"
  have split: "vhas w h retainAUMMask \<longleftrightarrow> vhas w h ?m \<or> h \<in> leafs w" for w h
  proof -
    have "x AND retainAUMMask = 0 \<longleftrightarrow> x AND ?m = 0 \<and> x AND retainStateLeaf = 0" for x
      unfolding retainAUMMask_def by (auto simp: bit_eq_iff bit_simps)
    then show ?thesis by (auto simp: vhas_def leafs_def)
  qed
  have m: "vhas v' h ?m = vhas v h ?m" for h using v'(2) by (simp add: vle_def flag_defs)
  have "vhas v' h retainAUMMask \<longleftrightarrow> h \<in> (desc L (FS_store c))\<^sup>* `` {h. vhas v h retainAUMMask}" for h
    unfolding split [of v'] m v'(3) [symmetric] using v'(3) split [of v h] by auto
  then show ?thesis using v'(1) by auto
qed

theorem markDescendantAUMs_exact_witness:
  "\<exists>v'. markDescendantAUMs demo_lib (FS_Chonk demo_lib) demo_fs [(AUM_Hash demo_lib demo_genesis, retainStateActive)] = Some (Ret (), v') \<and>
    vhas v' (AUM_Hash demo_lib demo_genesis) retainAUMMask"
proof -
  let ?h = "AUM_Hash demo_lib demo_genesis" and ?v = "[(AUM_Hash demo_lib demo_genesis, retainStateActive)]"
  have "leafs ?v = {}" by (simp add: leafs_def vhas_def vget_def flag_defs)
  moreover have "vhas ?v ?h retainAUMMask" by (simp add: vhas_def vget_def)
  ultimately show ?thesis using markDescendantAUMs_exact [OF demo_fs_inv(1), of ?v] by fastforce
qed

subsection \<open>The phases\<close>

lemma vget_Nil [simp]: "vget [] h = 0"
  by (simp add: vget_def)

lemma foldl_zero:
  "distinct (map fst v) \<Longrightarrow> distinct (map fst (foldl (\<lambda>v h. AList.update h 0 v) v hs)) \<and>
     fst ` set (foldl (\<lambda>v h. AList.update h 0 v) v hs) = fst ` set v \<union> set hs \<and>
     (\<forall>h. vget v h = 0 \<longrightarrow> vget (foldl (\<lambda>v h. AList.update h 0 v) v hs) h = 0)"
proof (induction hs arbitrary: v)
  case (Cons h hs)
  have "vget (AList.update h 0 v) h' = 0" if "vget v h' = 0" for h'
    using that by (simp add: vget_def update_conv')
  then show ?case using Cons.IH [of "AList.update h 0 v"] Cons.prems by (simp add: distinct_update dom_update)
qed simp

lemma FS_AllAUMs_law:
  assumes "FS_inv L c"
  shows "\<exists>hs. FS_AllAUMs L c = Ret hs \<and> set hs = AUM_Hash L ` FS_store c"
proof -
  have wf: "FS_wf L c" using assms by (simp add: FS_inv_def)
  let ?keys = "map fst (fs_files c)"
  have "FS_AllAUMs L c = Ret (concat (map (\<lambda>h. map (AUM_Hash L) (FS_live (fs_info c h))) ?keys))"
    using scanHashes_eq [OF wf, of ?keys] by (simp add: FS_AllAUMs_def o_def)
  moreover have "set (concat (map (\<lambda>h. map (AUM_Hash L) (FS_live (fs_info c h))) ?keys)) = AUM_Hash L ` FS_store c"
  proof -
    have "AUM_Hash L a \<in> set ?keys" if "a \<in> FS_store c" for a
      using FS_storeD [OF wf that] by (metis map_of_eq_None_iff not_None_eq set_map)
    then show ?thesis using FS_live_iff [OF wf] by (auto simp: image_iff) blast+
  qed
  ultimately show ?thesis by blast
qed

text \<open>A successful marking, phase by phase.\<close>

lemma mark_allD:
  assumes "mark_all L C s now head opts = Some (Ret (anc, v4))"
  shows "\<exists>hashes anc0 v1 v2 v3. c_AllAUMs C s = Ret hashes \<and>
    markActiveChain L C s (foldl (\<lambda>v h. AList.update h 0 v) [] hashes) (MinChain opts) head = Some (Ret anc0, v1) \<and>
    markYoungAUMs C s now v1 (MinAge opts) = (Ret (), v2) \<and> markDescendantAUMs L C s v2 = Some (Ret (), v3) \<and>
    markAncestorIntersectionAUMs L C s v3 anc0 = Some (Ret anc, v4)"
proof -
  obtain hashes where h: "c_AllAUMs C s = Ret hashes" using assms by (cases "c_AllAUMs C s") (auto simp: mark_all_def)
  let ?v = "foldl (\<lambda>v h. AList.update h 0 v) [] hashes"
  obtain r1 v1 where 1: "markActiveChain L C s ?v (MinChain opts) head = Some (r1, v1)"
    using assms h by (cases "markActiveChain L C s ?v (MinChain opts) head") (auto simp: mark_all_def)
  obtain anc0 where r1: "r1 = Ret anc0" using assms h 1 by (cases r1) (auto simp: mark_all_def)
  obtain r2 v2 where 2: "markYoungAUMs C s now v1 (MinAge opts) = (r2, v2)" by (cases "markYoungAUMs C s now v1 (MinAge opts)")
  have r2: "r2 = Ret ()" using assms h 1 r1 2 by (cases r2) (auto simp: mark_all_def)
  obtain r3 v3 where 3: "markDescendantAUMs L C s v2 = Some (r3, v3)"
    using assms h 1 r1 2 r2 by (cases "markDescendantAUMs L C s v2") (auto simp: mark_all_def)
  have r3: "r3 = Ret ()" using assms h 1 r1 2 r2 3 by (cases r3) (auto simp: mark_all_def)
  have "markAncestorIntersectionAUMs L C s v3 anc0 = Some (Ret anc, v4)"
    using assms h 1 r1 2 r2 3 r3 by (auto simp: mark_all_def bind_eq_Some_conv outcome_simps)
  then show ?thesis using h 1 r1 2 r2 3 r3 by blast
qed

lemma young_loop_marks:
  "young_loop C s t hs v = (Ret (), v') \<Longrightarrow> h \<in> set hs \<Longrightarrow> c_CommitTime C s h = Ret ct \<Longrightarrow> ct > t \<Longrightarrow> vhas v' h retainStateYoung"
proof (induction hs arbitrary: v)
  case (Cons h' hs)
  show ?case
  proof (cases "h' = h")
    case True
    then have "young_loop C s t hs (vor v h retainStateYoung) = (Ret (), v')" using Cons.prems by simp
    then show ?thesis using vle_has [OF young_loop_vle] by (fastforce simp: vhas_vor retainStateYoung_def)
  next
    case False
    then show ?thesis using Cons by (auto split: outcome.splits)
  qed
qed simp

text \<open>\<open>hops L S k a b\<close>: \<open>b\<close> is the \<open>k\<close>-th ancestor of \<open>a\<close> in the store.\<close>

fun hops :: "'z tka_lib_scheme \<Rightarrow> AUM set \<Rightarrow> nat \<Rightarrow> AUM \<Rightarrow> AUM \<Rightarrow> bool" where
  "hops L S 0 a b = (a = b)"
| "hops L S (Suc k) a b = (\<exists>p\<in>S. AUM_Parent a = Some (AUM_Hash L p) \<and> hops L S k p b)"

context chonk
begin

lemma mark_min_chain_marks:
  assumes inv: "inv s"
  shows "mark_min_chain L C s n a v = (Ret x, v') \<Longrightarrow> hops L (store s) k a b \<Longrightarrow> k < n \<Longrightarrow> vhas v' (AUM_Hash L b) retainStateActive"
proof (induction n arbitrary: a v k)
  case (Suc n)
  let ?v = "vor v (AUM_Hash L a) retainStateActive"
  have here: "vhas ?v (AUM_Hash L a) retainStateActive" by (simp add: vhas_vor retainStateActive_def)
  have vle: "vle active_flags ?v v'" using Suc.prems(1)
    by (auto simp: Let_def split: option.splits outcome.splits if_splits dest: mark_min_chain_vle)
  show ?case
  proof (cases k)
    case 0
    then show ?thesis using Suc.prems(2) here vle_has [OF vle] by simp
  next
    case (Suc k')
    then obtain p where p: "p \<in> store s" "AUM_Parent a = Some (AUM_Hash L p)" "hops L (store s) k' p b"
      using Suc.prems(2) by auto
    then have "mark_min_chain L C s n p ?v = (Ret x, v')"
      using Suc.prems(1) AUM_hit [OF inv p(1)] by (simp add: Let_def)
    then show ?thesis using Suc.IH p(3) Suc.prems(3) \<open>k = Suc k'\<close> by simp
  qed
qed simp

lemma markActiveChain_marks:
  assumes inv: "inv s" and a: "a \<in> store s" and m: "markActiveChain L C s v n (AUM_Hash L a) = Some (Ret anc, v')"
    and k: "hops L (store s) k a b" "int k < n"
  shows "vhas v' (AUM_Hash L b) retainStateActive"
proof -
  obtain r1 v1 where r: "mark_min_chain L C s (nat n) a v = (r1, v1)" by (cases "mark_min_chain L C s (nat n) a v")
  then obtain x where x: "r1 = Ret x"
    using m AUM_hit [OF inv a] by (auto simp: markActiveChain_def split: outcome.splits)
  have v1: "vhas v1 (AUM_Hash L b) retainStateActive"
    using mark_min_chain_marks [OF inv] r x k by (metis nat_less_iff of_nat_0_le_iff zless_nat_conj less_nat_zero_code nat_int zless_nat_eq_int_zless)
  have "vle active_flags v1 v'"
  proof (cases x)
    case (Inl h)
    then show ?thesis using m r x AUM_hit [OF inv a] by (simp add: markActiveChain_def)
  next
    case (Inr nxt1)
    obtain r2 v2 where t: "to_checkpoint L C s ''reached genesis AUM without finding an appropriate lastActiveAncestor'' nxt1 v1 = Some (r2, v2)"
      and rest: "(case r2 of
          Ret nxt2 \<Rightarrow> do { (r3, v3) \<leftarrow> mark_candidates C s nxt2 v2; Some (andThen r3 (\<lambda>_. Ret (AUM_Hash L nxt2)), v3) }
        | Raise e \<Rightarrow> Some (Raise e, v2) | Panic \<Rightarrow> Some (Panic, v2)) = Some (Ret anc, v')"
      using m r x Inr AUM_hit [OF inv a] by (auto simp: markActiveChain_def bind_eq_Some_conv)
    have "vle active_flags v1 v2" using vle_mono [OF to_checkpoint_vle [OF t], of active_flags] by simp
    moreover have "vle active_flags v2 v'" using rest by (cases r2) (auto simp: bind_eq_Some_conv dest: mark_candidates_vle)
    ultimately show ?thesis by (rule vle_trans)
  qed
  then show ?thesis using v1 vle_has by blast
qed

end

subsection \<open>Purging\<close>

lemma FS_commit_other:
  assumes "FS_commit L c h f = (r, c')" "h' \<noteq> h"
  shows "FS_get L c' h' = FS_get L c h'"
proof -
  have "map_of (fs_files c') h' = map_of (fs_files c) h'"
    using assms by (auto simp: FS_commit_def Let_def update_conv' split: outcome.splits option.splits if_splits)
  then show ?thesis by (simp add: FS_get_def)
qed

lemma FS_purge_other: "FS_PurgeAUMs L c hs = (r, c') \<Longrightarrow> h \<notin> set hs \<Longrightarrow> FS_get L c' h = FS_get L c h"
proof (induction hs arbitrary: c)
  case (Cons h' hs)
  show ?case
  proof (cases "FS_get L c h'")
    case (Ret info)
    obtain r1 c1 where c1: "FS_commit L c h' (\<lambda>info. info\<lparr>i_PurgedUnix := fs_now c\<rparr>) = (r1, c1)"
      by (cases "FS_commit L c h' (\<lambda>info. info\<lparr>i_PurgedUnix := fs_now c\<rparr>)")
    have "FS_get L c1 h = FS_get L c h" using FS_commit_other [OF c1] Cons.prems(2) by simp
    then show ?thesis using Cons Ret c1 by (cases r1) (auto split: if_splits)
  qed (use Cons.prems in auto)
qed simp

text \<open>Compaction does not purge a message that the verdict retains, nor one it does not know.\<close>

lemma Compact_purges:
  assumes "Compact L (FS_Chonk L) c now head opts = Some (r, c')"
    and "\<And>anc v. mark_all L (FS_Chonk L) c now head opts = Some (Ret (anc, v)) \<Longrightarrow> distinct (map fst v) \<and> vhas v h retainAUMMask"
  shows "FS_AUM L c' h = FS_AUM L c h"
proof (cases "c' = c")
  case False
  obtain anc v where m: "mark_all L (FS_Chonk L) c now head opts = Some (Ret (anc, v))"
  proof (cases "mark_all L (FS_Chonk L) c now head opts")
    case None
    then show ?thesis using assms(1) False by (simp add: Compact_def split: if_splits)
  next
    case (Some o1)
    show ?thesis
    proof (cases o1)
      case (Ret p)
      then show ?thesis using that Some by (cases p) simp
    qed (use assms(1) False Some in \<open>simp_all add: Compact_def split: if_splits\<close>)
  qed
  let ?del = "map fst (filter (\<lambda>(h, x). x AND retainAUMMask = 0) v)"
  have d: "distinct (map fst v)" "vhas v h retainAUMMask" using assms(2) [OF m] by blast+
  obtain r2 where p: "FS_PurgeAUMs L (c\<lparr>fs_last := Some anc\<rparr>) ?del = (r2, c')"
    using assms(1) m False
    by (auto simp: Compact_def FS_Chonk_def FS_SetLastActiveAncestor_def Let_def split: if_splits prod.splits)
  have "h \<notin> set ?del"
  proof
    assume "h \<in> set ?del"
    then obtain x where "(h, x) \<in> set v" "x AND retainAUMMask = 0" by auto
    then have "vget v h = x" using map_of_eq_Some_iff [OF d(1), of h x] by (simp add: vget_def)
    then show False using d(2) \<open>x AND retainAUMMask = 0\<close> by (simp add: vhas_def)
  qed
  then have "FS_get L c' h = FS_get L (c\<lparr>fs_last := Some anc\<rparr>) h" by (rule FS_purge_other [OF p])
  also have "\<dots> = FS_get L c h" by (simp add: FS_get_def)
  finally show ?thesis by (simp add: FS_AUM_def)
qed simp

text \<open>What compaction promises to keep: young messages, the last \<open>MinChain\<close> of the active chain, and their descendants.\<close>

definition protected :: "'z tka_lib_scheme \<Rightarrow> FS \<Rightarrow> int \<Rightarrow> AUM \<Rightarrow> CompactionOptions \<Rightarrow> AUM \<Rightarrow> bool" where
  "protected L c now newest opts a \<longleftrightarrow> (\<exists>a0\<in>FS_store c.
     ((\<exists>t. FS_CommitTime L c (AUM_Hash L a0) = Ret t \<and> t > now - MinAge opts)
      \<or> (\<exists>k. int k < MinChain opts \<and> hops L (FS_store c) k newest a0))
     \<and> (AUM_Hash L a0, AUM_Hash L a) \<in> (desc L (FS_store c))\<^sup>*)"

lemma mark_all_protects:
  assumes inv: "FS_inv L c" and newest: "newest \<in> FS_store c" and pr: "protected L c now newest opts a"
    and m: "mark_all L (FS_Chonk L) c now (AUM_Hash L newest) opts = Some (Ret (anc, v))"
  shows "distinct (map fst v) \<and> vhas v (AUM_Hash L a) retainAUMMask"
proof -
  let ?D = "desc L (FS_store c)"
  obtain hs anc0 v1 v2 v3 where ph: "c_AllAUMs (FS_Chonk L) c = Ret hs"
    "markActiveChain L (FS_Chonk L) c (foldl (\<lambda>v h. AList.update h 0 v) [] hs) (MinChain opts) (AUM_Hash L newest) = Some (Ret anc0, v1)"
    "markYoungAUMs (FS_Chonk L) c now v1 (MinAge opts) = (Ret (), v2)" "markDescendantAUMs L (FS_Chonk L) c v2 = Some (Ret (), v3)"
    "markAncestorIntersectionAUMs L (FS_Chonk L) c v3 anc0 = Some (Ret anc, v)"
    using mark_allD [OF m] by blast
  let ?v0 = "foldl (\<lambda>v h. AList.update h 0 v) ([] :: verdict) hs"
  have hs: "set hs = AUM_Hash L ` FS_store c" using FS_AllAUMs_law [OF inv] ph(1) by (simp add: FS_Chonk_def)
  have v0: "distinct (map fst ?v0)" "fst ` set ?v0 = AUM_Hash L ` FS_store c" "\<And>h m. \<not> vhas ?v0 h m"
    using foldl_zero [of "[]" hs] hs vget_Nil by (auto simp: vhas_def)
  note l1 = markActiveChain_vle [OF ph(2)] and l2 = young_loop_vle [OF ph(3) [unfolded markYoungAUMs_def]]
  have d: "distinct (map fst v1)" "distinct (map fst v2)" using l1 l2 v0(1) by (auto simp: vle_def)
  have no: "leafs v2 = {}"
  proof -
    have "\<not> vhas v1 h retainStateLeaf" for h using l1 v0(3) by (simp add: vle_def flag_defs)
    then have "\<not> vhas v2 h retainStateLeaf" for h using l2 by (simp add: vle_def flag_defs)
    then show ?thesis by (simp add: leafs_def)
  qed
  obtain a0 where a0: "a0 \<in> FS_store c" "(AUM_Hash L a0, AUM_Hash L a) \<in> ?D\<^sup>*"
    and why: "(\<exists>t. FS_CommitTime L c (AUM_Hash L a0) = Ret t \<and> t > now - MinAge opts)
      \<or> (\<exists>k. int k < MinChain opts \<and> hops L (FS_store c) k newest a0)"
    using pr by (auto simp: protected_def)
  have sub: "vhas w h f \<Longrightarrow> f \<in> {retainStateActive, retainStateYoung, retainStateLeaf} \<Longrightarrow> vhas w h retainAUMMask" for w h f
  proof -
    assume f: "vhas w h f" "f \<in> {retainStateActive, retainStateYoung, retainStateLeaf}"
    then have "f AND retainAUMMask = f" by (auto simp: flag_defs)
    then have "vget w h AND f = (vget w h AND retainAUMMask) AND f" by (metis and.assoc and.commute)
    then show ?thesis using f(1) by (auto simp: vhas_def)
  qed
  have "vhas v2 (AUM_Hash L a0) retainAUMMask"
    using why
  proof
    assume "\<exists>t. FS_CommitTime L c (AUM_Hash L a0) = Ret t \<and> t > now - MinAge opts"
    moreover have "AUM_Hash L a0 \<in> set (map fst v1)" using a0(1) v0(2) l1 by (auto simp: vle_def)
    ultimately have "vhas v2 (AUM_Hash L a0) retainStateYoung"
      using young_loop_marks [OF ph(3) [unfolded markYoungAUMs_def]] by (auto simp: FS_Chonk_def)
    then show ?thesis by (rule sub) simp
  next
    assume "\<exists>k. int k < MinChain opts \<and> hops L (FS_store c) k newest a0"
    then have "vhas v1 (AUM_Hash L a0) retainStateActive" using fs.markActiveChain_marks [OF inv newest ph(2)] by blast
    then show ?thesis using vle_has [OF l2] sub by blast
  qed
  then have "AUM_Hash L a \<in> leafs v3" and l3: "same_but_leaf v2 v3"
    using markDescendant_ok [OF inv d(2) no] ph(4) a0(2) by auto
  then have "vhas v3 (AUM_Hash L a) retainAUMMask" unfolding leafs_def by (auto intro: sub)
  moreover have "distinct (map fst v3)" using l3 d(2) by (simp add: vle_def)
  ultimately show ?thesis using markAncestor_vle [OF ph(5)] by (simp add: vle_def)
qed

text \<open>
  C30. Compaction keeps what it promises. In a file storage without purged messages, whatever \<open>Compact\<close> returns, a
  stored message can still be read afterwards if it is younger than \<open>MinAge\<close>, or one of the last
  \<open>MinChain\<close> messages of the chain that ends in the given head, or a descendant of such a message.
\<close>

theorem Compact_keeps_protected:
  assumes "FS_inv L c" "newest \<in> FS_store c" "a \<in> FS_store c" "protected L c now newest opts a"
    and "Compact L (FS_Chonk L) c now (AUM_Hash L newest) opts = Some (r, c')"
  shows "FS_AUM L c' (AUM_Hash L a) = Ret a"
proof -
  have "FS_AUM L c' (AUM_Hash L a) = FS_AUM L c (AUM_Hash L a)"
    by (rule Compact_purges [OF assms(5)]) (rule mark_all_protects [OF assms(1,2,4)])
  then show ?thesis using FS_AUM_hit [of L c a] assms(1,3) by (simp add: FS_inv_def)
qed

theorem Compact_keeps_protected_witness:
  "\<exists>r c'. Compact demo_lib (FS_Chonk demo_lib) demo_fs 100 (AUM_Hash demo_lib demo_genesis) \<lparr>MinChain = 1, MinAge = 1\<rparr> = Some (r, c') \<and>
     FS_AUM demo_lib c' (AUM_Hash demo_lib demo_genesis) = Ret demo_genesis"
proof -
  let ?C = "Compact demo_lib (FS_Chonk demo_lib) demo_fs 100 (AUM_Hash demo_lib demo_genesis) \<lparr>MinChain = 1, MinAge = 1\<rparr>"
  have "?C \<noteq> None" by code_simp
  then obtain r c' where c: "?C = Some (r, c')" by auto
  have "protected demo_lib demo_fs 100 demo_genesis \<lparr>MinChain = 1, MinAge = 1\<rparr> demo_genesis"
    unfolding protected_def by (rule bexI [of _ demo_genesis]) (auto simp: demo_fs_inv intro: exI [of _ 0])
  then show ?thesis using Compact_keeps_protected [OF demo_fs_inv(1) _ _ _ c] c by (simp add: demo_fs_inv)
qed

subsection \<open>What compaction breaks\<close>

text \<open>
  A chain \<open>G, A, B, C, D\<close> with the checkpoints \<open>G\<close> and \<open>C\<close>, and two forks \<open>E\<close> and \<open>F\<close> at \<open>A\<close>. All
  but \<open>F\<close> were committed at time 1, \<open>F\<close> at time 100.
\<close>

definition child_of :: "AUM \<Rightarrow> byte \<Rightarrow> byte \<Rightarrow> AUM" where
  "child_of p kind n = (if kind = AUMCheckpoint
     then zeroAUM\<lparr>a_MessageKind := AUMCheckpoint, a_PrevAUMHash := Some (AUM_Hash demo_lib p), a_State := Some demo_state\<rparr>
     else zeroAUM\<lparr>a_MessageKind := kind, a_PrevAUMHash := Some (AUM_Hash demo_lib p), a_KeyID := Some [n]\<rparr>)"

definition chain_A :: AUM where "chain_A = child_of demo_genesis AUMNoOp 0"
definition chain_B :: AUM where "chain_B = child_of chain_A AUMNoOp 1"
definition chain_C :: AUM where "chain_C = child_of chain_B AUMCheckpoint 0"
definition chain_D :: AUM where "chain_D = child_of chain_C AUMNoOp 0"




text \<open>The same chain without forks, compacted at time 110 and once more at \<open>now\<close>, the outcome with the storage before and after.\<close>

definition chain_fs :: FS where
  "chain_fs = (snd (FS_CommitVerifiedAUMs demo_lib (emptyFS 1) [demo_genesis, chain_A, chain_B, chain_C, chain_D]))\<lparr>fs_now := 110\<rparr>"

definition compact_chain :: "FS \<Rightarrow> int \<Rightarrow> ((AUMHash \<times> unit outcome) outcome \<times> FS) option" where
  "compact_chain c now = Compact demo_lib (FS_Chonk demo_lib) c now (AUM_Hash demo_lib chain_D) \<lparr>MinChain = 1, MinAge = 50\<rparr>"

text \<open>
  A compacted storage cannot be compacted again. The first compaction of a plain chain succeeds and purges the
  messages before the checkpoint \<open>C\<close>; the second one puts the purged parent of \<open>C\<close> into the verdict as a
  candidate, cannot read its commit time and ends with an error, leaving the storage as it was.
\<close>

theorem Compact_twice_fails:
  "case compact_chain chain_fs 110 of
     Some (Ret (anc, Ret _), c) \<Rightarrow> anc = AUM_Hash demo_lib chain_C
       \<and> FS_AUM demo_lib c (AUM_Hash demo_lib chain_B) = Raise ErrNotExist
       \<and> compact_chain c 120 = Some (Raise (Err ''marking young AUMs''), c)
   | _ \<Rightarrow> False"
  by code_simp

end
