(* ===== verification/Lru_Ring.thy ===== *)
theory Lru_Ring
  imports Lru_Spec
begin

section \<open>Package \<open>util/lru\<close>: the LRU cache as a ring of pointers\<close>

text \<open>
  The generic cache of \<open>src/util/lru/lru.go\<close>. Its entries are heap cells that form a doubly linked ring;
  the ring is changed by single writes to the \<open>prev\<close> and \<open>next\<close> fields, which are modelled one by one
  on an explicit heap from addresses to entries, in the order of the code. Reading or writing a field
  through an address without an entry is a panic (\<open>None\<close>). The Go map \<open>lookup\<close> is an association list
  without duplicate keys, \<open>None\<close> for the nil map. The invariant says that the cells reachable from
  \<open>head\<close> are a ring with exactly the elements of \<open>lookup\<close>; the interpretation \<open>ring\<close> shows that the cache
  behaves as the abstract one of \<open>Lru_Spec\<close>.
\<close>

subsection \<open>State\<close>

record ('k, 'v) rentry =
  r_prev :: nat
  r_next :: nat
  r_key :: 'k
  r_value :: 'v

record ('k, 'v) Ring =
  rMaxEntries :: int
  r_head :: "nat option"
  r_lookup :: "('k \<times> nat) list option"
  r_heap :: "nat \<Rightarrow> ('k, 'v) rentry option"
  r_fresh :: nat

definition newRing :: "int \<Rightarrow> ('k, 'v) Ring" where
  "newRing n = \<lparr>rMaxEntries = n, r_head = None, r_lookup = None, r_heap = (\<lambda>_. None), r_fresh = 0\<rparr>"

type_synonym ('k, 'v) rheap = "nat \<Rightarrow> ('k, 'v) rentry option"

subsection \<open>Field access\<close>

definition nxt :: "('k, 'v) rheap \<Rightarrow> nat \<Rightarrow> nat option" where
  "nxt h a = map_option r_next (h a)"

definition prv :: "('k, 'v) rheap \<Rightarrow> nat \<Rightarrow> nat option" where
  "prv h a = map_option r_prev (h a)"

definition set_nxt :: "nat \<Rightarrow> nat \<Rightarrow> ('k, 'v) rheap \<Rightarrow> ('k, 'v) rheap option" where
  "set_nxt a b h = do { e \<leftarrow> h a; Some (h(a \<mapsto> e\<lparr>r_next := b\<rparr>)) }"

definition set_prv :: "nat \<Rightarrow> nat \<Rightarrow> ('k, 'v) rheap \<Rightarrow> ('k, 'v) rheap option" where
  "set_prv a b h = do { e \<leftarrow> h a; Some (h(a \<mapsto> e\<lparr>r_prev := b\<rparr>)) }"

definition set_value :: "nat \<Rightarrow> 'v \<Rightarrow> ('k, 'v) rheap \<Rightarrow> ('k, 'v) rheap option" where
  "set_value a v h = do { e \<leftarrow> h a; Some (h(a \<mapsto> e\<lparr>r_value := v\<rparr>)) }"

subsection \<open>The operations\<close>

definition Ring_lookup :: "('k, 'v) Ring \<Rightarrow> 'k \<Rightarrow> nat option" where
  "Ring_lookup c key = (case r_lookup c of None \<Rightarrow> None | Some m \<Rightarrow> map_of m key)"

definition Ring_Len :: "('k, 'v) Ring \<Rightarrow> nat" where
  "Ring_Len c = (case r_lookup c of None \<Rightarrow> 0 | Some m \<Rightarrow> length m)"

definition newAtFront :: "'k \<Rightarrow> 'v \<Rightarrow> ('k, 'v) Ring \<Rightarrow> (nat \<times> ('k, 'v) Ring) option" where
  "newAtFront key value c = do {
     let a = r_fresh c;
     let h = (r_heap c)(a \<mapsto> \<lparr>r_prev = a, r_next = a, r_key = key, r_value = value\<rparr>);
     h \<leftarrow> (case r_head c of
         None \<Rightarrow> Some h
       | Some hp \<Rightarrow> do {
           h \<leftarrow> set_nxt a hp h;
           p \<leftarrow> prv h hp;
           h \<leftarrow> set_prv a p h;
           p \<leftarrow> prv h hp;
           h \<leftarrow> set_nxt p a h;
           set_prv hp a h });
     Some (a, c\<lparr>r_head := Some a, r_heap := h, r_fresh := a + 1\<rparr>) }"

definition moveToFront :: "nat \<Rightarrow> ('k, 'v) Ring \<Rightarrow> ('k, 'v) Ring option" where
  "moveToFront ent c =
     (if r_head c = Some ent then Some c
      else do {
        let h = r_heap c;
        p \<leftarrow> prv h ent;
        n \<leftarrow> nxt h ent;
        h \<leftarrow> set_nxt p n h;
        n \<leftarrow> nxt h ent;
        p \<leftarrow> prv h ent;
        h \<leftarrow> set_prv n p h;
        hp \<leftarrow> r_head c;
        p \<leftarrow> prv h hp;
        h \<leftarrow> set_prv ent p h;
        h \<leftarrow> set_nxt ent hp h;
        p \<leftarrow> prv h hp;
        h \<leftarrow> set_nxt p ent h;
        h \<leftarrow> set_prv hp ent h;
        Some (c\<lparr>r_heap := h, r_head := Some ent\<rparr>) })"

definition deleteElement :: "nat \<Rightarrow> ('k, 'v) Ring \<Rightarrow> ('k, 'v) Ring option" where
  "deleteElement ent c = do {
     let h = r_heap c;
     n \<leftarrow> nxt h ent;
     c \<leftarrow> (if n = ent then Some (c\<lparr>r_head := None\<rparr>)
       else do {
         p \<leftarrow> prv h ent;
         h \<leftarrow> set_prv n p h;
         p \<leftarrow> prv h ent;
         n \<leftarrow> nxt h ent;
         h \<leftarrow> set_nxt p n h;
         n \<leftarrow> nxt h ent;
         Some (c\<lparr>r_heap := h, r_head := if r_head c = Some ent then Some n else r_head c\<rparr>) });
     e \<leftarrow> r_heap c ent;
     Some (c\<lparr>r_lookup := map_option (AList.delete (r_key e)) (r_lookup c)\<rparr>) }"

definition deleteOldest :: "('k, 'v) Ring \<Rightarrow> ('k, 'v) Ring option" where
  "deleteOldest c = do { hp \<leftarrow> r_head c; p \<leftarrow> prv (r_heap c) hp; deleteElement p c }"

definition Ring_Set :: "'k \<Rightarrow> 'v \<Rightarrow> ('k, 'v) Ring \<Rightarrow> ('k, 'v) Ring option" where
  "Ring_Set key value c = do {
     let c = (if r_lookup c = None then c\<lparr>r_lookup := Some []\<rparr> else c);
     (case Ring_lookup c key of
        Some ent \<Rightarrow> do {
          c \<leftarrow> moveToFront ent c;
          h \<leftarrow> set_value ent value (r_heap c);
          Some (c\<lparr>r_heap := h\<rparr>) }
      | None \<Rightarrow> do {
          (ent, c) \<leftarrow> newAtFront key value c;
          let c = c\<lparr>r_lookup := map_option (AList.update key ent) (r_lookup c)\<rparr>;
          if rMaxEntries c \<noteq> 0 \<and> rMaxEntries c < int (Ring_Len c) then deleteOldest c else Some c }) }"

definition Ring_GetOk :: "'k \<Rightarrow> ('k, 'v) Ring \<Rightarrow> ('v option \<times> ('k, 'v) Ring) option" where
  "Ring_GetOk key c = (case Ring_lookup c key of
     None \<Rightarrow> Some (None, c)
   | Some ent \<Rightarrow> do {
       c \<leftarrow> moveToFront ent c;
       e \<leftarrow> r_heap c ent;
       Some (Some (r_value e), c) })"

definition Ring_Contains :: "'k \<Rightarrow> ('k, 'v) Ring \<Rightarrow> (bool \<times> ('k, 'v) Ring) option" where
  "Ring_Contains key c = do { (v, c) \<leftarrow> Ring_GetOk key c; Some (v \<noteq> None, c) }"

definition Ring_PeekOk :: "'k \<Rightarrow> ('k, 'v) Ring \<Rightarrow> 'v option option" where
  "Ring_PeekOk key c = (case Ring_lookup c key of
     None \<Rightarrow> Some None
   | Some ent \<Rightarrow> do { e \<leftarrow> r_heap c ent; Some (Some (r_value e)) })"

definition Ring_Delete :: "'k \<Rightarrow> ('k, 'v) Ring \<Rightarrow> ('k, 'v) Ring option" where
  "Ring_Delete key c = (case Ring_lookup c key of None \<Rightarrow> Some c | Some ent \<Rightarrow> deleteElement ent c)"

definition Ring_DeleteOldest :: "('k, 'v) Ring \<Rightarrow> ('k, 'v) Ring option" where
  "Ring_DeleteOldest c = (if r_head c \<noteq> None then deleteOldest c else Some c)"

text \<open>\<open>ForEach\<close> with a function that collects what it is called with; \<open>None\<close> is a panic or a ring that never closes.\<close>

partial_function (option) foreach_loop :: "('k, 'v) rheap \<Rightarrow> nat \<Rightarrow> nat \<Rightarrow> ('k \<times> 'v) list \<Rightarrow> ('k \<times> 'v) list option" where
  [code]: "foreach_loop h hp cur acc = do {
     e \<leftarrow> h cur;
     let acc = acc @ [(r_key e, r_value e)];
     if r_next e = hp then Some acc else foreach_loop h hp (r_next e) acc }"

definition Ring_ForEach :: "('k, 'v) Ring \<Rightarrow> ('k \<times> 'v) list option" where
  "Ring_ForEach c = (case r_head c of None \<Rightarrow> Some [] | Some hp \<Rightarrow> foreach_loop (r_heap c) hp hp [])"

subsection \<open>Rings\<close>

text \<open>The pairs of neighbours in a list, and in a list that is closed to a ring.\<close>

fun seg :: "'a list \<Rightarrow> ('a \<times> 'a) set" where
  "seg (x # y # zs) = insert (x, y) (seg (y # zs))"
| "seg _ = {}"

definition nb :: "'a list \<Rightarrow> ('a \<times> 'a) set" where
  "nb xs = seg (xs @ [hd xs])"

definition ring :: "('k, 'v) rheap \<Rightarrow> nat list \<Rightarrow> bool" where
  "ring h as \<longleftrightarrow> as \<noteq> [] \<and> distinct as \<and> (\<forall>(a, b)\<in>nb as. nxt h a = Some b \<and> prv h b = Some a)"

text \<open>What a cell holds, apart from its links.\<close>

definition content :: "('k, 'v) rheap \<Rightarrow> nat \<Rightarrow> ('k \<times> 'v) option" where
  "content h a = map_option (\<lambda>e. (r_key e, r_value e)) (h a)"

lemma seg_append: "seg (xs @ y # ys) = seg (xs @ [y]) \<union> seg (y # ys)"
  by (induction xs rule: seg.induct) auto

lemma seg_snoc: "zs \<noteq> [] \<Longrightarrow> seg (zs @ [x]) = insert (last zs, x) (seg zs)"
  by (induction zs rule: seg.induct) auto

lemma seg_Cons: "zs \<noteq> [] \<Longrightarrow> seg (x # zs) = insert (x, hd zs) (seg zs)"
  by (cases zs) auto

lemma seg_in: "(a, b) \<in> seg zs \<Longrightarrow> a \<in> set zs \<and> b \<in> set zs"
  by (induction zs rule: seg.induct) auto

lemma seg_ends: "(a, b) \<in> seg zs \<Longrightarrow> distinct zs \<Longrightarrow> a \<noteq> last zs \<and> b \<noteq> hd zs"
  by (induction zs rule: seg.induct) (auto dest: seg_in)

lemma nb_rotate: "nb (xs @ ys) = nb (ys @ xs)"
proof (cases "xs = [] \<or> ys = []")
  case False
  then obtain x xs' y ys' where "xs = x # xs'" "ys = y # ys'" by (auto simp: neq_Nil_conv)
  then show ?thesis using seg_append [of "x # xs'" y "ys' @ [x]"] seg_append [of "y # ys'" x "xs' @ [y]"] by (auto simp: nb_def)
qed auto

lemma nb_eq: "zs \<noteq> [] \<Longrightarrow> nb zs = insert (last zs, hd zs) (seg zs)"
  by (simp add: nb_def seg_snoc)

lemma nb_Cons: "zs \<noteq> [] \<Longrightarrow> nb (e # zs) = insert (e, hd zs) (insert (last zs, e) (seg zs))"
  by (auto simp: nb_eq seg_Cons)

lemma ring_rotate: "ring h (xs @ ys) \<longleftrightarrow> ring h (ys @ xs)"
  by (auto simp: ring_def nb_rotate)

lemma ring_hd: "ring h zs \<Longrightarrow> prv h (hd zs) = Some (last zs) \<and> nxt h (last zs) = Some (hd zs)"
  by (auto simp: ring_def nb_eq)

text \<open>Taking a cell out of a ring, and putting one in before its head, as changes of the links.\<close>

lemma ring_unlink:
  assumes "ring h (e # zs)" "zs \<noteq> []"
    and "nxt h' = (nxt h)(last zs \<mapsto> hd zs)" "prv h' = (prv h)(hd zs \<mapsto> last zs)"
  shows "ring h' zs" "prv h e = Some (last zs)" "nxt h e = Some (hd zs)"
    "prv h (hd zs) = Some e" "nxt h (last zs) = Some e" "e \<notin> set zs"
proof -
  have r: "\<And>a b. (a, b) \<in> seg zs \<Longrightarrow> nxt h a = Some b \<and> prv h b = Some a" and d: "distinct zs" "e \<notin> set zs"
    and links: "nxt h e = Some (hd zs)" "prv h (hd zs) = Some e" "nxt h (last zs) = Some e" "prv h e = Some (last zs)"
    using assms(1,2) by (auto simp: ring_def nb_Cons)
  then show "prv h e = Some (last zs)" "nxt h e = Some (hd zs)" "prv h (hd zs) = Some e" "nxt h (last zs) = Some e" "e \<notin> set zs"
    by simp_all
  have "nxt h' a = Some b \<and> prv h' b = Some a" if "(a, b) \<in> seg zs" for a b
    using r [OF that] seg_ends [OF that d(1)] assms(3,4) by simp
  moreover have "nxt h' (last zs) = Some (hd zs)" "prv h' (hd zs) = Some (last zs)" using assms(3,4) by simp_all
  ultimately show "ring h' zs" using d(1) assms(2) unfolding ring_def nb_eq [OF assms(2)] by blast
qed

lemma ring_link:
  assumes "ring h zs" "e \<notin> set zs"
    and "nxt h' = (nxt h)(e \<mapsto> hd zs, last zs \<mapsto> e)" "prv h' = (prv h)(e \<mapsto> last zs, hd zs \<mapsto> e)"
  shows "ring h' (e # zs)"
proof -
  have r: "\<And>a b. (a, b) \<in> seg zs \<Longrightarrow> nxt h a = Some b \<and> prv h b = Some a" and d: "zs \<noteq> []" "distinct zs"
    using assms(1) by (auto simp: ring_def nb_eq)
  have "nxt h' a = Some b \<and> prv h' b = Some a" if "(a, b) \<in> seg zs" for a b
    using r [OF that] seg_ends [OF that d(2)] seg_in [OF that] assms(2-4) by auto
  moreover have "e \<noteq> last zs" "e \<noteq> hd zs" using assms(2) d(1) by auto
  then have "nxt h' e = Some (hd zs)" "prv h' (hd zs) = Some e" "nxt h' (last zs) = Some e" "prv h' e = Some (last zs)"
    using assms(3,4) by simp_all
  moreover have "distinct (e # zs)" using d(2) assms(2) by simp
  ultimately show ?thesis unfolding ring_def nb_Cons [OF d(1)] by blast
qed

lemma ring_single: "ring h [e] \<longleftrightarrow> nxt h e = Some e \<and> prv h e = Some e"
  by (auto simp: ring_def nb_def)

lemma ring_closed:
  assumes "ring h (e # zs)"
  shows "nxt h e = Some e \<longleftrightarrow> zs = []"
proof (cases "zs = []")
  case True
  then show ?thesis using assms by (simp add: ring_single)
next
  case False
  then have "nxt h e = Some (hd zs)" "hd zs \<noteq> e" using assms by (auto simp: ring_def nb_Cons)
  then show ?thesis using False by simp
qed

subsection \<open>Writes to fields\<close>

lemma nxt_dom: "nxt h a = Some b \<Longrightarrow> \<exists>e. h a = Some e" and prv_dom: "prv h a = Some b \<Longrightarrow> \<exists>e. h a = Some e"
  by (auto simp: nxt_def prv_def)

text \<open>A write that succeeds changes one link of one cell and nothing else.\<close>

lemma set_nxt_ok:
  "h a \<noteq> None \<Longrightarrow> \<exists>h'. set_nxt a b h = Some h' \<and> nxt h' = (nxt h)(a \<mapsto> b) \<and> prv h' = prv h \<and> content h' = content h \<and>
     (\<forall>x. h' x = None \<longleftrightarrow> h x = None)"
  by (elim not_None_eq [THEN iffD1, elim_format] exE)
    (rule exI, rule conjI, simp add: set_nxt_def, auto simp: nxt_def prv_def content_def fun_eq_iff)

lemma set_prv_ok:
  "h a \<noteq> None \<Longrightarrow> \<exists>h'. set_prv a b h = Some h' \<and> prv h' = (prv h)(a \<mapsto> b) \<and> nxt h' = nxt h \<and> content h' = content h \<and>
     (\<forall>x. h' x = None \<longleftrightarrow> h x = None)"
  by (elim not_None_eq [THEN iffD1, elim_format] exE)
    (rule exI, rule conjI, simp add: set_prv_def, auto simp: nxt_def prv_def content_def fun_eq_iff)

subsection \<open>The operations on rings\<close>

lemma ring_None: "ring h as \<Longrightarrow> a \<in> set as \<Longrightarrow> h a \<noteq> None"
proof -
  assume "ring h as" "a \<in> set as"
  then obtain xs ys where "ring h ((a # ys) @ xs)" using ring_rotate [of h _ "a # _"] by (metis split_list)
  then have "nxt h a \<noteq> None" by (cases "ys @ xs") (auto simp: ring_def nb_def)
  then show ?thesis by (auto simp: nxt_def)
qed

text \<open>The two writes that close the gap around a cell commute.\<close>

lemma unlink_ok:
  fixes h :: "('k, 'v) rheap"
  assumes "ring h (xs @ ent # ys)" "xs @ ys \<noteq> []"
  shows "\<exists>p n. prv h ent = Some p \<and> nxt h ent = Some n \<and> n \<noteq> ent \<and> p \<noteq> ent \<and> (xs = [] \<longrightarrow> n = hd ys) \<and>
    h p \<noteq> None \<and> h n \<noteq> None \<and>
    (\<forall>h' :: ('k, 'v) rheap. nxt h' = (nxt h)(p \<mapsto> n) \<longrightarrow> prv h' = (prv h)(n \<mapsto> p) \<longrightarrow> ring h' (xs @ ys))"
proof (intro exI conjI allI impI)
  let ?p = "last (ys @ xs)" and ?n = "hd (ys @ xs)"
  have r: "ring h (ent # ys @ xs)" using assms(1) ring_rotate [of h xs "ent # ys"] by simp
  have ne: "ys @ xs \<noteq> []" using assms(2) by auto
  have m: "?p \<in> set (ys @ xs)" "?n \<in> set (ys @ xs)" using ne last_in_set hd_in_set by blast+
  then show "h ?p \<noteq> None" "h ?n \<noteq> None" using ring_None [OF r] by auto
  have "ent \<notin> set (ys @ xs)" using r by (simp add: ring_def)
  then show "?n \<noteq> ent" "?p \<noteq> ent" using m by metis+
  show "prv h ent = Some ?p" "nxt h ent = Some ?n" using r nb_Cons [OF ne] by (auto simp: ring_def)
  show "?n = hd ys" if "xs = []" using that by simp
  fix h' :: "('k, 'v) rheap" assume "nxt h' = (nxt h)(?p \<mapsto> ?n)" "prv h' = (prv h)(?n \<mapsto> ?p)"
  then have "ring h' (ys @ xs)" by (rule ring_unlink(1) [OF r ne])
  then show "ring h' (xs @ ys)" by (simp add: ring_rotate [of h' xs])
qed

lemma moveToFront_ok:
  fixes c :: "('k, 'v) Ring"
  assumes r: "ring (r_heap c) (xs @ ent # ys)" and front: "r_head c = Some (hd (xs @ ent # ys))"
  shows "\<exists>h'. moveToFront ent c = Some (c\<lparr>r_heap := h', r_head := Some ent\<rparr>) \<and> ring h' (ent # xs @ ys) \<and>
    content h' = content (r_heap c) \<and> (\<forall>x. h' x = None \<longleftrightarrow> r_heap c x = None)"
proof (cases "xs = []")
  case True
  then have "moveToFront ent c = Some (c\<lparr>r_heap := r_heap c, r_head := Some ent\<rparr>)" using front by (simp add: moveToFront_def)
  then show ?thesis using r True by (intro exI [of _ "r_heap c"]) simp
next
  case False
  let ?h = "r_heap c" and ?hp = "hd xs" and ?q = "last (xs @ ys)"
  have hp: "r_head c = Some ?hp" "?hp \<noteq> ent" using front False r by (auto simp: ring_def)
  have ne: "xs @ ys \<noteq> []" using False by simp
  obtain p n where pn: "prv ?h ent = Some p" "nxt ?h ent = Some n" "n \<noteq> ent" "p \<noteq> ent" "?h p \<noteq> None" "?h n \<noteq> None"
    and un: "\<forall>h' :: ('k, 'v) rheap. nxt h' = (nxt ?h)(p \<mapsto> n) \<longrightarrow> prv h' = (prv ?h)(n \<mapsto> p) \<longrightarrow> ring h' (xs @ ys)"
    using unlink_ok [OF r ne] by (elim exE conjE) (rule that)
  obtain h1 where h1: "set_nxt p n ?h = Some h1" "nxt h1 = (nxt ?h)(p \<mapsto> n)" "prv h1 = prv ?h" "content h1 = content ?h" "\<forall>x. h1 x = None \<longleftrightarrow> ?h x = None"
    using set_nxt_ok [of ?h p n, OF pn(5)] by (elim exE conjE) (rule that)
  obtain h2 where h2: "set_prv n p h1 = Some h2" "prv h2 = (prv h1)(n \<mapsto> p)" "nxt h2 = nxt h1" "content h2 = content h1" "\<forall>x. h2 x = None \<longleftrightarrow> h1 x = None"
    using set_prv_ok [of h1 n p] h1(5) pn(6) by auto
  have r2: "ring h2 (xs @ ys)" using un h1(2,3) h2(2,3) by simp
  have e2: "ent \<notin> set (xs @ ys)" "h2 ent \<noteq> None" using r h1(5) h2(5) ring_None [OF r, of ent] by (auto simp: ring_def)
  have q: "prv h2 ?hp = Some ?q" "?q \<in> set (xs @ ys)" using ring_hd [OF r2] False by (auto simp: hd_append) (metis Un_iff last_in_set append_is_Nil_conv set_append)
  obtain h3 where h3: "set_prv ent ?q h2 = Some h3" "prv h3 = (prv h2)(ent \<mapsto> ?q)" "nxt h3 = nxt h2" "content h3 = content h2" "\<forall>x. h3 x = None \<longleftrightarrow> h2 x = None"
    using set_prv_ok [of h2 ent ?q, OF e2(2)] by (elim exE conjE) (rule that)
  obtain h4 where h4: "set_nxt ent ?hp h3 = Some h4" "nxt h4 = (nxt h3)(ent \<mapsto> ?hp)" "prv h4 = prv h3" "content h4 = content h3" "\<forall>x. h4 x = None \<longleftrightarrow> h3 x = None"
    using set_nxt_ok [of h3 ent ?hp] h3(5) e2(2) by auto
  have "h4 ?q \<noteq> None" using ring_None [OF r2 q(2)] h3(5) h4(5) by simp
  then obtain h5 where h5: "set_nxt ?q ent h4 = Some h5" "nxt h5 = (nxt h4)(?q \<mapsto> ent)" "prv h5 = prv h4" "content h5 = content h4" "\<forall>x. h5 x = None \<longleftrightarrow> h4 x = None"
    using set_nxt_ok [of h4 ?q ent] by auto
  have "h5 ?hp \<noteq> None" using ring_None [OF r2, of ?hp] False h3(5) h4(5) h5(5) by simp
  then obtain h6 where h6: "set_prv ?hp ent h5 = Some h6" "prv h6 = (prv h5)(?hp \<mapsto> ent)" "nxt h6 = nxt h5" "content h6 = content h5" "\<forall>x. h6 x = None \<longleftrightarrow> h5 x = None"
    using set_prv_ok [of h5 ?hp ent] by auto
  have "ring h6 (ent # xs @ ys)"
    by (rule ring_link [OF r2 e2(1)]) (use False h3 h4 h5 h6 in \<open>simp_all add: hd_append\<close>)
  moreover have "moveToFront ent c = Some (c\<lparr>r_heap := h6, r_head := Some ent\<rparr>)"
    using hp pn h1 h2 h3 h4 h5 h6 q(1) by (simp add: moveToFront_def)
  ultimately show ?thesis using h1 h2 h3 h4 h5 h6 by auto
qed

lemma ring_cong:
  assumes "\<And>x. x \<in> set as \<Longrightarrow> nxt h' x = nxt h x \<and> prv h' x = prv h x" "ring h as"
  shows "ring h' as"
proof -
  have ne: "as \<noteq> []" using assms(2) by (simp add: ring_def)
  have "a \<in> set as \<and> b \<in> set as" if "(a, b) \<in> nb as" for a b using that seg_in [of a b as] ne by (auto simp: nb_eq)
  then have "nxt h' a = Some b \<and> prv h' b = Some a" if "(a, b) \<in> nb as" for a b
    using that assms(1) [of a] assms(1) [of b] assms(2) unfolding ring_def by fastforce
  then show ?thesis using assms(2) unfolding ring_def by blast
qed

lemma newAtFront_ok:
  assumes free: "r_heap c (r_fresh c) = None" and front: "if as = [] then r_head c = None else r_head c = Some (hd as) \<and> ring (r_heap c) as"
  shows "\<exists>h'. newAtFront key value c = Some (r_fresh c, c\<lparr>r_head := Some (r_fresh c), r_heap := h', r_fresh := r_fresh c + 1\<rparr>) \<and>
    ring h' (r_fresh c # as) \<and> content h' = (content (r_heap c))(r_fresh c \<mapsto> (key, value)) \<and>
    (\<forall>x. h' x = None \<longleftrightarrow> x \<noteq> r_fresh c \<and> r_heap c x = None)"
proof -
  let ?a = "r_fresh c" and ?h = "r_heap c"
  let ?hn = "?h(?a \<mapsto> \<lparr>r_prev = ?a, r_next = ?a, r_key = key, r_value = value\<rparr>)"
  have h0: "nxt ?hn = (nxt ?h)(?a \<mapsto> ?a)" "prv ?hn = (prv ?h)(?a \<mapsto> ?a)" "content ?hn = (content ?h)(?a \<mapsto> (key, value))"
    by (auto simp: nxt_def prv_def content_def fun_eq_iff)
  show ?thesis
  proof (cases "as = []")
    case True
    have "newAtFront key value c = Some (?a, c\<lparr>r_head := Some ?a, r_heap := ?hn, r_fresh := ?a + 1\<rparr>)"
      using front True by (simp add: newAtFront_def Let_def)
    moreover have "ring ?hn [?a]" by (simp add: ring_single nxt_def prv_def)
    ultimately show ?thesis unfolding True by (intro exI [of _ ?hn] conjI h0(3)) auto
  next
    case False
    let ?hp = "hd as" and ?q = "last as"
    have hp: "r_head c = Some ?hp" and r: "ring ?h as" using front False by simp_all
    have notin: "?a \<notin> set as" using ring_None [OF r] free by blast
    have neq: "?hp \<noteq> ?a" "?q \<noteq> ?a" using notin hd_in_set [OF False] last_in_set [OF False] by metis+
    have r0: "ring ?hn as" by (rule ring_cong [OF _ r]) (use notin h0 in auto)
    have q: "prv ?hn ?hp = Some ?q" using ring_hd [OF r0] by simp
    obtain h1 where h1: "set_nxt ?a ?hp ?hn = Some h1" "nxt h1 = (nxt ?hn)(?a \<mapsto> ?hp)" "prv h1 = prv ?hn" "content h1 = content ?hn" "\<forall>x. h1 x = None \<longleftrightarrow> ?hn x = None"
      using set_nxt_ok [of ?hn ?a ?hp] by auto
    obtain h2 where h2: "set_prv ?a ?q h1 = Some h2" "prv h2 = (prv h1)(?a \<mapsto> ?q)" "nxt h2 = nxt h1" "content h2 = content h1" "\<forall>x. h2 x = None \<longleftrightarrow> h1 x = None"
      using set_prv_ok [of h1 ?a ?q] h1(5) by auto
    have "h2 ?q \<noteq> None" using ring_None [OF r0, of ?q] False h1(5) h2(5) by simp
    then obtain h3 where h3: "set_nxt ?q ?a h2 = Some h3" "nxt h3 = (nxt h2)(?q \<mapsto> ?a)" "prv h3 = prv h2" "content h3 = content h2" "\<forall>x. h3 x = None \<longleftrightarrow> h2 x = None"
      using set_nxt_ok [of h2 ?q ?a] by auto
    have "h3 ?hp \<noteq> None" using ring_None [OF r0, of ?hp] False h1(5) h2(5) h3(5) by simp
    then obtain h4 where h4: "set_prv ?hp ?a h3 = Some h4" "prv h4 = (prv h3)(?hp \<mapsto> ?a)" "nxt h4 = nxt h3" "content h4 = content h3" "\<forall>x. h4 x = None \<longleftrightarrow> h3 x = None"
      using set_prv_ok [of h3 ?hp ?a] by auto
    have "ring h4 (?a # as)"
      by (rule ring_link [OF r0 notin]) (use h1 h2 h3 h4 in simp_all)
    moreover have "newAtFront key value c = Some (?a, c\<lparr>r_head := Some ?a, r_heap := h4, r_fresh := ?a + 1\<rparr>)"
      using hp h1(1,3) h2(1,2) h3(1) h4(1) q neq by (simp add: newAtFront_def Let_def)
    ultimately show ?thesis using h0(3) h1(4,5) h2(4,5) h3(4,5) h4(4,5) by (intro exI [of _ h4]) simp
  qed
qed

lemma deleteElement_ok:
  fixes c :: "('k, 'v) Ring"
  assumes r: "ring (r_heap c) (xs @ ent # ys)" and front: "r_head c = Some (hd (xs @ ent # ys))" and k: "content (r_heap c) ent = Some (k, v)"
  shows "\<exists>h'. deleteElement ent c = Some (c\<lparr>r_heap := h', r_head := if xs @ ys = [] then None else Some (hd (xs @ ys)),
      r_lookup := map_option (AList.delete k) (r_lookup c)\<rparr>) \<and> (xs @ ys \<noteq> [] \<longrightarrow> ring h' (xs @ ys)) \<and>
    content h' = content (r_heap c) \<and> (\<forall>x. h' x = None \<longleftrightarrow> r_heap c x = None)"
proof (cases "xs @ ys = []")
  case True
  then have "nxt (r_heap c) ent = Some ent" using r by (simp add: ring_single)
  then show ?thesis using True k by (intro exI [of _ "r_heap c"]) (auto simp: deleteElement_def content_def)
next
  case False
  let ?h = "r_heap c"
  obtain p n where pn: "prv ?h ent = Some p" "nxt ?h ent = Some n" "n \<noteq> ent" "p \<noteq> ent" "xs = [] \<longrightarrow> n = hd ys" "?h p \<noteq> None" "?h n \<noteq> None"
    and un: "\<forall>h' :: ('k, 'v) rheap. nxt h' = (nxt ?h)(p \<mapsto> n) \<longrightarrow> prv h' = (prv ?h)(n \<mapsto> p) \<longrightarrow> ring h' (xs @ ys)"
    using unlink_ok [OF r False] by (elim exE conjE) (rule that)
  obtain h1 where h1: "set_prv n p ?h = Some h1" "prv h1 = (prv ?h)(n \<mapsto> p)" "nxt h1 = nxt ?h" "content h1 = content ?h" "\<forall>x. h1 x = None \<longleftrightarrow> ?h x = None"
    using set_prv_ok [of ?h n p, OF pn(7)] by (elim exE conjE) (rule that)
  obtain h2 where h2: "set_nxt p n h1 = Some h2" "nxt h2 = (nxt h1)(p \<mapsto> n)" "prv h2 = prv h1" "content h2 = content h1" "\<forall>x. h2 x = None \<longleftrightarrow> h1 x = None"
    using set_nxt_ok [of h1 p n] h1(5) pn(6) by auto
  have "content h2 ent = Some (k, v)" using h1(4) h2(4) k by simp
  then obtain e where e: "h2 ent = Some e" "r_key e = k" by (auto simp: content_def)
  have "xs \<noteq> [] \<Longrightarrow> hd xs \<noteq> ent" using r by (auto simp: ring_def)
  then have "(if r_head c = Some ent then Some n else r_head c) = Some (hd (xs @ ys))"
    using front pn(5) False by (cases "xs = []") (auto simp: hd_append)
  then have "deleteElement ent c = Some (c\<lparr>r_heap := h2, r_head := Some (hd (xs @ ys)), r_lookup := map_option (AList.delete k) (r_lookup c)\<rparr>)"
    using pn h1 h2 e by (simp add: deleteElement_def Let_def)
  moreover have "ring h2 (xs @ ys)" using un h1(2,3) h2(2,3) by simp
  ultimately show ?thesis using False h1 h2 by auto
qed

lemma foreach_loop_ok:
  assumes "ring h (xs @ cur # ys)" "hp = hd (xs @ cur # ys)"
  shows "foreach_loop h hp cur acc = Some (acc @ map (\<lambda>a. the (content h a)) (cur # ys))"
  using assms
proof (induction ys arbitrary: xs cur acc)
  case Nil
  obtain e where e: "h cur = Some e" using ring_None [OF Nil(1), of cur] by auto
  have "r_next e = hp" using ring_hd [OF Nil(1)] Nil(2) e by (simp add: nxt_def)
  then show ?case using e by (subst foreach_loop.simps) (simp add: content_def)
next
  case (Cons y ys)
  obtain e where e: "h cur = Some e" using ring_None [OF Cons.prems(1), of cur] by auto
  have "(cur, y) \<in> nb (xs @ cur # y # ys)" using seg_append [of xs cur "y # ys @ [hd (xs @ cur # y # ys)]"] by (simp add: nb_def)
  then have "nxt h cur = Some y" using Cons.prems(1) unfolding ring_def by blast
  then have n: "r_next e = y" using e by (simp add: nxt_def)
  have "hp \<noteq> y" using Cons.prems by (cases xs) (auto simp: ring_def)
  then show ?case using e n Cons.IH [of "xs @ [cur]" y "acc @ [(r_key e, r_value e)]"] Cons.prems
    by (subst foreach_loop.simps) (simp add: content_def)
qed

subsection \<open>The invariant and the abstraction\<close>

definition ckey :: "('k, 'v) rheap \<Rightarrow> nat \<Rightarrow> 'k" where
  "ckey h a = fst (the (content h a))"

text \<open>The cells of the cache, front first, and how \<open>lookup\<close> agrees with them.\<close>

definition Ring_ok :: "('k, 'v) Ring \<Rightarrow> nat list \<Rightarrow> bool" where
  "Ring_ok c as \<longleftrightarrow> (if as = [] then r_head c = None else r_head c = Some (hd as) \<and> ring (r_heap c) as) \<and>
     (\<forall>a\<ge>r_fresh c. r_heap c a = None) \<and> distinct (map (ckey (r_heap c)) as) \<and>
     (case r_lookup c of None \<Rightarrow> as = []
      | Some m \<Rightarrow> distinct (map fst m) \<and> set m = (\<lambda>a. (ckey (r_heap c) a, a)) ` set as)"

definition Ring_inv :: "('k, 'v) Ring \<Rightarrow> bool" where
  "Ring_inv c \<longleftrightarrow> (\<exists>as. Ring_ok c as)"

definition Ring_entries :: "('k, 'v) Ring \<Rightarrow> ('k \<times> 'v) list" where
  "Ring_entries c = (case Ring_ForEach c of None \<Rightarrow> [] | Some es \<Rightarrow> es)"

lemma ForEach_ok: "Ring_ok c as \<Longrightarrow> Ring_ForEach c = Some (map (\<lambda>a. the (content (r_heap c) a)) as)"
proof (cases as)
  case (Cons a bs)
  assume "Ring_ok c as"
  then show ?thesis using foreach_loop_ok [of "r_heap c" "[]" a bs a "[]"] Cons by (simp add: Ring_ok_def Ring_ForEach_def)
qed (simp add: Ring_ok_def Ring_ForEach_def)

lemma entries_ok: "Ring_ok c as \<Longrightarrow> Ring_entries c = map (\<lambda>a. the (content (r_heap c) a)) as"
  by (simp add: Ring_entries_def ForEach_ok)

lemma keys_ok: "map fst (map (\<lambda>a. the (content h a)) as) = map (ckey h) as"
  by (simp add: ckey_def)

lemma entries_distinct: "Ring_inv c \<Longrightarrow> distinct (map fst (Ring_entries c))"
  unfolding Ring_inv_def by (elim exE) (simp only: entries_ok keys_ok, simp add: Ring_ok_def)

lemma Ring_ok_content: "Ring_ok c as \<Longrightarrow> a \<in> set as \<Longrightarrow> \<exists>k v. content (r_heap c) a = Some (k, v)"
  using ring_None [of "r_heap c" as a] by (auto simp: Ring_ok_def content_def split: if_splits)

lemma lookup_ok:
  assumes "Ring_ok c as"
  shows "Ring_lookup c k = Some a \<longleftrightarrow> a \<in> set as \<and> ckey (r_heap c) a = k"
proof (cases "r_lookup c")
  case None
  then show ?thesis using assms by (simp add: Ring_ok_def Ring_lookup_def)
next
  case (Some m)
  then have "distinct (map fst m)" "set m = (\<lambda>a. (ckey (r_heap c) a, a)) ` set as" using assms by (simp_all add: Ring_ok_def)
  then show ?thesis using Some by (auto simp: Ring_lookup_def)
qed

lemma lookup_None:
  assumes "Ring_ok c as"
  shows "Ring_lookup c k = None \<longleftrightarrow> k \<notin> fst ` set (Ring_entries c)"
proof -
  have "Ring_lookup c k = None \<longleftrightarrow> (\<forall>a. Ring_lookup c k \<noteq> Some a)" by (cases "Ring_lookup c k") simp_all
  then show ?thesis using lookup_ok [OF assms, of k] by (force simp: entries_ok [OF assms] ckey_def)
qed

text \<open>A key that is found is the key of one cell; the entries around it.\<close>

lemma lookup_split:
  assumes "Ring_ok c as" "Ring_lookup c k = Some ent"
  obtains xs ys v where "as = xs @ ent # ys" "content (r_heap c) ent = Some (k, v)"
    "map_of (Ring_entries c) k = Some v" "lru_drop k (Ring_entries c) = map (\<lambda>a. the (content (r_heap c) a)) (xs @ ys)"
    "k \<in> fst ` set (Ring_entries c)"
proof -
  let ?f = "\<lambda>a. the (content (r_heap c) a)"
  have e: "ent \<in> set as" "ckey (r_heap c) ent = k" using lookup_ok [OF assms(1)] assms(2) by auto
  then obtain xs ys where as: "as = xs @ ent # ys" by (meson split_list)
  obtain v where v: "content (r_heap c) ent = Some (k, v)" using Ring_ok_content [OF assms(1) e(1)] e(2) by (auto simp: ckey_def)
  have ents: "Ring_entries c = map ?f xs @ (k, v) # map ?f ys" using entries_ok [OF assms(1)] as v by simp
  have "distinct (map (ckey (r_heap c)) as)" using assms(1) by (simp add: Ring_ok_def)
  then have "k \<notin> fst ` set (map ?f xs)" "k \<notin> fst ` set (map ?f ys)" using as e(2) by (auto simp: ckey_def)
  then show thesis using that [OF as v] lru_drop_notin [of k "map ?f xs"] lru_drop_notin [of k "map ?f ys"] ents
    by (simp add: filter_False_map_of lru_drop_def map_add_def)
qed

lemma Ring_Len_law: "Ring_inv c \<Longrightarrow> Ring_Len c = length (Ring_entries c)"
proof -
  assume "Ring_inv c"
  then obtain as where as: "Ring_ok c as" by (auto simp: Ring_inv_def)
  show ?thesis
  proof (cases "r_lookup c")
    case None
    then show ?thesis using as by (simp add: Ring_Len_def entries_ok) (simp add: Ring_ok_def)
  next
    case (Some m)
    have "distinct m" "distinct as" "set m = (\<lambda>a. (ckey (r_heap c) a, a)) ` set as"
      using as Some by (auto simp: Ring_ok_def distinct_map)
    moreover from this(3) have "card (set m) = card (set as)" by (simp add: card_image inj_on_def)
    ultimately have "length m = length as" by (metis distinct_card)
    then show ?thesis using as Some by (simp add: Ring_Len_def entries_ok)
  qed
qed

subsection \<open>Each operation against the specification\<close>

lemma ckey_cong: "content h' = content h \<Longrightarrow> ckey h' = ckey h"
  by (simp add: ckey_def fun_eq_iff)

lemma deleteElement_law:
  assumes "Ring_ok c (xs @ ent # ys)" "content (r_heap c) ent = Some (k, v)"
  shows "\<exists>c'. deleteElement ent c = Some c' \<and> Ring_ok c' (xs @ ys) \<and> rMaxEntries c' = rMaxEntries c \<and> content (r_heap c') = content (r_heap c)"
proof -
  have r: "ring (r_heap c) (xs @ ent # ys)" "r_head c = Some (hd (xs @ ent # ys))" using assms(1) by (simp_all add: Ring_ok_def)
  obtain h' where h': "deleteElement ent c = Some (c\<lparr>r_heap := h', r_head := if xs @ ys = [] then None else Some (hd (xs @ ys)),
      r_lookup := map_option (AList.delete k) (r_lookup c)\<rparr>)" "xs @ ys \<noteq> [] \<longrightarrow> ring h' (xs @ ys)"
      "content h' = content (r_heap c)" "\<forall>x. h' x = None \<longleftrightarrow> r_heap c x = None"
    using deleteElement_ok [OF r assms(2)] by (elim exE conjE) (rule that)
  obtain m where m: "r_lookup c = Some m" using assms(1) by (auto simp: Ring_ok_def split: option.splits)
  have k: "ckey (r_heap c) ent = k" using assms(2) by (simp add: ckey_def)
  have d: "distinct (map (ckey (r_heap c)) (xs @ ent # ys))" "distinct (map fst m)"
      "set m = (\<lambda>a. (ckey (r_heap c) a, a)) ` set (xs @ ent # ys)"
    using assms(1) m by (simp_all add: Ring_ok_def)
  have "set (AList.delete k m) = (\<lambda>a. (ckey (r_heap c) a, a)) ` set (xs @ ys)"
    using d(1,3) k by (auto simp: AList.delete_eq)
  then have "Ring_ok (c\<lparr>r_heap := h', r_head := if xs @ ys = [] then None else Some (hd (xs @ ys)),
      r_lookup := map_option (AList.delete k) (r_lookup c)\<rparr>) (xs @ ys)"
    using assms(1) h'(2,4) m d ckey_cong [OF h'(3)] by (simp add: Ring_ok_def distinct_delete)
  then show ?thesis using h'(1,3) by auto
qed

lemma deleteOldest_law:
  assumes "Ring_ok c as" "as \<noteq> []"
  shows "\<exists>c'. deleteOldest c = Some c' \<and> Ring_ok c' (butlast as) \<and> rMaxEntries c' = rMaxEntries c \<and> content (r_heap c') = content (r_heap c)"
proof -
  have r: "r_head c = Some (hd as)" "ring (r_heap c) as" using assms by (simp_all add: Ring_ok_def)
  then have "prv (r_heap c) (hd as) = Some (last as)" using ring_hd by blast
  moreover obtain k v where "content (r_heap c) (last as) = Some (k, v)" using Ring_ok_content [OF assms(1), of "last as"] assms(2) by auto
  ultimately show ?thesis using r(1) deleteElement_law [of c "butlast as" "last as" "[]"] assms by (simp add: deleteOldest_def)
qed

lemma moveToFront_law:
  assumes "Ring_ok c (xs @ ent # ys)"
  shows "\<exists>c'. moveToFront ent c = Some c' \<and> Ring_ok c' (ent # xs @ ys) \<and> rMaxEntries c' = rMaxEntries c \<and> content (r_heap c') = content (r_heap c)"
proof -
  have r: "ring (r_heap c) (xs @ ent # ys)" "r_head c = Some (hd (xs @ ent # ys))" using assms by (simp_all add: Ring_ok_def)
  obtain h' where h': "moveToFront ent c = Some (c\<lparr>r_heap := h', r_head := Some ent\<rparr>)" "ring h' (ent # xs @ ys)"
      "content h' = content (r_heap c)" "\<forall>x. h' x = None \<longleftrightarrow> r_heap c x = None"
    using moveToFront_ok [OF r] by (elim exE conjE) (rule that)
  then have "Ring_ok (c\<lparr>r_heap := h', r_head := Some ent\<rparr>) (ent # xs @ ys)"
    using assms ckey_cong [OF h'(3)] by (auto simp: Ring_ok_def split: option.splits)
  then show ?thesis using h' by auto
qed

lemma Ring_GetOk_law:
  assumes "Ring_inv c"
  shows "\<exists>c'. Ring_GetOk k c = Some (map_of (Ring_entries c) k, c') \<and> Ring_inv c' \<and> rMaxEntries c' = rMaxEntries c \<and>
    Ring_entries c' = lru_touch k (Ring_entries c)"
proof -
  obtain as where as: "Ring_ok c as" using assms by (auto simp: Ring_inv_def)
  show ?thesis
  proof (cases "Ring_lookup c k")
    case None
    then have "map_of (Ring_entries c) k = None" using lookup_None [OF as, of k] by (simp add: map_of_eq_None_iff)
    then show ?thesis using None assms by (simp add: Ring_GetOk_def lru_touch_def)
  next
    case (Some ent)
    obtain xs ys v where s: "as = xs @ ent # ys" "content (r_heap c) ent = Some (k, v)" "map_of (Ring_entries c) k = Some v"
        "lru_drop k (Ring_entries c) = map (\<lambda>a. the (content (r_heap c) a)) (xs @ ys)"
      using lookup_split [OF as Some] by metis
    obtain c' where c': "moveToFront ent c = Some c'" "Ring_ok c' (ent # xs @ ys)" "rMaxEntries c' = rMaxEntries c"
        "content (r_heap c') = content (r_heap c)"
      using moveToFront_law as s(1) by metis
    have "content (r_heap c') ent = Some (k, v)" using c'(4) s(2) by simp
    then obtain e where e: "r_heap c' ent = Some e" "r_value e = v" by (auto simp: content_def)
    have "Ring_entries c' = lru_touch k (Ring_entries c)" using entries_ok [OF c'(2)] c'(4) s by (simp add: lru_touch_def)
    then show ?thesis using Some c' e s(3) by (auto simp: Ring_GetOk_def Ring_inv_def)
  qed
qed

lemma Ring_Delete_law:
  assumes "Ring_inv c"
  shows "\<exists>c'. Ring_Delete k c = Some c' \<and> Ring_inv c' \<and> rMaxEntries c' = rMaxEntries c \<and> Ring_entries c' = lru_drop k (Ring_entries c)"
proof -
  obtain as where as: "Ring_ok c as" using assms by (auto simp: Ring_inv_def)
  show ?thesis
  proof (cases "Ring_lookup c k")
    case None
    then show ?thesis using lookup_None [OF as, of k] assms by (simp add: Ring_Delete_def lru_drop_notin)
  next
    case (Some ent)
    obtain xs ys v where s: "as = xs @ ent # ys" "content (r_heap c) ent = Some (k, v)"
        "lru_drop k (Ring_entries c) = map (\<lambda>a. the (content (r_heap c) a)) (xs @ ys)"
      using lookup_split [OF as Some] by metis
    obtain c' where c': "deleteElement ent c = Some c'" "Ring_ok c' (xs @ ys)" "rMaxEntries c' = rMaxEntries c"
        "content (r_heap c') = content (r_heap c)"
      using deleteElement_law s(2) as s(1) by metis
    then show ?thesis using Some entries_ok [OF c'(2)] s(3) by (auto simp: Ring_Delete_def Ring_inv_def)
  qed
qed

lemma Ring_DeleteOldest_law:
  assumes "Ring_inv c"
  shows "\<exists>c'. Ring_DeleteOldest c = Some c' \<and> Ring_inv c' \<and> rMaxEntries c' = rMaxEntries c \<and> Ring_entries c' = butlast (Ring_entries c)"
proof -
  obtain as where as: "Ring_ok c as" using assms by (auto simp: Ring_inv_def)
  show ?thesis
  proof (cases "as = []")
    case True
    then show ?thesis using as assms entries_ok [OF as] by (simp add: Ring_DeleteOldest_def) (simp add: Ring_ok_def)
  next
    case False
    then have "r_head c \<noteq> None" using as by (simp add: Ring_ok_def)
    moreover obtain c' where c': "deleteOldest c = Some c'" "Ring_ok c' (butlast as)" "rMaxEntries c' = rMaxEntries c"
        "content (r_heap c') = content (r_heap c)"
      using deleteOldest_law [OF as False] by metis
    ultimately show ?thesis using entries_ok [OF c'(2)] entries_ok [OF as] by (auto simp: Ring_DeleteOldest_def Ring_inv_def map_butlast)
  qed
qed

text \<open>\<open>Set\<close> creates the map on the first call.\<close>

definition Ring_init :: "('k, 'v) Ring \<Rightarrow> ('k, 'v) Ring" where
  "Ring_init c = (if r_lookup c = None then c\<lparr>r_lookup := Some []\<rparr> else c)"

lemma Ring_init_ok: "Ring_ok c as \<Longrightarrow> Ring_ok (Ring_init c) as \<and> rMaxEntries (Ring_init c) = rMaxEntries c \<and> r_lookup (Ring_init c) \<noteq> None"
  by (auto simp: Ring_init_def Ring_ok_def)

lemma set_value_law:
  assumes "Ring_ok c (ent # as)" "content (r_heap c) ent = Some (k, w)"
  shows "\<exists>h'. set_value ent v (r_heap c) = Some h' \<and> Ring_ok (c\<lparr>r_heap := h'\<rparr>) (ent # as) \<and>
    content h' = (content (r_heap c))(ent \<mapsto> (k, v))"
proof -
  obtain e where e: "r_heap c ent = Some e" "r_key e = k" using assms(2) by (auto simp: content_def)
  let ?h' = "(r_heap c)(ent \<mapsto> e\<lparr>r_value := v\<rparr>)"
  have l: "nxt ?h' = nxt (r_heap c)" "prv ?h' = prv (r_heap c)" "ckey ?h' = ckey (r_heap c)" "\<forall>x. ?h' x = None \<longleftrightarrow> r_heap c x = None"
    "content ?h' = (content (r_heap c))(ent \<mapsto> (k, v))"
    using e by (auto simp: nxt_def prv_def ckey_def content_def fun_eq_iff)
  have "ring ?h' (ent # as)" using assms(1) ring_cong [of "ent # as" ?h' "r_heap c"] l by (simp add: Ring_ok_def)
  then have "Ring_ok (c\<lparr>r_heap := ?h'\<rparr>) (ent # as)" using assms(1) l by (simp add: Ring_ok_def split: option.splits)
  then show ?thesis using e l by (auto simp: set_value_def)
qed

lemma newAtFront_law:
  assumes "Ring_ok c as" "r_lookup c = Some m" "Ring_lookup c k = None"
  shows "\<exists>c'. newAtFront k v c = Some (r_fresh c, c') \<and> rMaxEntries c' = rMaxEntries c \<and> r_lookup c' = Some m \<and>
    Ring_ok (c'\<lparr>r_lookup := Some (AList.update k (r_fresh c) m)\<rparr>) (r_fresh c # as) \<and>
    map (\<lambda>a. the (content (r_heap c') a)) (r_fresh c # as) = (k, v) # map (\<lambda>a. the (content (r_heap c) a)) as"
proof -
  let ?a = "r_fresh c"
  have f: "r_heap c ?a = None" "if as = [] then r_head c = None else r_head c = Some (hd as) \<and> ring (r_heap c) as"
    using assms(1) by (simp_all add: Ring_ok_def)
  obtain h' where h': "newAtFront k v c = Some (?a, c\<lparr>r_head := Some ?a, r_heap := h', r_fresh := ?a + 1\<rparr>)" "ring h' (?a # as)"
      "content h' = (content (r_heap c))(?a \<mapsto> (k, v))" "\<forall>x. h' x = None \<longleftrightarrow> x \<noteq> ?a \<and> r_heap c x = None"
    using newAtFront_ok [OF f, of k v] by (elim exE conjE) (rule that)
  have notin: "?a \<notin> set as" using h'(2) by (simp add: ring_def)
  have keys: "ckey h' ?a = k" "\<forall>a\<in>set as. ckey h' a = ckey (r_heap c) a" using h'(3) notin by (auto simp: ckey_def)
  then have mk: "map (ckey h') as = map (ckey (r_heap c)) as" by simp
  have dk: "distinct (map (ckey h') as)" unfolding mk using assms(1) by (simp add: Ring_ok_def)
  have m: "distinct (map fst m)" "set m = (\<lambda>a. (ckey (r_heap c) a, a)) ` set as" using assms(1,2) by (simp_all add: Ring_ok_def)
  have k: "k \<notin> fst ` set m" using assms(2,3) by (simp add: Ring_lookup_def map_of_eq_None_iff)
  then have "k \<notin> set (map (ckey (r_heap c)) as)" using m(2) by force
  moreover have "set (AList.update k ?a m) = (\<lambda>a. (ckey h' a, a)) ` set (?a # as)" using m(2) k keys by (auto simp: AList_update_notin)
  moreover have "distinct (map fst (AList.update k ?a m))" using m(1) by (rule distinct_update)
  ultimately have "Ring_ok (c\<lparr>r_head := Some ?a, r_heap := h', r_fresh := ?a + 1, r_lookup := Some (AList.update k ?a m)\<rparr>) (?a # as)"
    using assms(1) h'(2,4) keys dk by (auto simp: Ring_ok_def)
  then show ?thesis using h'(1,3) assms(2) notin by (auto simp: fun_upd_apply)
qed

lemma Ring_Set_law:
  assumes "Ring_inv c"
  shows "\<exists>c'. Ring_Set k v c = Some c' \<and> Ring_inv c' \<and> rMaxEntries c' = rMaxEntries c \<and>
    Ring_entries c' = lru_add (rMaxEntries c) k v (Ring_entries c)"
proof -
  obtain as where as0: "Ring_ok c as" using assms by (auto simp: Ring_inv_def)
  let ?d = "Ring_init c"
  obtain m where as: "Ring_ok ?d as" and lim: "rMaxEntries ?d = rMaxEntries c" and m: "r_lookup ?d = Some m"
    using Ring_init_ok [OF as0] by auto
  have heap: "r_heap ?d = r_heap c" by (simp add: Ring_init_def)
  have ents: "Ring_entries c = Ring_entries ?d" using entries_ok [OF as] entries_ok [OF as0] heap by simp
  show ?thesis
  proof (cases "Ring_lookup ?d k")
    case (Some ent)
    obtain xs ys w where s: "as = xs @ ent # ys" "content (r_heap ?d) ent = Some (k, w)"
        "lru_drop k (Ring_entries ?d) = map (\<lambda>a. the (content (r_heap ?d) a)) (xs @ ys)" "k \<in> fst ` set (Ring_entries ?d)"
      using lookup_split [OF as Some] by metis
    obtain c1 where c1: "moveToFront ent ?d = Some c1" "Ring_ok c1 (ent # xs @ ys)" "rMaxEntries c1 = rMaxEntries ?d"
        "content (r_heap c1) = content (r_heap ?d)"
      using moveToFront_law as s(1) by metis
    obtain h' where h': "set_value ent v (r_heap c1) = Some h'" "Ring_ok (c1\<lparr>r_heap := h'\<rparr>) (ent # xs @ ys)"
        "content h' = (content (r_heap c1))(ent \<mapsto> (k, v))"
      using set_value_law [OF c1(2)] c1(4) s(2) by metis
    have "ent \<notin> set (xs @ ys)" using c1(2) by (simp add: Ring_ok_def ring_def)
    then have "Ring_entries (c1\<lparr>r_heap := h'\<rparr>) = lru_add (rMaxEntries c) k v (Ring_entries c)"
      using entries_ok [OF h'(2)] h'(3) c1(4) s ents by (auto simp: lru_add_def)
    then show ?thesis using Some c1 h' lim by (auto simp: Ring_Set_def Ring_init_def [symmetric] Let_def Ring_inv_def)
  next
    case None
    obtain c1 where c1: "newAtFront k v ?d = Some (r_fresh ?d, c1)" "rMaxEntries c1 = rMaxEntries ?d" "r_lookup c1 = Some m"
        "Ring_ok (c1\<lparr>r_lookup := Some (AList.update k (r_fresh ?d) m)\<rparr>) (r_fresh ?d # as)"
        "map (\<lambda>a. the (content (r_heap c1) a)) (r_fresh ?d # as) = (k, v) # map (\<lambda>a. the (content (r_heap ?d) a)) as"
      using newAtFront_law [OF as m None, of v] by (elim exE conjE) (rule that)
    let ?c2 = "c1\<lparr>r_lookup := Some (AList.update k (r_fresh ?d) m)\<rparr>"
    have e2: "Ring_entries ?c2 = (k, v) # Ring_entries c" using entries_ok [OF c1(4)] entries_ok [OF as] c1(5) ents by simp
    have inv: "Ring_inv ?c2" using c1(4) by (auto simp: Ring_inv_def)
    have len: "Ring_Len ?c2 = Suc (length (Ring_entries c))" using Ring_Len_law [OF inv] e2 by simp
    have kc: "k \<notin> fst ` set (Ring_entries c)" using lookup_None [OF as] None ents by simp
    have set: "Ring_Set k v c = (if rMaxEntries ?c2 \<noteq> 0 \<and> rMaxEntries ?c2 < int (Ring_Len ?c2) then deleteOldest ?c2 else Some ?c2)"
      using None c1(1,3) by (simp add: Ring_Set_def Ring_init_def [symmetric] Let_def)
    obtain c3 where c3: "deleteOldest ?c2 = Some c3" "Ring_ok c3 (butlast (r_fresh ?d # as))" "rMaxEntries c3 = rMaxEntries ?c2"
        "content (r_heap c3) = content (r_heap ?c2)"
      using deleteOldest_law [OF c1(4)] by auto
    have e3: "Ring_entries c3 = butlast (Ring_entries ?c2)"
      unfolding entries_ok [OF c3(2)] entries_ok [OF c1(4)] c3(4) by (rule map_butlast)
    have inv3: "Ring_inv c3" using c3(2) by (auto simp: Ring_inv_def)
    show ?thesis
    proof (cases "rMaxEntries c \<noteq> 0 \<and> rMaxEntries c < int (Suc (length (Ring_entries c)))")
      case True
      then show ?thesis using set c3(1,3) e2 e3 inv3 kc c1(2) lim len by (simp add: lru_add_def lru_evict_def)
    next
      case False
      then show ?thesis using set e2 inv kc c1(2) lim len by (auto simp: lru_add_def lru_evict_def)
    qed
  qed
qed

lemma newRing_ok: "Ring_ok (newRing n) []"
  by (simp add: newRing_def Ring_ok_def)

interpretation ring: lru_cache newRing Ring_Set Ring_GetOk Ring_Delete Ring_DeleteOldest
  Ring_Len rMaxEntries Ring_entries Ring_inv
proof
  show "Ring_inv (newRing n)" "rMaxEntries (newRing n) = n" "Ring_entries (newRing n) = []" for n
    using newRing_ok [of n] entries_ok [OF newRing_ok, of n] by (auto simp: Ring_inv_def) (simp add: newRing_def)
qed (simp_all add: entries_distinct Ring_Len_law Ring_Set_law Ring_GetOk_law Ring_Delete_law Ring_DeleteOldest_law)

subsection \<open>Histories\<close>

text \<open>A history of operations on the ring and on the abstract cache; the answers are those of \<open>GetOk\<close>.\<close>

datatype ('k, 'v) lruop = OSet 'k 'v | OGet 'k | ODelete 'k | ODeleteOldest

fun ring_run :: "('k, 'v) lruop list \<Rightarrow> ('k, 'v) Ring \<Rightarrow> ('v option list \<times> ('k, 'v) Ring) option" where
  "ring_run [] c = Some ([], c)"
| "ring_run (OSet k v # ops) c = do { c \<leftarrow> Ring_Set k v c; ring_run ops c }"
| "ring_run (OGet k # ops) c = do { (r, c) \<leftarrow> Ring_GetOk k c; (rs, c) \<leftarrow> ring_run ops c; Some (r # rs, c) }"
| "ring_run (ODelete k # ops) c = do { c \<leftarrow> Ring_Delete k c; ring_run ops c }"
| "ring_run (ODeleteOldest # ops) c = do { c \<leftarrow> Ring_DeleteOldest c; ring_run ops c }"

fun lru_run :: "int \<Rightarrow> ('k, 'v) lruop list \<Rightarrow> ('k \<times> 'v) list \<Rightarrow> 'v option list \<times> ('k \<times> 'v) list" where
  "lru_run lim [] es = ([], es)"
| "lru_run lim (OSet k v # ops) es = lru_run lim ops (lru_add lim k v es)"
| "lru_run lim (OGet k # ops) es = (case lru_run lim ops (lru_touch k es) of (rs, es') \<Rightarrow> (map_of es k # rs, es'))"
| "lru_run lim (ODelete k # ops) es = lru_run lim ops (lru_drop k es)"
| "lru_run lim (ODeleteOldest # ops) es = lru_run lim ops (butlast es)"

lemma ring_run_refines:
  "Ring_inv c \<Longrightarrow> \<exists>c'. ring_run ops c = Some (fst (lru_run (rMaxEntries c) ops (Ring_entries c)), c') \<and> Ring_inv c' \<and>
     Ring_entries c' = snd (lru_run (rMaxEntries c) ops (Ring_entries c))"
proof (induction ops arbitrary: c)
  case (Cons op ops)
  show ?case
  proof (cases op)
    case (OSet k v)
    obtain c1 where "Ring_Set k v c = Some c1" "Ring_inv c1" "rMaxEntries c1 = rMaxEntries c"
        "Ring_entries c1 = lru_add (rMaxEntries c) k v (Ring_entries c)"
      using ring.add_law [OF Cons.prems] by metis
    then show ?thesis using Cons.IH [of c1] OSet by simp
  next
    case (OGet k)
    obtain c1 where "Ring_GetOk k c = Some (map_of (Ring_entries c) k, c1)" "Ring_inv c1" "rMaxEntries c1 = rMaxEntries c"
        "Ring_entries c1 = lru_touch k (Ring_entries c)"
      using ring.get_law [OF Cons.prems] by metis
    then show ?thesis using Cons.IH [of c1] OGet by (auto split: prod.split)
  next
    case (ODelete k)
    obtain c1 where "Ring_Delete k c = Some c1" "Ring_inv c1" "rMaxEntries c1 = rMaxEntries c" "Ring_entries c1 = lru_drop k (Ring_entries c)"
      using ring.remove_law [OF Cons.prems] by metis
    then show ?thesis using Cons.IH [of c1] ODelete by simp
  next
    case ODeleteOldest
    obtain c1 where "Ring_DeleteOldest c = Some c1" "Ring_inv c1" "rMaxEntries c1 = rMaxEntries c" "Ring_entries c1 = butlast (Ring_entries c)"
      using ring.remove_oldest_law [OF Cons.prems] by metis
    then show ?thesis using Cons.IH [of c1] ODeleteOldest by simp
  qed
qed simp

text \<open>
  C37. The ring of pointers is an LRU cache. After any history of calls no link is broken: no operation
  panics, every \<open>GetOk\<close> answers as the abstract cache does, \<open>ForEach\<close> ends and visits the entries of the
  abstract cache, most recently used first, and \<open>Len\<close> is their number.
\<close>

theorem Ring_refines_lru:
  "\<exists>c. ring_run ops (newRing n) = Some (fst (lru_run n ops []), c) \<and> Ring_ForEach c = Some (snd (lru_run n ops [])) \<and>
     Ring_Len c = length (snd (lru_run n ops []))"
proof -
  obtain c where c: "ring_run ops (newRing n) = Some (fst (lru_run n ops []), c)" "Ring_inv c" "Ring_entries c = snd (lru_run n ops [])"
    using ring_run_refines [OF ring.new_law(1)] ring.new_law(2,3) by metis
  then obtain as where "Ring_ok c as" by (auto simp: Ring_inv_def)
  then have "Ring_ForEach c = Some (Ring_entries c)" by (simp add: ForEach_ok entries_ok)
  then show ?thesis using c ring.len_law [OF c(2)] by simp
qed

lemma Ring_PeekOk_law: "Ring_inv c \<Longrightarrow> Ring_PeekOk k c = Some (map_of (Ring_entries c) k)"
proof -
  assume "Ring_inv c"
  then obtain as where as: "Ring_ok c as" by (auto simp: Ring_inv_def)
  show ?thesis
  proof (cases "Ring_lookup c k")
    case None
    then have "map_of (Ring_entries c) k = None" using lookup_None [OF as, of k] by (simp add: map_of_eq_None_iff)
    then show ?thesis using None by (simp add: Ring_PeekOk_def)
  next
    case (Some ent)
    then show ?thesis by (rule lookup_split [OF as]) (use Some in \<open>auto simp: Ring_PeekOk_def content_def\<close>)
  qed
qed

end
