(* ===== verification/Key_Limiter.thy ===== *)
theory Key_Limiter
  imports Lru_Ring "HOL-Library.Signed_Division"
begin

section \<open>Package \<open>util/limiter\<close>: the keyed token bucket\<close>

text \<open>
  The limiter of \<open>src/util/limiter/limiter.go\<close>, on top of the cache of \<open>Lru_Ring\<close>, whose values are pointers
  to buckets: a bucket that is found in the cache, or is new, is changed in place. Times are integers
  (nanoseconds since the zero time), the counters are 64-bit integers with their wrap-around written
  out, and a difference of times saturates as \<open>Sub\<close> does. The clock is an argument. \<open>None\<close> is a panic.
\<close>

subsection \<open>Machine integers and times\<close>

definition wrap64 :: "int \<Rightarrow> int" where
  "wrap64 x = (x + 2 ^ 63) mod 2 ^ 64 - 2 ^ 63"

definition fits64 :: "int \<Rightarrow> bool" where
  "fits64 x \<longleftrightarrow> - (2 ^ 63) \<le> x \<and> x < 2 ^ 63"

definition Time_Sub :: "int \<Rightarrow> int \<Rightarrow> int" where
  "Time_Sub t u = max (- (2 ^ 63)) (min (2 ^ 63 - 1) (t - u))"

definition Time_Truncate :: "int \<Rightarrow> int \<Rightarrow> int" where
  "Time_Truncate t d = (if d \<le> 0 then t else t - t mod d)"

definition div64 :: "int \<Rightarrow> int \<Rightarrow> int option" where
  "div64 a b = (if b = 0 then None else Some (wrap64 (a sdiv b)))"

lemma wrap64_id: "fits64 x \<Longrightarrow> wrap64 x = x"
  by (simp add: wrap64_def fits64_def)

lemma Time_Sub_clamp: "u \<le> t \<Longrightarrow> 0 \<le> max (Time_Sub t u) 0 \<and> max (Time_Sub t u) 0 \<le> t - u \<and> max (Time_Sub t u) 0 < 2 ^ 63"
  by (auto simp: Time_Sub_def max_def min_def)

subsection \<open>State and operations\<close>

record bucket =
  b_cur :: int
  b_lastUpdate :: int

record 'k KLimiter =
  kl_Size :: int
  kl_Max :: int
  kl_RefillInterval :: int
  kl_Overdraft :: int
  kl_cache :: "('k, nat) Ring option"
  kl_buckets :: "nat \<Rightarrow> bucket option"
  kl_fresh :: nat

definition zeroKLimiter :: "int \<Rightarrow> int \<Rightarrow> int \<Rightarrow> int \<Rightarrow> 'k KLimiter" where
  "zeroKLimiter sz mx refill over = \<lparr>kl_Size = sz, kl_Max = mx, kl_RefillInterval = refill, kl_Overdraft = over,
     kl_cache = None, kl_buckets = (\<lambda>_. None), kl_fresh = 0\<rparr>"

definition newBucket :: "'k KLimiter \<Rightarrow> int \<Rightarrow> bucket" where
  "newBucket l now = \<lparr>b_cur = kl_Max l, b_lastUpdate = Time_Truncate now (kl_RefillInterval l)\<rparr>"

definition addBucket :: "'k \<Rightarrow> int \<Rightarrow> ('k, nat) Ring \<Rightarrow> 'k KLimiter \<Rightarrow> (nat \<times> 'k KLimiter) option" where
  "addBucket key now c l = do {
     let a = kl_fresh l;
     c \<leftarrow> Ring_Set key a c;
     Some (a, l\<lparr>kl_cache := Some c, kl_buckets := (kl_buckets l)(a \<mapsto> newBucket l now), kl_fresh := a + 1\<rparr>) }"

definition getBucketLocked :: "'k \<Rightarrow> int \<Rightarrow> 'k KLimiter \<Rightarrow> (nat \<times> 'k KLimiter) option" where
  "getBucketLocked key now l = (case kl_cache l of
     None \<Rightarrow> addBucket key now (newRing (kl_Size l)) l
   | Some c \<Rightarrow> do {
       (b, c) \<leftarrow> Ring_GetOk key c;
       (case b of Some a \<Rightarrow> Some (a, l\<lparr>kl_cache := Some c\<rparr>) | None \<Rightarrow> addBucket key now c l) })"

definition updateBucketLocked :: "'k KLimiter \<Rightarrow> bucket \<Rightarrow> int \<Rightarrow> bucket option" where
  "updateBucketLocked l b now0 = do {
     let now = Time_Truncate now0 (kl_RefillInterval l);
     if now < b_lastUpdate b then Some b
     else do {
       let timeDelta = max (Time_Sub now (b_lastUpdate b)) 0;
       tokenDelta \<leftarrow> div64 timeDelta (kl_RefillInterval l);
       Some \<lparr>b_cur = min (wrap64 (b_cur b + tokenDelta)) (kl_Max l), b_lastUpdate = now\<rparr> } }"

definition allowBucketLocked :: "'k KLimiter \<Rightarrow> bucket \<Rightarrow> int \<Rightarrow> (bool \<times> bucket) option" where
  "allowBucketLocked l b now = do {
     b \<leftarrow> (if b_cur b \<le> 0 then updateBucketLocked l b now else Some b);
     let ret = (b_cur b > 0);
     Some (ret, if b_cur b > wrap64 (- kl_Overdraft l) then b\<lparr>b_cur := wrap64 (b_cur b - 1)\<rparr> else b) }"

definition kl_allow :: "'k \<Rightarrow> int \<Rightarrow> 'k KLimiter \<Rightarrow> (bool \<times> 'k KLimiter) option" where
  "kl_allow key now l = do {
     (a, l) \<leftarrow> getBucketLocked key now l;
     b \<leftarrow> kl_buckets l a;
     (ret, b) \<leftarrow> allowBucketLocked l b now;
     Some (ret, l\<lparr>kl_buckets := (kl_buckets l)(a \<mapsto> b)\<rparr>) }"

text \<open>\<open>tokensForTest\<close> and \<open>collectDump\<close> dereference the cache, which is nil before the first request.\<close>

definition tokensForTest :: "'k \<Rightarrow> 'k KLimiter \<Rightarrow> (int \<times> bool) option" where
  "tokensForTest key l = do {
     c \<leftarrow> kl_cache l;
     v \<leftarrow> Ring_PeekOk key c;
     (case v of None \<Rightarrow> Some (0, False) | Some a \<Rightarrow> do { b \<leftarrow> kl_buckets l a; Some (b_cur b, True) }) }"

fun dump_loop :: "('k \<times> nat) list \<Rightarrow> int \<Rightarrow> 'k KLimiter \<Rightarrow> (('k \<times> int) list \<times> 'k KLimiter) option" where
  "dump_loop [] now l = Some ([], l)"
| "dump_loop ((k, a) # es) now l = do {
     b \<leftarrow> kl_buckets l a;
     b \<leftarrow> updateBucketLocked l b now;
     (ret, l) \<leftarrow> dump_loop es now (l\<lparr>kl_buckets := (kl_buckets l)(a \<mapsto> b)\<rparr>);
     Some ((k, b_cur b) # ret, l) }"

definition collectDump :: "int \<Rightarrow> 'k KLimiter \<Rightarrow> (('k \<times> int) list \<times> 'k KLimiter) option" where
  "collectDump now l = do {
     c \<leftarrow> kl_cache l;
     es \<leftarrow> Ring_ForEach c;
     dump_loop es now l }"

subsection \<open>One bucket\<close>

fun bucket_run :: "'k KLimiter \<Rightarrow> bucket \<Rightarrow> int list \<Rightarrow> (bool list \<times> bucket) option" where
  "bucket_run l b [] = Some ([], b)"
| "bucket_run l b (t # ts) = do {
     (r, b) \<leftarrow> allowBucketLocked l b t;
     (rs, b) \<leftarrow> bucket_run l b ts;
     Some (r # rs, b) }"

text \<open>A configuration without overflow: a positive interval, and \<open>Max\<close> and \<open>Overdraft\<close> in range.\<close>

definition KL_cfg :: "'k KLimiter \<Rightarrow> bool" where
  "KL_cfg l \<longleftrightarrow> 0 < kl_RefillInterval l \<and> 0 \<le> kl_Max l \<and> kl_Max l < 2 ^ 63 \<and> 0 \<le> kl_Overdraft l \<and> kl_Overdraft l < 2 ^ 63"

definition bucket_ok :: "'k KLimiter \<Rightarrow> bucket \<Rightarrow> bool" where
  "bucket_ok l b \<longleftrightarrow> - kl_Overdraft l \<le> b_cur b \<and> b_cur b \<le> kl_Max l \<and> kl_RefillInterval l dvd b_lastUpdate b"

text \<open>The number of the interval a time falls into.\<close>

definition slot :: "'k KLimiter \<Rightarrow> int \<Rightarrow> int" where
  "slot l t = t div kl_RefillInterval l"

lemma Truncate_slot: "KL_cfg l \<Longrightarrow> Time_Truncate t (kl_RefillInterval l) = kl_RefillInterval l * slot l t"
  by (simp add: Time_Truncate_def KL_cfg_def slot_def minus_mod_eq_mult_div)

lemma update_ok:
  assumes "KL_cfg l" "bucket_ok l b" "b_cur b \<le> 0"
  obtains b' where "updateBucketLocked l b now = Some b'" "bucket_ok l b'" "b_cur b \<le> b_cur b'"
    "b_cur b' \<le> b_cur b + max 0 (slot l now - slot l (b_lastUpdate b))"
    "slot l (b_lastUpdate b') = max (slot l now) (slot l (b_lastUpdate b))"
proof -
  let ?R = "kl_RefillInterval l"
  have R: "0 < ?R" using assms(1) by (simp add: KL_cfg_def)
  obtain q where q: "b_lastUpdate b = ?R * q" using assms(2) by (auto simp: bucket_ok_def)
  then have sq: "slot l (b_lastUpdate b) = q" using R by (simp add: slot_def)
  let ?s = "slot l now"
  have lt: "Time_Truncate now ?R < b_lastUpdate b \<longleftrightarrow> ?s < q" using Truncate_slot [OF assms(1)] q R by simp
  show thesis
  proof (cases "?s < q")
    case True
    then show thesis using lt sq assms(2) by (intro that [of b]) (simp_all add: updateBucketLocked_def Let_def)
  next
    case False
    define d where "d = max (Time_Sub (Time_Truncate now ?R) (b_lastUpdate b)) 0"
    have rq: "?R * q \<le> ?R * ?s" using False R by simp
    have d: "0 \<le> d" "d \<le> ?R * (?s - q)" "d < 2 ^ 63"
      using Time_Sub_clamp [OF rq] unfolding d_def Truncate_slot [OF assms(1)] q right_diff_distrib by blast+
    have t: "0 \<le> d div ?R" "d div ?R \<le> ?s - q" "d div ?R < 2 ^ 63"
      using zdiv_mono1 [OF d(2) R] zdiv_mono2 [of d 1 ?R] d R by (simp_all add: pos_imp_zdiv_nonneg_iff)
    have "div64 d ?R = Some (d div ?R)"
      using R d(1) t by (simp add: div64_def signed_divide_int_def wrap64_id fits64_def sgn_if)
    moreover have "fits64 (b_cur b + d div ?R)"
      using assms t by (auto simp: fits64_def bucket_ok_def KL_cfg_def)
    ultimately have u: "updateBucketLocked l b now = Some \<lparr>b_cur = min (b_cur b + d div ?R) (kl_Max l), b_lastUpdate = ?R * ?s\<rparr>"
      using False lt by (simp add: updateBucketLocked_def Let_def d_def wrap64_id Truncate_slot [OF assms(1)])
    have "slot l (?R * ?s) = ?s" using R by (simp add: slot_def)
    then show thesis using t False sq assms by (intro that [OF u]) (auto simp: bucket_ok_def KL_cfg_def)
  qed
qed

text \<open>One request, in terms of slots: the tokens after the refill, the answer, and the charge.\<close>

lemma allow_ok:
  assumes "KL_cfg l" "bucket_ok l b"
  shows "\<exists>c r b'. allowBucketLocked l b t = Some (r, b') \<and> bucket_ok l b' \<and> (r \<longleftrightarrow> 0 < c) \<and>
    b_cur b' = (if - kl_Overdraft l < c then c - 1 else c) \<and>
    (0 < b_cur b \<longrightarrow> c = b_cur b \<and> b_lastUpdate b' = b_lastUpdate b) \<and>
    (b_cur b \<le> 0 \<longrightarrow> c \<le> b_cur b + max 0 (slot l t - slot l (b_lastUpdate b)) \<and>
       slot l (b_lastUpdate b') = max (slot l t) (slot l (b_lastUpdate b)))"
proof -
  have charge: "wrap64 (- kl_Overdraft l) = - kl_Overdraft l" "bucket_ok l x \<Longrightarrow> wrap64 (b_cur x - 1) = b_cur x - 1 \<or> b_cur x \<le> - kl_Overdraft l" for x
    using assms(1) by (auto simp: KL_cfg_def bucket_ok_def wrap64_id fits64_def)
  obtain x where u: "(if b_cur b \<le> 0 then updateBucketLocked l b t else Some b) = Some x" "bucket_ok l x"
    and x: "0 < b_cur b \<longrightarrow> x = b" "b_cur b \<le> 0 \<longrightarrow> b_cur x \<le> b_cur b + max 0 (slot l t - slot l (b_lastUpdate b)) \<and>
       slot l (b_lastUpdate x) = max (slot l t) (slot l (b_lastUpdate b))"
  proof (cases "b_cur b \<le> 0")
    case True
    show thesis
      by (rule update_ok [OF assms True, of t]) (use True in \<open>simp add: that\<close>)
  next
    case False
    then show thesis by (intro that [of b]) (simp_all add: assms(2))
  qed
  let ?b' = "if b_cur x > - kl_Overdraft l then x\<lparr>b_cur := b_cur x - 1\<rparr> else x"
  have "allowBucketLocked l b t = Some (0 < b_cur x, ?b')" using u charge(1) charge(2) [OF u(2)] by (auto simp: allowBucketLocked_def)
  moreover have "bucket_ok l ?b'" using u(2) by (auto simp: bucket_ok_def)
  ultimately show ?thesis using x by (intro exI [of _ "b_cur x"]) auto
qed

lemma bucket_run_ok: "KL_cfg l \<Longrightarrow> bucket_ok l b \<Longrightarrow> \<exists>rs b'. bucket_run l b ts = Some (rs, b') \<and> bucket_ok l b' \<and> length rs = length ts"
proof (induction ts arbitrary: b)
  case (Cons t ts)
  then obtain r b1 where "allowBucketLocked l b t = Some (r, b1)" "bucket_ok l b1" by (metis allow_ok)
  with Cons show ?case by fastforce
qed simp

text \<open>What is allowed is paid for by the tokens at hand and the intervals that begin.\<close>

lemma bucket_run_count:
  assumes "KL_cfg l" "bucket_ok l b" "bucket_run l b ts = Some (rs, b')" "\<forall>t\<in>set ts. slot l t \<le> s" "slot l (b_lastUpdate b) \<le> s"
  shows "int (count_list rs True) \<le> max 0 (b_cur b) + (s - slot l (b_lastUpdate b))"
  using assms(2-)
proof (induction ts arbitrary: b rs)
  case Nil
  then show ?case by auto
next
  case (Cons t ts)
  obtain c r b1 where a: "allowBucketLocked l b t = Some (r, b1)" "bucket_ok l b1" "r \<longleftrightarrow> 0 < c"
      "b_cur b1 = (if - kl_Overdraft l < c then c - 1 else c)"
      "0 < b_cur b \<longrightarrow> c = b_cur b \<and> b_lastUpdate b1 = b_lastUpdate b"
      "b_cur b \<le> 0 \<longrightarrow> c \<le> b_cur b + max 0 (slot l t - slot l (b_lastUpdate b)) \<and>
         slot l (b_lastUpdate b1) = max (slot l t) (slot l (b_lastUpdate b))"
    using allow_ok [OF assms(1) Cons.prems(1), of t] by (elim exE conjE) (rule that)
  obtain rs1 where rs: "bucket_run l b1 ts = Some (rs1, b')" "rs = r # rs1" using Cons.prems(2) a(1) by (auto split: bind_splits)
  have s1: "slot l (b_lastUpdate b1) \<le> s" using a(5,6) Cons.prems(3,4) by (cases "0 < b_cur b") auto
  have ih: "int (count_list rs1 True) \<le> max 0 (b_cur b1) + (s - slot l (b_lastUpdate b1))"
    using Cons.IH [OF a(2) rs(1)] Cons.prems(3) s1 by simp
  have "0 \<le> kl_Overdraft l" using assms(1) by (simp add: KL_cfg_def)
  then have "of_bool r + max 0 (b_cur b1) \<le> max 0 c" using a(3,4) by (auto split: if_splits)
  moreover have "max 0 c + (s - slot l (b_lastUpdate b1)) \<le> max 0 (b_cur b) + (s - slot l (b_lastUpdate b))"
    using a(5,6) by (cases "0 < b_cur b") auto
  moreover have "int (count_list rs True) = of_bool r + int (count_list rs1 True)" using rs(2) by simp
  ultimately show ?case using ih by linarith
qed

text \<open>
  The rate of a key: a bucket that starts full answers every request, keeps its tokens between minus
  \<open>Overdraft\<close> and \<open>Max\<close>, and over any requests up to a time allows at most \<open>Max\<close> of them plus one for each
  interval that begins after the one the bucket was created in.
\<close>

theorem KLimiter_bound:
  assumes "KL_cfg l" "\<forall>t\<in>set ts. t0 \<le> t \<and> t \<le> tn" "t0 \<le> tn"
  shows "\<exists>rs b. bucket_run l (newBucket l t0) ts = Some (rs, b) \<and> length rs = length ts \<and>
    - kl_Overdraft l \<le> b_cur b \<and> b_cur b \<le> kl_Max l \<and>
    int (count_list rs True) \<le> kl_Max l + (slot l tn - slot l t0)"
proof -
  have n: "bucket_ok l (newBucket l t0)" "b_cur (newBucket l t0) = kl_Max l" "slot l (b_lastUpdate (newBucket l t0)) = slot l t0"
    using assms(1) Truncate_slot [OF assms(1), of t0] by (auto simp: newBucket_def bucket_ok_def KL_cfg_def slot_def)
  obtain rs b where r: "bucket_run l (newBucket l t0) ts = Some (rs, b)" "bucket_ok l b" "length rs = length ts"
    using bucket_run_ok [OF assms(1) n(1)] by metis
  have "\<forall>t\<in>set ts. slot l t \<le> slot l tn" "slot l t0 \<le> slot l tn"
    using assms by (auto simp: slot_def KL_cfg_def intro: zdiv_mono1)
  then have "int (count_list rs True) \<le> max 0 (kl_Max l) + (slot l tn - slot l t0)"
    using bucket_run_count [OF assms(1) n(1) r(1), of "slot l tn"] n(2,3) by simp
  then show ?thesis using r assms(1) by (auto simp: bucket_ok_def KL_cfg_def)
qed

definition sample_limiter :: "nat KLimiter" where
  "sample_limiter = zeroKLimiter 2 3 10 2"

theorem KLimiter_bound_witness:
  "\<exists>rs b. bucket_run sample_limiter (newBucket sample_limiter 0) [0, 1, 2, 3, 25] = Some (rs, b) \<and> length rs = 5 \<and>
     int (count_list rs True) \<le> 3 + 2"
  using KLimiter_bound [of sample_limiter "[0, 1, 2, 3, 25]" 0 25]
  by (auto simp: sample_limiter_def zeroKLimiter_def KL_cfg_def slot_def)



subsection \<open>The buckets of all keys\<close>

text \<open>The tracked keys with their buckets, most recently seen first.\<close>

definition deref :: "(nat \<Rightarrow> bucket option) \<Rightarrow> 'k \<times> nat \<Rightarrow> 'k \<times> bucket" where
  "deref h e = (fst e, the (h (snd e)))"

definition kl_abs :: "'k KLimiter \<Rightarrow> ('k \<times> bucket) list" where
  "kl_abs l = (case kl_cache l of None \<Rightarrow> [] | Some c \<Rightarrow> map (deref (kl_buckets l)) (Ring_entries c))"

definition tracks :: "'k KLimiter \<Rightarrow> ('k, nat) Ring \<Rightarrow> bool" where
  "tracks l c \<longleftrightarrow> Ring_inv c \<and> rMaxEntries c = kl_Size l \<and> distinct (map snd (Ring_entries c)) \<and>
     (\<forall>e\<in>set (Ring_entries c). \<exists>b. kl_buckets l (snd e) = Some b \<and> bucket_ok l b)"

definition KL_inv :: "'k KLimiter \<Rightarrow> bool" where
  "KL_inv l \<longleftrightarrow> (\<forall>a\<ge>kl_fresh l. kl_buckets l a = None) \<and> (\<forall>c. kl_cache l = Some c \<longrightarrow> tracks l c)"

definition same_KL :: "'k KLimiter \<Rightarrow> 'k KLimiter \<Rightarrow> bool" where
  "same_KL l l' \<longleftrightarrow> kl_Size l' = kl_Size l \<and> kl_Max l' = kl_Max l \<and> kl_RefillInterval l' = kl_RefillInterval l \<and> kl_Overdraft l' = kl_Overdraft l"

lemma same_KL_ops:
  assumes "same_KL l l'"
  shows "allowBucketLocked l' = allowBucketLocked l" "bucket_ok l' = bucket_ok l" "newBucket l' = newBucket l" "KL_cfg l' = KL_cfg l"
  using assms by (auto simp: same_KL_def allowBucketLocked_def updateBucketLocked_def bucket_ok_def newBucket_def KL_cfg_def fun_eq_iff Let_def)

lemma deref_drop: "map (deref h) (lru_drop k es) = lru_drop k (map (deref h) es)"
  by (induction es) (auto simp: lru_drop_def deref_def)

lemma deref_evict: "map (deref h) (lru_evict lim es) = lru_evict lim (map (deref h) es)"
  by (simp add: lru_evict_def map_butlast)

lemma deref_map_of: "map_of (map (deref h) es) k = map_option (\<lambda>a. the (h a)) (map_of es k)"
  by (induction es) (auto simp: deref_def)

lemma deref_upd: "a \<notin> snd ` set es \<Longrightarrow> map (deref (h(a \<mapsto> b))) es = map (deref h) es"
  by (auto simp: deref_def)

lemma set_evict: "set (lru_evict lim es) \<subseteq> set es" and distinct_evict: "distinct (map g es) \<Longrightarrow> distinct (map g (lru_evict lim es))"
  by (auto simp: lru_evict_def map_butlast distinct_butlast dest: in_set_butlastD)

text \<open>What is left to do once the bucket is found: the request changes it in place.\<close>

lemma request_ok:
  assumes "KL_cfg l" "same_KL l l1" "\<forall>a\<ge>kl_fresh l1. kl_buckets l1 a = None" "kl_cache l1 = Some c" "Ring_inv c" "rMaxEntries c = kl_Size l"
    and "kl_buckets l1 a = Some b" "bucket_ok l b" "getBucketLocked key now l = Some (a, l1)"
    and "Ring_entries c = lru_evict lim ((key, a) # es)" "distinct (map snd ((key, a) # es))"
    and "\<forall>e\<in>set es. \<exists>b. kl_buckets l1 (snd e) = Some b \<and> bucket_ok l b"
  shows "\<exists>r b' l'. kl_allow key now l = Some (r, l') \<and> allowBucketLocked l b now = Some (r, b') \<and>
    kl_abs l' = lru_evict lim ((key, b') # map (deref (kl_buckets l1)) es) \<and> KL_inv l' \<and> same_KL l l'"
proof -
  obtain r b' where r: "allowBucketLocked l b now = Some (r, b')" "bucket_ok l b'" using allow_ok [OF assms(1,8)] by blast
  let ?l = "l1\<lparr>kl_buckets := (kl_buckets l1)(a \<mapsto> b')\<rparr>"
  have same: "same_KL l ?l" using assms(2) by (simp add: same_KL_def)
  note s = same same_KL_ops(1) [OF assms(2)] same_KL_ops(2) [OF same]
  have n: "a \<notin> snd ` set es" using assms(11) by simp
  have "kl_allow key now l = Some (r, ?l)" using assms(7,9) r(1) s(2) by (simp add: kl_allow_def)
  moreover have "kl_abs ?l = lru_evict lim ((key, b') # map (deref (kl_buckets l1)) es)"
    unfolding deref_upd [OF n, of "kl_buckets l1" b', symmetric] using assms(4,10) by (simp add: kl_abs_def deref_evict deref_def [of _ "(_, _)"])
  moreover have "tracks ?l c"
  proof -
    have "\<exists>b. kl_buckets ?l (snd e) = Some b \<and> bucket_ok ?l b" if "e \<in> set (Ring_entries c)" for e
      using that set_evict [of lim "(key, a) # es"] assms(10,12) r(2) s(3) n by (cases "snd e = a") auto
    then show ?thesis using assms(2,5,6,10) distinct_evict [OF assms(11), of lim] by (simp add: tracks_def same_KL_def)
  qed
  then have "KL_inv ?l" using assms(3,4,7) by (auto simp: KL_inv_def)
  ultimately show ?thesis using r(1) s(1) by blast
qed

lemma addBucket_ok:
  assumes "\<forall>a\<ge>kl_fresh l. kl_buckets l a = None" "tracks l c" "key \<notin> fst ` set (Ring_entries c)" "KL_cfg l"
    and "getBucketLocked key now l = addBucket key now c l"
  shows "\<exists>r b' l'. kl_allow key now l = Some (r, l') \<and> allowBucketLocked l (newBucket l now) now = Some (r, b') \<and>
    kl_abs l' = lru_add (kl_Size l) key b' (map (deref (kl_buckets l)) (Ring_entries c)) \<and> KL_inv l' \<and> same_KL l l'"
proof -
  let ?a = "kl_fresh l" and ?es = "Ring_entries c"
  have c: "Ring_inv c" "rMaxEntries c = kl_Size l" "distinct (map snd ?es)" using assms(2) by (simp_all add: tracks_def)
  obtain c1 where c1: "Ring_Set key ?a c = Some c1" "Ring_inv c1" "rMaxEntries c1 = rMaxEntries c" "Ring_entries c1 = lru_add (rMaxEntries c) key ?a ?es"
    using ring.add_law [OF c(1)] by metis
  let ?l1 = "l\<lparr>kl_cache := Some c1, kl_buckets := (kl_buckets l)(?a \<mapsto> newBucket l now), kl_fresh := ?a + 1\<rparr>"
  have n: "?a \<notin> snd ` set ?es" using assms(1,2) by (force simp: tracks_def)
  have e1: "Ring_entries c1 = lru_evict (kl_Size l) ((key, ?a) # ?es)" using c1(4) c(2) assms(3) by (simp add: lru_add_def)
  have ok: "bucket_ok l (newBucket l now)"
    using Truncate_slot [OF assms(4)] assms(4) by (simp add: newBucket_def bucket_ok_def KL_cfg_def)
  have es: "\<forall>e\<in>set ?es. \<exists>b. kl_buckets ?l1 (snd e) = Some b \<and> bucket_ok l b"
    using assms(2) n by (force simp: tracks_def)
  have "\<exists>r b' l'. kl_allow key now l = Some (r, l') \<and> allowBucketLocked l (newBucket l now) now = Some (r, b') \<and>
    kl_abs l' = lru_evict (kl_Size l) ((key, b') # map (deref (kl_buckets ?l1)) ?es) \<and> KL_inv l' \<and> same_KL l l'"
    by (rule request_ok [where a = ?a and ?l1.0 = ?l1 and c = c1])
      (use assms(1,4,5) c c1(1-3) n e1 ok es in \<open>simp_all add: same_KL_def addBucket_def Let_def\<close>)
  moreover have "key \<notin> fst ` set (map (deref (kl_buckets l)) ?es)" using assms(3) by (force simp: deref_def)
  moreover have "map (deref (kl_buckets ?l1)) ?es = map (deref (kl_buckets l)) ?es" using deref_upd [OF n, of "kl_buckets l"] by simp
  ultimately show ?thesis by (simp only: lru_add_def if_False)
qed

text \<open>
  C38. Every key has its own bucket. A request of a key is answered by its bucket, if it is among the tracked keys, and by a
  full one otherwise; it moves the key to the front of the tracked keys with the bucket as charged, and
  when there are more than \<open>Size\<close> keys, the one not seen for longest is forgotten. No other bucket changes.
\<close>

theorem kl_allow_refines:
  assumes "KL_cfg l" "KL_inv l"
  shows "\<exists>r b' l'. kl_allow key now l = Some (r, l') \<and>
    allowBucketLocked l (case map_of (kl_abs l) key of Some b \<Rightarrow> b | None \<Rightarrow> newBucket l now) now = Some (r, b') \<and>
    kl_abs l' = lru_add (kl_Size l) key b' (kl_abs l) \<and> KL_inv l' \<and> same_KL l l'"
proof (cases "kl_cache l")
  case None
  have "tracks l (newRing (kl_Size l))" by (simp add: tracks_def ring.new_law)
  then show ?thesis
    using addBucket_ok [of l "newRing (kl_Size l)" key now] assms None
    by (simp add: KL_inv_def kl_abs_def getBucketLocked_def ring.new_law(3))
next
  case (Some c)
  let ?es = "Ring_entries c"
  have t: "tracks l c" and fr: "\<forall>a\<ge>kl_fresh l. kl_buckets l a = None" using assms(2) Some by (simp_all add: KL_inv_def)
  have c: "Ring_inv c" "rMaxEntries c = kl_Size l" "distinct (map snd ?es)" using t by (simp_all add: tracks_def)
  obtain c1 where c1: "Ring_GetOk key c = Some (map_of ?es key, c1)" "Ring_inv c1" "rMaxEntries c1 = rMaxEntries c" "Ring_entries c1 = lru_touch key ?es"
    using ring.get_law [OF c(1)] by metis
  have abs: "kl_abs l = map (deref (kl_buckets l)) ?es" using Some by (simp add: kl_abs_def)
  show ?thesis
  proof (cases "map_of ?es key")
    case None
    then have e1: "Ring_entries c1 = ?es" using c1(4) by (simp add: lru_touch_def)
    have "key \<notin> fst ` set ?es" using None by (simp add: map_of_eq_None_iff)
    have "tracks l c1" using e1 t c1(2,3) by (simp add: tracks_def)
    then show ?thesis using addBucket_ok [of l c1 key now] \<open>key \<notin> fst ` set ?es\<close> fr e1 assms(1) Some c1(1) None abs
      by (simp add: getBucketLocked_def deref_map_of)
  next
    case a: (Some a)
    let ?l1 = "l\<lparr>kl_cache := Some c1\<rparr>" and ?rest = "lru_drop key ?es"
    have m: "(key, a) \<in> set ?es" using a by (rule map_of_SomeD)
    obtain b where b: "kl_buckets l a = Some b" "bucket_ok l b" using t m by (force simp: tracks_def)
    have e1: "Ring_entries c1 = lru_evict 0 ((key, a) # ?rest)" using c1(4) a by (simp add: lru_touch_def lru_evict_def)
    have "a \<notin> snd ` set ?rest" using m c(3) by (force simp: lru_drop_def distinct_map inj_on_def)
    moreover have "distinct (map snd ?rest)" using c(3) by (simp add: lru_drop_def distinct_map_filter)
    ultimately have d: "distinct (map snd ((key, a) # ?rest))" by simp
    have es: "\<forall>e\<in>set ?rest. \<exists>b. kl_buckets ?l1 (snd e) = Some b \<and> bucket_ok l b" using t by (auto simp: tracks_def lru_drop_def)
    have "\<exists>r b' l'. kl_allow key now l = Some (r, l') \<and> allowBucketLocked l b now = Some (r, b') \<and>
        kl_abs l' = lru_evict 0 ((key, b') # map (deref (kl_buckets ?l1)) ?rest) \<and> KL_inv l' \<and> same_KL l l'"
      by (rule request_ok [where a = a and ?l1.0 = ?l1 and c = c1])
        (use assms(1) fr c c1(1-3) b e1 d es Some a in \<open>simp_all add: same_KL_def getBucketLocked_def\<close>)
    moreover have "key \<in> fst ` set (kl_abs l)" using m by (force simp: abs deref_def)
    ultimately show ?thesis using a b(1) abs
      by (simp add: deref_map_of lru_add_def lru_evict_def deref_drop)
  qed
qed

lemma zeroKLimiter_inv: "KL_inv (zeroKLimiter sz mx refill over)"
  by (simp add: KL_inv_def zeroKLimiter_def)

theorem kl_allow_refines_witness:
  "\<exists>r b' l'. kl_allow 7 25 sample_limiter = Some (r, l') \<and>
     allowBucketLocked sample_limiter (newBucket sample_limiter 25) 25 = Some (r, b') \<and> kl_abs l' = [(7, b')] \<and> KL_inv l'"
proof -
  have "KL_cfg sample_limiter" "KL_inv sample_limiter" "kl_abs sample_limiter = []" "kl_Size sample_limiter = 2"
    using zeroKLimiter_inv by (simp_all add: sample_limiter_def KL_cfg_def zeroKLimiter_def kl_abs_def)
  then show ?thesis using kl_allow_refines [of sample_limiter 7 25] by (auto simp: lru_add_def lru_evict_def)
qed

lemma zero_interval_panics: "kl_RefillInterval l = 0 \<Longrightarrow> allowBucketLocked l \<lparr>b_cur = 0, b_lastUpdate = now\<rparr> now = None"
  by (simp add: allowBucketLocked_def updateBucketLocked_def Time_Truncate_def div64_def)

text \<open>
  The zero value is not a limiter that rejects all requests: the refill divides by the interval, which is
  zero, and the first request panics, whatever the size and the overdraft. Before the first request, the
  dump panics too, on the cache that is nil.
\<close>

theorem zero_limiter_panics:
  "kl_allow key now (zeroKLimiter sz 0 0 over) = None \<and> collectDump now (zeroKLimiter sz mx refill over) = None"
  by (simp add: kl_allow_def getBucketLocked_def addBucket_def newBucket_def collectDump_def Time_Truncate_def zeroKLimiter_def
      zero_interval_panics)

end
