(* ===== verification/Stun.thy ===== *)
theory Stun
  imports Netip_Wire
begin

unbundle bit_operations_syntax

section \<open>Package \<open>net/stun\<close>: binding requests and responses\<close>

text \<open>
  \<open>src/net/stun/stun.go\<close>: the packets by which a node learns its public address. \<open>None\<close> is a panic.
  \<open>crc32.ChecksumIEEE\<close> of the standard library is modelled bit by bit. The callback of \<open>foreachAttr\<close> is a
  function on the variables it assigns. \<open>ParseResponse\<close> returns its three results.
\<close>

definition attrNumSoftware :: u16 where "attrNumSoftware = 0x8022"
definition attrNumFingerprint :: u16 where "attrNumFingerprint = 0x8028"
definition attrMappedAddress :: u16 where "attrMappedAddress = 0x0001"
definition attrXorMappedAddress :: u16 where "attrXorMappedAddress = 0x0020"
definition attrXorMappedAddressAlt :: u16 where "attrXorMappedAddressAlt = 0x8020"
definition software :: bytes where "software = [0x74, 0x61, 0x69, 0x6c, 0x6e, 0x6f, 0x64, 0x65]"
definition bindingRequest :: bytes where "bindingRequest = [0x00, 0x01]"
definition magicCookie :: bytes where "magicCookie = [0x21, 0x12, 0xa4, 0x42]"
definition lenFingerprint :: nat where [simp]: "lenFingerprint = 8"
definition headerLen :: nat where [simp]: "headerLen = 20"

datatype serr = ErrNotSTUN | ErrNotSuccessResponse | ErrMalformedAttrs | ErrNotBindingRequest | ErrWrongSoftware | ErrNoFingerprint | ErrWrongFingerprint

subsection \<open>The checksum\<close>

definition crc_bit :: "u32 \<Rightarrow> u32" where
  "crc_bit c = (if odd c then drop_bit 1 c XOR 0xedb88320 else drop_bit 1 c)"

definition crc_byte :: "u32 \<Rightarrow> byte \<Rightarrow> u32" where
  "crc_byte c b = (crc_bit ^^ 8) (c XOR ucast b)"

definition ChecksumIEEE :: "bytes \<Rightarrow> u32" where
  "ChecksumIEEE b = NOT (foldl crc_byte (NOT 0) b)"

definition fingerPrint :: "bytes \<Rightarrow> u32" where
  "fingerPrint b = ChecksumIEEE b XOR 0x5354554e"

subsection \<open>Writing packets\<close>

definition appendU16 :: "bytes \<Rightarrow> u16 \<Rightarrow> bytes" where
  "appendU16 b v = b @ [ucast (drop_bit 8 v), ucast v]"

definition appendU32 :: "bytes \<Rightarrow> u32 \<Rightarrow> bytes" where
  "appendU32 b v = b @ [ucast (drop_bit 24 v), ucast (drop_bit 16 v), ucast (drop_bit 8 v), ucast v]"

definition stun_Request :: "bytes \<Rightarrow> bytes" where
  "stun_Request tID =
     (let lenAttrSoftware = 4 + length software;
          b = [] @ bindingRequest;
          b = appendU16 b (of_nat (lenAttrSoftware + lenFingerprint));
          b = b @ magicCookie;
          b = b @ tID;
          b = appendU16 b attrNumSoftware;
          b = appendU16 b (of_nat (length software));
          b = b @ software;
          fp = fingerPrint b;
          b = appendU16 b attrNumFingerprint;
          b = appendU16 b 4;
          b = appendU32 b fp
      in b)"

text \<open>The loop over an address: the first four bytes are masked by the cookie, the others by the transaction id.\<close>

fun xor_loop :: "bytes \<Rightarrow> nat \<Rightarrow> bytes \<Rightarrow> bytes option" where
  "xor_loop tID i [] = Some []"
| "xor_loop tID i (x # xs) = do {
     m \<leftarrow> (if i < length magicCookie then rd magicCookie i else rd tID (i - length magicCookie));
     r \<leftarrow> xor_loop tID (i + 1) xs;
     Some ((x XOR m) # r) }"

definition stun_Response :: "bytes \<Rightarrow> addrport \<Rightarrow> bytes option" where
  "stun_Response txID addrPort =
     (let addr = ap_addr addrPort in
      if \<not> Is4 addr \<and> \<not> Is6 addr then Some []
      else do {
        let fam = (if Is4 addr then 1 else 2 :: byte);
        let attrsLen = 8 + BitLen addr div 8;
        let b = [] @ [0x01, 0x01];
        let b = appendU16 b (of_nat attrsLen);
        let b = b @ magicCookie;
        let b = b @ txID;
        let b = appendU16 b attrXorMappedAddress;
        let b = appendU16 b (of_nat (4 + BitLen addr div 8));
        let b = b @ [0, fam];
        let b = appendU16 b (ap_port addrPort XOR 0x2112);
        x \<leftarrow> xor_loop txID 0 (drop (16 - BitLen addr div 8) (As16 addr));
        Some (b @ x) })"

subsection \<open>Reading packets\<close>

definition stun_Is :: "bytes \<Rightarrow> bool" where
  "stun_Is b = (length b \<ge> headerLen \<and> (b ! 0) AND 0b11000000 = 0 \<and> take 4 (drop 4 b) = magicCookie)"

function foreachAttr :: "bytes \<Rightarrow> (u16 \<Rightarrow> bytes \<Rightarrow> 's \<Rightarrow> (serr + 's) option) \<Rightarrow> 's \<Rightarrow> (serr + 's) option" where
  "foreachAttr b f s =
     (if length b = 0 then Some (Inr s)
      else if length b < 4 then Some (Inl ErrMalformedAttrs)
      else do {
        attrType \<leftarrow> rd16 b 0;
        n \<leftarrow> rd16 b 2;
        let attrLen = unat n;
        let attrLenWithPad = (attrLen + 3) div 4 * 4;
        b \<leftarrow> slice_from b 4;
        if attrLenWithPad > length b then Some (Inl ErrMalformedAttrs)
        else do {
          a \<leftarrow> slice b 0 attrLen;
          r \<leftarrow> f attrType a s;
          (case r of Inl e \<Rightarrow> Some (Inl e)
           | Inr s \<Rightarrow> do { b \<leftarrow> slice_from b attrLenWithPad; foreachAttr b f s }) } })"
  by pat_completeness auto
termination
  by (relation "measure (\<lambda>(b, f, s). length b)") (auto simp: slice_from_def split: if_splits)

declare foreachAttr.simps [simp del]

definition request_attr :: "u16 \<Rightarrow> bytes \<Rightarrow> bool \<times> u16 \<times> u32 \<Rightarrow> (serr + bool \<times> u16 \<times> u32) option" where
  "request_attr attrType a s = (case s of (softwareOK, lastAttr, gotFP) \<Rightarrow>
     Some (Inr (softwareOK \<or> attrType = attrNumSoftware \<and> a = software, attrType,
       if attrType = attrNumFingerprint \<and> length a = 4 then be_word a else gotFP)))"

definition ParseBindingRequest :: "bytes \<Rightarrow> (serr + bytes) option" where
  "ParseBindingRequest b =
     (if \<not> stun_Is b then Some (Inl ErrNotSTUN)
      else if take (length bindingRequest) b \<noteq> bindingRequest then Some (Inl ErrNotBindingRequest)
      else do {
        txID \<leftarrow> slice b 8 20;
        attrs \<leftarrow> slice_from b headerLen;
        r \<leftarrow> foreachAttr attrs request_attr (False, 0, 0);
        (case r of Inl e \<Rightarrow> Some (Inl e)
         | Inr (softwareOK, lastAttr, gotFP) \<Rightarrow>
             if \<not> softwareOK then Some (Inl ErrWrongSoftware)
             else if lastAttr \<noteq> attrNumFingerprint then Some (Inl ErrNoFingerprint)
             else do {
               signed \<leftarrow> slice b 0 (length b - lenFingerprint);
               if gotFP \<noteq> fingerPrint signed then Some (Inl ErrWrongFingerprint) else Some (Inr txID) }) })"

definition familyAddrLen :: "byte \<Rightarrow> nat" where
  "familyAddrLen fam = (if fam = 0x01 then 4 else if fam = 0x02 then 16 else 0)"

definition xorMappedAddress :: "bytes \<Rightarrow> bytes \<Rightarrow> (serr + bytes \<times> u16) option" where
  "xorMappedAddress tID b =
     (if length b < 4 then Some (Inl ErrMalformedAttrs)
      else do {
        xorPort \<leftarrow> rd16 b 2;
        addrField \<leftarrow> slice_from b 4;
        fam \<leftarrow> rd b 1;
        let addrLen = familyAddrLen fam;
        if addrLen = 0 then Some (Inl ErrMalformedAttrs)
        else if length addrField < addrLen then Some (Inl ErrMalformedAttrs)
        else do {
          xorAddr \<leftarrow> slice addrField 0 addrLen;
          addr \<leftarrow> xor_loop tID 0 xorAddr;
          Some (Inr (addr, xorPort XOR 0x2112)) } })"

definition mappedAddress :: "bytes \<Rightarrow> (serr + bytes \<times> u16) option" where
  "mappedAddress b =
     (if length b < 4 then Some (Inl ErrMalformedAttrs)
      else do {
        port \<leftarrow> rd16 b 2;
        addrField \<leftarrow> slice_from b 4;
        fam \<leftarrow> rd b 1;
        let addrLen = familyAddrLen fam;
        if addrLen = 0 then Some (Inl ErrMalformedAttrs)
        else if length addrField < addrLen then Some (Inl ErrMalformedAttrs)
        else do { a \<leftarrow> slice addrField 0 addrLen; Some (Inr (a, port)) } })"

definition response_attr :: "bytes \<Rightarrow> u16 \<Rightarrow> bytes \<Rightarrow> addrport \<times> addrport \<Rightarrow> (serr + addrport \<times> addrport) option" where
  "response_attr tID attrType attr s = (case s of (adr, fallbackAddr) \<Rightarrow>
     if attrType = attrXorMappedAddress \<or> attrType = attrXorMappedAddressAlt then do {
       r \<leftarrow> xorMappedAddress tID attr;
       Some (case r of Inl e \<Rightarrow> Inl e
         | Inr (ipSlice, port) \<Rightarrow> (case AddrFromSlice ipSlice of
             None \<Rightarrow> Inr (adr, fallbackAddr) | Some ip \<Rightarrow> Inr (AddrPortFrom (Unmap ip) port, fallbackAddr))) }
     else if attrType = attrMappedAddress then do {
       r \<leftarrow> mappedAddress attr;
       Some (case r of Inl e \<Rightarrow> Inl ErrMalformedAttrs
         | Inr (ipSlice, port) \<Rightarrow> (case AddrFromSlice ipSlice of
             None \<Rightarrow> Inr (adr, fallbackAddr) | Some ip \<Rightarrow> Inr (adr, AddrPortFrom (Unmap ip) port))) }
     else Some (Inr (adr, fallbackAddr)))"

definition ParseResponse :: "bytes \<Rightarrow> (bytes \<times> addrport \<times> serr option) option" where
  "ParseResponse b =
     (let zeroID = replicate 12 0 in
      if \<not> stun_Is b then Some (zeroID, zeroAddrPort, Some ErrNotSTUN)
      else do {
        tID \<leftarrow> slice b 8 20;
        b0 \<leftarrow> rd b 0;
        b1 \<leftarrow> rd b 1;
        if b0 \<noteq> 0x01 \<or> b1 \<noteq> 0x01 then Some (tID, zeroAddrPort, Some ErrNotSuccessResponse)
        else do {
          n \<leftarrow> rd16 b 2;
          let attrsLen = unat n;
          b \<leftarrow> slice_from b headerLen;
          if attrsLen > length b then Some (tID, zeroAddrPort, Some ErrMalformedAttrs)
          else do {
            b \<leftarrow> slice b 0 attrsLen;
            r \<leftarrow> foreachAttr b (response_attr tID) (zeroAddrPort, zeroAddrPort);
            Some (case r of
                Inl e \<Rightarrow> (zeroID, zeroAddrPort, Some e)
              | Inr (adr, fallbackAddr) \<Rightarrow>
                  if ap_addr adr \<noteq> AddrZero then (tID, adr, None)
                  else if ap_addr fallbackAddr \<noteq> AddrZero then (tID, fallbackAddr, None)
                  else (tID, zeroAddrPort, Some ErrMalformedAttrs)) } } })"

subsection \<open>Round trips\<close>

lemma appendU16_eq: "appendU16 b v = b @ [be16_hi v, be16_lo v]"
  by (simp add: appendU16_def be16_hi_def be16_lo_def)

lemma appendU32_eq: "appendU32 b v = b @ be_bytes 4 v"
  by (simp add: appendU32_def be_bytes_def upt_rec)

text \<open>An attribute without padding, followed by others.\<close>

lemma foreachAttr_attr:
  assumes "unat n = length a" "length a mod 4 = 0" "f t a s = Some (Inr s')"
  shows "foreachAttr ([be16_hi t, be16_lo t, be16_hi n, be16_lo n] @ a @ rest) f s = foreachAttr rest f s'"
proof -
  have "(length a + 3) div 4 * 4 = length a" using assms(2) by presburger
  then show ?thesis using assms by (simp add: foreachAttr.simps [of "_ # _"] rd16_Some slice_from_def slice_def)
qed

lemma foreachAttr_Nil: "foreachAttr [] f s = Some (Inr s)"
  by (simp add: foreachAttr.simps)

text \<open>Masking twice gives the bytes back.\<close>

lemma xor_loop_ok:
  "i + length xs \<le> 16 \<Longrightarrow> length tID = 12 \<Longrightarrow> \<exists>r. xor_loop tID i xs = Some r \<and> length r = length xs \<and> xor_loop tID i r = Some xs"
proof (induction xs arbitrary: i)
  case (Cons x xs)
  let ?m = "if i < length magicCookie then rd magicCookie i else rd tID (i - length magicCookie)"
  have "length magicCookie = 4" by (simp add: magicCookie_def)
  moreover have "i - 4 < length tID" using Cons.prems by simp
  ultimately obtain m where m: "?m = Some m" by (cases "i < 4") (auto simp: rd_def)
  obtain r where "xor_loop tID (i + 1) xs = Some r" "length r = length xs" "xor_loop tID (i + 1) r = Some xs"
    using Cons.IH [of "i + 1"] Cons.prems by auto
  then show ?case using m by (simp add: xor.assoc)
qed simp

lemma slice_prefix: "length xs = n \<Longrightarrow> slice (xs @ ys) 0 n = Some xs"
  by (auto simp: slice_def)

lemma stun_Request_eq:
  "stun_Request tID = (bindingRequest @ [0, 20] @ magicCookie @ tID) @
     ([be16_hi attrNumSoftware, be16_lo attrNumSoftware, be16_hi 8, be16_lo 8] @ software @
      [be16_hi attrNumFingerprint, be16_lo attrNumFingerprint, be16_hi 4, be16_lo 4] @
      be_bytes 4 (fingerPrint (bindingRequest @ [0, 20] @ magicCookie @ tID @
        [be16_hi attrNumSoftware, be16_lo attrNumSoftware, be16_hi 8, be16_lo 8] @ software)))"
  by (simp add: stun_Request_def appendU16_eq appendU32_eq Let_def software_def be16_hi_def [of 20] be16_lo_def [of 20])

lemma Is_request: "length tID = 12 \<Longrightarrow> stun_Is ((bindingRequest @ [0, 20] @ magicCookie @ tID) @ rest)"
  by (simp add: stun_Is_def bindingRequest_def magicCookie_def)

text \<open>
  A server recognises every request this client makes: parsing it gives the transaction id back, and its
  fingerprint is accepted.
\<close>

theorem stun_request_roundtrip:
  assumes "length tID = 12"
  shows "ParseBindingRequest (stun_Request tID) = Some (Inr tID)"
proof -
  let ?hdr = "bindingRequest @ [0, 20] @ magicCookie @ tID"
  let ?sw = "[be16_hi attrNumSoftware, be16_lo attrNumSoftware, be16_hi 8, be16_lo 8] @ software"
  let ?fp = "fingerPrint (?hdr @ ?sw)"
  let ?fpa = "[be16_hi attrNumFingerprint, be16_lo attrNumFingerprint, be16_hi 4, be16_lo 4] @ be_bytes 4 ?fp"
  have eq: "stun_Request tID = ?hdr @ ?sw @ ?fpa" by (simp add: stun_Request_eq)
  have len: "length ?hdr = 20" using assms by (simp add: bindingRequest_def magicCookie_def)
  have "foreachAttr (?sw @ ?fpa) request_attr (False, 0, 0) = foreachAttr ?fpa request_attr (True, attrNumSoftware, 0)"
    using foreachAttr_attr [of 8 software request_attr attrNumSoftware "(False, 0, 0)" "(True, attrNumSoftware, 0)" ?fpa]
    by (simp add: software_def request_attr_def attrNumSoftware_def attrNumFingerprint_def)
  also have "\<dots> = Some (Inr (True, attrNumFingerprint, ?fp))"
    using foreachAttr_attr [of 4 "be_bytes 4 ?fp" request_attr attrNumFingerprint "(True, attrNumSoftware, 0)" "(True, attrNumFingerprint, ?fp)" "[]"]
    by (simp add: request_attr_def foreachAttr_Nil)
  finally have loop: "foreachAttr (?sw @ ?fpa) request_attr (False, 0, 0) = Some (Inr (True, attrNumFingerprint, ?fp))" .
  have "slice (?hdr @ ?sw @ ?fpa) 8 20 = Some tID" using assms by (simp add: slice_def bindingRequest_def magicCookie_def)
  moreover have "slice_from (?hdr @ ?sw @ ?fpa) 20 = Some (?sw @ ?fpa)" using assms by (simp add: slice_from_def bindingRequest_def magicCookie_def)
  moreover have "slice (?hdr @ ?sw @ ?fpa) 0 (length (?hdr @ ?sw @ ?fpa) - 8) = Some (?hdr @ ?sw)"
    using slice_prefix [of "?hdr @ ?sw" "length (?hdr @ ?sw @ ?fpa) - 8" ?fpa] by (simp del: append.simps)
  moreover have "take (length bindingRequest) (?hdr @ ?sw @ ?fpa) = bindingRequest" by simp
  moreover have "stun_Is (?hdr @ ?sw @ ?fpa)" using Is_request [OF assms] by simp
  ultimately show ?thesis unfolding eq ParseBindingRequest_def using loop by (simp del: append_assoc append.simps)
qed

theorem stun_request_roundtrip_witness: "ParseBindingRequest (stun_Request (replicate 12 9)) = Some (Inr (replicate 12 9))"
  by (rule stun_request_roundtrip) simp

text \<open>The bytes of an address without the mapping of IPv4 into IPv6.\<close>

lemma As16_tail:
  assumes "Is4 a \<or> Is6 a"
  shows "drop (16 - BitLen a div 8) (As16 a) = AsSlice a" "BitLen a div 8 = length (AsSlice a)" "length (AsSlice a) = 4 \<or> length (AsSlice a) = 16"
  using assms by (cases a; simp)+

lemma Unmap_AsSlice: "Is4 a \<or> Is6 a \<Longrightarrow> AddrFromSlice (AsSlice a) = Some (withoutZone a) \<and> Unmap (withoutZone a) = on_wire a \<and> on_wire a \<noteq> AddrZero"
  using AddrFromSlice_AsSlice [of a] by (cases a) auto

text \<open>
  C40. The address a server reports arrives: parsing a response, with any bytes after it, gives the transaction id and the address
  and port it was made for, without zone, and as IPv4 if it is an IPv4 address inside IPv6.
\<close>

theorem stun_response_roundtrip:
  assumes "length tID = 12" "Is4 (ap_addr ap) \<or> Is6 (ap_addr ap)"
  shows "\<exists>b. stun_Response tID ap = Some b \<and>
    ParseResponse (b @ trailing) = Some (tID, AddrPortFrom (on_wire (ap_addr ap)) (ap_port ap), None)"
proof -
  let ?a = "ap_addr ap" and ?n = "length (AsSlice (ap_addr ap))" and ?port = "ap_port ap XOR 0x2112"
  note tl = As16_tail [OF assms(2)]
  obtain x where x: "xor_loop tID 0 (AsSlice ?a) = Some x" "length x = ?n" "xor_loop tID 0 x = Some (AsSlice ?a)"
    using xor_loop_ok [of 0 "AsSlice ?a" tID] assms(1) tl(3) by auto
  let ?fam = "if Is4 ?a then 1 else 2 :: byte"
  let ?len = "of_nat (8 + ?n) :: u16"
  let ?hdr = "[1, 1, be16_hi ?len, be16_lo ?len] @ magicCookie @ tID"
  let ?val = "[0, ?fam, be16_hi ?port, be16_lo ?port] @ x"
  let ?attr = "[be16_hi attrXorMappedAddress, be16_lo attrXorMappedAddress, be16_hi (of_nat (4 + ?n)), be16_lo (of_nat (4 + ?n))] @ ?val"
  have resp: "stun_Response tID ap = Some (?hdr @ ?attr)"
    using assms(2) tl(1,2) x(1) by (auto simp: stun_Response_def appendU16_eq Let_def)
  have lens: "length ?val = 4 + ?n" "unat (of_nat (4 + ?n) :: u16) = 4 + ?n" "unat ?len = 8 + ?n" "length ?attr = 8 + ?n"
    "(4 + ?n) mod 4 = 0" "familyAddrLen ?fam = ?n"
    using x(2) tl(3) assms(2) by (cases ?a; auto simp: familyAddrLen_def)+
  have addr: "xorMappedAddress tID ?val = Some (Inr (AsSlice ?a, ap_port ap))"
    using lens(6) x(2,3) tl(3) by (auto simp: xorMappedAddress_def rd16_Some rd_def slice_from_def slice_def xor.assoc)
  have attr: "response_attr tID attrXorMappedAddress ?val (zeroAddrPort, zeroAddrPort) =
      Some (Inr (AddrPortFrom (on_wire ?a) (ap_port ap), zeroAddrPort))"
    using addr Unmap_AsSlice [OF assms(2)] by (simp add: response_attr_def)
  have loop: "foreachAttr ?attr (response_attr tID) (zeroAddrPort, zeroAddrPort) = Some (Inr (AddrPortFrom (on_wire ?a) (ap_port ap), zeroAddrPort))"
    using foreachAttr_attr [of "of_nat (4 + ?n)" ?val "response_attr tID" attrXorMappedAddress "(zeroAddrPort, zeroAddrPort)" _ "[]"] attr lens(1,2,5)
    by (simp add: foreachAttr_Nil)
  have hdr: "length ?hdr = 20" "stun_Is (?hdr @ ?attr @ trailing)" using assms(1) by (simp_all add: magicCookie_def stun_Is_def)
  have "slice (?hdr @ ?attr @ trailing) 8 20 = Some tID" using assms(1) by (simp add: slice_def magicCookie_def)
  moreover have "rd16 (?hdr @ ?attr @ trailing) 2 = Some ?len" by (simp add: rd16_Some)
  moreover have "slice_from (?hdr @ ?attr @ trailing) 20 = Some (?attr @ trailing)" using assms(1) by (simp add: slice_from_def magicCookie_def)
  moreover have "slice (?attr @ trailing) 0 (8 + ?n) = Some ?attr" by (rule slice_prefix [OF lens(4)])
  moreover have "rd (?hdr @ ?attr @ trailing) 0 = Some 1" "rd (?hdr @ ?attr @ trailing) 1 = Some 1" by (simp_all add: rd_def)
  ultimately have "ParseResponse (?hdr @ ?attr @ trailing) = Some (tID, AddrPortFrom (on_wire ?a) (ap_port ap), None)"
    unfolding ParseResponse_def using loop hdr(2) lens(3,4) Unmap_AsSlice [OF assms(2)]
    by (simp add: AddrPortFrom_def del: append_assoc append.simps)
  then show ?thesis using resp by simp
qed

theorem stun_response_roundtrip_witness:
  "\<exists>b. stun_Response (replicate 12 9) (AddrPortFrom (V4 0x01020304) 1234) = Some b \<and>
     ParseResponse (b @ [0]) = Some (replicate 12 9, AddrPortFrom (V4 0x01020304) 1234, None)"
  using stun_response_roundtrip [of "replicate 12 9" "AddrPortFrom (V4 0x01020304) 1234" "[0]"] by (simp add: AddrPortFrom_def)

subsection \<open>Any packet\<close>

lemma foreachAttr_step:
  assumes "4 \<le> length b"
  defines "n \<equiv> unat (be16 (b ! 2) (b ! 3))"
  shows "foreachAttr b f s =
    (if (n + 3) div 4 * 4 > length b - 4 then Some (Inl ErrMalformedAttrs)
     else case f (be16 (b ! 0) (b ! 1)) (take n (drop 4 b)) s of
         None \<Rightarrow> None | Some (Inl e) \<Rightarrow> Some (Inl e) | Some (Inr s) \<Rightarrow> foreachAttr (drop ((n + 3) div 4 * 4) (drop 4 b)) f s)"
proof -
  have "rd16 b 0 = Some (be16 (b ! 0) (b ! 1))" "rd16 b 2 = Some (be16 (b ! 2) (b ! 3))" "slice_from b 4 = Some (drop 4 b)"
    using assms(1) by (simp_all add: rd16_Some slice_from_def)
  moreover have "slice (drop 4 b) 0 n = Some (take n (drop 4 b))" if "(n + 3) div 4 * 4 \<le> length b - 4"
    using that by (simp add: slice_def)
  ultimately show ?thesis using assms(1)
    by (auto simp: foreachAttr.simps [of b] n_def [symmetric] slice_from_def split: option.splits sum.splits)
qed

lemma foreachAttr_total:
  assumes "\<And>t a s. f t a s \<noteq> None"
  shows "foreachAttr b f s \<noteq> None"
proof (induction b arbitrary: s rule: length_induct)
  case (1 b)
  show ?case
  proof (cases "4 \<le> length b")
    case True
    obtain r where "f (be16 (b ! 0) (b ! 1)) (take (unat (be16 (b ! 2) (b ! 3))) (drop 4 b)) s = Some r" using assms by fastforce
    then show ?thesis using 1 True by (auto simp: foreachAttr_step split: sum.splits)
  qed (simp add: foreachAttr.simps [of b])
qed

lemma mapped_total:
  assumes "length tID = 12"
  shows "xorMappedAddress tID b \<noteq> None" "mappedAddress b \<noteq> None"
proof -
  have "xor_loop tID 0 (take n a) \<noteq> None" if "n \<le> 16" for n and a :: bytes
  proof -
    have "0 + length (take n a) \<le> 16" using that by simp
    then show ?thesis using xor_loop_ok [OF _ assms] by blast
  qed
  from this [of 4 "drop 4 b"] this [of 16 "drop 4 b"] show "xorMappedAddress tID b \<noteq> None"
    by (auto simp: xorMappedAddress_def rd16_Some rd_def slice_from_def slice_def familyAddrLen_def Let_def)
  show "mappedAddress b \<noteq> None"
    by (auto simp: mappedAddress_def rd16_Some rd_def slice_from_def slice_def familyAddrLen_def Let_def)
qed

lemma response_attr_total: "length tID = 12 \<Longrightarrow> response_attr tID t a s \<noteq> None"
  using mapped_total [of tID a] by (auto simp: response_attr_def split: prod.splits)

text \<open>
  No packet makes the reader of responses panic, and it returns a valid address exactly when it returns no error: what a
  server sends can never be taken for an address that it is not.
\<close>

theorem ParseResponse_total:
  "\<exists>tID ap e. ParseResponse b = Some (tID, ap, e) \<and> length tID = 12 \<and> (e = None) = (ap_addr ap \<noteq> AddrZero)"
proof (cases "stun_Is b")
  case True
  let ?t = "take 12 (drop 8 b)" and ?n = "unat (be16 (b ! 2) (b ! 3))"
  have len: "20 \<le> length b" using True by (simp add: stun_Is_def)
  then have "length ?t = 12" by simp
  then have "foreachAttr a (response_attr ?t) s \<noteq> None" for a s by (intro foreachAttr_total response_attr_total)
  then obtain r where r: "foreachAttr (take ?n (drop 20 b)) (response_attr ?t) (zeroAddrPort, zeroAddrPort) = Some r" by fastforce
  have "slice b 8 20 = Some ?t" "rd b 0 = Some (b ! 0)" "rd b 1 = Some (b ! 1)" "rd16 b 2 = Some (be16 (b ! 2) (b ! 3))"
    "slice_from b 20 = Some (drop 20 b)" "?n \<le> length b - 20 \<Longrightarrow> slice (drop 20 b) 0 ?n = Some (take ?n (drop 20 b))"
    using len by (auto simp: slice_def slice_from_def rd_def rd16_Some take_drop)
  then show ?thesis using True r len
    by (auto simp: ParseResponse_def zeroAddrPort_def Let_def split: sum.splits)
qed (simp add: ParseResponse_def zeroAddrPort_def)

lemma request_attr_total: "request_attr t a s \<noteq> None"
  by (simp add: request_attr_def split: prod.splits)

lemma ParseBindingRequest_total: "ParseBindingRequest b \<noteq> None"
proof (cases "stun_Is b")
  case True
  then have "20 \<le> length b" by (simp add: stun_Is_def)
  then show ?thesis using True foreachAttr_total [of request_attr "drop 20 b" "(False, 0, 0)", OF request_attr_total]
    by (auto simp: ParseBindingRequest_def slice_def slice_from_def split: sum.splits prod.splits)
qed (simp add: ParseBindingRequest_def)

end
