(* ===== verification/Derp_Frame.thy ===== *)
theory Derp_Frame
  imports Netip_Wire
begin

unbundle bit_operations_syntax

section \<open>Package \<open>derp\<close>: frames\<close>

text \<open>
  \<open>src/derp/derp.go\<close>: the frames of the relay protocol. A \<open>bufio.Reader\<close> is the list of the bytes that the
  other side will have sent before it hangs up; reading past its end is \<open>io.EOF\<close>. A \<open>bufio.Writer\<close> of the standard library
  is its buffer with what the connection has taken; \<open>w_room\<close> is how many more bytes the connection takes before
  it fails, \<open>None\<close> if it never does, and its error is sticky.
\<close>

datatype ferr = EOF | ErrUnexpectedEOF | ErrShortBuffer | ErrWrite | ErrMsg string

definition sbind :: "'e + 'a \<Rightarrow> ('a \<Rightarrow> 'e + 'b) \<Rightarrow> 'e + 'b" where
  "sbind m f = (case m of Inl e \<Rightarrow> Inl e | Inr x \<Rightarrow> f x)"

lemma sbind_simps [simp]: "sbind (Inl e) f = Inl e" "sbind (Inr x) f = f x"
  by (simp_all add: sbind_def)

subsection \<open>Reading\<close>

fun ReadByte :: "bytes \<Rightarrow> ferr + byte \<times> bytes" where
  "ReadByte [] = Inl EOF"
| "ReadByte (c # br) = Inr (c, br)"

definition ReadFull :: "nat \<Rightarrow> bytes \<Rightarrow> ferr + bytes \<times> bytes" where
  "ReadFull n br =
     (if n \<le> length br then Inr (take n br, drop n br) else if br = [] then Inl EOF else Inl ErrUnexpectedEOF)"

definition Discard :: "nat \<Rightarrow> bytes \<Rightarrow> ferr + bytes" where
  "Discard n br = (if n \<le> length br then Inr (drop n br) else Inl EOF)"

fun read_bytes :: "nat \<Rightarrow> bytes \<Rightarrow> ferr + bytes \<times> bytes" where
  "read_bytes 0 br = Inr ([], br)"
| "read_bytes (Suc n) br = sbind (ReadByte br) (\<lambda>(c, br). sbind (read_bytes n br) (\<lambda>(b, br). Inr (c # b, br)))"

definition readUint32 :: "bytes \<Rightarrow> ferr + u32 \<times> bytes" where
  "readUint32 br = sbind (read_bytes 4 br) (\<lambda>(b, br). Inr (be_word b, br))"

definition readFrameHeader :: "bytes \<Rightarrow> ferr + (byte \<times> u32) \<times> bytes" where
  "readFrameHeader br =
     sbind (ReadByte br) (\<lambda>(tb, br).
     sbind (readUint32 br) (\<lambda>(frameLen, br). Inr ((tb, frameLen), br)))"

definition readFrameTypeHeader :: "byte \<Rightarrow> bytes \<Rightarrow> ferr + u32 \<times> bytes" where
  "readFrameTypeHeader wantType br =
     sbind (readFrameHeader br) (\<lambda>((gotType, frameLen), br).
     if wantType \<noteq> gotType then Inl (ErrMsg ''bad frame type'') else Inr (frameLen, br))"

text \<open>
  \<open>readFrame\<close> fills a buffer of \<open>n\<close> bytes. A longer frame is read to its end; then the error is \<open>ErrShortBuffer\<close> and
  the other results are set as well.
\<close>

definition readFrame :: "u32 \<Rightarrow> nat \<Rightarrow> bytes \<Rightarrow> ferr + (byte \<times> u32 \<times> bytes \<times> ferr option) \<times> bytes" where
  "readFrame maxSize n br =
     sbind (readFrameHeader br) (\<lambda>((t, frameLen), br).
     if frameLen > maxSize then Inl (ErrMsg ''frame header size exceeds reader limit'')
     else sbind (ReadFull (min (unat frameLen) n) br) (\<lambda>(b, br).
       let remain = unat frameLen - length b in
       if remain > 0 then sbind (Discard remain br) (\<lambda>br. Inr ((t, frameLen, b, Some ErrShortBuffer), br))
       else Inr ((t, frameLen, b, None), br)))"

subsection \<open>Writing\<close>

record bufw =
  w_out :: bytes
  w_buf :: bytes
  w_size :: nat
  w_room :: "nat option"
  w_err :: bool

type_synonym wres = "ferr option \<times> bufw"

definition wthen :: "wres \<Rightarrow> (bufw \<Rightarrow> wres) \<Rightarrow> wres" where
  "wthen r f = (case r of (Some e, w) \<Rightarrow> (Some e, w) | (None, w) \<Rightarrow> f w)"

definition conn_write :: "bytes \<Rightarrow> bufw \<Rightarrow> wres" where
  "conn_write p w = (case w_room w of
       None \<Rightarrow> (None, w\<lparr>w_out := w_out w @ p\<rparr>)
     | Some n \<Rightarrow> if length p \<le> n then (None, w\<lparr>w_out := w_out w @ p, w_room := Some (n - length p)\<rparr>)
         else (Some ErrWrite, w\<lparr>w_out := w_out w @ take n p, w_room := Some 0, w_err := True\<rparr>))"

definition bw_Available :: "bufw \<Rightarrow> nat" where
  "bw_Available w = w_size w - length (w_buf w)"

definition bw_Flush :: "bufw \<Rightarrow> wres" where
  "bw_Flush w =
     (if w_err w then (Some ErrWrite, w)
      else if w_buf w = [] then (None, w)
      else wthen (conn_write (w_buf w) w) (\<lambda>w. (None, w\<lparr>w_buf := []\<rparr>)))"

definition bw_WriteByte :: "byte \<Rightarrow> bufw \<Rightarrow> wres" where
  "bw_WriteByte c w =
     (if w_err w then (Some ErrWrite, w)
      else wthen (if bw_Available w = 0 then bw_Flush w else (None, w)) (\<lambda>w. (None, w\<lparr>w_buf := w_buf w @ [c]\<rparr>)))"

text \<open>
  \<open>Write\<close>: what fits goes into the buffer. Otherwise the buffer is filled and flushed, and what is then left is buffered
  if it fits and handed to the connection directly if it does not.
\<close>

definition bw_Write :: "bytes \<Rightarrow> bufw \<Rightarrow> wres" where
  "bw_Write p w =
     (if w_err w then (Some ErrWrite, w)
      else if length p \<le> bw_Available w then (None, w\<lparr>w_buf := w_buf w @ p\<rparr>)
      else if w_buf w = [] then conn_write p w
      else let n = bw_Available w; r = drop n p in
        wthen (bw_Flush (w\<lparr>w_buf := w_buf w @ take n p\<rparr>)) (\<lambda>w.
          if length r \<le> w_size w then (None, w\<lparr>w_buf := r\<rparr>) else conn_write r w))"

fun write_bytes :: "bytes \<Rightarrow> bufw \<Rightarrow> wres" where
  "write_bytes [] w = (None, w)"
| "write_bytes (c # cs) w = wthen (bw_WriteByte c w) (write_bytes cs)"

definition writeUint32 :: "u32 \<Rightarrow> bufw \<Rightarrow> wres" where
  "writeUint32 v w = write_bytes (be_bytes 4 v) w"

definition writeFrameHeader :: "byte \<Rightarrow> u32 \<Rightarrow> bufw \<Rightarrow> wres" where
  "writeFrameHeader t frameLen w = wthen (bw_WriteByte t w) (writeUint32 frameLen)"

definition writeFrame :: "byte \<Rightarrow> bytes \<Rightarrow> bufw \<Rightarrow> wres" where
  "writeFrame t b w =
     (if length b > 10 * 2 ^ 20 then (Some (ErrMsg ''unreasonably large frame write''), w)
      else wthen (writeFrameHeader t (of_nat (length b)) w) (\<lambda>w.
           wthen (bw_Write b w) bw_Flush))"

subsection \<open>Constants\<close>

definition MaxPacketSize :: nat where [simp]: "MaxPacketSize = 65536"
definition derp_magic :: bytes where "derp_magic = [0x44, 0x45, 0x52, 0x50, 0xf0, 0x9f, 0x94, 0x91]"
definition nonceLen :: nat where [simp]: "nonceLen = 24"
definition frameHeaderLen :: nat where [simp]: "frameHeaderLen = 5"
definition keyLen :: nat where [simp]: "keyLen = 32"
definition maxInfoLen :: nat where [simp]: "maxInfoLen = 2 ^ 20"
definition ProtocolVersion :: int where [simp]: "ProtocolVersion = 2"
definition frameServerKey :: byte where [simp]: "frameServerKey = 0x01"
definition frameClientInfo :: byte where [simp]: "frameClientInfo = 0x02"
definition frameServerInfo :: byte where [simp]: "frameServerInfo = 0x03"
definition frameSendPacket :: byte where [simp]: "frameSendPacket = 0x04"
definition frameForwardPacket :: byte where [simp]: "frameForwardPacket = 0x0a"
definition frameRecvPacket :: byte where [simp]: "frameRecvPacket = 0x05"
definition frameKeepAlive :: byte where [simp]: "frameKeepAlive = 0x06"
definition frameNotePreferred :: byte where [simp]: "frameNotePreferred = 0x07"
definition framePeerGone :: byte where [simp]: "framePeerGone = 0x08"
definition framePeerPresent :: byte where [simp]: "framePeerPresent = 0x09"
definition frameWatchConns :: byte where [simp]: "frameWatchConns = 0x10"
definition frameClosePeer :: byte where [simp]: "frameClosePeer = 0x11"
definition framePing :: byte where [simp]: "framePing = 0x12"
definition framePong :: byte where [simp]: "framePong = 0x13"
definition frameHealth :: byte where [simp]: "frameHealth = 0x14"
definition frameRestarting :: byte where [simp]: "frameRestarting = 0x15"
definition PeerGoneReasonDisconnected :: byte where [simp]: "PeerGoneReasonDisconnected = 0x00"
definition PeerGoneReasonNotHere :: byte where [simp]: "PeerGoneReasonNotHere = 0x01"

subsection \<open>What a writer writes\<close>

text \<open>On a connection that does not fail, a writer adds bytes to the stream and returns no error.\<close>

definition good :: "bufw \<Rightarrow> bool" where
  "good w \<longleftrightarrow> \<not> w_err w \<and> w_room w = None \<and> 0 < w_size w \<and> length (w_buf w) \<le> w_size w"

definition stream :: "bufw \<Rightarrow> bytes" where
  "stream w = w_out w @ w_buf w"

definition writes :: "(bufw \<Rightarrow> wres) \<Rightarrow> bytes \<Rightarrow> bool" where
  "writes f p \<longleftrightarrow> (\<forall>w. good w \<longrightarrow> fst (f w) = None \<and> good (snd (f w)) \<and> stream (snd (f w)) = stream w @ p \<and> w_size (snd (f w)) = w_size w)"

lemma writesD: "writes f p \<Longrightarrow> good w \<Longrightarrow> \<exists>w'. f w = (None, w') \<and> good w' \<and> stream w' = stream w @ p"
  by (metis writes_def prod.collapse)

lemma writes_wthen: "writes f p \<Longrightarrow> writes g q \<Longrightarrow> writes (\<lambda>w. wthen (f w) g) (p @ q)"
  unfolding writes_def wthen_def by (auto split: prod.splits option.splits)

lemma writes_none: "writes (\<lambda>w. (None, w)) []"
  by (simp add: writes_def)

lemma Flush_eq: "good w \<Longrightarrow> bw_Flush w = (None, w\<lparr>w_out := w_out w @ w_buf w, w_buf := []\<rparr>)"
  by (cases w) (simp add: bw_Flush_def good_def wthen_def conn_write_def)

lemma writes_Flush: "writes bw_Flush []"
  by (auto simp: writes_def Flush_eq) (auto simp: good_def stream_def)

lemma writes_WriteByte: "writes (bw_WriteByte c) [c]"
  unfolding writes_def
proof (intro allI impI)
  fix w assume "good w"
  then show "fst (bw_WriteByte c w) = None \<and> good (snd (bw_WriteByte c w)) \<and> stream (snd (bw_WriteByte c w)) = stream w @ [c] \<and>
      w_size (snd (bw_WriteByte c w)) = w_size w"
    using Flush_eq [of w] by (auto simp: bw_WriteByte_def wthen_def good_def stream_def bw_Available_def)
qed

lemma writes_Write: "writes (bw_Write p) p"
  unfolding writes_def
proof (intro allI impI)
  fix w assume w: "good w"
  let ?w = "w\<lparr>w_buf := w_buf w @ take (bw_Available w) p\<rparr>"
  have "good ?w" using w by (auto simp: good_def bw_Available_def)
  from Flush_eq [OF this] w show "fst (bw_Write p w) = None \<and> good (snd (bw_Write p w)) \<and> stream (snd (bw_Write p w)) = stream w @ p \<and>
      w_size (snd (bw_Write p w)) = w_size w"
    by (auto simp: bw_Write_def wthen_def good_def stream_def conn_write_def Let_def bw_Available_def)
qed

lemma writes_bytes: "writes (write_bytes p) p"
proof (induction p)
  case (Cons c p)
  have "write_bytes (c # p) = (\<lambda>w. wthen (bw_WriteByte c w) (write_bytes p))" by (rule ext) simp
  then show ?case using writes_wthen [OF writes_WriteByte Cons, of c] by simp
qed (simp add: writes_def)

definition frame :: "byte \<Rightarrow> bytes \<Rightarrow> bytes" where
  "frame t b = t # be_bytes 4 (of_nat (length b) :: u32) @ b"

lemma writes_header: "writes (writeFrameHeader t n) (t # be_bytes 4 n)"
proof -
  have "writeFrameHeader t n = (\<lambda>w. wthen (bw_WriteByte t w) (write_bytes (be_bytes 4 n)))"
    by (rule ext) (simp add: writeFrameHeader_def writeUint32_def [abs_def])
  then show ?thesis using writes_wthen [OF writes_WriteByte writes_bytes, of t "be_bytes 4 n"] by simp
qed

lemma writes_frame:
  assumes "length b \<le> 10 * 2 ^ 20"
  shows "writes (writeFrame t b) (frame t b)"
proof -
  have "writeFrame t b = (\<lambda>w. wthen (writeFrameHeader t (of_nat (length b)) w) (\<lambda>w. wthen (bw_Write b w) bw_Flush))"
    using assms by (intro ext) (simp add: writeFrame_def)
  then show ?thesis
    using writes_wthen [OF writes_header [of t "of_nat (length b)"] writes_wthen [OF writes_Write writes_Flush, of b]]
    by (simp add: frame_def)
qed

subsection \<open>What a reader reads\<close>

lemma read_bytes_append: "length p = n \<Longrightarrow> read_bytes n (p @ rest) = Inr (p, rest)"
  by (induction p arbitrary: n) auto

lemma read_bytes_total: "read_bytes n br = (if n \<le> length br then Inr (take n br, drop n br) else Inl EOF)"
proof (induction n arbitrary: br)
  case (Suc n)
  then show ?case by (cases br) auto
qed simp

lemma readFrameHeader_eq: "readFrameHeader (t # be_bytes 4 n @ rest) = Inr ((t, n), rest)"
  using read_bytes_append [of "be_bytes 4 n" 4 rest] by (simp add: readFrameHeader_def readUint32_def)

lemma readFrameHeader_total:
  "readFrameHeader br = (if 5 \<le> length br then Inr ((br ! 0, be_word (take 4 (drop 1 br))), drop 5 br) else Inl EOF)"
  by (cases br) (auto simp: readFrameHeader_def readUint32_def read_bytes_total)

lemma readFrameHeader_frame: "readFrameHeader (frame t b @ rest) = Inr ((t, of_nat (length b)), b @ rest)"
  by (simp add: frame_def readFrameHeader_eq)

lemma ReadFull_append [simp]: "length p = n \<Longrightarrow> ReadFull n (p @ rest) = Inr (p, rest)"
  by (auto simp: ReadFull_def)

lemma Discard_append [simp]: "length p = n \<Longrightarrow> Discard n (p @ rest) = Inr rest"
  by (auto simp: Discard_def)

lemma unat_len: "n < 2 ^ 32 \<Longrightarrow> unat (of_nat n :: u32) = n"
  by (simp add: unat_of_nat take_bit_nat_eq_self)

text \<open>
  A frame is read back as it was written, whatever follows it: its type, its length and as much of it as the buffer holds, with
  \<open>ErrShortBuffer\<close> exactly if that is not all of it.
\<close>

lemma readFrame_frame:
  assumes "length b < 2 ^ 32" "length b \<le> unat maxSize"
  shows "readFrame maxSize n (frame t b @ rest) =
    Inr ((t, of_nat (length b), take n b, if length b \<le> n then None else Some ErrShortBuffer), rest)"
proof -
  have len: "unat (of_nat (length b) :: u32) = length b" using unat_len assms(1) .
  then have "\<not> (of_nat (length b) :: u32) > maxSize" using assms(2) by (simp add: word_less_nat_alt)
  moreover have "ReadFull (min (length b) n) (b @ rest) = Inr (take n b, drop n b @ rest)"
    by (cases "n \<le> length b") (auto simp: ReadFull_def min_def)
  moreover have "Discard (length b - n) (drop n b @ rest) = Inr rest" by simp
  ultimately show ?thesis using len by (auto simp: readFrame_def readFrameHeader_frame min_def)
qed

end
