(* ===== verification/Derp_Client.thy ===== *)
theory Derp_Client
  imports Derp_Frame Disco
begin

section \<open>Package \<open>derp\<close>: the client\<close>

text \<open>
  \<open>src/derp/derp_client.go\<close>, with the boxes of \<open>src/types/key/node.go\<close> that it uses. Packages outside the repository are a record: the curve and the
  boxes of NaCl, the rate limiter of \<open>golang.org/x/time/rate\<close>, and the JSON forms of the two greetings, of which only the round
  trip matters. The deadlines of the connection are not modelled: a connection that is silent for too
  long is one whose bytes have come to an end. \<open>None\<close> is a panic. A lock around an operation makes it one step.
\<close>

record clientInfo =
  ci_Version :: int
  ci_MeshKey :: string
  ci_CanAckPings :: bool
  ci_IsProber :: bool

record serverInfo =
  si_Version :: int
  si_TokenBucketBytesPerSecond :: int
  si_TokenBucketBytesBurst :: int

record 'r dlib =
  d_Public :: "bytes \<Rightarrow> bytes"
  d_box_Seal :: "bytes \<Rightarrow> bytes \<Rightarrow> bytes \<Rightarrow> bytes \<Rightarrow> bytes"
  d_box_Open :: "bytes \<Rightarrow> bytes \<Rightarrow> bytes \<Rightarrow> bytes \<Rightarrow> bytes option"
  d_json_clientInfo :: "clientInfo \<Rightarrow> bytes"
  d_json_Unmarshal_clientInfo :: "bytes \<Rightarrow> clientInfo option"
  d_json_serverInfo :: "serverInfo \<Rightarrow> bytes"
  d_json_Unmarshal_serverInfo :: "bytes \<Rightarrow> serverInfo option"
  d_NewLimiter :: "int \<Rightarrow> int \<Rightarrow> 'r"
  d_AllowN :: "'r \<Rightarrow> int \<Rightarrow> int \<Rightarrow> bool \<times> 'r"

text \<open>The boxes: a nonce of 24 bytes, which the system's randomness provides, and the box of NaCl.\<close>

definition NodePrivate_Public :: "'r dlib \<Rightarrow> bytes \<Rightarrow> bytes option" where
  "NodePrivate_Public D k = (if NodeKey_IsZero k then None else Some (d_Public D k))"

definition SealTo :: "'r dlib \<Rightarrow> bytes \<Rightarrow> bytes \<Rightarrow> bytes \<Rightarrow> bytes \<Rightarrow> bytes option" where
  "SealTo D nonce k p cleartext =
     (if NodeKey_IsZero k \<or> NodeKey_IsZero p then None else Some (nonce @ d_box_Seal D cleartext nonce p k))"

definition OpenFrom :: "'r dlib \<Rightarrow> bytes \<Rightarrow> bytes \<Rightarrow> bytes \<Rightarrow> bytes option option" where
  "OpenFrom D k p ciphertext =
     (if NodeKey_IsZero k \<or> NodeKey_IsZero p then None
      else if length ciphertext < 24 then Some None
      else Some (d_box_Open D (drop 24 ciphertext) (take 24 ciphertext) p k))"

record 'r Client =
  cl_serverKey :: bytes
  cl_privateKey :: bytes
  cl_publicKey :: bytes
  cl_br :: bytes
  cl_brSize :: nat
  cl_meshKey :: string
  cl_canAckPings :: bool
  cl_isProber :: bool
  cl_bw :: bufw
  cl_rate :: "'r option"
  cl_peeked :: nat
  cl_readErr :: "ferr option"

record clientOpt =
  opt_MeshKey :: string
  opt_ServerPub :: bytes
  opt_CanAckPings :: bool
  opt_IsProber :: bool

subsection \<open>Greeting\<close>

definition recvServerKey :: "'r Client \<Rightarrow> ferr + 'r Client" where
  "recvServerKey c =
     sbind (readFrame 1024 40 (cl_br c)) (\<lambda>((t, flen, buf, short), br).
     if flen < 40 \<or> t \<noteq> frameServerKey \<or> take (length derp_magic) buf \<noteq> derp_magic
     then Inl (ErrMsg ''invalid server greeting'')
     else Inr (c\<lparr>cl_serverKey := drop (length derp_magic) buf, cl_br := br\<rparr>))"

definition parseServerInfo :: "'r dlib \<Rightarrow> 'r Client \<Rightarrow> bytes \<Rightarrow> (ferr + serverInfo) option" where
  "parseServerInfo D c b =
     (if length b < nonceLen then Some (Inl (ErrMsg ''short serverInfo frame''))
      else if length b > nonceLen + maxInfoLen then Some (Inl (ErrMsg ''long serverInfo frame''))
      else do {
        r \<leftarrow> OpenFrom D (cl_privateKey c) (cl_serverKey c) b;
        Some (case r of None \<Rightarrow> Inl (ErrMsg ''failed to open naclbox'')
          | Some msg \<Rightarrow> (case d_json_Unmarshal_serverInfo D msg of
              None \<Rightarrow> Inl (ErrMsg ''invalid JSON'') | Some info \<Rightarrow> Inr info)) })"

definition sendClientKey :: "'r dlib \<Rightarrow> bytes \<Rightarrow> 'r Client \<Rightarrow> (ferr option \<times> 'r Client) option" where
  "sendClientKey D nonce c = do {
     let msg = d_json_clientInfo D \<lparr>ci_Version = ProtocolVersion, ci_MeshKey = cl_meshKey c,
       ci_CanAckPings = cl_canAckPings c, ci_IsProber = cl_isProber c\<rparr>;
     msgbox \<leftarrow> SealTo D nonce (cl_privateKey c) (cl_serverKey c) msg;
     let (e, w) = writeFrame frameClientInfo (cl_publicKey c @ msgbox) (cl_bw c);
     Some (e, c\<lparr>cl_bw := w\<rparr>) }"

definition newClient :: "'r dlib \<Rightarrow> bytes \<Rightarrow> bytes \<Rightarrow> bytes \<Rightarrow> nat \<Rightarrow> bufw \<Rightarrow> clientOpt \<Rightarrow> (ferr + 'r Client) option" where
  "newClient D nonce privateKey br brSize bw opt = do {
     pub \<leftarrow> NodePrivate_Public D privateKey;
     let c = \<lparr>cl_serverKey = replicate 32 0, cl_privateKey = privateKey, cl_publicKey = pub, cl_br = br, cl_brSize = brSize,
       cl_meshKey = opt_MeshKey opt, cl_canAckPings = opt_CanAckPings opt, cl_isProber = opt_IsProber opt,
       cl_bw = bw, cl_rate = None, cl_peeked = 0, cl_readErr = None\<rparr>;
     (case (if NodeKey_IsZero (opt_ServerPub opt) then recvServerKey c else Inr (c\<lparr>cl_serverKey := opt_ServerPub opt\<rparr>)) of
        Inl e \<Rightarrow> Some (Inl e)
      | Inr c \<Rightarrow> do {
          (e, c) \<leftarrow> sendClientKey D nonce c;
          Some (case e of Some e \<Rightarrow> Inl e | None \<Rightarrow> Inr c) }) }"

subsection \<open>Sending\<close>

definition on_bw :: "(bufw \<Rightarrow> wres) \<Rightarrow> 'r Client \<Rightarrow> ferr option \<times> 'r Client" where
  "on_bw f c = (case f (cl_bw c) of (e, w) \<Rightarrow> (e, c\<lparr>cl_bw := w\<rparr>))"

definition Client_send :: "'r dlib \<Rightarrow> int \<Rightarrow> bytes \<Rightarrow> bytes \<Rightarrow> 'r Client \<Rightarrow> ferr option \<times> 'r Client" where
  "Client_send D now dstKey pkt c =
     (if length pkt > MaxPacketSize then (Some (ErrMsg ''packet too big''), c)
      else let (ok, c) = (case cl_rate c of None \<Rightarrow> (True, c)
             | Some r \<Rightarrow> (case d_AllowN D r now (int (frameHeaderLen + rawKeyLen + length pkt)) of
                 (ok, r) \<Rightarrow> (ok, c\<lparr>cl_rate := Some r\<rparr>)))
        in if \<not> ok then (None, c)
        else on_bw (\<lambda>w. wthen (writeFrameHeader frameSendPacket (of_nat (rawKeyLen + length pkt)) w) (\<lambda>w.
                        wthen (bw_Write dstKey w) (\<lambda>w.
                        wthen (bw_Write pkt w) bw_Flush))) c)"

definition Client_ForwardPacket :: "bytes \<Rightarrow> bytes \<Rightarrow> bytes \<Rightarrow> 'r Client \<Rightarrow> ferr option \<times> 'r Client" where
  "Client_ForwardPacket srcKey dstKey pkt c =
     (if length pkt > MaxPacketSize then (Some (ErrMsg ''packet too big''), c)
      else on_bw (\<lambda>w. wthen (writeFrameHeader frameForwardPacket (of_nat (keyLen * 2 + length pkt)) w) (\<lambda>w.
                      wthen (bw_Write srcKey w) (\<lambda>w.
                      wthen (bw_Write dstKey w) (\<lambda>w.
                      wthen (bw_Write pkt w) bw_Flush)))) c)"

definition sendPingOrPong :: "byte \<Rightarrow> bytes \<Rightarrow> 'r Client \<Rightarrow> ferr option \<times> 'r Client" where
  "sendPingOrPong typ data = on_bw (\<lambda>w. wthen (writeFrameHeader typ 8 w) (\<lambda>w. wthen (bw_Write data w) bw_Flush))"

definition SendPing :: "bytes \<Rightarrow> 'r Client \<Rightarrow> ferr option \<times> 'r Client" where
  "SendPing = sendPingOrPong framePing"

definition SendPong :: "bytes \<Rightarrow> 'r Client \<Rightarrow> ferr option \<times> 'r Client" where
  "SendPong = sendPingOrPong framePong"

definition NotePreferred :: "bool \<Rightarrow> 'r Client \<Rightarrow> ferr option \<times> 'r Client" where
  "NotePreferred preferred =
     on_bw (\<lambda>w. wthen (writeFrameHeader frameNotePreferred 1 w) (\<lambda>w.
                wthen (bw_WriteByte (if preferred then 0x01 else 0x00) w) bw_Flush))"

definition WatchConnectionChanges :: "'r Client \<Rightarrow> ferr option \<times> 'r Client" where
  "WatchConnectionChanges = on_bw (\<lambda>w. wthen (writeFrameHeader frameWatchConns 0 w) bw_Flush)"

definition ClosePeer :: "bytes \<Rightarrow> 'r Client \<Rightarrow> ferr option \<times> 'r Client" where
  "ClosePeer target = on_bw (writeFrame frameClosePeer target)"

subsection \<open>Receiving\<close>

datatype ReceivedMessage =
    ReceivedPacket bytes bytes
  | PeerGoneMessage bytes byte
  | PeerPresentMessage bytes addrport
  | ServerInfoMessage int int
  | PingMessage bytes
  | PongMessage bytes
  | KeepAliveMessage
  | HealthMessage bytes
  | ServerRestartingMessage int int

datatype rstep = Continue | Return "ferr + ReceivedMessage"

definition setSendRateLimiter :: "'r dlib \<Rightarrow> int \<Rightarrow> int \<Rightarrow> 'r Client \<Rightarrow> 'r Client" where
  "setSendRateLimiter D perSecond burst c =
     c\<lparr>cl_rate := if perSecond = 0 then None else Some (d_NewLimiter D perSecond burst)\<rparr>"

text \<open>The switch over the frame type.\<close>

definition recv_frame :: "'r dlib \<Rightarrow> byte \<Rightarrow> bytes \<Rightarrow> 'r Client \<Rightarrow> (rstep \<times> 'r Client) option" where
  "recv_frame D t b c =
     (let n = length b in
      if t = frameServerInfo then do {
        si \<leftarrow> parseServerInfo D c b;
        Some (case si of Inl e \<Rightarrow> (Return (Inl e), c)
          | Inr si \<Rightarrow> (Return (Inr (ServerInfoMessage (si_TokenBucketBytesPerSecond si) (si_TokenBucketBytesBurst si))),
              setSendRateLimiter D (si_TokenBucketBytesPerSecond si) (si_TokenBucketBytesBurst si) c)) }
      else if t = frameKeepAlive then Some (Return (Inr KeepAliveMessage), c)
      else if t = framePeerGone then
        (if n < keyLen then Some (Continue, c)
         else Some (Return (Inr (PeerGoneMessage (take keyLen b)
           (if n > keyLen then b ! keyLen else PeerGoneReasonDisconnected))), c))
      else if t = framePeerPresent then
        (if n < keyLen then Some (Continue, c)
         else Some (Return (Inr (PeerPresentMessage (take keyLen b)
           (if n \<ge> keyLen + 16 + 2
            then AddrPortFrom (Unmap (AddrFrom16 (take 16 (drop keyLen b)))) (be_word (take 2 (drop (keyLen + 16) b)))
            else zeroAddrPort))), c))
      else if t = frameRecvPacket then
        (if n < keyLen then Some (Continue, c)
         else Some (Return (Inr (ReceivedPacket (take keyLen b) (drop keyLen b))), c))
      else if t = framePing then
        (if n < 8 then Some (Continue, c) else Some (Return (Inr (PingMessage (take 8 b))), c))
      else if t = framePong then
        (if n < 8 then Some (Continue, c) else Some (Return (Inr (PongMessage (take 8 b))), c))
      else if t = frameHealth then Some (Return (Inr (HealthMessage b)), c)
      else if t = frameRestarting then
        (if n < 8 then Some (Continue, c)
         else Some (Return (Inr (ServerRestartingMessage (uint (be_word (take 4 b) :: u32) * 1000000)
           (uint (be_word (take 4 (drop 4 b)) :: u32) * 1000000))), c))
      else Some (Continue, c))"

text \<open>One round of the loop: a frame that fits into the buffer of the reader is only peeked at, and discarded in the next round.\<close>

definition recv_next :: "'r dlib \<Rightarrow> 'r Client \<Rightarrow> (rstep \<times> 'r Client) option" where
  "recv_next D c =
     (case Discard (cl_peeked c) (cl_br c) of
        Inl e \<Rightarrow> Some (Return (Inl e), c)
      | Inr br \<Rightarrow>
        (case readFrameHeader br of
           Inl e \<Rightarrow> Some (Return (Inl e), c\<lparr>cl_peeked := 0, cl_br := br\<rparr>)
         | Inr ((t, n), br) \<Rightarrow>
           let c = c\<lparr>cl_peeked := 0, cl_br := br\<rparr> in
           if n > 2 ^ 20 then Some (Return (Inl (ErrMsg ''unexpectedly large frame'')), c)
           else if unat n \<le> cl_brSize c then
             (let c = c\<lparr>cl_peeked := unat n\<rparr> in
              if unat n \<le> length br then recv_frame D t (take (unat n) br) c else Some (Return (Inl EOF), c))
           else (case ReadFull (unat n) br of
               Inl e \<Rightarrow> Some (Return (Inl e), c)
             | Inr (b, br) \<Rightarrow> recv_frame D t b (c\<lparr>cl_br := br\<rparr>))))"

lemma recv_frame_br: "recv_frame D t b c = Some (s, c') \<Longrightarrow> cl_br c' = cl_br c"
  by (cases "parseServerInfo D c b"; cases "the (parseServerInfo D c b)")
    (auto simp: recv_frame_def setSendRateLimiter_def Let_def split: if_split_asm)

lemma recv_next_shrinks:
  assumes "recv_next D c = Some (Continue, c')"
  shows "length (cl_br c') < length (cl_br c)"
proof -
  obtain br where br: "Discard (cl_peeked c) (cl_br c) = Inr br" using assms by (auto simp: recv_next_def split: sum.splits)
  then have le: "length br \<le> length (cl_br c)" by (auto simp: Discard_def split: if_splits)
  obtain t n br' where h: "readFrameHeader br = Inr ((t, n), br')" using assms br by (auto simp: recv_next_def split: sum.splits)
  then have lt: "length br' < length br" by (auto simp: readFrameHeader_total split: if_splits)
  have "length (cl_br c') \<le> length br'"
    using assms br h by (auto simp: recv_next_def Let_def ReadFull_def split: if_splits dest!: recv_frame_br)
  then show ?thesis using le lt by simp
qed

function recv_loop :: "'r dlib \<Rightarrow> 'r Client \<Rightarrow> ((ferr + ReceivedMessage) \<times> 'r Client) option" where
  "recv_loop D c = (case recv_next D c of
       None \<Rightarrow> None
     | Some (Return r, c) \<Rightarrow> Some (r, c)
     | Some (Continue, c) \<Rightarrow> recv_loop D c)"
  by pat_completeness auto
termination
  by (relation "measure (\<lambda>(D, c). length (cl_br c))") (auto dest: recv_next_shrinks)

declare recv_loop.simps [simp del]

definition recvTimeout :: "'r dlib \<Rightarrow> 'r Client \<Rightarrow> ((ferr + ReceivedMessage) \<times> 'r Client) option" where
  "recvTimeout D c = (case cl_readErr c of
       Some e \<Rightarrow> Some (Inl e, c)
     | None \<Rightarrow> do {
         (r, c) \<leftarrow> recv_loop D c;
         Some (r, case r of Inl e \<Rightarrow> c\<lparr>cl_readErr := Some e\<rparr> | Inr m \<Rightarrow> c) })"

subsection \<open>What the client writes\<close>

lemma writes_two: "writes f p \<Longrightarrow> writes g q \<Longrightarrow> r = p @ q \<Longrightarrow> writes (\<lambda>w. wthen (f w) g) r"
  by (simp add: writes_wthen)

lemma frame_header: "frame t b = (t # be_bytes 4 (of_nat (length b) :: u32)) @ b"
  by (simp add: frame_def)

lemma writes_parts:
  "n = of_nat (length b) \<Longrightarrow> writes f b \<Longrightarrow> writes (\<lambda>w. wthen (writeFrameHeader t n w) f) (frame t b)"
  using writes_wthen [OF writes_header] by (simp only: frame_header)

lemma on_bw_writes:
  assumes "writes f p" "good (cl_bw c)"
  shows "\<exists>w. on_bw f c = (None, c\<lparr>cl_bw := w\<rparr>) \<and> good w \<and> stream w = stream (cl_bw c) @ p"
  using writesD [OF assms] by (auto simp: on_bw_def)

lemma writes_Flush_last: "writes f p \<Longrightarrow> writes (\<lambda>w. wthen (f w) bw_Flush) p"
  using writes_wthen [OF _ writes_Flush] by simp

lemma send_writes:
  assumes "length dstKey = 32" "length pkt \<le> MaxPacketSize" "good (cl_bw c)" "cl_rate c = None"
  shows "\<exists>w. Client_send D now dstKey pkt c = (None, c\<lparr>cl_bw := w\<rparr>) \<and> good w \<and>
    stream w = stream (cl_bw c) @ frame frameSendPacket (dstKey @ pkt)"
proof -
  have "writes (\<lambda>w. wthen (writeFrameHeader frameSendPacket (of_nat (rawKeyLen + length pkt)) w) (\<lambda>w.
      wthen (bw_Write dstKey w) (\<lambda>w. wthen (bw_Write pkt w) bw_Flush))) (frame frameSendPacket (dstKey @ pkt))"
    using assms(1) by (intro writes_parts writes_wthen writes_Write writes_Flush_last) simp
  from on_bw_writes [OF this assms(3)] show ?thesis using assms(2,4) by (simp add: Client_send_def)
qed

lemma ForwardPacket_writes:
  assumes "length srcKey = 32" "length dstKey = 32" "length pkt \<le> MaxPacketSize" "good (cl_bw c)"
  shows "\<exists>w. Client_ForwardPacket srcKey dstKey pkt c = (None, c\<lparr>cl_bw := w\<rparr>) \<and> good w \<and>
    stream w = stream (cl_bw c) @ frame frameForwardPacket (srcKey @ dstKey @ pkt)"
proof -
  have "writes (\<lambda>w. wthen (writeFrameHeader frameForwardPacket (of_nat (keyLen * 2 + length pkt)) w) (\<lambda>w.
      wthen (bw_Write srcKey w) (\<lambda>w. wthen (bw_Write dstKey w) (\<lambda>w. wthen (bw_Write pkt w) bw_Flush))))
      (frame frameForwardPacket (srcKey @ dstKey @ pkt))"
    using assms(1,2) by (intro writes_parts writes_wthen writes_Write writes_Flush_last) simp
  from on_bw_writes [OF this assms(4)] show ?thesis using assms(3) by (simp add: Client_ForwardPacket_def)
qed

subsection \<open>What the client receives\<close>

text \<open>The input that is still to be read, with the frame that was only peeked at taken off.\<close>

definition pending :: "'r Client \<Rightarrow> bytes" where
  "pending c = drop (cl_peeked c) (cl_br c)"

definition Client_ok :: "'r Client \<Rightarrow> bool" where
  "Client_ok c \<longleftrightarrow> cl_peeked c \<le> length (cl_br c) \<and> cl_readErr c = None"

lemma recv_next_frame:
  assumes "cl_peeked c \<le> length (cl_br c)" "pending c = frame t b @ rest" "length b \<le> 2 ^ 20"
  obtains c1 where "recv_next D c = recv_frame D t b c1" "pending c1 = rest" "cl_peeked c1 \<le> length (cl_br c1)"
    "cl_readErr c1 = cl_readErr c" "cl_privateKey c1 = cl_privateKey c" "cl_serverKey c1 = cl_serverKey c"
proof -
  have d: "Discard (cl_peeked c) (cl_br c) = Inr (frame t b @ rest)" using assms(1,2) by (simp add: Discard_def pending_def)
  have len: "unat (of_nat (length b) :: u32) = length b" using assms(3) by (intro unat_len) simp
  then have "\<not> (of_nat (length b) :: u32) > 2 ^ 20" using assms(3) by (simp add: word_less_nat_alt)
  then have r: "recv_next D c = recv_frame D t b
      (if length b \<le> cl_brSize c then c\<lparr>cl_br := b @ rest, cl_peeked := length b\<rparr> else c\<lparr>cl_peeked := 0, cl_br := rest\<rparr>)"
    using len by (auto simp: recv_next_def d readFrameHeader_frame Let_def)
  show thesis by (rule that [OF r]) (auto simp: pending_def)
qed

lemma recvTimeout_frame:
  assumes "Client_ok c" "pending c = frame t b @ rest" "length b \<le> 2 ^ 20" "t \<noteq> frameServerInfo"
    and "\<And>c. recv_frame D t b c = Some (Return (Inr m), c)"
  shows "\<exists>c'. recvTimeout D c = Some (Inr m, c') \<and> Client_ok c' \<and> pending c' = rest"
proof -
  obtain c1 where "recv_next D c = recv_frame D t b c1" "pending c1 = rest" "cl_peeked c1 \<le> length (cl_br c1)" "cl_readErr c1 = cl_readErr c"
    using recv_next_frame assms(1-3) by (metis Client_ok_def)
  then show ?thesis using assms(1,5) by (simp add: recvTimeout_def Client_ok_def recv_loop.simps)
qed

lemma recv_packet:
  assumes "Client_ok c" "pending c = frame frameRecvPacket (src @ data) @ rest" "length src = 32" "length data \<le> MaxPacketSize"
  shows "\<exists>c'. recvTimeout D c = Some (Inr (ReceivedPacket src data), c') \<and> Client_ok c' \<and> pending c' = rest"
  using assms by (intro recvTimeout_frame) (auto simp: recv_frame_def)

end
