(* ===== verification/Derp_Server.thy ===== *)
theory Derp_Server
  imports Derp_Client Rate "HOL-Library.AList"
begin

section \<open>Package \<open>derp\<close>: the relay server\<close>

text \<open>
  \<open>src/derp/derp_server.go\<close>. The state of the server with that of its connections: a pointer to a \<open>sclient\<close> is its connection number, which
  the code never uses twice, and \<open>s_conns\<close> is what the pointers point at. Go maps that the code iterates over are association
  lists, whose order stands for an iteration order. The counters are one function. A request that a goroutine waits
  to hand to the sender of a connection (\<open>go c.requestPeerGoneWrite\<close>, \<open>go c.requestMeshUpdate\<close>) is kept with the connection until the sender
  takes it. What is handed to a packet forwarder, a client of another server, is logged in \<open>s_forwarded\<close>. The average queue time,
  a number in floating point for display, is left out. \<open>None\<close> is a panic.
\<close>

subsection \<open>State\<close>

type_synonym conn = nat
type_synonym nodekey = bytes

datatype dupPolicy = lastWriterIsActive | disableFighters

datatype dropReason = dropReasonUnknownDest | dropReasonUnknownDestOnFwd | dropReasonGoneDisconnected
  | dropReasonQueueHead | dropReasonQueueTail | dropReasonWriteError | dropReasonDupClient

datatype counter = packetsSent | bytesSent | packetsRecv | bytesRecv | packetsRecvDisco | packetsRecvOther
  | packetsDropped | packetsDroppedReason dropReason | packetsDroppedTypeDisco | packetsDroppedTypeOther
  | packetsForwardedOut | packetsForwardedIn | peerGoneDisconnectedFrames | peerGoneNotHereFrames
  | gotPing | sentPong | curClients | curHomeClients | dupClientKeys | dupClientConns | dupClientConnTotal
  | homeMovesIn | homeMovesOut | multiForwarderCreated | multiForwarderDeleted | removePktForwardOther

record peerConnState =
  pcs_peer :: nodekey
  pcs_present :: bool
  pcs_ipPort :: addrport

record pkt =
  p_src :: nodekey
  p_enqueuedAt :: int
  p_bs :: bytes

record sclient =
  sc_key :: nodekey
  sc_remoteIPPort :: addrport
  sc_sendQueue :: "pkt list"
  sc_discoSendQueue :: "pkt list"
  sc_sendPongCh :: "bytes option"
  sc_peerGone :: "(nodekey \<times> byte) list"
  sc_meshUpdate :: nat
  sc_canMesh :: bool
  sc_isDup :: bool
  sc_isDisabled :: bool
  sc_connectedAt :: int
  sc_preferred :: bool
  sc_bw :: bufw
  sc_peerStateChange :: "peerConnState list"
  sc_peerGoneLim :: Limiter
  sc_done :: bool
  sc_closed :: bool

record dupClientSet =
  ds_set :: "conn list"
  ds_last :: "conn option"
  ds_sendHistory :: "conn list"

datatype clientSet = singleClient conn | dupClients dupClientSet

type_synonym fwdid = nat

record multiForwarder =
  mf_fwd :: fwdid
  mf_all :: "(fwdid \<times> byte) list"

datatype PacketForwarder = Fwd fwdid | MultiFwd multiForwarder

record Server =
  s_privateKey :: bytes
  s_publicKey :: nodekey
  s_meshKey :: string
  s_dupPolicy :: dupPolicy
  s_count :: "counter \<Rightarrow> int"
  s_conns :: "conn \<Rightarrow> sclient"
  s_clients :: "(nodekey \<times> clientSet) list"
  s_watchers :: "conn set"
  s_clientsMesh :: "(nodekey \<times> PacketForwarder option) list"
  s_sentTo :: "nodekey \<Rightarrow> (nodekey \<times> conn) list option"
  s_keyOfAddr :: "addrport \<Rightarrow> nodekey option"
  s_forwarded :: "(fwdid \<times> nodekey \<times> nodekey \<times> bytes) list"

definition perClientSendQueueDepth :: nat where [simp]: "perClientSendQueueDepth = 32"

definition count_Add :: "counter \<Rightarrow> int \<Rightarrow> Server \<Rightarrow> Server" where
  "count_Add v n s = s\<lparr>s_count := (s_count s)(v := s_count s v + n)\<rparr>"

definition upd_conn :: "conn \<Rightarrow> (sclient \<Rightarrow> sclient) \<Rightarrow> Server \<Rightarrow> Server" where
  "upd_conn c f s = s\<lparr>s_conns := (s_conns s)(c := f (s_conns s c))\<rparr>"

subsection \<open>Client sets\<close>

fun ActiveClient :: "Server \<Rightarrow> clientSet \<Rightarrow> conn option" where
  "ActiveClient s (singleClient c) = Some c"
| "ActiveClient s (dupClients d) = (case ds_last d of
     Some c \<Rightarrow> if \<not> sc_isDisabled (s_conns s c) then Some c else None | None \<Rightarrow> None)"

fun ForeachClient :: "clientSet \<Rightarrow> conn list" where
  "ForeachClient (singleClient c) = [c]"
| "ForeachClient (dupClients d) = ds_set d"

fun clientSet_Len :: "clientSet \<Rightarrow> nat" where
  "clientSet_Len (singleClient c) = 1"
| "clientSet_Len (dupClients d) = length (ds_set d)"

fun trim_loop :: "conn list \<Rightarrow> conn list \<Rightarrow> conn list \<Rightarrow> conn list" where
  "trim_loop st trim [] = trim"
| "trim_loop st trim (v # vs) =
     trim_loop st (if v \<in> set st \<and> (length trim = 0 \<or> last trim \<noteq> v) then trim @ [v] else trim) vs"

definition removeClient :: "conn \<Rightarrow> dupClientSet \<Rightarrow> bool \<times> dupClientSet" where
  "removeClient c d =
     (let n = length (ds_set d);
          d = d\<lparr>ds_set := removeAll c (ds_set d)\<rparr>;
          d = (if ds_last d = Some c then d\<lparr>ds_last := None\<rparr> else d)
      in if length (ds_set d) = n then (False, d)
         else let trim = trim_loop (ds_set d) [] (ds_sendHistory d);
                  d = d\<lparr>ds_sendHistory := trim\<rparr>
              in (True, if ds_last d = None \<and> length trim > 0 then d\<lparr>ds_last := Some (last trim)\<rparr> else d))"

subsection \<open>Registration\<close>

definition requestMeshUpdate :: "conn \<Rightarrow> Server \<Rightarrow> Server option" where
  "requestMeshUpdate c s =
     (if \<not> sc_canMesh (s_conns s c) then None
      else Some (upd_conn c (\<lambda>x. x\<lparr>sc_meshUpdate := sc_meshUpdate x + 1\<rparr>) s))"

definition broadcastPeerStateChangeLocked :: "nodekey \<Rightarrow> addrport \<Rightarrow> bool \<Rightarrow> Server \<Rightarrow> Server option" where
  "broadcastPeerStateChangeLocked peer ipPort present s =
     (if \<exists>w\<in>s_watchers s. \<not> sc_canMesh (s_conns s w) then None
      else Some (s\<lparr>s_conns := (\<lambda>w. let x = s_conns s w in
        if w \<in> s_watchers s
        then x\<lparr>sc_peerStateChange := sc_peerStateChange x @ [\<lparr>pcs_peer = peer, pcs_present = present, pcs_ipPort = ipPort\<rparr>],
               sc_meshUpdate := sc_meshUpdate x + 1\<rparr>
        else x)\<rparr>))"

definition register_set :: "conn \<Rightarrow> Server \<Rightarrow> Server" where
  "register_set c s =
     (let k = sc_key (s_conns s c) in
      case map_of (s_clients s) k of
          None \<Rightarrow> s\<lparr>s_clients := AList.update k (singleClient c) (s_clients s)\<rparr>
        | Some (singleClient old) \<Rightarrow>
            let s = count_Add dupClientKeys 1 s;
                s = count_Add dupClientConns 2 s;
                s = count_Add dupClientConnTotal 1 s;
                s = upd_conn old (\<lambda>x. x\<lparr>sc_isDup := True\<rparr>) s;
                s = upd_conn c (\<lambda>x. x\<lparr>sc_isDup := True\<rparr>) s
            in s\<lparr>s_clients := AList.update k (dupClients
                  \<lparr>ds_set = List.insert old [c], ds_last = Some c, ds_sendHistory = [old]\<rparr>) (s_clients s)\<rparr>
        | Some (dupClients d) \<Rightarrow>
            let s = count_Add dupClientConns 1 s;
                s = count_Add dupClientConnTotal 1 s;
                s = upd_conn c (\<lambda>x. x\<lparr>sc_isDup := True\<rparr>) s
            in s\<lparr>s_clients := AList.update k (dupClients
                  \<lparr>ds_set = List.insert c (ds_set d), ds_last = Some c, ds_sendHistory = ds_sendHistory d @ [c]\<rparr>) (s_clients s)\<rparr>)"

definition registerClient :: "conn \<Rightarrow> Server \<Rightarrow> Server option" where
  "registerClient c s =
     (let k = sc_key (s_conns s c);
          s = register_set c s;
          s = (if map_of (s_clientsMesh s) k = None then s\<lparr>s_clientsMesh := AList.update k None (s_clientsMesh s)\<rparr> else s);
          s = s\<lparr>s_keyOfAddr := (s_keyOfAddr s)(sc_remoteIPPort (s_conns s c) := Some k)\<rparr>;
          s = count_Add curClients 1 s
      in broadcastPeerStateChangeLocked k (sc_remoteIPPort (s_conns s c)) True s)"

definition requestPeerGoneWrite :: "conn \<Rightarrow> nodekey \<Rightarrow> byte \<Rightarrow> Server \<Rightarrow> Server" where
  "requestPeerGoneWrite c peer reason = upd_conn c (\<lambda>x. if sc_done x then x else x\<lparr>sc_peerGone := sc_peerGone x @ [(peer, reason)]\<rparr>)"

fun gone_clients :: "nodekey \<Rightarrow> conn \<Rightarrow> conn list \<Rightarrow> Server \<Rightarrow> Server" where
  "gone_clients key connNum [] s = s"
| "gone_clients key connNum (peer # ps) s =
     gone_clients key connNum ps (if peer = connNum then requestPeerGoneWrite peer key PeerGoneReasonDisconnected s else s)"

fun gone_loop :: "nodekey \<Rightarrow> (nodekey \<times> conn) list \<Rightarrow> Server \<Rightarrow> Server" where
  "gone_loop key [] s = s"
| "gone_loop key ((pubKey, connNum) # m) s =
     gone_loop key m (case map_of (s_clients s) pubKey of
         None \<Rightarrow> s | Some st \<Rightarrow> gone_clients key connNum (ForeachClient st) s)"

definition notePeerGoneFromRegionLocked :: "nodekey \<Rightarrow> Server \<Rightarrow> Server option" where
  "notePeerGoneFromRegionLocked key s =
     (if map_of (s_clientsMesh s) key \<noteq> None then None
      else let s = gone_loop key (case s_sentTo s key of None \<Rightarrow> [] | Some m \<Rightarrow> m) s
           in Some (s\<lparr>s_sentTo := (s_sentTo s)(key := None)\<rparr>))"

definition unregister_set :: "conn \<Rightarrow> Server \<Rightarrow> Server option" where
  "unregister_set c s =
     (let k = sc_key (s_conns s c) in
      case map_of (s_clients s) k of
         None \<Rightarrow> Some s
       | Some (singleClient _) \<Rightarrow> do {
           let s = s\<lparr>s_clients := AList.delete k (s_clients s)\<rparr>;
           s \<leftarrow> (if map_of (s_clientsMesh s) k = Some None
             then notePeerGoneFromRegionLocked k (s\<lparr>s_clientsMesh := AList.delete k (s_clientsMesh s)\<rparr>)
             else Some s);
           broadcastPeerStateChangeLocked k zeroAddrPort False s }
       | Some (dupClients d) \<Rightarrow>
           let (ok, d) = removeClient c d;
               s = (if ok then count_Add dupClientConns (- 1) s else s)
           in Some (if length (ds_set d) = 1 then
                let s = count_Add dupClientConns (- 1) s;
                    s = count_Add dupClientKeys (- 1) s;
                    remain = hd (ds_set d);
                    s = upd_conn remain (\<lambda>x. x\<lparr>sc_isDisabled := False, sc_isDup := False\<rparr>) s
                in s\<lparr>s_clients := AList.update k (singleClient remain) (s_clients s)\<rparr>
              else s\<lparr>s_clients := AList.update k (dupClients d) (s_clients s)\<rparr>))"

definition unregisterClient :: "conn \<Rightarrow> Server \<Rightarrow> Server option" where
  "unregisterClient c s = do {
     s \<leftarrow> unregister_set c s;
     let s = (if sc_canMesh (s_conns s c) then s\<lparr>s_watchers := s_watchers s - {c}\<rparr> else s);
     let s = s\<lparr>s_keyOfAddr := (s_keyOfAddr s)(sc_remoteIPPort (s_conns s c) := None)\<rparr>;
     let s = count_Add curClients (- 1) s;
     Some (if sc_preferred (s_conns s c) then count_Add curHomeClients (- 1) s else s) }"

definition addWatcher :: "conn \<Rightarrow> Server \<Rightarrow> Server option" where
  "addWatcher c s =
     (if \<not> sc_canMesh (s_conns s c) then None
      else if sc_key (s_conns s c) = s_publicKey s then Some s
      else let changes = List.map_filter (\<lambda>(peer, st). case ActiveClient s st of None \<Rightarrow> None
                 | Some ac \<Rightarrow> Some \<lparr>pcs_peer = peer, pcs_present = True, pcs_ipPort = sc_remoteIPPort (s_conns s ac)\<rparr>) (s_clients s);
               s = upd_conn c (\<lambda>x. x\<lparr>sc_peerStateChange := sc_peerStateChange x @ changes\<rparr>) s
           in requestMeshUpdate c (s\<lparr>s_watchers := insert c (s_watchers s)\<rparr>))"

definition noteClientActivity :: "conn \<Rightarrow> Server \<Rightarrow> Server" where
  "noteClientActivity c s =
     (if \<not> sc_isDup (s_conns s c) then s
      else if sc_isDisabled (s_conns s c) then s
      else (case map_of (s_clients s) (sc_key (s_conns s c)) of
          Some (dupClients d) \<Rightarrow>
            let k = sc_key (s_conns s c);
                d = (if s_dupPolicy s = lastWriterIsActive then d\<lparr>ds_last := Some c\<rparr>
                     else if ds_last d = None then d\<lparr>ds_last := Some c\<rparr> else d);
                sh = ds_sendHistory d
            in if length sh \<noteq> 0 \<and> last sh = c then s\<lparr>s_clients := AList.update k (dupClients d) (s_clients s)\<rparr>
               else let s = (if s_dupPolicy s = disableFighters \<and> c \<in> set sh
                          then s\<lparr>s_conns := (\<lambda>x. if x \<in> set (ds_set d) then (s_conns s x)\<lparr>sc_isDisabled := True\<rparr> else s_conns s x)\<rparr>
                          else s)
                    in s\<lparr>s_clients := AList.update k (dupClients (d\<lparr>ds_sendHistory := sh @ [c]\<rparr>)) (s_clients s)\<rparr>
        | _ \<Rightarrow> s))"

subsection \<open>Packets\<close>

definition recordDrop :: "bytes \<Rightarrow> dropReason \<Rightarrow> Server \<Rightarrow> Server" where
  "recordDrop packetBytes reason s =
     (let s = count_Add packetsDropped 1 s;
          s = count_Add (packetsDroppedReason reason) 1 s
      in if LooksLikeDiscoWrapper packetBytes then count_Add packetsDroppedTypeDisco 1 s else count_Add packetsDroppedTypeOther 1 s)"

text \<open>The two queues of a connection are channels; \<open>q_get\<close> and \<open>q_put\<close> access the one that is meant for a packet.\<close>

definition q_get :: "bool \<Rightarrow> sclient \<Rightarrow> pkt list" where
  "q_get d x = (if d then sc_discoSendQueue x else sc_sendQueue x)"

definition q_put :: "bool \<Rightarrow> pkt list \<Rightarrow> sclient \<Rightarrow> sclient" where
  "q_put d q x = (if d then x\<lparr>sc_discoSendQueue := q\<rparr> else x\<lparr>sc_sendQueue := q\<rparr>)"

fun sendPkt_loop :: "nat \<Rightarrow> bool \<Rightarrow> conn \<Rightarrow> pkt \<Rightarrow> Server \<Rightarrow> Server" where
  "sendPkt_loop 0 d dst p s = recordDrop (p_bs p) dropReasonQueueTail s"
| "sendPkt_loop (Suc n) d dst p s =
     (let q = q_get d (s_conns s dst) in
      if sc_done (s_conns s dst) then recordDrop (p_bs p) dropReasonGoneDisconnected s
      else if length q < perClientSendQueueDepth then upd_conn dst (q_put d (q @ [p])) s
      else sendPkt_loop n d dst p (case q of
          [] \<Rightarrow> s
        | x # xs \<Rightarrow> recordDrop (p_bs x) dropReasonQueueHead (upd_conn dst (q_put d xs) s)))"

definition sendPkt :: "conn \<Rightarrow> pkt \<Rightarrow> Server \<Rightarrow> Server" where
  "sendPkt dst p s = sendPkt_loop 3 (LooksLikeDiscoWrapper (p_bs p)) dst p s"

definition requestPeerGoneWriteLimited :: "int \<Rightarrow> conn \<Rightarrow> nodekey \<Rightarrow> bytes \<Rightarrow> byte \<Rightarrow> Server \<Rightarrow> Server" where
  "requestPeerGoneWriteLimited now c peer contents reason s =
     (if \<not> LooksLikeDiscoWrapper contents then s
      else let (ok, lm) = allow (sc_peerGoneLim (s_conns s c)) now;
               s = upd_conn c (\<lambda>x. x\<lparr>sc_peerGoneLim := lm\<rparr>) s
           in if ok then requestPeerGoneWrite c peer reason s else s)"

definition notePeerSendLocked :: "nodekey \<Rightarrow> conn \<Rightarrow> Server \<Rightarrow> Server" where
  "notePeerSendLocked src dst s =
     (let m = (case s_sentTo s src of None \<Rightarrow> [] | Some m \<Rightarrow> m)
      in s\<lparr>s_sentTo := (s_sentTo s)(src := Some (AList.update (sc_key (s_conns s dst)) dst m))\<rparr>)"

text \<open>Forwarding: a set of forwarders uses its preferred one.\<close>

fun ForwardPacket :: "PacketForwarder \<Rightarrow> nodekey \<Rightarrow> nodekey \<Rightarrow> bytes \<Rightarrow> Server \<Rightarrow> Server" where
  "ForwardPacket (Fwd f) src dst payload s = s\<lparr>s_forwarded := s_forwarded s @ [(f, src, dst, payload)]\<rparr>"
| "ForwardPacket (MultiFwd m) src dst payload s = s\<lparr>s_forwarded := s_forwarded s @ [(mf_fwd m, src, dst, payload)]\<rparr>"

subsection \<open>Frames from a client\<close>

type_synonym hres = "ferr option \<times> bytes \<times> Server"

definition ReadRaw :: "bytes \<Rightarrow> ferr + nodekey \<times> bytes" where
  "ReadRaw br = read_bytes 32 br"

definition recvPacket :: "u32 \<Rightarrow> bytes \<Rightarrow> Server \<Rightarrow> ferr + (nodekey \<times> bytes) \<times> bytes \<times> Server" where
  "recvPacket frameLen br s =
     (if unat frameLen < keyLen then Inl (ErrMsg ''short send packet frame'')
      else sbind (ReadRaw br) (\<lambda>(dstKey, br).
        let packetLen = unat frameLen - keyLen in
        if packetLen > MaxPacketSize then Inl (ErrMsg ''data packet longer than max'')
        else sbind (ReadFull packetLen br) (\<lambda>(contents, br).
          let s = count_Add packetsRecv 1 s;
              s = count_Add bytesRecv (int (length contents)) s;
              s = (if LooksLikeDiscoWrapper contents then count_Add packetsRecvDisco 1 s else count_Add packetsRecvOther 1 s)
          in Inr ((dstKey, contents), br, s))))"

definition recvForwardPacket :: "u32 \<Rightarrow> bytes \<Rightarrow> ferr + (nodekey \<times> nodekey \<times> bytes) \<times> bytes" where
  "recvForwardPacket frameLen br =
     (if unat frameLen < keyLen * 2 then Inl (ErrMsg ''short send packet frame'')
      else sbind (ReadRaw br) (\<lambda>(srcKey, br).
           sbind (ReadRaw br) (\<lambda>(dstKey, br).
             let packetLen = unat frameLen - keyLen * 2 in
             if packetLen > MaxPacketSize then Inl (ErrMsg ''data packet longer than max'')
             else sbind (ReadFull packetLen br) (\<lambda>(contents, br). Inr ((srcKey, dstKey, contents), br)))))"

text \<open>Where a key is connected: the number of its connections and the active one.\<close>

definition lookupDst :: "nodekey \<Rightarrow> Server \<Rightarrow> nat \<times> conn option" where
  "lookupDst dstKey s = (case map_of (s_clients s) dstKey of
     None \<Rightarrow> (0, None) | Some st \<Rightarrow> (clientSet_Len st, ActiveClient s st))"

text \<open>What happens to a packet once it has been read.\<close>

definition deliverForwarded :: "int \<Rightarrow> conn \<Rightarrow> nodekey \<Rightarrow> nodekey \<Rightarrow> bytes \<Rightarrow> Server \<Rightarrow> Server" where
  "deliverForwarded now c srcKey dstKey contents s =
     (let s = count_Add packetsForwardedIn 1 s;
          (dstLen, dst) = lookupDst dstKey s
      in case dst of
          None \<Rightarrow>
            let s = (if dstLen > 1 then s else requestPeerGoneWriteLimited now c dstKey contents PeerGoneReasonNotHere s)
            in recordDrop contents (if dstLen > 1 then dropReasonDupClient else dropReasonUnknownDestOnFwd) s
        | Some dst \<Rightarrow>
            sendPkt dst \<lparr>p_src = srcKey, p_enqueuedAt = now, p_bs = contents\<rparr> (notePeerSendLocked srcKey dst s))"

definition deliverSent :: "int \<Rightarrow> conn \<Rightarrow> nodekey \<Rightarrow> bytes \<Rightarrow> Server \<Rightarrow> Server" where
  "deliverSent now c dstKey contents s =
     (let k = sc_key (s_conns s c);
          (dstLen, dst) = lookupDst dstKey s
      in case dst of
          Some dst \<Rightarrow>
            sendPkt dst \<lparr>p_src = k, p_enqueuedAt = now, p_bs = contents\<rparr> (notePeerSendLocked k dst s)
        | None \<Rightarrow>
            (case (if dstLen < 1 then map_of (s_clientsMesh s) dstKey else None) of
               Some (Some fwd) \<Rightarrow> ForwardPacket fwd k dstKey contents (count_Add packetsForwardedOut 1 s)
             | _ \<Rightarrow>
               let s = (if dstLen > 1 then s else requestPeerGoneWriteLimited now c dstKey contents PeerGoneReasonNotHere s)
               in recordDrop contents (if dstLen > 1 then dropReasonDupClient else dropReasonUnknownDest) s))"

definition handleFrameForwardPacket :: "int \<Rightarrow> conn \<Rightarrow> u32 \<Rightarrow> bytes \<Rightarrow> Server \<Rightarrow> hres" where
  "handleFrameForwardPacket now c fl br s =
     (if \<not> sc_canMesh (s_conns s c) then (Some (ErrMsg ''insufficient permissions''), br, s)
      else (case recvForwardPacket fl br of
          Inl e \<Rightarrow> (Some e, br, s)
        | Inr ((srcKey, dstKey, contents), br) \<Rightarrow> (None, br, deliverForwarded now c srcKey dstKey contents s)))"

definition handleFrameSendPacket :: "int \<Rightarrow> conn \<Rightarrow> u32 \<Rightarrow> bytes \<Rightarrow> Server \<Rightarrow> hres" where
  "handleFrameSendPacket now c fl br s =
     (case recvPacket fl br s of
        Inl e \<Rightarrow> (Some e, br, s)
      | Inr ((dstKey, contents), br, s) \<Rightarrow> (None, br, deliverSent now c dstKey contents s))"

definition handleUnknownFrame :: "u32 \<Rightarrow> bytes \<Rightarrow> Server \<Rightarrow> hres" where
  "handleUnknownFrame fl br s = (case Discard (unat fl) br of Inl e \<Rightarrow> (Some e, br, s) | Inr br \<Rightarrow> (None, br, s))"

definition setPreferred :: "int \<Rightarrow> conn \<Rightarrow> bool \<Rightarrow> Server \<Rightarrow> Server" where
  "setPreferred now c v s =
     (if sc_preferred (s_conns s c) = v then s
      else let s = upd_conn c (\<lambda>x. x\<lparr>sc_preferred := v\<rparr>) s;
               s = count_Add curHomeClients (if v then 1 else - 1) s
           in if now - sc_connectedAt (s_conns s c) > 5 * 1000000000 then count_Add (if v then homeMovesIn else homeMovesOut) 1 s else s)"

definition handleFrameNotePreferred :: "int \<Rightarrow> conn \<Rightarrow> u32 \<Rightarrow> bytes \<Rightarrow> Server \<Rightarrow> hres" where
  "handleFrameNotePreferred now c fl br s =
     (if fl \<noteq> 1 then (Some (ErrMsg ''frameNotePreferred wrong size''), br, s)
      else (case ReadByte br of
          Inl e \<Rightarrow> (Some e, br, s)
        | Inr (v, br) \<Rightarrow> (None, br, setPreferred now c (v \<noteq> 0) s)))"

definition handleFrameWatchConns :: "conn \<Rightarrow> u32 \<Rightarrow> bytes \<Rightarrow> Server \<Rightarrow> hres option" where
  "handleFrameWatchConns c fl br s =
     (if fl \<noteq> 0 then Some (Some (ErrMsg ''handleFrameWatchConns wrong size''), br, s)
      else if \<not> sc_canMesh (s_conns s c) then Some (Some (ErrMsg ''insufficient permissions''), br, s)
      else map_option (\<lambda>s. (None, br, s)) (addWatcher c s))"

definition handleFramePing :: "conn \<Rightarrow> u32 \<Rightarrow> bytes \<Rightarrow> Server \<Rightarrow> hres" where
  "handleFramePing c fl br s =
     (let s = count_Add gotPing 1 s in
      if unat fl < 8 then (Some (ErrMsg ''short ping''), br, s)
      else if unat fl > 1000 then (Some (ErrMsg ''ping body too large''), br, s)
      else (case ReadFull 8 br of
          Inl e \<Rightarrow> (Some e, br, s)
        | Inr (m, br) \<Rightarrow>
            let (err, br) = (if unat fl - 8 > 0 then (case Discard (unat fl - 8) br of Inl e \<Rightarrow> (Some e, br) | Inr br \<Rightarrow> (None, br))
                 else (None, br));
                s = upd_conn c (\<lambda>x. case sc_sendPongCh x of None \<Rightarrow> x\<lparr>sc_sendPongCh := Some m\<rparr> | Some _ \<Rightarrow> x) s
            in (err, br, s)))"

definition handleFrameClosePeer :: "conn \<Rightarrow> u32 \<Rightarrow> bytes \<Rightarrow> Server \<Rightarrow> hres" where
  "handleFrameClosePeer c fl br s =
     (if unat fl \<noteq> keyLen then (Some (ErrMsg ''handleFrameClosePeer wrong size''), br, s)
      else if \<not> sc_canMesh (s_conns s c) then (Some (ErrMsg ''insufficient permissions''), br, s)
      else (case ReadRaw br of
          Inl e \<Rightarrow> (Some e, br, s)
        | Inr (targetKey, br) \<Rightarrow>
            (None, br, case map_of (s_clients s) targetKey of
                None \<Rightarrow> s
              | Some st \<Rightarrow> s\<lparr>s_conns := (\<lambda>x. if x \<in> set (ForeachClient st) then (s_conns s x)\<lparr>sc_closed := True\<rparr> else s_conns s x)\<rparr>)))"

text \<open>One round of \<open>run\<close>. The loop ends without an error when the client hangs up between frames or inside a header.\<close>

datatype runres = Running bytes | Stopped "ferr option"

definition run_next :: "int \<Rightarrow> conn \<Rightarrow> bytes \<Rightarrow> Server \<Rightarrow> (runres \<times> Server) option" where
  "run_next now c br s =
     (case readFrameHeader br of
        Inl e \<Rightarrow> Some (Stopped (if e = EOF then None else Some e), s)
      | Inr ((ft, fl), br) \<Rightarrow>
          let s = noteClientActivity c s in
          map_option (\<lambda>(err, br, s). (case err of None \<Rightarrow> Running br | Some e \<Rightarrow> Stopped (Some e), s))
            (if ft = frameNotePreferred then Some (handleFrameNotePreferred now c fl br s)
             else if ft = frameSendPacket then Some (handleFrameSendPacket now c fl br s)
             else if ft = frameForwardPacket then Some (handleFrameForwardPacket now c fl br s)
             else if ft = frameWatchConns then handleFrameWatchConns c fl br s
             else if ft = frameClosePeer then Some (handleFrameClosePeer c fl br s)
             else if ft = framePing then Some (handleFramePing c fl br s)
             else Some (handleUnknownFrame fl br s)))"

end
