(* ===== verification/Derp_Mesh.thy ===== *)
theory Derp_Mesh
  imports Derp_Server Lru_Spec
begin

section \<open>Package \<open>derp\<close>: the mesh of servers, and what the registry keeps\<close>

text \<open>
  The rest of \<open>src/derp/derp_server.go\<close> that works on the registry: packet forwarders, by which the servers of a region reach
  clients that are connected elsewhere, and the consistency check. Then the invariant of the registry: which
  connection is recorded where, and what the counters count.
\<close>

subsection \<open>Packet forwarders\<close>

fun new_loop :: "nat \<Rightarrow> fwdid list \<Rightarrow> (fwdid \<times> byte) list \<Rightarrow> (fwdid \<times> byte) list" where
  "new_loop idx [] m = m"
| "new_loop idx (f # fs) m = new_loop (idx + 1) fs (AList.update f (of_nat idx) m)"

definition newMultiForwarder :: "fwdid \<Rightarrow> fwdid list \<Rightarrow> multiForwarder" where
  "newMultiForwarder f fs = \<lparr>mf_fwd = f, mf_all = new_loop 0 (f # fs) []\<rparr>"

fun max_loop :: "byte \<Rightarrow> (fwdid \<times> byte) list \<Rightarrow> byte" where
  "max_loop mx [] = mx"
| "max_loop mx ((f, v) # fs) = max_loop (if v > mx then v else mx) fs"

definition mf_add :: "fwdid \<Rightarrow> multiForwarder \<Rightarrow> multiForwarder" where
  "mf_add fwd m = m\<lparr>mf_all := AList.update fwd (max_loop 0 (mf_all m) + 1) (mf_all m)\<rparr>"

fun lowest_loop :: "(fwdid \<times> byte) option \<Rightarrow> (fwdid \<times> byte) list \<Rightarrow> (fwdid \<times> byte) option" where
  "lowest_loop low [] = low"
| "lowest_loop low ((k, v) # fs) =
     lowest_loop (case low of None \<Rightarrow> Some (k, v) | Some (lk, lv) \<Rightarrow> if v < lv then Some (k, v) else low) fs"

definition deleteLocked :: "fwdid \<Rightarrow> multiForwarder \<Rightarrow> fwdid option \<times> multiForwarder" where
  "deleteLocked fwd m =
     (let m = m\<lparr>mf_all := AList.delete fwd (mf_all m)\<rparr>;
          m = (if fwd = mf_fwd m
               then (case lowest_loop None (mf_all m) of None \<Rightarrow> m | Some (k, v) \<Rightarrow> m\<lparr>mf_fwd := k\<rparr>) else m)
      in (if length (mf_all m) = 1 then Some (fst (hd (mf_all m))) else None, m))"

definition AddPacketForwarder :: "nodekey \<Rightarrow> fwdid \<Rightarrow> Server \<Rightarrow> Server" where
  "AddPacketForwarder dst fwd s =
     (let put = (\<lambda>v s. s\<lparr>s_clientsMesh := AList.update dst (Some v) (s_clientsMesh s)\<rparr>)
      in case map_of (s_clientsMesh s) dst of
          None \<Rightarrow> put (Fwd fwd) s
        | Some prev \<Rightarrow>
            if prev = Some (Fwd fwd) then s
            else (case prev of
                Some (MultiFwd m) \<Rightarrow> if map_of (mf_all m) fwd \<noteq> None then s else put (MultiFwd (mf_add fwd m)) s
              | Some (Fwd p) \<Rightarrow> put (MultiFwd (newMultiForwarder p [fwd])) (count_Add multiForwarderCreated 1 s)
              | None \<Rightarrow> put (Fwd fwd) s))"

definition RemovePacketForwarder :: "nodekey \<Rightarrow> fwdid \<Rightarrow> Server \<Rightarrow> Server option" where
  "RemovePacketForwarder dst fwd s =
     (let put = (\<lambda>v s. s\<lparr>s_clientsMesh := AList.update dst v (s_clientsMesh s)\<rparr>)
      in case map_of (s_clientsMesh s) dst of
          None \<Rightarrow> Some s
        | Some (Some (MultiFwd m)) \<Rightarrow>
            if length (mf_all m) < 2 then None
            else (case deleteLocked fwd m of
                (Some remain, m) \<Rightarrow> Some (count_Add multiForwarderDeleted 1 (put (Some (Fwd remain)) s))
              | (None, m) \<Rightarrow> Some (put (Some (MultiFwd m)) s))
        | Some v \<Rightarrow>
            if v \<noteq> Some (Fwd fwd) then Some (count_Add removePktForwardOther 1 s)
            else if map_of (s_clients s) dst \<noteq> None then Some (put None s)
            else notePeerGoneFromRegionLocked dst (s\<lparr>s_clientsMesh := AList.delete dst (s_clientsMesh s)\<rparr>))"

text \<open>The check that the server offers to its operators: the list of what it complains about.\<close>

definition ConsistencyCheck :: "Server \<Rightarrow> string list" where
  "ConsistencyCheck s =
     (let nilMeshNotInClient = length (filter (\<lambda>(k, f). f = None \<and> map_of (s_clients s) k = None) (s_clientsMesh s));
          clientNotInMesh = length (filter (\<lambda>(k, st). map_of (s_clientsMesh s) k = None) (s_clients s))
      in (if nilMeshNotInClient \<noteq> 0 then [''s.clientsMesh keys not in s.clients''] else []) @
         (if clientNotInMesh \<noteq> 0 then [''s.clients keys not in s.clientsMesh''] else []) @
         (if s_count s curClients \<noteq> int (length (s_clients s)) then [''expvar connections != clients map''] else []))"

subsection \<open>The invariant\<close>

text \<open>\<open>L\<close> is the set of the connections that are registered and not yet unregistered.\<close>

definition members :: "Server \<Rightarrow> conn set \<Rightarrow> nodekey \<Rightarrow> conn set" where
  "members s L k = {c \<in> L. sc_key (s_conns s c) = k}"

fun set_ok :: "conn set \<Rightarrow> clientSet option \<Rightarrow> bool" where
  "set_ok M None \<longleftrightarrow> M = {}"
| "set_ok M (Some (singleClient c)) \<longleftrightarrow> M = {c}"
| "set_ok M (Some (dupClients d)) \<longleftrightarrow>
     distinct (ds_set d) \<and> set (ds_set d) = M \<and> 2 \<le> length (ds_set d) \<and> set (ds_sendHistory d) \<subseteq> M \<and>
     card (M - set (ds_sendHistory d)) \<le> 1 \<and> (\<exists>c\<in>M. ds_last d = Some c)"

definition sets_ok :: "Server \<Rightarrow> conn set \<Rightarrow> bool" where
  "sets_ok s L \<longleftrightarrow> (\<forall>k. set_ok (members s L k) (map_of (s_clients s) k))"

definition flags_ok :: "Server \<Rightarrow> conn set \<Rightarrow> bool" where
  "flags_ok s L \<longleftrightarrow> (\<forall>c\<in>L. let x = s_conns s c in
     (sc_isDup x \<longleftrightarrow> 2 \<le> card (members s L (sc_key x))) \<and> (sc_isDisabled x \<longrightarrow> sc_isDup x \<and> s_dupPolicy s = disableFighters))"

definition watch_ok :: "Server \<Rightarrow> conn set \<Rightarrow> bool" where
  "watch_ok s L \<longleftrightarrow> s_watchers s \<subseteq> L \<and> (\<forall>w\<in>s_watchers s. sc_canMesh (s_conns s w))"

definition mf_ok :: "multiForwarder \<Rightarrow> bool" where
  "mf_ok m \<longleftrightarrow> distinct (map fst (mf_all m)) \<and> 2 \<le> length (mf_all m) \<and> mf_fwd m \<in> fst ` set (mf_all m)"

definition mesh_ok :: "Server \<Rightarrow> bool" where
  "mesh_ok s \<longleftrightarrow> distinct (map fst (s_clientsMesh s)) \<and>
     (\<forall>k. (map_of (s_clients s) k \<noteq> None \<longrightarrow> map_of (s_clientsMesh s) k \<noteq> None) \<and>
          (map_of (s_clientsMesh s) k = Some None \<longrightarrow> map_of (s_clients s) k \<noteq> None) \<and>
          (\<forall>m. map_of (s_clientsMesh s) k = Some (Some (MultiFwd m)) \<longrightarrow> mf_ok m))"

definition count_ok :: "Server \<Rightarrow> conn set \<Rightarrow> bool" where
  "count_ok s L \<longleftrightarrow>
     s_count s curClients = int (card L) \<and>
     s_count s curHomeClients = int (card {c \<in> L. sc_preferred (s_conns s c)}) \<and>
     s_count s dupClientConns = int (card {c \<in> L. sc_isDup (s_conns s c)}) \<and>
     s_count s dupClientKeys = int (card {k. 2 \<le> card (members s L k)})"

definition SInv :: "Server \<Rightarrow> conn set \<Rightarrow> bool" where
  "SInv s L \<longleftrightarrow> finite L \<and> distinct (map fst (s_clients s)) \<and> sets_ok s L \<and> flags_ok s L \<and> watch_ok s L \<and> mesh_ok s \<and> count_ok s L"

lemma SInvD:
  assumes "SInv s L"
  shows "finite L" "distinct (map fst (s_clients s))" "sets_ok s L" "flags_ok s L" "watch_ok s L" "mesh_ok s" "count_ok s L"
  using assms by (simp_all add: SInv_def)

text \<open>What the rest of the server does to its state does not touch the registry, nor the changes that wait to be sent to a watcher.\<close>

definition same_core :: "Server \<Rightarrow> Server \<Rightarrow> bool" where
  "same_core s s' \<longleftrightarrow>
     s_clients s' = s_clients s \<and> s_clientsMesh s' = s_clientsMesh s \<and> s_watchers s' = s_watchers s \<and>
     s_dupPolicy s' = s_dupPolicy s \<and> s_publicKey s' = s_publicKey s \<and>
     (\<forall>v\<in>{curClients, curHomeClients, dupClientConns, dupClientKeys}. s_count s' v = s_count s v) \<and>
     (\<forall>c. let x = s_conns s c; x' = s_conns s' c in
        sc_key x' = sc_key x \<and> sc_remoteIPPort x' = sc_remoteIPPort x \<and> sc_canMesh x' = sc_canMesh x \<and> sc_isDup x' = sc_isDup x \<and>
        sc_isDisabled x' = sc_isDisabled x \<and> sc_preferred x' = sc_preferred x)"

definition same_reg :: "Server \<Rightarrow> Server \<Rightarrow> bool" where
  "same_reg s s' \<longleftrightarrow> same_core s s' \<and> (\<forall>c. sc_peerStateChange (s_conns s' c) = sc_peerStateChange (s_conns s c))"

lemma same_coreD:
  assumes "same_core s s'"
  shows "s_clients s' = s_clients s" "s_clientsMesh s' = s_clientsMesh s" "s_watchers s' = s_watchers s" "s_dupPolicy s' = s_dupPolicy s"
    "s_count s' curClients = s_count s curClients" "s_count s' curHomeClients = s_count s curHomeClients"
    "s_count s' dupClientConns = s_count s dupClientConns" "s_count s' dupClientKeys = s_count s dupClientKeys"
    "sc_key (s_conns s' c) = sc_key (s_conns s c)" "sc_canMesh (s_conns s' c) = sc_canMesh (s_conns s c)"
    "sc_isDup (s_conns s' c) = sc_isDup (s_conns s c)" "sc_isDisabled (s_conns s' c) = sc_isDisabled (s_conns s c)"
    "sc_preferred (s_conns s' c) = sc_preferred (s_conns s c)"
    "sc_remoteIPPort (s_conns s' c) = sc_remoteIPPort (s_conns s c)" "s_publicKey s' = s_publicKey s"
  using assms unfolding same_core_def Let_def by blast+

lemma same_core_refl [simp, intro]: "same_core s s"
  by (simp add: same_core_def)

lemma same_core_trans: "same_core s s' \<Longrightarrow> same_core s' s'' \<Longrightarrow> same_core s s''"
  by (simp add: same_core_def Let_def)

lemma same_reg_refl [simp, intro]: "same_reg s s"
  by (simp add: same_reg_def same_core_def)

lemma same_reg_trans: "same_reg s s' \<Longrightarrow> same_reg s' s'' \<Longrightarrow> same_reg s s''"
  by (simp add: same_reg_def same_core_def Let_def)

lemma SInv_core:
  assumes "same_core s s'" "SInv s L"
  shows "SInv s' L"
proof -
  have "SInv s' L = SInv s L"
    unfolding SInv_def sets_ok_def flags_ok_def watch_ok_def mesh_ok_def count_ok_def members_def Let_def same_coreD [OF assms(1)] ..
  then show ?thesis using assms(2) by simp
qed

lemma SInv_same: "same_reg s s' \<Longrightarrow> SInv s L \<Longrightarrow> SInv s' L"
  unfolding same_reg_def by (blast intro: SInv_core)

subsection \<open>Steps that leave the registry alone\<close>

named_theorems reg \<open>operations that do not touch the registry\<close>

lemma same_reg_count [reg]: "v \<notin> {curClients, curHomeClients, dupClientConns, dupClientKeys} \<Longrightarrow> same_reg s (count_Add v n s)"
  by (auto simp: same_reg_def same_core_def count_Add_def)

lemma same_reg_conn:
  assumes "\<And>x. sc_key (f x) = sc_key x \<and> sc_remoteIPPort (f x) = sc_remoteIPPort x \<and> sc_canMesh (f x) = sc_canMesh x \<and> sc_isDup (f x) = sc_isDup x \<and>
    sc_isDisabled (f x) = sc_isDisabled x \<and> sc_preferred (f x) = sc_preferred x \<and> sc_peerStateChange (f x) = sc_peerStateChange x"
  shows "same_reg s (upd_conn c f s)"
  using assms by (simp add: same_reg_def same_core_def upd_conn_def Let_def)

lemma same_reg_recordDrop [reg]: "same_reg s (recordDrop b r s)"
  unfolding recordDrop_def Let_def
  by (cases "LooksLikeDiscoWrapper b") (auto intro!: same_reg_trans [OF same_reg_count same_reg_trans [OF same_reg_count same_reg_count]])

lemma same_reg_q_put: "same_reg s (upd_conn c (q_put d q) s)"
  by (rule same_reg_conn) (simp add: q_put_def)

lemma same_reg_sendPkt_loop: "same_reg s (sendPkt_loop n d dst p s)"
proof (induction n arbitrary: s)
  case (Suc n)
  have "same_reg s (case q_get d (s_conns s dst) of [] \<Rightarrow> s | x # xs \<Rightarrow> recordDrop (p_bs x) dropReasonQueueHead (upd_conn dst (q_put d xs) s))"
    by (auto split: list.split intro: same_reg_trans [OF same_reg_q_put same_reg_recordDrop])
  then show ?case using same_reg_trans [OF _ Suc.IH] same_reg_q_put same_reg_recordDrop by (auto simp: Let_def)
qed (simp add: same_reg_recordDrop)

lemma same_reg_sendPkt [reg]: "same_reg s (sendPkt dst p s)"
  by (simp add: sendPkt_def same_reg_sendPkt_loop)

lemma same_reg_requestPeerGoneWrite [reg]: "same_reg s (requestPeerGoneWrite c peer reason s)"
  unfolding requestPeerGoneWrite_def by (rule same_reg_conn) simp

lemma same_reg_limited [reg]: "same_reg s (requestPeerGoneWriteLimited now c peer contents reason s)"
proof -
  have "same_reg s (upd_conn c (\<lambda>x. x\<lparr>sc_peerGoneLim := l\<rparr>) s)" for l by (rule same_reg_conn) simp
  then show ?thesis
    by (auto simp: requestPeerGoneWriteLimited_def Let_def split: prod.split intro: same_reg_trans [OF _ same_reg_requestPeerGoneWrite])
qed

lemma same_reg_notePeerSend [reg]: "same_reg s (notePeerSendLocked src dst s)"
  by (simp add: notePeerSendLocked_def same_reg_def same_core_def Let_def)

lemma same_reg_ForwardPacket [reg]: "same_reg s (ForwardPacket f src dst b s)"
  by (cases f) (simp_all add: same_reg_def same_core_def)

lemma same_reg_deliverForwarded [reg]: "same_reg s (deliverForwarded now c src dst b s)"
proof -
  have 1: "same_reg s (count_Add packetsForwardedIn 1 s)" by (rule same_reg_count) simp
  show ?thesis
    unfolding deliverForwarded_def Let_def
    by (auto split: prod.split option.split intro!: same_reg_trans [OF 1] intro: reg same_reg_trans [OF _ same_reg_recordDrop] same_reg_trans [OF _ same_reg_sendPkt])
qed

lemma same_reg_deliverSent [reg]: "same_reg s (deliverSent now c dst b s)"
proof -
  have 1: "same_reg s (ForwardPacket f k dst b (count_Add packetsForwardedOut 1 s))" for f k
    by (rule same_reg_trans [OF same_reg_count same_reg_ForwardPacket]) simp
  show ?thesis
    unfolding deliverSent_def Let_def
    by (auto split: prod.split option.split intro!: 1 intro: reg same_reg_trans [OF _ same_reg_recordDrop] same_reg_trans [OF _ same_reg_sendPkt])
qed

lemma same_reg_recvPacket:
  assumes "recvPacket fl br s = Inr (r, br', s')"
  shows "same_reg s s'"
proof -
  have "same_reg s (if b then count_Add packetsRecvDisco 1 (count_Add bytesRecv n (count_Add packetsRecv 1 s))
      else count_Add packetsRecvOther 1 (count_Add bytesRecv n (count_Add packetsRecv 1 s)))" for b n
    by (auto intro!: same_reg_trans [OF same_reg_trans [OF same_reg_count same_reg_count] same_reg_count])
  then show ?thesis using assms by (auto simp: recvPacket_def sbind_def Let_def split: if_split_asm sum.split_asm)
qed

lemma same_reg_gone_clients: "same_reg s (gone_clients key n ps s)"
  by (induction ps arbitrary: s) (auto intro: same_reg_trans [OF same_reg_requestPeerGoneWrite])

lemma same_reg_gone_loop: "same_reg s (gone_loop key m s)"
proof (induction m arbitrary: s)
  case (Cons e m)
  obtain p n where "e = (p, n)" by force
  moreover have "same_reg s (case map_of (s_clients s) p of None \<Rightarrow> s | Some st \<Rightarrow> gone_clients key n (ForeachClient st) s)"
    by (auto split: option.split intro: same_reg_gone_clients)
  ultimately show ?case using same_reg_trans Cons.IH by simp
qed simp

lemma same_reg_notePeerGone: "notePeerGoneFromRegionLocked key s = Some s' \<Longrightarrow> same_reg s s'"
  using same_reg_gone_loop [of s key "case s_sentTo s key of None \<Rightarrow> [] | Some m \<Rightarrow> m"]
  by (auto simp: notePeerGoneFromRegionLocked_def same_reg_def same_core_def Let_def split: if_split_asm)

subsection \<open>Registering\<close>

lemma members_finite [simp]: "finite L \<Longrightarrow> finite (members s L k)"
  by (simp add: members_def)

lemma dup_keys_finite: "finite L \<Longrightarrow> finite {k. 2 \<le> card (members s L k)}"
proof -
  assume "finite L"
  moreover have "{k. 2 \<le> card (members s L k)} \<subseteq> (\<lambda>c. sc_key (s_conns s c)) ` L"
  proof
    fix k assume "k \<in> {k. 2 \<le> card (members s L k)}"
    then have "members s L k \<noteq> {}" by auto
    then show "k \<in> (\<lambda>c. sc_key (s_conns s c)) ` L" by (auto simp: members_def)
  qed
  ultimately show ?thesis by (meson finite_imageI finite_subset)
qed

lemma isDup_members:
  assumes "flags_ok s L"
  shows "{x \<in> L. sc_isDup (s_conns s x)} = {x \<in> L. 2 \<le> card (members s L (sc_key (s_conns s x)))}"
  using assms by (auto simp: flags_ok_def Let_def)

text \<open>The numbers of keys and of connections with duplicates, when a connection is added to those of its key.\<close>

lemma dup_counts_insert:
  assumes fin: "finite L" and c: "c \<notin> L" and key: "\<And>x. sc_key (s_conns t x) = sc_key (s_conns s x)" and k: "k = sc_key (s_conns s c)"
  defines "M \<equiv> members s L k"
  shows "card {x. 2 \<le> card (members t (insert c L) x)} = card {x. 2 \<le> card (members s L x)} + (if card M = 1 then 1 else 0)"
    and "card {x \<in> insert c L. 2 \<le> card (members t (insert c L) (sc_key (s_conns t x)))} =
      card {x \<in> L. 2 \<le> card (members s L (sc_key (s_conns s x)))} + (if card M = 0 then 0 else if card M = 1 then 2 else 1)"
proof -
  have mem: "members t (insert c L) x = (if x = k then insert c M else members s L x)" for x
    using key k by (auto simp: members_def M_def)
  have M: "c \<notin> M" "finite M" "M \<subseteq> L" using c fin by (auto simp: M_def members_def)
  have cM: "card (insert c M) = Suc (card M)" using M by simp
  have "{x. 2 \<le> card (members t (insert c L) x)} = {x. 2 \<le> card (members s L x)} \<union> (if 1 \<le> card M then {k} else {})"
    using cM by (auto simp: mem M_def)
  moreover have "k \<in> {x. 2 \<le> card (members s L x)} \<longleftrightarrow> 2 \<le> card M" by (simp add: M_def)
  ultimately show "card {x. 2 \<le> card (members t (insert c L) x)} = card {x. 2 \<le> card (members s L x)} + (if card M = 1 then 1 else 0)"
    using dup_keys_finite [OF fin, of s] by (auto simp: card_insert_if insert_absorb)
  let ?D = "{x \<in> L. 2 \<le> card (members s L (sc_key (s_conns s x)))}"
  have D': "{x \<in> insert c L. 2 \<le> card (members t (insert c L) (sc_key (s_conns t x)))} = ?D \<union> (if 1 \<le> card M then insert c M else {})"
    using cM k key by (auto simp: mem) (auto simp: M_def members_def)
  have DM: "?D \<inter> insert c M = (if 2 \<le> card M then M else {})" using c M by (auto simp: M_def members_def)
  have "card (?D \<union> insert c M) + card (?D \<inter> insert c M) = card ?D + card (insert c M)" using M fin by (intro card_Un_Int [symmetric]) auto
  then show "card {x \<in> insert c L. 2 \<le> card (members t (insert c L) (sc_key (s_conns t x)))} =
      card ?D + (if card M = 0 then 0 else if card M = 1 then 2 else 1)"
    using D' DM cM by (auto split: if_splits)
qed

text \<open>Which changes of the state are the registration of a connection.\<close>

lemma SInv_register:
  assumes inv: "SInv s L" and c: "c \<notin> L"
    and key: "\<And>x. sc_key (s_conns t x) = sc_key (s_conns s x)" and k: "k = sc_key (s_conns s c)"
    and cl: "s_clients t = AList.update k st (s_clients s)"
    and st: "set_ok (insert c (members s L k)) (Some st)"
    and dup: "\<And>x. x \<in> insert c L \<Longrightarrow> sc_isDup (s_conns t x) =
      (if sc_key (s_conns s x) = k then 2 \<le> card (insert c (members s L k)) else sc_isDup (s_conns s x))"
    and dis: "\<And>x. x \<in> L \<Longrightarrow> sc_isDisabled (s_conns t x) = sc_isDisabled (s_conns s x)" "\<not> sc_isDisabled (s_conns t c)"
    and pref: "\<And>x. x \<in> L \<Longrightarrow> sc_preferred (s_conns t x) = sc_preferred (s_conns s x)" "\<not> sc_preferred (s_conns t c)"
    and watch: "s_watchers t = s_watchers s" "\<And>x. sc_canMesh (s_conns t x) = sc_canMesh (s_conns s x)" "s_dupPolicy t = s_dupPolicy s"
    and mesh: "s_clientsMesh t = (if map_of (s_clientsMesh s) k = None then AList.update k None (s_clientsMesh s) else s_clientsMesh s)"
    and cnt: "s_count t curClients = s_count s curClients + 1" "s_count t curHomeClients = s_count s curHomeClients"
      "s_count t dupClientConns = s_count s dupClientConns + (let n = card (members s L k) in if n = 0 then 0 else if n = 1 then 2 else 1)"
      "s_count t dupClientKeys = s_count s dupClientKeys + (if card (members s L k) = 1 then 1 else 0)"
  shows "SInv t (insert c L)"
proof -
  note old = SInvD [OF inv]
  have mem: "members t (insert c L) x = (if x = k then insert c (members s L k) else members s L x)" for x
    using key k by (auto simp: members_def)
  have sets: "sets_ok t (insert c L)" using old(3) st by (auto simp: sets_ok_def mem cl update_conv')
  have flags: "flags_ok t (insert c L)"
    unfolding flags_ok_def Let_def
  proof (intro ballI conjI impI)
    fix x assume x: "x \<in> insert c L"
    show "sc_isDup (s_conns t x) \<longleftrightarrow> 2 \<le> card (members t (insert c L) (sc_key (s_conns t x)))"
      using old(4) dup [OF x] x k by (auto simp: mem key flags_ok_def Let_def)
    assume "sc_isDisabled (s_conns t x)"
    then have "x \<in> L" "sc_isDisabled (s_conns s x)" using x dis by auto
    then have "sc_isDup (s_conns s x)" "s_dupPolicy s = disableFighters" "2 \<le> card (members s L (sc_key (s_conns s x)))"
      using old(4) by (auto simp: flags_ok_def Let_def)
    moreover from this have "2 \<le> card (insert c (members s L k))" if "sc_key (s_conns s x) = k"
      using that old(1) c by (auto simp: card_insert_if members_def)
    ultimately show "sc_isDup (s_conns t x)" "s_dupPolicy t = disableFighters" using dup [OF x] watch(3) by auto
  qed
  have "mesh_ok t" using old(6) by (auto simp: mesh_ok_def mesh cl update_conv' distinct_update simp del: map_of_eq_Some_iff split: if_splits)
  moreover have "watch_ok t (insert c L)" using old(5) watch by (auto simp: watch_ok_def)
  moreover have "count_ok t (insert c L)"
  proof -
    have "{x \<in> insert c L. sc_preferred (s_conns t x)} = {x \<in> L. sc_preferred (s_conns s x)}" using pref by auto
    then show ?thesis
      using old(7) cnt c old(1) dup_counts_insert [OF old(1) c key k] isDup_members [OF flags] isDup_members [OF old(4)]
      by (simp add: count_ok_def Let_def)
  qed
  ultimately show ?thesis using old(1,2) sets flags by (simp add: SInv_def cl distinct_update)
qed

lemma broadcast_core:
  assumes "watch_ok s L"
  shows "\<exists>s'. broadcastPeerStateChangeLocked peer ip b s = Some s' \<and> same_core s s' \<and>
    (\<forall>w. sc_peerStateChange (s_conns s' w) = sc_peerStateChange (s_conns s w) @
       (if w \<in> s_watchers s then [\<lparr>pcs_peer = peer, pcs_present = b, pcs_ipPort = ip\<rparr>] else []))"
  using assms by (auto simp: broadcastPeerStateChangeLocked_def watch_ok_def same_core_def Let_def)

text \<open>A connection that has just been made.\<close>

definition fresh_conn :: "sclient \<Rightarrow> bool" where
  "fresh_conn x \<longleftrightarrow> \<not> sc_isDup x \<and> \<not> sc_isDisabled x \<and> \<not> sc_preferred x \<and> sc_peerStateChange x = [] \<and> \<not> sc_done x"

lemma registerClient_ok:
  assumes inv: "SInv s L" and c: "c \<notin> L" "fresh_conn (s_conns s c)"
  shows "\<exists>s'. registerClient c s = Some s' \<and> SInv s' (insert c L)"
proof -
  define k where "k = sc_key (s_conns s c)"
  note old = SInvD [OF inv]
  have ok: "set_ok (members s L k) (map_of (s_clients s) k)" using old(3) by (simp add: sets_ok_def)
  have cM: "c \<notin> members s L k" using c by (simp add: members_def)
  have broadcast: "\<exists>s'. broadcastPeerStateChangeLocked k ip True t = Some s' \<and> SInv s' (insert c L)" if "SInv t (insert c L)" for t ip
    using broadcast_core [OF SInvD(5) [OF that], of k ip True] SInv_core that by metis
  have oldc: "old \<in> L \<and> sc_key (s_conns s old) = k" if "old \<in> members s L k" for old using that by (simp add: members_def)
  have isDup: "sc_isDup (s_conns s x) \<longleftrightarrow> 2 \<le> card (members s L (sc_key (s_conns s x)))" if "x \<in> L" for x
    using old(4) that by (auto simp: flags_ok_def Let_def)
  show ?thesis
  proof (cases "map_of (s_clients s) k")
    case None
    then have M: "members s L k = {}" using ok by simp
    have key: "sc_key (s_conns s x) \<noteq> k" if "x \<in> L" for x using M that by (auto simp: members_def)
    show ?thesis
      unfolding registerClient_def register_set_def Let_def k_def [symmetric] None option.case
      by (rule broadcast, rule SInv_register [OF inv c(1) _ k_def, where st = "singleClient c"])
        (use c key M in \<open>auto simp: count_Add_def fresh_conn_def k_def\<close>)
  next
    case (Some st)
    show ?thesis
    proof (cases st)
      case (singleClient a)
      then have M: "members s L k = {a}" using ok Some by simp
      then have a: "a \<noteq> c" "a \<in> L" "sc_key (s_conns s a) = k" using cM oldc by auto
      have key: "sc_key (s_conns s x) = k \<longleftrightarrow> x = a" if "x \<in> L" for x using M that by (auto simp: members_def)
      have "\<not> sc_isDup (s_conns s a)" using isDup [OF a(2)] a(3) M by simp
      then show ?thesis
        unfolding registerClient_def register_set_def Let_def k_def [symmetric] Some singleClient option.case clientSet.case
        by (intro broadcast, intro SInv_register [OF inv c(1) _ k_def, where
            st = "dupClients \<lparr>ds_set = List.insert a [c], ds_last = Some c, ds_sendHistory = [a]\<rparr>"])
          (use c key M a in \<open>auto simp: count_Add_def upd_conn_def fresh_conn_def k_def\<close>)
    next
      case (dupClients d)
      then have d: "distinct (ds_set d)" "set (ds_set d) = members s L k" "2 \<le> length (ds_set d)" "set (ds_sendHistory d) \<subseteq> members s L k"
        "card (members s L k - set (ds_sendHistory d)) \<le> 1" using ok Some by auto
      then have M: "2 \<le> card (members s L k)" by (metis distinct_card)
      have "set_ok (insert c (members s L k)) (Some (dupClients \<lparr>ds_set = List.insert c (ds_set d), ds_last = Some c,
          ds_sendHistory = ds_sendHistory d @ [c]\<rparr>))"
        using d cM by (auto simp: insert_Diff_if distinct_insert)
      then show ?thesis
        unfolding registerClient_def register_set_def Let_def k_def [symmetric] Some dupClients option.case clientSet.case
        by (intro broadcast, intro SInv_register [OF inv c(1) _ k_def, where
            st = "dupClients \<lparr>ds_set = List.insert c (ds_set d), ds_last = Some c, ds_sendHistory = ds_sendHistory d @ [c]\<rparr>"])
          (use c M cM isDup old(1) in \<open>auto simp: count_Add_def upd_conn_def fresh_conn_def k_def\<close>)
    qed
  qed
qed

subsection \<open>Unregistering\<close>

lemma SInv_unregister:
  assumes inv: "SInv s L" and c: "c \<in> L"
    and key: "\<And>x. sc_key (s_conns t x) = sc_key (s_conns s x)" and k: "k = sc_key (s_conns s c)"
    and cl: "map_of (s_clients t) = (map_of (s_clients s))(k := st)" "distinct (map fst (s_clients t))"
    and st: "set_ok (members s L k - {c}) st"
    and dup: "\<And>x. x \<in> L - {c} \<Longrightarrow> sc_isDup (s_conns t x) =
      (if sc_key (s_conns s x) = k then 2 \<le> card (members s L k - {c}) else sc_isDup (s_conns s x))"
    and dis: "\<And>x. x \<in> L - {c} \<Longrightarrow> sc_isDisabled (s_conns t x) \<Longrightarrow> sc_isDisabled (s_conns s x) \<and> sc_isDup (s_conns t x)"
    and pref: "\<And>x. sc_preferred (s_conns t x) = sc_preferred (s_conns s x)"
    and watch: "s_watchers t = s_watchers s - {c}" "\<And>x. sc_canMesh (s_conns t x) = sc_canMesh (s_conns s x)" "s_dupPolicy t = s_dupPolicy s"
    and mesh: "mesh_ok t"
    and cnt: "s_count t curClients = s_count s curClients - 1"
      "s_count t curHomeClients = s_count s curHomeClients - (if sc_preferred (s_conns s c) then 1 else 0)"
      "s_count s dupClientConns = s_count t dupClientConns + (let n = card (members s L k - {c}) in if n = 0 then 0 else if n = 1 then 2 else 1)"
      "s_count s dupClientKeys = s_count t dupClientKeys + (if card (members s L k - {c}) = 1 then 1 else 0)"
  shows "SInv t (L - {c})"
proof -
  note old = SInvD [OF inv]
  have mem: "members t (L - {c}) x = (if x = k then members s L k - {c} else members s L x)" for x
    using key k by (auto simp: members_def)
  have sets: "sets_ok t (L - {c})" using old(3) st by (auto simp: sets_ok_def mem cl)
  have flags: "flags_ok t (L - {c})"
    unfolding flags_ok_def Let_def
  proof (intro ballI conjI impI)
    fix x assume x: "x \<in> L - {c}"
    show "sc_isDup (s_conns t x) \<longleftrightarrow> 2 \<le> card (members t (L - {c}) (sc_key (s_conns t x)))"
      using old(4) dup [OF x] x by (auto simp: mem key flags_ok_def Let_def)
    assume d: "sc_isDisabled (s_conns t x)"
    then show "sc_isDup (s_conns t x)" "s_dupPolicy t = disableFighters"
      using dis [OF x d] x old(4) watch(3) by (auto simp: flags_ok_def Let_def)
  qed
  have "watch_ok t (L - {c})" using old(5) watch by (auto simp: watch_ok_def)
  moreover have "count_ok t (L - {c})"
  proof -
    have "{x \<in> L. sc_preferred (s_conns s x)} = (if sc_preferred (s_conns s c) then insert c else id) {x \<in> L - {c}. sc_preferred (s_conns t x)}"
      using pref c by auto
    then have "card {x \<in> L. sc_preferred (s_conns s x)} =
        card {x \<in> L - {c}. sc_preferred (s_conns t x)} + (if sc_preferred (s_conns s c) then 1 else 0)"
      using old(1) by simp
    moreover have L: "insert c (L - {c}) = L" "c \<notin> L - {c}" "finite (L - {c})" "card L = Suc (card (L - {c}))"
      using c old(1) card_Suc_Diff1 [OF old(1) c] by auto
    moreover have kt: "k = sc_key (s_conns t c)" using key k by simp
    moreover note counts = dup_counts_insert [OF L(3,2) key [symmetric] kt, unfolded L(1) mem [of k] if_P [OF refl]]
    moreover have "card {x \<in> L. sc_isDup (s_conns s x)} = card {x \<in> L - {c}. sc_isDup (s_conns t x)} +
        (let n = card (members s L k - {c}) in if n = 0 then 0 else if n = 1 then 2 else 1)"
      unfolding isDup_members [OF flags] isDup_members [OF old(4)] Let_def by (rule counts(2))
    moreover note counts(1)
    ultimately show ?thesis using old(7) cnt unfolding count_ok_def Let_def by (auto split: if_split_asm)
  qed
  ultimately show ?thesis using old(1) sets flags cl(2) mesh by (simp add: SInv_def)
qed

text \<open>Removing a connection from a set of duplicates. At most one member has never sent, so that a set of two or more members has one that did.\<close>

lemma set_trim_loop: "set (trim_loop st trim vs) = set trim \<union> (set vs \<inter> set st)"
proof (induction vs arbitrary: trim)
  case (Cons v vs)
  have "v \<in> set trim" if "trim \<noteq> []" "last trim = v" using that by auto
  then show ?case using Cons by auto
qed simp

lemma removeClient_ok:
  assumes "set_ok M (Some (dupClients d))" "c \<in> M"
  shows "\<exists>d'. removeClient c d = (True, d') \<and> ds_set d' = removeAll c (ds_set d) \<and> length (ds_set d') = card M - 1 \<and>
    (3 \<le> card M \<longrightarrow> set_ok (M - {c}) (Some (dupClients d')))"
proof -
  have d: "distinct (ds_set d)" "set (ds_set d) = M" "2 \<le> length (ds_set d)" "set (ds_sendHistory d) \<subseteq> M" "card (M - set (ds_sendHistory d)) \<le> 1"
    using assms(1) by auto
  obtain l where l: "l \<in> M" "ds_last d = Some l" using assms(1) by auto
  have fin: "finite M" and card: "card M = length (ds_set d)" using d(1,2) by (auto simp: distinct_card)
  let ?st = "removeAll c (ds_set d)"
  have set: "set ?st = M - {c}" and dist: "distinct ?st" using d(1,2) by (simp_all add: distinct_removeAll)
  have len: "length ?st = card M - 1" using set dist fin assms(2) by (metis card_Diff_singleton distinct_card)
  let ?h = "trim_loop ?st [] (ds_sendHistory d)"
  have h: "set ?h = set (ds_sendHistory d) - {c}" using set d(4) by (auto simp: set_trim_loop)
  have "(M - {c}) - set ?h \<subseteq> M - set (ds_sendHistory d)" using h by auto
  then have sub: "card ((M - {c}) - set ?h) \<le> 1" using d(5) fin by (meson card_mono finite_Diff le_trans)
  have ne: "?h \<noteq> []" if "3 \<le> card M"
  proof
    assume "?h = []"
    then show False using sub fin assms(2) that by simp
  qed
  define d' where "d' = snd (removeClient c d)"
  have neq: "length ?st \<noteq> length (ds_set d)" using len card assms(2) fin d(3) by linarith
  have r: "removeClient c d = (True, d')" "ds_set d' = ?st" "ds_sendHistory d' = ?h"
    "ds_last d' = (if l = c then (if ?h = [] then None else Some (last ?h)) else Some l)"
    using neq l(2) by (auto simp: removeClient_def Let_def d'_def)
  have "\<exists>x\<in>M - {c}. ds_last d' = Some x" if "3 \<le> card M"
  proof (cases "l = c")
    case True
    have "last ?h \<in> set ?h" using ne [OF that] by (rule last_in_set)
    then show ?thesis using True ne [OF that] h d(4) r(4) by auto
  qed (use l r(4) in auto)
  then show ?thesis using r set dist len sub h d(4) by auto
qed

text \<open>What the switch of \<open>unregisterClient\<close> does to the registry: the connection \<open>c\<close> is no longer among those of its key.\<close>

definition set_removed :: "Server \<Rightarrow> conn set \<Rightarrow> conn \<Rightarrow> Server \<Rightarrow> bool" where
  "set_removed s L c t \<longleftrightarrow> (let k = sc_key (s_conns s c); M = members s L k - {c} in
     (\<exists>st. map_of (s_clients t) = (map_of (s_clients s))(k := st) \<and> set_ok M st) \<and> distinct (map fst (s_clients t)) \<and> mesh_ok t \<and>
     (\<forall>x. sc_key (s_conns t x) = sc_key (s_conns s x) \<and> sc_preferred (s_conns t x) = sc_preferred (s_conns s x) \<and>
       sc_canMesh (s_conns t x) = sc_canMesh (s_conns s x) \<and> sc_remoteIPPort (s_conns t x) = sc_remoteIPPort (s_conns s x)) \<and>
     (\<forall>x\<in>L - {c}. sc_isDup (s_conns t x) = (if sc_key (s_conns s x) = k then 2 \<le> card M else sc_isDup (s_conns s x)) \<and>
       (sc_isDisabled (s_conns t x) \<longrightarrow> sc_isDisabled (s_conns s x) \<and> sc_isDup (s_conns t x))) \<and>
     s_watchers t = s_watchers s \<and> s_dupPolicy t = s_dupPolicy s \<and>
     s_count t curClients = s_count s curClients \<and> s_count t curHomeClients = s_count s curHomeClients \<and>
     s_count s dupClientConns = s_count t dupClientConns + (if card M = 0 then 0 else if card M = 1 then 2 else 1) \<and>
     s_count s dupClientKeys = s_count t dupClientKeys + (if card M = 1 then 1 else 0))"

lemma mesh_ok_cong: "s_clients t = s_clients s \<Longrightarrow> s_clientsMesh t = s_clientsMesh s \<Longrightarrow> mesh_ok s \<Longrightarrow> mesh_ok t"
  unfolding mesh_ok_def by (simp only:) blast

lemma unregister_single:
  assumes inv: "SInv s L" and c: "c \<in> L" and single: "map_of (s_clients s) (sc_key (s_conns s c)) = Some (singleClient a)"
  shows "\<exists>t. unregister_set c s = Some t \<and> set_removed s L c t"
proof -
  note old = SInvD [OF inv]
  let ?k = "sc_key (s_conns s c)"
  have "set_ok (members s L ?k) (Some (singleClient a))" using old(3) single by (metis sets_ok_def)
  then have M: "members s L ?k = {c}" using c by (auto simp: members_def)
  define u where "u = s\<lparr>s_clients := AList.delete ?k (s_clients s)\<rparr>"
  define v where "v = (if map_of (s_clientsMesh s) ?k = Some None then u\<lparr>s_clientsMesh := AList.delete ?k (s_clientsMesh s)\<rparr> else u)"
  have gone: "\<exists>w. (if map_of (s_clientsMesh u) ?k = Some None
      then notePeerGoneFromRegionLocked ?k (u\<lparr>s_clientsMesh := AList.delete ?k (s_clientsMesh u)\<rparr>) else Some u) = Some w \<and> same_core v w"
  proof (cases "map_of (s_clientsMesh s) ?k = Some None")
    case True
    have "notePeerGoneFromRegionLocked ?k v \<noteq> None" using True by (simp add: notePeerGoneFromRegionLocked_def v_def u_def delete_conv' Let_def)
    then obtain w where "notePeerGoneFromRegionLocked ?k v = Some w" by blast
    moreover from this have "same_core v w" using same_reg_notePeerGone same_reg_def by blast
    ultimately show ?thesis using True by (simp add: v_def u_def)
  next
    case False
    then show ?thesis by (simp add: v_def u_def)
  qed
  then obtain w where w: "(if map_of (s_clientsMesh u) ?k = Some None
      then notePeerGoneFromRegionLocked ?k (u\<lparr>s_clientsMesh := AList.delete ?k (s_clientsMesh u)\<rparr>) else Some u) = Some w" "same_core v w" by blast
  have watch: "watch_ok w L" using old(5) by (simp add: watch_ok_def same_coreD [OF w(2)]) (simp add: v_def u_def)
  obtain t where t: "broadcastPeerStateChangeLocked ?k zeroAddrPort False w = Some t" "same_core w t"
    using broadcast_core [OF watch] by blast
  have "unregister_set c s = Some t" using single w(1) [unfolded u_def] t(1) by (simp add: unregister_set_def Let_def)
  moreover have "set_removed s L c t"
  proof -
    have "mesh_ok v" using old(6) by (auto simp: mesh_ok_def v_def u_def delete_conv' distinct_delete simp del: map_of_eq_Some_iff)
    then have "mesh_ok t" by (rule mesh_ok_cong [rotated 2]) (simp_all add: same_coreD [OF t(2)] same_coreD [OF w(2)])
    moreover have "sc_key (s_conns s x) \<noteq> ?k" if "x \<in> L - {c}" for x using M that by (auto simp: members_def)
    moreover have "sc_isDup (s_conns s x)" if "x \<in> L" "sc_isDisabled (s_conns s x)" for x using old(4) that by (auto simp: flags_ok_def Let_def)
    moreover have "s_conns v = s_conns s" "s_watchers v = s_watchers s" "s_count v = s_count s" "s_dupPolicy v = s_dupPolicy s"
      "s_clients v = AList.delete ?k (s_clients s)" by (simp_all add: v_def u_def)
    ultimately show ?thesis
      using M old(2) by (auto simp: set_removed_def Let_def same_coreD [OF t(2)] same_coreD [OF w(2)] delete_conv' distinct_delete)
  qed
  ultimately show ?thesis by blast
qed

lemma unregister_dup:
  assumes inv: "SInv s L" and c: "c \<in> L" and dups: "map_of (s_clients s) (sc_key (s_conns s c)) = Some (dupClients d)"
  shows "\<exists>t. unregister_set c s = Some t \<and> set_removed s L c t"
proof -
  note old = SInvD [OF inv]
  define k where "k = sc_key (s_conns s c)"
  define M where "M = members s L k"
  have ok: "set_ok M (Some (dupClients d))" using old(3) dups by (metis sets_ok_def k_def M_def)
  have cM: "c \<in> M" "finite M" using c old(1) by (simp_all add: M_def k_def members_def)
  have two: "2 \<le> card M" using ok by (auto simp: distinct_card [symmetric])
  obtain d' where d': "removeClient c d = (True, d')" "ds_set d' = removeAll c (ds_set d)" "length (ds_set d') = card M - 1"
    "3 \<le> card M \<longrightarrow> set_ok (M - {c}) (Some (dupClients d'))" using removeClient_ok [OF ok cM(1)] by blast
  have cd: "card (M - {c}) = card M - 1" using cM by simp
  have mesh: "mesh_ok (u\<lparr>s_clients := AList.update k st (s_clients s)\<rparr>)" if "s_clientsMesh u = s_clientsMesh s" for st u
    using old(6) that dups by (auto simp: mesh_ok_def update_conv' k_def simp del: map_of_eq_Some_iff)
  have dup: "sc_isDup (s_conns s x)" if "x \<in> L" "sc_isDisabled (s_conns s x) \<or> sc_key (s_conns s x) = k" for x
    using old(4) that two by (auto simp: flags_ok_def Let_def M_def)
  show ?thesis
  proof (cases "card M = 2")
    case True
    then have "length (ds_set d') = 1" using d'(3) by simp
    then obtain r where r: "ds_set d' = [r]" by (auto simp: length_Suc_conv)
    then have rM: "M - {c} = {r}" using d'(2) ok by (metis list.simps(15) list.set(1) set_ok.simps(3) set_removeAll)
    define t where "t = (upd_conn r (\<lambda>x. x\<lparr>sc_isDisabled := False, sc_isDup := False\<rparr>)
        (count_Add dupClientKeys (- 1) (count_Add dupClientConns (- 1) (count_Add dupClientConns (- 1) s))))
        \<lparr>s_clients := AList.update k (singleClient r) (s_clients s)\<rparr>"
    have "unregister_set c s = Some t"
      using dups d'(1) r by (simp add: unregister_set_def k_def t_def Let_def) (simp add: upd_conn_def count_Add_def)
    moreover have "sc_key (s_conns s x) = k \<longleftrightarrow> x = r" if "x \<in> L" "x \<noteq> c" for x using rM that by (auto simp: M_def members_def)
    then have "set_removed s L c t"
      unfolding set_removed_def Let_def k_def [symmetric] M_def [symmetric] rM
      using mesh old(2) dup
      by (auto simp: t_def upd_conn_def count_Add_def update_conv' distinct_update)
    ultimately show ?thesis by blast
  next
    case False
    then have three: "3 \<le> card M" using two by simp
    define t where "t = (count_Add dupClientConns (- 1) s)\<lparr>s_clients := AList.update k (dupClients d') (s_clients s)\<rparr>"
    have "unregister_set c s = Some t"
      using dups d'(1,3) three by (simp add: unregister_set_def k_def t_def Let_def count_Add_def)
    moreover have "set_removed s L c t"
      unfolding set_removed_def Let_def k_def [symmetric] M_def [symmetric]
      using mesh old(2) dup cd three d'(4)
      by (auto simp: t_def count_Add_def update_conv' distinct_update)
    ultimately show ?thesis by blast
  qed
qed

lemma unregister_set_ok:
  assumes inv: "SInv s L" and c: "c \<in> L"
  shows "\<exists>t. unregister_set c s = Some t \<and> set_removed s L c t"
proof -
  let ?k = "sc_key (s_conns s c)"
  have "c \<in> members s L ?k" using c by (simp add: members_def)
  moreover have "set_ok (members s L ?k) (map_of (s_clients s) ?k)" using SInvD(3) [OF inv] by (simp add: sets_ok_def)
  ultimately obtain st where "map_of (s_clients s) ?k = Some st" by (cases "map_of (s_clients s) ?k") auto
  then show ?thesis using unregister_single [OF inv c] unregister_dup [OF inv c] by (cases st) blast+
qed

lemma unregisterClient_ok:
  assumes inv: "SInv s L" and c: "c \<in> L"
  shows "\<exists>s'. unregisterClient c s = Some s' \<and> SInv s' (L - {c})"
proof -
  note old = SInvD [OF inv]
  let ?k = "sc_key (s_conns s c)"
  obtain t where t: "unregister_set c s = Some t" "set_removed s L c t" using unregister_set_ok [OF inv c] by blast
  note r = t(2) [unfolded set_removed_def Let_def]
  obtain u where u: "unregisterClient c s = Some u" by (simp add: unregisterClient_def t(1) Let_def)
  have w: "c \<notin> s_watchers s" if "\<not> sc_canMesh (s_conns s c)" using old(5) that by (auto simp: watch_ok_def)
  have eq: "s_clients u = s_clients t" "s_conns u = s_conns t" "s_watchers u = s_watchers s - {c}" "s_clientsMesh u = s_clientsMesh t"
    "s_dupPolicy u = s_dupPolicy s" "s_count u curClients = s_count s curClients - 1" "s_count u dupClientConns = s_count t dupClientConns"
    "s_count u dupClientKeys = s_count t dupClientKeys"
    "s_count u curHomeClients = s_count s curHomeClients - (if sc_preferred (s_conns s c) then 1 else 0)"
  proof -
    have rt: "sc_canMesh (s_conns t c) = sc_canMesh (s_conns s c)" "sc_preferred (s_conns t c) = sc_preferred (s_conns s c)"
      "s_watchers t = s_watchers s" "s_dupPolicy t = s_dupPolicy s" "s_count t curClients = s_count s curClients"
      "s_count t curHomeClients = s_count s curHomeClients" using r by simp_all
    show "s_clients u = s_clients t" "s_conns u = s_conns t" "s_watchers u = s_watchers s - {c}" "s_clientsMesh u = s_clientsMesh t"
      "s_dupPolicy u = s_dupPolicy s" "s_count u curClients = s_count s curClients - 1" "s_count u dupClientConns = s_count t dupClientConns"
      "s_count u dupClientKeys = s_count t dupClientKeys"
      "s_count u curHomeClients = s_count s curHomeClients - (if sc_preferred (s_conns s c) then 1 else 0)"
      using u w rt by (cases "sc_canMesh (s_conns s c)"; cases "sc_preferred (s_conns s c)";
        force simp: unregisterClient_def t(1) Let_def count_Add_def)+
  qed
  obtain st where st: "map_of (s_clients t) = (map_of (s_clients s))(?k := st)" "set_ok (members s L ?k - {c}) st" using r by blast
  have "SInv u (L - {c})"
  proof (rule SInv_unregister [OF inv c _ refl, where st = st])
    show "mesh_ok u" by (rule mesh_ok_cong [OF eq(1,4)]) (use r in simp)
    show "sc_isDup (s_conns u x) = (if sc_key (s_conns s x) = ?k then 2 \<le> card (members s L ?k - {c}) else sc_isDup (s_conns s x))"
      if "x \<in> L - {c}" for x using r that by (simp add: eq)
    show "sc_isDisabled (s_conns s x) \<and> sc_isDup (s_conns u x)" if "x \<in> L - {c}" "sc_isDisabled (s_conns u x)" for x
      using r that unfolding eq by blast
  qed (use r st in \<open>simp_all add: eq Let_def\<close>)
  then show ?thesis using u by blast
qed

subsection \<open>The other steps\<close>

text \<open>A state that differs in the record of one key and in the flags of its connections.\<close>

lemma SInv_entry:
  assumes inv: "SInv s L"
    and key: "\<And>x. sc_key (s_conns t x) = sc_key (s_conns s x) \<and> sc_isDup (s_conns t x) = sc_isDup (s_conns s x) \<and>
      sc_preferred (s_conns t x) = sc_preferred (s_conns s x) \<and> sc_canMesh (s_conns t x) = sc_canMesh (s_conns s x)"
    and cl: "s_clients t = AList.update k st (s_clients s)" "map_of (s_clients s) k \<noteq> None" "set_ok (members s L k) (Some st)"
    and dis: "\<And>x. x \<in> L \<Longrightarrow> sc_isDisabled (s_conns t x) \<Longrightarrow> sc_isDup (s_conns s x) \<and> s_dupPolicy s = disableFighters"
    and same: "s_watchers t = s_watchers s" "s_clientsMesh t = s_clientsMesh s" "s_count t = s_count s" "s_dupPolicy t = s_dupPolicy s"
  shows "SInv t L"
proof -
  note old = SInvD [OF inv]
  have mem: "members t L x = members s L x" for x using key by (simp add: members_def)
  have "sets_ok t L" using old(3) cl by (auto simp: sets_ok_def mem update_conv')
  moreover have "flags_ok t L" using old(4) key dis same(4) by (auto simp: flags_ok_def Let_def mem)
  moreover have "mesh_ok t" using old(6) cl(1,2) same(2) by (auto simp: mesh_ok_def update_conv' simp del: map_of_eq_Some_iff)
  ultimately show ?thesis
    using old key same cl(1) by (simp add: SInv_def watch_ok_def count_ok_def mem distinct_update)
qed

lemma noteClientActivity_ok:
  assumes inv: "SInv s L" and c: "c \<in> L"
  shows "SInv (noteClientActivity c s) L"
proof -
  note old = SInvD [OF inv]
  define k where "k = sc_key (s_conns s c)"
  have cM: "c \<in> members s L k" using c by (simp add: k_def members_def)
  show ?thesis
  proof (cases "sc_isDup (s_conns s c) \<and> \<not> sc_isDisabled (s_conns s c) \<and> (\<exists>d. map_of (s_clients s) k = Some (dupClients d))")
    case True
    then obtain d where d: "map_of (s_clients s) k = Some (dupClients d)" by blast
    have ok: "set_ok (members s L k) (Some (dupClients d))" using old(3) d by (metis sets_ok_def)
    define d1 where "d1 = (if s_dupPolicy s = lastWriterIsActive then d\<lparr>ds_last := Some c\<rparr>
        else if ds_last d = None then d\<lparr>ds_last := Some c\<rparr> else d)"
    have d1: "ds_set d1 = ds_set d" "ds_sendHistory d1 = ds_sendHistory d" "ds_last d1 \<in> {Some c, ds_last d}" by (auto simp: d1_def)
    have ok1: "set_ok (members s L k) (Some (dupClients d1))" using ok d1 cM by auto
    have ok2: "set_ok (members s L k) (Some (dupClients (d1\<lparr>ds_sendHistory := ds_sendHistory d1 @ [c]\<rparr>)))"
    proof -
      have "card (members s L k - set (ds_sendHistory d1 @ [c])) \<le> card (members s L k - set (ds_sendHistory d1))"
        using old(1) by (intro card_mono) auto
      then show ?thesis using ok1 cM by auto
    qed
    let ?t = "if s_dupPolicy s = disableFighters \<and> c \<in> set (ds_sendHistory d1)
      then s\<lparr>s_conns := (\<lambda>x. if x \<in> set (ds_set d1) then (s_conns s x)\<lparr>sc_isDisabled := True\<rparr> else s_conns s x)\<rparr> else s"
    have eq: "noteClientActivity c s =
        (if length (ds_sendHistory d1) \<noteq> 0 \<and> last (ds_sendHistory d1) = c then s\<lparr>s_clients := AList.update k (dupClients d1) (s_clients s)\<rparr>
         else ?t\<lparr>s_clients := AList.update k (dupClients (d1\<lparr>ds_sendHistory := ds_sendHistory d1 @ [c]\<rparr>)) (s_clients s)\<rparr>)"
      using True d unfolding noteClientActivity_def d1_def k_def Let_def by simp
    have dup: "sc_isDup (s_conns s x)" if "x \<in> L" "sc_isDisabled (s_conns s x) \<or> x \<in> set (ds_set d1)" for x
    proof -
      have "2 \<le> card (members s L k)" using ok by (auto simp: distinct_card [symmetric])
      moreover have "sc_key (s_conns s x) = k" if "x \<in> set (ds_set d1)" using that ok d1(1) by (auto simp: members_def)
      ultimately show ?thesis using old(4) that by (auto simp: flags_ok_def Let_def)
    qed
    have pol: "s_dupPolicy s = disableFighters" if "x \<in> L" "sc_isDisabled (s_conns s x)" for x
      using old(4) that by (auto simp: flags_ok_def Let_def)
    have "SInv (s\<lparr>s_clients := AList.update k (dupClients d1) (s_clients s)\<rparr>) L"
      by (rule SInv_entry [OF inv _ _ _ ok1]) (use d dup pol in auto)
    moreover have "SInv (?t\<lparr>s_clients := AList.update k (dupClients (d1\<lparr>ds_sendHistory := ds_sendHistory d1 @ [c]\<rparr>)) (s_clients s)\<rparr>) L"
      by (rule SInv_entry [OF inv _ _ _ ok2]) (use d dup pol in \<open>auto split: if_splits\<close>)
    ultimately show ?thesis unfolding eq by simp
  next
    case False
    then have "noteClientActivity c s = s" unfolding noteClientActivity_def k_def by (auto split: option.splits clientSet.splits)
    then show ?thesis using inv by simp
  qed
qed

lemma setPreferred_ok:
  assumes inv: "SInv s L" and c: "c \<in> L"
  shows "SInv (setPreferred now c v s) L"
proof (cases "sc_preferred (s_conns s c) = v")
  case False
  note old = SInvD [OF inv]
  define t where "t = count_Add curHomeClients (if v then 1 else - 1) (upd_conn c (\<lambda>x. x\<lparr>sc_preferred := v\<rparr>) s)"
  have eq: "s_clients t = s_clients s" "s_watchers t = s_watchers s" "s_clientsMesh t = s_clientsMesh s" "s_dupPolicy t = s_dupPolicy s"
    "\<And>x. sc_key (s_conns t x) = sc_key (s_conns s x)" "\<And>x. sc_isDup (s_conns t x) = sc_isDup (s_conns s x)"
    "\<And>x. sc_isDisabled (s_conns t x) = sc_isDisabled (s_conns s x)" "\<And>x. sc_canMesh (s_conns t x) = sc_canMesh (s_conns s x)"
    by (simp_all add: t_def count_Add_def upd_conn_def)
  have mem: "members t L = members s L" by (rule ext) (simp add: members_def eq)
  have "{x \<in> L. sc_preferred (s_conns t x)} =
      (if v then insert c {x \<in> L. sc_preferred (s_conns s x)} else {x \<in> L. sc_preferred (s_conns s x)} - {c})"
    using c by (auto simp: t_def count_Add_def upd_conn_def)
  then have "int (card {x \<in> L. sc_preferred (s_conns t x)}) = int (card {x \<in> L. sc_preferred (s_conns s x)}) + (if v then 1 else - 1)"
    using False c old(1) card_Suc_Diff1 [of "{x \<in> L. sc_preferred (s_conns s x)}" c] by (cases v) auto
  then have "count_ok t L" using old(7) by (simp add: count_ok_def mem eq) (simp add: t_def count_Add_def upd_conn_def)
  moreover have "mesh_ok t" by (rule mesh_ok_cong [OF eq(1,3) old(6)])
  ultimately have t: "SInv t L" using old by (auto simp: SInv_def sets_ok_def flags_ok_def watch_ok_def Let_def mem eq)
  have "setPreferred now c v s = (if now - sc_connectedAt (s_conns t c) > 5 * 1000000000 then count_Add (if v then homeMovesIn else homeMovesOut) 1 t else t)"
    using False by (simp add: setPreferred_def t_def Let_def)
  then show ?thesis using t SInv_same [OF same_reg_count _ , of "if v then homeMovesIn else homeMovesOut" t L 1] by auto
qed (simp add: setPreferred_def inv)

lemma addWatcher_ok:
  assumes inv: "SInv s L" and c: "c \<in> L" "sc_canMesh (s_conns s c)"
  shows "\<exists>s'. addWatcher c s = Some s' \<and> SInv s' L"
proof -
  have step: "SInv t L"
    if "same_core s (t\<lparr>s_watchers := s_watchers s\<rparr>)" "s_watchers t = insert c (s_watchers s)" for t
  proof -
    have 1: "SInv (t\<lparr>s_watchers := s_watchers s\<rparr>) L" using SInv_core that(1) inv by blast
    have "sc_canMesh (s_conns t w) = sc_canMesh (s_conns s w)" for w using same_coreD(10) [OF that(1)] by simp
    then have "watch_ok t L" using SInvD(5) [OF inv] c that(2) by (auto simp: watch_ok_def)
    moreover have "mesh_ok t" by (rule mesh_ok_cong [OF _ _ SInvD(6) [OF 1]]) simp_all
    ultimately show ?thesis
      using 1 by (simp add: SInv_def sets_ok_def flags_ok_def count_ok_def members_def)
  qed
  show ?thesis
  proof (cases "sc_key (s_conns s c) = s_publicKey s")
    case False
    then obtain t where "addWatcher c s = Some t" using c by (simp add: addWatcher_def requestMeshUpdate_def upd_conn_def Let_def)
    moreover from this have "same_core s (t\<lparr>s_watchers := s_watchers s\<rparr>)" "s_watchers t = insert c (s_watchers s)"
      using c False by (auto simp: addWatcher_def requestMeshUpdate_def upd_conn_def Let_def same_core_def split: if_split_asm)
    ultimately show ?thesis using step by blast
  qed (use c inv in \<open>simp add: addWatcher_def\<close>)
qed

end
