(* ===== verification/Derp_Sender.thy ===== *)
theory Derp_Sender
  imports Derp_Mesh
begin

section \<open>Package \<open>derp\<close>: the sender of a connection, and the login\<close>

text \<open>
  The goroutine of \<open>src/derp/derp_server.go\<close> that writes to a client, and how a client logs in. A round of \<open>sendLoop\<close> takes one of the
  cases of its select statement that are ready; which one is the choice of the runtime. \<open>CaseDone\<close> is the end of its context. The \<open>lazyBufioWriter\<close>, which returns
  its buffer to a pool after each flush, is one writer of a fixed size. The channel \<open>meshUpdate\<close> is nil, and never
  ready, for a client outside the mesh.
\<close>

subsection \<open>Writing frames to a client\<close>

definition on_conn :: "(bufw \<Rightarrow> wres) \<Rightarrow> conn \<Rightarrow> Server \<Rightarrow> ferr option \<times> Server" where
  "on_conn f c s = (case f (sc_bw (s_conns s c)) of (e, w) \<Rightarrow> (e, upd_conn c (\<lambda>x. x\<lparr>sc_bw := w\<rparr>) s))"

definition sendKeepAlive :: "conn \<Rightarrow> Server \<Rightarrow> ferr option \<times> Server" where
  "sendKeepAlive c s = on_conn (writeFrameHeader frameKeepAlive 0) c s"

definition sendPong :: "conn \<Rightarrow> bytes \<Rightarrow> Server \<Rightarrow> ferr option \<times> Server" where
  "sendPong c data s =
     on_conn (\<lambda>w. wthen (writeFrameHeader framePong (of_nat (length data)) w) (bw_Write data)) c (count_Add sentPong 1 s)"

definition sendPeerGone :: "conn \<Rightarrow> nodekey \<Rightarrow> byte \<Rightarrow> Server \<Rightarrow> ferr option \<times> Server" where
  "sendPeerGone c peer reason s =
     (let s = (if reason = PeerGoneReasonDisconnected then count_Add peerGoneDisconnectedFrames 1 s
               else if reason = PeerGoneReasonNotHere then count_Add peerGoneNotHereFrames 1 s else s);
          data = peer @ [reason]
      in on_conn (\<lambda>w. wthen (writeFrameHeader framePeerGone (of_nat (length data)) w) (bw_Write data)) c s)"

definition sendPeerPresent :: "conn \<Rightarrow> nodekey \<Rightarrow> addrport \<Rightarrow> Server \<Rightarrow> ferr option \<times> Server" where
  "sendPeerPresent c peer ipPort s =
     (let frameLen = keyLen + 16 + 2;
          payload = peer @ As16 (ap_addr ipPort) @ be_bytes 2 (ap_port ipPort)
      in on_conn (\<lambda>w. wthen (writeFrameHeader framePeerPresent (of_nat frameLen) w) (bw_Write payload)) c s)"

definition sendPacket :: "conn \<Rightarrow> nodekey \<Rightarrow> bytes \<Rightarrow> Server \<Rightarrow> ferr option \<times> Server" where
  "sendPacket c srcKey contents s =
     (let withKey = \<not> NodeKey_IsZero srcKey;
          pktLen = length contents + (if withKey then rawKeyLen else 0);
          (e, s) = on_conn (\<lambda>w. wthen (writeFrameHeader frameRecvPacket (of_nat pktLen) w) (\<lambda>w.
                     wthen (if withKey then write_bytes srcKey w else (None, w)) (bw_Write contents))) c s
      in (e, case e of
          Some _ \<Rightarrow> recordDrop contents dropReasonWriteError s
        | None \<Rightarrow> count_Add bytesSent (int (length contents)) (count_Add packetsSent 1 s)))"

fun mesh_loop :: "conn \<Rightarrow> peerConnState list \<Rightarrow> nat \<Rightarrow> Server \<Rightarrow> ferr option \<times> nat \<times> Server" where
  "mesh_loop c [] n s = (None, n, s)"
| "mesh_loop c (pcs # ps) n s =
     (if bw_Available (sc_bw (s_conns s c)) \<le> frameHeaderLen + keyLen then (None, n, s)
      else (case (if pcs_present pcs then sendPeerPresent c (pcs_peer pcs) (pcs_ipPort pcs) s
                  else sendPeerGone c (pcs_peer pcs) PeerGoneReasonDisconnected s) of
          (Some e, s) \<Rightarrow> (Some e, n, s)
        | (None, s) \<Rightarrow> mesh_loop c ps (n + 1) s))"

definition sendMeshUpdates :: "conn \<Rightarrow> Server \<Rightarrow> (ferr option \<times> Server) option" where
  "sendMeshUpdates c s =
     (case mesh_loop c (sc_peerStateChange (s_conns s c)) 0 s of
        (Some e, n, s) \<Rightarrow> Some (Some e, s)
      | (None, n, s) \<Rightarrow>
          let s = upd_conn c (\<lambda>x. x\<lparr>sc_peerStateChange := drop n (sc_peerStateChange x)\<rparr>) s in
          if sc_peerStateChange (s_conns s c) = [] then Some (None, s)
          else map_option (\<lambda>s. (None, s)) (requestMeshUpdate c s))"

subsection \<open>The loop of the sender\<close>

datatype sendCase = CasePeerGone nat | CaseMeshUpdate | CaseSend | CaseDiscoSend | CasePong | CaseKeepAlive | CaseFlush | CaseDone

fun send_ready :: "sclient \<Rightarrow> sendCase \<Rightarrow> bool" where
  "send_ready x (CasePeerGone i) = (i < length (sc_peerGone x))"
| "send_ready x CaseMeshUpdate = (sc_canMesh x \<and> sc_meshUpdate x > 0)"
| "send_ready x CaseSend = (sc_sendQueue x \<noteq> [])"
| "send_ready x CaseDiscoSend = (sc_discoSendQueue x \<noteq> [])"
| "send_ready x CasePong = (sc_sendPongCh x \<noteq> None)"
| "send_ready x CaseKeepAlive = True"
| "send_ready x CaseDone = True"
| "send_ready x CaseFlush = (sc_peerGone x = [] \<and> sc_meshUpdate x = 0 \<and> sc_sendQueue x = [] \<and> sc_discoSendQueue x = [] \<and> sc_sendPongCh x = None)"

fun send_case :: "conn \<Rightarrow> sendCase \<Rightarrow> Server \<Rightarrow> (ferr option \<times> Server) option" where
  "send_case c (CasePeerGone i) s =
     (let q = sc_peerGone (s_conns s c); (peer, reason) = q ! i in
      Some (sendPeerGone c peer reason (upd_conn c (\<lambda>x. x\<lparr>sc_peerGone := take i q @ drop (i + 1) q\<rparr>) s)))"
| "send_case c CaseMeshUpdate s = sendMeshUpdates c (upd_conn c (\<lambda>x. x\<lparr>sc_meshUpdate := sc_meshUpdate x - 1\<rparr>) s)"
| "send_case c CaseSend s =
     (let q = sc_sendQueue (s_conns s c); msg = hd q in
      Some (sendPacket c (p_src msg) (p_bs msg) (upd_conn c (\<lambda>x. x\<lparr>sc_sendQueue := tl q\<rparr>) s)))"
| "send_case c CaseDiscoSend s =
     (let q = sc_discoSendQueue (s_conns s c); msg = hd q in
      Some (sendPacket c (p_src msg) (p_bs msg) (upd_conn c (\<lambda>x. x\<lparr>sc_discoSendQueue := tl q\<rparr>) s)))"
| "send_case c CasePong s =
     Some (sendPong c (the (sc_sendPongCh (s_conns s c))) (upd_conn c (\<lambda>x. x\<lparr>sc_sendPongCh := None\<rparr>) s))"
| "send_case c CaseKeepAlive s = Some (sendKeepAlive c s)"
| "send_case c CaseFlush s = Some (on_conn bw_Flush c s)"
| "send_case c CaseDone s = Some (None, s)"

text \<open>When the loop ends, the connection is closed and what is still queued is counted as dropped.\<close>

fun drain_loop :: "pkt list \<Rightarrow> Server \<Rightarrow> Server" where
  "drain_loop [] s = s"
| "drain_loop (p # ps) s = drain_loop ps (recordDrop (p_bs p) dropReasonGoneDisconnected s)"

definition sendLoop_exit :: "conn \<Rightarrow> Server \<Rightarrow> Server" where
  "sendLoop_exit c s =
     (let x = s_conns s c;
          s = upd_conn c (\<lambda>x. x\<lparr>sc_closed := True, sc_sendQueue := [], sc_discoSendQueue := []\<rparr>) s
      in drain_loop (sc_sendQueue x @ sc_discoSendQueue x) s)"

definition sendLoop_next :: "conn \<Rightarrow> sendCase \<Rightarrow> Server \<Rightarrow> Server option" where
  "sendLoop_next c cs s = do {
     (werr, s) \<leftarrow> send_case c cs s;
     Some (if werr \<noteq> None \<or> cs = CaseDone then sendLoop_exit c s else s) }"

subsection \<open>Login\<close>

definition sendServerKey :: "Server \<Rightarrow> bufw \<Rightarrow> wres" where
  "sendServerKey s w = writeFrame frameServerKey (derp_magic @ s_publicKey s) w"

definition recvClientKey :: "'r dlib \<Rightarrow> Server \<Rightarrow> bytes \<Rightarrow> (ferr + (nodekey \<times> clientInfo) \<times> bytes) option" where
  "recvClientKey D s br =
     (case readFrameTypeHeader frameClientInfo br of
        Inl e \<Rightarrow> Some (Inl e)
      | Inr (fl, br) \<Rightarrow>
        if unat fl < keyLen + nonceLen then Some (Inl (ErrMsg ''short client info''))
        else if unat fl > 256 * 1024 then Some (Inl (ErrMsg ''long client info''))
        else (case ReadRaw br of
            Inl e \<Rightarrow> Some (Inl e)
          | Inr (clientKey, br) \<Rightarrow>
            (case ReadFull (unat fl - keyLen) br of
               Inl e \<Rightarrow> Some (Inl (ErrMsg ''msgbox''))
             | Inr (msgbox, br) \<Rightarrow> do {
                 r \<leftarrow> OpenFrom D (s_privateKey s) clientKey msgbox;
                 Some (case r of
                     None \<Rightarrow> Inl (ErrMsg ''msgbox: cannot open'')
                   | Some msg \<Rightarrow> (case d_json_Unmarshal_clientInfo D msg of
                       None \<Rightarrow> Inl (ErrMsg ''msg'')
                     | Some info \<Rightarrow> Inr ((clientKey, info), br))) })))"

text \<open>
  Which clients are accepted: all of them, those that the local node knows (its answer is the parameter \<open>Status\<close>, its
  own key and those of its peers), or those in the cache of nodes that the control server trusts (the parameter \<open>trusted\<close>).
\<close>

record verify_cfg =
  v_verifyClients :: bool
  v_ctrlURL :: string
  v_derpID :: string

definition verifyClient :: "verify_cfg \<Rightarrow> (nodekey \<times> nodekey set) option \<Rightarrow> (nodekey \<Rightarrow> bool) \<Rightarrow> nodekey \<Rightarrow> ferr option" where
  "verifyClient v Status trusted clientKey =
     (if \<not> v_verifyClients v then None
      else if v_ctrlURL v = [] \<or> v_derpID v = [] then
        (case Status of
           None \<Rightarrow> Some (ErrMsg ''failed to query local tailscaled status'')
         | Some (self, peers) \<Rightarrow>
             if clientKey = self then None
             else if clientKey \<notin> peers then Some (ErrMsg ''client not in set of peers'') else None)
      else if \<not> trusted clientKey then Some (ErrMsg ''client not acceptable due to ctrl server'')
      else None)"

definition new_sclient :: "nodekey \<Rightarrow> addrport \<Rightarrow> bool \<Rightarrow> int \<Rightarrow> Limiter \<Rightarrow> bufw \<Rightarrow> sclient" where
  "new_sclient key ipPort canMesh now lm w =
     \<lparr>sc_key = key, sc_remoteIPPort = ipPort, sc_sendQueue = [], sc_discoSendQueue = [], sc_sendPongCh = None, sc_peerGone = [],
      sc_meshUpdate = 0, sc_canMesh = canMesh, sc_isDup = False, sc_isDisabled = False, sc_connectedAt = now, sc_preferred = False,
      sc_bw = w, sc_peerStateChange = [], sc_peerGoneLim = lm, sc_done = False, sc_closed = False\<rparr>"

definition sendServerInfo :: "'r dlib \<Rightarrow> bytes \<Rightarrow> conn \<Rightarrow> Server \<Rightarrow> (ferr option \<times> Server) option" where
  "sendServerInfo D nonce c s = do {
     let msg = d_json_serverInfo D \<lparr>si_Version = ProtocolVersion, si_TokenBucketBytesPerSecond = 0, si_TokenBucketBytesBurst = 0\<rparr>;
     msgbox \<leftarrow> SealTo D nonce (s_privateKey s) (sc_key (s_conns s c)) msg;
     Some (on_conn (\<lambda>w. wthen (writeFrameHeader frameServerInfo (of_nat (length msgbox)) w) (\<lambda>w. wthen (bw_Write msgbox w) bw_Flush)) c s) }"

text \<open>
  \<open>accept\<close> up to \<open>run\<close>: the connection is registered, or the error that ends it is returned. The result has what is left to read.
\<close>

definition accept_login :: "'r dlib \<Rightarrow> verify_cfg \<Rightarrow> (nodekey \<times> nodekey set) option \<Rightarrow> (nodekey \<Rightarrow> bool) \<Rightarrow> bytes \<Rightarrow> int \<Rightarrow> conn \<Rightarrow>
    addrport \<Rightarrow> bytes \<Rightarrow> bufw \<Rightarrow> Server \<Rightarrow> (ferr option \<times> bytes \<times> Server) option" where
  "accept_login D v Status trusted nonce now connNum remoteIPPort br w s =
     (case sendServerKey s w of
        (Some e, w) \<Rightarrow> Some (Some e, br, s)
      | (None, w) \<Rightarrow> do {
          r \<leftarrow> recvClientKey D s br;
          (case r of
             Inl e \<Rightarrow> Some (Some e, br, s)
           | Inr ((clientKey, info), br) \<Rightarrow>
             (case verifyClient v Status trusted clientKey of
                Some e \<Rightarrow> Some (Some e, br, s)
              | None \<Rightarrow> do {
                  r \<leftarrow> Every 1000000000;
                  lm \<leftarrow> NewLimiter r 3;
                  let canMesh = (ci_MeshKey info \<noteq> [] \<and> ci_MeshKey info = s_meshKey s);
                  let s = s\<lparr>s_conns := (s_conns s)(connNum := new_sclient clientKey remoteIPPort canMesh now lm w)\<rparr>;
                  s \<leftarrow> registerClient connNum s;
                  (e, s) \<leftarrow> sendServerInfo D nonce connNum s;
                  (case e of
                     None \<Rightarrow> Some (None, br, s)
                   | Some e \<Rightarrow> do {
                       s \<leftarrow> unregisterClient connNum s;
                       Some (Some e, br, upd_conn connNum (\<lambda>x. x\<lparr>sc_done := True\<rparr>) s) }) })) })"

end
