(* ===== verification/Derp_Reach.thy ===== *)
theory Derp_Reach
  imports Derp_Sender
begin

section \<open>Package \<open>derp\<close>: every history of the server\<close>

text \<open>
  The server as a step relation: connections come and go, clients send frames, and other servers of the
  region announce where their clients are. The theorems hold of every state that such steps reach.
\<close>

subsection \<open>Frames\<close>

lemma handleFrameSendPacket_reg: "same_reg s (snd (snd (handleFrameSendPacket now c fl br s)))"
proof (cases "recvPacket fl br s")
  case (Inr r)
  obtain k b br' s' where "r = ((k, b), br', s')" by (metis prod.collapse)
  then show ?thesis using Inr same_reg_recvPacket [of fl br s] same_reg_trans [OF _ same_reg_deliverSent]
    by (simp add: handleFrameSendPacket_def)
qed (simp add: handleFrameSendPacket_def)

lemma handleFrameForwardPacket_reg: "same_reg s (snd (snd (handleFrameForwardPacket now c fl br s)))"
  using same_reg_deliverForwarded by (auto simp: handleFrameForwardPacket_def split: sum.split)

lemma handleFrameClosePeer_reg: "same_reg s (snd (snd (handleFrameClosePeer c fl br s)))"
proof -
  have "same_reg s (s\<lparr>s_conns := (\<lambda>x. if x \<in> X then (s_conns s x)\<lparr>sc_closed := True\<rparr> else s_conns s x)\<rparr>)" for X
    by (simp add: same_reg_def same_core_def Let_def)
  then show ?thesis by (simp add: handleFrameClosePeer_def split: sum.split option.split)
qed

lemma handleFramePing_reg: "same_reg s (snd (snd (handleFramePing c fl br s)))"
proof -
  have 1: "same_reg s (count_Add gotPing 1 s)" by (rule same_reg_count) simp
  have 2: "same_reg s (upd_conn c (\<lambda>x. case sc_sendPongCh x of None \<Rightarrow> x\<lparr>sc_sendPongCh := Some m\<rparr> | Some _ \<Rightarrow> x) s)" for s m
    by (rule same_reg_conn) (simp split: option.split)
  show ?thesis using 1 same_reg_trans [OF 1 2] by (simp add: handleFramePing_def Let_def split: sum.split prod.split)
qed

lemma run_next_ok:
  assumes inv: "SInv s L" and c: "c \<in> L"
  shows "\<exists>r s'. run_next now c br s = Some (r, s') \<and> SInv s' L"
proof (cases "readFrameHeader br")
  case (Inl e)
  then show ?thesis using inv by (simp add: run_next_def)
next
  case (Inr h)
  obtain ft fl br' where h: "h = ((ft, fl), br')" by (metis prod.collapse)
  let ?s = "noteClientActivity c s"
  have s: "SInv ?s L" by (rule noteClientActivity_ok [OF inv c])
  have pref: "SInv (snd (snd (handleFrameNotePreferred now c fl br' ?s))) L"
    using s setPreferred_ok [OF s c] by (auto simp: handleFrameNotePreferred_def split: sum.split)
  have watch: "\<exists>r. handleFrameWatchConns c fl br' ?s = Some r \<and> SInv (snd (snd r)) L"
    using s addWatcher_ok [OF s c] by (auto simp: handleFrameWatchConns_def)
  have reg: "SInv (snd (snd r)) L" if "same_reg ?s (snd (snd r))" for r :: hres using SInv_same [OF that s] .
  have unk: "SInv (snd (snd (handleUnknownFrame fl br' ?s))) L" using s by (simp add: handleUnknownFrame_def split: sum.split)
  have 1: "SInv (snd (snd (handleFrameSendPacket now c fl br' ?s))) L" "SInv (snd (snd (handleFrameForwardPacket now c fl br' ?s))) L"
    "SInv (snd (snd (handleFrameClosePeer c fl br' ?s))) L" "SInv (snd (snd (handleFramePing c fl br' ?s))) L"
    by (intro reg handleFrameSendPacket_reg handleFrameForwardPacket_reg handleFrameClosePeer_reg handleFramePing_reg)+
  have "\<exists>r. (if ft = frameNotePreferred then Some (handleFrameNotePreferred now c fl br' ?s)
             else if ft = frameSendPacket then Some (handleFrameSendPacket now c fl br' ?s)
             else if ft = frameForwardPacket then Some (handleFrameForwardPacket now c fl br' ?s)
             else if ft = frameWatchConns then handleFrameWatchConns c fl br' ?s
             else if ft = frameClosePeer then Some (handleFrameClosePeer c fl br' ?s)
             else if ft = framePing then Some (handleFramePing c fl br' ?s)
             else Some (handleUnknownFrame fl br' ?s)) = Some r \<and> SInv (snd (snd r)) L"
    using pref watch 1 unk by (simp del: split_paired_Ex)
  then show ?thesis using Inr h by (auto simp: run_next_def Let_def)
qed

subsection \<open>Forwarders\<close>

lemma SInv_mesh:
  assumes "SInv s L" "s_clients t = s_clients s" "s_conns t = s_conns s" "s_watchers t = s_watchers s" "s_dupPolicy t = s_dupPolicy s"
    and "\<And>v. v \<in> {curClients, curHomeClients, dupClientConns, dupClientKeys} \<Longrightarrow> s_count t v = s_count s v" "mesh_ok t"
  shows "SInv t L"
  using assms(1,7) assms(6) by (simp add: SInv_def sets_ok_def flags_ok_def watch_ok_def count_ok_def members_def assms(2-5))

lemma mesh_ok_update:
  assumes "mesh_ok s" "\<And>m. v = Some (MultiFwd m) \<Longrightarrow> mf_ok m" "v = None \<Longrightarrow> map_of (s_clients s) k \<noteq> None"
    and "s_clients t = s_clients s" "s_clientsMesh t = AList.update k v (s_clientsMesh s)"
  shows "mesh_ok t"
  using assms by (auto simp: mesh_ok_def update_conv' distinct_update simp del: map_of_eq_Some_iff)

lemma mf_ok_new: "p \<noteq> fwd \<Longrightarrow> mf_ok (newMultiForwarder p [fwd])"
  by (simp add: mf_ok_def newMultiForwarder_def)

lemma mf_ok_add: "mf_ok m \<Longrightarrow> map_of (mf_all m) fwd = None \<Longrightarrow> mf_ok (mf_add fwd m)"
  by (auto simp: mf_ok_def mf_add_def distinct_update dom_update image_iff map_of_eq_None_iff AList_update_notin)

lemma AddPacketForwarder_ok:
  assumes inv: "SInv s L"
  shows "SInv (AddPacketForwarder dst fwd s) L"
proof -
  note mesh = SInvD(6) [OF inv]
  have put: "SInv (t\<lparr>s_clientsMesh := AList.update dst (Some v) (s_clientsMesh s)\<rparr>) L"
    if "\<And>m. v = MultiFwd m \<Longrightarrow> mf_ok m" "t = s \<or> t = count_Add multiForwarderCreated 1 s" for v t
    by (rule SInv_mesh [OF inv], use that(2) in \<open>auto simp: count_Add_def\<close>)
      (rule mesh_ok_update [OF mesh, where k = dst and v = "Some v"], use that in \<open>auto simp: count_Add_def\<close>)+
  have "mf_ok m" if "map_of (s_clientsMesh s) dst = Some (Some (MultiFwd m))" for m using mesh that by (simp add: mesh_ok_def del: map_of_eq_Some_iff)
  moreover have "SInv (s\<lparr>s_clientsMesh := AList.update dst (Some (Fwd f)) (s_clientsMesh s)\<rparr>) L" for f by (rule put) simp_all
  moreover have "SInv (s\<lparr>s_clientsMesh := AList.update dst (Some (MultiFwd m)) (s_clientsMesh s)\<rparr>) L"
    "SInv (count_Add multiForwarderCreated 1 s\<lparr>s_clientsMesh := AList.update dst (Some (MultiFwd m)) (s_clientsMesh s)\<rparr>) L" if "mf_ok m" for m
    by (rule put, use that in simp_all)+
  ultimately show ?thesis
    using inv mf_ok_new mf_ok_add
    by (auto simp: AddPacketForwarder_def Let_def count_Add_def split: option.split PacketForwarder.split)
qed

lemma lowest_loop_in: "lowest_loop low fs = Some r \<Longrightarrow> low = Some r \<or> r \<in> set fs"
  by (induction low fs rule: lowest_loop.induct) (auto split: option.split_asm if_split_asm)

lemma lowest_loop_ne: "low \<noteq> None \<or> fs \<noteq> [] \<Longrightarrow> lowest_loop low fs \<noteq> None"
  by (induction low fs rule: lowest_loop.induct) (auto split: option.split if_split)

lemma length_AList_delete: "distinct (map fst al) \<Longrightarrow> length (AList.delete k al) = length al - (if k \<in> fst ` set al then 1 else 0)"
  by (induction al) (auto dest: length_pos_if_in_set)

lemma deleteLocked_ok:
  assumes "mf_ok m"
  shows "case deleteLocked fwd m of (Some r, m') \<Rightarrow> True | (None, m') \<Rightarrow> mf_ok m'"
proof -
  let ?al = "AList.delete fwd (mf_all m)"
  have m: "distinct (map fst (mf_all m))" "2 \<le> length (mf_all m)" "mf_fwd m \<in> fst ` set (mf_all m)" using assms by (auto simp: mf_ok_def)
  then have len: "1 \<le> length ?al" using length_AList_delete [OF m(1), of fwd] by auto
  then obtain k v where r: "lowest_loop None ?al = Some (k, v)" using lowest_loop_ne [of None ?al] by fastforce
  then have "(k, v) \<in> set ?al" using lowest_loop_in by fastforce
  moreover have "mf_fwd m \<in> fst ` set ?al" if "fwd \<noteq> mf_fwd m" using m(3) that by (auto simp: AList.delete_eq image_iff)
  ultimately show ?thesis
    using len r m(1) by (auto simp: deleteLocked_def Let_def mf_ok_def distinct_delete split: prod.split intro: rev_image_eqI)
qed

lemma RemovePacketForwarder_ok:
  assumes inv: "SInv s L"
  shows "\<exists>s'. RemovePacketForwarder dst fwd s = Some s' \<and> SInv s' L"
proof -
  note mesh = SInvD(6) [OF inv]
  have put: "SInv (s\<lparr>s_clientsMesh := AList.update dst v (s_clientsMesh s)\<rparr>) L"
    if "\<And>m. v = Some (MultiFwd m) \<Longrightarrow> mf_ok m" "v = None \<Longrightarrow> map_of (s_clients s) dst \<noteq> None" for v
    by (rule SInv_mesh [OF inv], simp_all) (rule mesh_ok_update [OF mesh that], simp_all)
  have count: "SInv (count_Add v 1 t) L" if "SInv t L" "v \<in> {multiForwarderDeleted, removePktForwardOther}" for t v
    using SInv_same [OF same_reg_count that(1)] that(2) by auto
  show ?thesis
  proof (cases "map_of (s_clientsMesh s) dst")
    case None
    then show ?thesis using inv by (simp add: RemovePacketForwarder_def)
  next
    case (Some v)
    show ?thesis
    proof (cases v)
      case None
      then show ?thesis using Some inv count by (simp add: RemovePacketForwarder_def)
    next
      case v: (Some f)
      show ?thesis
      proof (cases f)
        case (Fwd g)
        let ?t = "s\<lparr>s_clientsMesh := AList.delete dst (s_clientsMesh s)\<rparr>"
        have "\<exists>u. notePeerGoneFromRegionLocked dst ?t = Some u \<and> SInv u L" if cl: "map_of (s_clients s) dst = None"
        proof -
          have "mesh_ok ?t" using mesh cl by (auto simp: mesh_ok_def delete_conv' distinct_delete simp del: map_of_eq_Some_iff)
          then have t: "SInv ?t L" by (intro SInv_mesh [OF inv]) simp_all
          obtain u where u: "notePeerGoneFromRegionLocked dst ?t = Some u" by (simp add: notePeerGoneFromRegionLocked_def delete_conv' Let_def)
          then show ?thesis using SInv_same [OF same_reg_notePeerGone [OF u] t] by blast
        qed
        then show ?thesis using Some v Fwd inv count put [of None] by (auto simp: RemovePacketForwarder_def Let_def)
      next
        case (MultiFwd m)
        have m: "mf_ok m" using mesh Some v MultiFwd by (simp add: mesh_ok_def del: map_of_eq_Some_iff)
        obtain r m' where d: "deleteLocked fwd m = (r, m')" by fastforce
        then have "r = None \<Longrightarrow> mf_ok m'" using deleteLocked_ok [OF m, of fwd] by (simp split: option.split_asm)
        then show ?thesis using Some v MultiFwd m d put [of "Some (MultiFwd m')"] count put [of "Some (Fwd f)" for f]
          by (cases r) (auto simp: RemovePacketForwarder_def Let_def mf_ok_def)
      qed
    qed
  qed
qed

subsection \<open>The sender\<close>

lemma same_reg_on_conn [reg]: "same_reg s (snd (on_conn f c s))"
  by (auto simp: on_conn_def split: prod.split intro!: same_reg_conn)

lemma same_reg_sendPeerGone [reg]: "same_reg s (snd (sendPeerGone c peer reason s))"
proof -
  have "same_reg s (if reason = PeerGoneReasonDisconnected then count_Add peerGoneDisconnectedFrames 1 s
      else if reason = PeerGoneReasonNotHere then count_Add peerGoneNotHereFrames 1 s else s)"
    by (auto intro: same_reg_count)
  then show ?thesis unfolding sendPeerGone_def Let_def by (rule same_reg_trans [OF _ same_reg_on_conn])
qed

lemma same_reg_sendPeerPresent [reg]: "same_reg s (snd (sendPeerPresent c peer ip s))"
  unfolding sendPeerPresent_def Let_def by (rule same_reg_on_conn)

lemma same_reg_sendPong [reg]: "same_reg s (snd (sendPong c data s))"
  unfolding sendPong_def by (rule same_reg_trans [OF same_reg_count same_reg_on_conn]) simp

lemma same_reg_sendPacket [reg]: "same_reg s (snd (sendPacket c src b s))"
proof -
  have 1: "same_reg t (count_Add bytesSent n (count_Add packetsSent 1 t))" for t n
    by (rule same_reg_trans [OF same_reg_count same_reg_count]) simp_all
  have "same_reg s (snd (case on_conn f c s of (e, t) \<Rightarrow> (e, case e of Some _ \<Rightarrow> recordDrop b dropReasonWriteError t
      | None \<Rightarrow> count_Add bytesSent (int (length b)) (count_Add packetsSent 1 t))))" for f
    using same_reg_on_conn [of s f c] same_reg_trans [OF _ 1] same_reg_trans [OF _ same_reg_recordDrop]
    by (auto split: prod.split option.split)
  then show ?thesis unfolding sendPacket_def Let_def .
qed

lemma same_reg_mesh_loop: "mesh_loop c ps n s = (e, n', s') \<Longrightarrow> same_reg s s' \<and> n \<le> n' \<and> n' \<le> n + length ps"
proof (induction c ps n s rule: mesh_loop.induct)
  case (2 c pcs ps n s)
  let ?r = "if pcs_present pcs then sendPeerPresent c (pcs_peer pcs) (pcs_ipPort pcs) s else sendPeerGone c (pcs_peer pcs) PeerGoneReasonDisconnected s"
  have reg: "same_reg s (snd ?r)" using same_reg_sendPeerPresent same_reg_sendPeerGone by simp
  show ?case
  proof (cases "bw_Available (sc_bw (s_conns s c)) \<le> frameHeaderLen + keyLen")
    case False
    obtain e1 t where r: "?r = (e1, t)" by fastforce
    then have "same_reg s t" using reg by simp
    then show ?thesis
      using 2 False r by (cases e1) (auto intro: same_reg_trans)
  qed (use 2 in simp)
qed simp

text \<open>A round of the sender never panics on a registered connection; it takes a prefix of the waiting changes and touches nothing else of the registry.\<close>

definition sent_prefix :: "conn \<Rightarrow> Server \<Rightarrow> Server \<Rightarrow> bool" where
  "sent_prefix c s s' \<longleftrightarrow> same_core s s' \<and> (\<forall>x. x \<noteq> c \<longrightarrow> sc_peerStateChange (s_conns s' x) = sc_peerStateChange (s_conns s x)) \<and>
     (\<exists>n\<le>length (sc_peerStateChange (s_conns s c)). sc_peerStateChange (s_conns s' c) = drop n (sc_peerStateChange (s_conns s c)))"

lemma sent_prefix_reg: "same_reg s s' \<Longrightarrow> sent_prefix c s s'"
  unfolding sent_prefix_def same_reg_def by (metis drop_0 zero_le)

lemma sent_prefix_trans: "same_reg s s' \<Longrightarrow> sent_prefix c s' s'' \<Longrightarrow> sent_prefix c s s''"
  unfolding sent_prefix_def same_reg_def by (auto intro: same_core_trans)

lemma sent_prefix_trans': "sent_prefix c s s' \<Longrightarrow> same_reg s' s'' \<Longrightarrow> sent_prefix c s s''"
  unfolding sent_prefix_def same_reg_def by (auto intro: same_core_trans)

lemma sendMeshUpdates_ok:
  assumes "sc_canMesh (s_conns s c)"
  shows "\<exists>e s'. sendMeshUpdates c s = Some (e, s') \<and> sent_prefix c s s'"
proof -
  obtain e n t where l: "mesh_loop c (sc_peerStateChange (s_conns s c)) 0 s = (e, n, t)" by (metis prod_cases3)
  have t: "same_reg s t" "n \<le> length (sc_peerStateChange (s_conns s c))" using same_reg_mesh_loop [OF l] by auto
  show ?thesis
  proof (cases e)
    case (Some e1)
    then show ?thesis using l t(1) sent_prefix_reg by (auto simp: sendMeshUpdates_def)
  next
    case None
    let ?u = "upd_conn c (\<lambda>x. x\<lparr>sc_peerStateChange := drop n (sc_peerStateChange x)\<rparr>) t"
    have psc: "sc_peerStateChange (s_conns t c) = sc_peerStateChange (s_conns s c)" using t(1) by (simp add: same_reg_def)
    have "sent_prefix c t ?u" using t(2) psc unfolding sent_prefix_def same_core_def upd_conn_def by auto
    then have u: "sent_prefix c s ?u" using t(1) sent_prefix_trans by blast
    have "same_reg ?u (upd_conn c (\<lambda>x. x\<lparr>sc_meshUpdate := sc_meshUpdate x + 1\<rparr>) ?u)" by (rule same_reg_conn) simp
    then have "sent_prefix c s (upd_conn c (\<lambda>x. x\<lparr>sc_meshUpdate := sc_meshUpdate x + 1\<rparr>) ?u)" using u sent_prefix_trans' by blast
    moreover have "sc_canMesh (s_conns ?u c)" using assms same_coreD(10) u unfolding sent_prefix_def by blast
    ultimately show ?thesis using l None u by (simp add: sendMeshUpdates_def requestMeshUpdate_def Let_def)
  qed
qed

lemma same_reg_drain: "same_reg s (drain_loop q s)"
  by (induction q arbitrary: s) (auto intro: same_reg_trans [OF same_reg_recordDrop])

lemma same_reg_exit: "same_reg s (sendLoop_exit c s)"
  unfolding sendLoop_exit_def Let_def by (rule same_reg_trans [OF same_reg_conn same_reg_drain]) simp

lemma sendLoop_next_ok:
  assumes "send_ready (s_conns s c) cs"
  shows "\<exists>s'. sendLoop_next c cs s = Some s' \<and> sent_prefix c s s'"
proof -
  have upd: "same_reg s (upd_conn c (\<lambda>x. x\<lparr>sc_peerGone := q\<rparr>) s)" "same_reg s (upd_conn c (\<lambda>x. x\<lparr>sc_meshUpdate := sc_meshUpdate x - 1\<rparr>) s)"
    "same_reg s (upd_conn c (\<lambda>x. x\<lparr>sc_sendQueue := q1\<rparr>) s)" "same_reg s (upd_conn c (\<lambda>x. x\<lparr>sc_discoSendQueue := q1\<rparr>) s)"
    "same_reg s (upd_conn c (\<lambda>x. x\<lparr>sc_sendPongCh := p\<rparr>) s)" for q q1 p
    by (rule same_reg_conn, simp)+
  have "\<exists>e s'. send_case c cs s = Some (e, s') \<and> sent_prefix c s s'"
  proof (cases "cs = CaseMeshUpdate")
    case True
    let ?t = "upd_conn c (\<lambda>x. x\<lparr>sc_meshUpdate := sc_meshUpdate x - 1\<rparr>) s"
    have "sc_canMesh (s_conns ?t c)" using assms True by (simp add: upd_conn_def)
    from sendMeshUpdates_ok [OF this] show ?thesis using True sent_prefix_trans [OF upd(2)] by fastforce
  next
    case False
    have "\<exists>r. send_case c cs s = Some r \<and> same_reg s (snd r)"
    proof (cases cs)
      case (CasePeerGone i)
      then show ?thesis using same_reg_trans [OF upd(1) same_reg_sendPeerGone]
        by (cases "sc_peerGone (s_conns s c) ! i") (simp add: Let_def del: split_paired_Ex)
    qed (use False in \<open>auto simp: Let_def sendKeepAlive_def simp del: split_paired_Ex
        intro: same_reg_trans [OF upd(3) same_reg_sendPacket] same_reg_trans [OF upd(4) same_reg_sendPacket] same_reg_trans [OF upd(5) same_reg_sendPong] same_reg_on_conn\<close>)
    then show ?thesis using sent_prefix_reg by fastforce
  qed
  then obtain e t where t: "send_case c cs s = Some (e, t)" "sent_prefix c s t" by blast
  then have "sent_prefix c s (sendLoop_exit c t)" using same_reg_exit sent_prefix_trans' by blast
  then show ?thesis using t by (auto simp: sendLoop_next_def)
qed

subsection \<open>Histories\<close>

text \<open>
  The state of a server in the course of time: the server, the connections that are registered, those that ever were, and the changes that have
  been written to each watcher. A connection is made with flags and queues cleared; when it ends, it is unregistered and its channel \<open>done\<close> closes.
\<close>

record derp =
  dp_srv :: Server
  dp_live :: "conn set"
  dp_used :: "conn set"
  dp_told :: "conn \<Rightarrow> peerConnState list"

definition told_more :: "conn \<Rightarrow> Server \<Rightarrow> Server \<Rightarrow> peerConnState list \<Rightarrow> peerConnState list" where
  "told_more c s s' t =
     t @ take (length (sc_peerStateChange (s_conns s c)) - length (sc_peerStateChange (s_conns s' c))) (sc_peerStateChange (s_conns s c))"

inductive derp_step :: "derp \<Rightarrow> derp \<Rightarrow> bool" where
  connect: "c \<notin> dp_used d \<Longrightarrow> fresh_conn x \<Longrightarrow>
    registerClient c ((dp_srv d)\<lparr>s_conns := (s_conns (dp_srv d))(c := x)\<rparr>) = Some s' \<Longrightarrow>
    derp_step d (d\<lparr>dp_srv := s', dp_live := insert c (dp_live d), dp_used := insert c (dp_used d), dp_told := (dp_told d)(c := [])\<rparr>)"
| frame_read: "c \<in> dp_live d \<Longrightarrow> run_next now c br (dp_srv d) = Some (r, s') \<Longrightarrow> derp_step d (d\<lparr>dp_srv := s'\<rparr>)"
| send: "c \<in> dp_live d \<Longrightarrow> send_ready (s_conns (dp_srv d) c) cs \<Longrightarrow> sendLoop_next c cs (dp_srv d) = Some s' \<Longrightarrow>
    derp_step d (d\<lparr>dp_srv := s', dp_told := (dp_told d)(c := told_more c (dp_srv d) s' (dp_told d c))\<rparr>)"
| disconnect: "c \<in> dp_live d \<Longrightarrow> unregisterClient c (dp_srv d) = Some s' \<Longrightarrow>
    derp_step d (d\<lparr>dp_srv := upd_conn c (\<lambda>x. x\<lparr>sc_done := True\<rparr>) s', dp_live := dp_live d - {c}\<rparr>)"
| add_forwarder: "derp_step d (d\<lparr>dp_srv := AddPacketForwarder dst fwd (dp_srv d)\<rparr>)"
| remove_forwarder: "RemovePacketForwarder dst fwd (dp_srv d) = Some s' \<Longrightarrow> derp_step d (d\<lparr>dp_srv := s'\<rparr>)"

text \<open>A server just started.\<close>

definition new_server :: "Server \<Rightarrow> bool" where
  "new_server s \<longleftrightarrow> s_clients s = [] \<and> s_clientsMesh s = [] \<and> s_watchers s = {} \<and> (\<forall>v. s_count s v = 0)"

definition derp_start :: "Server \<Rightarrow> derp" where
  "derp_start s = \<lparr>dp_srv = s, dp_live = {}, dp_used = {}, dp_told = (\<lambda>_. [])\<rparr>"

inductive derp_reachable :: "Server \<Rightarrow> derp \<Rightarrow> bool" for s0 where
  start: "new_server s0 \<Longrightarrow> derp_reachable s0 (derp_start s0)"
| step: "derp_reachable s0 d \<Longrightarrow> derp_step d d' \<Longrightarrow> derp_reachable s0 d'"

inductive_cases derp_stepE: "derp_step d d'"

definition DInv :: "derp \<Rightarrow> bool" where
  "DInv d \<longleftrightarrow> SInv (dp_srv d) (dp_live d) \<and> dp_live d \<subseteq> dp_used d"

lemma SInv_new: "new_server s \<Longrightarrow> SInv s {}"
  by (simp add: new_server_def SInv_def sets_ok_def flags_ok_def watch_ok_def mesh_ok_def count_ok_def members_def)

text \<open>The connection data of a number that is not registered are free to change.\<close>

lemma SInv_other:
  assumes "SInv s L" "\<And>x. x \<in> L \<Longrightarrow> s_conns t x = s_conns s x"
    and eq: "s_clients t = s_clients s" "s_clientsMesh t = s_clientsMesh s" "s_watchers t = s_watchers s" "s_count t = s_count s" "s_dupPolicy t = s_dupPolicy s"
  shows "SInv t L"
proof -
  have mem: "members t L k = members s L k" for k using assms(2) by (auto simp: members_def)
  have "{x \<in> L. sc_preferred (s_conns t x)} = {x \<in> L. sc_preferred (s_conns s x)}"
    "{x \<in> L. sc_isDup (s_conns t x)} = {x \<in> L. sc_isDup (s_conns s x)}" using assms(2) by auto
  then have "count_ok t L" using SInvD(7) [OF assms(1)] by (simp add: count_ok_def eq mem)
  moreover have "mesh_ok t" by (rule mesh_ok_cong [OF eq(1,2) SInvD(6) [OF assms(1)]])
  moreover have "watch_ok t L" using SInvD(5) [OF assms(1)] assms(2) by (auto simp: watch_ok_def eq)
  moreover have "flags_ok t L" using SInvD(4) [OF assms(1)] assms(2) by (auto simp: flags_ok_def Let_def mem eq)
  ultimately show ?thesis using SInvD(1-3) [OF assms(1)] by (simp add: SInv_def sets_ok_def mem eq)
qed

lemma derp_step_inv:
  assumes "derp_step d d'" "DInv d"
  shows "DInv d'"
  using assms
proof (induction rule: derp_step.induct)
  case (connect c d x s')
  let ?t = "(dp_srv d)\<lparr>s_conns := (s_conns (dp_srv d))(c := x)\<rparr>"
  have c: "c \<notin> dp_live d" using connect by (auto simp: DInv_def)
  have "SInv ?t (dp_live d)" by (rule SInv_other [of "dp_srv d"]) (use connect c in \<open>auto simp: DInv_def\<close>)
  from registerClient_ok [OF this c] show ?case using connect by (auto simp: DInv_def)
next
  case (frame_read c d now br r s')
  then show ?case using run_next_ok [of "dp_srv d" "dp_live d" c now br] by (auto simp: DInv_def)
next
  case (send c d cs s')
  have "sent_prefix c (dp_srv d) s'" using sendLoop_next_ok [of "dp_srv d" c cs] send(2,3) by auto
  then have "SInv s' (dp_live d)" using SInv_core send(4) by (auto simp: DInv_def sent_prefix_def)
  then show ?case using send(4) by (simp add: DInv_def)
next
  case (disconnect c d s')
  have "SInv s' (dp_live d - {c})" using unregisterClient_ok [of "dp_srv d" "dp_live d" c] disconnect by (auto simp: DInv_def)
  then have "SInv (upd_conn c (\<lambda>x. x\<lparr>sc_done := True\<rparr>) s') (dp_live d - {c})"
    by (rule SInv_other) (auto simp: upd_conn_def)
  then show ?case using disconnect by (auto simp: DInv_def)
next
  case (add_forwarder d dst fwd)
  then show ?case using AddPacketForwarder_ok by (simp add: DInv_def)
next
  case (remove_forwarder dst fwd d s')
  then show ?case using RemovePacketForwarder_ok [of "dp_srv d" "dp_live d" dst fwd] by (auto simp: DInv_def)
qed

lemma derp_reachable_inv: "derp_reachable s0 d \<Longrightarrow> DInv d"
  by (induction rule: derp_reachable.induct) (auto simp: DInv_def derp_start_def SInv_new dest: derp_step_inv [unfolded DInv_def])

subsection \<open>A sample history\<close>

text \<open>
  Steps as functions, and a history made of them: another server of the region connects and asks to watch, then one client connects twice.
\<close>

definition join :: "conn \<Rightarrow> sclient \<Rightarrow> derp \<Rightarrow> derp" where
  "join c x d = d\<lparr>dp_srv := the (registerClient c ((dp_srv d)\<lparr>s_conns := (s_conns (dp_srv d))(c := x)\<rparr>)), dp_live := insert c (dp_live d),
     dp_used := insert c (dp_used d), dp_told := (dp_told d)(c := [])\<rparr>"

definition feed :: "int \<Rightarrow> conn \<Rightarrow> bytes \<Rightarrow> derp \<Rightarrow> derp" where
  "feed now c br d = d\<lparr>dp_srv := snd (the (run_next now c br (dp_srv d)))\<rparr>"

lemma join_Some:
  assumes "derp_reachable s0 d" "c \<notin> dp_used d" "fresh_conn x"
  obtains s' where "registerClient c ((dp_srv d)\<lparr>s_conns := (s_conns (dp_srv d))(c := x)\<rparr>) = Some s'"
proof -
  have inv: "SInv (dp_srv d) (dp_live d)" "dp_live d \<subseteq> dp_used d" using derp_reachable_inv [OF assms(1)] by (simp_all add: DInv_def)
  have "SInv ((dp_srv d)\<lparr>s_conns := (s_conns (dp_srv d))(c := x)\<rparr>) (dp_live d)"
    by (rule SInv_other [OF inv(1)]) (use inv(2) assms(2) in auto)
  from registerClient_ok [OF this, of c] show thesis using that inv(2) assms(2,3) by auto
qed

lemma join_reachable:
  assumes "derp_reachable s0 d" "c \<notin> dp_used d" "fresh_conn x"
  shows "derp_reachable s0 (join c x d)"
proof -
  obtain s' where s': "registerClient c ((dp_srv d)\<lparr>s_conns := (s_conns (dp_srv d))(c := x)\<rparr>) = Some s'" using join_Some [OF assms] .
  show ?thesis using derp_reachable.step [OF assms(1) derp_step.connect [OF assms(2,3) s']] s' by (simp add: join_def)
qed

lemma feed_reachable:
  assumes "derp_reachable s0 d" "c \<in> dp_live d"
  shows "derp_reachable s0 (feed now c br d)"
proof -
  have "SInv (dp_srv d) (dp_live d)" using derp_reachable_inv [OF assms(1)] by (simp add: DInv_def)
  from run_next_ok [OF this assms(2)] obtain r s' where r: "run_next now c br (dp_srv d) = Some (r, s')" by blast
  show ?thesis using derp_reachable.step [OF assms(1) derp_step.frame_read [OF assms(2) r]] r by (simp add: feed_def)
qed

definition sample_bufw :: bufw where
  "sample_bufw = \<lparr>w_out = [], w_buf = [], w_size = 16, w_room = None, w_err = False\<rparr>"

definition sample_sclient :: "byte \<Rightarrow> bool \<Rightarrow> sclient" where
  "sample_sclient k mesh = new_sclient (replicate 32 k) zeroAddrPort mesh 0 \<lparr>lim_limit = 1, lim_burst = 3, lim_tokens = 3, lim_last = 0\<rparr> sample_bufw"

definition sample_server :: Server where
  "sample_server = \<lparr>s_privateKey = replicate 32 7, s_publicKey = replicate 32 8, s_meshKey = ''mesh'', s_dupPolicy = lastWriterIsActive,
     s_count = (\<lambda>_. 0), s_conns = (\<lambda>_. sample_sclient 0 False), s_clients = [], s_watchers = {}, s_clientsMesh = [], s_sentTo = Map.empty,
     s_keyOfAddr = Map.empty, s_forwarded = []\<rparr>"

definition sample_derp :: derp where
  "sample_derp = join 3 (sample_sclient 2 False) (join 2 (sample_sclient 2 False)
     (feed 0 5 (frame frameWatchConns []) (join 5 (sample_sclient 1 True) (derp_start sample_server))))"

lemma sample_fresh: "fresh_conn (sample_sclient k b)"
  by (simp add: fresh_conn_def sample_sclient_def new_sclient_def)

lemma sample_derp_reachable: "derp_reachable sample_server sample_derp"
  unfolding sample_derp_def
  by (intro join_reachable feed_reachable derp_reachable.start sample_fresh)
    (simp_all add: new_server_def sample_server_def join_def feed_def derp_start_def)

lemma sample_derp_live: "dp_live sample_derp = {2, 3, 5}"
  by (auto simp: sample_derp_def join_def feed_def derp_start_def)

lemma sample_derp_watch: "run_next 0 5 (frame frameWatchConns []) s = map_option (\<lambda>(err, br, s). (case err of None \<Rightarrow> Running br | Some e \<Rightarrow> Stopped (Some e), s))
    (handleFrameWatchConns 5 0 [] (noteClientActivity 5 s))"
  using readFrameHeader_frame [of frameWatchConns "[]" "[]"] by (simp add: run_next_def)

definition same_conn :: "sclient \<Rightarrow> sclient \<Rightarrow> bool" where
  "same_conn x y \<longleftrightarrow> sc_done y = sc_done x \<and> sc_bw y = sc_bw x \<and> sc_sendQueue y = sc_sendQueue x \<and> sc_discoSendQueue y = sc_discoSendQueue x \<and>
     sc_key y = sc_key x \<and> sc_canMesh y = sc_canMesh x"

lemma registerClient_same:
  assumes "registerClient c s = Some s'"
  shows "s_watchers s' = s_watchers s \<and> s_dupPolicy s' = s_dupPolicy s \<and> s_publicKey s' = s_publicKey s \<and> same_conn (s_conns s x) (s_conns s' x)"
proof -
  have 1: "s_watchers (register_set c s) = s_watchers s \<and> s_dupPolicy (register_set c s) = s_dupPolicy s \<and> s_publicKey (register_set c s) = s_publicKey s \<and>
      same_conn (s_conns s x) (s_conns (register_set c s) x)"
    by (simp add: register_set_def same_conn_def upd_conn_def count_Add_def Let_def split: option.split clientSet.split)
  show ?thesis
    using assms 1 by (auto simp: registerClient_def broadcastPeerStateChangeLocked_def same_conn_def count_Add_def Let_def split: if_split_asm)
qed

lemma join_same:
  assumes "derp_reachable s0 d" "c \<notin> dp_used d" "fresh_conn x"
  shows "s_watchers (dp_srv (join c x d)) = s_watchers (dp_srv d)" "s_dupPolicy (dp_srv (join c x d)) = s_dupPolicy (dp_srv d)"
    "s_publicKey (dp_srv (join c x d)) = s_publicKey (dp_srv d)"
    "same_conn (if y = c then x else s_conns (dp_srv d) y) (s_conns (dp_srv (join c x d)) y)"
proof -
  obtain s' where s': "registerClient c ((dp_srv d)\<lparr>s_conns := (s_conns (dp_srv d))(c := x)\<rparr>) = Some s'" using join_Some [OF assms] .
  then show "s_watchers (dp_srv (join c x d)) = s_watchers (dp_srv d)" "s_dupPolicy (dp_srv (join c x d)) = s_dupPolicy (dp_srv d)"
    "s_publicKey (dp_srv (join c x d)) = s_publicKey (dp_srv d)"
    "same_conn (if y = c then x else s_conns (dp_srv d) y) (s_conns (dp_srv (join c x d)) y)"
    using registerClient_same [OF s', of y] by (auto simp: join_def)
qed

lemma sample_derp_1: "dp_srv (join 5 (sample_sclient 1 True) (derp_start sample_server)) = sample_server\<lparr>
    s_conns := (s_conns sample_server)(5 := sample_sclient 1 True), s_clients := [(replicate 32 1, singleClient 5)],
    s_clientsMesh := [(replicate 32 1, None)], s_keyOfAddr := [zeroAddrPort \<mapsto> replicate 32 1], s_count := (\<lambda>_. 0)(curClients := 1)\<rparr>"
  by (simp add: join_def derp_start_def registerClient_def register_set_def broadcastPeerStateChangeLocked_def sample_server_def sample_sclient_def
    new_sclient_def count_Add_def Let_def fun_upd_def fun_eq_iff)

lemma feed_srv: "dp_srv (feed now c br d) = snd (the (run_next now c br (dp_srv d)))"
  by (simp add: feed_def)

lemma sample_derp_2:
  defines "d \<equiv> feed 0 5 (frame frameWatchConns []) (join 5 (sample_sclient 1 True) (derp_start sample_server))"
  shows "s_watchers (dp_srv d) = {5}" "s_dupPolicy (dp_srv d) = lastWriterIsActive"
    "same_conn (if y = 5 then sample_sclient 1 True else sample_sclient 0 False) (s_conns (dp_srv d) y)"
  unfolding d_def feed_srv sample_derp_1 sample_derp_watch
  by (simp_all add: handleFrameWatchConns_def noteClientActivity_def addWatcher_def
    requestMeshUpdate_def sample_server_def sample_sclient_def new_sclient_def upd_conn_def same_conn_def Let_def)

lemma sample_derp_srv:
  shows "s_watchers (dp_srv sample_derp) = {5}" "s_dupPolicy (dp_srv sample_derp) = lastWriterIsActive"
    and "same_conn (sample_sclient (if c = 5 then 1 else if c = 2 \<or> c = 3 then 2 else 0) (c = 5)) (s_conns (dp_srv sample_derp) c)"
proof -
  let ?d1 = "join 5 (sample_sclient 1 True) (derp_start sample_server)"
  let ?d2 = "feed 0 5 (frame frameWatchConns []) ?d1"
  let ?d3 = "join 2 (sample_sclient 2 False) ?d2"
  have "derp_reachable sample_server ?d1"
    by (intro join_reachable derp_reachable.start sample_fresh) (simp_all add: new_server_def sample_server_def derp_start_def)
  then have r2: "derp_reachable sample_server ?d2" by (rule feed_reachable) (simp add: join_def)
  have used: "dp_used ?d2 = {5}" by (simp add: feed_def join_def derp_start_def)
  have r3: "derp_reachable sample_server ?d3" using used by (intro join_reachable [OF r2 _ sample_fresh]) (simp only:, simp)
  have used3: "dp_used ?d3 = {2, 5}" using used by (auto simp: join_def)
  note j2 = join_same [OF r2 _ sample_fresh [of 2 False], where c = 2, unfolded used]
  note j3 = join_same [OF r3 _ sample_fresh [of 2 False], where c = 3, unfolded used3, folded sample_derp_def]
  show "s_watchers (dp_srv sample_derp) = {5}" "s_dupPolicy (dp_srv sample_derp) = lastWriterIsActive"
    using j2(1,2) j3(1,2) sample_derp_2 by simp_all
  show "same_conn (sample_sclient (if c = 5 then 1 else if c = 2 \<or> c = 3 then 2 else 0) (c = 5)) (s_conns (dp_srv sample_derp) c)"
    using j2(4) [of c] j3(4) [of c] sample_derp_2(3) [of c] by (auto simp: same_conn_def split: if_splits)
qed

lemma sample_derp_conn: "sc_key (s_conns (dp_srv sample_derp) c) = replicate 32 (if c = 5 then 1 else if c = 2 \<or> c = 3 then 2 else 0)"
  "\<not> sc_done (s_conns (dp_srv sample_derp) c)" "sc_bw (s_conns (dp_srv sample_derp) c) = sample_bufw"
  "sc_sendQueue (s_conns (dp_srv sample_derp) c) = []" "sc_discoSendQueue (s_conns (dp_srv sample_derp) c) = []"
  using sample_derp_srv(3) [of c] by (simp_all add: same_conn_def sample_sclient_def new_sclient_def)

text \<open>
  C17. The registry is exact after any history: a key is recorded with exactly its connections, one as \<open>singleClient\<close> and several as a \<open>dupClientSet\<close>
  that has a last sender; the flags and counters agree with it. None of the explicit panics of the server can
  happen: not for any bytes that a client sends, any ready case of its sender, its end, a new connection, or a withdrawn forwarder.
\<close>

theorem derp_registry_exact:
  assumes "derp_reachable s0 d"
  shows "SInv (dp_srv d) (dp_live d) \<and>
    (\<forall>c\<in>dp_live d. (\<forall>now br. run_next now c br (dp_srv d) \<noteq> None) \<and> unregisterClient c (dp_srv d) \<noteq> None \<and>
      (\<forall>cs. send_ready (s_conns (dp_srv d) c) cs \<longrightarrow> sendLoop_next c cs (dp_srv d) \<noteq> None)) \<and>
    (\<forall>c x. c \<notin> dp_used d \<longrightarrow> fresh_conn x \<longrightarrow> registerClient c ((dp_srv d)\<lparr>s_conns := (s_conns (dp_srv d))(c := x)\<rparr>) \<noteq> None) \<and>
    (\<forall>dst fwd. RemovePacketForwarder dst fwd (dp_srv d) \<noteq> None)"
proof -
  have inv: "SInv (dp_srv d) (dp_live d)" "dp_live d \<subseteq> dp_used d" using derp_reachable_inv [OF assms] by (simp_all add: DInv_def)
  have "registerClient c ((dp_srv d)\<lparr>s_conns := (s_conns (dp_srv d))(c := x)\<rparr>) \<noteq> None" if "c \<notin> dp_used d" "fresh_conn x" for c x
  proof -
    have "SInv ((dp_srv d)\<lparr>s_conns := (s_conns (dp_srv d))(c := x)\<rparr>) (dp_live d)"
      by (rule SInv_other [OF inv(1)]) (use inv(2) that in auto)
    from registerClient_ok [OF this, of c] show ?thesis using inv(2) that by auto
  qed
  moreover have "sendLoop_next c cs (dp_srv d) \<noteq> None" if "send_ready (s_conns (dp_srv d) c) cs" for c cs
    using sendLoop_next_ok [of "dp_srv d" c cs] that by auto
  moreover have "run_next now c br (dp_srv d) \<noteq> None" if "c \<in> dp_live d" for c now br
    using run_next_ok [OF inv(1) that, of now br] by auto
  moreover have "unregisterClient c (dp_srv d) \<noteq> None" if "c \<in> dp_live d" for c using unregisterClient_ok [OF inv(1) that] by auto
  moreover have "RemovePacketForwarder dst fwd (dp_srv d) \<noteq> None" for dst fwd using RemovePacketForwarder_ok [OF inv(1), of dst fwd] by auto
  ultimately show ?thesis using inv(1) by blast
qed

theorem derp_registry_exact_witness:
  "SInv (dp_srv sample_derp) {2, 3, 5} \<and> run_next 9 5 [4, 0, 0, 0, 0] (dp_srv sample_derp) \<noteq> None \<and> unregisterClient 2 (dp_srv sample_derp) \<noteq> None"
  using derp_registry_exact [OF sample_derp_reachable] by (simp only: sample_derp_live) blast

end
