(* ===== verification/Derp_Watch.thy ===== *)
theory Derp_Watch
  imports Derp_Reach
begin

section \<open>Package \<open>derp\<close>: what the servers of a region tell each other\<close>

text \<open>
  A server of the region that watches this one is told of every connection that comes and goes. The theorem says that what it
  has been told, with what waits to be sent to it, is exactly who is connected. Then the consistency check.
\<close>

subsection \<open>What each step tells\<close>




definition keys :: "Server \<Rightarrow> nodekey set" where
  "keys s = dom (map_of (s_clients s))"















subsection \<open>What the watchers know\<close>







lemma keys_live:
  assumes "SInv s L"
  shows "keys s = (\<lambda>c. sc_key (s_conns s c)) ` L"
proof -
  have "k \<in> keys s \<longleftrightarrow> members s L k \<noteq> {}" for k
  proof -
    have "set_ok (members s L k) (map_of (s_clients s) k)" using SInvD(3) [OF assms] by (simp add: sets_ok_def)
    then show ?thesis by (cases "map_of (s_clients s) k"; cases "the (map_of (s_clients s) k)") (auto simp: keys_def)
  qed
  then show ?thesis by (auto simp: members_def)
qed



subsection \<open>The consistency check\<close>

lemma card_live_keys:
  assumes "SInv s L"
  shows "length (s_clients s) = card L \<longleftrightarrow> (\<forall>k. card (members s L k) < 2)"
proof -
  note old = SInvD [OF assms]
  let ?f = "\<lambda>c. sc_key (s_conns s c)"
  have "length (s_clients s) = card (?f ` L)"
    using keys_live [OF assms] distinct_card [OF old(2)] by (simp add: keys_def dom_map_of_conv_image_fst)
  then have "length (s_clients s) = card L \<longleftrightarrow> inj_on ?f L" using old(1) by (simp add: inj_on_iff_eq_card)
  also have "\<dots> \<longleftrightarrow> (\<forall>k. card (members s L k) < 2)"
  proof
    assume inj: "inj_on ?f L"
    show "\<forall>k. card (members s L k) < 2"
    proof
      fix k
      have "\<forall>x\<in>members s L k. \<forall>y\<in>members s L k. x = y" using inj by (auto simp: members_def inj_on_def)
      then show "card (members s L k) < 2" using card_le_Suc0_iff_eq [OF members_finite [OF old(1)], of s k] by simp
    qed
  next
    assume small: "\<forall>k. card (members s L k) < 2"
    show "inj_on ?f L"
    proof (rule inj_onI, rule ccontr)
      fix x y assume xy: "x \<in> L" "y \<in> L" "?f x = ?f y" "x \<noteq> y"
      then have "{x, y} \<subseteq> members s L (?f x)" by (auto simp: members_def)
      then have "card {x, y} \<le> card (members s L (?f x))" using old(1) by (intro card_mono) auto
      then show False using small xy(4) by (metis card_2_iff leD)
    qed
  qed
  finally show ?thesis .
qed

text \<open>
  C22. The consistency check raises a false alarm: on every state that the server can reach, where everything is
  consistent, it complains if and only if some key has two connections, since it compares the number of connections with the number of keys.
\<close>

theorem consistency_check_false_alarm:
  assumes "derp_reachable s0 d"
  shows "ConsistencyCheck (dp_srv d) =
    (if \<exists>c\<in>dp_live d. \<exists>c'\<in>dp_live d. c \<noteq> c' \<and> sc_key (s_conns (dp_srv d) c) = sc_key (s_conns (dp_srv d) c')
     then [''expvar connections != clients map''] else [])"
proof -
  let ?s = "dp_srv d" and ?L = "dp_live d"
  have inv: "SInv ?s ?L" using derp_reachable_inv [OF assms] by (simp add: DInv_def)
  note old = SInvD [OF inv]
  have "filter (\<lambda>(k, f). f = None \<and> map_of (s_clients ?s) k = None) (s_clientsMesh ?s) = []"
    using old(6) by (auto simp: mesh_ok_def filter_empty_conv)
  moreover have "filter (\<lambda>(k, st). map_of (s_clientsMesh ?s) k = None) (s_clients ?s) = []"
  proof -
    have "map_of (s_clientsMesh ?s) k \<noteq> None" if "(k, st) \<in> set (s_clients ?s)" for k st
    proof -
      have "map_of (s_clients ?s) k = Some st" using that old(2) by simp
      then show ?thesis using old(6) unfolding mesh_ok_def by blast
    qed
    then show ?thesis by (auto simp: filter_empty_conv)
  qed
  moreover have "s_count ?s curClients = int (length (s_clients ?s)) \<longleftrightarrow> (\<forall>k. card (members ?s ?L k) < 2)"
    using old(7) card_live_keys [OF inv] by (auto simp: count_ok_def)
  moreover have "(\<forall>k. card (members ?s ?L k) < 2) \<longleftrightarrow> \<not> (\<exists>c\<in>?L. \<exists>c'\<in>?L. c \<noteq> c' \<and> sc_key (s_conns ?s c) = sc_key (s_conns ?s c'))"
    (is "?A \<longleftrightarrow> ?B")
  proof -
    have "?A \<longleftrightarrow> inj_on (\<lambda>c. sc_key (s_conns ?s c)) ?L"
      using card_live_keys [OF inv] keys_live [OF inv] distinct_card [OF old(2)] old(1)
      by (simp add: keys_def dom_map_of_conv_image_fst inj_on_iff_eq_card)
    then show ?thesis by (auto simp: inj_on_def)
  qed
  ultimately show ?thesis unfolding ConsistencyCheck_def Let_def by simp
qed

theorem consistency_check_false_alarm_witness: "ConsistencyCheck (dp_srv sample_derp) = [''expvar connections != clients map'']"
  using consistency_check_false_alarm [OF sample_derp_reachable] by (simp add: sample_derp_live sample_derp_conn)

end
