(* ===== verification/Derp_Relay.thy ===== *)
theory Derp_Relay
  imports Derp_Watch
begin

section \<open>Package \<open>derp\<close>: from client to client\<close>

text \<open>
  Client and server put together: the login of \<open>Derp_Client\<close> is understood by that of \<open>Derp_Sender\<close>, and a packet travels from one client through the
  server to another. Then what is wrong at the edges: a client that announces the zero key, and a forwarder whose number wraps around.
\<close>

subsection \<open>Login\<close>



text \<open>A library of boxes and of encodings that does nothing but add bytes, and a client that uses it.\<close>

definition sample_json :: "clientInfo \<Rightarrow> bytes" where
  "sample_json i = (if ci_CanAckPings i then 1 else 0) # (if ci_IsProber i then 1 else 0) # (if ci_Version i < 0 then 1 else 0) #
     replicate (nat \<bar>ci_Version i\<bar>) 1 @ 0 # map (\<lambda>c. of_nat (of_char c)) (ci_MeshKey i)"

fun sample_unjson :: "bytes \<Rightarrow> clientInfo option" where
  "sample_unjson (a # p # s # r) =
     (let n = length (takeWhile (\<lambda>x. x = 1) r)
      in Some \<lparr>ci_Version = (if s = 1 then - int n else int n), ci_MeshKey = map (\<lambda>b. char_of (unat b)) (drop (n + 1) r),
           ci_CanAckPings = (a = 1), ci_IsProber = (p = 1)\<rparr>)"
| "sample_unjson _ = None"

definition sample_dlib :: "unit dlib" where
  "sample_dlib = \<lparr>d_Public = id, d_box_Seal = (\<lambda>m n p k. replicate 16 0 @ m), d_box_Open = (\<lambda>b n p k. Some (drop 16 b)),
     d_json_clientInfo = sample_json, d_json_Unmarshal_clientInfo = sample_unjson, d_json_serverInfo = (\<lambda>_. []),
     d_json_Unmarshal_serverInfo = (\<lambda>_. None), d_NewLimiter = (\<lambda>_ _. ()), d_AllowN = (\<lambda>_ _ _. (True, ()))\<rparr>"






text \<open>
  C23. A client that has proved nothing can make the server panic: it announces the zero key, for which opening a box panics, and no box has to be valid.
\<close>

theorem zero_key_panics:
  assumes "24 \<le> length msgbox" "length msgbox \<le> 200000"
  shows "recvClientKey D s (frame frameClientInfo (replicate 32 0 @ msgbox) @ rest) = None"
proof -
  let ?b = "replicate 32 0 @ msgbox"
  have "unat (of_nat (length ?b) :: u32) = length ?b" using assms by (intro unat_len) simp
  moreover have "read_bytes 32 (?b @ rest) = Inr (replicate 32 0, msgbox @ rest)" using read_bytes_append [of "replicate 32 0" 32 "msgbox @ rest"] by simp
  ultimately show ?thesis
    using assms by (simp add: recvClientKey_def readFrameTypeHeader_def readFrameHeader_frame ReadRaw_def OpenFrom_def NodeKey_IsZero_def)
qed

theorem zero_key_panics_witness: "recvClientKey sample_dlib sample_server (frame frameClientInfo (replicate 32 0 @ replicate 24 5)) = None"
  using zero_key_panics [of "replicate 24 5" sample_dlib sample_server "[]"] by simp

subsection \<open>Packets\<close>




lemma q_put_simps [simp]: "q_get di (q_put di q x) = q" "sc_bw (q_put di q x) = sc_bw x"
  by (simp_all add: q_get_def q_put_def)







subsection \<open>Forwarders in order\<close>

text \<open>
  The forwarders of a key, oldest first: none, one, or a set in which they are numbered upwards and the first is preferred. No number is at its limit.
\<close>

definition numbered :: "(fwdid \<times> byte) list \<Rightarrow> fwdid list \<Rightarrow> bool" where
  "numbered al xs \<longleftrightarrow> distinct (map fst al) \<and> fst ` set al = set xs \<and> distinct xs \<and>
     sorted_wrt (\<lambda>x y. the (map_of al x) < the (map_of al y)) xs"

fun fwd_rep :: "PacketForwarder option option \<Rightarrow> fwdid list \<Rightarrow> bool" where
  "fwd_rep (Some (Some (MultiFwd m))) xs \<longleftrightarrow> 2 \<le> length xs \<and> numbered (mf_all m) xs \<and> mf_fwd m = hd xs"
| "fwd_rep (Some (Some (Fwd f))) xs \<longleftrightarrow> xs = [f]"
| "fwd_rep _ xs \<longleftrightarrow> xs = []"

lemma max_loop_ge: "mx \<le> max_loop mx al \<and> (\<forall>e\<in>set al. snd e \<le> max_loop mx al)"
proof (induction mx al rule: max_loop.induct)
  case (2 mx f v fs)
  let ?m = "if v > mx then v else mx"
  have "mx \<le> ?m" "v \<le> ?m" by auto
  then show ?case using 2 order_trans by fastforce
qed simp

lemma max_loop_in: "max_loop mx al = mx \<or> max_loop mx al \<in> snd ` set al"
  by (induction mx al rule: max_loop.induct) (auto split: if_splits)

lemma numbered_add:
  assumes "numbered al xs" "fwd \<notin> set xs" "\<forall>e\<in>set al. snd e < 255"
  shows "numbered (AList.update fwd (max_loop 0 al + 1) al) (xs @ [fwd])"
proof -
  have n: "fwd \<notin> fst ` set al" using assms(1,2) by (simp add: numbered_def)
  have "max_loop 0 al < 255" using max_loop_in [of 0 al] assms(3) by auto
  then have lt: "v < max_loop 0 al + 1" if "v \<le> max_loop 0 al" for v
    using that by (simp add: word_less_nat_alt word_le_nat_alt unat_word_ariths)
  have "the (map_of al x) < max_loop 0 al + 1" if "x \<in> set xs" for x
  proof -
    have "x \<in> fst ` set al" using assms(1) that by (simp add: numbered_def)
    then obtain v where "map_of al x = Some v" by (metis map_of_eq_None_iff option.exhaust)
    then show ?thesis using lt max_loop_ge [of 0 al] by (auto dest!: map_of_SomeD)
  qed
  moreover have "sorted_wrt (\<lambda>x y. the (((map_of al)(fwd \<mapsto> w)) x) < the (((map_of al)(fwd \<mapsto> w)) y)) xs" for w
    using assms(1,2) unfolding numbered_def by (elim conjE) (erule sorted_wrt_mono_rel [rotated], auto)
  ultimately show ?thesis
    using assms(1,2) by (auto simp: numbered_def update_conv' distinct_update dom_update sorted_wrt_append)
qed

lemma lowest_loop_least:
  assumes "lowest_loop low al = Some (k, v)" "distinct (map fst al)"
  shows "(\<forall>e\<in>set al. v \<le> snd e) \<and> (case low of None \<Rightarrow> True | Some e \<Rightarrow> v \<le> snd e)"
  using assms
proof (induction low al rule: lowest_loop.induct)
  case (2 low k1 v1 fs)
  then show ?case by (fastforce split: option.splits if_splits)
qed simp

lemma numbered_remove:
  assumes "numbered al xs"
  shows "numbered (AList.delete fwd al) (remove1 fwd xs)"
proof -
  have x: "distinct xs" "fst ` set al = set xs" "distinct (map fst al)" "sorted_wrt (\<lambda>x y. the (map_of al x) < the (map_of al y)) xs"
    using assms by (auto simp: numbered_def)
  have r: "remove1 fwd xs = filter (\<lambda>x. x \<noteq> fwd) xs"
    using x(1) by (simp add: distinct_remove1_removeAll removeAll_filter_not_eq) (rule filter_cong, auto)
  have "sorted_wrt (\<lambda>x y. the (((map_of al)(fwd := None)) x) < the (((map_of al)(fwd := None)) y)) (remove1 fwd xs)"
    unfolding r by (rule sorted_wrt_mono_rel [OF _ sorted_wrt_filter [OF x(4)]]) auto
  moreover have "fst ` set (AList.delete fwd al) = set (remove1 fwd xs)" using x(1,2) by (force simp: AList.delete_eq)
  ultimately show ?thesis using x by (simp add: numbered_def delete_conv' distinct_delete)
qed

lemma numbered_lowest:
  assumes "numbered al (x # xs)"
  shows "\<exists>v. lowest_loop None al = Some (x, v)"
proof -
  have d: "distinct (map fst al)" "fst ` set al = set (x # xs)" "sorted_wrt (\<lambda>x y. the (map_of al x) < the (map_of al y)) (x # xs)" "distinct (x # xs)"
    using assms by (auto simp: numbered_def)
  then have "al \<noteq> []" by auto
  then obtain k v where k: "lowest_loop None al = Some (k, v)" using lowest_loop_ne [of None al] by fastforce
  then have kv: "(k, v) \<in> set al" using lowest_loop_in by fastforce
  have "k = x"
  proof (rule ccontr)
    assume "k \<noteq> x"
    moreover have "k \<in> set (x # xs)" using kv d(2) by force
    ultimately have "the (map_of al x) < the (map_of al k)" using d(3) by auto
    moreover obtain u where u: "(x, u) \<in> set al" using d(2) by (metis (no_types, lifting) image_iff list.set_intros(1) prod.collapse)
    ultimately have "u < v" using kv d(1) by simp
    then show False using lowest_loop_least [OF k d(1)] u by fastforce
  qed
  then show ?thesis using k by blast
qed

text \<open>The same with the bound on the numbers: \<open>n\<close> operations have been made.\<close>

definition fwd_bound :: "nat \<Rightarrow> PacketForwarder option option \<Rightarrow> bool" where
  "fwd_bound n v \<longleftrightarrow> (\<forall>m. v = Some (Some (MultiFwd m)) \<longrightarrow> (\<forall>e\<in>set (mf_all m). unat (snd e) < n))"

fun fwd_spec :: "bool \<times> fwdid \<Rightarrow> fwdid list \<Rightarrow> fwdid list" where
  "fwd_spec (add, f) xs = (if add then if f \<in> set xs then xs else xs @ [f] else remove1 f xs)"

fun fwd_ops :: "nodekey \<Rightarrow> (bool \<times> fwdid) list \<Rightarrow> Server \<Rightarrow> Server option" where
  "fwd_ops dst [] s = Some s"
| "fwd_ops dst ((add, f) # ops) s = Option.bind (if add then Some (AddPacketForwarder dst f s) else RemovePacketForwarder dst f s) (fwd_ops dst ops)"

lemma update_subset: "e \<in> set (AList.update k v al) \<Longrightarrow> e = (k, v) \<or> e \<in> set al"
  by (induction al) (auto split: if_splits)

lemma fwd_add:
  fixes f :: fwdid
  assumes "fwd_rep (map_of (s_clientsMesh s) dst) xs" "fwd_bound n (map_of (s_clientsMesh s) dst)" "1 \<le> length xs \<longrightarrow> 1 \<le> n" "n < 256"
  defines "t \<equiv> AddPacketForwarder dst f s"
  shows "fwd_rep (map_of (s_clientsMesh t) dst) (fwd_spec (True, f) xs) \<and> fwd_bound (Suc n) (map_of (s_clientsMesh t) dst)"
proof (cases "map_of (s_clientsMesh s) dst")
  case None
  then show ?thesis using assms(1) by (simp add: t_def AddPacketForwarder_def fwd_bound_def update_conv')
next
  case (Some v)
  show ?thesis
  proof (cases v)
    case None
    then show ?thesis using assms(1) Some by (simp add: t_def AddPacketForwarder_def fwd_bound_def update_conv')
  next
    case (Some w)
    note v = \<open>map_of (s_clientsMesh s) dst = Some v\<close> Some
    show ?thesis
    proof (cases w)
      case (Fwd g)
      then show ?thesis using assms(1,3) v
        by (auto simp: t_def AddPacketForwarder_def fwd_bound_def update_conv' newMultiForwarder_def count_Add_def numbered_def)
    next
      case (MultiFwd m)
      have m: "2 \<le> length xs" "numbered (mf_all m) xs" "mf_fwd m = hd xs" "\<forall>e\<in>set (mf_all m). unat (snd e) < n"
        using assms(1,2) v MultiFwd by (auto simp: fwd_bound_def)
      have f: "map_of (mf_all m) f \<noteq> None \<longleftrightarrow> f \<in> set xs" using m(2) by (simp add: numbered_def map_of_eq_None_iff)
      show ?thesis
      proof (cases "f \<in> set xs")
        case True
        then show ?thesis using assms(1,2) v MultiFwd f by (auto simp: t_def AddPacketForwarder_def fwd_bound_def update_conv' less_SucI)
      next
        case False
        have lt: "\<forall>e\<in>set (mf_all m). snd e < 255" using m(4) assms(4) by (auto simp: word_less_nat_alt)
        have "unat (max_loop 0 (mf_all m)) < n"
          using max_loop_in [of 0 "mf_all m"] m assms(3) by auto
        then have "unat (max_loop 0 (mf_all m) + 1) < Suc n" using assms(4) by (simp add: unat_word_ariths)
        then have "\<forall>e\<in>set (AList.update f (max_loop 0 (mf_all m) + 1) (mf_all m)). unat (snd e) < Suc n"
          using m(4) update_subset by (fastforce simp: less_SucI)
        then show ?thesis using v MultiFwd f False m numbered_add [OF m(2) False lt]
          by (auto simp: t_def AddPacketForwarder_def fwd_bound_def update_conv' mf_add_def hd_append)
      qed
    qed
  qed
qed

lemma numbered_length: "numbered al xs \<Longrightarrow> length al = length xs"
  unfolding numbered_def by (metis distinct_card length_map set_map)

lemma fwd_remove:
  assumes "fwd_rep (map_of (s_clientsMesh s) dst) xs" "fwd_bound n (map_of (s_clientsMesh s) dst)"
  shows "\<exists>t. RemovePacketForwarder dst f s = Some t \<and> fwd_rep (map_of (s_clientsMesh t) dst) (fwd_spec (False, f) xs) \<and>
    fwd_bound n (map_of (s_clientsMesh t) dst)"
proof (cases "\<exists>m. map_of (s_clientsMesh s) dst = Some (Some (MultiFwd m))")
  case True
  then obtain m where v: "map_of (s_clientsMesh s) dst = Some (Some (MultiFwd m))" by blast
  let ?al = "AList.delete f (mf_all m)" and ?ys = "remove1 f xs"
  have m: "2 \<le> length xs" "numbered (mf_all m) xs" "mf_fwd m = hd xs" "\<forall>e\<in>set (mf_all m). unat (snd e) < n"
    using assms v by (auto simp: fwd_bound_def)
  have al: "numbered ?al ?ys" "length ?al = length ?ys" "length (mf_all m) = length xs"
    using numbered_remove [OF m(2), of f] numbered_length m(2) by auto
  have b: "\<forall>e\<in>set ?al. unat (snd e) < n" using m(4) by (auto simp: AList.delete_eq)
  obtain x xs' where xs: "xs = x # xs'" "xs' \<noteq> []" using m(1) by (cases xs) (auto simp: Suc_le_length_iff)
  have d: "distinct xs" using m(2) by (simp add: numbered_def)
  obtain y ys where ys: "?ys = y # ys" using xs by (cases ?ys) (auto split: if_splits)
  obtain r where r: "lowest_loop None ?al = Some (y, r)" using numbered_lowest [of ?al y ys] al(1) ys by auto
  have "f \<noteq> x \<Longrightarrow> y = x" using ys xs by (simp split: if_splits)
  then have del: "deleteLocked f m = (if length ?ys = 1 then Some (fst (hd ?al)) else None, \<lparr>mf_fwd = y, mf_all = ?al\<rparr>)"
    using r m(3) xs al(2) by (cases m) (auto simp: deleteLocked_def Let_def)
  have one: "fst (hd ?al) = y" if "length ?ys = 1"
  proof -
    have "length ?al = 1" using that al(2) by simp
    then obtain e where "?al = [e]" by (auto simp: length_Suc_conv)
    then show ?thesis using al(1) that ys by (simp add: numbered_def)
  qed
  have "2 \<le> length ?ys" if "length ?ys \<noteq> 1" using that ys by (cases ys) auto
  then show ?thesis
    using v m(1) al del one ys b by (cases "length ?ys = 1") (auto simp: RemovePacketForwarder_def fwd_bound_def update_conv' count_Add_def Let_def)
next
  case False
  have gone: "\<exists>t. notePeerGoneFromRegionLocked dst (s\<lparr>s_clientsMesh := AList.delete dst (s_clientsMesh s)\<rparr>) = Some t \<and>
      map_of (s_clientsMesh t) dst = None"
  proof -
    obtain t where t: "notePeerGoneFromRegionLocked dst (s\<lparr>s_clientsMesh := AList.delete dst (s_clientsMesh s)\<rparr>) = Some t"
      by (simp add: notePeerGoneFromRegionLocked_def delete_conv' Let_def)
    then have "s_clientsMesh t = AList.delete dst (s_clientsMesh s)" using same_reg_notePeerGone [OF t] by (simp add: same_reg_def same_core_def)
    then show ?thesis using t by (simp add: delete_conv')
  qed
  consider "map_of (s_clientsMesh s) dst = None" | "map_of (s_clientsMesh s) dst = Some None"
    | g where "map_of (s_clientsMesh s) dst = Some (Some (Fwd g))"
    using False by (metis PacketForwarder.exhaust option.exhaust)
  then show ?thesis
  proof cases
    case (3 g)
    show ?thesis
    proof (cases "f = g \<and> map_of (s_clients s) dst = None")
      case True
      then show ?thesis using assms(1) 3 gone by (auto simp: RemovePacketForwarder_def fwd_bound_def update_conv')
    next
      case False
      then show ?thesis using assms(1) 3 by (auto simp: RemovePacketForwarder_def fwd_bound_def update_conv' count_Add_def)
    qed
  qed (use assms(1) in \<open>simp_all add: RemovePacketForwarder_def fwd_bound_def update_conv' count_Add_def\<close>)
qed

lemma fwd_ops_rep:
  assumes "fwd_rep (map_of (s_clientsMesh s) dst) xs" "fwd_bound n (map_of (s_clientsMesh s) dst)" "length xs \<le> n" "n + length ops \<le> 256"
  shows "\<exists>t. fwd_ops dst ops s = Some t \<and> fwd_rep (map_of (s_clientsMesh t) dst) (fold fwd_spec ops xs)"
  using assms
proof (induction dst ops s arbitrary: n xs rule: fwd_ops.induct)
  case (2 dst add f ops s)
  have len: "length (fwd_spec (add, f) xs) \<le> Suc n" using "2.prems"(3) by (auto simp: length_remove1)
  have "\<exists>t. (if add then Some (AddPacketForwarder dst f s) else RemovePacketForwarder dst f s) = Some t \<and>
      fwd_rep (map_of (s_clientsMesh t) dst) (fwd_spec (add, f) xs) \<and> fwd_bound (Suc n) (map_of (s_clientsMesh t) dst)"
  proof (cases add)
    case True
    then show ?thesis using fwd_add [OF "2.prems"(1,2), of f] "2.prems"(3,4) by auto
  next
    case False
    moreover have "fwd_bound n v \<Longrightarrow> fwd_bound (Suc n) v" for v by (auto simp: fwd_bound_def less_SucI)
    ultimately show ?thesis using fwd_remove [OF "2.prems"(1,2), of f] by auto
  qed
  then show ?case using "2.IH" len "2.prems"(4) by (fastforce simp del: fwd_spec.simps)
qed simp

text \<open>
  C21. Packets for a key that is connected elsewhere go to the forwarder that has been there the longest. Forwarders are added and removed in any order, up to
  256 times; the one that is used is then the first of the list in which an added forwarder is put last, and there is none exactly when that
  list is empty.
\<close>

theorem oldest_forwarder_used:
  assumes "map_of (s_clientsMesh s) dst = None" "length ops \<le> 256"
  shows "\<exists>t. fwd_ops dst ops s = Some t \<and>
    (case fold fwd_spec ops [] of
       [] \<Rightarrow> map_of (s_clientsMesh t) dst \<in> {None, Some None}
     | f # fs \<Rightarrow> \<exists>w. map_of (s_clientsMesh t) dst = Some (Some w) \<and>
         (\<forall>src b u. ForwardPacket w src dst b u = u\<lparr>s_forwarded := s_forwarded u @ [(f, src, dst, b)]\<rparr>))"
proof -
  obtain t where t: "fwd_ops dst ops s = Some t" "fwd_rep (map_of (s_clientsMesh t) dst) (fold fwd_spec ops [])"
    using fwd_ops_rep [of s dst "[]" 0 ops] assms by (auto simp: fwd_bound_def)
  then show ?thesis
    by (cases "(map_of (s_clientsMesh t) dst, fold fwd_spec ops [])" rule: fwd_rep.cases) (auto split: list.split)
qed

theorem oldest_forwarder_used_witness:
  "\<exists>t w. fwd_ops [1] [(True, 4), (True, 5), (True, 6), (False, 4)] sample_server = Some t \<and> map_of (s_clientsMesh t) [1] = Some (Some w) \<and>
     (\<forall>src b u. ForwardPacket w src [1] b u = u\<lparr>s_forwarded := s_forwarded u @ [(5, src, [1], b)]\<rparr>)"
  using oldest_forwarder_used [of sample_server "[1]" "[(True, 4), (True, 5), (True, 6), (False, 4)]"]
  by (simp add: sample_server_def del: fwd_ops.simps)

text \<open>A forwarder that is added when the number of another has reached its limit gets the lowest number instead of the highest.\<close>

lemma forwarder_number_wraps:
  assumes "map_of (mf_all m) f = Some 255"
  shows "map_of (mf_all (mf_add g m)) g = Some 0"
proof -
  have "255 \<le> max_loop 0 (mf_all m)" using max_loop_ge [of 0 "mf_all m"] map_of_SomeD [OF assms] by fastforce
  then have "unat (max_loop 0 (mf_all m)) = unat (255 :: byte)" using unsigned_less [of "max_loop 0 (mf_all m)", where ?'a = nat] by (simp add: word_le_nat_alt)
  then have "max_loop 0 (mf_all m) = 255" by (simp only: word_unat_eq_iff)
  then show ?thesis by (simp add: mf_add_def update_conv')
qed

end
