(* ===== verification/Spec2Isabelle.thy ===== *)
theory Spec2Isabelle
  imports Tstun Tstun_Queue Tka_Retain Key_Limiter Stun Derp_Relay
begin

text \<open>
  A verification library for the Mirage client, a client for Tailscale networks in Go.

  \<^bold>\<open>The program.\<close> A node of the network exchanges IP packets with its peers through WireGuard. On the way
  between the TUN device of the operating system and WireGuard every packet passes the wrapper of
  \<open>src/net/tstun\<close>, which decodes it (\<open>src/net/packet\<close>), translates its addresses where a peer asks for
  it (\<open>src/net/packet/checksum\<close>, \<open>src/net/tstun/table\<close>, \<open>src/tempfork/device\<close>), judges it by the stateful
  packet filter (\<open>src/wgengine/filter\<close>, with the flow cache of \<open>src/net/flowtrack\<close> and the log limiter of
  \<open>src/tstime/rate\<close>), and answers pings, reports refused connections and injects packets of its own
  (\<open>src/net/packet/tsmp.go\<close>, \<open>icmp4.go\<close>, \<open>icmp6.go\<close>). Peers find direct paths by the messages of \<open>src/disco\<close>,
  and learn their public addresses by those of \<open>src/net/stun\<close>; servers limit the requests of a client by
  \<open>src/util/limiter\<close> on the cache of \<open>src/util/lru\<close>. Where no direct path is found, packets go through a relay
  (\<open>src/derp\<close>), to which nodes connect by their keys; the relays of a region tell each other which keys are
  connected where, and forward packets.
  Routes are kept in the allotment routing table of \<open>src/net/art\<close>. Which nodes belong to the network
  is decided by the key authority of \<open>src/tka\<close>: a chain of signed update messages, kept in a storage,
  synchronised between nodes and compacted. This library models these parts.

  \<^bold>\<open>Conventions.\<close> A Go struct is a record, an interface with known implementations a datatype, a machine
  integer a word of its width, a byte slice a list of bytes. A function that can panic returns an
  option with \<open>None\<close> for the panic; a function that can fail returns a sum or, in \<open>tka\<close>, an \<open>outcome\<close>
  with the cases return, raise and panic. State is passed explicitly. Code outside the repository is a
  parameter: CBOR, BLAKE2s, ed25519 and Argon2 are the record \<open>L\<close> of the theories on \<open>tka\<close>, gVisor's
  checksum updates are the record \<open>gvisor\<close>, the constants of wireguard-go, the device and the callbacks
  of the wrapper are the record \<open>Env\<close>, NaCl, JSON and the rate limiter of the relay protocol are the record \<open>dlib\<close>. What a theorem needs of them is a named hypothesis, and a witness
  instantiates them by concrete functions. The standard library is modelled as far as it is used.

  \<^bold>\<open>The theories.\<close>
  \<^item> \<open>Prelude\<close>: slices, big-endian words, collections of simplification rules. \<open>Netip\<close>: addresses and
    prefixes of \<open>net/netip\<close>, with containment read on lists of bits. \<open>Netip_Wire\<close>: their 16-byte forms.
  \<^item> \<open>Packet\<close>: \<open>Decode\<close> and the accessors of \<open>Parsed\<close> (\<open>packet.go\<close>). Decoding never panics and its result
    satisfies the documented contract of \<open>Parsed\<close>; two lemmas show where the contract is weaker than one
    would expect (a truncated packet, the payload of a short UDP packet).
  \<^item> \<open>Checksum\<close>, \<open>Packet_Headers\<close>: the Internet checksum and the header writers (\<open>ip4.go\<close>, \<open>ip6.go\<close>, \<open>udp4.go\<close>,
    \<open>udp6.go\<close>, \<open>icmp4.go\<close>, \<open>icmp6.go\<close>, \<open>header.go\<close>). The locale \<open>header\<close> is the contract of the Go interface
    \<open>Header\<close>, interpreted for every header type; round trips show that what is written is decoded again.
    \<open>Packet_Tsmp\<close>: the messages of \<open>tsmp.go\<close>. \<open>Packet_Nat\<close>: the rewriting of addresses and the
    incremental checksum of \<open>checksum.go\<close>.
  \<^item> \<open>Lru_Spec\<close>, \<open>Flowtrack\<close>: what a bounded cache promises, as the locale \<open>lru_cache\<close>, and the cache of
    \<open>flowtrack.go\<close>, list and map kept apart as in the code, as an interpretation of it. \<open>Rate\<close>: the token
    bucket of \<open>rate.go\<close>. \<open>Lru_Ring\<close>: the cache of \<open>lru.go\<close>, a ring of entries in a heap that point at each
    other, as another interpretation: no history of calls follows a nil pointer, and each behaves as on
    a list ordered by recency. \<open>Key_Limiter\<close>: the token bucket of each key, with overdraft
    (\<open>limiter.go\<close>), in such a cache of pointers.
  \<^item> \<open>Filter_Match\<close>, \<open>Packet_Filter\<close>: the rules (\<open>match.go\<close>) and the filter (\<open>filter.go\<close>). The state of a filter
    is its rules and a reference into a world of shared flow caches, so that filters may share a cache
    as in the code. The theorems give the exact verdict of every packet, and say which packets are
    accepted without a rule, when a reply is accepted, and what shields-up mode refuses.
  \<^item> \<open>Tsaddr\<close>: the address ranges and conversions of \<open>tsaddr.go\<close>.
  \<^item> \<open>Allowed_Ips\<close>, \<open>Allowed_Routes\<close>, \<open>Tstun_Table\<close>: the trie of allowed addresses (\<open>allowedips.go\<close>) and the
    table built on it (\<open>table.go\<close>). The locale \<open>peer_table\<close> is the abstract map from prefixes to peers; the
    trie is an interpretation.
  \<^item> \<open>Tstun_Nat\<close>: the NAT configuration of \<open>wrap.go\<close>. \<open>Tstun\<close>: the packet path of \<open>wrap.go\<close>, which composes
    decoder, NAT, filter, TSMP and injection. \<open>Tstun_Queue\<close>: the goroutines of \<open>wrap.go\<close> that share the
    packet buffer, as a step relation with an invariant on all reachable states.
  \<^item> \<open>Disco\<close>: the discovery messages of \<open>disco.go\<close> and \<open>pcap.go\<close>. \<open>Stun\<close>: the binding requests and responses of
    \<open>stun.go\<close>, with the checksum of the fingerprint; round trips, and that no packet makes the parsers panic.
  \<^item> \<open>Derp_Frame\<close> (\<open>derp.go\<close>), \<open>Derp_Client\<close> (\<open>derp_client.go\<close>), \<open>Derp_Server\<close>, \<open>Derp_Mesh\<close>, \<open>Derp_Sender\<close> (\<open>derp_server.go\<close>):
    frames, the client, and of the server the registry of connections, the frames from a client, the
    forwarders of the mesh, the sender and the login. \<open>Derp_Reach\<close>: the server as a step relation over
    connections, frames, writes and forwarders; after any history the registry, its flags and its
    counters are exact, and no step panics. \<open>Derp_Watch\<close>: what other servers are told adds up to the
    connected keys; the consistency check. \<open>Derp_Relay\<close>: login and relaying from client to client, and which
    forwarder is used.
  \<^item> \<open>Stride_Table\<close>: one stride (\<open>stride_table.go\<close>), with the locale \<open>route_table\<close> for a table of
    routes. \<open>Art_Bits\<close>, \<open>Art_Table\<close>, \<open>Art_Tree\<close>, \<open>Art_Update\<close>, \<open>Art_Delete\<close>, \<open>Art_Routes\<close>: the
    path-compressed tree of strides (\<open>table.go\<close>), as a refinement of a map from prefixes with lookup by
    longest match.
  \<^item> \<open>Tka_State\<close> (\<open>key.go\<close>, \<open>aum.go\<close>, \<open>state.go\<close>), \<open>Tka_Sig\<close> (\<open>sig.go\<close>), \<open>Tka_Chonk\<close> (both storages of
    \<open>tailchonk.go\<close>, with the locale \<open>chonk\<close> for their interface), \<open>Tka_Chain\<close>, \<open>Tka_Authority\<close>, \<open>Tka_Inform\<close>,
    \<open>Tka_Access\<close> (\<open>tka.go\<close>), \<open>Tka_Builder\<close> (\<open>builder.go\<close>), \<open>Tka_Sync\<close> (\<open>sync.go\<close>), \<open>Tka_Compact\<close>, \<open>Tka_Retain\<close>
    (compaction in \<open>tailchonk.go\<close>). The theorems say which updates apply and how they change the trusted
    keys, that only verified messages are stored, that fork resolution does not depend on the order of
    the candidates, which node keys are authorized, and what compaction keeps and what it breaks.

  \<^bold>\<open>Loops and fuel.\<close> Loops over slices are structural recursion. Loops over the chain of messages that the
  code bounds (\<open>maxScanIterations\<close> and the like) have the same bound in the model, and running out of it
  is the error the code returns. The loops that the code does not bound, in compaction and in
  the construction of a revocation, are partial functions into an option, where \<open>None\<close> is not returning;
  the theorem on descendants shows that their marking ends. The other loops have termination proofs.
  \<open>Rate\<close> uses rationals for the floating-point fields.

  \<^bold>\<open>Concurrency.\<close> Outside \<open>Tstun_Queue\<close> an operation is one step: the code holds a lock, or is called by one
  goroutine, or loads an atomic value once. In \<open>Tstun_Queue\<close> a step is what a goroutine does between two
  points where another one may interfere. In \<open>Derp_Reach\<close> a step is one frame of a reader or one case of a
  sender, in any order over all connections.

  \<^bold>\<open>Not modelled.\<close> Text forms for logs and debugging; the gVisor packet buffers and TAP frames of the
  wrapper; the local backend (\<open>src/ipn\<close>), the engine and its sockets (\<open>src/wgengine/userspace.go\<close>,
  \<open>magicsock\<close>, \<open>netstack\<close>, \<open>router\<close>), the control protocol (\<open>src/control\<close>), the transport of the relay protocol over HTTP
  (\<open>src/derp/derphttp\<close>) with the start, the shutdown and the statistics of a relay, network probing, DNS, port mapping, SSH, logging, file transfer and the command-line programs: they are mostly
  input and output, timers and calls of the operating system. Of \<open>src/tailcfg\<close>, the wire types of the
  control protocol, only what the filter and the capture records use is modelled.
\<close>

end
